(* ===== verification/Prelude.thy ===== *)
theory Prelude
  imports Main "HOL-Library.Word" "HOL-Library.List_Lexorder"
begin

text \<open>
  Shared vocabulary of the henchDB development: the machine types of the Rust sources, fallible
  results, byte-level integer codecs, UTF-8 validity, and the generic lemmas on lists and words
  the component theories rely on.

  \<^item> \<open>u8\<close>, \<open>u32\<close>, \<open>u64\<close> and \<open>i64\<close> are words of their width; an \<open>i64\<close> is read with \<open>sint\<close>.
  \<^item> An \<open>f64\<close> is the word of its IEEE-754 bits, as \<open>f64::to_bits\<close> gives it.
  \<^item> A Rust \<open>String\<close> is its UTF-8 byte sequence. HOL's \<open>char\<close> is a byte, so a \<open>string\<close> is used;
    \<open>str_bytes\<close> and \<open>bytes_str\<close> convert (\<open>as_bytes\<close>, \<open>from_utf8\<close> on valid input).
  \<^item> \<open>Vec<u8>\<close> is \<open>bytes\<close>; slices compare as memcmp does, which is the list order of
    HOL-Library's \<open>List_Lexorder\<close>.
  \<^item> \<open>usize\<close> offsets and lengths are natural numbers (they index existing buffers).
\<close>

section \<open>Machine types\<close>

type_synonym u8 = "8 word"
type_synonym u32 = "32 word"
type_synonym u64 = "64 word"
type_synonym i64 = "64 word"
type_synonym f64 = "64 word"
type_synonym bytes = "u8 list"

named_theorems codec_simps \<open>facts that evaluate a decoder on the output of its encoder\<close>

section \<open>Strings as byte sequences\<close>

definition str_bytes :: "string \<Rightarrow> bytes" where
  "str_bytes s = map (\<lambda>c. of_nat (of_char c)) s"

definition bytes_str :: "bytes \<Rightarrow> string" where
  "bytes_str bs = map (\<lambda>b. char_of (unat b)) bs"

lemma unat_of_char [simp]: "unat (of_nat (of_char c) :: u8) = of_char c"
  by (simp add: unat_of_nat)

lemma unat_u8_less [simp]: "unat (b :: u8) < 256"
  using unsigned_less [where ?'a = nat, of b] by simp

lemma bytes_str_str_bytes [simp]: "bytes_str (str_bytes s) = s"
  by (simp add: bytes_str_def str_bytes_def map_idI)

lemma str_bytes_bytes_str [simp]: "str_bytes (bytes_str bs) = bs"
  by (simp add: bytes_str_def str_bytes_def map_idI)

lemma length_str_bytes [simp]: "length (str_bytes s) = length s"
  by (simp add: str_bytes_def)

lemma length_bytes_str [simp]: "length (bytes_str bs) = length bs"
  by (simp add: bytes_str_def)

lemma str_bytes_inject [simp]: "str_bytes s = str_bytes t \<longleftrightarrow> s = t"
  by (metis bytes_str_str_bytes)

text \<open>Well-formed UTF-8, as \<open>String::from_utf8\<close> accepts it (Unicode, table 3-7).\<close>

definition in_range :: "u8 \<Rightarrow> nat \<Rightarrow> nat \<Rightarrow> bool" where
  "in_range b lo hi \<longleftrightarrow> lo \<le> unat b \<and> unat b \<le> hi"

fun utf8_valid :: "bytes \<Rightarrow> bool" where
  "utf8_valid [] = True"
| "utf8_valid (a # bs) =
    (if in_range a 0 0x7F then utf8_valid bs
     else if in_range a 0xC2 0xDF then
       (case bs of b # r \<Rightarrow> in_range b 0x80 0xBF \<and> utf8_valid r | _ \<Rightarrow> False)
     else if in_range a 0xE0 0xEF then
       (case bs of b # c # r \<Rightarrow>
          in_range b (if a = 0xE0 then 0xA0 else 0x80) (if a = 0xED then 0x9F else 0xBF) \<and>
          in_range c 0x80 0xBF \<and> utf8_valid r
        | _ \<Rightarrow> False)
     else if in_range a 0xF0 0xF4 then
       (case bs of b # c # d # r \<Rightarrow>
          in_range b (if a = 0xF0 then 0x90 else 0x80) (if a = 0xF4 then 0x8F else 0xBF) \<and>
          in_range c 0x80 0xBF \<and> in_range d 0x80 0xBF \<and> utf8_valid r
        | _ \<Rightarrow> False)
     else False)"

abbreviation valid_str :: "string \<Rightarrow> bool" where
  "valid_str s \<equiv> utf8_valid (str_bytes s)"

lemma ascii_valid: "(\<forall>b \<in> set bs. unat b < 128) \<Longrightarrow> utf8_valid bs"
  by (induction bs) (auto simp: in_range_def)

section \<open>Decimal rendering\<close>

fun dec_string :: "nat \<Rightarrow> string" where
  "dec_string n = (if n < 10 then [char_of (48 + n)]
                   else dec_string (n div 10) @ [char_of (48 + n mod 10)])"

declare dec_string.simps [simp del]

section \<open>Fallible results\<close>

fun rbind :: "'e + 'a \<Rightarrow> ('a \<Rightarrow> 'e + 'b) \<Rightarrow> 'e + 'b" where
  "rbind (Inl e) f = Inl e"
| "rbind (Inr x) f = f x"

lemma rbind_eq_Inr: "rbind m f = Inr y \<longleftrightarrow> (\<exists>x. m = Inr x \<and> f x = Inr y)"
  by (cases m) auto

lemma rbind_cong [fundef_cong]:
  "m = m' \<Longrightarrow> (\<And>x. m' = Inr x \<Longrightarrow> f x = f' x) \<Longrightarrow> rbind m f = rbind m' f'"
  by (cases m') auto

section \<open>Fixed-width integer encodings\<close>

text \<open>\<open>to_le_bytes\<close> / \<open>from_le_bytes\<close> and the big-endian forms, least digit or greatest digit first.\<close>

fun le_nat :: "nat \<Rightarrow> nat \<Rightarrow> bytes" where
  "le_nat 0 x = []"
| "le_nat (Suc n) x = of_nat x # le_nat n (x div 256)"

fun nat_le :: "bytes \<Rightarrow> nat" where
  "nat_le [] = 0"
| "nat_le (b # bs) = unat b + 256 * nat_le bs"

fun be_nat :: "nat \<Rightarrow> nat \<Rightarrow> bytes" where
  "be_nat 0 x = []"
| "be_nat (Suc n) x = of_nat (x div 256 ^ n) # be_nat n x"

fun nat_be :: "bytes \<Rightarrow> nat" where
  "nat_be [] = 0"
| "nat_be (b # bs) = unat b * 256 ^ length bs + nat_be bs"

lemma unat_of_nat_u8 [simp]: "unat (of_nat x :: u8) = x mod 256"
  by (simp add: unat_of_nat)

lemma length_le_nat [simp]: "length (le_nat n x) = n"
  by (induction n arbitrary: x) auto

lemma length_be_nat [simp]: "length (be_nat n x) = n"
  by (induction n) auto

lemma nat_le_le_nat: "nat_le (le_nat n x) = x mod 256 ^ n"
  by (induction n arbitrary: x) (auto simp: mod_mult2_eq)

lemma nat_be_be_nat: "nat_be (be_nat n x) = x mod 256 ^ n"
proof (induction n)
  case (Suc n)
  have "x mod (256 ^ n * 256) = 256 ^ n * (x div 256 ^ n mod 256) + x mod 256 ^ n"
    by (rule mod_mult2_eq)
  with Suc show ?case by (simp add: mult.commute)
qed simp

lemma digit_bound: "u < b \<Longrightarrow> x < P \<Longrightarrow> u + b * x < b * (P::nat)"
  by (metis Suc_leI add.commute add_less_cancel_left less_le_trans mult_Suc_right mult_le_mono2)

lemma digit_bound_high: "u < b \<Longrightarrow> x < P \<Longrightarrow> u * P + x < b * (P::nat)"
  by (metis Suc_leI add_less_cancel_left add.commute less_le_trans mult_Suc mult_le_mono1)

lemma nat_le_bound: "nat_le bs < 256 ^ length bs"
  by (induction bs) (auto intro: digit_bound)

lemma nat_be_bound: "nat_be bs < 256 ^ length bs"
  by (induction bs) (auto intro: digit_bound_high)

lemma be_nat_mod: "be_nat n (x mod 256 ^ n) = be_nat n x"
proof -
  have "be_nat m (x mod 256 ^ n) = be_nat m x" if "m \<le> n" for m
    using that
  proof (induction m)
    case (Suc m)
    then have "\<exists>d. n = Suc m + d" by (metis le_iff_add)
    then obtain d where n: "n = Suc m + d" by blast
    have "x mod (256 ^ m * (256 * 256 ^ d)) div 256 ^ m = x div 256 ^ m mod (256 * 256 ^ d)"
      by (simp only: mod_mult2_eq) simp
    then have "x mod 256 ^ n div 256 ^ m mod 256 = x div 256 ^ m mod 256"
      by (simp add: n power_add ac_simps mod_mult2_eq)
    then have "(of_nat (x mod 256 ^ n div 256 ^ m) :: u8) = of_nat (x div 256 ^ m)"
      by (intro word_unat_eq_iff [THEN iffD2]) simp
    with Suc show ?case by simp
  qed simp
  then show ?thesis by simp
qed

text \<open>Big-endian encoding turns numeric order into memcmp order.\<close>

lemma be_nat_less:
  assumes "x < y" and "y < 256 ^ n"
  shows "be_nat n x < be_nat n y"
  using assms
proof (induction n arbitrary: x y)
  case 0
  then show ?case by simp
next
  case (Suc n)
  let ?P = "256 ^ n :: nat"
  have q: "x div ?P < 256" "y div ?P < 256" "x div ?P \<le> y div ?P"
    using Suc.prems by (auto simp: less_mult_imp_div_less div_le_mono)
  show ?case
  proof (cases "x div ?P = y div ?P")
    case True
    then have "x mod ?P < y mod ?P"
      using Suc.prems(1) by (metis div_mult_mod_eq nat_add_left_cancel_less)
    then have "be_nat n (x mod ?P) < be_nat n (y mod ?P)"
      using Suc.IH by simp
    with True show ?thesis by (simp add: be_nat_mod)
  next
    case False
    with q have "(of_nat (x div ?P) :: u8) < of_nat (y div ?P)"
      by (simp add: word_less_nat_alt)
    then show ?thesis by simp
  qed
qed

abbreviation u32_le :: "u32 \<Rightarrow> bytes" where "u32_le w \<equiv> le_nat 4 (unat w)"
abbreviation u64_le :: "u64 \<Rightarrow> bytes" where "u64_le w \<equiv> le_nat 8 (unat w)"
abbreviation u64_be :: "u64 \<Rightarrow> bytes" where "u64_be w \<equiv> be_nat 8 (unat w)"
abbreviation u32_of_le :: "bytes \<Rightarrow> u32" where "u32_of_le bs \<equiv> of_nat (nat_le bs)"
abbreviation u64_of_le :: "bytes \<Rightarrow> u64" where "u64_of_le bs \<equiv> of_nat (nat_le bs)"
abbreviation u64_of_be :: "bytes \<Rightarrow> u64" where "u64_of_be bs \<equiv> of_nat (nat_be bs)"

lemma unat_u32_less: "unat (w :: u32) < 2 ^ 32"
  using unsigned_less [where ?'a = nat, of w] by simp

lemma unat_u64_less: "unat (w :: u64) < 2 ^ 64"
  using unsigned_less [where ?'a = nat, of w] by simp

lemma nat_le_u32 [codec_simps]: "nat_le (u32_le w) = unat w"
  using unat_u32_less [of w] by (simp add: nat_le_le_nat)

lemma nat_le_u64 [codec_simps]: "nat_le (u64_le w) = unat w"
  using unat_u64_less [of w] by (simp add: nat_le_le_nat)

lemma nat_be_u64 [codec_simps]: "nat_be (u64_be w) = unat w"
  using unat_u64_less [of w] by (simp add: nat_be_be_nat)

lemma le_nat_nat_le: "le_nat (length bs) (nat_le bs) = bs"
proof (induction bs)
  case (Cons b bs)
  have "of_nat (unat b + 256 * nat_le bs) = b"
  proof -
    have "(256 :: u8) = 0" by (simp add: word_eq_iff_unsigned)
    then have "256 * word_of_nat (nat_le bs) = (0 :: u8)" by (metis mult_zero_left)
    then show ?thesis by simp
  qed
  moreover have "unat b < 256" using unsigned_less [where ?'a = nat, of b] by simp
  then have "(unat b + 256 * nat_le bs) div 256 = nat_le bs" by simp
  ultimately show ?case using Cons by simp
qed simp

lemma u32_le_of_le: "length bs = 4 \<Longrightarrow> u32_le (u32_of_le bs) = bs"
  using nat_le_bound [of bs] le_nat_nat_le [of bs] by (simp add: unat_of_nat)

lemma u64_le_of_le: "length bs = 8 \<Longrightarrow> u64_le (u64_of_le bs) = bs"
  using nat_le_bound [of bs] le_nat_nat_le [of bs] by (simp add: unat_of_nat)

lemma u64_be_less: "u < w \<Longrightarrow> u64_be u < u64_be w"
  using unat_u64_less [of w] by (intro be_nat_less) (simp_all add: word_less_nat_alt)

lemma u64_be_inject: "u64_be u = u64_be w \<longleftrightarrow> u = w"
  by (metis nat_be_u64 word_unat_eq_iff)

section \<open>The sign bit of a 64-bit word\<close>

unbundle bit_operations_syntax

abbreviation sign_bit :: u64 where "sign_bit \<equiv> 0x8000000000000000"

lemma bit63_iff: "bit (w :: u64) 63 \<longleftrightarrow> 2 ^ 63 \<le> unat w"
proof -
  have "bit w 63 = bit (unat w) 63"
    by (simp add: bit_unsigned_iff)
  also have "\<dots> = odd (unat w div 2 ^ 63)"
    by (rule bit_iff_odd)
  finally have "bit w 63 = odd (unat w div 2 ^ 63)" .
  moreover have "unat w div 2 ^ 63 < 2"
    using unat_u64_less [of w] by (simp add: less_mult_imp_div_less)
  ultimately show ?thesis
    by (cases "unat w div 2 ^ 63 = 0") (auto simp: div_eq_0_iff less_2_cases_iff not_less)
qed

lemma and_sign_bit: "(w :: u64) AND sign_bit = 0 \<longleftrightarrow> unat w < 2 ^ 63"
  using and_exp_eq_0_iff_not_bit [of w 63] bit63_iff [of w] by (simp add: not_le)

lemma xor_sign_bit: "(w :: u64) XOR sign_bit = w + sign_bit"
proof (cases "w AND sign_bit = 0")
  case True
  then show ?thesis by (rule disjunctive_add_eq_xor [symmetric])
next
  case False
  have b: "bit w 63" using False and_exp_eq_0_iff_not_bit [of w 63] by simp
  have "bit (w XOR 2 ^ 63) 63 = False"
    using b by (simp add: bit_xor_iff bit_exp_iff)
  then have "(w XOR sign_bit) AND sign_bit = 0"
    using and_exp_eq_0_iff_not_bit [of "w XOR sign_bit" 63] by simp
  then have "(w XOR sign_bit) + sign_bit = (w XOR sign_bit) XOR sign_bit"
    by (rule disjunctive_add_eq_xor)
  then have e: "(w XOR sign_bit) + sign_bit = w"
    by (simp only: xor.assoc xor_self_eq xor.right_neutral)
  have "w + sign_bit = ((w XOR sign_bit) + sign_bit) + sign_bit" by (simp only: e)
  also have "\<dots> = (w XOR sign_bit) + (sign_bit + sign_bit)" by (rule add.assoc)
  also have "sign_bit + sign_bit = (0 :: u64)" by simp
  finally show ?thesis by simp
qed

lemma unat_xor_sign:
  "unat ((w :: u64) XOR sign_bit) = (if unat w < 2 ^ 63 then unat w + 2 ^ 63 else unat w - 2 ^ 63)"
  using unat_u64_less [of w]
  by (auto simp: xor_sign_bit unat_word_ariths mod_if)

lemma unat_not: "unat (NOT (w :: u64)) = 2 ^ 64 - 1 - unat w"
proof -
  have "NOT w = - 1 - w" by (simp add: not_eq_complement)
  moreover have "unat (- 1 - w) = unat (- 1 :: u64) - unat w" by (rule unat_sub) simp
  moreover have "unat (- 1 :: u64) = 2 ^ 64 - 1"
    by (simp add: unsigned_minus_1_eq_mask mask_eq_exp_minus_1)
  ultimately show ?thesis by simp
qed

lemma sint_unat:
  "sint (w :: u64) = (if unat w < 2 ^ 63 then int (unat w) else int (unat w) - 2 ^ 64)"
proof -
  have "sint w = signed_take_bit 63 (int (unat w))" by (simp add: sint_uint)
  also have "\<dots> = (int (unat w) + 2 ^ 63) mod 2 ^ 64 - 2 ^ 63"
    by (simp add: signed_take_bit_eq_take_bit_shift take_bit_eq_mod)
  also have "\<dots> = (if unat w < 2 ^ 63 then int (unat w) else int (unat w) - 2 ^ 64)"
  proof -
    have "(int x + 2 ^ 63) mod 2 ^ 64 - 2 ^ 63 = (if x < 2 ^ 63 then int x else int x - 2 ^ 64)"
      if "x < 2 ^ 64" for x :: nat
    proof (cases "x < 2 ^ 63")
      case False
      have "(int x + 2 ^ 63) mod 2 ^ 64 = (int x + 2 ^ 63 - 2 ^ 64) mod 2 ^ 64"
        by (rule minus_mod_self2 [symmetric])
      also have "\<dots> = int x + 2 ^ 63 - 2 ^ 64"
        using that False by (intro mod_pos_pos_trivial) auto
      finally show ?thesis using False by simp
    qed (use that in \<open>simp add: mod_pos_pos_trivial\<close>)
    from this [OF unat_u64_less] show ?thesis .
  qed
  finally show ?thesis .
qed

lemma sint_less_xor: "sint (a :: u64) < sint b \<longleftrightarrow> a XOR sign_bit < b XOR sign_bit"
proof -
  have "(if x < 2 ^ 63 then int x else int x - 2 ^ 64) < (if y < 2 ^ 63 then int y else int y - 2 ^ 64)
     \<longleftrightarrow> (if x < 2 ^ 63 then x + 2 ^ 63 else x - 2 ^ 63) < (if y < 2 ^ 63 then y + 2 ^ 63 else y - 2 ^ 63)"
    if "x < 2 ^ 64" "y < 2 ^ 64" for x y :: nat
    using that by auto
  from this [OF unat_u64_less unat_u64_less, of a b] show ?thesis
    by (simp only: sint_unat word_less_nat_alt unat_xor_sign)
qed

section \<open>Slices\<close>

definition slice :: "bytes \<Rightarrow> nat \<Rightarrow> nat \<Rightarrow> bytes" where
  "slice buf off n = take n (drop off buf)"

lemma slice_exact [codec_simps]: "n = length mid \<Longrightarrow> slice (pre @ mid @ post) (length pre) n = mid"
  by (simp add: slice_def)

lemma length_slice: "off + n \<le> length buf \<Longrightarrow> length (slice buf off n) = n"
  by (simp add: slice_def)

section \<open>Memcmp order\<close>

lemma less_append_cancel [simp]: "(p @ xs :: 'a::linorder list) < p @ ys \<longleftrightarrow> xs < ys"
  by (induction p) auto

lemma less_append_left:
  "(xs :: 'a::linorder list) < ys \<Longrightarrow> length xs = length ys \<Longrightarrow> xs @ a < ys @ b"
  by (induction xs ys rule: list_induct2') auto

section \<open>Lists updated by position\<close>

text \<open>\<open>Vec::insert\<close> and \<open>Vec::remove\<close>.\<close>

definition insert_at :: "nat \<Rightarrow> 'a \<Rightarrow> 'a list \<Rightarrow> 'a list" where
  "insert_at i x xs = take i xs @ x # drop i xs"

definition remove_at :: "nat \<Rightarrow> 'a list \<Rightarrow> 'a list" where
  "remove_at i xs = take i xs @ drop (Suc i) xs"

lemma insert_at_append [simp]: "i = length xs \<Longrightarrow> insert_at i x (xs @ ys) = xs @ x # ys"
  by (simp add: insert_at_def)

lemma remove_at_append [simp]: "i = length xs \<Longrightarrow> remove_at i (xs @ y # ys) = xs @ ys"
  by (simp add: remove_at_def)

lemma length_insert_at [simp]: "length (insert_at i x xs) = Suc (length xs)"
  by (simp add: insert_at_def)

lemma length_remove_at: "i < length xs \<Longrightarrow> length (remove_at i xs) = length xs - 1"
  by (simp add: remove_at_def)

lemma map_insert_at: "map f (insert_at i x xs) = insert_at i (f x) (map f xs)"
  by (simp add: insert_at_def take_map drop_map)

lemma map_remove_at: "map f (remove_at i xs) = remove_at i (map f xs)"
  by (simp add: remove_at_def take_map drop_map)

lemma split_at_nth:
  "i < length xs \<Longrightarrow> \<exists>ys zs. xs = ys @ xs ! i # zs \<and> length ys = i"
  by (metis id_take_nth_drop length_take min.absorb4 less_imp_le)

section \<open>Removing one element of a sorted list\<close>

lemma sorted_wrt_remove1: "sorted_wrt P xs \<Longrightarrow> sorted_wrt P (remove1 x xs)"
proof (induction xs)
  case (Cons a xs)
  then show ?case using set_remove1_subset [of x xs] by auto
qed simp

end
