(* ===== verification/Engine_Error.thy ===== *)
theory Engine_Error
  imports Prelude
begin

text \<open>
  The engine's error values (\<open>crates/engine/src/error.rs\<close>): the \<open>Error\<close> enum, its \<open>Display\<close> text
  and the \<open>Result\<close> alias every fallible operation of the engine returns. Field structs keep the
  order of their fields in the source.
\<close>

datatype error =
    TableNotFound string
  | TableExists string
  | ColumnNotFound string
  | ColumnCountMismatch nat nat
  | TypeMismatch string string
  | DuplicateKey string
  | NotNullViolation string
  | MultiplePrimaryKeys
  | MissingPrimaryKey
  | ParseError string
  | TxnNotActive
  | TxnConflict string
  | Io string
  | Corrupted string
  | NotSupported string
  | IndexNotFound string
  | IndexExists string
  | ForeignKeyViolation string
  | InvalidSchema string
  | DatabaseNotFound string
  | DatabaseExists string
  | QueryTimeout
  | ReadOnlyReplica
  | InvalidQuery string
  | ExecutionError string
  | InvalidOperation string
  | AccessDenied string string string

type_synonym 'a result = "error + 'a"

fun error_text :: "error \<Rightarrow> string" where
  "error_text QueryTimeout =
     ''Query execution was interrupted, maximum statement execution time exceeded''"
| "error_text (DatabaseNotFound d) = ''database '' @ CHR 0x27 # d @ CHR 0x27 # '' does not exist''"
| "error_text (DatabaseExists d) = ''database '' @ CHR 0x27 # d @ CHR 0x27 # '' already exists''"
| "error_text (TableNotFound t) = ''table '' @ CHR 0x27 # t @ CHR 0x27 # '' does not exist''"
| "error_text (TableExists t) = ''table '' @ CHR 0x27 # t @ CHR 0x27 # '' already exists''"
| "error_text (ColumnNotFound c) = ''column '' @ CHR 0x27 # c @ CHR 0x27 # '' not found''"
| "error_text (ColumnCountMismatch expected got) =
     ''expected '' @ dec_string expected @ '' values, got '' @ dec_string got"
| "error_text (TypeMismatch expected got) =
     ''type mismatch: expected '' @ expected @ '', got '' @ got"
| "error_text (DuplicateKey k) = ''duplicate primary key: '' @ k"
| "error_text (NotNullViolation c) = ''column '' @ CHR 0x27 # c @ CHR 0x27 # '' cannot be NULL''"
| "error_text MultiplePrimaryKeys = ''only a single-column PRIMARY KEY is supported''"
| "error_text MissingPrimaryKey = ''table requires a PRIMARY KEY column''"
| "error_text (ParseError m) = ''parse error: '' @ m"
| "error_text TxnNotActive = ''no active transaction''"
| "error_text (TxnConflict m) = ''transaction conflict: '' @ m"
| "error_text (Io m) = ''io error: '' @ m"
| "error_text (Corrupted m) = ''corrupted storage: '' @ m"
| "error_text (NotSupported m) = ''not supported: '' @ m"
| "error_text (IndexNotFound i) = ''index '' @ CHR 0x27 # i @ CHR 0x27 # '' does not exist''"
| "error_text (IndexExists i) = ''index '' @ CHR 0x27 # i @ CHR 0x27 # '' already exists''"
| "error_text (ForeignKeyViolation m) = ''foreign key constraint fails: '' @ m"
| "error_text (InvalidSchema m) = ''invalid schema: '' @ m"
| "error_text ReadOnlyReplica =
     ''The server is running with the --read-only option so it cannot execute this statement''"
| "error_text (InvalidQuery m) = ''invalid query: '' @ m"
| "error_text (ExecutionError m) = ''execution error: '' @ m"
| "error_text (InvalidOperation m) = ''invalid operation: '' @ m"
| "error_text (AccessDenied user command object) =
     command @ '' command denied to user '' @ CHR 0x27 # user @ CHR 0x27 # ''@'' @
     CHR 0x27 # ''localhost'' @ CHR 0x27 # '' for table '' @ CHR 0x27 # object @ [CHR 0x27]"

end
