(* ===== verification/Codec.thy ===== *)
theory Codec
  imports Engine_Error
begin

text \<open>
  Cursor decoders. The sources decode with \<open>fn f(buf: &[u8], off: &mut usize) -> Result<T>\<close>: the
  model of such a function takes the buffer and the offset and returns the value with the new
  offset. This theory holds the shared reader primitives, the loop \<open>for _ in 0..n\<close> over a decoder,
  and the interface \<open>cursor_codec\<close> between an encoder and its decoder, whose lemmas lift a round
  trip of elements to a round trip of vectors.
\<close>

section \<open>What a cursor points at\<close>

definition at_off :: "bytes \<Rightarrow> nat \<Rightarrow> bytes \<Rightarrow> bool" where
  "at_off buf off r \<longleftrightarrow> off \<le> length buf \<and> drop off buf = r"

lemma at_off_append: "at_off buf off (a @ r) \<Longrightarrow> at_off buf (off + length a) r"
proof -
  assume a: "at_off buf off (a @ r)"
  then have "length (drop off buf) = length (a @ r)" by (simp add: at_off_def)
  moreover have "drop (length a) (drop off buf) = r"
    using a by (simp add: at_off_def)
  ultimately show ?thesis using a by (auto simp: at_off_def add.commute)
qed

lemma at_off_Cons: "at_off buf off (b # r) \<Longrightarrow> at_off buf (Suc off) r"
  using at_off_append [of buf off "[b]" r] by simp

lemma at_off_nth: "at_off buf off (b # r) \<Longrightarrow> off < length buf \<and> buf ! off = b"
  by (metis at_off_def drop_eq_Nil list.distinct(1) linorder_not_less Cons_nth_drop_Suc list.inject)

lemma at_off_slice:
  "at_off buf off (a @ r) \<Longrightarrow> n = length a \<Longrightarrow> slice buf off n = a \<and> off + n \<le> length buf"
  by (metis at_off_append at_off_def slice_def append_eq_conv_conj)

lemma at_off_start: "at_off buf 0 buf"
  by (simp add: at_off_def)

lemma at_off_pre: "at_off (pre @ r) (length pre) r"
  by (simp add: at_off_def)

lemma at_off_length: "at_off buf off r \<Longrightarrow> length buf = off + length r"
  by (auto simp: at_off_def)

lemma at_off_take:
  "at_off buf off (a @ r) \<Longrightarrow> at_off (take (off + length a) buf) off a"
  by (auto simp: at_off_def drop_take)

section \<open>Reader primitives\<close>

definition get_byte :: "string \<Rightarrow> bytes \<Rightarrow> nat \<Rightarrow> (u8 \<times> nat) result" where
  "get_byte msg buf off =
     (if off < length buf then Inr (buf ! off, Suc off) else Inl (Corrupted msg))"

definition take_n :: "string \<Rightarrow> nat \<Rightarrow> bytes \<Rightarrow> nat \<Rightarrow> (bytes \<times> nat) result" where
  "take_n msg n buf off =
     (if off + n > length buf then Inl (Corrupted msg) else Inr (slice buf off n, off + n))"

lemma get_byte_at [codec_simps]:
  "at_off buf off (b # r) \<Longrightarrow> get_byte msg buf off = Inr (b, Suc off)"
  by (simp add: get_byte_def at_off_nth)

lemma take_n_at [codec_simps]:
  "at_off buf off (a @ r) \<Longrightarrow> n = length a \<Longrightarrow> take_n msg n buf off = Inr (a, off + n)"
  using at_off_slice [of buf off a r n] by (simp add: take_n_def)

lemma get_byte_off: "get_byte msg buf off = Inr (b, off') \<Longrightarrow> off < off' \<and> off' \<le> length buf"
  by (auto simp: get_byte_def split: if_splits)

lemma take_n_off:
  "take_n msg n buf off = Inr (bs, off') \<Longrightarrow> off' = off + n \<and> off' \<le> length buf \<and> length bs = n"
  by (auto simp: take_n_def length_slice split: if_splits)

lemma byte_bind:
  assumes "at_off buf off (b # r)" "\<And>o1. o1 = Suc off \<Longrightarrow> at_off buf o1 r \<Longrightarrow> f (b, o1) = y"
  shows "rbind (get_byte msg buf off) f = y"
  using get_byte_at [OF assms(1)] at_off_Cons [OF assms(1)] assms(2) by simp

lemma take_n_bind:
  assumes "at_off buf off (a @ r)" "n = length a" "\<And>o1. o1 = off + n \<Longrightarrow> at_off buf o1 r \<Longrightarrow> f (a, o1) = y"
  shows "rbind (take_n msg n buf off) f = y"
  using take_n_at [OF assms(1,2)] at_off_append [OF assms(1)] assms(2,3) by simp

section \<open>The loop over a decoder\<close>

fun decode_n :: "(bytes \<Rightarrow> nat \<Rightarrow> ('a \<times> nat) result) \<Rightarrow> nat \<Rightarrow> bytes \<Rightarrow> nat \<Rightarrow> ('a list \<times> nat) result"
where
  "decode_n dec 0 buf off = Inr ([], off)"
| "decode_n dec (Suc n) buf off =
     rbind (dec buf off) (\<lambda>(x, o1).
     rbind (decode_n dec n buf o1) (\<lambda>(xs, o2). Inr (x # xs, o2)))"

lemma decode_n_length: "decode_n dec n buf off = Inr (xs, off') \<Longrightarrow> length xs = n"
  by (induction n arbitrary: off xs off') (auto simp: rbind_eq_Inr)

section \<open>Encoder and decoder as an interface\<close>

locale cursor_codec =
  fixes enc :: "'a \<Rightarrow> bytes"
    and dec :: "bytes \<Rightarrow> nat \<Rightarrow> ('a \<times> nat) result"
    and ok :: "'a \<Rightarrow> bool"
  assumes round_at:
    "ok x \<Longrightarrow> at_off buf off (enc x @ r) \<Longrightarrow> dec buf off = Inr (x, off + length (enc x))"
begin

lemma round_step:
  assumes "ok x" and "at_off buf off (enc x @ r)"
  shows "dec buf off = Inr (x, off + length (enc x)) \<and> at_off buf (off + length (enc x)) r"
  using assms round_at at_off_append by blast

text \<open>One step of a decoder that reads a value and goes on.\<close>

lemma bind:
  assumes "at_off buf off (enc x @ r)" "ok x"
    and "\<And>o1. o1 = off + length (enc x) \<Longrightarrow> at_off buf o1 r \<Longrightarrow> f (x, o1) = y"
  shows "rbind (dec buf off) f = y"
  using round_step [OF assms(2,1)] assms(3) by simp

lemma round_trip: "ok x \<Longrightarrow> dec (enc x) 0 = Inr (x, length (enc x))"
  using round_at [of x "enc x" 0 "[]"] at_off_start [of "enc x"] by simp

lemma list_round_at:
  "list_all ok xs \<Longrightarrow> at_off buf off (concat (map enc xs) @ r) \<Longrightarrow>
   decode_n dec (length xs) buf off = Inr (xs, off + length (concat (map enc xs)))"
proof (induction xs arbitrary: off)
  case (Cons x xs)
  from Cons.prems have "at_off buf off (enc x @ concat (map enc xs) @ r)" by simp
  moreover have "ok x" using Cons.prems by simp
  ultimately have step: "dec buf off = Inr (x, off + length (enc x))"
    and rest: "at_off buf (off + length (enc x)) (concat (map enc xs) @ r)"
    using round_step [of x buf off "concat (map enc xs) @ r"] by blast+
  have "list_all ok xs" using Cons.prems by simp
  from Cons.IH [OF this rest] show ?case by (simp add: step)
qed simp

lemma list_bind:
  assumes "at_off buf off (concat (map enc xs) @ r)" "list_all ok xs" "n = length xs"
    and "\<And>o1. o1 = off + length (concat (map enc xs)) \<Longrightarrow> at_off buf o1 r \<Longrightarrow> f (xs, o1) = y"
  shows "rbind (decode_n dec n buf off) f = y"
  using list_round_at [OF assms(2,1)] assms(3,4) at_off_append [OF assms(1)] by simp

lemma enc_inject:
  assumes "ok x" "ok y" "enc x = enc y"
  shows "x = y"
proof -
  have "dec (enc y) 0 = Inr (x, length (enc y))"
    using round_trip [OF assms(1)] unfolding assms(3) .
  then show ?thesis unfolding round_trip [OF assms(2)] by simp
qed

text \<open>No encoding is a proper prefix of another: the format needs no terminator.\<close>

lemma prefix_free:
  assumes "ok x" "ok y" "enc x @ r = enc y @ s"
  shows "x = y \<and> r = s"
proof -
  have "dec (enc x @ r) 0 = Inr (x, length (enc x))"
    using round_at [OF assms(1) at_off_start] by simp
  moreover have "dec (enc y @ s) 0 = Inr (y, length (enc y))"
    using round_at [OF assms(2) at_off_start] by simp
  ultimately have "x = y" unfolding assms(3) by simp
  with assms(3) show ?thesis by simp
qed

end

text \<open>A decoder that always moves forward and stays inside the buffer.\<close>

locale cursor_advance =
  fixes dec :: "bytes \<Rightarrow> nat \<Rightarrow> ('a \<times> nat) result"
  assumes advance: "dec buf off = Inr (x, off') \<Longrightarrow> off < off' \<and> off' \<le> length buf"
begin

lemma decode_n_advance:
  "decode_n dec n buf off = Inr (xs, off') \<Longrightarrow> off \<le> length buf \<Longrightarrow>
   off + n \<le> off' \<and> off' \<le> length buf"
proof (induction n arbitrary: off xs)
  case (Suc n)
  then obtain x o1 ys where x: "dec buf off = Inr (x, o1)"
    and ys: "decode_n dec n buf o1 = Inr (ys, off')"
    by (auto simp: rbind_eq_Inr)
  from advance [OF x] Suc.IH [OF ys] show ?case by simp
qed simp

text \<open>A count field cannot make the loop allocate more elements than the buffer has bytes.\<close>

lemma decode_n_count:
  assumes "decode_n dec n buf off = Inr (xs, off')" and "off \<le> length buf"
  shows "n \<le> length buf"
  using decode_n_advance [OF assms] by simp

end

section \<open>Length-prefixed byte strings\<close>

text \<open>\<open>put_bytes\<close> and \<open>put_str\<close> of \<open>wal.rs\<close>, also used by \<open>stats.rs\<close> and \<open>catalog.rs\<close>: a
  little-endian \<open>u32\<close> length, then the bytes.\<close>

definition put_bytes :: "bytes \<Rightarrow> bytes" where
  "put_bytes b = u32_le (of_nat (length b)) @ b"

definition put_str :: "string \<Rightarrow> bytes" where
  "put_str s = u32_le (of_nat (length (str_bytes s))) @ str_bytes s"

definition take_bytes :: "bytes \<Rightarrow> nat \<Rightarrow> (bytes \<times> nat) result" where
  "take_bytes buf off =
     rbind (take_n ''bytes: truncated'' 4 buf off) (\<lambda>(b, o1).
     take_n ''bytes: overruns record'' (unat (u32_of_le b)) buf o1)"

definition take_u32 :: "bytes \<Rightarrow> nat \<Rightarrow> (u32 \<times> nat) result" where
  "take_u32 buf off =
     rbind (take_n ''u32: truncated'' 4 buf off) (\<lambda>(b, o1). Inr (u32_of_le b, o1))"

definition take_str :: "bytes \<Rightarrow> nat \<Rightarrow> (string \<times> nat) result" where
  "take_str buf off =
     rbind (take_bytes buf off) (\<lambda>(b, o1).
     if utf8_valid b then Inr (bytes_str b, o1) else Inl (Corrupted ''utf8 string''))"

definition short :: "'a list \<Rightarrow> bool" where
  "short xs \<longleftrightarrow> length xs < 2 ^ 32"

lemma unat_of_nat_short [codec_simps]: "short xs \<Longrightarrow> unat (of_nat (length xs) :: u32) = length xs"
  by (simp add: short_def unat_of_nat)

lemma length_put_bytes: "length (put_bytes b) = 4 + length b"
  by (simp add: put_bytes_def)

interpretation bytes_codec: cursor_codec put_bytes take_bytes short
proof
  fix x :: bytes and buf off r
  assume ok: "short x" and a: "at_off buf off (put_bytes x @ r)"
  then have a1: "at_off buf off (u32_le (of_nat (length x)) @ x @ r)" by (simp add: put_bytes_def)
  from at_off_append [OF a1] have a2: "at_off buf (off + 4) (x @ r)" by simp
  have "nat_le (le_nat 4 (length x)) = length x"
    using ok by (simp add: nat_le_le_nat short_def)
  then show "take_bytes buf off = Inr (x, off + length (put_bytes x))"
    using ok take_n_at [OF a1, of 4 "''bytes: truncated''"]
      take_n_at [OF a2 refl, of "''bytes: overruns record''"]
    by (simp add: take_bytes_def codec_simps length_put_bytes)
qed

interpretation u32_codec: cursor_codec u32_le take_u32 "\<lambda>_. True"
proof
  fix w :: u32 and buf off r
  assume "at_off buf off (u32_le w @ r)"
  then show "take_u32 buf off = Inr (w, off + length (u32_le w))"
    using take_n_at [of buf off "u32_le w" r 4 "''u32: truncated''"]
    by (simp add: take_u32_def codec_simps)
qed

abbreviation str_ok :: "string \<Rightarrow> bool" where
  "str_ok s \<equiv> short s \<and> valid_str s"

lemma put_str_bytes: "put_str s = put_bytes (str_bytes s)"
  by (simp add: put_str_def put_bytes_def)

lemma short_str_bytes [simp]: "short (str_bytes s) = short s"
  by (simp add: short_def)

interpretation str_codec: cursor_codec put_str take_str str_ok
proof
  fix x :: string and buf off r
  assume ok: "str_ok x" and a: "at_off buf off (put_str x @ r)"
  from bytes_codec.round_at [of "str_bytes x"] ok a
  show "take_str buf off = Inr (x, off + length (put_str x))"
    by (simp add: take_str_def put_str_bytes)
qed

lemma take_bytes_off:
  "take_bytes buf off = Inr (b, off') \<Longrightarrow> off < off' \<and> off' \<le> length buf"
  by (auto simp: take_bytes_def rbind_eq_Inr dest!: take_n_off)

interpretation bytes_adv: cursor_advance take_bytes
  by unfold_locales (rule take_bytes_off)

interpretation str_adv: cursor_advance take_str
  by unfold_locales (auto simp: take_str_def rbind_eq_Inr split: if_splits dest!: take_bytes_off)

interpretation u32_adv: cursor_advance take_u32
  by unfold_locales (auto simp: take_u32_def rbind_eq_Inr dest!: take_n_off)

end
