(* ===== verification/Values.thy ===== *)
theory Values
  imports Codec
begin

unbundle bit_operations_syntax

text \<open>
  Values of the engine (\<open>crates/engine/src/types.rs\<close>): the \<open>Datum\<close> enum, its order, its payload
  encoding, and the column types with the datum kinds they accept.
\<close>

section \<open>IEEE-754 doubles by their bits\<close>

text \<open>The comparisons and the integer conversion the source uses of \<open>f64\<close>, on the bit pattern:
  \<open>f64_key\<close> reads a non-NaN double as a signed magnitude, which orders doubles numerically
  (both zeros are 0).\<close>

definition f64_mag :: "f64 \<Rightarrow> nat" where
  "f64_mag b = unat (b AND 0x7FFFFFFFFFFFFFFF)"

definition f64_neg :: "f64 \<Rightarrow> bool" where
  "f64_neg b \<longleftrightarrow> b AND 0x8000000000000000 \<noteq> 0"

definition f64_nan :: "f64 \<Rightarrow> bool" where
  "f64_nan b \<longleftrightarrow> 0x7FF0000000000000 < f64_mag b"

definition f64_key :: "f64 \<Rightarrow> int" where
  "f64_key b = (if f64_neg b then - int (f64_mag b) else int (f64_mag b))"

definition f64_eq :: "f64 \<Rightarrow> f64 \<Rightarrow> bool" where
  "f64_eq a b \<longleftrightarrow> \<not> f64_nan a \<and> \<not> f64_nan b \<and> f64_key a = f64_key b"

definition f64_lt :: "f64 \<Rightarrow> f64 \<Rightarrow> bool" where
  "f64_lt a b \<longleftrightarrow> \<not> f64_nan a \<and> \<not> f64_nan b \<and> f64_key a < f64_key b"

definition f64_le :: "f64 \<Rightarrow> f64 \<Rightarrow> bool" where
  "f64_le a b \<longleftrightarrow> \<not> f64_nan a \<and> \<not> f64_nan b \<and> f64_key a \<le> f64_key b"

fun bit_length :: "nat \<Rightarrow> nat" where
  "bit_length n = (if n = 0 then 0 else Suc (bit_length (n div 2)))"

declare bit_length.simps [simp del]

text \<open>\<open>v as f64\<close> for \<open>v: i64\<close>: round to nearest, ties to even.\<close>

definition f64_of_mag :: "nat \<Rightarrow> nat" where
  "f64_of_mag m =
     (if m = 0 then 0
      else let l = bit_length m in
        if l \<le> 53 then (1022 + l) * 2 ^ 52 + (m * 2 ^ (53 - l) - 2 ^ 52)
        else let s = l - 53; q = m div 2 ^ s; r = m mod 2 ^ s; h = 2 ^ (s - 1);
                 q' = (if r > h \<or> (r = h \<and> odd q) then q + 1 else q)
             in (1022 + l) * 2 ^ 52 + (q' - 2 ^ 52))"

definition f64_of_i64 :: "i64 \<Rightarrow> f64" where
  "f64_of_i64 v =
     (if sint v < 0 then of_nat (f64_of_mag (nat (- sint v))) OR 0x8000000000000000
      else of_nat (f64_of_mag (nat (sint v))))"

section \<open>Datum\<close>

datatype datum =
    DNull
  | DInt i64
  | DFloat f64
  | DText string
  | DBool bool
  | DDateTime i64

fun type_name :: "datum \<Rightarrow> string" where
  "type_name DNull = ''NULL''"
| "type_name (DInt _) = ''INT''"
| "type_name (DFloat _) = ''FLOAT''"
| "type_name (DText _) = ''TEXT''"
| "type_name (DBool _) = ''BOOL''"
| "type_name (DDateTime _) = ''DATETIME''"

fun type_rank :: "datum \<Rightarrow> nat" where
  "type_rank DNull = 0"
| "type_rank (DBool _) = 1"
| "type_rank (DInt _) = 2"
| "type_rank (DFloat _) = 2"
| "type_rank (DDateTime _) = 3"
| "type_rank (DText _) = 4"

fun as_f64 :: "datum \<Rightarrow> f64 option" where
  "as_f64 (DInt v) = Some (f64_of_i64 v)"
| "as_f64 (DFloat v) = Some v"
| "as_f64 _ = None"

text \<open>The derived \<open>PartialEq\<close>: structural, with \<open>f64\<close> equality on floats.\<close>

fun datum_eq :: "datum \<Rightarrow> datum \<Rightarrow> bool" where
  "datum_eq (DFloat a) (DFloat b) = f64_eq a b"
| "datum_eq a b = (a = b)"

datatype ordering = Less | Equal | Greater

definition cmp :: "'a::linorder \<Rightarrow> 'a \<Rightarrow> ordering" where
  "cmp a b = (if a < b then Less else if a = b then Equal else Greater)"

definition partial_cmp_f64 :: "f64 \<Rightarrow> f64 \<Rightarrow> ordering option" where
  "partial_cmp_f64 a b = (if f64_nan a \<or> f64_nan b then None else Some (cmp (f64_key a) (f64_key b)))"

definition unwrap_or_equal :: "ordering option \<Rightarrow> ordering" where
  "unwrap_or_equal c = (case c of Some r \<Rightarrow> r | None \<Rightarrow> Equal)"

definition datum_cmp :: "datum \<Rightarrow> datum \<Rightarrow> ordering" where
  "datum_cmp a b =
     (let ra = type_rank a; rb = type_rank b in
      if ra \<noteq> rb then cmp ra rb
      else (case (a, b) of
         (DBool x, DBool y) \<Rightarrow> cmp x y
       | (DInt x, DInt y) \<Rightarrow> cmp (sint x) (sint y)
       | (DFloat x, DFloat y) \<Rightarrow> unwrap_or_equal (partial_cmp_f64 x y)
       | (DDateTime x, DDateTime y) \<Rightarrow> cmp (sint x) (sint y)
       | (DText x, DText y) \<Rightarrow> cmp (str_bytes x) (str_bytes y)
       | _ \<Rightarrow> (case (as_f64 a, as_f64 b) of
                 (Some x, Some y) \<Rightarrow> unwrap_or_equal (partial_cmp_f64 x y)
               | _ \<Rightarrow> Equal)))"

abbreviation datum_lt :: "datum \<Rightarrow> datum \<Rightarrow> bool" where
  "datum_lt a b \<equiv> datum_cmp a b = Less"

abbreviation datum_le :: "datum \<Rightarrow> datum \<Rightarrow> bool" where
  "datum_le a b \<equiv> datum_cmp a b \<noteq> Greater"

section \<open>Payload encoding\<close>

definition bool_byte :: "bool \<Rightarrow> u8" where
  "bool_byte b = (if b then 1 else 0)"

fun encode :: "datum \<Rightarrow> bytes" where
  "encode DNull = [0]"
| "encode (DInt v) = 1 # u64_le v"
| "encode (DFloat v) = 2 # u64_le v"
| "encode (DText v) = 3 # u32_le (of_nat (length (str_bytes v))) @ str_bytes v"
| "encode (DBool v) = [4, bool_byte v]"
| "encode (DDateTime v) = 5 # u64_le v"

definition take_dat :: "nat \<Rightarrow> bytes \<Rightarrow> nat \<Rightarrow> (bytes \<times> nat) result" where
  "take_dat n buf off = take_n ''datum: truncated'' n buf off"

definition decode :: "bytes \<Rightarrow> nat \<Rightarrow> (datum \<times> nat) result" where
  "decode buf off =
     rbind (get_byte ''datum: EOF'' buf off) (\<lambda>(tag, o1).
       if tag = 0 then Inr (DNull, o1)
       else if tag = 1 then rbind (take_dat 8 buf o1) (\<lambda>(b, o2). Inr (DInt (u64_of_le b), o2))
       else if tag = 2 then rbind (take_dat 8 buf o1) (\<lambda>(b, o2). Inr (DFloat (u64_of_le b), o2))
       else if tag = 3 then
         rbind (take_dat 4 buf o1) (\<lambda>(b, o2).
         rbind (take_dat (unat (u32_of_le b)) buf o2) (\<lambda>(t, o3).
           if utf8_valid t then Inr (DText (bytes_str t), o3) else Inl (Corrupted ''utf8'')))
       else if tag = 4 then rbind (take_dat 1 buf o1) (\<lambda>(b, o2). Inr (DBool (b ! 0 \<noteq> 0), o2))
       else if tag = 5 then rbind (take_dat 8 buf o1) (\<lambda>(b, o2). Inr (DDateTime (u64_of_le b), o2))
       else Inl (Corrupted (''unknown datum tag '' @ dec_string (unat tag))))"

fun datum_ok :: "datum \<Rightarrow> bool" where
  "datum_ok (DText s) = str_ok s"
| "datum_ok _ = True"

section \<open>Column types\<close>

datatype column_type =
    TInt | TBigInt | TFloat | TDouble | TText | TVarChar | TBool | TDateTime | TTimestamp

definition ascii_upper :: "char \<Rightarrow> char" where
  "ascii_upper c = (if 97 \<le> (of_char c :: nat) \<and> (of_char c :: nat) \<le> 122
                    then char_of ((of_char c :: nat) - 32) else c)"

definition column_type_parse :: "string \<Rightarrow> column_type result" where
  "column_type_parse s =
     (let u = map ascii_upper s in
      if u = ''INT'' \<or> u = ''INTEGER'' then Inr TInt
      else if u = ''BIGINT'' \<or> u = ''LONG'' then Inr TBigInt
      else if u = ''FLOAT'' \<or> u = ''REAL'' then Inr TFloat
      else if u = ''DOUBLE'' then Inr TDouble
      else if u = ''TEXT'' \<or> u = ''STRING'' then Inr TText
      else if u = ''VARCHAR'' then Inr TVarChar
      else if u = ''BOOL'' \<or> u = ''BOOLEAN'' then Inr TBool
      else if u = ''DATETIME'' then Inr TDateTime
      else if u = ''TIMESTAMP'' then Inr TTimestamp
      else Inl (ParseError (''unknown type '' @ CHR 0x27 # u @ [CHR 0x27])))"

fun column_type_name :: "column_type \<Rightarrow> string" where
  "column_type_name TInt = ''INT''"
| "column_type_name TBigInt = ''BIGINT''"
| "column_type_name TFloat = ''FLOAT''"
| "column_type_name TDouble = ''DOUBLE''"
| "column_type_name TText = ''TEXT''"
| "column_type_name TVarChar = ''VARCHAR''"
| "column_type_name TBool = ''BOOL''"
| "column_type_name TDateTime = ''DATETIME''"
| "column_type_name TTimestamp = ''TIMESTAMP''"

fun accepts :: "column_type \<Rightarrow> datum \<Rightarrow> bool" where
  "accepts TInt d = (case d of DInt _ \<Rightarrow> True | DBool _ \<Rightarrow> True | DNull \<Rightarrow> True | _ \<Rightarrow> False)"
| "accepts TBigInt d = (case d of DInt _ \<Rightarrow> True | DBool _ \<Rightarrow> True | DNull \<Rightarrow> True | _ \<Rightarrow> False)"
| "accepts TFloat d =
     (case d of DInt _ \<Rightarrow> True | DFloat _ \<Rightarrow> True | DBool _ \<Rightarrow> True | DNull \<Rightarrow> True | _ \<Rightarrow> False)"
| "accepts TDouble d =
     (case d of DInt _ \<Rightarrow> True | DFloat _ \<Rightarrow> True | DBool _ \<Rightarrow> True | DNull \<Rightarrow> True | _ \<Rightarrow> False)"
| "accepts TText d = (case d of DText _ \<Rightarrow> True | DNull \<Rightarrow> True | _ \<Rightarrow> False)"
| "accepts TVarChar d = (case d of DText _ \<Rightarrow> True | DNull \<Rightarrow> True | _ \<Rightarrow> False)"
| "accepts TBool d = (case d of DBool _ \<Rightarrow> True | DInt _ \<Rightarrow> True | DNull \<Rightarrow> True | _ \<Rightarrow> False)"
| "accepts TDateTime d =
     (case d of DDateTime _ \<Rightarrow> True | DText _ \<Rightarrow> True | DInt _ \<Rightarrow> True | DNull \<Rightarrow> True | _ \<Rightarrow> False)"
| "accepts TTimestamp d =
     (case d of DDateTime _ \<Rightarrow> True | DText _ \<Rightarrow> True | DInt _ \<Rightarrow> True | DNull \<Rightarrow> True | _ \<Rightarrow> False)"

section \<open>The payload codec\<close>

lemma take_dat_at [codec_simps]:
  "at_off buf off (a @ r) \<Longrightarrow> n = length a \<Longrightarrow> take_dat n buf off = Inr (a, off + n)"
  by (simp add: take_dat_def take_n_at)

lemma take_dat_off:
  "take_dat n buf off = Inr (b, off') \<Longrightarrow> off' = off + n \<and> off' \<le> length buf \<and> length b = n"
  by (auto simp: take_dat_def dest: take_n_off)

interpretation datum_codec: cursor_codec encode decode datum_ok
proof
  fix x buf off r
  assume ok: "datum_ok x" and a: "at_off buf off (encode x @ r)"
  obtain t p where e: "encode x = t # p" by (cases x) auto
  from a e have a0: "at_off buf off (t # p @ r)" by simp
  note a1 = at_off_Cons [OF a0] and t = get_byte_at [OF a0, of "''datum: EOF''"]
  show "decode buf off = Inr (x, off + length (encode x))"
  proof (cases x)
    case (DText s)
    with e have t3: "t = 3" and p: "p = u32_le (of_nat (length (str_bytes s))) @ str_bytes s" by auto
    from a1 p have a2: "at_off buf (Suc off) (u32_le (of_nat (length (str_bytes s))) @ str_bytes s @ r)"
      by simp
    from at_off_append [OF a2] have a3: "at_off buf (Suc off + 4) (str_bytes s @ r)" by simp
    have n: "nat_le (le_nat 4 (length s)) = length s"
      using ok DText by (simp add: nat_le_le_nat short_def)
    show ?thesis
      using ok DText t t3 take_dat_at [OF a2, of 4] take_dat_at [OF a3 refl] n
      by (simp add: decode_def codec_simps)
  next
    case (DBool b)
    with e have t4: "t = 4" and p: "p = [bool_byte b]" by auto
    from a1 p have "at_off buf (Suc off) ([bool_byte b] @ r)" by simp
    from take_dat_at [OF this, of 1] show ?thesis
      using DBool t t4 by (simp add: decode_def bool_byte_def)
  qed (use e t a1 take_dat_at [OF a1, of 8] in \<open>auto simp: decode_def codec_simps\<close>)
qed

interpretation datum_adv: cursor_advance decode
  by unfold_locales
     (auto simp: decode_def rbind_eq_Inr split: if_splits dest!: get_byte_off take_dat_off)

text \<open>A value cut short is reported, never accepted.\<close>

lemma take_dat_short: "length buf < off + n \<Longrightarrow> take_dat n buf off = Inl (Corrupted ''datum: truncated'')"
  by (simp add: take_dat_def take_n_def)

lemma decode_prefix:
  assumes "decode buf off = Inr (x, off')" and "off \<le> n" and "n < off'"
  shows "\<exists>m. decode (take n buf) off = Inl (Corrupted m)"
proof -
  have sl: "slice (take n buf) o1 k = slice buf o1 k" if "o1 + k \<le> n" for o1 k
    using that by (simp add: slice_def drop_take min_def)
  show ?thesis
    using assms
    by (cases "n = off")
       (auto simp: decode_def get_byte_def take_dat_def take_n_def rbind_eq_Inr sl
             split: if_splits)
qed

section \<open>Properties\<close>

text \<open>Payload round trip: decoding the encoding of a datum at any position of any buffer gives
  the datum back and leaves the offset right after it, whatever follows.\<close>

theorem datum_round_trip:
  assumes "datum_ok d"
  shows "decode (pre @ encode d @ post) (length pre) = Inr (d, length pre + length (encode d))"
  using datum_codec.round_at [OF assms at_off_pre] .

theorem datum_round_trip_witness:
  "datum_ok (DText ''hi'') \<and>
   decode ([7] @ encode (DText ''hi'') @ [9]) (length [7 :: u8]) =
     Inr (DText ''hi'', length [7 :: u8] + length (encode (DText ''hi'')))"
proof -
  have ok: "datum_ok (DText ''hi'')"
    by (simp add: str_bytes_def in_range_def short_def)
  show ?thesis using ok datum_round_trip [OF ok, of "[7]" "[9]"] by blast
qed

text \<open>Fail closed on truncation: whatever buffer a datum decodes from, cutting the buffer
  anywhere before the end of that datum makes decoding report corruption instead of a value.\<close>

theorem datum_truncation_detected:
  assumes "decode buf off = Inr (d, off')" and "off \<le> n" and "n < off'"
  shows "\<exists>m. decode (take n buf) off = Inl (Corrupted m)"
  using decode_prefix [OF assms] .

theorem datum_truncation_detected_witness:
  "\<exists>m. decode (take 5 (encode (DInt 42))) 0 = Inl (Corrupted m)"
proof -
  have "decode (encode (DInt 42)) 0 = Inr (DInt 42, 9)"
    using datum_codec.round_trip [of "DInt 42"] by simp
  from datum_truncation_detected [OF this, of 5] show ?thesis by simp
qed

text \<open>The order of datums is not transitive: an integer and a float compare through \<open>as f64\<close>,
  which rounds, so two different integers are both \<open>Equal\<close> to the same float while one of them is
  \<open>Less\<close> than the other. The comment on \<open>type_rank\<close> calls it a total order.\<close>

theorem datum_order_not_transitive:
  "\<exists>a f b. datum_cmp a f = Equal \<and> datum_cmp f b = Equal \<and> datum_cmp a b = Less"
proof -
  let ?a = "DInt 9007199254740992" and ?b = "DInt 9007199254740993"
  let ?f = "DFloat 0x4340000000000000"
  have "datum_cmp ?a ?f = Equal \<and> datum_cmp ?f ?b = Equal \<and> datum_cmp ?a ?b = Less"
    by (simp add: datum_cmp_def Let_def cmp_def unwrap_or_equal_def partial_cmp_f64_def f64_nan_def
        f64_key_def f64_neg_def f64_mag_def f64_of_i64_def f64_of_mag_def bit_length.simps)
  then show ?thesis by blast
qed

end
