(* ===== verification/Mvcc.thy ===== *)
theory Mvcc
  imports Values "HOL-Library.AList"
begin

text \<open>
  The MVCC version buffer (\<open>crates/engine/src/db/mvcc.rs\<close>): superseded row states per key, the epoch of
  each live row, and the snapshots that readers have pinned.

  \<^item> The two hash maps of histories and of snapshots are association lists; the list order is the order
    in which the code iterates over them.
  \<^item> What the version buffer reads of a table is an argument: \<open>raw\<close> gives the bytes stored under a key
    (\<open>table.tree().get\<close>) and \<open>dec\<close> decodes them (\<open>Table::decode_stored\<close>).
  \<^item> Instants and ages are numbers; \<open>dur\<close> prints a duration in an error message.
\<close>

section \<open>The version buffer\<close>

type_synonym row = "datum list"
type_synonym tkey = "string \<times> bytes"
type_synonym history = "(nat \<times> row option) list"

record version_state =
  committed :: "tkey \<rightharpoonup> nat"
  chains :: "(tkey \<times> history) list"
  snapshots :: "(nat \<times> nat \<times> nat) list"
  next_snapshot_id :: nat

definition version_state_new :: version_state where
  "version_state_new = \<lparr>committed = Map.empty, chains = [], snapshots = [], next_snapshot_id = 1\<rparr>"

definition clear_versions :: "version_state \<Rightarrow> version_state" where
  "clear_versions vs = vs\<lparr>committed := Map.empty, chains := [], snapshots := []\<rparr>"

definition newer_than :: "nat \<Rightarrow> (tkey \<rightharpoonup> nat) \<Rightarrow> (tkey \<rightharpoonup> nat)" where
  "newer_than oldest m = (\<lambda>k. case m k of None \<Rightarrow> None | Some e \<Rightarrow> if e > oldest then Some e else None)"

definition gc_locked :: "version_state \<Rightarrow> version_state" where
  "gc_locked vs =
     (if snapshots vs = [] then vs\<lparr>chains := [], committed := Map.empty\<rparr>
      else
        let oldest = Min (set (map (\<lambda>(_, e, _). e) (snapshots vs))) in
        vs\<lparr>chains := filter (\<lambda>(_, c). c \<noteq> []) (map (\<lambda>(k, c). (k, filter (\<lambda>(until, _). until > oldest) c)) (chains vs)),
           committed := newer_than oldest (committed vs)\<rparr>)"

definition active_snapshots :: "version_state \<Rightarrow> nat" where
  "active_snapshots vs = length (snapshots vs)"

definition history_of :: "version_state \<Rightarrow> tkey \<Rightarrow> history" where
  "history_of vs k = (case map_of (chains vs) k of None \<Rightarrow> [] | Some c \<Rightarrow> c)"

definition push_version :: "tkey \<Rightarrow> nat \<Rightarrow> row option \<Rightarrow> version_state \<Rightarrow> version_state" where
  "push_version k epoch prev vs =
     vs\<lparr>chains := AList.update k ((epoch, prev) # history_of vs k) (chains vs), committed := (committed vs)(k \<mapsto> epoch)\<rparr>"

text \<open>One install: nothing is recorded when an absent key is deleted or a row is overwritten by itself.\<close>

definition record_install ::
  "(tkey \<Rightarrow> bytes option) \<Rightarrow> (string \<Rightarrow> bytes \<Rightarrow> row result) \<Rightarrow> tkey \<Rightarrow> bytes option \<Rightarrow> nat \<Rightarrow> version_state \<Rightarrow>
    version_state \<times> unit result" where
  "record_install raw dec k new_enc epoch vs =
     (if raw k = new_enc then (vs, Inr ())
      else
        case raw k of
          None \<Rightarrow> (push_version k epoch None vs, Inr ())
        | Some b \<Rightarrow>
            (case dec (fst k) b of
               Inl e \<Rightarrow> (vs, Inl e)
             | Inr prev \<Rightarrow> (push_version k epoch (Some prev) vs, Inr ())))"

fun record_commit_batch ::
  "(string \<Rightarrow> bool) \<Rightarrow> (tkey \<Rightarrow> bytes option) \<Rightarrow> (string \<Rightarrow> bytes \<Rightarrow> row result) \<Rightarrow> (tkey \<times> bytes option) list \<Rightarrow> nat \<Rightarrow>
    version_state \<Rightarrow> version_state \<times> unit result" where
  "record_commit_batch tables raw dec [] epoch vs = (vs, Inr ())"
| "record_commit_batch tables raw dec ((k, enc) # ws) epoch vs =
     (if \<not> tables (fst k) then record_commit_batch tables raw dec ws epoch vs
      else
        case record_install raw dec k enc epoch vs of
          (vs, Inl e) \<Rightarrow> (vs, Inl e)
        | (vs, Inr _) \<Rightarrow> record_commit_batch tables raw dec ws epoch vs)"

text \<open>The walk over a history: the last entry, newest first, that is still above the read epoch.\<close>

fun chain_walk :: "nat \<Rightarrow> history \<Rightarrow> row option \<Rightarrow> bool \<Rightarrow> row option \<times> bool" where
  "chain_walk r [] ans found = (ans, found)"
| "chain_walk r ((until, row) # c) ans found =
     (if until > r then chain_walk r c row True else (ans, found))"

section \<open>Sessions and snapshots\<close>

record staged_write =
  w_row :: "row option"
  is_insert :: bool

record active_txn =
  txn_id :: nat
  staged :: "(tkey \<times> staged_write) list"

record snapshot_pin =
  sp_id :: nat
  read_epoch :: nat
  is_statement :: bool
  created_at :: nat

record session =
  s_txn :: "active_txn option"
  s_snapshot :: "snapshot_pin option"

record mvcc_db =
  versions :: version_state
  commit_epoch :: nat
  visible_epoch :: nat
  next_txn :: nat
  max_snapshot_age :: "nat option"

definition too_old :: "nat \<Rightarrow> mvcc_db \<Rightarrow> snapshot_pin \<Rightarrow> bool" where
  "too_old now d snap = (case max_snapshot_age d of None \<Rightarrow> False | Some a \<Rightarrow> now - created_at snap > a)"

definition age_error :: "(nat \<Rightarrow> string) \<Rightarrow> mvcc_db \<Rightarrow> error" where
  "age_error dur d = ExecutionError (''snapshot exceeded maximum configured age limit ('' @
     dur (case max_snapshot_age d of None \<Rightarrow> 0 | Some a \<Rightarrow> a) @ '')'')"

definition snapshot_lookup ::
  "(nat \<Rightarrow> string) \<Rightarrow> nat \<Rightarrow> mvcc_db \<Rightarrow> session \<Rightarrow> tkey \<Rightarrow> row option \<Rightarrow> row option result" where
  "snapshot_lookup dur now d s k current =
     (case s_snapshot s of
        None \<Rightarrow> Inr current
      | Some snap \<Rightarrow>
          if too_old now d snap then Inl (age_error dur d)
          else if (case committed (versions d) k of None \<Rightarrow> 0 | Some e \<Rightarrow> e) \<le> read_epoch snap then Inr current
          else
            case chain_walk (read_epoch snap) (history_of (versions d) k) None False of
              (ans, True) \<Rightarrow> Inr ans
            | (_, False) \<Rightarrow> Inl (ExecutionError (''snapshot isolation violation: version history missing for table '' @
                CHR 0x27 # fst k @ [CHR 0x27])))"

fun scan_histories :: "nat \<Rightarrow> string \<Rightarrow> bytes set \<Rightarrow> (tkey \<times> history) list \<Rightarrow> (bytes \<times> row) list" where
  "scan_histories r t present [] = []"
| "scan_histories r t present ((k, c) # cs) =
     (if fst k \<noteq> t \<or> snd k \<in> present then scan_histories r t present cs
      else case chain_walk r c None False of
             (Some row, True) \<Rightarrow> (snd k, row) # scan_histories r t present cs
           | _ \<Rightarrow> scan_histories r t present cs)"

definition snapshot_scan_extra ::
  "(nat \<Rightarrow> string) \<Rightarrow> nat \<Rightarrow> mvcc_db \<Rightarrow> session \<Rightarrow> string \<Rightarrow> bytes set \<Rightarrow> (bytes \<times> row) list result" where
  "snapshot_scan_extra dur now d s t present =
     (case s_snapshot s of
        None \<Rightarrow> Inr []
      | Some snap \<Rightarrow>
          if too_old now d snap then Inl (age_error dur d)
          else Inr (scan_histories (read_epoch snap) t present (chains (versions d))))"

text \<open>What a session sees of one key (\<open>visible_row\<close>): its own staged write, else the row of its snapshot.\<close>

definition visible_row ::
  "(nat \<Rightarrow> string) \<Rightarrow> nat \<Rightarrow> mvcc_db \<Rightarrow> (string \<Rightarrow> bytes \<Rightarrow> row result) \<Rightarrow> (tkey \<Rightarrow> bytes option) \<Rightarrow> session \<Rightarrow> tkey \<Rightarrow>
    row option result" where
  "visible_row dur now d dec raw s k =
     (case (case s_txn s of None \<Rightarrow> None | Some t \<Rightarrow> map_of (staged t) k) of
        Some w \<Rightarrow> Inr (w_row w)
      | None \<Rightarrow>
          (case raw k of
             None \<Rightarrow> snapshot_lookup dur now d s k None
           | Some b \<Rightarrow> (case dec (fst k) b of Inl e \<Rightarrow> Inl e | Inr r \<Rightarrow> snapshot_lookup dur now d s k (Some r))))"

text \<open>The substitution of the rows of a scan (\<open>visible_rows\<close>): rows newer than the snapshot vanish or are
  replaced, rows deleted since are restored from the histories.\<close>

fun snapshot_keep ::
  "(nat \<Rightarrow> string) \<Rightarrow> nat \<Rightarrow> mvcc_db \<Rightarrow> session \<Rightarrow> string \<Rightarrow> (bytes \<times> row) list \<Rightarrow> (bytes \<times> row) list result" where
  "snapshot_keep dur now d s t [] = Inr []"
| "snapshot_keep dur now d s t ((k, r) # rows) =
     (case snapshot_lookup dur now d s (t, k) (Some r) of
        Inl e \<Rightarrow> Inl e
      | Inr seen \<Rightarrow>
          (case snapshot_keep dur now d s t rows of
             Inl e \<Rightarrow> Inl e
           | Inr kept \<Rightarrow> Inr (case seen of None \<Rightarrow> kept | Some old \<Rightarrow> (k, old) # kept)))"

definition snapshot_rows ::
  "(nat \<Rightarrow> string) \<Rightarrow> nat \<Rightarrow> mvcc_db \<Rightarrow> session \<Rightarrow> string \<Rightarrow> (bytes \<times> row) list \<Rightarrow> (bytes \<times> row) list result" where
  "snapshot_rows dur now d s t rows =
     (if s_snapshot s = None then Inr rows
      else
        case snapshot_keep dur now d s t rows of
          Inl e \<Rightarrow> Inl e
        | Inr kept \<Rightarrow>
            (case snapshot_scan_extra dur now d s t (fst ` set kept) of
               Inl e \<Rightarrow> Inl e
             | Inr extra \<Rightarrow> Inr (if extra = [] then kept else sort_key fst (kept @ extra))))"

text \<open>The transaction's own writes over the rows of a scan, one staged write after the other.\<close>

definition overlay_write :: "(bytes \<times> row) list \<Rightarrow> bytes \<times> staged_write \<Rightarrow> (bytes \<times> row) list" where
  "overlay_write rows kw =
     (case w_row (snd kw) of
        None \<Rightarrow> filter (\<lambda>(k, _). k \<noteq> fst kw) rows
      | Some row \<Rightarrow>
          if fst kw \<in> fst ` set rows then AList.update (fst kw) row rows
          else sort_key fst (rows @ [(fst kw, row)]))"

definition overlay_rows :: "session \<Rightarrow> string \<Rightarrow> (bytes \<times> row) list \<Rightarrow> (bytes \<times> row) list" where
  "overlay_rows s t rows =
     (case s_txn s of
        None \<Rightarrow> rows
      | Some x \<Rightarrow> foldl overlay_write rows (map (\<lambda>(k, w). (snd k, w)) (filter (\<lambda>(k, _). fst k = t) (staged x))))"

text \<open>Registering a snapshot at the visible epoch.\<close>

definition pin_snapshot :: "bool \<Rightarrow> nat \<Rightarrow> session \<Rightarrow> mvcc_db \<Rightarrow> session \<times> mvcc_db" where
  "pin_snapshot stmt now s d =
     (let vs = versions d; r = visible_epoch d; i = next_snapshot_id vs in
      (s\<lparr>s_snapshot := Some \<lparr>sp_id = i, read_epoch = r, is_statement = stmt, created_at = now\<rparr>\<rparr>,
       d\<lparr>versions := vs\<lparr>snapshots := AList.update i (r, now) (snapshots vs), next_snapshot_id := i + 1\<rparr>\<rparr>))"

definition snapshot_begin :: "nat \<Rightarrow> session \<Rightarrow> mvcc_db \<Rightarrow> (session \<times> mvcc_db) \<times> unit result" where
  "snapshot_begin now s d =
     (if s_txn s \<noteq> None then ((s, d), Inl (TxnConflict ''transaction already active''))
      else
        let (s, d) = pin_snapshot False now s d;
            s = s\<lparr>s_txn := Some \<lparr>txn_id = next_txn d, staged = []\<rparr>\<rparr>
        in ((s, d\<lparr>next_txn := next_txn d + 1\<rparr>), Inr ()))"

definition snapshot_pin_active :: "nat \<Rightarrow> session \<Rightarrow> mvcc_db \<Rightarrow> session \<times> mvcc_db" where
  "snapshot_pin_active now s d = (if s_snapshot s \<noteq> None then (s, d) else pin_snapshot False now s d)"

definition snapshot_pin_statement :: "nat \<Rightarrow> session \<Rightarrow> mvcc_db \<Rightarrow> session \<times> mvcc_db" where
  "snapshot_pin_statement now s d = (if s_snapshot s \<noteq> None then (s, d) else pin_snapshot True now s d)"

definition drop_pin :: "nat \<Rightarrow> mvcc_db \<Rightarrow> mvcc_db" where
  "drop_pin i d = d\<lparr>versions := gc_locked ((versions d)\<lparr>snapshots := AList.delete i (snapshots (versions d))\<rparr>)\<rparr>"

definition snapshot_end :: "session \<Rightarrow> mvcc_db \<Rightarrow> session \<times> mvcc_db" where
  "snapshot_end s d =
     (case s_snapshot s of None \<Rightarrow> (s, d) | Some snap \<Rightarrow> (s\<lparr>s_snapshot := None\<rparr>, drop_pin (sp_id snap) d))"

definition snapshot_end_statement :: "session \<Rightarrow> mvcc_db \<Rightarrow> session \<times> mvcc_db" where
  "snapshot_end_statement s d =
     (case s_snapshot s of
        None \<Rightarrow> (s, d)
      | Some snap \<Rightarrow> if is_statement snap then (s\<lparr>s_snapshot := None\<rparr>, drop_pin (sp_id snap) d) else (s, d))"

definition gc_versions :: "mvcc_db \<Rightarrow> mvcc_db" where
  "gc_versions d = d\<lparr>versions := gc_locked (versions d)\<rparr>"

definition purge_table_versions :: "string \<Rightarrow> mvcc_db \<Rightarrow> mvcc_db" where
  "purge_table_versions t d =
     (let vs = versions d in
      d\<lparr>versions := vs\<lparr>chains := filter (\<lambda>(k, _). fst k \<noteq> t) (chains vs),
                       committed := (\<lambda>k. if fst k = t then None else committed vs k)\<rparr>\<rparr>)"

definition purge_db_versions :: "string \<Rightarrow> mvcc_db \<Rightarrow> mvcc_db" where
  "purge_db_versions pre d =
     (let vs = versions d in
      d\<lparr>versions := vs\<lparr>chains := filter (\<lambda>(k, _). take (length pre) (fst k) \<noteq> pre) (chains vs),
                       committed := (\<lambda>k. if take (length pre) (fst k) = pre then None else committed vs k)\<rparr>\<rparr>)"

definition alloc_commit_epoch :: "mvcc_db \<Rightarrow> nat \<times> mvcc_db" where
  "alloc_commit_epoch d = (commit_epoch d, d\<lparr>commit_epoch := commit_epoch d + 1\<rparr>)"

definition publish :: "nat \<Rightarrow> mvcc_db \<Rightarrow> mvcc_db" where
  "publish e d = d\<lparr>visible_epoch := e, versions := gc_locked (versions d)\<rparr>"

section \<open>Histories of one key\<close>

definition epoch_of :: "version_state \<Rightarrow> tkey \<Rightarrow> nat" where
  "epoch_of vs k = (case committed vs k of None \<Rightarrow> 0 | Some e \<Rightarrow> e)"

text \<open>What a reader at epoch \<open>r\<close> gets for a key with current row \<open>v\<close>.\<close>

definition reads :: "nat \<Rightarrow> nat \<Rightarrow> history \<Rightarrow> row option \<Rightarrow> row option \<Rightarrow> bool" where
  "reads r c h v ans \<longleftrightarrow> (if c \<le> r then v = ans else chain_walk r h None False = (ans, True))"

definition history_ok :: "nat \<Rightarrow> history \<Rightarrow> bool" where
  "history_ok c h \<longleftrightarrow> sorted_wrt (>) (map fst h) \<and> (case h of [] \<Rightarrow> c = 0 | (u, _) # _ \<Rightarrow> u = c \<and> 0 < c)"

lemma chain_walk_old: "\<forall>x \<in> set h. fst x \<le> r \<Longrightarrow> chain_walk r h a f = (a, f)"
  by (cases h) auto

lemma chain_walk_start: "u > r \<Longrightarrow> chain_walk r ((u, w) # h) a f = chain_walk r ((u, w) # h) b g"
  by simp

lemma history_old: "history_ok c h \<Longrightarrow> c \<le> r \<Longrightarrow> \<forall>x \<in> set h. fst x \<le> r"
  by (cases h) (auto simp: history_ok_def)

lemma reads_push:
  assumes ok: "history_ok c h" and e: "r < e" and rd: "reads r c h v ans"
  shows "reads r e ((e, v) # h) v' ans"
proof (cases "c \<le> r")
  case True
  then have "chain_walk r h v True = (v, True)" using chain_walk_old [OF history_old [OF ok True]] by simp
  then show ?thesis using True rd e by (simp add: reads_def)
next
  case False
  then obtain u w h' where h: "h = (u, w) # h'" "u > r" using ok rd by (cases h) (auto simp: history_ok_def)
  have "chain_walk r h v True = chain_walk r h None False" unfolding h(1) by (rule chain_walk_start [OF h(2)])
  then show ?thesis using False rd e by (simp add: reads_def)
qed

lemma history_push: "history_ok c h \<Longrightarrow> c < e \<Longrightarrow> history_ok e ((e, v) # h)"
  using history_old [of c h c] by (fastforce simp: history_ok_def)

lemma chain_walk_gc:
  "sorted_wrt (>) (map fst h) \<Longrightarrow> oldest \<le> r \<Longrightarrow> chain_walk r (filter (\<lambda>(u, _). u > oldest) h) a f = chain_walk r h a f"
proof (induction h arbitrary: a f)
  case (Cons x h)
  show ?case
  proof (cases "fst x > r")
    case True
    then show ?thesis using Cons by (cases x) auto
  next
    case False
    then have old: "\<forall>y \<in> set (x # h). fst y \<le> r" using Cons.prems(1) by auto
    then have "\<forall>y \<in> set (filter (\<lambda>(u, _). u > oldest) (x # h)). fst y \<le> r" by auto
    from chain_walk_old [OF this] chain_walk_old [OF old] show ?thesis by (simp only:)
  qed
qed simp

lemma history_gc:
  assumes "history_ok c h"
  shows "history_ok (if c > oldest then c else 0) (filter (\<lambda>(u, _). u > oldest) h)"
proof (cases "c > oldest")
  case True
  then obtain w h' where "h = (c, w) # h'" using assms by (cases h) (auto simp: history_ok_def)
  then show ?thesis using assms True
    by (auto simp: history_ok_def sorted_wrt_map sorted_wrt_filter split_def)
next
  case False
  then have "filter (\<lambda>(u, _). u > oldest) h = []" using history_old [OF assms, of oldest] by (force simp: filter_empty_conv)
  then show ?thesis using False by (simp add: history_ok_def)
qed

lemma reads_gc:
  assumes "history_ok c h" "oldest \<le> r" "reads r c h v ans"
  shows "reads r (if c > oldest then c else 0) (filter (\<lambda>(u, _). u > oldest) h) v ans"
  using assms by (auto simp: reads_def history_ok_def chain_walk_gc)

end
