(* ===== verification/Mvcc_Isolation.thy ===== *)
theory Mvcc_Isolation
  imports Mvcc
begin

text \<open>
  Snapshot isolation. Commits install one after the other (the install frontier of \<open>commit_txn\<close>), each in
  steps: the superseded rows are recorded, the rows are written one by one, the epoch is published.
  Readers pin, fetch and release snapshots in between. \<open>hist e\<close> is the database after the commit of
  epoch \<open>e\<close>.
\<close>

section \<open>Commits and readers interleaved\<close>

record mvcc =
  db :: mvcc_db
  raw :: "tkey \<rightharpoonup> bytes"
  pending :: "(nat \<times> (tkey \<times> bytes option) list) option"
  hist :: "nat \<Rightarrow> tkey \<Rightarrow> row option"
  sess :: "nat \<Rightarrow> session"
  fetched :: "nat \<Rightarrow> tkey \<Rightarrow> row option option"

definition val_of :: "(string \<Rightarrow> bytes \<Rightarrow> row result) \<Rightarrow> tkey \<Rightarrow> bytes option \<Rightarrow> row option" where
  "val_of dec k b = (case b of None \<Rightarrow> None | Some b \<Rightarrow> (case dec (fst k) b of Inl _ \<Rightarrow> None | Inr r \<Rightarrow> Some r))"

definition decodable :: "(string \<Rightarrow> bytes \<Rightarrow> row result) \<Rightarrow> tkey \<Rightarrow> bytes option \<Rightarrow> bool" where
  "decodable dec k b \<longleftrightarrow> (b \<noteq> None \<longrightarrow> val_of dec k b \<noteq> None)"

abbreviation view :: "(string \<Rightarrow> bytes \<Rightarrow> row result) \<Rightarrow> mvcc \<Rightarrow> tkey \<Rightarrow> row option" where
  "view dec m k \<equiv> val_of dec k (raw m k)"

abbreviation set_session :: "nat \<Rightarrow> session \<times> mvcc_db \<Rightarrow> mvcc \<Rightarrow> mvcc" where
  "set_session s p m \<equiv> m\<lparr>sess := (sess m)(s := fst p), db := snd p, fetched := (fetched m)(s := (\<lambda>_. None))\<rparr>"

definition mvcc_start :: "(tkey \<rightharpoonup> bytes) \<Rightarrow> (string \<Rightarrow> bytes \<Rightarrow> row result) \<Rightarrow> nat option \<Rightarrow> mvcc" where
  "mvcc_start b dec age =
     \<lparr>db = \<lparr>versions = version_state_new, commit_epoch = 1, visible_epoch = 0, next_txn = 1, max_snapshot_age = age\<rparr>,
      raw = b, pending = None, hist = (\<lambda>_ k. val_of dec k (b k)),
      sess = (\<lambda>_. \<lparr>s_txn = None, s_snapshot = None\<rparr>), fetched = (\<lambda>_ _. None)\<rparr>"

text \<open>A collection with no snapshot left forgets everything, also the commit being installed; \<open>calm\<close> says
  that this does not happen.\<close>

definition calm :: "mvcc \<Rightarrow> mvcc_db \<Rightarrow> bool" where
  "calm m d \<longleftrightarrow> pending m = None \<or> snapshots (versions d) \<noteq> []"

inductive mvcc_step :: "(string \<Rightarrow> bytes \<Rightarrow> row result) \<Rightarrow> bool \<Rightarrow> mvcc \<Rightarrow> mvcc \<Rightarrow> bool" for dec race where
  Alloc: "mvcc_step dec race m (m\<lparr>db := snd (alloc_commit_epoch (db m))\<rparr>)"
| Record: "pending m = None \<Longrightarrow> visible_epoch (db m) < e \<Longrightarrow> e < commit_epoch (db m) \<Longrightarrow> distinct (map fst ws) \<Longrightarrow>
    (\<And>k b. (k, b) \<in> set ws \<Longrightarrow> tables (fst k) \<and> decodable dec k b) \<Longrightarrow>
    record_commit_batch tables (raw m) dec ws e (versions (db m)) = (vs, Inr ()) \<Longrightarrow>
    mvcc_step dec race m (m\<lparr>db := (db m)\<lparr>versions := vs\<rparr>, pending := Some (e, ws),
      hist := (hist m)(e := (\<lambda>k. case map_of ws k of None \<Rightarrow> view dec m k | Some b \<Rightarrow> val_of dec k b))\<rparr>)"
| Install: "pending m = Some (e, (k, b) # ws) \<Longrightarrow> val_of dec k b' = val_of dec k b \<Longrightarrow> decodable dec k b' \<Longrightarrow>
    mvcc_step dec race m (m\<lparr>raw := (raw m)(k := b'), pending := Some (e, ws)\<rparr>)"
| Publish: "pending m = Some (e, []) \<Longrightarrow> mvcc_step dec race m (m\<lparr>pending := None, db := publish e (db m)\<rparr>)"
| Begin: "s_snapshot (sess m s) = None \<Longrightarrow> snapshot_begin now (sess m s) (db m) = (p, Inr ()) \<Longrightarrow>
    mvcc_step dec race m (set_session s p m)"
| PinActive: "s_snapshot (sess m s) = None \<Longrightarrow> mvcc_step dec race m (set_session s (snapshot_pin_active now (sess m s) (db m)) m)"
| PinStatement: "s_snapshot (sess m s) = None \<Longrightarrow> mvcc_step dec race m (set_session s (snapshot_pin_statement now (sess m s) (db m)) m)"
| End: "s_snapshot (sess m s) = Some snap \<Longrightarrow> snapshot_end (sess m s) (db m) = p \<Longrightarrow> race \<or> calm m (snd p) \<Longrightarrow>
    mvcc_step dec race m (set_session s p m)"
| EndStatement: "s_snapshot (sess m s) = Some snap \<Longrightarrow> is_statement snap \<Longrightarrow> snapshot_end_statement (sess m s) (db m) = p \<Longrightarrow>
    race \<or> calm m (snd p) \<Longrightarrow> mvcc_step dec race m (set_session s p m)"
| Gc: "race \<or> calm m (db m) \<Longrightarrow> mvcc_step dec race m (m\<lparr>db := gc_versions (db m)\<rparr>)"
| Fetch: "mvcc_step dec race m (m\<lparr>fetched := (fetched m)(s := (\<lambda>k. if k \<in> ks then Some (view dec m k) else fetched m s k))\<rparr>)"

abbreviation mvcc_run :: "(string \<Rightarrow> bytes \<Rightarrow> row result) \<Rightarrow> bool \<Rightarrow> mvcc \<Rightarrow> mvcc \<Rightarrow> bool" where
  "mvcc_run dec race \<equiv> (mvcc_step dec race)\<^sup>*\<^sup>*"

section \<open>The buffer operations key by key\<close>

text \<open>Keys are pairs; quantifiers over them stay quantifiers over keys.\<close>

declare split_paired_All [simp del] split_paired_Ex [simp del]

lemma history_update: "history_of (push_version k e v vs) k' = (if k' = k then (e, v) # history_of vs k else history_of vs k')"
  by (simp add: push_version_def history_of_def update_conv')

lemma epoch_update: "epoch_of (push_version k e v vs) k' = (if k' = k then e else epoch_of vs k')"
  by (simp add: push_version_def epoch_of_def)

lemma record_batch_ok:
  assumes "distinct (map fst ws)" "\<forall>k \<in> fst ` set ws. tables (fst k)" "\<And>k. decodable dec k (r k)"
    and "record_commit_batch tables r dec ws e vs = (vs', res)"
  defines "changed \<equiv> \<lambda>k. \<exists>b. (k, b) \<in> set ws \<and> r k \<noteq> b"
  shows "res = Inr () \<and> snapshots vs' = snapshots vs \<and> next_snapshot_id vs' = next_snapshot_id vs \<and>
    (distinct (map fst (chains vs)) \<longrightarrow> distinct (map fst (chains vs'))) \<and>
    (\<forall>k. epoch_of vs' k = (if changed k then e else epoch_of vs k) \<and>
         history_of vs' k = (if changed k then (e, val_of dec k (r k)) # history_of vs k else history_of vs k))"
  using assms(1,2,4) unfolding changed_def
proof (induction ws arbitrary: vs)
  case (Cons w ws)
  obtain k b where w: "w = (k, b)" by (cases w)
  define vs1 where "vs1 = (if r k = b then vs else push_version k e (val_of dec k (r k)) vs)"
  have one: "record_install r dec k b e vs = (vs1, Inr ())"
    using assms(3) [of k] by (auto simp: record_install_def decodable_def val_of_def vs1_def split: option.splits sum.splits)
  have rest: "record_commit_batch tables r dec ws e vs1 = (vs', res)"
    using Cons.prems(2,3) one by (simp add: w)
  have d: "distinct (map fst ws)" using Cons.prems(1) by simp
  have tb: "\<forall>k \<in> fst ` set ws. tables (fst k)" using Cons.prems(2) by simp
  note ih = Cons.IH [OF d tb rest]
  have new: "(k, b') \<notin> set ws" for b' using Cons.prems(1) w by force
  have v1: "snapshots vs1 = snapshots vs" "next_snapshot_id vs1 = next_snapshot_id vs"
    "distinct (map fst (chains vs)) \<longrightarrow> distinct (map fst (chains vs1))"
    by (auto simp: vs1_def push_version_def distinct_update)
  have "epoch_of vs' x = (if \<exists>b. (x, b) \<in> set (w # ws) \<and> r x \<noteq> b then e else epoch_of vs x) \<and>
      history_of vs' x = (if \<exists>b. (x, b) \<in> set (w # ws) \<and> r x \<noteq> b then (e, val_of dec x (r x)) # history_of vs x else history_of vs x)" for x
  proof (cases "x = k")
    case True
    then have "epoch_of vs' x = epoch_of vs1 x" "history_of vs' x = history_of vs1 x" using ih new by simp_all
    then show ?thesis using True new w by (simp add: vs1_def epoch_update history_update)
  next
    case False
    then have "epoch_of vs1 x = epoch_of vs x" "history_of vs1 x = history_of vs x" by (simp_all add: vs1_def epoch_update history_update)
    then show ?thesis using ih False w by (cases "\<exists>b. (x, b) \<in> set ws \<and> r x \<noteq> b") auto
  qed
  then show ?case using ih v1 by simp
qed simp

lemma map_of_filter_map:
  assumes "distinct (map fst xs)"
  shows "map_of (filter (\<lambda>(_, c). c \<noteq> []) (map (\<lambda>(k, c). (k, g c)) xs)) k =
    (case map_of xs k of None \<Rightarrow> None | Some c \<Rightarrow> if g c = [] then None else Some (g c))"
  using assms
proof (induction xs)
  case (Cons x xs)
  obtain a c where x: "x = (a, c)" by (cases x)
  then have "map_of xs a = None" using Cons.prems by (auto simp: map_of_eq_None_iff image_iff)
  then show ?case using Cons x by auto
qed simp

lemma gc_ok:
  assumes "snapshots vs \<noteq> []" "distinct (map fst (chains vs))"
  defines "oldest \<equiv> Min (set (map (\<lambda>(_, e, _). e) (snapshots vs)))"
  shows "snapshots (gc_locked vs) = snapshots vs" "next_snapshot_id (gc_locked vs) = next_snapshot_id vs"
    "distinct (map fst (chains (gc_locked vs)))"
    "epoch_of (gc_locked vs) k = (if epoch_of vs k > oldest then epoch_of vs k else 0)"
    "history_of (gc_locked vs) k = filter (\<lambda>(u, _). u > oldest) (history_of vs k)"
proof -
  have g: "gc_locked vs = vs\<lparr>chains := filter (\<lambda>(_, c). c \<noteq> []) (map (\<lambda>(k, c). (k, filter (\<lambda>(until, _). until > oldest) c)) (chains vs)),
      committed := newer_than oldest (committed vs)\<rparr>"
    using assms(1) by (simp add: gc_locked_def oldest_def Let_def)
  show "snapshots (gc_locked vs) = snapshots vs" "next_snapshot_id (gc_locked vs) = next_snapshot_id vs" by (simp_all add: g)
  have "distinct (map fst (filter P (map (\<lambda>(k, c). (k, h c)) xs)))" if "distinct (map fst xs)" for P h and xs :: "(tkey \<times> history) list"
  proof -
    have "map fst (map (\<lambda>(k, c). (k, h c)) xs) = map fst xs" by (induction xs) auto
    then have "distinct (map fst (map (\<lambda>(k, c). (k, h c)) xs))" using that by (simp only:)
    then show ?thesis by (rule distinct_map_filter)
  qed
  then show "distinct (map fst (chains (gc_locked vs)))" using assms(2) by (simp add: g)
  show "epoch_of (gc_locked vs) k = (if epoch_of vs k > oldest then epoch_of vs k else 0)"
    by (auto simp: g epoch_of_def newer_than_def split: option.splits)
  show "history_of (gc_locked vs) k = filter (\<lambda>(u, _). u > oldest) (history_of vs k)"
    using map_of_filter_map [OF assms(2), of "filter (\<lambda>(until, _). until > oldest)" k]
    by (auto simp: g history_of_def split: option.splits)
qed

section \<open>The invariant\<close>

definition pinned :: "version_state \<Rightarrow> nat set" where
  "pinned vs = set (map (\<lambda>(_, e, _). e) (snapshots vs))"

definition versions_ok :: "nat \<Rightarrow> version_state \<Rightarrow> bool" where
  "versions_ok tp vs \<longleftrightarrow> distinct (map fst (chains vs)) \<and>
     (\<forall>k. history_ok (epoch_of vs k) (history_of vs k) \<and> epoch_of vs k \<le> tp)"

definition readers_ok :: "nat set \<Rightarrow> version_state \<Rightarrow> (tkey \<Rightarrow> row option) \<Rightarrow> (nat \<Rightarrow> tkey \<Rightarrow> row option) \<Rightarrow> bool" where
  "readers_ok rs vs v h \<longleftrightarrow> (\<forall>r \<in> rs. \<forall>k. reads r (epoch_of vs k) (history_of vs k) (v k) (h r k))"

text \<open>A commit half installed: the keys still to be written have their old rows, the others their new
  ones, and every key that changes has been recorded.\<close>

definition commit_ok ::
  "(string \<Rightarrow> bytes \<Rightarrow> row result) \<Rightarrow> nat \<Rightarrow> (nat \<times> (tkey \<times> bytes option) list) option \<Rightarrow> version_state \<Rightarrow> (tkey \<Rightarrow> row option) \<Rightarrow>
    (nat \<Rightarrow> tkey \<Rightarrow> row option) \<Rightarrow> bool" where
  "commit_ok dec vis pend vs v h \<longleftrightarrow>
     (case pend of
        None \<Rightarrow> v = h vis
      | Some (e, ws) \<Rightarrow> vis < e \<and> distinct (map fst ws) \<and>
          (\<forall>(k, b) \<in> set ws. val_of dec k b = h e k) \<and>
          (\<forall>k. v k = (if k \<in> fst ` set ws then h vis k else h e k) \<and> (h e k = h vis k \<or> epoch_of vs k = e)))"

definition top_epoch :: "mvcc \<Rightarrow> nat" where
  "top_epoch m = (case pending m of None \<Rightarrow> visible_epoch (db m) | Some (e, _) \<Rightarrow> e)"

definition sessions_ok :: "version_state \<Rightarrow> (nat \<Rightarrow> session) \<Rightarrow> bool" where
  "sessions_ok vs ss \<longleftrightarrow> distinct (map fst (snapshots vs)) \<and> (\<forall>i \<in> fst ` set (snapshots vs). i < next_snapshot_id vs) \<and>
     (\<forall>s p. s_snapshot (ss s) = Some p \<longrightarrow> (sp_id p, read_epoch p, created_at p) \<in> set (snapshots vs)) \<and>
     (\<forall>s s' p p'. s_snapshot (ss s) = Some p \<longrightarrow> s_snapshot (ss s') = Some p' \<longrightarrow> sp_id p = sp_id p' \<longrightarrow> s = s')"

definition fetched_ok :: "mvcc \<Rightarrow> bool" where
  "fetched_ok m \<longleftrightarrow> (\<forall>s p k v. s_snapshot (sess m s) = Some p \<longrightarrow> fetched m s k = Some v \<longrightarrow>
     epoch_of (versions (db m)) k \<le> read_epoch p \<longrightarrow> v = hist m (read_epoch p) k)"

definition mvcc_inv :: "(string \<Rightarrow> bytes \<Rightarrow> row result) \<Rightarrow> mvcc \<Rightarrow> bool" where
  "mvcc_inv dec m \<longleftrightarrow>
     (let vs = versions (db m); vis = visible_epoch (db m) in
      (\<forall>k. decodable dec k (raw m k)) \<and> top_epoch m < commit_epoch (db m) \<and> vis \<le> top_epoch m \<and> (\<forall>r \<in> pinned vs. r \<le> vis) \<and>
      versions_ok (top_epoch m) vs \<and> readers_ok (insert vis (pinned vs)) vs (view dec m) (hist m) \<and>
      commit_ok dec vis (pending m) vs (view dec m) (hist m) \<and> sessions_ok vs (sess m) \<and> fetched_ok m)"

lemma mvcc_invI:
  assumes "\<And>k. decodable dec k (raw m k)" "top_epoch m < commit_epoch (db m)" "visible_epoch (db m) \<le> top_epoch m"
    "\<And>r. r \<in> pinned (versions (db m)) \<Longrightarrow> r \<le> visible_epoch (db m)" "versions_ok (top_epoch m) (versions (db m))"
    "readers_ok (insert (visible_epoch (db m)) (pinned (versions (db m)))) (versions (db m)) (view dec m) (hist m)"
    "commit_ok dec (visible_epoch (db m)) (pending m) (versions (db m)) (view dec m) (hist m)"
    "sessions_ok (versions (db m)) (sess m)" "fetched_ok m"
  shows "mvcc_inv dec m"
  using assms by (simp add: mvcc_inv_def Let_def)

lemma mvcc_invD:
  assumes "mvcc_inv dec m"
  shows "decodable dec k (raw m k)" "top_epoch m < commit_epoch (db m)" "visible_epoch (db m) \<le> top_epoch m"
    "\<And>r. r \<in> pinned (versions (db m)) \<Longrightarrow> r \<le> visible_epoch (db m)" "versions_ok (top_epoch m) (versions (db m))"
    "readers_ok (insert (visible_epoch (db m)) (pinned (versions (db m)))) (versions (db m)) (view dec m) (hist m)"
    "commit_ok dec (visible_epoch (db m)) (pending m) (versions (db m)) (view dec m) (hist m)"
    "sessions_ok (versions (db m)) (sess m)" "fetched_ok m"
  using assms by (simp_all add: mvcc_inv_def Let_def)

text \<open>Reading the snapshot of a session.\<close>

lemma session_pinned:
  assumes "sessions_ok vs ss" "s_snapshot (ss s) = Some p"
  shows "read_epoch p \<in> pinned vs"
  using assms by (force simp: sessions_ok_def pinned_def)

lemma mvcc_start_inv: "(\<And>k. decodable dec k (b k)) \<Longrightarrow> mvcc_inv dec (mvcc_start b dec age)"
  by (rule mvcc_invI)
    (simp_all add: mvcc_start_def top_epoch_def version_state_new_def pinned_def versions_ok_def epoch_of_def history_of_def
      history_ok_def readers_ok_def reads_def commit_ok_def sessions_ok_def fetched_ok_def)

text \<open>Collecting garbage.\<close>

lemma gc_pinned:
  assumes s: "snapshots vs \<noteq> []" and v: "versions_ok tp vs" and rd: "readers_ok rs vs w h" and rs: "pinned vs \<subseteq> rs"
    and lo: "\<forall>r \<in> rs. \<exists>q \<in> pinned vs. q \<le> r"
  shows "versions_ok tp (gc_locked vs)" "readers_ok rs (gc_locked vs) w h"
    "snapshots (gc_locked vs) = snapshots vs" "next_snapshot_id (gc_locked vs) = next_snapshot_id vs"
    "\<And>k. epoch_of (gc_locked vs) k \<le> epoch_of vs k"
    "\<And>k q. q \<in> pinned vs \<Longrightarrow> q < epoch_of vs k \<Longrightarrow> epoch_of (gc_locked vs) k = epoch_of vs k"
proof -
  let ?o = "Min (pinned vs)"
  have fin: "finite (pinned vs)" "pinned vs \<noteq> {}" using s by (auto simp: pinned_def)
  have d: "distinct (map fst (chains vs))" "\<And>k. history_ok (epoch_of vs k) (history_of vs k)"
    "\<And>k. epoch_of vs k \<le> tp" using v by (simp_all add: versions_ok_def)
  note g = gc_ok [OF s d(1), folded pinned_def]
  have old: "?o \<le> r" if "r \<in> rs" for r using lo that fin by (meson Min_le order_trans)
  show "snapshots (gc_locked vs) = snapshots vs" "next_snapshot_id (gc_locked vs) = next_snapshot_id vs" by (rule g)+
  have h': "history_ok (epoch_of (gc_locked vs) k) (history_of (gc_locked vs) k)" for k
    unfolding g(4,5) by (rule history_gc [OF d(2)])
  show "versions_ok tp (gc_locked vs)" unfolding versions_ok_def
    using g(3) h' d(3) by (simp add: g(4))
  have "reads r (epoch_of (gc_locked vs) k) (history_of (gc_locked vs) k) (w k) (h r k)" if "r \<in> rs" for r k
    unfolding g(4,5) by (rule reads_gc [OF d(2) old [OF that]]) (use rd that in \<open>simp add: readers_ok_def\<close>)
  then show "readers_ok rs (gc_locked vs) w h" by (simp add: readers_ok_def)
  show "epoch_of (gc_locked vs) k \<le> epoch_of vs k" for k by (simp add: g(4))
  show "epoch_of (gc_locked vs) k = epoch_of vs k" if "q \<in> pinned vs" "q < epoch_of vs k" for k q
  proof -
    have "Min (pinned vs) < epoch_of vs k" using Min_le [OF fin(1) that(1)] that(2) by (rule le_less_trans)
    then show ?thesis by (simp add: g(4))
  qed
qed

lemma gc_empty:
  assumes "snapshots vs = []"
  shows "epoch_of (gc_locked vs) k = 0" "history_of (gc_locked vs) k = []" "snapshots (gc_locked vs) = []"
    "next_snapshot_id (gc_locked vs) = next_snapshot_id vs" "versions_ok tp (gc_locked vs)"
  using assms by (simp_all add: gc_locked_def epoch_of_def history_of_def versions_ok_def history_ok_def)

section \<open>Every step keeps the invariant\<close>

lemma inv_alloc: "mvcc_inv dec m \<Longrightarrow> mvcc_inv dec (m\<lparr>db := snd (alloc_commit_epoch (db m))\<rparr>)"
  by (simp add: mvcc_inv_def alloc_commit_epoch_def top_epoch_def fetched_ok_def Let_def less_SucI cong: option.case_cong)

lemma inv_record:
  assumes inv: "mvcc_inv dec m" and p: "pending m = None" and e: "visible_epoch (db m) < e" "e < commit_epoch (db m)"
    and d: "distinct (map fst ws)" and ws: "\<And>k b. (k, b) \<in> set ws \<Longrightarrow> tables (fst k) \<and> decodable dec k b"
    and run: "record_commit_batch tables (raw m) dec ws e (versions (db m)) = (vs, Inr ())"
  defines "h \<equiv> (hist m)(e := (\<lambda>k. case map_of ws k of None \<Rightarrow> view dec m k | Some b \<Rightarrow> val_of dec k b))"
  shows "mvcc_inv dec (m\<lparr>db := (db m)\<lparr>versions := vs\<rparr>, pending := Some (e, ws), hist := h\<rparr>)" (is "mvcc_inv dec ?m")
proof -
  note D = mvcc_invD [OF inv]
  let ?vs = "versions (db m)" and ?vis = "visible_epoch (db m)"
  have tb: "\<forall>k \<in> fst ` set ws. tables (fst k)" using ws by fastforce
  define changed where "changed = (\<lambda>k. \<exists>b. (k, b) \<in> set ws \<and> raw m k \<noteq> b)"
  from record_batch_ok [OF d tb D(1) run] have
    r: "snapshots vs = snapshots ?vs" "next_snapshot_id vs = next_snapshot_id ?vs"
      "distinct (map fst (chains ?vs)) \<longrightarrow> distinct (map fst (chains vs))"
      "\<And>k. epoch_of vs k = (if changed k then e else epoch_of ?vs k)"
      "\<And>k. history_of vs k = (if changed k then (e, view dec m k) # history_of ?vs k else history_of ?vs k)"
    unfolding changed_def by simp_all
  have top: "top_epoch m = ?vis" using p by (simp add: top_epoch_def)
  have old: "versions_ok ?vis ?vs" using D(5) top by simp
  have pin: "pinned vs = pinned ?vs" by (simp add: pinned_def r(1))
  have cur: "view dec m k = hist m ?vis k" for k using D(7) p by (simp add: commit_ok_def fun_eq_iff)
  have he: "h e k = (case map_of ws k of None \<Rightarrow> hist m ?vis k | Some b \<Rightarrow> val_of dec k b)" for k
    by (simp add: h_def cur split: option.splits)
  have hr: "h r = hist m r" if "r \<le> ?vis" for r using that e(1) by (auto simp: h_def)
  have same: "h e k = hist m ?vis k" if "\<not> changed k" for k
  proof (cases "map_of ws k")
    case (Some b)
    then have "(k, b) \<in> set ws" by (rule map_of_SomeD)
    then have "raw m k = b" using that by (auto simp: changed_def)
    then show ?thesis using Some cur [of k] by (simp add: he)
  qed (simp add: he)
  show ?thesis
  proof (rule mvcc_invI)
    show "decodable dec k (raw ?m k)" for k using D(1) by simp
    show "top_epoch ?m < commit_epoch (db ?m)" "visible_epoch (db ?m) \<le> top_epoch ?m" using e by (simp_all add: top_epoch_def)
    show "r \<le> visible_epoch (db ?m)" if "r \<in> pinned (versions (db ?m))" for r using D(4) [of r] that pin by simp
    show "versions_ok (top_epoch ?m) (versions (db ?m))"
    proof -
      have "history_ok (epoch_of vs k) (history_of vs k) \<and> epoch_of vs k \<le> e" for k
      proof -
        have k: "history_ok (epoch_of ?vs k) (history_of ?vs k)" "epoch_of ?vs k < e"
          using old e(1) by (auto simp: versions_ok_def intro: le_less_trans)
        from history_push [OF this] k show ?thesis by (simp add: r(4,5))
      qed
      then show ?thesis using old r(3) by (simp add: versions_ok_def top_epoch_def)
    qed
    show "readers_ok (insert (visible_epoch (db ?m)) (pinned (versions (db ?m)))) (versions (db ?m)) (view dec ?m) (hist ?m)"
    proof -
      have "reads q (epoch_of vs k) (history_of vs k) (view dec m k) (h q k)" if q: "q \<in> insert ?vis (pinned ?vs)" for q k
      proof -
        have le: "q \<le> ?vis" using q D(4) by auto
        have rd: "reads q (epoch_of ?vs k) (history_of ?vs k) (view dec m k) (h q k)"
          using D(6) q le by (auto simp: readers_ok_def hr)
        have "history_ok (epoch_of ?vs k) (history_of ?vs k)" using old by (simp add: versions_ok_def)
        from reads_push [OF this _ rd, of e] rd le e(1) show ?thesis by (simp add: r(4,5))
      qed
      then show ?thesis using pin by (simp add: readers_ok_def)
    qed
    show "commit_ok dec (visible_epoch (db ?m)) (pending ?m) (versions (db ?m)) (view dec ?m) (hist ?m)"
    proof -
      have "val_of dec k b = h e k" if "(k, b) \<in> set ws" for k b
        using that d by (simp add: he)
      moreover have "view dec m k = (if k \<in> fst ` set ws then h ?vis k else h e k)" for k
      proof (cases "k \<in> fst ` set ws")
        case False
        then have "map_of ws k = None" by (simp add: map_of_eq_None_iff)
        then show ?thesis using False cur [of k] by (simp add: he)
      qed (use cur [of k] hr [of ?vis] in simp)
      moreover have "h e k = h ?vis k \<or> epoch_of vs k = e" for k using same [of k] hr [of ?vis] r(4) [of k] by auto
      ultimately show ?thesis using e(1) d by (auto simp: commit_ok_def)
    qed
    show "sessions_ok (versions (db ?m)) (sess ?m)" using D(8) by (simp add: sessions_ok_def r(1,2))
    show "fetched_ok ?m" unfolding fetched_ok_def
    proof (intro allI impI)
      fix s q k v assume a: "s_snapshot (sess ?m s) = Some q" "fetched ?m s k = Some v" "epoch_of (versions (db ?m)) k \<le> read_epoch q"
      have "read_epoch q \<le> ?vis" using session_pinned [OF D(8), of s q] D(4) a(1) by simp
      moreover from this have "\<not> changed k" using a(3) r(4) [of k] e(1) by auto
      ultimately show "v = hist ?m (read_epoch q) k" using D(9) a r(4) [of k] by (simp add: fetched_ok_def hr)
    qed
  qed
qed

lemma inv_install:
  assumes inv: "mvcc_inv dec m" and p: "pending m = Some (e, (k, b) # ws)"
    and b': "val_of dec k b' = val_of dec k b" "decodable dec k b'"
  shows "mvcc_inv dec (m\<lparr>raw := (raw m)(k := b'), pending := Some (e, ws)\<rparr>)" (is "mvcc_inv dec ?m")
proof -
  note D = mvcc_invD [OF inv]
  let ?vs = "versions (db m)" and ?vis = "visible_epoch (db m)" and ?h = "hist m"
  have c: "?vis < e" "distinct (map fst ((k, b) # ws))" "\<forall>(k, b) \<in> set ((k, b) # ws). val_of dec k b = ?h e k"
    "\<And>x. view dec m x = (if x \<in> fst ` set ((k, b) # ws) then ?h ?vis x else ?h e x)" "\<And>x. ?h e x = ?h ?vis x \<or> epoch_of ?vs x = e"
    using D(7) p by (simp_all add: commit_ok_def)
  have nk: "k \<notin> fst ` set ws" using c(2) by simp
  have v': "view dec ?m x = (if x \<in> fst ` set ws then ?h ?vis x else ?h e x)" for x
    using c(3) c(4) [of x] b'(1) nk by (cases "x = k") auto
  have top: "top_epoch ?m = top_epoch m" "top_epoch m = e" using p by (simp_all add: top_epoch_def)
  show ?thesis
  proof (rule mvcc_invI)
    show "decodable dec x (raw ?m x)" for x using D(1) [of x] b'(2) by simp
    show "top_epoch ?m < commit_epoch (db ?m)" "visible_epoch (db ?m) \<le> top_epoch ?m" "versions_ok (top_epoch ?m) (versions (db ?m))"
      using D(2,3,5) top by simp_all
    show "r \<le> visible_epoch (db ?m)" if "r \<in> pinned (versions (db ?m))" for r using D(4) [of r] that by simp
    have "reads q (epoch_of ?vs x) (history_of ?vs x) (view dec ?m x) (?h q x)" if q: "q \<in> insert ?vis (pinned ?vs)" for q x
    proof -
      have rd: "reads q (epoch_of ?vs x) (history_of ?vs x) (view dec m x) (?h q x)" using D(6) q by (auto simp: readers_ok_def)
      have "q \<le> ?vis" using q D(4) by auto
      then have le: "q < e" using c(1) by (rule le_less_trans)
      show ?thesis
      proof (cases "epoch_of ?vs x = e")
        case True
        then show ?thesis using rd le by (simp add: reads_def)
      next
        case False
        then have "view dec ?m x = view dec m x" using c(4,5) [of x] v' [of x] by (auto split: if_splits)
        then show ?thesis using rd by simp
      qed
    qed
    then show "readers_ok (insert (visible_epoch (db ?m)) (pinned (versions (db ?m)))) (versions (db ?m)) (view dec ?m) (hist ?m)"
      by (simp add: readers_ok_def)
    show "commit_ok dec (visible_epoch (db ?m)) (pending ?m) (versions (db ?m)) (view dec ?m) (hist ?m)"
      using c(1,2,3,5) v' by (simp add: commit_ok_def)
    show "sessions_ok (versions (db ?m)) (sess ?m)" using D(8) by simp
    show "fetched_ok ?m" using D(9) by (simp add: fetched_ok_def)
  qed
qed

text \<open>A collection outside a commit, or with a snapshot registered.\<close>

lemma inv_gc:
  assumes inv: "mvcc_inv dec m" and calm: "calm m (db m)"
  shows "mvcc_inv dec (m\<lparr>db := gc_versions (db m)\<rparr>)" (is "mvcc_inv dec ?m")
proof -
  note D = mvcc_invD [OF inv]
  let ?vs = "versions (db m)" and ?vis = "visible_epoch (db m)"
  have top: "top_epoch ?m = top_epoch m" by (simp add: top_epoch_def gc_versions_def cong: option.case_cong)
  have d: "visible_epoch (db ?m) = ?vis" "commit_epoch (db ?m) = commit_epoch (db m)" "versions (db ?m) = gc_locked ?vs"
    by (simp_all add: gc_versions_def)
  show ?thesis
  proof (cases "snapshots ?vs = []")
    case True
    note g = gc_empty [OF True]
    have p: "pending m = None" using calm True by (simp add: calm_def)
    have cur: "view dec m = hist m ?vis" using D(7) p by (simp add: commit_ok_def)
    have np: "pinned (gc_locked ?vs) = {}" by (simp add: pinned_def g(3))
    have ns: "s_snapshot (sess m s) = None" for s
      using session_pinned [OF D(8), of s] True by (cases "s_snapshot (sess m s)") (auto simp: pinned_def)
    show ?thesis
      by (rule mvcc_invI, unfold d np)
        (use D p cur g ns top in \<open>simp_all add: readers_ok_def reads_def commit_ok_def sessions_ok_def fetched_ok_def\<close>)
  next
    case False
    then obtain q where q: "q \<in> pinned ?vs" by (cases "snapshots ?vs") (auto simp: pinned_def)
    have lo: "\<forall>r \<in> insert ?vis (pinned ?vs). \<exists>q \<in> pinned ?vs. q \<le> r" using q D(4) by blast
    note g = gc_pinned [OF False D(5,6) subset_insertI lo]
    have pin: "pinned (gc_locked ?vs) = pinned ?vs" by (simp add: pinned_def g(3))
    have "commit_ok dec ?vis (pending m) (gc_locked ?vs) (view dec m) (hist m)"
    proof (cases "pending m")
      case None
      then show ?thesis using D(7) by (simp add: commit_ok_def)
    next
      case (Some ew)
      obtain e ws where ew: "pending m = Some (e, ws)" using Some by (cases ew) simp
      then have "q < e" using D(7) D(4) [OF q] by (simp add: commit_ok_def)
      then have "epoch_of (gc_locked ?vs) k = e" if "epoch_of ?vs k = e" for k using g(6) [OF q, of k] that by simp
      then show ?thesis using D(7) ew unfolding commit_ok_def by auto
    qed
    moreover have "sessions_ok (gc_locked ?vs) (sess m)" using D(8) by (simp add: sessions_ok_def g(3,4))
    moreover have "fetched_ok ?m" unfolding fetched_ok_def d
    proof (intro allI impI)
      fix s p k v assume a: "s_snapshot (sess ?m s) = Some p" "fetched ?m s k = Some v" "epoch_of (gc_locked ?vs) k \<le> read_epoch p"
      have "read_epoch p \<in> pinned ?vs" using session_pinned [OF D(8)] a(1) by simp
      then have "epoch_of ?vs k \<le> read_epoch p" using g(6) [of "read_epoch p" k] a(3)
        by (cases "read_epoch p < epoch_of ?vs k") simp_all
      then show "v = hist ?m (read_epoch p) k" using D(9) a by (simp add: fetched_ok_def)
    qed
    ultimately show ?thesis
      by (intro mvcc_invI, unfold d pin) (use D g(1,2) top in simp_all)
  qed
qed

lemma inv_publish:
  assumes inv: "mvcc_inv dec m" and p: "pending m = Some (e, [])"
  shows "mvcc_inv dec (m\<lparr>pending := None, db := publish e (db m)\<rparr>)" (is "mvcc_inv dec ?m")
proof -
  note D = mvcc_invD [OF inv]
  let ?vs = "versions (db m)" and ?vis = "visible_epoch (db m)"
  let ?n = "m\<lparr>pending := None, db := (db m)\<lparr>visible_epoch := e\<rparr>\<rparr>"
  have c: "?vis < e" "view dec m = hist m e" using D(7) p by (simp_all add: commit_ok_def fun_eq_iff)
  have top: "top_epoch m = e" "top_epoch ?n = e" using p by (simp_all add: top_epoch_def)
  have "mvcc_inv dec ?n"
  proof (rule mvcc_invI)
    show "decodable dec k (raw ?n k)" for k using D(1) by simp
    show "top_epoch ?n < commit_epoch (db ?n)" "visible_epoch (db ?n) \<le> top_epoch ?n" "versions_ok (top_epoch ?n) (versions (db ?n))"
      using D(2,5) top by simp_all
    show "r \<le> visible_epoch (db ?n)" if "r \<in> pinned (versions (db ?n))" for r
      using D(4) [of r] that c(1) by simp
    have "epoch_of ?vs k \<le> e" for k using D(5) top by (simp add: versions_ok_def)
    then show "readers_ok (insert (visible_epoch (db ?n)) (pinned (versions (db ?n)))) (versions (db ?n)) (view dec ?n) (hist ?n)"
      using D(6) c(2) by (simp add: readers_ok_def reads_def)
    show "commit_ok dec (visible_epoch (db ?n)) (pending ?n) (versions (db ?n)) (view dec ?n) (hist ?n)"
      using c(2) by (simp add: commit_ok_def)
    show "sessions_ok (versions (db ?n)) (sess ?n)" using D(8) by simp
    show "fetched_ok ?n" using D(9) by (simp add: fetched_ok_def)
  qed
  from inv_gc [OF this] show ?thesis by (simp add: calm_def gc_versions_def publish_def)
qed

lemma inv_fetch:
  assumes inv: "mvcc_inv dec m"
  shows "mvcc_inv dec (m\<lparr>fetched := (fetched m)(s := (\<lambda>k. if k \<in> ks then Some (view dec m k) else fetched m s k))\<rparr>)" (is "mvcc_inv dec ?m")
proof -
  note D = mvcc_invD [OF inv]
  have "fetched_ok ?m" unfolding fetched_ok_def
  proof (intro allI impI)
    fix s' p k' v assume a: "s_snapshot (sess ?m s') = Some p" "fetched ?m s' k' = Some v" "epoch_of (versions (db ?m)) k' \<le> read_epoch p"
    have rd: "reads (read_epoch p) (epoch_of (versions (db m)) k') (history_of (versions (db m)) k') (view dec m k') (hist m (read_epoch p) k')"
      using D(6) session_pinned [OF D(8), of s' p] a(1) by (simp add: readers_ok_def)
    show "v = hist ?m (read_epoch p) k'"
    proof (cases "s' = s \<and> k' \<in> ks")
      case True
      then show ?thesis using a rd by (simp add: reads_def)
    next
      case False
      then have "fetched m s' k' = Some v" using a(2) by (auto split: if_splits)
      then show ?thesis using D(9) a by (simp add: fetched_ok_def)
    qed
  qed
  then show ?thesis using inv by (simp add: mvcc_inv_def top_epoch_def Let_def cong: option.case_cong)
qed

text \<open>Pinning and releasing.\<close>

lemma sessions_inj:
  "sessions_ok vs ss \<Longrightarrow> s_snapshot (ss s) = Some p \<Longrightarrow> s_snapshot (ss s') = Some p' \<Longrightarrow> sp_id p = sp_id p' \<Longrightarrow> s = s'"
  unfolding sessions_ok_def by blast

lemma update_new: "k \<notin> fst ` set al \<Longrightarrow> AList.update k v al = al @ [(k, v)]"
  by (induction al) auto

lemma inv_pin:
  assumes inv: "mvcc_inv dec m" and none: "s_snapshot (sess m s) = None"
    and p: "fst p = (fst (pin_snapshot b now (sess m s) (db m)))\<lparr>s_txn := t\<rparr>" "snd p = (snd (pin_snapshot b now (sess m s) (db m)))\<lparr>next_txn := n\<rparr>"
  shows "mvcc_inv dec (set_session s p m)" (is "mvcc_inv dec ?m")
proof -
  note D = mvcc_invD [OF inv]
  let ?vs = "versions (db m)" and ?vis = "visible_epoch (db m)"
  let ?i = "next_snapshot_id ?vs"
  let ?pin = "\<lparr>sp_id = ?i, read_epoch = ?vis, is_statement = b, created_at = now\<rparr>"
  have new: "?i \<notin> fst ` set (snapshots ?vs)" using D(8) by (auto simp: sessions_ok_def)
  have up: "AList.update ?i (?vis, now) (snapshots ?vs) = snapshots ?vs @ [(?i, ?vis, now)]"
    using new by (rule update_new)
  let ?vs' = "?vs\<lparr>snapshots := snapshots ?vs @ [(?i, ?vis, now)], next_snapshot_id := Suc ?i\<rparr>"
  have sp: "sess ?m = (sess m)(s := \<lparr>s_txn = t, s_snapshot = Some ?pin\<rparr>)"
    "db ?m = (db m)\<lparr>versions := ?vs', next_txn := n\<rparr>"
    using p by (cases "sess m s"; simp add: pin_snapshot_def Let_def up)+
  have same: "epoch_of ?vs' k = epoch_of ?vs k" "history_of ?vs' k = history_of ?vs k" for k
    by (simp_all add: epoch_of_def history_of_def)
  have pin: "pinned ?vs' = insert ?vis (pinned ?vs)" by (auto simp: pinned_def)
  have top: "top_epoch ?m = top_epoch m" using sp(2) by (simp add: top_epoch_def cong: option.case_cong)
  show ?thesis
  proof (rule mvcc_invI, unfold top)
    show "decodable dec k (raw ?m k)" for k using D(1) by simp
    show "top_epoch m < commit_epoch (db ?m)" "visible_epoch (db ?m) \<le> top_epoch m" using D(2,3) unfolding sp by simp_all
    show "r \<le> visible_epoch (db ?m)" if "r \<in> pinned (versions (db ?m))" for r using that D(4) pin unfolding sp by auto
    show "versions_ok (top_epoch m) (versions (db ?m))" using D(5) unfolding sp by (simp add: versions_ok_def same)
    show "readers_ok (insert (visible_epoch (db ?m)) (pinned (versions (db ?m)))) (versions (db ?m)) (view dec ?m) (hist ?m)"
      using D(6) pin unfolding sp by (simp add: readers_ok_def same)
    show "commit_ok dec (visible_epoch (db ?m)) (pending ?m) (versions (db ?m)) (view dec ?m) (hist ?m)"
      using D(7) unfolding sp by (cases "pending m") (auto simp: commit_ok_def same)
    show "sessions_ok (versions (db ?m)) (sess ?m)"
    proof -
      have old: "sp_id q \<in> fst ` set (snapshots ?vs)" if "s_snapshot (sess m s') = Some q" for s' q
        using D(8) that by (force simp: sessions_ok_def)
      have "distinct (map fst (snapshots ?vs'))" "\<forall>i \<in> fst ` set (snapshots ?vs'). i < next_snapshot_id ?vs'"
        using D(8) new by (auto simp: sessions_ok_def less_Suc_eq)
      moreover have "\<forall>s' q. s_snapshot (sess ?m s') = Some q \<longrightarrow> (sp_id q, read_epoch q, created_at q) \<in> set (snapshots ?vs')"
        using D(8) unfolding sp by (auto simp: sessions_ok_def)
      moreover have "\<forall>s1 s2 q1 q2. s_snapshot (sess ?m s1) = Some q1 \<longrightarrow> s_snapshot (sess ?m s2) = Some q2 \<longrightarrow> sp_id q1 = sp_id q2 \<longrightarrow> s1 = s2"
      proof (intro allI impI)
        fix s1 s2 q1 q2 assume a: "s_snapshot (sess ?m s1) = Some q1" "s_snapshot (sess ?m s2) = Some q2" "sp_id q1 = sp_id q2"
        have id: "sp_id q = ?i \<longleftrightarrow> s' = s" if "s_snapshot (sess ?m s') = Some q" for s' q
        proof (cases "s' = s")
          case True
          then show ?thesis using that unfolding sp by auto
        next
          case False
          then have "sp_id q \<in> fst ` set (snapshots ?vs)" using that old [of s' q] unfolding sp by simp
          then show ?thesis using False new by metis
        qed
        show "s1 = s2"
        proof (cases "s1 = s \<or> s2 = s")
          case True
          then show ?thesis using id [OF a(1)] id [OF a(2)] a(3) by auto
        next
          case False
          then have "s_snapshot (sess m s1) = Some q1" "s_snapshot (sess m s2) = Some q2" using a(1,2) unfolding sp by simp_all
          then show ?thesis by (rule sessions_inj [OF D(8) _ _ a(3)])
        qed
      qed
      moreover have "versions (db ?m) = ?vs'" unfolding sp(2) by simp
      ultimately show ?thesis unfolding sessions_ok_def by (simp only:)
    qed
    show "fetched_ok ?m" using D(9) unfolding fetched_ok_def sp by (auto simp: same split: if_splits)
  qed
qed

lemma inv_unpin:
  assumes inv: "mvcc_inv dec m" and snap: "s_snapshot (sess m s) = Some q"
    and p: "p = ((sess m s)\<lparr>s_snapshot := None\<rparr>, drop_pin (sp_id q) (db m))" and calm: "calm m (snd p)"
  shows "mvcc_inv dec (set_session s p m)" (is "mvcc_inv dec ?m")
proof -
  note D = mvcc_invD [OF inv]
  let ?vs = "versions (db m)" and ?vis = "visible_epoch (db m)"
  let ?vs' = "?vs\<lparr>snapshots := AList.delete (sp_id q) (snapshots ?vs)\<rparr>"
  let ?ss = "(sess m)(s := (sess m s)\<lparr>s_snapshot := None\<rparr>)"
  let ?n = "m\<lparr>sess := ?ss, fetched := (fetched m)(s := (\<lambda>_. None)), db := (db m)\<lparr>versions := ?vs'\<rparr>\<rparr>"
  have same: "epoch_of ?vs' k = epoch_of ?vs k" "history_of ?vs' k = history_of ?vs k" for k
    by (simp_all add: epoch_of_def history_of_def)
  have del: "x \<in> set (AList.delete (sp_id q) (snapshots ?vs)) \<longleftrightarrow> x \<in> set (snapshots ?vs) \<and> fst x \<noteq> sp_id q" for x
    by (auto simp: AList.delete_eq)
  have pin: "pinned ?vs' \<subseteq> pinned ?vs" unfolding pinned_def set_map by (rule image_mono) (auto simp: AList.delete_eq)
  have top: "top_epoch ?n = top_epoch m" by (simp add: top_epoch_def cong: option.case_cong)
  have "mvcc_inv dec ?n"
  proof (rule mvcc_invI, unfold top)
    show "decodable dec k (raw ?n k)" for k using D(1) by simp
    show "top_epoch m < commit_epoch (db ?n)" "visible_epoch (db ?n) \<le> top_epoch m" using D(2,3) by simp_all
    show "r \<le> visible_epoch (db ?n)" if "r \<in> pinned (versions (db ?n))" for r using that D(4) pin by auto
    show "versions_ok (top_epoch m) (versions (db ?n))" using D(5) by (simp add: versions_ok_def same)
    show "readers_ok (insert (visible_epoch (db ?n)) (pinned (versions (db ?n)))) (versions (db ?n)) (view dec ?n) (hist ?n)"
      using D(6) pin by (auto simp: readers_ok_def same)
    show "commit_ok dec (visible_epoch (db ?n)) (pending ?n) (versions (db ?n)) (view dec ?n) (hist ?n)"
      using D(7) by (cases "pending m") (auto simp: commit_ok_def same)
    show "sessions_ok (versions (db ?n)) (sess ?n)"
    proof -
      have keep: "(sp_id r, read_epoch r, created_at r) \<in> set (snapshots ?vs')" if "s_snapshot (?ss s') = Some r" for s' r
      proof -
        have s': "s' \<noteq> s" "s_snapshot (sess m s') = Some r" using that by (auto split: if_splits)
        then have "sp_id r \<noteq> sp_id q" using sessions_inj [OF D(8) s'(2) snap] by blast
        moreover have "(sp_id r, read_epoch r, created_at r) \<in> set (snapshots ?vs)" using D(8) s'(2) by (simp add: sessions_ok_def)
        ultimately show ?thesis by (simp add: del)
      qed
      have "distinct (map fst (snapshots ?vs'))" using D(8) by (simp add: sessions_ok_def distinct_delete)
      moreover have "\<forall>i \<in> fst ` set (snapshots ?vs'). i < next_snapshot_id ?vs'" using D(8) by (auto simp: sessions_ok_def AList.delete_eq)
      moreover have "s1 = s2" if "s_snapshot (?ss s1) = Some r1" "s_snapshot (?ss s2) = Some r2" "sp_id r1 = sp_id r2" for s1 s2 r1 r2
        using that sessions_inj [OF D(8), of s1 r1 s2 r2] by (simp split: if_splits)
      moreover have "versions (db ?n) = ?vs'" "sess ?n = ?ss" by simp_all
      ultimately show ?thesis using keep unfolding sessions_ok_def by (simp only:) blast
    qed
    show "fetched_ok ?n" using D(9) unfolding fetched_ok_def by (auto simp: same split: if_splits)
  qed
  moreover have "calm ?n (db ?n)"
    using calm unfolding p
    by (auto simp: calm_def drop_pin_def gc_locked_def split: if_splits)
  ultimately have "mvcc_inv dec (?n\<lparr>db := gc_versions (db ?n)\<rparr>)" by (rule inv_gc)
  moreover have "?n\<lparr>db := gc_versions (db ?n)\<rparr> = ?m" unfolding p by (simp add: gc_versions_def drop_pin_def)
  ultimately show ?thesis by simp
qed

lemma mvcc_step_inv:
  assumes "mvcc_step dec False m m'" "mvcc_inv dec m"
  shows "mvcc_inv dec m'"
  using assms
proof (induction rule: mvcc_step.induct)
  case (Alloc m)
  then show ?case by (rule inv_alloc)
next
  case (Record m e ws tables vs)
  from inv_record [OF Record(7,1-6)] show ?case .
next
  case (Install m e k b ws b')
  from inv_install [OF Install(4,1-3)] show ?case .
next
  case (Publish m e)
  from inv_publish [OF Publish(2,1)] show ?case .
next
  case (Begin m s now p)
  from Begin(2) have "fst p = (fst (pin_snapshot False now (sess m s) (db m)))\<lparr>s_txn := Some \<lparr>txn_id = next_txn (snd (pin_snapshot False now (sess m s) (db m))), staged = []\<rparr>\<rparr>"
    "snd p = (snd (pin_snapshot False now (sess m s) (db m)))\<lparr>next_txn := next_txn (snd (pin_snapshot False now (sess m s) (db m))) + 1\<rparr>"
    by (auto simp: snapshot_begin_def Let_def split: if_splits prod.splits)
  from inv_pin [OF Begin(3,1) this] show ?case .
next
  case (PinActive m s now)
  let ?p = "pin_snapshot False now (sess m s) (db m)"
  have "snapshot_pin_active now (sess m s) (db m) = ?p" using PinActive(1) by (simp add: snapshot_pin_active_def)
  moreover from inv_pin [OF PinActive(2,1), where p = ?p and b = False and now = now and t = "s_txn (fst ?p)" and n = "next_txn (snd ?p)"] have "mvcc_inv dec (set_session s ?p m)" by simp
  ultimately show ?case by simp
next
  case (PinStatement m s now)
  let ?p = "pin_snapshot True now (sess m s) (db m)"
  have "snapshot_pin_statement now (sess m s) (db m) = ?p" using PinStatement(1) by (simp add: snapshot_pin_statement_def)
  moreover from inv_pin [OF PinStatement(2,1), where p = ?p and b = True and now = now and t = "s_txn (fst ?p)" and n = "next_txn (snd ?p)"] have "mvcc_inv dec (set_session s ?p m)" by simp
  ultimately show ?case by simp
next
  case (End m s snap p)
  have "p = ((sess m s)\<lparr>s_snapshot := None\<rparr>, drop_pin (sp_id snap) (db m))" using End(1,2) by (auto simp: snapshot_end_def)
  from inv_unpin [OF End(4,1) this] End(3) show ?case by simp
next
  case (EndStatement m s snap p)
  have "p = ((sess m s)\<lparr>s_snapshot := None\<rparr>, drop_pin (sp_id snap) (db m))" using EndStatement(1-3) by (auto simp: snapshot_end_statement_def)
  from inv_unpin [OF EndStatement(5,1) this] EndStatement(4) show ?case by simp
next
  case (Gc m)
  from inv_gc [OF Gc(2)] Gc(1) show ?case by simp
next
  case (Fetch m s ks)
  then show ?case by (rule inv_fetch)
qed

lemma mvcc_run_inv:
  assumes "mvcc_run dec False (mvcc_start b dec age) m" "\<And>k. decodable dec k (b k)"
  shows "mvcc_inv dec m"
  using assms(1)
proof (induction rule: rtranclp_induct)
  case base
  show ?case using assms(2) by (rule mvcc_start_inv)
next
  case (step m m')
  from mvcc_step_inv [OF step(2,3)] show ?case .
qed


section \<open>Isolation\<close>

text \<open>A published state never changes.\<close>

lemma hist_stable:
  assumes "mvcc_step dec race m m'" "e \<le> visible_epoch (db m)" "top_epoch m \<ge> visible_epoch (db m)"
  shows "hist m' e = hist m e"
  using assms by (induction rule: mvcc_step.induct) auto

lemma session_reads:
  assumes inv: "mvcc_inv dec m" and p: "s_snapshot (sess m s) = Some p"
  shows "reads (read_epoch p) (epoch_of (versions (db m)) k) (history_of (versions (db m)) k) (view dec m k) (hist m (read_epoch p) k)"
proof -
  note D = mvcc_invD [OF inv]
  show ?thesis using D(6) session_pinned [OF D(8) p] by (simp add: readers_ok_def)
qed

lemma session_lookup:
  assumes inv: "mvcc_inv dec m" and p: "s_snapshot (sess m s) = Some p"
    and v: "fetched m s k = Some v" and age: "\<not> too_old now (db m) p"
  shows "snapshot_lookup dur now (db m) (sess m s) k v = Inr (hist m (read_epoch p) k)"
proof -
  note D = mvcc_invD [OF inv]
  have ok: "epoch_of (versions (db m)) k \<le> read_epoch p \<Longrightarrow> v = hist m (read_epoch p) k"
    using D(9) p v by (simp add: fetched_ok_def)
  show ?thesis using session_reads [OF inv p, of k] ok p age
    by (auto simp: snapshot_lookup_def reads_def epoch_of_def)
qed

lemma scan_histories_Cons:
  "scan_histories r t present ((k, c) # cs) =
     (if fst k = t \<and> snd k \<notin> present \<and> snd (chain_walk r c None False) \<and> fst (chain_walk r c None False) \<noteq> None
      then [(snd k, the (fst (chain_walk r c None False)))] else []) @ scan_histories r t present cs"
  by (cases "chain_walk r c None False"; cases "fst (chain_walk r c None False)"; cases "snd (chain_walk r c None False)") auto

lemma in_scan_histories:
  "(k, row) \<in> set (scan_histories r t present cs) \<longleftrightarrow>
     k \<notin> present \<and> (\<exists>c. ((t, k), c) \<in> set cs \<and> chain_walk r c None False = (Some row, True))"
proof (induction cs)
  case (Cons x cs)
  obtain t' k' c where x: "x = ((t', k'), c)" by (cases x) auto
  show ?case unfolding x scan_histories_Cons using Cons by (cases "chain_walk r c None False") auto
qed simp

lemma distinct_scan_histories:
  "distinct (map fst cs) \<Longrightarrow> distinct (map fst (scan_histories r t present cs))"
proof (induction cs)
  case (Cons x cs)
  obtain k c where x: "x = (k, c)" by (cases x)
  have "(k, c') \<notin> set cs" for c' using Cons.prems x by force
  then have "snd k \<notin> fst ` set (scan_histories r t present cs)" if "fst k = t"
    using that by (auto simp: in_scan_histories)
  then show ?case using Cons x unfolding x scan_histories_Cons by auto
qed simp

lemma session_scan_extra:
  assumes inv: "mvcc_inv dec m" and p: "s_snapshot (sess m s) = Some p" and age: "\<not> too_old now (db m) p"
    and none: "\<And>k. k \<notin> present \<Longrightarrow> hist m (read_epoch p) (t, k) \<noteq> None \<Longrightarrow> fetched m s (t, k) = Some None"
  shows "\<exists>extra. snapshot_scan_extra dur now (db m) (sess m s) t present = Inr extra \<and> distinct (map fst extra) \<and>
    set extra = {(k, row). k \<notin> present \<and> hist m (read_epoch p) (t, k) = Some row}"
proof -
  note D = mvcc_invD [OF inv]
  let ?r = "read_epoch p" and ?vs = "versions (db m)"
  let ?extra = "scan_histories ?r t present (chains ?vs)"
  have d: "distinct (map fst (chains ?vs))" using D(5) by (simp add: versions_ok_def)
  have hc: "((t, k), c) \<in> set (chains ?vs) \<Longrightarrow> history_of ?vs (t, k) = c" for k c
    using d by (simp add: history_of_def map_of_is_SomeI)
  have iff: "(\<exists>c. ((t, k), c) \<in> set (chains ?vs) \<and> chain_walk ?r c None False = (Some row, True)) \<longleftrightarrow> hist m ?r (t, k) = Some row"
    if k: "k \<notin> present" for k row
  proof
    assume "\<exists>c. ((t, k), c) \<in> set (chains ?vs) \<and> chain_walk ?r c None False = (Some row, True)"
    then have w: "chain_walk ?r (history_of ?vs (t, k)) None False = (Some row, True)" using hc by metis
    have "\<not> epoch_of ?vs (t, k) \<le> ?r"
    proof
      assume "epoch_of ?vs (t, k) \<le> ?r"
      moreover have "history_ok (epoch_of ?vs (t, k)) (history_of ?vs (t, k))" using D(5) by (simp add: versions_ok_def)
      ultimately show False using chain_walk_old [OF history_old] w by force
    qed
    then show "hist m ?r (t, k) = Some row" using session_reads [OF inv p, of "(t, k)"] w by (simp add: reads_def)
  next
    assume h: "hist m ?r (t, k) = Some row"
    then have "fetched m s (t, k) = Some None" using none k by simp
    then have new: "\<not> epoch_of ?vs (t, k) \<le> ?r" using D(9) p h by (fastforce simp: fetched_ok_def)
    then have w: "chain_walk ?r (history_of ?vs (t, k)) None False = (Some row, True)"
      using session_reads [OF inv p, of "(t, k)"] h by (simp add: reads_def)
    then obtain c where c: "map_of (chains ?vs) (t, k) = Some c" by (auto simp: history_of_def split: option.splits)
    then have "((t, k), c) \<in> set (chains ?vs)" by (rule map_of_SomeD)
    then show "\<exists>c. ((t, k), c) \<in> set (chains ?vs) \<and> chain_walk ?r c None False = (Some row, True)" using hc w by metis
  qed
  have "snapshot_scan_extra dur now (db m) (sess m s) t present = Inr ?extra" using p age by (simp add: snapshot_scan_extra_def)
  moreover have "set ?extra = {(k, row). k \<notin> present \<and> hist m ?r (t, k) = Some row}"
    by (intro set_eqI, unfold split_paired_all) (use iff in_scan_histories in blast)
  ultimately show ?thesis using distinct_scan_histories [OF d] by blast
qed

lemma session_keep:
  assumes inv: "mvcc_inv dec m" and p: "s_snapshot (sess m s) = Some p" and age: "\<not> too_old now (db m) p"
    and "\<forall>(k, r) \<in> set rows. fetched m s (t, k) = Some (Some r)"
  shows "snapshot_keep dur now (db m) (sess m s) t rows =
    Inr (map (\<lambda>(k, _). (k, the (hist m (read_epoch p) (t, k)))) (filter (\<lambda>(k, _). hist m (read_epoch p) (t, k) \<noteq> None) rows))"
  using assms(4) by (induction rows) (auto simp: session_lookup [OF inv p _ age] split: option.splits)

lemma distinct_keys_sort: "distinct (map fst (sort_key f xs)) \<longleftrightarrow> distinct (map fst xs)"
  by (simp add: distinct_map)

text \<open>A scan whose rows were read from the table while commits went on returns the table of the snapshot.\<close>

lemma session_scan:
  assumes inv: "mvcc_inv dec m" and p: "s_snapshot (sess m s) = Some p" and age: "\<not> too_old now (db m) p"
    and d: "sorted_wrt (<) (map fst rows)" and all: "\<And>k. fetched m s (t, k) = Some (map_of rows k)"
  shows "\<exists>out. snapshot_rows dur now (db m) (sess m s) t rows = Inr out \<and> sorted_wrt (<) (map fst out) \<and>
    map_of out = (\<lambda>k. hist m (read_epoch p) (t, k))"
proof -
  let ?h = "\<lambda>k. hist m (read_epoch p) (t, k)"
  let ?kept = "map (\<lambda>(k, _). (k, the (?h k))) (filter (\<lambda>(k, _). ?h k \<noteq> None) rows)"
  have dist: "distinct (map fst rows)" using d by (simp add: strict_sorted_iff)
  have "\<forall>(k, r) \<in> set rows. fetched m s (t, k) = Some (Some r)" using all dist by auto
  note keep = session_keep [OF inv p age this]
  have kf: "map fst ?kept = map fst (filter (\<lambda>(k, _). ?h k \<noteq> None) rows)" by (induction rows) auto
  have ks: "sorted_wrt (<) (map fst ?kept)" using d unfolding kf by (induction rows) auto
  have kin: "(k, r) \<in> set ?kept \<longleftrightarrow> k \<in> fst ` set rows \<and> ?h k = Some r" for k r by force
  have "fetched m s (t, k) = Some None" if "k \<notin> fst ` set ?kept" "?h k \<noteq> None" for k
  proof -
    have "k \<notin> fst ` set rows" using that kin [of k "the (?h k)"] by force
    then have "map_of rows k = None" by (simp add: map_of_eq_None_iff)
    then show ?thesis using all by simp
  qed
  from session_scan_extra [OF inv p age this, where dur = dur]
  obtain extra where ex: "snapshot_scan_extra dur now (db m) (sess m s) t (fst ` set ?kept) = Inr extra" "distinct (map fst extra)"
    "set extra = {(k, row). k \<notin> fst ` set ?kept \<and> ?h k = Some row}" by blast
  define out where "out = (if extra = [] then ?kept else sort_key fst (?kept @ extra))"
  have run: "snapshot_rows dur now (db m) (sess m s) t rows = Inr out"
    using p keep ex(1) by (simp add: snapshot_rows_def out_def)
  have so: "set out = set ?kept \<union> set extra" by (simp add: out_def)
  have mem: "(k, r) \<in> set out \<longleftrightarrow> ?h k = Some r" for k r
    unfolding so using ex(3) kin by (cases "k \<in> fst ` set ?kept") force+
  have "distinct (map fst (?kept @ extra))"
  proof -
    have "distinct (map fst ?kept)" using ks by (simp add: strict_sorted_iff)
    moreover have "fst ` set extra \<subseteq> - (fst ` set ?kept)" by (rule image_subsetI) (simp only: ex(3) mem_Collect_eq split_def Compl_iff simp_thms)
    ultimately show ?thesis using ex(2) unfolding map_append distinct_append set_map by blast
  qed
  then have "distinct (map fst (sort_key fst (?kept @ extra)))" by (simp only: distinct_keys_sort)
  then have "sorted_wrt (<) (map fst out)"
    using ks by (simp add: out_def strict_sorted_iff)
  moreover from this have "map_of out = ?h"
    using mem by (intro ext) (metis map_of_eq_Some_iff map_of_SomeD not_None_eq strict_sorted_iff)
  ultimately show ?thesis using run by blast
qed

section \<open>Sample runs\<close>

text \<open>Rows of the samples are stored as that many nulls. Session 0 pins, then a commit overwrites the row
  that session 0 reads afterwards.\<close>

definition row_dec :: "string \<Rightarrow> bytes \<Rightarrow> row result" where
  "row_dec t b = Inr (map (\<lambda>_. DNull) b)"

lemma row_dec_total: "decodable row_dec k b"
  by (simp add: decodable_def val_of_def row_dec_def split: option.splits)

abbreviation key_a :: tkey where
  "key_a \<equiv> (''t'', [1])"

abbreviation key_b :: tkey where
  "key_b \<equiv> (''t'', [2])"

lemma step_into: "mvcc_step dec race a b \<Longrightarrow> mvcc_run dec race b c \<Longrightarrow> mvcc_run dec race a c"
  by (rule converse_rtranclp_into_rtranclp)

lemmas run_defs = mvcc_start_def version_state_new_def snapshot_pin_statement_def pin_snapshot_def alloc_commit_epoch_def
  publish_def gc_locked_def snapshot_end_statement_def drop_pin_def record_install_def push_version_def history_of_def
  row_dec_def val_of_def newer_than_def decodable_def calm_def Let_def

lemma pinned_run:
  "\<exists>m. mvcc_run row_dec False (mvcc_start [key_a \<mapsto> [0]] row_dec None) m \<and>
     s_snapshot (sess m 0) = Some \<lparr>sp_id = 1, read_epoch = 0, is_statement = True, created_at = 7\<rparr> \<and>
     fetched m 0 = Some \<circ> [key_a \<mapsto> [DNull, DNull]] \<and> hist m 0 = [key_a \<mapsto> [DNull]] \<and> max_snapshot_age (db m) = None"
proof -
  define m0 where "m0 = mvcc_start [key_a \<mapsto> [0]] row_dec None"
  define m1 where "m1 = set_session 0 (snapshot_pin_statement 7 (sess m0 0) (db m0)) m0"
  define m2 where "m2 = m1\<lparr>db := snd (alloc_commit_epoch (db m1))\<rparr>"
  let ?ws = "[(key_a, Some [0, 0])]"
  define vs where "vs = fst (record_commit_batch (\<lambda>_. True) (raw m2) row_dec ?ws 1 (versions (db m2)))"
  define m3 where "m3 = m2\<lparr>db := (db m2)\<lparr>versions := vs\<rparr>, pending := Some (1, ?ws),
      hist := (hist m2)(1 := (\<lambda>k. case map_of ?ws k of None \<Rightarrow> view row_dec m2 k | Some b \<Rightarrow> val_of row_dec k b))\<rparr>"
  define m4 where "m4 = m3\<lparr>raw := (raw m3)(key_a := Some [0, 0]), pending := Some (1, [])\<rparr>"
  define m5 where "m5 = m4\<lparr>pending := None, db := publish 1 (db m4)\<rparr>"
  define m6 where "m6 = m5\<lparr>fetched := (fetched m5)(0 := (\<lambda>k. if k \<in> UNIV then Some (view row_dec m5 k) else fetched m5 0 k))\<rparr>"
  note ms = m0_def m1_def m2_def vs_def m3_def m4_def m5_def m6_def
  have r1: "mvcc_step row_dec False m0 m1" unfolding m1_def by (rule PinStatement) (simp add: m0_def mvcc_start_def)
  have r2: "mvcc_step row_dec False m1 m2" unfolding m2_def by (rule Alloc)
  have r3: "mvcc_step row_dec False m2 m3" unfolding m3_def
    by (rule Record [where tables = "\<lambda>_. True"]) (simp_all add: ms run_defs)
  have r4: "mvcc_step row_dec False m3 m4" unfolding m4_def
    by (rule Install [where b = "Some [0, 0]"]) (simp_all add: m3_def row_dec_def val_of_def decodable_def)
  have r5: "mvcc_step row_dec False m4 m5" unfolding m5_def by (rule Publish) (simp add: m4_def)
  have r6: "mvcc_step row_dec False m5 m6" unfolding m6_def by (rule Fetch)
  have run: "mvcc_run row_dec False m0 m6"
    by (rule step_into [OF r1] step_into [OF r2] step_into [OF r3] step_into [OF r4] step_into [OF r5] r_into_rtranclp r6)+
  have "s_snapshot (sess m6 0) = Some \<lparr>sp_id = 1, read_epoch = 0, is_statement = True, created_at = 7\<rparr>"
    "fetched m6 0 = Some \<circ> [key_a \<mapsto> [DNull, DNull]]" "hist m6 0 = [key_a \<mapsto> [DNull]]" "max_snapshot_age (db m6) = None"
    by (simp_all add: ms run_defs fun_eq_iff split: option.splits)
  then show ?thesis using run unfolding m0_def by blast
qed

text \<open>Here a statement of session 1 is the only reader when a commit records its rows; the statement ends,
  and a collection with no snapshot left clears the buffer. Session 0 then pins and reads while the commit installs.\<close>

lemma racy_run:
  "\<exists>m. mvcc_run row_dec True (mvcc_start [key_a \<mapsto> [0], key_b \<mapsto> [0]] row_dec None) m \<and>
     s_snapshot (sess m 0) = Some \<lparr>sp_id = 2, read_epoch = 0, is_statement = True, created_at = 7\<rparr> \<and>
     fetched m 0 key_a = Some (Some [DNull, DNull]) \<and> fetched m 0 key_b = Some (Some [DNull]) \<and>
     hist m 0 key_a = Some [DNull] \<and> hist m 1 key_b = Some [DNull, DNull] \<and> visible_epoch (db m) = 0 \<and>
     committed (versions (db m)) = Map.empty \<and> max_snapshot_age (db m) = None"
proof -
  define m0 where "m0 = mvcc_start [key_a \<mapsto> [0], key_b \<mapsto> [0]] row_dec None"
  define m1 where "m1 = set_session 1 (snapshot_pin_statement 7 (sess m0 1) (db m0)) m0"
  define m2 where "m2 = m1\<lparr>db := snd (alloc_commit_epoch (db m1))\<rparr>"
  let ?ws = "[(key_a, Some [0, 0]), (key_b, Some [0, 0])]"
  define vs where "vs = fst (record_commit_batch (\<lambda>_. True) (raw m2) row_dec ?ws 1 (versions (db m2)))"
  define m3 where "m3 = m2\<lparr>db := (db m2)\<lparr>versions := vs\<rparr>, pending := Some (1, ?ws),
      hist := (hist m2)(1 := (\<lambda>k. case map_of ?ws k of None \<Rightarrow> view row_dec m2 k | Some b \<Rightarrow> val_of row_dec k b))\<rparr>"
  define m4 where "m4 = set_session 1 (snapshot_end_statement (sess m3 1) (db m3)) m3"
  define m5 where "m5 = set_session 0 (snapshot_pin_statement 7 (sess m4 0) (db m4)) m4"
  define m6 where "m6 = m5\<lparr>raw := (raw m5)(key_a := Some [0, 0]), pending := Some (1, [(key_b, Some [0, 0])])\<rparr>"
  define m7 where "m7 = m6\<lparr>fetched := (fetched m6)(0 := (\<lambda>k. if k \<in> {key_a} then Some (view row_dec m6 k) else fetched m6 0 k))\<rparr>"
  define m8 where "m8 = m7\<lparr>fetched := (fetched m7)(0 := (\<lambda>k. if k \<in> {key_b} then Some (view row_dec m7 k) else fetched m7 0 k))\<rparr>"
  note ms = m0_def m1_def m2_def vs_def m3_def m4_def m5_def m6_def
  have r1: "mvcc_step row_dec True m0 m1" unfolding m1_def by (rule PinStatement) (simp add: m0_def mvcc_start_def)
  have r2: "mvcc_step row_dec True m1 m2" unfolding m2_def by (rule Alloc)
  have r3: "mvcc_step row_dec True m2 m3" unfolding m3_def
    by (rule Record [where tables = "\<lambda>_. True"]) (auto simp: ms run_defs)
  have r4: "mvcc_step row_dec True m3 m4" unfolding m4_def
    by (rule EndStatement [where snap = "\<lparr>sp_id = 1, read_epoch = 0, is_statement = True, created_at = 7\<rparr>"]) (simp_all add: ms run_defs)
  have r5: "mvcc_step row_dec True m4 m5" unfolding m5_def by (rule PinStatement) (simp add: ms run_defs)
  have r6: "mvcc_step row_dec True m5 m6" unfolding m6_def
    by (rule Install [where b = "Some [0, 0]"]) (simp_all add: m5_def m4_def m3_def row_dec_def val_of_def decodable_def)
  have r7: "mvcc_step row_dec True m6 m7" unfolding m7_def by (rule Fetch)
  have r8: "mvcc_step row_dec True m7 m8" unfolding m8_def by (rule Fetch)
  have run: "mvcc_run row_dec True m0 m8"
    by (rule step_into [OF r1] step_into [OF r2] step_into [OF r3] step_into [OF r4] step_into [OF r5] step_into [OF r6]
      step_into [OF r7] r_into_rtranclp r8)+
  have f4: "versions (db m4) = \<lparr>committed = Map.empty, chains = [], snapshots = [], next_snapshot_id = 2\<rparr>"
    "visible_epoch (db m4) = 0" "max_snapshot_age (db m4) = None" "raw m4 = [key_a \<mapsto> [0], key_b \<mapsto> [0]]"
    "s_snapshot (sess m4 0) = None" "hist m4 0 key_a = Some [DNull]" "hist m4 1 key_b = Some [DNull, DNull]"
    by (simp_all add: ms run_defs)
  have f5: "s_snapshot (sess m5 0) = Some \<lparr>sp_id = 2, read_epoch = 0, is_statement = True, created_at = 7\<rparr>"
    "committed (versions (db m5)) = Map.empty" "visible_epoch (db m5) = 0" "max_snapshot_age (db m5) = None"
    by (simp_all add: m5_def snapshot_pin_statement_def pin_snapshot_def Let_def f4)
  have raw: "raw m6 = [key_b \<mapsto> [0], key_a \<mapsto> [0, 0]]" by (simp add: m6_def m5_def f4)
  have f8: "fetched m8 0 key_a = Some (Some [DNull, DNull])" "fetched m8 0 key_b = Some (Some [DNull])"
    by (simp_all add: m8_def m7_def raw row_dec_def val_of_def)
  have "sess m8 = sess m5" "db m8 = db m5" "hist m8 = hist m4" by (simp_all add: m8_def m7_def m6_def m5_def)
  then show ?thesis using run f4 f5 f8 unfolding m0_def by (intro exI [of _ m8]) simp
qed

section \<open>Theorems\<close>



text \<open>Snapshot isolation of scans: when a session has read every key of a table, each at any time since
  its pin, the rows that the scan returns after substitution are, in key order, exactly the table as it was
  after the commit of the snapshot's epoch: rows inserted since vanish, rows deleted since are restored.\<close>

theorem snapshot_scan_isolation:
  assumes "mvcc_run dec False (mvcc_start b dec age) m" "\<And>k. decodable dec k (b k)"
    and "s_snapshot (sess m s) = Some p" "\<not> too_old now (db m) p"
    and "sorted_wrt (<) (map fst rows)" "\<And>k. fetched m s (t, k) = Some (map_of rows k)"
  shows "\<exists>out. snapshot_rows dur now (db m) (sess m s) t rows = Inr out \<and> sorted_wrt (<) (map fst out) \<and>
    map_of out = (\<lambda>k. hist m (read_epoch p) (t, k))"
  by (rule session_scan [OF mvcc_run_inv [OF assms(1,2)] assms(3-6)])

theorem snapshot_scan_isolation_witness:
  "\<exists>(m :: mvcc) out. fetched m 0 key_a = Some (Some [DNull, DNull]) \<and>
     snapshot_rows (\<lambda>_. []) 9 (db m) (sess m 0) ''t'' [([1], [DNull, DNull])] = Inr out \<and> map_of out = [[1] \<mapsto> [DNull]]"
proof -
  obtain m where m: "mvcc_run row_dec False (mvcc_start [key_a \<mapsto> [0]] row_dec None) m"
    "s_snapshot (sess m 0) = Some \<lparr>sp_id = 1, read_epoch = 0, is_statement = True, created_at = 7\<rparr>"
    "fetched m 0 = Some \<circ> [key_a \<mapsto> [DNull, DNull]]" "hist m 0 = [key_a \<mapsto> [DNull]]" "max_snapshot_age (db m) = None"
    using pinned_run by blast
  have age: "\<not> too_old 9 (db m) \<lparr>sp_id = 1, read_epoch = 0, is_statement = True, created_at = 7\<rparr>" using m(5) by (simp add: too_old_def)
  have "sorted_wrt (<) (map fst [([1], [DNull, DNull])])" "\<And>k. fetched m 0 (''t'', k) = Some (map_of [([1], [DNull, DNull])] k)"
    using m(3) by simp_all
  from snapshot_scan_isolation [OF m(1) row_dec_total m(2) age this, of "\<lambda>_. []"] obtain out
    where "snapshot_rows (\<lambda>_. []) 9 (db m) (sess m 0) ''t'' [([1], [DNull, DNull])] = Inr out" "map_of out = (\<lambda>k. hist m 0 (''t'', k))"
    by auto
  moreover have "(\<lambda>k. hist m 0 (''t'', k)) = [[1] \<mapsto> [DNull]]" using m(4) by (auto simp: fun_eq_iff)
  moreover have "fetched m 0 key_a = Some (Some [DNull, DNull])" using m(3) by simp
  ultimately show ?thesis by (intro exI [of _ m] exI [of _ out]) simp
qed

text \<open>Without that restriction isolation fails: when the last statement snapshot ends while a commit of two
  rows is being installed, the next snapshot, pinned before the commit is published, sees the new value of
  one row and the old value of the other.\<close>

theorem half_commit_visible:
  "\<exists>m p. mvcc_run row_dec True (mvcc_start [key_a \<mapsto> [0], key_b \<mapsto> [0]] row_dec None) m \<and>
     s_snapshot (sess m 0) = Some p \<and> read_epoch p = 0 \<and> visible_epoch (db m) = 0 \<and>
     hist m 0 key_a = Some [DNull] \<and> hist m 1 key_b = Some [DNull, DNull] \<and>
     fetched m 0 key_a = Some (Some [DNull, DNull]) \<and> fetched m 0 key_b = Some (Some [DNull]) \<and>
     snapshot_lookup (\<lambda>_. []) 9 (db m) (sess m 0) key_a (Some [DNull, DNull]) = Inr (Some [DNull, DNull]) \<and>
     snapshot_lookup (\<lambda>_. []) 9 (db m) (sess m 0) key_b (Some [DNull]) = Inr (Some [DNull])"
proof -
  let ?p = "\<lparr>sp_id = 2, read_epoch = 0, is_statement = True, created_at = 7\<rparr> :: snapshot_pin"
  obtain m where m: "mvcc_run row_dec True (mvcc_start [key_a \<mapsto> [0], key_b \<mapsto> [0]] row_dec None) m"
    "s_snapshot (sess m 0) = Some ?p" "fetched m 0 key_a = Some (Some [DNull, DNull])" "fetched m 0 key_b = Some (Some [DNull])"
    "hist m 0 key_a = Some [DNull]" "hist m 1 key_b = Some [DNull, DNull]" "visible_epoch (db m) = 0"
    "committed (versions (db m)) = Map.empty" "max_snapshot_age (db m) = None" using racy_run by blast
  have "snapshot_lookup (\<lambda>_. []) 9 (db m) (sess m 0) k v = Inr v" for k v
    using m(2,8,9) by (simp add: snapshot_lookup_def too_old_def)
  then show ?thesis using m by (intro exI [of _ m] exI [of _ ?p]) simp
qed

end
