(* ===== verification/BTree_Model.thy ===== *)
theory BTree_Model
  imports Prelude
begin

text \<open>
  The B+ tree (\<open>crates/engine/src/btree.rs\<close>): node bodies, search, insertion, replacement,
  deletion with rebalancing, root wrapping and collapse, and the range scan over the leaf chain.

  A \<open>Node\<close> behind an \<open>Arc\<close> is a \<open>node\<close> value with an identifier (the allocation); children are
  owned by their parent, and the sibling pointer \<open>next\<close> of a leaf is the identifier of another
  leaf. Mutating a child through its latch is rebuilding the parent with the new child. The
  operations are those of one thread running alone: latch acquisition and optimistic validation
  succeed at once (the latch protocol has its own theory). \<open>None\<close> is a panic (an index out of
  range or an \<open>unreachable!\<close>), except where a definition says otherwise.
\<close>

type_synonym key = bytes
type_synonym val = bytes
type_synonym node_id = nat

section \<open>Nodes\<close>

definition MAX_KEYS :: nat where "MAX_KEYS = 128"
definition MIN_KEYS :: nat where "MIN_KEYS = MAX_KEYS div 2"

datatype node =
    Leaf node_id "key list" "u32 list" "val list" "node_id option"
  | Internal node_id "key list" "u32 list" "node list"

definition key_head :: "key \<Rightarrow> u32" where
  "key_head key =
     (let n = min (length key) 4
      in of_nat (nat_be (take n key @ replicate (4 - n) 0)))"

definition heads_for :: "key list \<Rightarrow> u32 list" where
  "heads_for keys = map key_head keys"

definition new_leaf_with :: "node_id \<Rightarrow> key list \<Rightarrow> val list \<Rightarrow> node_id option \<Rightarrow> node" where
  "new_leaf_with i keys vals nx = Leaf i keys (heads_for keys) vals nx"

definition new_internal :: "node_id \<Rightarrow> key list \<Rightarrow> node list \<Rightarrow> node" where
  "new_internal i keys children = Internal i keys (heads_for keys) children"

fun key_count :: "node \<Rightarrow> nat" where
  "key_count (Leaf _ keys _ _ _) = length keys"
| "key_count (Internal _ keys _ _) = length keys"

fun is_leaf :: "node \<Rightarrow> bool" where
  "is_leaf (Leaf _ _ _ _ _) = True"
| "is_leaf (Internal _ _ _ _) = False"

text \<open>Allocation and the structural-change counters of the tree.\<close>

record arena =
  next_id :: node_id
  splits :: u64
  merges :: u64

definition bump_splits :: "arena \<Rightarrow> arena" where
  "bump_splits st = st\<lparr>splits := splits st + 1\<rparr>"

definition fresh :: "arena \<Rightarrow> arena" where
  "fresh st = st\<lparr>next_id := Suc (next_id st)\<rparr>"

record btree = arena +
  root :: node
  in_place :: u64
  entries :: u64

definition btree_new :: btree where
  "btree_new = \<lparr>next_id = 1, splits = 0, merges = 0,
     root = new_leaf_with 0 [] [] None, in_place = 0, entries = 0\<rparr>"

definition arena_of :: "btree \<Rightarrow> arena" where
  "arena_of t = arena.truncate t"

definition with_arena :: "btree \<Rightarrow> arena \<Rightarrow> node \<Rightarrow> btree" where
  "with_arena t st r =
     t\<lparr>next_id := next_id st, splits := splits st, merges := merges st, root := r\<rparr>"

section \<open>Search\<close>

function lower_bound_loop :: "key list \<Rightarrow> u32 list \<Rightarrow> key \<Rightarrow> u32 \<Rightarrow> nat \<Rightarrow> nat \<Rightarrow> nat" where
  "lower_bound_loop keys heads key h lo hi =
     (if lo < hi then
        let mid = (lo + hi) div 2 in
        if heads ! mid < h \<or> heads ! mid = h \<and> keys ! mid < key
        then lower_bound_loop keys heads key h (mid + 1) hi
        else lower_bound_loop keys heads key h lo mid
      else lo)"
  by pat_completeness auto
termination
  by (relation "measure (\<lambda>(_, _, _, _, lo, hi). hi - lo)") auto

declare lower_bound_loop.simps [simp del]

definition lower_bound :: "key list \<Rightarrow> u32 list \<Rightarrow> key \<Rightarrow> nat" where
  "lower_bound keys heads key =
     lower_bound_loop keys heads key (key_head key) 0 (min (length keys) (length heads))"

text \<open>Point lookup: the outer \<open>None\<close> is a panic (an internal node without children).\<close>

fun get_node :: "key \<Rightarrow> node \<Rightarrow> val option option" where
  "get_node key (Leaf _ keys heads vals _) =
     (let idx = lower_bound keys heads key; n = min (length keys) (length vals)
      in Some (if idx < n \<and> keys ! idx = key then Some (vals ! idx) else None))"
| "get_node key (Internal _ keys heads children) =
     (if children = [] then None
      else let idx = min (lower_bound keys heads key) (length children - 1)
           in map (get_node key) children ! idx)"

definition btree_get :: "btree \<Rightarrow> key \<Rightarrow> val option option" where
  "btree_get t key = get_node key (root t)"

section \<open>Height, a measure for descents\<close>

fun height :: "node \<Rightarrow> nat" where
  "height (Leaf _ _ _ _ _) = 0"
| "height (Internal _ _ _ children) = Suc (foldr max (map height children) 0)"

lemma foldr_max_ge: "x \<in> set xs \<Longrightarrow> (x::nat) \<le> foldr max xs 0"
  by (induction xs) auto

lemma foldr_max_le: "(\<forall>x \<in> set xs. x \<le> n) \<Longrightarrow> foldr max xs (0::nat) \<le> n"
  by (induction xs) auto

lemma height_mem: "c \<in> set children \<Longrightarrow> height c \<le> foldr max (map height children) 0"
  by (intro foldr_max_ge) simp

lemma height_child: "i < length children \<Longrightarrow> height (children ! i) < height (Internal a ks hs children)"
  using foldr_max_ge [of "height (children ! i)" "map height children"] by (simp add: less_Suc_eq_le)

section \<open>Splitting a full child\<close>

definition split_node :: "node \<Rightarrow> arena \<Rightarrow> (node \<times> key \<times> node \<times> arena) option" where
  "split_node child st =
     (case child of
        Leaf i keys heads vals nx \<Rightarrow>
          (let mid = length keys div 2;
               right = new_leaf_with (next_id st) (drop mid keys) (drop mid vals) nx;
               keys' = take mid keys;
               sep = (if keys' = [] then [] else last keys')
           in Some (Leaf i keys' (take mid heads) (take mid vals) (Some (next_id st)), sep, right,
                    fresh st))
      | Internal i keys heads children \<Rightarrow>
          (let mid = length keys div 2 in
           if length keys \<le> mid \<or> length children < mid + 1 then None
           else Some (Internal i (butlast (take (mid + 1) keys)) (butlast (take (mid + 1) heads))
                        (take (mid + 1) children),
                      keys ! mid,
                      new_internal (next_id st) (drop (mid + 1) keys) (drop (mid + 1) children),
                      fresh st)))"

definition split_child_in_place ::
  "key list \<Rightarrow> u32 list \<Rightarrow> node list \<Rightarrow> nat \<Rightarrow> arena \<Rightarrow>
   (key list \<times> u32 list \<times> node list \<times> arena) option" where
  "split_child_in_place p_keys p_heads p_children idx st =
     (if length p_children \<le> idx then None
      else case split_node (p_children ! idx) st of
        None \<Rightarrow> None
      | Some (left, sep, right, st') \<Rightarrow>
          let at = lower_bound p_keys p_heads sep in
          if length p_children < at + 1 then None
          else Some (insert_at at sep p_keys, insert_at at (key_head sep) p_heads,
                     insert_at (at + 1) right (p_children[idx := left]), bump_splits st'))"

section \<open>Descent of a writer\<close>

text \<open>
  \<open>insert_rec\<close> and \<open>upsert_rec\<close> share their internal-node branch: route, split a full child
  first, route again, descend. \<open>write_descend\<close> is that branch, with the leaf branch as \<open>op\<close>.
\<close>

definition route ::
  "key \<Rightarrow> key list \<Rightarrow> u32 list \<Rightarrow> node list \<Rightarrow> arena \<Rightarrow>
   (key list \<times> u32 list \<times> node list \<times> arena \<times> nat) option" where
  "route key keys heads children st =
     (let idx = lower_bound keys heads key in
      if length children \<le> idx then None
      else if MAX_KEYS \<le> key_count (children ! idx) then
        (case split_child_in_place keys heads children idx st of
           None \<Rightarrow> None
         | Some (keys', heads', children', st') \<Rightarrow>
             let idx' = lower_bound keys' heads' key in
             if length children' \<le> idx' then None else Some (keys', heads', children', st', idx'))
      else Some (keys, heads, children, st, idx))"

lemma split_node_height:
  assumes "split_node c st = Some (l, sep, r, st')"
  shows "height l \<le> height c \<and> height r \<le> height c"
proof (cases c)
  case (Leaf i keys heads vals nx)
  with assms show ?thesis by (auto simp: split_node_def Let_def new_leaf_with_def)
next
  case (Internal i keys heads children)
  have "foldr max (map height xs) 0 \<le> foldr max (map height children) 0"
    if "set xs \<subseteq> set children" for xs
    using that by (intro foldr_max_le) (auto intro!: height_mem)
  with assms Internal show ?thesis
    by (auto simp: split_node_def Let_def new_internal_def set_take_subset set_drop_subset
        split: if_splits)
qed

lemma split_child_height:
  assumes "split_child_in_place keys heads children idx st = Some (keys', heads', children', st')"
    and c: "c \<in> set children'"
  shows "height c \<le> foldr max (map height children) 0"
proof -
  from assms obtain l sep r st1 k where j: "idx < length children"
    and sp: "split_node (children ! idx) st = Some (l, sep, r, st1)"
    and ch: "children' = insert_at k r (children[idx := l])"
    by (fastforce simp: split_child_in_place_def Let_def split: if_splits option.splits)
  from ch c have "c = r \<or> c = l \<or> c \<in> set children"
    by (auto simp: insert_at_def dest!: in_set_takeD in_set_dropD
        dest: set_update_subset_insert [THEN subsetD])
  with split_node_height [OF sp] height_mem [OF nth_mem [OF j]] height_mem show ?thesis
    by (auto intro: order_trans)
qed

lemma route_height:
  assumes "route key keys heads children st = Some (keys', heads', children', st', idx)"
  shows "idx < length children' \<and> height (children' ! idx) < height (Internal a keys heads children)"
proof -
  have idx: "idx < length children'"
    using assms by (auto simp: route_def Let_def split: if_splits option.splits)
  have "height (children' ! idx) \<le> foldr max (map height children) 0"
    using assms nth_mem [OF idx]
    by (auto simp: route_def Let_def split: if_splits option.splits
        intro: height_mem split_child_height)
  with idx show ?thesis by (simp add: less_Suc_eq_le)
qed

function (sequential) write_descend ::
  "(node \<Rightarrow> node \<times> 'r) \<Rightarrow> key \<Rightarrow> node \<Rightarrow> arena \<Rightarrow> (node \<times> arena \<times> 'r) option" where
  "write_descend op key (Internal i keys heads children) st =
     (case route key keys heads children st of
        None \<Rightarrow> None
      | Some (keys', heads', children', st', idx) \<Rightarrow>
          (case write_descend op key (children' ! idx) st' of
             None \<Rightarrow> None
           | Some (c, st'', r) \<Rightarrow> Some (Internal i keys' heads' (children'[idx := c]), st'', r)))"
| "write_descend op key leaf st = (case op leaf of (leaf', r) \<Rightarrow> Some (leaf', st, r))"
  by pat_completeness auto
termination
  by (relation "measure (\<lambda>(_, _, n, _). height n)") (auto dest: route_height)

section \<open>Insertion and replacement\<close>

text \<open>\<open>Descend\<close> and \<open>UpsertDescend\<close>: a result, or a restart from the root.\<close>

datatype 'a descend = Done 'a | Restart

fun insert_leaf :: "key \<Rightarrow> val \<Rightarrow> node \<Rightarrow> node \<times> bool descend" where
  "insert_leaf key v (Leaf i keys heads vals nx) =
     (if MAX_KEYS \<le> length keys then (Leaf i keys heads vals nx, Restart)
      else if nx \<noteq> None \<and> keys \<noteq> [] \<and> key > last keys then (Leaf i keys heads vals nx, Restart)
      else let idx = lower_bound keys heads key in
        if idx < length keys \<and> keys ! idx = key then (Leaf i keys heads vals nx, Done False)
        else (Leaf i (insert_at idx key keys) (insert_at idx (key_head key) heads)
                (insert_at idx v vals) nx, Done True))"
| "insert_leaf key v n = (n, Restart)"

fun upsert_leaf :: "key \<Rightarrow> val \<Rightarrow> node \<Rightarrow> node \<times> val option descend" where
  "upsert_leaf key v (Leaf i keys heads vals nx) =
     (let idx = lower_bound keys heads key in
      if idx < length keys \<and> keys ! idx = key
      then (Leaf i keys heads (vals[idx := v]) nx, Done (Some (vals ! idx)))
      else if MAX_KEYS \<le> length keys then (Leaf i keys heads vals nx, Restart)
      else if nx \<noteq> None \<and> keys \<noteq> [] \<and> key > last keys then (Leaf i keys heads vals nx, Restart)
      else (Leaf i (insert_at idx key keys) (insert_at idx (key_head key) heads)
              (insert_at idx v vals) nx, Done None))"
| "upsert_leaf key v n = (n, Restart)"

definition insert_rec :: "key \<Rightarrow> val \<Rightarrow> node \<Rightarrow> arena \<Rightarrow> (node \<times> arena \<times> bool descend) option" where
  "insert_rec key v = write_descend (insert_leaf key v) key"

definition upsert_rec ::
  "key \<Rightarrow> val \<Rightarrow> node \<Rightarrow> arena \<Rightarrow> (node \<times> arena \<times> val option descend) option" where
  "upsert_rec key v = write_descend (upsert_leaf key v) key"

text \<open>A full root is wrapped in a fresh parent.\<close>

definition wrap_root :: "btree \<Rightarrow> btree" where
  "wrap_root t =
     t\<lparr>root := new_internal (next_id t) [] [root t], next_id := Suc (next_id t),
       splits := splits t + 1\<rparr>"

definition bump_entries :: "bool \<Rightarrow> btree \<Rightarrow> btree" where
  "bump_entries b t = (if b then t\<lparr>entries := entries t + 1\<rparr> else t)"

text \<open>The retry loops. The outer option is whether the loop returns; an inner \<open>None\<close> is a panic.\<close>

partial_function (option) btree_insert :: "key \<Rightarrow> val \<Rightarrow> btree \<Rightarrow> (bool \<times> btree) option option" where
  "btree_insert key v t =
     (if MAX_KEYS \<le> key_count (root t) then btree_insert key v (wrap_root t)
      else case insert_rec key v (root t) (arena_of t) of
        None \<Rightarrow> Some None
      | Some (r, st, Done inserted) \<Rightarrow>
          Some (Some (inserted, bump_entries inserted (with_arena t st r)))
      | Some (r, st, Restart) \<Rightarrow> btree_insert key v (with_arena t st r))"

partial_function (option) btree_upsert ::
  "key \<Rightarrow> val \<Rightarrow> btree \<Rightarrow> (val option \<times> btree) option option" where
  "btree_upsert key v t =
     (if MAX_KEYS \<le> key_count (root t) then btree_upsert key v (wrap_root t)
      else case upsert_rec key v (root t) (arena_of t) of
        None \<Rightarrow> Some None
      | Some (r, st, Done prev) \<Rightarrow>
          Some (Some (prev, bump_entries (prev = None) (with_arena t st r)))
      | Some (r, st, Restart) \<Rightarrow> btree_upsert key v (with_arena t st r))"

section \<open>Descents that never restructure\<close>

function (sequential) plain_descend ::
  "(node \<Rightarrow> node \<times> 'r) \<Rightarrow> key \<Rightarrow> node \<Rightarrow> (node \<times> 'r) option" where
  "plain_descend op key (Internal i keys heads children) =
     (let idx = lower_bound keys heads key in
      if length children \<le> idx then None
      else case plain_descend op key (children ! idx) of
        None \<Rightarrow> None
      | Some (c, r) \<Rightarrow> Some (Internal i keys heads (children[idx := c]), r))"
| "plain_descend op key leaf = Some (op leaf)"
  by pat_completeness auto
termination
  by (relation "measure (\<lambda>(_, _, n). height n)") (auto simp: height_child simp del: height.simps)

fun update_leaf :: "key \<Rightarrow> val \<Rightarrow> node \<Rightarrow> node \<times> val option" where
  "update_leaf key v (Leaf i keys heads vals nx) =
     (let idx = lower_bound keys heads key in
      if idx < length keys \<and> keys ! idx = key
      then (Leaf i keys heads (vals[idx := v]) nx, Some (vals ! idx))
      else (Leaf i keys heads vals nx, None))"
| "update_leaf key v n = (n, None)"

function (sequential) update_in_place_rec :: "key \<Rightarrow> val \<Rightarrow> node \<Rightarrow> (node \<times> val option) option" where
  "update_in_place_rec key v (Internal i keys heads children) =
     (if children = [] then Some (Internal i keys heads children, None)
      else let idx = lower_bound keys heads key in
        if length children \<le> idx then None
        else case update_in_place_rec key v (children ! idx) of
          None \<Rightarrow> None
        | Some (c, r) \<Rightarrow> Some (Internal i keys heads (children[idx := c]), r))"
| "update_in_place_rec key v leaf = Some (update_leaf key v leaf)"
  by pat_completeness auto
termination
  by (relation "measure (\<lambda>(_, _, n). height n)") (auto simp: height_child simp del: height.simps)

definition update_in_place :: "key \<Rightarrow> val \<Rightarrow> btree \<Rightarrow> (val option \<times> btree) option" where
  "update_in_place key v t =
     (case update_in_place_rec key v (root t) of
        None \<Rightarrow> None
      | Some (r, prev) \<Rightarrow>
          Some (prev, t\<lparr>root := r,
            in_place := (if prev \<noteq> None then in_place t + 1 else in_place t)\<rparr>))"

fun delete_leaf :: "key \<Rightarrow> node \<Rightarrow> node \<times> val option" where
  "delete_leaf key (Leaf i keys heads vals nx) =
     (let idx = lower_bound keys heads key in
      if idx < length keys \<and> keys ! idx = key
      then (Leaf i (remove_at idx keys) (remove_at idx heads) (remove_at idx vals) nx,
            Some (vals ! idx))
      else (Leaf i keys heads vals nx, None))"
| "delete_leaf key n = (n, None)"

definition delete_rec :: "key \<Rightarrow> node \<Rightarrow> (node \<times> val option) option" where
  "delete_rec key = plain_descend (delete_leaf key) key"

section \<open>Rebalancing after a deletion\<close>

fun fullness :: "node \<Rightarrow> nat" where
  "fullness (Leaf _ keys _ _ _) = length keys"
| "fullness (Internal _ _ _ children) = length children"

definition underflowed :: "node \<Rightarrow> bool" where
  "underflowed n \<longleftrightarrow> fullness n < MIN_KEYS"

text \<open>Move one entry from the sibling \<open>s\<close> to the child \<open>c\<close> through the separator at \<open>sep\<close>;
  \<open>right\<close> says that the sibling is the right one.\<close>

fun borrow ::
  "bool \<Rightarrow> nat \<Rightarrow> key list \<Rightarrow> u32 list \<Rightarrow> node \<Rightarrow> node \<Rightarrow>
   (key list \<times> u32 list \<times> node \<times> node) option" where
  "borrow right sep pk ph (Leaf ci ck ch cv cn) (Leaf si sk sh sv sn) =
     (if sk = [] \<or> sh = [] \<or> sv = [] \<or> length pk \<le> sep \<or> length ph \<le> sep then None
      else if right then
        Some (pk[sep := hd sk], ph[sep := hd sh],
              Leaf ci (ck @ [hd sk]) (ch @ [hd sh]) (cv @ [hd sv]) cn,
              Leaf si (tl sk) (tl sh) (tl sv) sn)
      else
        Some (pk[sep := (if butlast sk = [] then [] else last (butlast sk))],
              ph[sep := (if butlast sh = [] then 0 else last (butlast sh))],
              Leaf ci (last sk # ck) (last sh # ch) (last sv # cv) cn,
              Leaf si (butlast sk) (butlast sh) (butlast sv) sn))"
| "borrow right sep pk ph (Internal ci ck ch cc) (Internal si sk sh sc) =
     (if sk = [] \<or> sh = [] \<or> sc = [] \<or> length pk \<le> sep \<or> length ph \<le> sep then None
      else if right then
        Some (pk[sep := hd sk], ph[sep := hd sh],
              Internal ci (ck @ [pk ! sep]) (ch @ [ph ! sep]) (cc @ [hd sc]),
              Internal si (tl sk) (tl sh) (tl sc))
      else
        Some (pk[sep := last sk], ph[sep := last sh],
              Internal ci ((pk ! sep) # ck) ((ph ! sep) # ch) (last sc # cc),
              Internal si (butlast sk) (butlast sh) (butlast sc)))"
| "borrow _ _ _ _ _ _ = None"

text \<open>Fuse the left node \<open>a\<close> with its right sibling \<open>b\<close>; the left one survives.\<close>

fun fuse :: "key \<Rightarrow> u32 \<Rightarrow> node \<Rightarrow> node \<Rightarrow> node option" where
  "fuse sk sh (Leaf ai ak ah av an) (Leaf bi bk bh bv bn) =
     Some (Leaf ai (ak @ bk) (ah @ bh) (av @ bv) bn)"
| "fuse sk sh (Internal ai ak ah ac) (Internal bi bk bh bc) =
     Some (Internal ai (ak @ sk # bk) (ah @ sh # bh) (ac @ bc))"
| "fuse _ _ _ _ = None"

definition merge ::
  "nat \<Rightarrow> key list \<Rightarrow> u32 list \<Rightarrow> node list \<Rightarrow> arena \<Rightarrow>
   (key list \<times> u32 list \<times> node list \<times> arena) option" where
  "merge sep pk ph pc st =
     (if length pk \<le> sep \<or> length ph \<le> sep \<or> length pc \<le> sep + 1 then None
      else case fuse (pk ! sep) (ph ! sep) (pc ! sep) (pc ! (sep + 1)) of
        None \<Rightarrow> None
      | Some m \<Rightarrow>
          Some (remove_at sep pk, remove_at sep ph, remove_at (sep + 1) (pc[sep := m]),
                (bump_splits st)\<lparr>merges := merges st + 1\<rparr>))"

definition fix_child ::
  "key list \<Rightarrow> u32 list \<Rightarrow> node list \<Rightarrow> nat \<Rightarrow> arena \<Rightarrow>
   (key list \<times> u32 list \<times> node list \<times> arena \<times> bool) option" where
  "fix_child pk ph pc idx st =
     (let right = (idx + 1 < length pc);
          sib_idx = (if right then idx + 1 else idx - 1);
          sep = min idx sib_idx
      in if MIN_KEYS < fullness (pc ! sib_idx) then
           (case borrow right sep pk ph (pc ! idx) (pc ! sib_idx) of
              None \<Rightarrow> None
            | Some (pk', ph', c, s) \<Rightarrow> Some (pk', ph', pc[idx := c, sib_idx := s], st, False))
         else
           (case merge sep pk ph pc st of
              None \<Rightarrow> None
            | Some (pk', ph', pc', st') \<Rightarrow> Some (pk', ph', pc', st', True)))"

function (sequential) fix_pass :: "key \<Rightarrow> node \<Rightarrow> arena \<Rightarrow> (node \<times> arena \<times> bool) option" where
  "fix_pass key (Internal i keys heads children) st =
     (if length children \<le> 1 then Some (Internal i keys heads children, st, False)
      else let idx = min (lower_bound keys heads key) (length children - 1);
               child = children ! idx
      in if \<not> underflowed child then
           (if is_leaf child then Some (Internal i keys heads children, st, False)
            else case fix_pass key child st of
                None \<Rightarrow> None
              | Some (c, st', b) \<Rightarrow> Some (Internal i keys heads (children[idx := c]), st', b))
         else case fix_child keys heads children idx st of
             None \<Rightarrow> None
           | Some (keys', heads', children', st', b) \<Rightarrow> Some (Internal i keys' heads' children', st', b))"
| "fix_pass key leaf st = Some (leaf, st, False)"
  by pat_completeness auto
termination
proof (relation "measure (\<lambda>(_, n, _). height n)", goal_cases)
  case (2 key i keys heads children st idx child)
  then have "idx < length children" by auto
  then show ?case using 2 height_child by simp
qed simp

text \<open>A pass that merged removed a node, so the repetition in \<open>remove\<close> ends.\<close>

fun node_count :: "node \<Rightarrow> nat" where
  "node_count (Leaf _ _ _ _ _) = 1"
| "node_count (Internal _ _ _ children) = 1 + sum_list (map node_count children)"

lemma node_count_pos: "0 < node_count n"
  by (cases n) auto

lemma fuse_node_count:
  "fuse k h a b = Some m \<Longrightarrow> node_count m + 1 = node_count a + node_count b"
  by (induction k h a b rule: fuse.induct) auto

lemma sum_list_fused:
  assumes "Suc j < length xs"
  shows "sum_list (map f (remove_at (Suc j) (xs[j := m]))) + f (xs ! j) + f (xs ! Suc j)
       = sum_list (map f xs) + (f m :: nat)"
proof -
  have "xs = take j xs @ xs ! j # xs ! Suc j # drop (Suc (Suc j)) xs"
    using assms by (metis Cons_nth_drop_Suc Suc_lessD append_take_drop_id)
  then obtain A B x y where xs: "xs = A @ x # y # B" and j: "length A = j"
    using assms by (metis length_take min.absorb4 Suc_lessD)
  have "xs[j := m] = A @ m # y # B" by (simp add: xs j [symmetric])
  then have "remove_at (Suc j) (xs[j := m]) = A @ m # B"
    using remove_at_append [of "Suc j" "A @ [m]" y B] j by simp
  then show ?thesis by (simp add: xs j [symmetric] nth_append)
qed

lemma merge_node_count:
  assumes "merge sep pk ph pc st = Some (pk', ph', pc', st')"
  shows "sum_list (map node_count pc') < sum_list (map node_count pc)"
proof -
  from assms obtain m where m: "fuse (pk ! sep) (ph ! sep) (pc ! sep) (pc ! (sep + 1)) = Some m"
    and pc': "pc' = remove_at (sep + 1) (pc[sep := m])" and len: "Suc sep < length pc"
    by (auto simp: merge_def split: if_splits option.splits)
  from sum_list_fused [OF len, of node_count m] fuse_node_count [OF m] show ?thesis
    by (simp add: pc')
qed

lemma sum_list_update_less:
  "i < length xs \<Longrightarrow> f c < f (xs ! i) \<Longrightarrow>
   sum_list (map f (xs[i := c])) < (sum_list (map f xs) :: nat)"
  by (induction xs arbitrary: i) (auto split: nat.splits simp: less_Suc_eq_0_disj)

lemma fix_pass_node_count:
  "fix_pass key n st = Some (n', st', True) \<Longrightarrow> node_count n' < node_count n"
proof (induction key n st arbitrary: n' st' rule: fix_pass.induct)
  case (1 key i keys heads children st)
  let ?idx = "min (lower_bound keys heads key) (length children - 1)"
  have len: "1 < length children" using "1.prems" by (auto split: if_splits)
  then have idx: "?idx < length children" by auto
  show ?case
  proof (cases "underflowed (children ! ?idx)")
    case True
    with "1.prems" len show ?thesis
      by (auto simp: Let_def fix_child_def split: if_splits option.splits dest!: merge_node_count)
  next
    case False
    with "1.prems" len obtain c where nl: "\<not> is_leaf (children ! ?idx)"
      and c: "fix_pass key (children ! ?idx) st = Some (c, st', True)"
      and n': "n' = Internal i keys heads (children[?idx := c])"
      by (auto simp: Let_def split: if_splits option.splits)
    have "node_count c < node_count (children ! ?idx)"
      using "1.IH" [OF _ refl refl] False nl len c by auto
    from sum_list_update_less [OF idx this] show ?thesis by (simp add: n')
  qed
qed simp

function fix_loop :: "key \<Rightarrow> node \<Rightarrow> arena \<Rightarrow> (node \<times> arena) option" where
  "fix_loop key n st =
     (case fix_pass key n st of
        None \<Rightarrow> None
      | Some (n', st', b) \<Rightarrow> if b then fix_loop key n' st' else Some (n', st'))"
  by pat_completeness auto
termination
  by (relation "measure (\<lambda>(_, n, _). node_count n)") (auto dest: fix_pass_node_count)

declare fix_loop.simps [simp del]

text \<open>A root with one child gives way to that child, repeatedly.\<close>

fun collapse_root :: "node \<Rightarrow> arena \<Rightarrow> node \<times> arena" where
  "collapse_root (Internal i keys heads [c]) st = collapse_root c (bump_splits st)"
| "collapse_root n st = (n, st)"

definition btree_remove :: "key \<Rightarrow> btree \<Rightarrow> (val option \<times> btree) option" where
  "btree_remove key t =
     (case delete_rec key (root t) of
        None \<Rightarrow> None
      | Some (r, None) \<Rightarrow> Some (None, t\<lparr>root := r\<rparr>)
      | Some (r, Some v) \<Rightarrow>
          (case fix_loop key r (arena_of t) of
             None \<Rightarrow> None
           | Some (r', st) \<Rightarrow>
               (case collapse_root r' st of
                  (r'', st') \<Rightarrow> Some (Some v, (with_arena t st' r'')\<lparr>entries := entries t - 1\<rparr>))))"

section \<open>Range scan\<close>

fun leaves :: "node \<Rightarrow> node list" where
  "leaves (Leaf i keys heads vals nx) = [Leaf i keys heads vals nx]"
| "leaves (Internal _ _ _ children) = concat (map leaves children)"

fun node_ident :: "node \<Rightarrow> node_id" where
  "node_ident (Leaf i _ _ _ _) = i"
| "node_ident (Internal i _ _ _) = i"

definition leaf_at :: "node \<Rightarrow> node_id \<Rightarrow> node option" where
  "leaf_at n i = find (\<lambda>l. node_ident l = i) (leaves n)"

text \<open>Descent to the first leaf that can hold the start key.\<close>

fun first_leaf :: "key option \<Rightarrow> node \<Rightarrow> node option" where
  "first_leaf start (Leaf i keys heads vals nx) = Some (Leaf i keys heads vals nx)"
| "first_leaf start (Internal _ keys heads children) =
     (if children = [] then None
      else let idx = min (case start of Some k \<Rightarrow> lower_bound keys heads k | None \<Rightarrow> 0)
                         (length children - 1)
           in map (first_leaf start) children ! idx)"

text \<open>The loop over one copied leaf: emitted pairs, last emitted key, and whether the end bound
  stopped the scan.\<close>

fun emit ::
  "key option \<Rightarrow> bool \<Rightarrow> key option \<Rightarrow> bool \<Rightarrow> (key \<times> val) list \<Rightarrow> key option \<Rightarrow> (key \<times> val) list \<Rightarrow>
   (key \<times> val) list \<times> key option \<times> bool" where
  "emit start start_incl till till_incl [] last_key out = (out, last_key, False)"
| "emit start start_incl till till_incl ((k, v) # rest) last_key out =
     (if (case last_key of Some l \<Rightarrow> k \<le> l | None \<Rightarrow> False)
      then emit start start_incl till till_incl rest last_key out
      else if (case start of Some lo \<Rightarrow> k < lo \<or> k = lo \<and> \<not> start_incl | None \<Rightarrow> False)
      then emit start start_incl till till_incl rest last_key out
      else if (case till of Some hi \<Rightarrow> k > hi \<or> k = hi \<and> \<not> till_incl | None \<Rightarrow> False)
      then (out, last_key, True)
      else emit start start_incl till till_incl rest (Some k) (out @ [(k, v)]))"

text \<open>The walk along the chain; \<open>None\<close> is a walk that never ends (or leaves the tree).\<close>

partial_function (option) range_walk ::
  "(node_id \<Rightarrow> node option) \<Rightarrow> key option \<Rightarrow> bool \<Rightarrow> key option \<Rightarrow> bool \<Rightarrow> node \<Rightarrow> key option \<Rightarrow>
   (key \<times> val) list \<Rightarrow> (key \<times> val) list option" where
  "range_walk look start start_incl till till_incl n last_key out =
     (case n of
        Internal _ _ _ _ \<Rightarrow> Some out
      | Leaf _ keys _ vals nx \<Rightarrow>
          (case emit start start_incl till till_incl (zip keys vals) last_key out of
             (out', last', stopped) \<Rightarrow>
               if stopped then Some out'
               else (case nx of
                       None \<Rightarrow> Some out'
                     | Some i \<Rightarrow>
                         (case look i of
                            None \<Rightarrow> None
                          | Some n' \<Rightarrow>
                              range_walk look start start_incl till till_incl n' last' out'))))"

definition btree_range ::
  "btree \<Rightarrow> key option \<Rightarrow> bool \<Rightarrow> key option \<Rightarrow> bool \<Rightarrow> (key \<times> val) list option" where
  "btree_range t start start_incl till till_incl =
     (case first_leaf start (root t) of
        None \<Rightarrow> None
      | Some n \<Rightarrow> range_walk (leaf_at (root t)) start start_incl till till_incl n None [])"

definition scan_all :: "btree \<Rightarrow> (key \<times> val) list option" where
  "scan_all t = btree_range t None True None True"

end
