(* ===== verification/BTree_Order.thy ===== *)
theory BTree_Order
  imports BTree_Model
begin

text \<open>
  Search order and the shape invariant of the B+ tree. The four-byte key heads only prefilter the
  binary search: \<open>lower_bound\<close> is the first position whose key is not below the searched one. The
  invariant \<open>wf\<close> says that the tree is balanced, that every head cache matches its keys, and that
  the child left of separator \<open>k\<close> holds keys up to and including \<open>k\<close>.
\<close>

section \<open>Key heads agree with memcmp\<close>

fun pad :: "nat \<Rightarrow> bytes \<Rightarrow> bytes" where
  "pad 0 a = []"
| "pad (Suc n) [] = 0 # pad n []"
| "pad (Suc n) (x # xs) = x # pad n xs"

lemma pad_eq: "pad n a = take (min (length a) n) a @ replicate (n - min (length a) n) 0"
  by (induction n a rule: pad.induct) auto

lemma length_pad [simp]: "length (pad n a) = n"
  by (induction n a rule: pad.induct) auto

lemma pad_less: "pad n a < pad n b \<Longrightarrow> a < b"
proof (induction n a arbitrary: b rule: pad.induct)
  case (2 n)
  then show ?case by (cases b) auto
next
  case (3 n x xs)
  then show ?case using "3.IH" [of "[]"] by (cases b) auto
qed simp

lemma nat_be_mono: "length a = length b \<Longrightarrow> a < b \<Longrightarrow> nat_be a < nat_be b"
proof (induction a b rule: list_induct2)
  case (Cons x xs y ys)
  show ?case
  proof (cases "x = y")
    case False
    with Cons.prems have "unat x < unat y" by (simp add: word_less_nat_alt)
    then have "unat x * 256 ^ length xs + nat_be xs < unat y * 256 ^ length xs"
      by (intro digit_bound_high nat_be_bound)
    with Cons.hyps show ?thesis by simp
  qed (use Cons in simp)
qed simp

lemma key_head_pad: "key_head k = of_nat (nat_be (pad 4 k))"
  by (simp add: key_head_def pad_eq Let_def)

lemma unat_key_head: "unat (key_head k) = nat_be (pad 4 k)"
  using nat_be_bound [of "pad 4 k"] by (simp add: key_head_pad unat_of_nat)

lemma key_head_less: "key_head a < key_head b \<Longrightarrow> a < b"
proof (rule ccontr)
  assume lt: "key_head a < key_head b" and "\<not> a < b"
  then have "\<not> pad 4 a < pad 4 b" using pad_less by blast
  then have "pad 4 b = pad 4 a \<or> pad 4 b < pad 4 a" by auto
  then have "nat_be (pad 4 b) \<le> nat_be (pad 4 a)"
    using nat_be_mono [of "pad 4 b" "pad 4 a"] by auto
  with lt show False by (simp add: word_less_nat_alt unat_key_head)
qed

lemma head_test:
  "key_head k < key_head key \<or> key_head k = key_head key \<and> k < key \<longleftrightarrow> k < key"
  by (metis key_head_less linorder_less_linear order_less_asym)

section \<open>The binary search\<close>

lemma length_heads_for [simp]: "length (heads_for ks) = length ks"
  by (simp add: heads_for_def)

lemma lower_bound_loop_split:
  assumes "keys = xs @ ys" "\<forall>x \<in> set xs. x < key" "\<forall>y \<in> set ys. key \<le> y"
    and "lo \<le> length xs" "length xs \<le> hi" "hi \<le> length keys"
  shows "lower_bound_loop keys (heads_for keys) key (key_head key) lo hi = length xs"
  using assms(4-6)
proof (induction "hi - lo" arbitrary: lo hi rule: less_induct)
  case less
  show ?case
  proof (cases "lo < hi")
    case False
    with less.prems show ?thesis by (simp add: lower_bound_loop.simps)
  next
    case True
    let ?mid = "(lo + hi) div 2"
    have mid: "lo \<le> ?mid" "?mid < hi" using True by auto
    then have nth: "heads_for keys ! ?mid = key_head (keys ! ?mid)"
      using less.prems by (simp add: heads_for_def)
    have lt: "keys ! ?mid < key \<longleftrightarrow> ?mid < length xs"
    proof (cases "?mid < length xs")
      case True
      with assms show ?thesis by (simp add: nth_append)
    next
      case False
      with mid less.prems assms have "keys ! ?mid \<in> set ys" by (simp add: nth_append)
      with assms(3) False show ?thesis by auto
    qed
    have test: "heads_for keys ! ?mid < key_head key \<or>
        heads_for keys ! ?mid = key_head key \<and> keys ! ?mid < key \<longleftrightarrow> ?mid < length xs"
      unfolding nth head_test by (rule lt)
    show ?thesis
    proof (cases "?mid < length xs")
      case c: True
      have "hi - (?mid + 1) < hi - lo" using mid by linarith
      from less.hyps [OF this] c less.prems
      have "lower_bound_loop keys (heads_for keys) key (key_head key) (?mid + 1) hi = length xs"
        by simp
      then show ?thesis
        unfolding lower_bound_loop.simps [of _ _ _ _ lo hi] Let_def test using True c by simp
    next
      case c: False
      have "?mid - lo < hi - lo" using mid by linarith
      from less.hyps [OF this] c less.prems mid
      have "lower_bound_loop keys (heads_for keys) key (key_head key) lo ?mid = length xs"
        by simp
      then show ?thesis
        unfolding lower_bound_loop.simps [of _ _ _ _ lo hi] Let_def test using True c by simp
    qed
  qed
qed

text \<open>Where a key goes in a sorted list: everything before is smaller, nothing after is.\<close>

definition splits_at :: "key \<Rightarrow> key list \<Rightarrow> key list \<Rightarrow> bool" where
  "splits_at key xs ys \<longleftrightarrow> (\<forall>x \<in> set xs. x < key) \<and> (\<forall>y \<in> set ys. key \<le> y)"

lemma lower_bound_splits:
  "splits_at key xs ys \<Longrightarrow> lower_bound (xs @ ys) (heads_for (xs @ ys)) key = length xs"
  unfolding lower_bound_def splits_at_def
  by (rule lower_bound_loop_split [where ys = ys]) auto

lemma sorted_splits:
  fixes ks :: "key list"
  assumes "sorted_wrt (<) ks"
  obtains xs ys where "ks = xs @ ys" "splits_at key xs ys"
proof
  show "ks = takeWhile (\<lambda>k. k < key) ks @ dropWhile (\<lambda>k. k < key) ks" by simp
  have s: "sorted_wrt (<) (takeWhile (\<lambda>k. k < key) ks @ dropWhile (\<lambda>k. k < key) ks)"
    using assms by simp
  have "key \<le> y" if "y \<in> set (dropWhile (\<lambda>k. k < key) ks)" for y
  proof (cases "dropWhile (\<lambda>k. k < key) ks")
    case (Cons z zs)
    then have "key \<le> z" using hd_dropWhile [of "\<lambda>k. k < key" ks] by (simp add: not_less)
    with that Cons s show ?thesis by (auto simp: sorted_wrt_append dest: order_trans [OF _ less_imp_le])
  next
    case Nil
    then show ?thesis using that unfolding Nil by simp
  qed
  then show "splits_at key (takeWhile (\<lambda>k. k < key) ks) (dropWhile (\<lambda>k. k < key) ks)"
    by (auto simp: splits_at_def dest: set_takeWhileD)
qed

section \<open>The shape invariant\<close>

fun above :: "key option \<Rightarrow> key \<Rightarrow> bool" where
  "above None k = True"
| "above (Some l) k = (l < k)"

fun below :: "key option \<Rightarrow> key \<Rightarrow> bool" where
  "below None k = True"
| "below (Some h) k = (k \<le> h)"

fun sbelow :: "key option \<Rightarrow> key \<Rightarrow> bool" where
  "sbelow None k = True"
| "sbelow (Some h) k = (k < h)"

text \<open>\<open>segs\<close>: children each closed by their own separator. \<open>kids\<close>: the same with one last child.\<close>

fun segs :: "(key option \<Rightarrow> key option \<Rightarrow> node \<Rightarrow> bool) \<Rightarrow> key option \<Rightarrow> key option \<Rightarrow> key list \<Rightarrow> node list \<Rightarrow> bool"
where
  "segs P lo hi [] [] = True"
| "segs P lo hi (k # ks) (c # cs) =
     (above lo k \<and> sbelow hi k \<and> P lo (Some k) c \<and> segs P (Some k) hi ks cs)"
| "segs P lo hi _ _ = False"

fun upto_last :: "key option \<Rightarrow> key list \<Rightarrow> key option" where
  "upto_last lo [] = lo"
| "upto_last lo (k # ks) = upto_last (Some k) ks"

fun kids :: "(key option \<Rightarrow> key option \<Rightarrow> node \<Rightarrow> bool) \<Rightarrow> key option \<Rightarrow> key option \<Rightarrow> key list \<Rightarrow> node list \<Rightarrow> bool"
where
  "kids P lo hi [] [c] = P lo hi c"
| "kids P lo hi (k # ks) (c # cs) =
     (above lo k \<and> sbelow hi k \<and> P lo (Some k) c \<and> kids P (Some k) hi ks cs)"
| "kids P lo hi _ _ = False"

fun wf :: "nat \<Rightarrow> key option \<Rightarrow> key option \<Rightarrow> node \<Rightarrow> bool" where
  "wf h lo hi (Leaf i ks hs vs nx) \<longleftrightarrow>
     h = 0 \<and> hs = heads_for ks \<and> length vs = length ks \<and> sorted_wrt (<) ks \<and>
     (\<forall>k \<in> set ks. above lo k \<and> below hi k)"
| "wf 0 lo hi (Internal i ks hs cs) \<longleftrightarrow> False"
| "wf (Suc h) lo hi (Internal i ks hs cs) \<longleftrightarrow> hs = heads_for ks \<and> kids (wf h) lo hi ks cs"

fun ent :: "node \<Rightarrow> (key \<times> val) list" where
  "ent (Leaf _ ks _ vs _) = zip ks vs"
| "ent (Internal _ _ _ cs) = concat (map ent cs)"

lemma kids_length: "kids P lo hi ks cs \<Longrightarrow> length cs = Suc (length ks)"
  by (induction P lo hi ks cs rule: kids.induct) auto

lemma segs_length: "segs P lo hi ks cs \<Longrightarrow> length cs = length ks"
  by (induction P lo hi ks cs rule: segs.induct) auto

lemma kids_append:
  "length xs = length as \<Longrightarrow>
   kids P lo hi (xs @ ys) (as @ bs) \<longleftrightarrow> segs P lo hi xs as \<and> kids P (upto_last lo xs) hi ys bs"
  by (induction xs as arbitrary: lo rule: list_induct2) auto

lemma segs_append:
  "length xs = length as \<Longrightarrow>
   segs P lo hi (xs @ ys) (as @ bs) \<longleftrightarrow> segs P lo hi xs as \<and> segs P (upto_last lo xs) hi ys bs"
  by (induction xs as arbitrary: lo rule: list_induct2) auto

lemma upto_last_append [simp]: "upto_last lo (xs @ ys) = upto_last (upto_last lo xs) ys"
  by (induction xs arbitrary: lo) auto

lemma upto_last_last: "xs \<noteq> [] \<Longrightarrow> upto_last lo xs = Some (last xs)"
  by (induction xs arbitrary: lo) auto

lemma above_trans: "above lo a \<Longrightarrow> a < b \<Longrightarrow> above lo b"
  by (cases lo) auto

lemma segs_mono:
  "segs P lo hi ks cs \<Longrightarrow> (\<And>lo hi c. c \<in> set cs \<Longrightarrow> P lo hi c \<Longrightarrow> Q lo hi c) \<Longrightarrow> segs Q lo hi ks cs"
  by (induction P lo hi ks cs rule: segs.induct) auto

lemma kids_seps:
  "kids P lo hi ks cs \<Longrightarrow> sorted_wrt (<) ks \<and> (\<forall>k \<in> set ks. above lo k \<and> sbelow hi k)"
  by (induction P lo hi ks cs rule: kids.induct) (auto intro: above_trans)

lemma segs_seps:
  "segs P lo hi ks cs \<Longrightarrow> sorted_wrt (<) ks \<and> (\<forall>k \<in> set ks. above lo k \<and> sbelow hi k)"
  by (induction P lo hi ks cs rule: segs.induct) (auto intro: above_trans)

lemma kids_mono:
  "kids P lo hi ks cs \<Longrightarrow> (\<And>lo hi c. c \<in> set cs \<Longrightarrow> P lo hi c \<Longrightarrow> Q lo hi c) \<Longrightarrow> kids Q lo hi ks cs"
  by (induction P lo hi ks cs rule: kids.induct) auto

lemma below_trans: "below hi b \<Longrightarrow> a \<le> b \<Longrightarrow> below hi a"
  by (cases hi) auto

lemma sbelow_below: "sbelow hi k \<Longrightarrow> below hi k"
  by (cases hi) auto

end
