(* ===== verification/BTree_Write.thy ===== *)
theory BTree_Write
  imports BTree_Order
begin

text \<open>
  Descents of writers keep the tree well formed. A child is focused between the separators on its
  two sides; splitting a full child and descending into the routed one keep the shape invariant,
  the entries outside the routed leaf, and the leaf chain. The leaf branch of an operation is a
  parameter of the interface \<open>leaf_op\<close>; insertion, replacement, in-place update and deletion
  interpret it.
\<close>

section \<open>Focusing a child\<close>

fun upb :: "key option \<Rightarrow> key list \<Rightarrow> key option" where
  "upb hi [] = hi"
| "upb hi (k # ks) = Some k"

fun tailk :: "(key option \<Rightarrow> key option \<Rightarrow> node \<Rightarrow> bool) \<Rightarrow> key option \<Rightarrow> key option \<Rightarrow> key list \<Rightarrow> node list \<Rightarrow> bool"
where
  "tailk P l hi [] bs \<longleftrightarrow> bs = []"
| "tailk P l hi (k # ks) bs \<longleftrightarrow> above l k \<and> sbelow hi k \<and> kids P (Some k) hi ks bs"

lemma kids_focus:
  "length xs = length as \<Longrightarrow>
   kids P lo hi (xs @ ys) (as @ c # bs) \<longleftrightarrow>
     segs P lo hi xs as \<and> P (upto_last lo xs) (upb hi ys) c \<and> tailk P (upto_last lo xs) hi ys bs"
  using kids_append [of xs as P lo hi ys "c # bs"] by (cases ys; cases bs) auto

lemma kids_nth:
  assumes "kids P lo hi (xs @ ys) cs"
  obtains as c bs where "cs = as @ c # bs" "length as = length xs"
    "segs P lo hi xs as" "P (upto_last lo xs) (upb hi ys) c" "tailk P (upto_last lo xs) hi ys bs"
proof -
  from kids_length [OF assms] have "length xs < length cs" by simp
  from split_at_nth [OF this] obtain as bs where cs: "cs = as @ cs ! length xs # bs"
    and len: "length as = length xs" by blast
  from assms have "kids P lo hi (xs @ ys) (as @ cs ! length xs # bs)" using cs by simp
  then show ?thesis using that [OF cs len] by (simp add: kids_focus len)
qed

lemma above_upto_last:
  "splits_at key xs ys \<Longrightarrow> above lo key \<Longrightarrow> above (upto_last lo xs) key"
  by (cases "xs = []") (auto simp: upto_last_last splits_at_def)

lemma below_upb: "splits_at key xs ys \<Longrightarrow> below hi key \<Longrightarrow> below (upb hi ys) key"
  by (cases ys) (auto simp: splits_at_def)

section \<open>Entries lie between the bounds\<close>

definition within :: "key option \<Rightarrow> key option \<Rightarrow> node \<Rightarrow> bool" where
  "within lo hi c \<longleftrightarrow> (\<forall>e \<in> set (ent c). above lo (fst e) \<and> below hi (fst e))"

lemma segs_within:
  "segs within lo hi xs as \<Longrightarrow> e \<in> set (concat (map ent as)) \<Longrightarrow>
   above lo (fst e) \<and> below (upto_last lo xs) (fst e)"
proof (induction xs as arbitrary: lo rule: list_induct2')
  case (4 k ks c cs)
  show ?case
  proof (cases "e \<in> set (ent c)")
    case True
    with "4.prems" have e: "above lo (fst e)" "fst e \<le> k" by (auto simp: within_def)
    have "\<forall>x \<in> set ks. k < x" using "4.prems" segs_seps [of within "Some k"] by auto
    then have "ks \<noteq> [] \<Longrightarrow> k < last ks" by simp
    then have "below (upto_last (Some k) ks) (fst e)"
      using e(2) by (cases "ks = []") (simp_all add: upto_last_last)
    with e show ?thesis by simp
  next
    case False
    with "4.prems" "4.IH" [of "Some k"] have "k < fst e" "below (upto_last (Some k) ks) (fst e)" by auto
    with "4.prems" show ?thesis by (auto intro: above_trans)
  qed
qed auto

lemma kids_within:
  "kids within lo hi ks cs \<Longrightarrow> e \<in> set (concat (map ent cs)) \<Longrightarrow>
   above lo (fst e) \<and> below hi (fst e)"
proof (induction within lo hi ks cs rule: kids.induct)
  case (2 lo hi k ks c cs)
  show ?case
  proof (cases "e \<in> set (ent c)")
    case True
    with "2.prems" have "above lo (fst e)" "fst e \<le> k" by (auto simp: within_def)
    with "2.prems" show ?thesis by (auto intro: below_trans sbelow_below)
  next
    case False
    with "2" have "k < fst e" "below hi (fst e)" by auto
    with "2.prems" show ?thesis by (auto intro: above_trans)
  qed
qed (auto simp: within_def)

lemma wf_within: "wf h lo hi n \<Longrightarrow> within lo hi n"
proof (induction h lo hi n rule: wf.induct)
  case (1 h lo hi i ks hs vs nx)
  then show ?case by (auto simp: within_def dest!: set_zip_leftD)
next
  case (3 h lo hi i ks hs cs)
  then have "kids within lo hi ks cs" by (auto elim!: kids_mono)
  then show ?case using kids_within by (auto simp: within_def)
qed simp

lemma wf_ent: "wf h lo hi n \<Longrightarrow> e \<in> set (ent n) \<Longrightarrow> above lo (fst e) \<and> below hi (fst e)"
  using wf_within by (auto simp: within_def)

text \<open>The routed leaf is the only place where the key can be.\<close>

lemma segs_key_absent:
  "segs (wf h) lo hi xs as \<Longrightarrow> splits_at key xs ys \<Longrightarrow> key \<notin> fst ` set (concat (map ent as))"
proof
  assume s: "segs (wf h) lo hi xs as" and sp: "splits_at key xs ys"
    and "key \<in> fst ` set (concat (map ent as))"
  then obtain e where e: "e \<in> set (concat (map ent as))" "fst e = key" by auto
  then have "xs \<noteq> []" using s by (cases as) auto
  moreover have "segs within lo hi xs as" using s wf_within by (blast intro: segs_mono)
  ultimately have "key \<le> last xs"
    using segs_within [of lo hi xs as e] e by (auto simp: upto_last_last)
  moreover have "last xs < key" using sp \<open>xs \<noteq> []\<close> by (simp add: splits_at_def)
  ultimately show False by simp
qed

lemma tailk_key_absent:
  "tailk (wf h) l hi ys bs \<Longrightarrow> splits_at key xs ys \<Longrightarrow> key \<notin> fst ` set (concat (map ent bs))"
proof
  assume t: "tailk (wf h) l hi ys bs" and sp: "splits_at key xs ys"
    and "key \<in> fst ` set (concat (map ent bs))"
  then obtain e where e: "e \<in> set (concat (map ent bs))" "fst e = key" by auto
  with t obtain k ks where ys: "ys = k # ks" and k: "kids (wf h) (Some k) hi ks bs"
    by (cases ys) auto
  have "kids within (Some k) hi ks bs" using k wf_within by (blast intro: kids_mono)
  from kids_within [OF this e(1)] e(2) have "above (Some k) key" by simp
  with sp ys show False by (auto simp: splits_at_def)
qed

section \<open>The routed child\<close>

definition focus ::
  "nat \<Rightarrow> key option \<Rightarrow> key option \<Rightarrow> key \<Rightarrow> key list \<Rightarrow> node list \<Rightarrow>
   key list \<Rightarrow> key list \<Rightarrow> node list \<Rightarrow> node \<Rightarrow> node list \<Rightarrow> bool" where
  "focus h lo hi key ks cs xs ys as c bs \<longleftrightarrow>
     ks = xs @ ys \<and> cs = as @ c # bs \<and> length as = length xs \<and> splits_at key xs ys \<and>
     segs (wf h) lo hi xs as \<and> wf h (upto_last lo xs) (upb hi ys) c \<and>
     tailk (wf h) (upto_last lo xs) hi ys bs \<and>
     above (upto_last lo xs) key \<and> below (upb hi ys) key"

lemma wf_Internal_E:
  assumes "wf h lo hi (Internal i ks hs cs)"
  obtains h' where "h = Suc h'" "hs = heads_for ks" "kids (wf h') lo hi ks cs"
  using assms by (cases h) auto

lemma focus_ex:
  assumes kd: "kids (wf h) lo hi ks cs" and k: "above lo key" "below hi key"
  obtains xs ys as c bs where "focus h lo hi key ks cs xs ys as c bs"
proof -
  from kids_seps [OF kd] obtain xs ys where ks: "ks = xs @ ys" and sp: "splits_at key xs ys"
    using sorted_splits by blast
  from kd ks have "kids (wf h) lo hi (xs @ ys) cs" by simp
  then obtain as c bs where "cs = as @ c # bs" "length as = length xs"
    "segs (wf h) lo hi xs as" "wf h (upto_last lo xs) (upb hi ys) c"
    "tailk (wf h) (upto_last lo xs) hi ys bs"
    by (rule kids_nth)
  then show ?thesis
    using that ks sp above_upto_last [OF sp k(1)] below_upb [OF sp k(2)]
    unfolding focus_def by blast
qed

lemma focus_pos:
  assumes "focus h lo hi key ks cs xs ys as c bs"
  shows "lower_bound ks (heads_for ks) key = length xs"
    and "length xs < length cs" and "cs ! length xs = c" and "cs[length xs := c'] = as @ c' # bs"
  using assms lower_bound_splits [of key xs ys]
  by (auto simp: focus_def nth_append list_update_append)

lemma focus_child:
  "focus h lo hi key ks cs xs ys as c bs \<Longrightarrow>
   wf h (upto_last lo xs) (upb hi ys) c \<and> above (upto_last lo xs) key \<and> below (upb hi ys) key"
  by (simp add: focus_def)

lemma focus_kids:
  "focus h lo hi key ks cs xs ys as c bs \<Longrightarrow> wf h (upto_last lo xs) (upb hi ys) c' \<Longrightarrow>
   kids (wf h) lo hi ks (as @ c' # bs)"
  by (simp add: focus_def kids_focus)

lemma focus_absent:
  assumes "focus h lo hi key ks cs xs ys as c bs"
  shows "key \<notin> fst ` set (concat (map ent as))" and "key \<notin> fst ` set (concat (map ent bs))"
  using assms segs_key_absent [of h lo hi xs as key ys]
    tailk_key_absent [of h "upto_last lo xs" hi ys bs key xs]
  unfolding focus_def by blast+

lemmas focus_rules = focus_pos focus_child focus_kids focus_absent

section \<open>The leaf chain\<close>

fun links :: "node \<Rightarrow> (node_id \<times> node_id option) list" where
  "links (Leaf i _ _ _ nx) = [(i, nx)]"
| "links (Internal _ _ _ cs) = concat (map links cs)"

fun linked :: "(node_id \<times> node_id option) list \<Rightarrow> bool" where
  "linked [] = True"
| "linked [(i, nx)] = (nx = None)"
| "linked ((i, nx) # (j, ny) # r) = (nx = Some j \<and> linked ((j, ny) # r))"

definition chain_ok :: "node_id \<Rightarrow> (node_id \<times> node_id option) list \<Rightarrow> bool" where
  "chain_ok n xs \<longleftrightarrow> linked xs \<and> distinct (map fst xs) \<and> (\<forall>x \<in> set xs. fst x < n)"

text \<open>A chain rewriting that is sound in every context.\<close>

definition chain_step ::
  "node_id \<Rightarrow> (node_id \<times> node_id option) list \<Rightarrow> node_id \<Rightarrow> (node_id \<times> node_id option) list \<Rightarrow> bool"
where
  "chain_step n xs n' ys \<longleftrightarrow> n \<le> n' \<and> (\<forall>A B. chain_ok n (A @ xs @ B) \<longrightarrow> chain_ok n' (A @ ys @ B))"

lemma chain_step_refl: "chain_step n xs n xs"
  by (simp add: chain_step_def)

lemma chain_step_trans: "chain_step n xs n' ys \<Longrightarrow> chain_step n' ys n'' zs \<Longrightarrow> chain_step n xs n'' zs"
  by (auto simp: chain_step_def intro: order_trans)

lemma chain_step_frame: "chain_step n xs n' ys \<Longrightarrow> chain_step n (A @ xs @ B) n' (A @ ys @ B)"
  unfolding chain_step_def
proof (intro conjI allI impI)
  fix C D
  assume s: "n \<le> n' \<and> (\<forall>A B. chain_ok n (A @ xs @ B) \<longrightarrow> chain_ok n' (A @ ys @ B))"
    and "chain_ok n (C @ (A @ xs @ B) @ D)"
  then have "chain_ok n ((C @ A) @ xs @ (B @ D))" by simp
  with s have "chain_ok n' ((C @ A) @ ys @ (B @ D))" by blast
  then show "chain_ok n' (C @ (A @ ys @ B) @ D)" by simp
qed simp

lemma chain_step_fresh: "chain_step n xs (Suc n) xs"
  by (auto simp: chain_step_def chain_ok_def less_Suc_eq)

lemma linked_split:
  "linked (A @ (i, nx) # B) \<Longrightarrow> linked (A @ (i, Some j) # (j, nx) # B)"
proof (induction A)
  case Nil
  then show ?case by (cases B) auto
next
  case (Cons a A)
  then show ?case by (cases a; cases A) auto
qed

lemma chain_step_split: "chain_step n [(i, nx)] (Suc n) [(i, Some n), (n, nx)]"
  by (auto simp: chain_step_def chain_ok_def linked_split less_Suc_eq)

lemma chain_step_ok: "chain_step n xs n' ys \<Longrightarrow> chain_ok n xs \<Longrightarrow> chain_ok n' ys"
  unfolding chain_step_def by (metis append_Nil append_Nil2)

section \<open>Splitting\<close>

lemma heads_for_simps [simp]:
  "heads_for [] = []" "heads_for (k # ks) = key_head k # heads_for ks"
  "heads_for (xs @ ys) = heads_for xs @ heads_for ys"
  "take n (heads_for ks) = heads_for (take n ks)" "drop n (heads_for ks) = heads_for (drop n ks)"
  "butlast (heads_for ks) = heads_for (butlast ks)"
  by (simp_all add: heads_for_def take_map drop_map map_butlast)

lemma segs_rebound:
  "segs P lo hi xs as \<Longrightarrow> (\<forall>x \<in> set xs. sbelow hi' x) \<Longrightarrow> segs P lo hi' xs as"
  by (induction P lo hi xs as rule: segs.induct) auto

lemma split_leaf_ok:
  assumes w: "wf h lo hi (Leaf i ks hs vs nx)" and full: "MAX_KEYS \<le> length ks"
  obtains l sep r where
    "split_node (Leaf i ks hs vs nx) st = Some (l, sep, r, fresh st)"
    "wf h lo (Some sep) l" "wf h (Some sep) hi r" "above lo sep" "sbelow hi sep"
    "ent l @ ent r = zip ks vs" "links l = [(i, Some (next_id st))]"
    "links r = [(next_id st, nx)]"
    "key_count l = length ks div 2" "key_count r = length ks - length ks div 2"
    "l = Leaf i (take (length ks div 2) ks) (heads_for (take (length ks div 2) ks))
           (take (length ks div 2) vs) (Some (next_id st))"
    "r = Leaf (next_id st) (drop (length ks div 2) ks) (heads_for (drop (length ks div 2) ks))
           (drop (length ks div 2) vs) nx"
    "sep = last (take (length ks div 2) ks)"
proof -
  let ?m = "length ks div 2"
  let ?a = "take ?m ks" and ?b = "drop ?m ks"
  from w have hs: "hs = heads_for ks" and lv: "length vs = length ks" and srt: "sorted_wrt (<) ks"
    and bnd: "\<forall>k \<in> set ks. above lo k \<and> below hi k" and h: "h = 0"
    by auto
  have ne: "?a \<noteq> []" "?b \<noteq> []" using full by (auto simp: MAX_KEYS_def)
  have s2: "sorted_wrt (<) (?a @ ?b)" using srt by simp
  define sep where "sep = last ?a"
  have sa: "sep \<in> set ?a" using ne(1) by (simp add: sep_def)
  have sin: "sep \<in> set ks" using sa by (rule in_set_takeD)
  have lt: "sep < y" if "y \<in> set ?b" for y
    using s2 [unfolded sorted_wrt_append] sa that by blast
  have hb: "hd ?b \<in> set ?b" using ne(2) by simp
  have "below hi (hd ?b)" using bnd in_set_dropD [OF hb] by blast
  with lt [OF hb] have sb: "sbelow hi sep" by (cases hi) auto
  have le: "x \<le> sep" if "x \<in> set ?a" for x
  proof -
    have "?a = butlast ?a @ [sep]" using ne(1) by (simp add: sep_def)
    moreover have "sorted_wrt (<) ?a" using s2 by (simp only: sorted_wrt_append)
    ultimately have "\<forall>x \<in> set (butlast ?a). x < sep"
      by (metis sorted_wrt_append list.set_intros(1))
    with that \<open>?a = butlast ?a @ [sep]\<close> show ?thesis
      by (metis Un_iff empty_iff insert_iff less_imp_le list.set(1) list.set(2) order_refl set_append)
  qed
  show ?thesis
  proof (rule that)
    show "split_node (Leaf i ks hs vs nx) st =
        Some (Leaf i ?a (heads_for ?a) (take ?m vs) (Some (next_id st)), sep,
              Leaf (next_id st) ?b (heads_for ?b) (drop ?m vs) nx, fresh st)"
      using ne hs by (simp add: split_node_def new_leaf_with_def sep_def Let_def)
    show "wf h lo (Some sep) (Leaf i ?a (heads_for ?a) (take ?m vs) (Some (next_id st)))"
      using s2 [unfolded sorted_wrt_append] le bnd lv h by (auto dest: in_set_takeD)
    show "wf h (Some sep) hi (Leaf (next_id st) ?b (heads_for ?b) (drop ?m vs) nx)"
      using s2 [unfolded sorted_wrt_append] lt bnd lv h by (auto dest: in_set_dropD)
    show "above lo sep" using bnd sin by blast
    show "sbelow hi sep" by (rule sb)
    show "ent (Leaf i ?a (heads_for ?a) (take ?m vs) (Some (next_id st))) @
          ent (Leaf (next_id st) ?b (heads_for ?b) (drop ?m vs) nx) = zip ks vs"
      by (simp flip: take_zip drop_zip)
  qed (use full in \<open>auto simp: sep_def MAX_KEYS_def\<close>)
qed

lemma split_internal_ok:
  assumes w: "wf (Suc h) lo hi (Internal i ks hs cs)" and full: "MAX_KEYS \<le> length ks"
  obtains xs sep ys as c bs where
    "ks = xs @ sep # ys" "length xs = length ks div 2" "cs = as @ c # bs" "length as = length xs"
    "split_node (Internal i ks hs cs) st =
       Some (Internal i xs (heads_for xs) (as @ [c]), sep,
             Internal (next_id st) ys (heads_for ys) bs, fresh st)"
    "wf (Suc h) lo (Some sep) (Internal i xs (heads_for xs) (as @ [c]))"
    "wf (Suc h) (Some sep) hi (Internal (next_id st) ys (heads_for ys) bs)"
    "above lo sep" "sbelow hi sep"
proof -
  let ?m = "length ks div 2"
  from w have hs: "hs = heads_for ks" and kd: "kids (wf h) lo hi ks cs" by auto
  have m: "?m < length ks" using full by (simp add: MAX_KEYS_def)
  from split_at_nth [OF m] obtain xs ys where ks: "ks = xs @ ks ! ?m # ys" and lx: "length xs = ?m"
    by blast
  define sep where "sep = ks ! ?m"
  note ks' = ks [folded sep_def]
  from kd ks' have "kids (wf h) lo hi (xs @ sep # ys) cs" by simp
  then obtain as c bs where cs: "cs = as @ c # bs" and la: "length as = length xs"
    and sg: "segs (wf h) lo hi xs as" and wc: "wf h (upto_last lo xs) (upb hi (sep # ys)) c"
    and tk: "tailk (wf h) (upto_last lo xs) hi (sep # ys) bs"
    by (rule kids_nth)
  have srt: "sorted_wrt (<) (xs @ sep # ys)"
    and bnd: "\<forall>k \<in> set (xs @ sep # ys). above lo k \<and> sbelow hi k"
    using kids_seps [OF kd] ks' by auto
  have sp: "split_node (Internal i ks hs cs) st =
      Some (Internal i xs (heads_for xs) (as @ [c]), sep,
            Internal (next_id st) ys (heads_for ys) bs, fresh st)"
  proof -
    have t: "take (?m + 1) ks = xs @ [sep]" "drop (?m + 1) ks = ys" "ks ! ?m = sep"
      using ks' lx by (auto simp: sep_def) (metis append.assoc append_Cons append_Nil
        append_eq_conv_conj length_append_singleton)+
    moreover have "take (?m + 1) cs = as @ [c]" "drop (?m + 1) cs = bs"
      using cs la lx by auto
    moreover have "\<not> length cs < ?m + 1" using cs la lx by simp
    ultimately show ?thesis
      using m hs unfolding split_node_def
      by (simp add: Let_def new_internal_def butlast_append del: take_append drop_append)
  qed
  have left: "kids (wf h) lo (Some sep) xs (as @ [c])"
  proof -
    have "segs (wf h) lo (Some sep) xs as"
      by (rule segs_rebound [OF sg]) (use srt in \<open>simp add: sorted_wrt_append\<close>)
    with wc la show ?thesis using kids_focus [of xs as "wf h" lo "Some sep" "[]" c "[]"] by simp
  qed
  have right: "kids (wf h) (Some sep) hi ys bs" using tk by simp
  show ?thesis
    by (rule that [OF ks' lx cs la sp]) (use left right bnd in auto)
qed

section \<open>Sizes\<close>

fun sized :: "node \<Rightarrow> bool" where
  "sized (Leaf _ ks _ _ _) \<longleftrightarrow> MIN_KEYS \<le> length ks \<and> length ks \<le> MAX_KEYS"
| "sized (Internal _ ks _ cs) \<longleftrightarrow>
     MIN_KEYS \<le> length cs \<and> length ks \<le> MAX_KEYS \<and> (\<forall>c \<in> set cs. sized c)"

text \<open>The root may be small; what is below it may not.\<close>

fun root_sized :: "node \<Rightarrow> bool" where
  "root_sized (Leaf _ ks _ _ _) \<longleftrightarrow> length ks \<le> MAX_KEYS"
| "root_sized (Internal _ ks _ cs) \<longleftrightarrow> length ks \<le> MAX_KEYS \<and> (\<forall>c \<in> set cs. sized c)"

text \<open>An internal root has two children, or is about to have them.\<close>

fun wide :: "node \<Rightarrow> bool" where
  "wide (Leaf _ _ _ _ _) = True"
| "wide (Internal _ _ _ cs) = (1 < length cs)"

fun widening :: "node \<Rightarrow> bool" where
  "widening (Internal _ _ _ [c]) = (MAX_KEYS \<le> key_count c)"
| "widening n = wide n"

lemma wide_widening: "wide n \<Longrightarrow> widening n"
  by (cases n rule: widening.cases) auto

lemma sized_root: "sized n \<Longrightarrow> root_sized n"
  by (cases n) auto

section \<open>Where a descent gets stuck\<close>

text \<open>The condition under which the leaf branch asks for a restart although nothing is full: the
  routed leaf has a successor, is not empty, and all its keys are below the searched one.\<close>

function (sequential) stuck :: "key \<Rightarrow> node \<Rightarrow> bool" where
  "stuck key (Internal i ks hs cs) =
     (let idx = lower_bound ks hs key in if length cs \<le> idx then False else stuck key (cs ! idx))"
| "stuck key (Leaf i ks hs vs nx) = (nx \<noteq> None \<and> ks \<noteq> [] \<and> last ks < key)"
  by pat_completeness auto
termination
  by (relation "measure (\<lambda>(_, n). height n)") (auto simp: height_child simp del: height.simps)

section \<open>Routing\<close>

text \<open>What splitting one child does, seen from the routed half \<open>c'\<close>.\<close>

definition split_halves :: "nat \<Rightarrow> key option \<Rightarrow> key option \<Rightarrow> key \<Rightarrow> node \<Rightarrow> arena \<Rightarrow> node \<Rightarrow> key \<Rightarrow> node \<Rightarrow> bool" where
  "split_halves h lo hi key c st l sep r \<longleftrightarrow>
     split_node c st = Some (l, sep, r, fresh st) \<and>
     wf h lo (Some sep) l \<and> wf h (Some sep) hi r \<and> above lo sep \<and> sbelow hi sep \<and>
     ent l @ ent r = ent c \<and>
     chain_step (next_id st) (links c) (Suc (next_id st)) (links l @ links r) \<and>
     (sized c \<longrightarrow> sized l \<and> sized r \<and> key_count l < MAX_KEYS \<and> key_count r < MAX_KEYS) \<and>
     (key \<le> sep \<longrightarrow> stuck key l = stuck key c) \<and> (sep < key \<longrightarrow> stuck key r = stuck key c)"

lemma split_halves_leaf:
  assumes w: "wf h lo hi (Leaf i ks hs vs nx)" and full: "MAX_KEYS \<le> length ks"
  shows "\<exists>l sep r. split_halves h lo hi key (Leaf i ks hs vs nx) st l sep r"
proof -
  obtain l sep r where s:
    "split_node (Leaf i ks hs vs nx) st = Some (l, sep, r, fresh st)"
    "wf h lo (Some sep) l" "wf h (Some sep) hi r" "above lo sep" "sbelow hi sep"
    "ent l @ ent r = zip ks vs" "links l = [(i, Some (next_id st))]" "links r = [(next_id st, nx)]"
    "l = Leaf i (take (length ks div 2) ks) (heads_for (take (length ks div 2) ks))
           (take (length ks div 2) vs) (Some (next_id st))"
    "r = Leaf (next_id st) (drop (length ks div 2) ks) (heads_for (drop (length ks div 2) ks))
           (drop (length ks div 2) vs) nx"
    "sep = last (take (length ks div 2) ks)"
    by (rule split_leaf_ok [OF w full, of st])
  have ne: "drop (length ks div 2) ks \<noteq> []" "ks \<noteq> []" using full by (auto simp: MAX_KEYS_def)
  then have ll: "last (drop (length ks div 2) ks) = last ks" by simp
  have "last ks \<in> set (drop (length ks div 2) ks)" using ne ll by (metis last_in_set)
  with s(3,10) have lt: "sep < last ks" by auto
  have "stuck key l = stuck key (Leaf i ks hs vs nx)" if "key \<le> sep"
    using that lt s(9,11) by auto
  moreover have "stuck key r = stuck key (Leaf i ks hs vs nx)" if "sep < key"
    using ne ll s(10) by auto
  moreover have "sized l \<and> sized r \<and> key_count l < MAX_KEYS \<and> key_count r < MAX_KEYS"
    if "sized (Leaf i ks hs vs nx)"
    using that full s(9,10) by (auto simp: MAX_KEYS_def MIN_KEYS_def)
  ultimately show ?thesis
    using s(1-8) chain_step_split [of "next_id st" i nx]
    unfolding split_halves_def by (intro exI [of _ l] exI [of _ sep] exI [of _ r]) auto
qed

lemma lower_bound_left:
  assumes "sorted_wrt (<) (xs @ sep # ys)" "key \<le> sep"
  shows "lower_bound (xs @ sep # ys) (heads_for (xs @ sep # ys)) key = lower_bound xs (heads_for xs) key
       \<and> lower_bound xs (heads_for xs) key \<le> length xs"
proof -
  have "sorted_wrt (<) xs" using assms by (simp add: sorted_wrt_append)
  then obtain a b where xs: "xs = a @ b" and sp: "splits_at key a b" using sorted_splits by blast
  have "splits_at key a (b @ sep # ys)"
    using sp assms by (auto simp: splits_at_def sorted_wrt_append)
  from lower_bound_splits [OF this] lower_bound_splits [OF sp] show ?thesis by (simp add: xs)
qed

lemma lower_bound_right:
  assumes "sorted_wrt (<) (xs @ sep # ys)" "sep < key"
  shows "lower_bound (xs @ sep # ys) (heads_for (xs @ sep # ys)) key
       = Suc (length xs) + lower_bound ys (heads_for ys) key"
proof -
  have "sorted_wrt (<) ys" using assms by (simp add: sorted_wrt_append)
  then obtain a b where ys: "ys = a @ b" and sp: "splits_at key a b" using sorted_splits by blast
  have "splits_at key (xs @ sep # a) b"
    using sp assms by (auto simp: splits_at_def sorted_wrt_append dest: less_trans)
  from lower_bound_splits [OF this] lower_bound_splits [OF sp] show ?thesis by (simp add: ys)
qed

lemma split_halves_internal:
  assumes w: "wf (Suc h) lo hi (Internal i ks hs cs)" and full: "MAX_KEYS \<le> length ks"
  shows "\<exists>l sep r. split_halves (Suc h) lo hi key (Internal i ks hs cs) st l sep r"
proof -
  obtain xs sep ys as c bs where
    ks: "ks = xs @ sep # ys" and lx: "length xs = length ks div 2"
    and cs: "cs = as @ c # bs" and la: "length as = length xs"
    and s: "split_node (Internal i ks hs cs) st =
       Some (Internal i xs (heads_for xs) (as @ [c]), sep,
             Internal (next_id st) ys (heads_for ys) bs, fresh st)"
    "wf (Suc h) lo (Some sep) (Internal i xs (heads_for xs) (as @ [c]))"
    "wf (Suc h) (Some sep) hi (Internal (next_id st) ys (heads_for ys) bs)"
    "above lo sep" "sbelow hi sep"
    by (rule split_internal_ok [OF w full, of st])
  let ?l = "Internal i xs (heads_for xs) (as @ [c])"
  let ?r = "Internal (next_id st) ys (heads_for ys) bs"
  have hs: "hs = heads_for ks" and kd: "kids (wf h) lo hi ks cs" using w by auto
  have srt: "sorted_wrt (<) (xs @ sep # ys)" using kids_seps [OF kd] ks by simp
  have len: "length bs = Suc (length ys)" using kids_length [OF kd] ks cs la by simp
  have left: "stuck key ?l = stuck key (Internal i ks hs cs)" if "key \<le> sep"
  proof -
    from lower_bound_left [OF srt that] la have lt: "lower_bound xs (heads_for xs) key < length (as @ [c])"
      and eq: "lower_bound ks hs key = lower_bound xs (heads_for xs) key" by (simp_all add: hs ks)
    have "(as @ [c]) ! lower_bound xs (heads_for xs) key = cs ! lower_bound xs (heads_for xs) key"
      using nth_append [of "as @ [c]" bs "lower_bound xs (heads_for xs) key"] lt by (simp add: cs)
    then show ?thesis using lt eq by (simp add: Let_def cs)
  qed
  have right: "stuck key ?r = stuck key (Internal i ks hs cs)" if "sep < key"
    using lower_bound_right [OF srt that] la by (simp add: Let_def hs ks cs nth_append)
  have "sized ?l \<and> sized ?r \<and> key_count ?l < MAX_KEYS \<and> key_count ?r < MAX_KEYS"
    if "sized (Internal i ks hs cs)"
  proof -
    have "length ks = Suc (length xs + length ys)" by (simp add: ks)
    moreover have "length ks = 128" using that full by (simp add: MAX_KEYS_def)
    ultimately have "length xs = 64" "length ys = 63" using lx by simp_all
    then show ?thesis using that la len by (simp add: MAX_KEYS_def MIN_KEYS_def cs)
  qed
  moreover have "ent ?l @ ent ?r = ent (Internal i ks hs cs)"
    and "links ?l @ links ?r = links (Internal i ks hs cs)" using cs by simp_all
  ultimately show ?thesis
    using s left right chain_step_fresh [of "next_id st" "links (Internal i ks hs cs)"]
    unfolding split_halves_def
    by (intro exI [of _ ?l] exI [of _ sep] exI [of _ ?r])
      (simp del: links.simps ent.simps sized.simps stuck.simps wf.simps)
qed

lemma split_halves_ex:
  assumes "wf h lo hi c" "MAX_KEYS \<le> key_count c"
  shows "\<exists>l sep r. split_halves h lo hi key c st l sep r"
proof (cases c)
  case (Leaf i ks hs vs nx)
  with assms split_halves_leaf show ?thesis by simp
next
  case (Internal i ks hs cs)
  with assms obtain h' where "h = Suc h'" by (auto elim: wf_Internal_E)
  with assms Internal split_halves_internal show ?thesis by simp
qed


text \<open>What \<open>route\<close> leaves behind: the focused child is not full, and nothing else changed.\<close>

definition routed ::
  "nat \<Rightarrow> key option \<Rightarrow> key option \<Rightarrow> key \<Rightarrow> key list \<Rightarrow> node list \<Rightarrow> arena \<Rightarrow>
   key list \<Rightarrow> node list \<Rightarrow> arena \<Rightarrow> key list \<Rightarrow> key list \<Rightarrow> node list \<Rightarrow> node \<Rightarrow> node list \<Rightarrow> bool" where
  "routed h lo hi key ks cs st ks' cs' st' xs ys as c bs \<longleftrightarrow>
     route key ks (heads_for ks) cs st = Some (ks', heads_for ks', cs', st', length xs) \<and>
     focus h lo hi key ks' cs' xs ys as c bs \<and>
     concat (map ent cs') = concat (map ent cs) \<and>
     chain_step (next_id st) (concat (map links cs)) (next_id st') (concat (map links cs')) \<and>
     (\<forall>i. stuck key (Internal i ks (heads_for ks) cs) = stuck key c) \<and>
     ((\<forall>x \<in> set cs. sized x) \<longrightarrow> (\<forall>x \<in> set cs'. sized x) \<and> key_count c < MAX_KEYS) \<and>
     length ks' \<le> Suc (length ks) \<and> length cs \<le> length cs' \<and>
     ((\<forall>x \<in> set cs. MAX_KEYS \<le> key_count x) \<longrightarrow> length cs < length cs')"

lemma focus_stuck:
  "focus h lo hi key ks cs xs ys as c bs \<Longrightarrow>
   stuck key (Internal i ks (heads_for ks) (as @ c' # bs)) = stuck key c'"
  using focus_pos (1) [of h lo hi key ks cs xs ys as c bs]
  by (simp add: Let_def focus_def nth_append)

lemma segs_upper: "segs P lo hi xs as \<Longrightarrow> above (upto_last lo xs) sep \<Longrightarrow> x \<in> set xs \<Longrightarrow> x < sep"
proof (induction xs arbitrary: lo as)
  case (Cons k ks)
  then obtain c cs where "as = c # cs" by (cases as) auto
  with Cons have s: "segs P (Some k) hi ks cs" by simp
  have "k < sep"
  proof (cases "ks = []")
    case False
    then have "last ks < sep" "last ks \<in> set ks" using Cons.prems by (auto simp: upto_last_last)
    moreover have "k < last ks" using segs_seps [OF s] False by simp
    ultimately show ?thesis by simp
  qed (use Cons.prems in simp)
  with Cons s show ?case by auto
qed simp

lemma tailk_lower: "tailk P l hi ys bs \<Longrightarrow> sbelow (upb hi ys) sep \<Longrightarrow> y \<in> set ys \<Longrightarrow> sep < y"
  using kids_seps by (cases ys) fastforce+

lemma focus_split:
  assumes f: "focus h lo hi key ks cs xs ys as c bs"
    and s: "split_halves h (upto_last lo xs) (upb hi ys) key c st l sep r"
  shows "split_child_in_place ks (heads_for ks) cs (length xs) st =
           Some (xs @ sep # ys, heads_for (xs @ sep # ys), as @ l # r # bs, bump_splits (fresh st))"
    and "key \<le> sep \<Longrightarrow> focus h lo hi key (xs @ sep # ys) (as @ l # r # bs) xs (sep # ys) as l (r # bs)"
    and "sep < key \<Longrightarrow> focus h lo hi key (xs @ sep # ys) (as @ l # r # bs) (xs @ [sep]) ys (as @ [l]) r bs"
proof -
  from f have ks: "ks = xs @ ys" and cs: "cs = as @ c # bs" and la: "length as = length xs"
    and sg: "segs (wf h) lo hi xs as" and tk: "tailk (wf h) (upto_last lo xs) hi ys bs"
    and sp: "splits_at key xs ys" by (simp_all add: focus_def)
  from s have wl: "wf h (upto_last lo xs) (Some sep) l" and wr: "wf h (Some sep) (upb hi ys) r"
    and ab: "above (upto_last lo xs) sep" and sb: "sbelow (upb hi ys) sep"
    and sn: "split_node c st = Some (l, sep, r, fresh st)" by (simp_all add: split_halves_def)
  have sepsp: "splits_at sep xs ys"
    using segs_upper [OF sg ab] tailk_lower [OF tk sb] by (auto simp: splits_at_def less_imp_le)
  have shi: "sbelow hi sep" using sb tk by (cases ys; cases hi) auto
  have tr: "tailk (wf h) (Some sep) hi ys bs" using tk sb by (cases ys) auto
  have nth: "cs ! length xs = c" and upd: "cs[length xs := l] = as @ l # bs"
    and len: "length xs < length cs" using cs la by (simp_all add: nth_append list_update_append)
  have ins: "insert_at (Suc (length xs)) r (as @ l # bs) = as @ l # r # bs"
    using insert_at_append [of "Suc (length xs)" "as @ [l]" r bs] la by simp
  have lb: "lower_bound (xs @ ys) (heads_for xs @ heads_for ys) sep = length xs"
    using lower_bound_splits [OF sepsp] by simp
  show "split_child_in_place ks (heads_for ks) cs (length xs) st =
           Some (xs @ sep # ys, heads_for (xs @ sep # ys), as @ l # r # bs, bump_splits (fresh st))"
    unfolding split_child_in_place_def nth sn using len ins
    by (simp add: ks Let_def lb upd not_less)
  show "focus h lo hi key (xs @ sep # ys) (as @ l # r # bs) xs (sep # ys) as l (r # bs)"
    if "key \<le> sep"
    using that f wl wr tk sp la sg ab shi tr
    by (cases ys; cases bs) (auto simp: focus_def splits_at_def)
  show "focus h lo hi key (xs @ sep # ys) (as @ l # r # bs) (xs @ [sep]) ys (as @ [l]) r bs"
    if "sep < key"
    using that f wl wr tr sp la sg ab shi
    by (auto simp: focus_def splits_at_def segs_append)
qed

lemma route_split:
  assumes f: "focus h lo hi key ks cs xs ys as c bs" and full: "MAX_KEYS \<le> key_count c"
    and s: "split_halves h (upto_last lo xs) (upb hi ys) key c st l sep r"
    and f': "focus h lo hi key (xs @ sep # ys) (as @ l # r # bs) xs' ys' as' c' bs'"
    and c': "c' \<in> {l, r}" "stuck key c' = stuck key c"
  shows "routed h lo hi key ks cs st (xs @ sep # ys) (as @ l # r # bs) (bump_splits (fresh st)) xs' ys' as' c' bs'"
proof -
  note p = focus_pos [OF f] and p' = focus_pos [OF f']
  have "route key ks (heads_for ks) cs st =
      Some (xs @ sep # ys, heads_for (xs @ sep # ys), as @ l # r # bs, bump_splits (fresh st), length xs')"
    unfolding route_def using p(1-3) p'(1,2) full focus_split(1) [OF f s]
    by (simp add: Let_def del: heads_for_simps)
  moreover have "stuck key (Internal i ks (heads_for ks) cs) = stuck key c'" for i
    using focus_stuck [OF f, of i c] f c'(2) by (simp add: focus_def)
  moreover have "chain_step (next_id st) (concat (map links cs)) (next_id (bump_splits (fresh st)))
      (concat (map links (as @ l # r # bs)))"
    using chain_step_frame [of "next_id st" "links c" "Suc (next_id st)" "links l @ links r"
        "concat (map links as)" "concat (map links bs)"] s f
    by (simp add: split_halves_def focus_def bump_splits_def fresh_def)
  moreover have "concat (map ent (as @ l # r # bs)) = concat (map ent cs)"
    and "length (xs @ sep # ys) \<le> Suc (length ks)" and "length cs < length (as @ l # r # bs)"
    using f s by (simp_all add: focus_def split_halves_def)
  moreover have "(\<forall>x \<in> set (as @ l # r # bs). sized x) \<and> key_count c' < MAX_KEYS" if "\<forall>x \<in> set cs. sized x"
    using that f s c'(1) by (auto simp: focus_def split_halves_def)
  ultimately show ?thesis
    unfolding routed_def using f' by (simp del: stuck.simps heads_for_simps)
qed

lemma route_ok:
  assumes kd: "kids (wf h) lo hi ks cs" and k: "above lo key" "below hi key"
  shows "\<exists>ks' cs' st' xs ys as c bs. routed h lo hi key ks cs st ks' cs' st' xs ys as c bs"
proof -
  from focus_ex [OF kd k] obtain xs ys as c bs where f: "focus h lo hi key ks cs xs ys as c bs" .
  show ?thesis
  proof (cases "MAX_KEYS \<le> key_count c")
    case True
    from split_halves_ex [OF conjunct1 [OF focus_child [OF f]] True] obtain l sep r where
      s: "split_halves h (upto_last lo xs) (upb hi ys) key c st l sep r" by blast
    show ?thesis
    proof (cases "key \<le> sep")
      case le: True
      from s le have "stuck key l = stuck key c" by (simp add: split_halves_def)
      from route_split [OF f True s focus_split(2) [OF f s le] _ this] show ?thesis by blast
    next
      case False
      then have gt: "sep < key" by simp
      from s gt have "stuck key r = stuck key c" by (simp add: split_halves_def)
      from route_split [OF f True s focus_split(3) [OF f s gt] _ this] show ?thesis by blast
    qed
  next
    case False
    have "route key ks (heads_for ks) cs st = Some (ks, heads_for ks, cs, st, length xs)"
      unfolding route_def using focus_pos [OF f] False by (simp add: Let_def)
    moreover have "stuck key (Internal i ks (heads_for ks) cs) = stuck key c" for i
      using focus_stuck [OF f, of i c] f by (simp add: focus_def)
    ultimately have "routed h lo hi key ks cs st ks cs st xs ys as c bs"
      unfolding routed_def using f False
      by (simp add: chain_step_refl not_le del: stuck.simps) (auto simp: focus_def)
    then show ?thesis by blast
  qed
qed

section \<open>The leaf branch as an interface\<close>

text \<open>The effect of a point operation on a list of entries: only \<open>key\<close> may change, and its old
  and new binding and the result are related by \<open>P\<close>.\<close>

definition at_key ::
  "key \<Rightarrow> (val option \<Rightarrow> val option \<Rightarrow> 'r \<Rightarrow> bool) \<Rightarrow> (key \<times> val) list \<Rightarrow> (key \<times> val) list \<Rightarrow> 'r \<Rightarrow> bool" where
  "at_key key P es es' r \<longleftrightarrow>
     (\<forall>k. k \<noteq> key \<longrightarrow> map_of es' k = map_of es k) \<and> P (map_of es key) (map_of es' key) r"

lemma at_key_frame:
  assumes "at_key key P es es' r" "key \<notin> fst ` set A" "key \<notin> fst ` set B"
  shows "at_key key P (A @ es @ B) (A @ es' @ B) r"
proof -
  have "map_of A key = None" "map_of B key = None" using assms(2,3) by (simp_all add: map_of_eq_None_iff)
  with assms(1) show ?thesis by (auto simp: at_key_def map_add_def split: option.splits)
qed

locale leaf_op =
  fixes key :: key and op :: "node \<Rightarrow> node \<times> 'r"
    and P :: "val option \<Rightarrow> val option \<Rightarrow> 'r \<Rightarrow> bool"
  assumes op_ok: "wf 0 lo hi (Leaf i ks hs vs nx) \<Longrightarrow> above lo key \<Longrightarrow> below hi key \<Longrightarrow>
      op (Leaf i ks hs vs nx) = (l', r) \<Longrightarrow>
      wf 0 lo hi l' \<and> links l' = [(i, nx)] \<and> at_key key P (zip ks vs) (ent l') r"
begin

lemma focus_effect:
  assumes "focus h lo hi key ks cs xs ys as c bs" "at_key key P (ent c) (ent c') r"
  shows "at_key key P (concat (map ent cs)) (concat (map ent (as @ c' # bs))) r"
  using at_key_frame [OF assms(2) focus_absent [OF assms(1)]] assms(1) by (simp add: focus_def)

lemma plain_descend_ok:
  "wf h lo hi n \<Longrightarrow> above lo key \<Longrightarrow> below hi key \<Longrightarrow>
   \<exists>n' r. plain_descend op key n = Some (n', r) \<and> wf h lo hi n' \<and> links n' = links n \<and>
          at_key key P (ent n) (ent n') r"
proof (induction h arbitrary: lo hi n)
  case 0
  then obtain i ks hs vs nx where n: "n = Leaf i ks hs vs nx" by (cases n) auto
  obtain l' r where o: "op n = (l', r)" by (cases "op n")
  with op_ok [of lo hi i ks hs vs nx l' r] 0 n show ?case by auto
next
  case (Suc h)
  then obtain i ks hs cs where n: "n = Internal i ks hs cs" and hs: "hs = heads_for ks"
    and kd: "kids (wf h) lo hi ks cs" by (cases n) auto
  from focus_ex [OF kd Suc.prems(2,3)] obtain xs ys as c bs
    where f: "focus h lo hi key ks cs xs ys as c bs" .
  from Suc.IH focus_child [OF f] obtain c' r where c': "plain_descend op key c = Some (c', r)"
    and w: "wf h (upto_last lo xs) (upb hi ys) c'" and l: "links c' = links c"
    and e: "at_key key P (ent c) (ent c') r" by blast
  from focus_pos [OF f] c' hs have "plain_descend op key n = Some (Internal i ks hs (as @ c' # bs), r)"
    by (simp add: n Let_def)
  moreover have "links (Internal i ks hs (as @ c' # bs)) = links n"
    using f l by (simp add: n focus_def)
  ultimately show ?case
    using focus_kids [OF f w] focus_effect [OF f e] hs n by simp
qed

end

text \<open>Leaf branches of \<open>insert_rec\<close> and \<open>upsert_rec\<close>: they keep the fill bounds of a leaf that is not
  full, and ask for a restart exactly on the stuck leaves, which they leave alone.\<close>

locale grow_op = leaf_op key op P for key and op :: "node \<Rightarrow> node \<times> 'a descend" and P +
  assumes op_size: "length ks < MAX_KEYS \<Longrightarrow> op (Leaf i ks hs vs nx) = (Leaf i' ks' hs' vs' nx', r) \<Longrightarrow>
      length ks \<le> length ks' \<and> length ks' \<le> MAX_KEYS"
    and op_stuck: "wf 0 lo hi (Leaf i ks hs vs nx) \<Longrightarrow> length ks < MAX_KEYS \<Longrightarrow>
      op (Leaf i ks hs vs nx) = (l', r) \<Longrightarrow>
      (r = Restart \<longleftrightarrow> stuck key (Leaf i ks hs vs nx)) \<and> (r = Restart \<longrightarrow> l' = Leaf i ks hs vs nx)"
begin

definition descended :: "nat \<Rightarrow> key option \<Rightarrow> key option \<Rightarrow> node \<Rightarrow> arena \<Rightarrow> node \<Rightarrow> arena \<Rightarrow> 'a descend \<Rightarrow> bool" where
  "descended h lo hi n st n' st' r \<longleftrightarrow>
     write_descend op key n st = Some (n', st', r) \<and> wf h lo hi n' \<and>
     chain_step (next_id st) (links n) (next_id st') (links n') \<and> at_key key P (ent n) (ent n') r \<and>
     (sized n \<longrightarrow> sized n') \<and> root_sized n' \<and> (widening n \<longrightarrow> wide n') \<and>
     (r = Restart \<longleftrightarrow> stuck key n) \<and> (r = Restart \<longrightarrow> stuck key n')"

lemma descend_leaf:
  assumes "wf h lo hi (Leaf i ks hs vs nx)" "above lo key" "below hi key" "length ks < MAX_KEYS"
  shows "\<exists>n' st' r. descended h lo hi (Leaf i ks hs vs nx) st n' st' r"
proof -
  obtain l' r where o: "op (Leaf i ks hs vs nx) = (l', r)" by (cases "op (Leaf i ks hs vs nx)")
  have h: "h = 0" using assms(1) by simp
  note ok = op_ok [OF assms(1) [unfolded h] assms(2,3) o]
  then obtain i' ks' hs' vs' nx' where l': "l' = Leaf i' ks' hs' vs' nx'" by (cases l') auto
  from op_size [OF assms(4) o [unfolded l']] op_stuck [OF assms(1) [unfolded h] assms(4) o] ok
  have "descended h lo hi (Leaf i ks hs vs nx) st l' st r"
    unfolding descended_def using o h l' by (auto simp: chain_step_refl)
  then show ?thesis by blast
qed

lemma descend_internal:
  assumes rt: "routed h lo hi key ks cs st ks' cs' st' xs ys as c bs"
    and d: "descended h (upto_last lo xs) (upb hi ys) c st' c' st'' r"
    and sz: "root_sized (Internal i ks (heads_for ks) cs)" "length ks < MAX_KEYS"
  shows "descended (Suc h) lo hi (Internal i ks (heads_for ks) cs) st
           (Internal i ks' (heads_for ks') (as @ c' # bs)) st'' r"
proof -
  from rt have f: "focus h lo hi key ks' cs' xs ys as c bs" by (simp add: routed_def)
  note p = focus_pos [OF f]
  have cs': "cs' = as @ c # bs" using f by (simp add: focus_def)
  have s: "\<forall>x \<in> set (as @ c' # bs). sized x" using rt d sz(1) by (auto simp: routed_def descended_def cs')
  have "chain_step (next_id st') (concat (map links cs')) (next_id st'') (concat (map links (as @ c' # bs)))"
    using chain_step_frame [of "next_id st'" "links c" "next_id st''" "links c'"
        "concat (map links as)" "concat (map links bs)"] d
    by (simp add: descended_def cs')
  with rt have "chain_step (next_id st) (concat (map links cs)) (next_id st'') (concat (map links (as @ c' # bs)))"
    unfolding routed_def by (blast intro: chain_step_trans)
  moreover have "at_key key P (concat (map ent cs)) (concat (map ent (as @ c' # bs))) r"
    using focus_effect [OF f] d rt by (simp add: descended_def routed_def)
  moreover have "write_descend op key (Internal i ks (heads_for ks) cs) st
      = Some (Internal i ks' (heads_for ks') (as @ c' # bs), st'', r)"
    using rt d p(2-4) by (simp add: routed_def descended_def)
  moreover have "wide (Internal i ks' (heads_for ks') (as @ c' # bs))"
    if "widening (Internal i ks (heads_for ks) cs)"
    using that rt by (cases "Internal i ks (heads_for ks) cs" rule: widening.cases) (auto simp: routed_def cs')
  ultimately show ?thesis
    using rt d focus_kids [OF f] focus_stuck [OF f, of i c'] s sz
    unfolding descended_def routed_def by (auto simp: cs' simp del: stuck.simps)
qed

lemma write_descend_ok:
  "wf h lo hi n \<Longrightarrow> above lo key \<Longrightarrow> below hi key \<Longrightarrow> root_sized n \<Longrightarrow> key_count n < MAX_KEYS \<Longrightarrow>
   \<exists>n' st' r. descended h lo hi n st n' st' r"
proof (induction h arbitrary: lo hi n st)
  case 0
  then show ?case using descend_leaf by (cases n) auto
next
  case (Suc h)
  then obtain i ks hs cs where n: "n = Internal i ks (heads_for ks) cs"
    and kd: "kids (wf h) lo hi ks cs" by (cases n) auto
  from route_ok [OF kd Suc.prems(2,3), of st] obtain ks' cs' st' xs ys as c bs
    where rt: "routed h lo hi key ks cs st ks' cs' st' xs ys as c bs" by blast
  then have f: "focus h lo hi key ks' cs' xs ys as c bs" and "root_sized c" "key_count c < MAX_KEYS"
    using Suc.prems(4) n by (auto simp: routed_def focus_def intro!: sized_root)
  with Suc.IH focus_child [OF f] obtain c' st'' r
    where "descended h (upto_last lo xs) (upb hi ys) c st' c' st'' r" by blast
  from descend_internal [OF rt this] Suc.prems n show ?case by auto
qed

end

end
