(* ===== verification/BTree_Ops.thy ===== *)
theory BTree_Ops
  imports BTree_Write
begin

text \<open>
  Point operations of the B+ tree refine a finite map from keys to values. The four leaf branches
  interpret \<open>leaf_op\<close>; lookup, insertion, replacement and in-place update are then stated for whole
  trees that satisfy \<open>btree_ok\<close>.
\<close>

section \<open>Searching a leaf\<close>

lemma leaf_focus:
  assumes "wf 0 lo hi (Leaf i ks hs vs nx)"
  obtains (hit) xs ys us v ws where "ks = xs @ key # ys" "vs = us @ v # ws" "length us = length xs"
      "length ws = length ys" "hs = heads_for ks" "lower_bound ks hs key = length xs"
      "\<forall>x \<in> set xs. x < key" "\<forall>y \<in> set ys. key < y"
  | (miss) xs ys us ws where "ks = xs @ ys" "vs = us @ ws" "length us = length xs"
      "length ws = length ys" "hs = heads_for ks" "lower_bound ks hs key = length xs"
      "\<forall>x \<in> set xs. x < key" "\<forall>y \<in> set ys. key < y"
proof -
  from assms have hs: "hs = heads_for ks" and lv: "length vs = length ks" and srt: "sorted_wrt (<) ks"
    by auto
  from sorted_splits [OF srt] obtain xs ys where ks: "ks = xs @ ys" and sp: "splits_at key xs ys" .
  have lb: "lower_bound ks hs key = length xs" using lower_bound_splits [OF sp] by (simp add: ks hs)
  have xs: "\<forall>x \<in> set xs. x < key" using sp by (simp add: splits_at_def)
  have vs: "vs = take (length xs) vs @ drop (length xs) vs" by simp
  have lu: "length (take (length xs) vs) = length xs" "length (drop (length xs) vs) = length ys"
    using lv ks by simp_all
  show thesis
  proof (cases "key \<in> set ys")
    case True
    then obtain y zs where ys: "ys = y # zs" by (cases ys) auto
    have "y = key"
    proof (rule ccontr)
      assume "y \<noteq> key"
      with sp ys have "key < y" by (simp add: splits_at_def order_less_le)
      with True srt show False by (auto simp: ys ks sorted_wrt_append dest: less_trans)
    qed
    moreover obtain w ws where "drop (length xs) vs = w # ws" using lu ys by (cases "drop (length xs) vs") auto
    ultimately show ?thesis
      using hit [of xs zs "take (length xs) vs" w ws] ks ys vs lu hs lb xs srt by (simp add: sorted_wrt_append)
  next
    case False
    with sp have "\<forall>y \<in> set ys. key < y" by (auto simp: splits_at_def order_less_le)
    with miss [OF ks vs lu hs lb xs] show ?thesis by blast
  qed
qed

lemma map_of_insert:
  "key \<notin> fst ` set A \<Longrightarrow> map_of (A @ (key, v) # B) k = (if k = key then Some v else map_of (A @ B) k)"
  using map_of_eq_None_iff [of A key] by (auto simp: map_add_def split: option.splits)

lemma zip_fst_absent: "\<forall>x \<in> set xs. x < (key :: key) \<Longrightarrow> key \<notin> fst ` set (zip xs us)"
  "\<forall>y \<in> set ys. (key :: key) < y \<Longrightarrow> key \<notin> fst ` set (zip ys ws)"
  by (auto dest: set_zip_leftD)

lemma map_of_absent: "key \<notin> fst ` set es \<Longrightarrow> map_of es key = None"
  by (simp add: map_of_eq_None_iff)

section \<open>The four leaf branches\<close>

definition insert_effect :: "val \<Rightarrow> val option \<Rightarrow> val option \<Rightarrow> bool descend \<Rightarrow> bool" where
  "insert_effect v before after r \<longleftrightarrow>
     (case r of Restart \<Rightarrow> after = before
      | Done inserted \<Rightarrow> inserted = (before = None) \<and>
          after = (case before of None \<Rightarrow> Some v | Some w \<Rightarrow> Some w))"

definition upsert_effect :: "val \<Rightarrow> val option \<Rightarrow> val option \<Rightarrow> val option descend \<Rightarrow> bool" where
  "upsert_effect v before after r \<longleftrightarrow>
     (case r of Restart \<Rightarrow> after = before | Done prev \<Rightarrow> prev = before \<and> after = Some v)"

definition update_effect :: "val \<Rightarrow> val option \<Rightarrow> val option \<Rightarrow> val option \<Rightarrow> bool" where
  "update_effect v before after r \<longleftrightarrow>
     r = before \<and> after = (case before of None \<Rightarrow> None | Some _ \<Rightarrow> Some v)"

definition delete_effect :: "val option \<Rightarrow> val option \<Rightarrow> val option \<Rightarrow> bool" where
  "delete_effect before after r \<longleftrightarrow> r = before \<and> after = None"

lemmas effect_defs = insert_effect_def upsert_effect_def update_effect_def delete_effect_def

text \<open>A leaf with a new entry, with a replaced value, and with an entry taken out.\<close>

lemma leaf_added:
  assumes "wf 0 lo hi (Leaf i (xs @ ys) hs (us @ ws) nx)" "length us = length xs" "length ws = length ys"
    "\<forall>x \<in> set xs. x < key" "\<forall>y \<in> set ys. key < y" "above lo key" "below hi key"
  shows "wf 0 lo hi (Leaf i (xs @ key # ys) (heads_for (xs @ key # ys)) (us @ v # ws) nx)"
    and "map_of (zip (xs @ ys) (us @ ws)) key = None"
    and "map_of (zip (xs @ key # ys) (us @ v # ws)) k =
         (if k = key then Some v else map_of (zip (xs @ ys) (us @ ws)) k)"
proof -
  note abs = zip_fst_absent(1) [OF assms(4), of us] zip_fst_absent(2) [OF assms(5), of ws]
  show "wf 0 lo hi (Leaf i (xs @ key # ys) (heads_for (xs @ key # ys)) (us @ v # ws) nx)"
    using assms by (auto simp: sorted_wrt_append dest: less_trans)
  show "map_of (zip (xs @ ys) (us @ ws)) key = None"
    using abs assms(2) by (simp add: map_of_absent)
  show "map_of (zip (xs @ key # ys) (us @ v # ws)) k =
         (if k = key then Some v else map_of (zip (xs @ ys) (us @ ws)) k)"
    using map_of_insert [OF abs(1), of v "zip ys ws" k] assms(2) by simp
qed

lemma leaf_hit:
  assumes "wf 0 lo hi (Leaf i (xs @ key # ys) hs (us @ v # ws) nx)" "length us = length xs"
    "length ws = length ys" "\<forall>x \<in> set xs. x < key" "\<forall>y \<in> set ys. key < y"
  shows "wf 0 lo hi (Leaf i (xs @ key # ys) hs (us @ w # ws) nx)"
    and "wf 0 lo hi (Leaf i (xs @ ys) (heads_for (xs @ ys)) (us @ ws) nx)"
    and "map_of (zip (xs @ key # ys) (us @ w # ws)) k =
         (if k = key then Some w else map_of (zip (xs @ ys) (us @ ws)) k)"
    and "map_of (zip (xs @ ys) (us @ ws)) key = None"
proof -
  note abs = zip_fst_absent(1) [OF assms(4), of us] zip_fst_absent(2) [OF assms(5), of ws]
  show "wf 0 lo hi (Leaf i (xs @ key # ys) hs (us @ w # ws) nx)"
    "wf 0 lo hi (Leaf i (xs @ ys) (heads_for (xs @ ys)) (us @ ws) nx)"
    using assms by (auto simp: sorted_wrt_append)
  show "map_of (zip (xs @ key # ys) (us @ w # ws)) k =
         (if k = key then Some w else map_of (zip (xs @ ys) (us @ ws)) k)"
    using map_of_insert [OF abs(1), of w "zip ys ws" k] assms(2) by simp
  show "map_of (zip (xs @ ys) (us @ ws)) key = None"
    using abs assms(2) by (simp add: map_of_absent)
qed

lemma leaf_miss_test:
  "\<forall>y \<in> set ys. (key :: key) < y \<Longrightarrow> \<not> (length xs < length (xs @ ys) \<and> (xs @ ys) ! length xs = key)"
  by (cases ys) auto

lemma insert_leaf_ok:
  assumes w: "wf 0 lo hi (Leaf i ks hs vs nx)" and k: "above lo key" "below hi key"
    and o: "insert_leaf key v (Leaf i ks hs vs nx) = (l', r)"
  shows "wf 0 lo hi l' \<and> links l' = [(i, nx)] \<and> at_key key (insert_effect v) (zip ks vs) (ent l') r"
  using w
proof (cases rule: leaf_focus [where key = key])
  case (hit xs ys us v' ws)
  note h = leaf_hit [OF w [unfolded hit(1,2)] hit(3,4,7,8)]
  show ?thesis using o w hit(1,2,6) h(3) [where w = v']
    by (auto simp: at_key_def insert_effect_def Let_def nth_append split: if_splits)
next
  case (miss xs ys us ws)
  note a = leaf_added [OF w [unfolded miss(1,2)] miss(3,4,7,8) k]
  note t = leaf_miss_test [OF miss(8), of xs, folded miss(1)]
  show ?thesis
  proof (cases "r = Restart")
    case True
    with o w show ?thesis by (auto simp: at_key_def insert_effect_def Let_def split: if_splits)
  next
    case False
    with o t have "l' = Leaf i (xs @ key # ys) (heads_for (xs @ key # ys)) (us @ v # ws) nx" "r = Done True"
      using miss by (auto simp: Let_def split: if_splits)
    with a(1) [where v = v] a(2) a(3) [where v = v] miss(1,2) show ?thesis
      by (simp add: at_key_def insert_effect_def del: map_of.simps map_of_append wf.simps zip_append)
  qed
qed

lemma upsert_leaf_ok:
  assumes w: "wf 0 lo hi (Leaf i ks hs vs nx)" and k: "above lo key" "below hi key"
    and o: "upsert_leaf key v (Leaf i ks hs vs nx) = (l', r)"
  shows "wf 0 lo hi l' \<and> links l' = [(i, nx)] \<and> at_key key (upsert_effect v) (zip ks vs) (ent l') r"
  using w
proof (cases rule: leaf_focus [where key = key])
  case (hit xs ys us v' ws)
  note h = leaf_hit [OF w [unfolded hit(1,2)] hit(3,4,7,8)]
  have "l' = Leaf i (xs @ key # ys) hs (us @ v # ws) nx" "r = Done (Some v')"
    using o hit(1-3,6) by (auto simp: Let_def nth_append list_update_append)
  with hit(1,2) h(1) [where w = v] h(3) [where w = v] h(3) [where w = v'] show ?thesis
    by (simp add: at_key_def upsert_effect_def del: map_of.simps map_of_append wf.simps zip_append)
next
  case (miss xs ys us ws)
  note a = leaf_added [OF w [unfolded miss(1,2)] miss(3,4,7,8) k]
  note t = leaf_miss_test [OF miss(8), of xs, folded miss(1)]
  show ?thesis
  proof (cases "r = Restart")
    case True
    with o w show ?thesis by (auto simp: at_key_def upsert_effect_def Let_def split: if_splits)
  next
    case False
    with o t have "l' = Leaf i (xs @ key # ys) (heads_for (xs @ key # ys)) (us @ v # ws) nx" "r = Done None"
      using miss by (auto simp: Let_def split: if_splits)
    with a(1) [where v = v] a(2) a(3) [where v = v] miss(1,2) show ?thesis
      by (simp add: at_key_def upsert_effect_def del: map_of.simps map_of_append wf.simps zip_append)
  qed
qed

lemma update_leaf_ok:
  assumes w: "wf 0 lo hi (Leaf i ks hs vs nx)" and o: "update_leaf key v (Leaf i ks hs vs nx) = (l', r)"
  shows "wf 0 lo hi l' \<and> links l' = [(i, nx)] \<and> at_key key (update_effect v) (zip ks vs) (ent l') r"
  using w
proof (cases rule: leaf_focus [where key = key])
  case (hit xs ys us v' ws)
  note h = leaf_hit [OF w [unfolded hit(1,2)] hit(3,4,7,8)]
  have "l' = Leaf i (xs @ key # ys) hs (us @ v # ws) nx" "r = Some v'"
    using o hit(1-3,6) by (auto simp: Let_def nth_append list_update_append)
  with hit(1,2) h(1) [where w = v] h(3) [where w = v] h(3) [where w = v'] show ?thesis
    by (simp add: at_key_def update_effect_def del: map_of.simps map_of_append wf.simps zip_append)
next
  case (miss xs ys us ws)
  have "map_of (zip ks vs) key = None"
    using miss zip_fst_absent [of xs key us] zip_fst_absent [of ys key ws]
    by (auto intro!: map_of_absent)
  moreover have "l' = Leaf i ks hs vs nx" "r = None"
    using o leaf_miss_test [OF miss(8), of xs] miss(1,6) by (auto simp: Let_def split: if_splits)
  ultimately show ?thesis using w
    by (simp add: at_key_def update_effect_def del: map_of_eq_None_iff map_of_zip_is_None wf.simps)
qed

lemma delete_leaf_ok:
  assumes w: "wf 0 lo hi (Leaf i ks hs vs nx)" and o: "delete_leaf key (Leaf i ks hs vs nx) = (l', r)"
  shows "wf 0 lo hi l' \<and> links l' = [(i, nx)] \<and> at_key key delete_effect (zip ks vs) (ent l') r"
  using w
proof (cases rule: leaf_focus [where key = key])
  case (hit xs ys us v' ws)
  note h = leaf_hit [OF w [unfolded hit(1,2)] hit(3,4,7,8)]
  have "l' = Leaf i (xs @ ys) (heads_for (xs @ ys)) (us @ ws) nx" "r = Some v'"
    using o hit(1-3,5,6) by (auto simp: Let_def nth_append)
  with hit(1,2) h(2) h(4) h(3) [where w = v'] show ?thesis
    by (simp add: at_key_def delete_effect_def del: map_of.simps map_of_append wf.simps zip_append)
next
  case (miss xs ys us ws)
  have "map_of (zip ks vs) key = None"
    using miss zip_fst_absent [of xs key us] zip_fst_absent [of ys key ws]
    by (auto intro!: map_of_absent)
  moreover have "l' = Leaf i ks hs vs nx" "r = None"
    using o leaf_miss_test [OF miss(8), of xs] miss(1,6) by (auto simp: Let_def split: if_splits)
  ultimately show ?thesis using w
    by (simp add: at_key_def delete_effect_def del: map_of_eq_None_iff map_of_zip_is_None wf.simps)
qed

lemma leaf_hit_last:
  assumes w: "wf 0 lo hi (Leaf i ks hs vs nx)"
    and "lower_bound ks hs key < length ks" "ks ! lower_bound ks hs key = key"
  shows "\<not> last ks < key"
proof -
  from w obtain srt: "sorted_wrt (<) ks" by simp
  have "last ks = ks ! (length ks - 1)" using assms(2) by (intro last_conv_nth) auto
  with sorted_wrt_nth_less [OF srt, of "lower_bound ks hs key" "length ks - 1"] assms(2,3)
  show ?thesis by (cases "lower_bound ks hs key = length ks - 1") (auto simp: not_less less_imp_le)
qed

interpretation ins: grow_op key "insert_leaf key v" "insert_effect v" for key v
proof (unfold_locales, goal_cases)
  case (1 lo hi i ks hs vs nx l' r)
  then show ?case by (rule insert_leaf_ok)
qed (auto simp: Let_def split: if_splits)

interpretation ups: grow_op key "upsert_leaf key v" "upsert_effect v" for key v
proof (unfold_locales, goal_cases)
  case (1 lo hi i ks hs vs nx l' r)
  then show ?case by (rule upsert_leaf_ok)
next
  case (3 lo hi i ks hs vs nx l' r)
  then show ?case using leaf_hit_last [OF 3(1), of key] by (auto simp: Let_def split: if_splits)
qed (auto simp: Let_def split: if_splits)

interpretation upd: leaf_op key "update_leaf key v" "update_effect v" for key v
  by unfold_locales (rule update_leaf_ok)

interpretation del: leaf_op key "delete_leaf key" delete_effect for key
  by unfold_locales (rule delete_leaf_ok)


section \<open>Whole trees\<close>

text \<open>The abstract value of a tree, and the invariant every operation keeps: balanced, ordered and
  filled within the bounds, leaves chained in key order, identifiers unique, and the entry counter
  equal to the number of entries modulo the counter's width.\<close>

definition abs_map :: "btree \<Rightarrow> key \<rightharpoonup> val" where
  "abs_map t = map_of (ent (root t))"

definition tree_ok :: "nat \<Rightarrow> btree \<Rightarrow> bool" where
  "tree_ok h t \<longleftrightarrow>
     wf h None None (root t) \<and> root_sized (root t) \<and> chain_ok (next_id t) (links (root t))"

definition btree_ok :: "btree \<Rightarrow> bool" where
  "btree_ok t \<longleftrightarrow>
     tree_ok (height (root t)) t \<and> wide (root t) \<and> entries t = of_nat (card (dom (abs_map t)))"

lemma kids_same_height:
  "kids P lo hi ks cs \<Longrightarrow> (\<And>lo hi c. c \<in> set cs \<Longrightarrow> P lo hi c \<Longrightarrow> height c = h) \<Longrightarrow>
   foldr max (map height cs) 0 = h"
  by (induction P lo hi ks cs rule: kids.induct) auto

lemma wf_height: "wf h lo hi n \<Longrightarrow> height n = h"
proof (induction h arbitrary: lo hi n)
  case 0
  then show ?case by (cases n) auto
next
  case (Suc h)
  then show ?case by (cases n) (auto intro!: kids_same_height)
qed

lemma tree_ok_height: "tree_ok h t \<Longrightarrow> height (root t) = h"
  by (auto simp: tree_ok_def wf_height)

lemma btree_okI:
  "tree_ok h t \<Longrightarrow> wide (root t) \<Longrightarrow> entries t = of_nat (card (dom (abs_map t))) \<Longrightarrow> btree_ok t"
  using tree_ok_height by (simp add: btree_ok_def)

lemma finite_abs_map [simp]: "finite (dom (abs_map t))"
  by (simp add: abs_map_def finite_dom_map_of)

lemma btree_new_ok: "btree_ok btree_new \<and> abs_map btree_new = Map.empty"
  by (simp add: btree_ok_def tree_ok_def btree_new_def new_leaf_with_def abs_map_def chain_ok_def)

subsection \<open>Lookup\<close>

lemma get_node_ok:
  "wf h lo hi n \<Longrightarrow> above lo key \<Longrightarrow> below hi key \<Longrightarrow> get_node key n = Some (map_of (ent n) key)"
proof (induction h arbitrary: lo hi n)
  case 0
  then obtain i ks hs vs nx where n: "n = Leaf i ks hs vs nx" and w: "wf 0 lo hi (Leaf i ks hs vs nx)"
    by (cases n) auto
  from w show ?case
  proof (cases rule: leaf_focus [where key = key])
    case (hit xs ys us v ws)
    show ?thesis
      using leaf_hit(3) [OF w [unfolded hit(1,2)] hit(3,4,7,8), of v key] hit
      by (simp add: n Let_def nth_append)
  next
    case (miss xs ys us ws)
    have "map_of (zip ks vs) key = None"
      using miss zip_fst_absent [of xs key us] zip_fst_absent [of ys key ws]
      by (auto intro!: map_of_absent)
    moreover have "get_node key n = Some None"
      using leaf_miss_test [OF miss(8), of xs] miss by (auto simp: n Let_def)
    ultimately show ?thesis by (simp add: n del: map_of_zip_is_None)
  qed
next
  case (Suc h)
  then obtain i ks cs where n: "n = Internal i ks (heads_for ks) cs"
    and kd: "kids (wf h) lo hi ks cs" by (cases n) auto
  from focus_ex [OF kd Suc.prems(2,3)] obtain xs ys as c bs
    where f: "focus h lo hi key ks cs xs ys as c bs" .
  note p = focus_pos [OF f]
  have "min (lower_bound ks (heads_for ks) key) (length cs - 1) = length xs" using p by auto
  then have "get_node key n = get_node key c" using p(2,3) by (auto simp: n Let_def)
  also have "\<dots> = Some (map_of (ent c) key)" using Suc.IH focus_child [OF f] by blast
  also have "map_of (ent c) key = map_of (ent n) key"
    using focus_absent [OF f] f by (simp add: n focus_def map_of_absent map_add_def split: option.split)
  finally show ?case .
qed

lemma btree_get_ok: "btree_ok t \<Longrightarrow> btree_get t key = Some (abs_map t key)"
  by (auto simp: btree_ok_def tree_ok_def btree_get_def abs_map_def intro!: get_node_ok)


subsection \<open>One attempt of a retry loop\<close>

lemma with_arena_simps [simp]:
  "root (with_arena t st r) = r" "next_id (with_arena t st r) = next_id st"
  "entries (with_arena t st r) = entries t" "in_place (with_arena t st r) = in_place t"
  "next_id (arena_of t) = next_id t"
  by (simp_all add: with_arena_def arena_of_def arena.truncate_def)

lemma full_root_sized: "root_sized n \<Longrightarrow> wf h lo hi n \<Longrightarrow> MAX_KEYS \<le> key_count n \<Longrightarrow> sized n"
  using kids_length by (cases n) (fastforce simp: MAX_KEYS_def MIN_KEYS_def elim: wf_Internal_E)+

lemma wrap_root_simps [simp]:
  "entries (wrap_root t) = entries t" "abs_map (wrap_root t) = abs_map t" "key_count (root (wrap_root t)) = 0"
  by (simp_all add: wrap_root_def new_internal_def abs_map_def)

lemma wrap_root_ok:
  assumes ok: "tree_ok h t" and full: "MAX_KEYS \<le> key_count (root t)"
  shows "tree_ok (Suc h) (wrap_root t) \<and> stuck key (root (wrap_root t)) = stuck key (root t)"
proof -
  have "sized (root t)" using ok full full_root_sized by (auto simp: tree_ok_def)
  moreover have "chain_ok (Suc (next_id t)) (links (root t))"
    using ok chain_step_ok [OF chain_step_fresh] by (simp add: tree_ok_def)
  ultimately show ?thesis using ok
    by (simp add: tree_ok_def wrap_root_def new_internal_def lower_bound_def lower_bound_loop.simps)
qed

context grow_op
begin

lemma attempt_ok:
  assumes "tree_ok h t" "key_count (root t) < MAX_KEYS"
  shows "\<exists>n' st' r. write_descend op key (root t) (arena_of t) = Some (n', st', r) \<and>
     tree_ok h (with_arena t st' n') \<and> (widening (root t) \<longrightarrow> wide n') \<and> at_key key P (ent (root t)) (ent n') r \<and>
     (r = Restart \<longleftrightarrow> stuck key (root t)) \<and> (r = Restart \<longrightarrow> stuck key n')"
proof -
  from write_descend_ok [of h None None "root t" "arena_of t"] assms obtain n' st' r
    where d: "descended h None None (root t) (arena_of t) n' st' r" by (auto simp: tree_ok_def)
  then have "chain_ok (next_id st') (links n')"
    using assms(1) chain_step_ok by (auto simp: descended_def tree_ok_def)
  with d show ?thesis by (auto simp: descended_def tree_ok_def)
qed

end

lemma at_key_map:
  "at_key key P (ent (root t)) (ent (root t')) r \<Longrightarrow>
   P (abs_map t key) (abs_map t' key) r \<and> abs_map t' = (abs_map t)(key := abs_map t' key)"
  by (auto simp: at_key_def abs_map_def)

section \<open>The retry loop as an interface\<close>

text \<open>One turn of the loops of \<open>insert\<close> and \<open>upsert\<close>, with the rest of the loop as a parameter.\<close>

definition retry_body ::
  "(node \<Rightarrow> node \<times> 'a descend) \<Rightarrow> key \<Rightarrow> ('a \<Rightarrow> btree \<Rightarrow> btree) \<Rightarrow>
   (btree \<Rightarrow> ('a \<times> btree) option option) \<Rightarrow> btree \<Rightarrow> ('a \<times> btree) option option" where
  "retry_body op key bump rest t =
     (if MAX_KEYS \<le> key_count (root t) then rest (wrap_root t)
      else case write_descend op key (root t) (arena_of t) of
        None \<Rightarrow> Some None
      | Some (r, st, Done x) \<Rightarrow> Some (Some (x, bump x (with_arena t st r)))
      | Some (r, st, Restart) \<Rightarrow> rest (with_arena t st r))"

locale retry_loop = grow_op key op P for key and op :: "node \<Rightarrow> node \<times> 'a descend" and P +
  fixes loop :: "btree \<Rightarrow> ('a \<times> btree) option option" and bump :: "'a \<Rightarrow> btree \<Rightarrow> btree"
  assumes loop_eq: "loop t = retry_body op key bump loop t"
    and loop_induct: "(\<And>f t y. (\<And>t y. f t = Some y \<Longrightarrow> Q t) \<Longrightarrow> retry_body op key bump f t = Some y \<Longrightarrow> Q t) \<Longrightarrow>
      loop t = Some y \<Longrightarrow> Q t"
begin

lemma returns_small:
  assumes ok: "tree_ok h t" and sz: "key_count (root t) < MAX_KEYS" and free: "\<not> stuck key (root t)"
  shows "\<exists>x t'. loop t = Some (Some (x, bump x t')) \<and> tree_ok h t' \<and> entries t' = entries t \<and>
     (widening (root t) \<longrightarrow> wide (root t')) \<and> at_key key P (ent (root t)) (ent (root t')) (Done x)"
proof -
  from attempt_ok [OF ok sz] free obtain n' st' x where
    d: "write_descend op key (root t) (arena_of t) = Some (n', st', Done x)"
    and t': "tree_ok h (with_arena t st' n')" "widening (root t) \<longrightarrow> wide n'"
      "at_key key P (ent (root t)) (ent n') (Done x)"
    by (metis descend.exhaust)
  from d sz have "loop t = Some (Some (x, bump x (with_arena t st' n')))"
    by (subst loop_eq) (simp add: retry_body_def)
  with t' show ?thesis by (intro exI [of _ x] exI [of _ "with_arena t st' n'"]) simp
qed

lemma returns:
  assumes ok: "tree_ok h t" and free: "\<not> stuck key (root t)"
  shows "\<exists>h' x t'. loop t = Some (Some (x, bump x t')) \<and> tree_ok h' t' \<and> entries t' = entries t \<and>
     (widening (root t) \<longrightarrow> wide (root t')) \<and> at_key key P (ent (root t)) (ent (root t')) (Done x)"
proof (cases "MAX_KEYS \<le> key_count (root t)")
  case False
  with returns_small [OF ok _ free] show ?thesis by (auto simp: not_le)
next
  case True
  note w = wrap_root_ok [OF ok True, of key]
  have "key_count (root (wrap_root t)) < MAX_KEYS" by (simp add: MAX_KEYS_def)
  moreover have "widening (root (wrap_root t))" using True by (simp add: wrap_root_def new_internal_def)
  ultimately have
    "\<exists>x t'. loop (wrap_root t) = Some (Some (x, bump x t')) \<and> tree_ok (Suc h) t' \<and> entries t' = entries t \<and>
      wide (root t') \<and> at_key key P (ent (root (wrap_root t))) (ent (root t')) (Done x)"
    using returns_small [OF conjunct1 [OF w]] w free by auto
  moreover have "loop t = loop (wrap_root t)"
    by (subst loop_eq) (simp add: retry_body_def True)
  moreover have "ent (root (wrap_root t)) = ent (root t)" by (simp add: wrap_root_def new_internal_def)
  ultimately show ?thesis by metis
qed

lemma never_returns:
  assumes "tree_ok h t" "stuck key (root t)"
  shows "loop t = None"
proof -
  have "\<forall>h. tree_ok h t \<longrightarrow> \<not> stuck key (root t)" if "loop t = Some y" for y
  proof (rule loop_induct [OF _ that], intro allI impI notI)
    fix f t y h
    assume IH: "\<And>t (y :: ('a \<times> btree) option). f t = Some y \<Longrightarrow> \<forall>h. tree_ok h t \<longrightarrow> \<not> stuck key (root t)"
      and body: "retry_body op key bump f t = Some y" and ok: "tree_ok h t" and st: "stuck key (root t)"
    show False
    proof (cases "MAX_KEYS \<le> key_count (root t)")
      case True
      with body have "f (wrap_root t) = Some y" by (simp add: retry_body_def)
      with IH wrap_root_ok [OF ok True, of key] st show False by blast
    next
      case False
      with attempt_ok [OF ok] st obtain n' st' where
        "write_descend op key (root t) (arena_of t) = Some (n', st', Restart)"
        and t': "tree_ok h (with_arena t st' n')" "stuck key n'" by (auto simp: not_le)
      with body False have "f (with_arena t st' n') = Some y" by (simp add: retry_body_def)
      with IH t' show False by fastforce
    qed
  qed
  with assms show ?thesis by (cases "loop t") auto
qed

end

interpretation ins: retry_loop key "insert_leaf key v" "insert_effect v" "btree_insert key v" bump_entries for key v
proof (unfold_locales, goal_cases)
  case (1 t)
  show ?case by (subst btree_insert.simps) (simp add: retry_body_def insert_rec_def)
next
  case (2 Q t y)
  have "k = key \<longrightarrow> w = v \<longrightarrow> Q t" if "btree_insert k w t = Some y" for k w t y
  proof (rule btree_insert.raw_induct [OF _ that], intro impI, goal_cases)
    case (1 f k w t y)
    then show "Q t"
      by (intro 2(1) [of "f key v" t y]) (auto simp: retry_body_def insert_rec_def)
  qed
  with 2(2) show ?case by blast
qed

interpretation ups: retry_loop key "upsert_leaf key v" "upsert_effect v" "btree_upsert key v"
  "\<lambda>prev. bump_entries (prev = None)" for key v
proof (unfold_locales, goal_cases)
  case (1 t)
  show ?case by (subst btree_upsert.simps) (simp add: retry_body_def upsert_rec_def)
next
  case (2 Q t y)
  have "k = key \<longrightarrow> w = v \<longrightarrow> Q t" if "btree_upsert k w t = Some y" for k w t y
  proof (rule btree_upsert.raw_induct [OF _ that], intro impI, goal_cases)
    case (1 f k w t y)
    then show "Q t"
      by (intro 2(1) [of "f key v" t y]) (auto simp: retry_body_def upsert_rec_def)
  qed
  with 2(2) show ?case by blast
qed

section \<open>Insertion and replacement\<close>

definition map_insert :: "key \<Rightarrow> val \<Rightarrow> (key \<rightharpoonup> val) \<Rightarrow> (key \<rightharpoonup> val)" where
  "map_insert key v m = (if m key = None then m(key \<mapsto> v) else m)"

lemma bump_entries_ok:
  assumes "tree_ok h t'" "wide (root t')" "entries t' = of_nat (card (dom m))" "finite (dom m)"
    and "abs_map t' = m(key \<mapsto> w)" "b \<longleftrightarrow> m key = None"
  shows "btree_ok (bump_entries b t') \<and> abs_map (bump_entries b t') = abs_map t'"
proof -
  have "abs_map (bump_entries b t') = abs_map t'" "tree_ok h (bump_entries b t')" "wide (root (bump_entries b t'))"
    using assms(1,2) by (auto simp: bump_entries_def abs_map_def tree_ok_def)
  moreover have "entries (bump_entries b t') = of_nat (card (dom (m(key \<mapsto> w))))"
    using assms(3,4,6) by (auto simp: bump_entries_def insert_absorb domI card_insert_if)
  ultimately show ?thesis using assms(5) by (auto intro: btree_okI)
qed

lemma btree_insert_step:
  assumes ok: "btree_ok t" and free: "\<not> stuck key (root t)"
  shows "\<exists>t'. btree_insert key v t = Some (Some (abs_map t key = None, t')) \<and>
             btree_ok t' \<and> abs_map t' = map_insert key v (abs_map t)"
proof -
  from ins.returns [OF _ free, of "height (root t)" v] ok obtain h' b t' where
    l: "btree_insert key v t = Some (Some (b, bump_entries b t'))" and t': "tree_ok h' t'" "wide (root t')"
    and en: "entries t' = of_nat (card (dom (abs_map t)))"
    and e: "at_key key (insert_effect v) (ent (root t)) (ent (root t')) (Done b)"
    by (auto simp: btree_ok_def wide_widening)
  from at_key_map [OF e] have b: "b \<longleftrightarrow> abs_map t key = None"
    and m: "abs_map t' = map_insert key v (abs_map t)"
    by (auto simp: insert_effect_def map_insert_def split: option.splits)
  then have "\<exists>w. abs_map t' = (abs_map t)(key \<mapsto> w)"
    by (cases "abs_map t key") (auto simp: map_insert_def intro!: exI)
  with bump_entries_ok [OF t'(1,2) en finite_abs_map _ b] l b m show ?thesis by auto
qed

lemma btree_upsert_step:
  assumes ok: "btree_ok t" and free: "\<not> stuck key (root t)"
  shows "\<exists>t'. btree_upsert key v t = Some (Some (abs_map t key, t')) \<and>
             btree_ok t' \<and> abs_map t' = (abs_map t)(key \<mapsto> v)"
proof -
  from ups.returns [OF _ free, of "height (root t)" v] ok obtain h' prev t' where
    l: "btree_upsert key v t = Some (Some (prev, bump_entries (prev = None) t'))" and t': "tree_ok h' t'" "wide (root t')"
    and en: "entries t' = of_nat (card (dom (abs_map t)))"
    and e: "at_key key (upsert_effect v) (ent (root t)) (ent (root t')) (Done prev)"
    by (auto simp: btree_ok_def wide_widening)
  from at_key_map [OF e] have p: "prev = abs_map t key" and m: "abs_map t' = (abs_map t)(key \<mapsto> v)"
    by (auto simp: upsert_effect_def)
  from bump_entries_ok [OF t'(1,2) en finite_abs_map m] l p m show ?thesis by auto
qed

section \<open>In-place update\<close>

lemma update_in_place_rec_eq:
  "wf h lo hi n \<Longrightarrow> above lo key \<Longrightarrow> below hi key \<Longrightarrow>
   update_in_place_rec key v n = plain_descend (update_leaf key v) key n"
proof (induction h arbitrary: lo hi n)
  case (Suc h)
  then obtain i ks cs where n: "n = Internal i ks (heads_for ks) cs"
    and kd: "kids (wf h) lo hi ks cs" by (cases n) auto
  from focus_ex [OF kd Suc.prems(2,3)] obtain xs ys as c bs
    where f: "focus h lo hi key ks cs xs ys as c bs" .
  with Suc.IH focus_child [OF f] have "update_in_place_rec key v c = plain_descend (update_leaf key v) key c"
    by blast
  then show ?case using focus_pos [OF f] by (auto simp: n Let_def)
qed (auto elim: wf.elims)

lemma update_leaf_size: "wide (fst (update_leaf key v n)) = wide n \<and> sized (fst (update_leaf key v n)) = sized n \<and> root_sized (fst (update_leaf key v n)) = root_sized n"
  by (cases n) (auto simp: Let_def)

lemma plain_descend_sizes:
  "plain_descend (update_leaf key v) key n = Some (n', r) \<Longrightarrow>
   wide n' = wide n \<and> sized n' = sized n \<and> root_sized n' = root_sized n"
proof (induction "update_leaf key v" key n arbitrary: n' r rule: plain_descend.induct)
  case (1 key i ks hs cs)
  then obtain c where idx: "lower_bound ks hs key < length cs"
    and c: "plain_descend (update_leaf key v) key (cs ! lower_bound ks hs key) = Some (c, r)"
    and n': "n' = Internal i ks hs (cs[lower_bound ks hs key := c])"
    by (auto simp: Let_def split: if_splits option.splits)
  have "sized c = sized (cs ! lower_bound ks hs key)" using 1 idx c by auto
  then have "(\<forall>x \<in> set (cs[lower_bound ks hs key := c]). sized x) = (\<forall>x \<in> set cs. sized x)"
    using idx by (auto simp: all_set_conv_all_nth nth_list_update)
  then show ?case by (simp add: n')
qed (metis fst_conv option.inject plain_descend.simps(2) update_leaf_size)

lemma update_in_place_step:
  assumes ok: "btree_ok t"
  shows "\<exists>t'. update_in_place key v t = Some (abs_map t key, t') \<and> btree_ok t' \<and>
     abs_map t' = (abs_map t)(key := map_option (\<lambda>_. v) (abs_map t key))"
proof -
  let ?h = "height (root t)"
  from ok have w: "wf ?h None None (root t)" by (simp add: btree_ok_def tree_ok_def)
  from upd.plain_descend_ok [OF w, of key v] obtain n' r where
    d: "plain_descend (update_leaf key v) key (root t) = Some (n', r)" and w': "wf ?h None None n'"
    and l: "links n' = links (root t)" and e: "at_key key (update_effect v) (ent (root t)) (ent n') r" by auto
  show ?thesis
  proof (intro exI conjI)
    let ?t' = "t\<lparr>root := n', in_place := (if r \<noteq> None then in_place t + 1 else in_place t)\<rparr>"
    from at_key_map [of key "update_effect v" t ?t' r] e
    have r: "r = abs_map t key" and m: "abs_map ?t' = (abs_map t)(key := map_option (\<lambda>_. v) (abs_map t key))"
      by (auto simp: update_effect_def map_option_case)
    show "update_in_place key v t = Some (abs_map t key, ?t')"
      using d update_in_place_rec_eq [OF w] by (simp add: update_in_place_def r)
    have "dom (abs_map ?t') = dom (abs_map t)"
      unfolding m by (auto simp: dom_def)
    moreover have "tree_ok ?h ?t'"
      using ok w' l plain_descend_sizes [OF d] by (simp add: btree_ok_def tree_ok_def)
    moreover have "wide (root ?t')" using ok plain_descend_sizes [OF d] by (simp add: btree_ok_def)
    moreover have "entries ?t' = entries t" by simp
    ultimately show "btree_ok ?t'" using ok btree_okI [of ?h ?t'] by (simp only: btree_ok_def)
    show "abs_map ?t' = (abs_map t)(key := map_option (\<lambda>_. v) (abs_map t key))" by (rule m)
  qed
qed

end
