(* ===== verification/BTree_Delete.thy ===== *)
theory BTree_Delete
  imports BTree_Ops
begin

text \<open>
  Deletion. Taking a key out of a leaf may leave it one entry short; \<open>slack\<close> describes the trees in
  which at most one node, on the path of the key, is short by one. A rebalancing pass borrows an
  entry from a sibling (which ends the repair) or merges two siblings (which may move the shortage
  to the parent); the repeated passes of \<open>remove\<close> restore the fill bounds.
\<close>

section \<open>Two neighbours and their separator\<close>

definition pair :: "nat \<Rightarrow> key option \<Rightarrow> key option \<Rightarrow> node \<Rightarrow> key \<Rightarrow> node \<Rightarrow> bool" where
  "pair h lo hi a k b \<longleftrightarrow> wf h lo (Some k) a \<and> wf h (Some k) hi b \<and> above lo k \<and> sbelow hi k"

lemma kids_pair:
  "length xs = length as \<Longrightarrow>
   kids P lo hi (xs @ k # ys) (as @ a # b # bs) \<longleftrightarrow>
     segs P lo hi xs as \<and> above (upto_last lo xs) k \<and> sbelow hi k \<and>
     P (upto_last lo xs) (Some k) a \<and> P (Some k) (upb hi ys) b \<and> tailk P (Some k) hi ys bs"
  using kids_append [of xs as P lo hi "k # ys" "a # b # bs"] kids_focus [of "[]" "[]" P "Some k" hi ys b bs]
  by auto

lemma pair_kids:
  assumes "segs (wf h) lo hi xs as" "tailk (wf h) (Some k) hi ys bs"
    "pair h (upto_last lo xs) (upb hi ys) a k' b"
  shows "kids (wf h) lo hi (xs @ k' # ys) (as @ a # b # bs)"
proof -
  have "sbelow (upb hi ys) k'" using assms(3) by (simp add: pair_def)
  then have "sbelow hi k'" "tailk (wf h) (Some k') hi ys bs"
    using assms(2) by (cases ys; cases hi; auto)+
  then show ?thesis
    using assms segs_length [OF assms(1)] by (simp add: kids_pair pair_def)
qed

lemma fused_kids:
  assumes "segs (wf h) lo hi xs as" "tailk (wf h) (Some k) hi ys bs" "above (upto_last lo xs) k"
    "wf h (upto_last lo xs) (upb hi ys) m"
  shows "kids (wf h) lo hi (xs @ ys) (as @ m # bs)"
proof -
  have "tailk (wf h) (upto_last lo xs) hi ys bs" using assms(2,3) by (cases ys) (auto intro: above_trans)
  with assms segs_length [OF assms(1)] show ?thesis by (simp add: kids_focus)
qed

lemma pair_cases:
  assumes "pair h lo hi a k b"
  obtains (leaves) ai ak av an bi bk bv bn where "a = Leaf ai ak (heads_for ak) av an"
      "b = Leaf bi bk (heads_for bk) bv bn"
  | (internals) h' ai ak ac bi bk bc where "h = Suc h'" "a = Internal ai ak (heads_for ak) ac"
      "b = Internal bi bk (heads_for bk) bc" "kids (wf h') lo (Some k) ak ac" "kids (wf h') (Some k) hi bk bc"
proof (cases h)
  case 0
  then have "\<exists>i ks vs nx. a = Leaf i ks (heads_for ks) vs nx" "\<exists>i ks vs nx. b = Leaf i ks (heads_for ks) vs nx"
    using assms by (cases a; cases b; auto simp: pair_def)+
  with leaves show ?thesis by blast
next
  case (Suc h')
  then have "\<exists>i ks cs. a = Internal i ks (heads_for ks) cs \<and> kids (wf h') lo (Some k) ks cs"
    "\<exists>i ks cs. b = Internal i ks (heads_for ks) cs \<and> kids (wf h') (Some k) hi ks cs"
    using assms by (cases a; cases b; auto simp: pair_def)+
  with internals Suc show ?thesis by blast
qed

lemma sized_iff: "sized n \<longleftrightarrow> root_sized n \<and> MIN_KEYS \<le> fullness n"
  by (cases n) auto

section \<open>Merging\<close>

lemma linked_fuse: "linked (A @ (i, x) # (j, nx) # B) \<Longrightarrow> linked (A @ (i, nx) # B)"
proof (induction A)
  case Nil
  then show ?case by (cases B) auto
next
  case (Cons a A)
  then show ?case by (cases a; cases A) auto
qed

lemma chain_step_fuse: "chain_step n [(i, x), (j, nx)] n [(i, nx)]"
  by (auto simp: chain_step_def chain_ok_def dest: linked_fuse)

lemma kids_fuse:
  "kids P lo (Some k) ak ac \<Longrightarrow> kids P (Some k) hi bk bc \<Longrightarrow> above lo k \<Longrightarrow> sbelow hi k \<Longrightarrow>
   kids P lo hi (ak @ k # bk) (ac @ bc)"
proof (induction P lo "Some k" ak ac rule: kids.induct)
  case (2 P lo x ks c cs)
  moreover have "sbelow hi x" using 2 by (cases hi) auto
  ultimately show ?case by auto
qed auto

lemma fuse_ok:
  assumes p: "pair h lo hi a k b"
  shows "\<exists>m. fuse k (key_head k) a b = Some m \<and> wf h lo hi m \<and> ent m = ent a @ ent b \<and>
     chain_step n (links a @ links b) n (links m) \<and> fullness m = fullness a + fullness b \<and>
     (root_sized a \<and> root_sized b \<and> fullness a + fullness b \<le> MAX_KEYS \<longrightarrow> root_sized m)"
  using p
proof (cases rule: pair_cases)
  case (leaves ai ak av an bi bk bv bn)
  with p have srt: "sorted_wrt (<) ak" "sorted_wrt (<) bk" and len: "length av = length ak"
    and bnd: "\<forall>x \<in> set ak. above lo x \<and> x \<le> k" "\<forall>y \<in> set bk. k < y \<and> below hi y"
    by (auto simp: pair_def)
  have "sorted_wrt (<) (ak @ bk)"
    unfolding sorted_wrt_append using srt bnd by (blast intro: le_less_trans)
  moreover have "above lo y" if "y \<in> set bk" for y
    using p bnd that by (auto simp: pair_def intro: above_trans)
  moreover have "below hi x" if "x \<in> set ak" for x
    using p bnd that by (auto simp: pair_def intro: below_trans sbelow_below)
  ultimately show ?thesis using p leaves len bnd
    by (auto simp: pair_def chain_step_fuse)
next
  case (internals h' ai ak ac bi bk bc)
  have "kids (wf h') lo hi (ak @ k # bk) (ac @ bc)"
    using kids_fuse [OF internals(4,5)] p by (simp add: pair_def)
  moreover have "length ac = Suc (length ak)" "length bc = Suc (length bk)"
    using internals(4,5) kids_length by blast+
  ultimately show ?thesis using internals(1-3) by (auto simp: chain_step_refl)
qed

section \<open>Borrowing\<close>

text \<open>What a borrow does to the two neighbours: one entry crosses the separator, which moves.\<close>

definition shifted :: "nat \<Rightarrow> key option \<Rightarrow> key option \<Rightarrow> node \<Rightarrow> node \<Rightarrow> node \<Rightarrow> key \<Rightarrow> node \<Rightarrow> bool" where
  "shifted h lo hi a b a' k' b' \<longleftrightarrow>
     pair h lo hi a' k' b' \<and> ent a' @ ent b' = ent a @ ent b \<and> links a' @ links b' = links a @ links b"

lemma borrow_right_leaf:
  assumes p: "pair h lo hi (Leaf ai ak (heads_for ak) av an) k (Leaf bi (x # y # bk) (heads_for (x # y # bk)) bv bn)"
  shows "shifted h lo hi (Leaf ai ak (heads_for ak) av an) (Leaf bi (x # y # bk) (heads_for (x # y # bk)) bv bn)
     (Leaf ai (ak @ [x]) (heads_for ak @ [key_head x]) (av @ [hd bv]) an) x
     (Leaf bi (y # bk) (heads_for (y # bk)) (tl bv) bn)"
proof -
  from p obtain v bv' where bv: "bv = v # bv'" and len: "length av = length ak"
    by (cases bv) (auto simp: pair_def)
  from p have xk: "k < x" "x < y" "below hi y" and le: "\<forall>z \<in> set ak. z \<le> k" by (auto simp: pair_def)
  have "sbelow hi x" using xk by (cases hi) auto
  moreover have "\<forall>z \<in> set ak. z < x" using le xk by (auto intro: le_less_trans)
  ultimately show ?thesis
    using p len by (auto simp: shifted_def pair_def bv sorted_wrt_append intro: above_trans less_imp_le)
qed

lemma snoc2_cases:
  assumes "1 < length xs"
  obtains zs y x where "xs = zs @ [y, x]"
proof -
  from assms obtain zs x where "xs = zs @ [x]" by (cases xs rule: rev_cases) auto
  moreover with assms obtain ws y where "zs = ws @ [y]" by (cases zs rule: rev_cases) auto
  ultimately show ?thesis using that by simp
qed

lemma borrow_left_leaf:
  assumes p: "pair h lo hi (Leaf ai (ak @ [y, x]) (heads_for (ak @ [y, x])) av an) k (Leaf bi bk (heads_for bk) bv bn)"
  shows "shifted h lo hi (Leaf ai (ak @ [y, x]) (heads_for (ak @ [y, x])) av an) (Leaf bi bk (heads_for bk) bv bn)
     (Leaf ai (ak @ [y]) (heads_for (ak @ [y])) (butlast av) an) y
     (Leaf bi (x # bk) (key_head x # heads_for bk) (last av # bv) bn)"
proof -
  from p have len: "length av = Suc (Suc (length ak))" by (auto simp: pair_def)
  then have "1 < length av" by simp
  then obtain us u w where av: "av = us @ [u, w]" by (rule snoc2_cases)
  from p have srt: "sorted_wrt (<) (ak @ [y, x])" and xk: "x \<le> k" and gt: "\<forall>z \<in> set bk. k < z"
    by (auto simp: pair_def)
  have "sbelow hi y" "below hi x" using p srt xk by (cases hi; auto simp: pair_def sorted_wrt_append)+
  moreover have "\<forall>z \<in> set bk. x < z \<and> y < z" using gt xk srt by (fastforce simp: sorted_wrt_append)
  ultimately show ?thesis
    using p len srt by (auto simp: shifted_def pair_def av sorted_wrt_append butlast_append less_imp_le)
qed

lemma kids_snoc:
  "length as = length xs \<Longrightarrow>
   kids P lo hi (xs @ [k]) (as @ [c, d]) \<longleftrightarrow>
     segs P lo hi xs as \<and> above (upto_last lo xs) k \<and> sbelow hi k \<and> P (upto_last lo xs) (Some k) c \<and> P (Some k) hi d"
  using kids_pair [of xs as P lo hi k "[]" c d "[]"] by auto

lemma segs_kids_snoc:
  "segs P lo hi xs as \<Longrightarrow> P (upto_last lo xs) hi c \<Longrightarrow> kids P lo hi xs (as @ [c])"
  using kids_focus [of xs as P lo hi "[]" c "[]"] segs_length by force

lemma segs_sbelow_last: "segs P lo hi xs as \<Longrightarrow> above (upto_last lo xs) k \<Longrightarrow> segs P lo (Some k) xs as"
  by (rule segs_rebound) (auto intro: segs_upper)

lemma borrow_right_internal:
  assumes ka: "kids P lo (Some k) ak ac" and kb: "kids P (Some k) hi (x # bk) (c # bc)"
    and k: "above lo k" "sbelow hi k"
  shows "kids P lo (Some x) (ak @ [k]) (ac @ [c])" "kids P (Some x) hi bk bc" "above lo x" "sbelow hi x"
proof -
  from kb have x: "k < x" "sbelow hi x" "P (Some k) (Some x) c" and kt: "kids P (Some x) hi bk bc" by auto
  show "kids P lo (Some x) (ak @ [k]) (ac @ [c])"
    using kids_fuse [OF ka, of "Some x" "[]" "[c]"] x k by simp
  show "kids P (Some x) hi bk bc" "sbelow hi x" by (fact kt, fact x)
  show "above lo x" using k x by (blast intro: above_trans)
qed

lemma borrow_left_internal:
  assumes ka: "kids P lo (Some k) (ak @ [x]) (ac @ [c])" and kb: "kids P (Some k) hi bk bc"
    and k: "sbelow hi k"
  shows "kids P lo (Some x) ak ac" "kids P (Some x) hi (k # bk) (c # bc)" "above lo x" "sbelow hi x"
proof -
  from kids_length [OF ka] have "length ac = Suc (length ak)" by simp
  then obtain as a where ac: "ac = as @ [a]" and la: "length as = length ak" by (cases ac rule: rev_cases) auto
  from ka have sg: "segs P lo (Some k) ak as" and ab: "above (upto_last lo ak) x" "x < k"
    and pa: "P (upto_last lo ak) (Some x) a" and pc: "P (Some x) (Some k) c"
    by (simp_all add: ac kids_snoc la)
  show "kids P lo (Some x) ak ac"
    using segs_kids_snoc [OF segs_sbelow_last [OF sg ab(1)] pa] by (simp add: ac)
  show "kids P (Some x) hi (k # bk) (c # bc)" using ab k pc kb by simp
  show "above lo x" using kids_seps [OF ka] by simp
  show "sbelow hi x" using ab k by (cases hi) auto
qed

text \<open>The borrow succeeds on neighbours in order when the sibling has an entry to spare.\<close>

lemma borrow_right_ok:
  assumes p: "pair h lo hi a k b" and full: "MIN_KEYS < fullness b"
  shows "\<exists>a' k' b'. borrow True (length xs) (xs @ k # ys) (heads_for (xs @ k # ys)) a b =
       Some (xs @ k' # ys, heads_for (xs @ k' # ys), a', b') \<and> shifted h lo hi a b a' k' b' \<and>
     fullness a' = Suc (fullness a) \<and> Suc (fullness b') = fullness b \<and>
     (root_sized a \<and> fullness a < MIN_KEYS \<and> root_sized b \<longrightarrow> root_sized a' \<and> root_sized b')"
  using p
proof (cases rule: pair_cases)
  case (leaves ai ak av an bi bk bv bn)
  then have "1 < length bk" using full by (simp add: MIN_KEYS_def MAX_KEYS_def)
  then obtain x y bk' where bk: "bk = x # y # bk'" by (cases bk; cases "tl bk") auto
  have "bv \<noteq> []" using p leaves bk by (auto simp: pair_def)
  then have e: "borrow True (length xs) (xs @ k # ys) (heads_for (xs @ k # ys)) a b =
    Some (xs @ x # ys, heads_for (xs @ x # ys), Leaf ai (ak @ [x]) (heads_for ak @ [key_head x]) (av @ [hd bv]) an,
      Leaf bi (y # bk') (heads_for (y # bk')) (tl bv) bn)"
    by (simp add: leaves bk list_update_append)
  note sh = borrow_right_leaf [OF p [unfolded leaves bk], folded bk, folded leaves]
  show ?thesis
    by (rule exI, rule exI, rule exI, rule conjI, rule e, rule conjI, rule sh)
      (auto simp: leaves bk MIN_KEYS_def)
next
  case (internals h' ai ak ac bi bk bc)
  have len: "length ac = Suc (length ak)" "length bc = Suc (length bk)"
    using internals(4,5) kids_length by blast+
  have "64 < length bc" using full internals by (simp add: MIN_KEYS_def MAX_KEYS_def)
  with len obtain x bk' c bc' where bk: "bk = x # bk'" and bc: "bc = c # bc'" by (cases bk; cases bc) auto
  have k: "above lo k" "sbelow hi k" using p by (simp_all add: pair_def)
  note b = borrow_right_internal [OF internals(4) internals(5) [unfolded bk bc] k]
  have e: "borrow True (length xs) (xs @ k # ys) (heads_for (xs @ k # ys)) a b =
    Some (xs @ x # ys, heads_for (xs @ x # ys), Internal ai (ak @ [k]) (heads_for ak @ [key_head k]) (ac @ [c]),
      Internal bi bk' (heads_for bk') bc')"
    by (simp add: internals bk bc list_update_append nth_append)
  have sh: "shifted h lo hi a b (Internal ai (ak @ [k]) (heads_for ak @ [key_head k]) (ac @ [c])) x
      (Internal bi bk' (heads_for bk') bc')"
    using b by (simp add: shifted_def pair_def internals(1-3) bc)
  show ?thesis
    by (rule exI, rule exI, rule exI, rule conjI, rule e, rule conjI, rule sh)
      (use len in \<open>auto simp: internals(2,3) bk bc MIN_KEYS_def\<close>)
qed

lemma borrow_left_ok:
  assumes p: "pair h lo hi a k b" and full: "MIN_KEYS < fullness a"
  shows "\<exists>a' k' b'. borrow False (length xs) (xs @ k # ys) (heads_for (xs @ k # ys)) b a =
       Some (xs @ k' # ys, heads_for (xs @ k' # ys), b', a') \<and> shifted h lo hi a b a' k' b' \<and>
     fullness b' = Suc (fullness b) \<and> Suc (fullness a') = fullness a \<and>
     (root_sized b \<and> fullness b < MIN_KEYS \<and> root_sized a \<longrightarrow> root_sized b' \<and> root_sized a')"
  using p
proof (cases rule: pair_cases)
  case (leaves ai ak av an bi bk bv bn)
  then have "1 < length ak" using full by (simp add: MIN_KEYS_def MAX_KEYS_def)
  then obtain ak' y x where ak: "ak = ak' @ [y, x]" by (rule snoc2_cases)
  have "av \<noteq> []" using p leaves ak by (auto simp: pair_def)
  then have e: "borrow False (length xs) (xs @ k # ys) (heads_for (xs @ k # ys)) b a =
    Some (xs @ y # ys, heads_for (xs @ y # ys), Leaf bi (x # bk) (key_head x # heads_for bk) (last av # bv) bn,
      Leaf ai (ak' @ [y]) (heads_for (ak' @ [y])) (butlast av) an)"
    by (simp add: leaves ak list_update_append butlast_append)
  note sh = borrow_left_leaf [OF p [unfolded leaves ak], folded ak, folded leaves]
  show ?thesis
    by (rule exI, rule exI, rule exI, rule conjI, rule e, rule conjI, rule sh)
      (auto simp: leaves ak MIN_KEYS_def)
next
  case (internals h' ai ak ac bi bk bc)
  have len: "length ac = Suc (length ak)" "length bc = Suc (length bk)"
    using internals(4,5) kids_length by blast+
  have "64 < length ac" using full internals by (simp add: MIN_KEYS_def MAX_KEYS_def)
  with len obtain x ak' c ac' where ak: "ak = ak' @ [x]" and ac: "ac = ac' @ [c]"
    by (cases ak rule: rev_cases; cases ac rule: rev_cases) auto
  have k: "sbelow hi k" using p by (simp_all add: pair_def)
  note b = borrow_left_internal [OF internals(4) [unfolded ak ac] internals(5) k]
  have e: "borrow False (length xs) (xs @ k # ys) (heads_for (xs @ k # ys)) b a =
    Some (xs @ x # ys, heads_for (xs @ x # ys), Internal bi (k # bk) (key_head k # heads_for bk) (c # bc),
      Internal ai ak' (heads_for ak') ac')"
    by (simp add: internals ak ac list_update_append nth_append)
  have sh: "shifted h lo hi a b (Internal ai ak' (heads_for ak') ac') x
      (Internal bi (k # bk) (key_head k # heads_for bk) (c # bc))"
    using b by (simp add: shifted_def pair_def internals(1-3) ac)
  show ?thesis
    by (rule exI, rule exI, rule exI, rule conjI, rule e, rule conjI, rule sh)
      (use len in \<open>auto simp: internals(2,3) ak ac MIN_KEYS_def\<close>)
qed

section \<open>Repairing one child\<close>

text \<open>The state of a parent after the repair of one of its children; \<open>b\<close> says that two were merged.\<close>

definition repaired ::
  "nat \<Rightarrow> key option \<Rightarrow> key option \<Rightarrow> key list \<Rightarrow> node list \<Rightarrow> arena \<Rightarrow>
   key list \<Rightarrow> node list \<Rightarrow> arena \<Rightarrow> bool \<Rightarrow> bool" where
  "repaired h lo hi ks cs st ks' cs' st' b \<longleftrightarrow>
     kids (wf h) lo hi ks' cs' \<and> concat (map ent cs') = concat (map ent cs) \<and>
     chain_step (next_id st) (concat (map links cs)) (next_id st') (concat (map links cs')) \<and>
     (\<forall>x \<in> set cs'. sized x) \<and> length ks' \<le> length ks \<and>
     length cs = (if b then Suc (length cs') else length cs')"

lemma shifted_repaired:
  assumes sg: "segs (wf h) lo hi xs as" and tk: "tailk (wf h) (Some k) hi ys bs"
    and s: "shifted h (upto_last lo xs) (upb hi ys) a b a' k' b'"
    and sz: "\<forall>x \<in> set as \<union> set bs. sized x" "sized a'" "sized b'"
  shows "repaired h lo hi (xs @ k # ys) (as @ a # b # bs) st (xs @ k' # ys) (as @ a' # b' # bs) st False"
proof -
  have e: "ent a' @ ent b' = ent a @ ent b" and l: "links a' @ links b' = links a @ links b"
    using s by (simp_all add: shifted_def)
  have "concat (map ent (as @ a' # b' # bs)) = concat (map ent (as @ a # b # bs))"
    using arg_cong [OF e, of "\<lambda>z. concat (map ent as) @ z @ concat (map ent bs)"] by simp
  moreover have "concat (map links (as @ a' # b' # bs)) = concat (map links (as @ a # b # bs))"
    using arg_cong [OF l, of "\<lambda>z. concat (map links as) @ z @ concat (map links bs)"] by simp
  moreover have "kids (wf h) lo hi (xs @ k' # ys) (as @ a' # b' # bs)"
    using pair_kids [OF sg tk] s by (simp add: shifted_def)
  ultimately show ?thesis using sz unfolding repaired_def
    by (simp add: chain_step_refl ball_Un del: map_append concat_append)
qed

lemma merge_ok:
  assumes sg: "segs (wf h) lo hi xs as" and tk: "tailk (wf h) (Some k) hi ys bs"
    and p: "pair h (upto_last lo xs) (upb hi ys) a k b"
    and sz: "\<forall>x \<in> set as \<union> set bs. sized x" "root_sized a" "root_sized b"
      "MIN_KEYS \<le> fullness a + fullness b" "fullness a + fullness b \<le> MAX_KEYS"
  shows "\<exists>ks' cs' st'. merge (length xs) (xs @ k # ys) (heads_for (xs @ k # ys)) (as @ a # b # bs) st =
       Some (ks', heads_for ks', cs', st') \<and>
     repaired h lo hi (xs @ k # ys) (as @ a # b # bs) st ks' cs' st' True"
proof -
  from fuse_ok [OF p, of "next_id st"] obtain m where f: "fuse k (key_head k) a b = Some m"
    and w: "wf h (upto_last lo xs) (upb hi ys) m" and e: "ent m = ent a @ ent b"
    and c: "chain_step (next_id st) (links a @ links b) (next_id st) (links m)"
    and fu: "fullness m = fullness a + fullness b"
    and r: "root_sized a \<and> root_sized b \<and> fullness a + fullness b \<le> MAX_KEYS \<longrightarrow> root_sized m"
    by blast
  have la: "length as = length xs" using segs_length [OF sg] .
  have rm: "remove_at (Suc (length xs)) (as @ m # b # bs) = as @ m # bs"
    using remove_at_append [of "Suc (length xs)" "as @ [m]" b bs] la by simp
  let ?st = "(bump_splits st)\<lparr>merges := merges st + 1\<rparr>"
  have "merge (length xs) (xs @ k # ys) (heads_for (xs @ k # ys)) (as @ a # b # bs) st =
      Some (xs @ ys, heads_for (xs @ ys), as @ m # bs, ?st)"
    using la f rm by (simp add: merge_def nth_append list_update_append)
  moreover have "chain_step (next_id st) (concat (map links (as @ a # b # bs))) (next_id ?st)
      (concat (map links (as @ m # bs)))"
    using chain_step_frame [OF c, of "concat (map links as)" "concat (map links bs)"]
    by (simp add: bump_splits_def)
  moreover have "kids (wf h) lo hi (xs @ ys) (as @ m # bs)"
    using fused_kids [OF sg tk _ w] p by (simp add: pair_def)
  moreover have "sized m" using r sz fu by (simp add: sized_iff)
  ultimately have "repaired h lo hi (xs @ k # ys) (as @ a # b # bs) st (xs @ ys) (as @ m # bs) ?st True"
    using sz(1) e unfolding repaired_def by auto
  with \<open>merge _ _ _ _ _ = _\<close> show ?thesis by blast
qed

lemma fix_child_right:
  assumes sg: "segs (wf h) lo hi xs as" and tk: "tailk (wf h) (Some k) hi ys bs"
    and p: "pair h (upto_last lo xs) (upb hi ys) c k s"
    and sz: "\<forall>x \<in> set as \<union> set bs. sized x" "root_sized c" "sized s" "Suc (fullness c) = MIN_KEYS"
  shows "\<exists>ks' cs' st' b. fix_child (xs @ k # ys) (heads_for (xs @ k # ys)) (as @ c # s # bs) (length xs) st =
       Some (ks', heads_for ks', cs', st', b) \<and>
     repaired h lo hi (xs @ k # ys) (as @ c # s # bs) st ks' cs' st' b"
proof (cases "MIN_KEYS < fullness s")
  case True
  from borrow_right_ok [OF p True, of xs ys] obtain a' k' b' where
    bo: "borrow True (length xs) (xs @ k # ys) (heads_for (xs @ k # ys)) c s =
      Some (xs @ k' # ys, heads_for (xs @ k' # ys), a', b')"
    and sh: "shifted h (upto_last lo xs) (upb hi ys) c s a' k' b'"
    and fu: "fullness a' = Suc (fullness c)" "Suc (fullness b') = fullness s"
    and ro: "root_sized c \<and> fullness c < MIN_KEYS \<and> root_sized s \<longrightarrow> root_sized a' \<and> root_sized b'"
    by blast
  have "sized a'" "sized b'" using ro fu sz True by (auto simp: sized_iff)
  from shifted_repaired [OF sg tk sh sz(1) this, of st] bo True segs_length [OF sg] show ?thesis
    by (auto simp: fix_child_def Let_def nth_append list_update_append simp del: heads_for_simps)
next
  case False
  from merge_ok [OF sg tk p, of st] sz False obtain ks' cs' st' where
    "merge (length xs) (xs @ k # ys) (heads_for (xs @ k # ys)) (as @ c # s # bs) st = Some (ks', heads_for ks', cs', st')"
    "repaired h lo hi (xs @ k # ys) (as @ c # s # bs) st ks' cs' st' True"
    by (auto simp: sized_iff MIN_KEYS_def MAX_KEYS_def)
  with False segs_length [OF sg] show ?thesis
    by (auto simp: fix_child_def Let_def nth_append simp del: heads_for_simps)
qed

lemma fix_child_left:
  assumes sg: "segs (wf h) lo hi xs as" and p: "pair h (upto_last lo xs) hi s k c"
    and sz: "\<forall>x \<in> set as. sized x" "root_sized c" "sized s" "Suc (fullness c) = MIN_KEYS"
  shows "\<exists>ks' cs' st' b. fix_child (xs @ [k]) (heads_for (xs @ [k])) (as @ [s, c]) (Suc (length xs)) st =
       Some (ks', heads_for ks', cs', st', b) \<and>
     repaired h lo hi (xs @ [k]) (as @ [s, c]) st ks' cs' st' b"
proof (cases "MIN_KEYS < fullness s")
  case True
  have tk: "tailk (wf h) (Some k) hi [] []" and p': "pair h (upto_last lo xs) (upb hi []) s k c"
    using p by simp_all
  from borrow_left_ok [OF p True, of xs "[]"] obtain a' k' b' where
    bo: "borrow False (length xs) (xs @ [k]) (heads_for (xs @ [k])) c s =
      Some (xs @ [k'], heads_for (xs @ [k']), b', a')"
    and sh: "shifted h (upto_last lo xs) hi s c a' k' b'"
    and fu: "fullness b' = Suc (fullness c)" "Suc (fullness a') = fullness s"
    and ro: "root_sized c \<and> fullness c < MIN_KEYS \<and> root_sized s \<longrightarrow> root_sized b' \<and> root_sized a'"
    by blast
  have sz': "sized a'" "sized b'" using ro fu sz True by (auto simp: sized_iff)
  have "repaired h lo hi (xs @ [k]) (as @ [s, c]) st (xs @ [k']) (as @ [a', b']) st False"
    by (rule shifted_repaired [OF sg tk]) (use sh sz' sz in auto)
  with bo True segs_length [OF sg] show ?thesis
    by (auto simp: fix_child_def Let_def nth_append list_update_append simp del: heads_for_simps)
next
  case False
  have tk: "tailk (wf h) (Some k) hi [] []" and p': "pair h (upto_last lo xs) (upb hi []) s k c"
    using p by simp_all
  from merge_ok [OF sg tk p', of st] sz False obtain ks' cs' st' where
    "merge (length xs) (xs @ [k]) (heads_for (xs @ [k])) (as @ [s, c]) st = Some (ks', heads_for ks', cs', st')"
    "repaired h lo hi (xs @ [k]) (as @ [s, c]) st ks' cs' st' True"
    by (auto simp: sized_iff MIN_KEYS_def MAX_KEYS_def)
  with False segs_length [OF sg] show ?thesis
    by (auto simp: fix_child_def Let_def nth_append simp del: heads_for_simps)
qed

lemma fix_child_ok:
  assumes f: "focus h lo hi key ks cs xs ys as c bs" and len: "1 < length cs"
    and sz: "\<forall>x \<in> set as \<union> set bs. sized x" "root_sized c" "Suc (fullness c) = MIN_KEYS"
    and ord: "kids (wf h) lo hi ks cs"
  shows "\<exists>ks' cs' st' b. fix_child ks (heads_for ks) cs (length xs) st =
       Some (ks', heads_for ks', cs', st', b) \<and> repaired h lo hi ks cs st ks' cs' st' b"
proof (cases bs)
  case (Cons s bs')
  with kids_length [OF ord] f obtain k ys' where ys: "ys = k # ys'" by (cases ys) (auto simp: focus_def)
  have la: "length xs = length as" and ks: "ks = xs @ k # ys'" and cs: "cs = as @ c # s # bs'"
    using f Cons ys by (simp_all add: focus_def)
  from ord have "segs (wf h) lo hi xs as" "tailk (wf h) (Some k) hi ys' bs'"
    "pair h (upto_last lo xs) (upb hi ys') c k s"
    unfolding ks cs kids_pair [OF la] pair_def by (auto, cases ys', auto)
  from fix_child_right [OF this] sz Cons show ?thesis unfolding ks cs by simp
next
  case Nil
  with kids_length [OF ord] f have ys: "ys = []" by (simp add: focus_def)
  from len f Nil obtain as' s where as: "as = as' @ [s]" by (cases as rule: rev_cases) (auto simp: focus_def)
  with f obtain xs' k where xs: "xs = xs' @ [k]" by (cases xs rule: rev_cases) (auto simp: focus_def)
  have la: "length xs' = length as'" and ks: "ks = xs' @ [k]" and cs: "cs = as' @ [s, c]"
    using f Nil ys xs as by (simp_all add: focus_def)
  from ord have "segs (wf h) lo hi xs' as'" "pair h (upto_last lo xs') hi s k c"
    unfolding ks cs kids_pair [OF la] pair_def by auto
  from fix_child_left [OF this] sz as xs show ?thesis unfolding ks cs by simp
qed

section \<open>Trees with one short node on the path of a key\<close>

function (sequential) rslack :: "key \<Rightarrow> node \<Rightarrow> bool" where
  "rslack key (Internal i ks hs cs) =
     (let idx = lower_bound ks hs key in
      length ks \<le> MAX_KEYS \<and> (\<forall>x \<in> set (take idx cs) \<union> set (drop (Suc idx) cs). sized x) \<and>
      (if length cs \<le> idx then False
       else root_sized (cs ! idx) \<and> MIN_KEYS \<le> Suc (fullness (cs ! idx)) \<or>
            rslack key (cs ! idx) \<and> MIN_KEYS \<le> fullness (cs ! idx)))"
| "rslack key (Leaf i ks hs vs nx) = (length ks \<le> MAX_KEYS)"
  by pat_completeness auto
termination
  by (relation "measure (\<lambda>(_, n). height n)") (auto simp: height_child simp del: height.simps)

definition slack :: "key \<Rightarrow> node \<Rightarrow> bool" where
  "slack key n \<longleftrightarrow> root_sized n \<and> MIN_KEYS \<le> Suc (fullness n) \<or> rslack key n \<and> MIN_KEYS \<le> fullness n"

lemma rslack_focus:
  assumes f: "focus h lo hi key ks cs xs ys as c bs"
  shows "rslack key (Internal i ks (heads_for ks) (as @ c' # bs)) \<longleftrightarrow>
     length ks \<le> MAX_KEYS \<and> (\<forall>x \<in> set as \<union> set bs. sized x) \<and> slack key c'"
  using focus_pos(1) [OF f] f by (auto simp: Let_def focus_def nth_append slack_def)

lemma root_sized_rslack:
  assumes w: "wf h lo hi n" and k: "above lo key" "below hi key" and r: "root_sized n"
  shows "rslack key n"
proof (cases n)
  case (Internal i ks hs cs)
  with w obtain h' where hs: "hs = heads_for ks" and kd: "kids (wf h') lo hi ks cs"
    by (auto elim: wf_Internal_E)
  from focus_ex [OF kd k] obtain xs ys as c bs where f: "focus h' lo hi key ks cs xs ys as c bs" .
  have "cs = as @ c # bs" using f by (simp add: focus_def)
  with rslack_focus [OF f, of i c] r hs Internal show ?thesis
    by (auto simp: slack_def sized_iff simp del: rslack.simps)
qed (use r in simp)

section \<open>A rebalancing pass\<close>

definition passed ::
  "nat \<Rightarrow> key option \<Rightarrow> key option \<Rightarrow> key \<Rightarrow> node \<Rightarrow> arena \<Rightarrow> node \<Rightarrow> arena \<Rightarrow> bool \<Rightarrow> bool" where
  "passed h lo hi key n st n' st' b \<longleftrightarrow>
     fix_pass key n st = Some (n', st', b) \<and> wf h lo hi n' \<and> ent n' = ent n \<and>
     chain_step (next_id st) (links n) (next_id st') (links n') \<and>
     (if b then root_sized n' \<and> fullness n \<le> Suc (fullness n') \<or> rslack key n' \<and> fullness n' = fullness n
      else root_sized n' \<and> fullness n' = fullness n)"

lemma passed_here:
  assumes w: "wf (Suc h) lo hi (Internal i ks (heads_for ks) cs)"
    and f: "focus h lo hi key ks cs xs ys as c bs" and len: "1 < length cs" and u: "underflowed c"
    and s: "rslack key (Internal i ks (heads_for ks) cs)"
  shows "\<exists>n' st' b. passed (Suc h) lo hi key (Internal i ks (heads_for ks) cs) st n' st' b"
proof -
  note p = focus_pos [OF f]
  have cs: "cs = as @ c # bs" using f by (simp add: focus_def)
  from s have sz: "\<forall>x \<in> set as \<union> set bs. sized x" "root_sized c" "Suc (fullness c) = MIN_KEYS"
    and mx: "length ks \<le> MAX_KEYS"
    using u rslack_focus [OF f, of i c] by (auto simp: cs slack_def underflowed_def simp del: rslack.simps)
  have kd: "kids (wf h) lo hi ks cs" using w by simp
  from fix_child_ok [OF f len sz kd, of st] obtain ks' cs' st' b where
    fc: "fix_child ks (heads_for ks) cs (length xs) st = Some (ks', heads_for ks', cs', st', b)"
    and rp: "repaired h lo hi ks cs st ks' cs' st' b" by blast
  have "min (lower_bound ks (heads_for ks) key) (length cs - 1) = length xs" using p by auto
  then have "fix_pass key (Internal i ks (heads_for ks) cs) st = Some (Internal i ks' (heads_for ks') cs', st', b)"
    using len p u fc by (simp add: Let_def)
  then show ?thesis
    using rp mx unfolding passed_def repaired_def by (intro exI conjI) auto
qed

lemma passed_below:
  assumes w: "wf (Suc h) lo hi (Internal i ks (heads_for ks) cs)"
    and f: "focus h lo hi key ks cs xs ys as c bs" and len: "1 < length cs"
    and u: "\<not> underflowed c" "\<not> is_leaf c"
    and s: "rslack key (Internal i ks (heads_for ks) cs)"
    and c': "passed h (upto_last lo xs) (upb hi ys) key c st c' st' b"
  shows "passed (Suc h) lo hi key (Internal i ks (heads_for ks) cs) st
           (Internal i ks (heads_for ks) (as @ c' # bs)) st' b"
proof -
  note p = focus_pos [OF f]
  have cs: "cs = as @ c # bs" using f by (simp add: focus_def)
  from s have sz: "\<forall>x \<in> set as \<union> set bs. sized x" and mx: "length ks \<le> MAX_KEYS"
    using rslack_focus [OF f, of i c] by (auto simp: cs simp del: rslack.simps)
  have "min (lower_bound ks (heads_for ks) key) (length cs - 1) = length xs" using p by auto
  then have "fix_pass key (Internal i ks (heads_for ks) cs) st =
      Some (Internal i ks (heads_for ks) (as @ c' # bs), st', b)"
    using len p u c' by (simp add: Let_def passed_def)
  moreover have "chain_step (next_id st) (concat (map links cs)) (next_id st') (concat (map links (as @ c' # bs)))"
    using chain_step_frame [of "next_id st" "links c" "next_id st'" "links c'"
        "concat (map links as)" "concat (map links bs)"] c'
    by (simp add: passed_def cs)
  moreover have "root_sized (Internal i ks (heads_for ks) (as @ c' # bs))" if "\<not> b"
    using that c' u sz mx by (auto simp: passed_def sized_iff underflowed_def)
  moreover have "rslack key (Internal i ks (heads_for ks) (as @ c' # bs))" if b
    using that c' u sz mx unfolding rslack_focus [OF f] by (auto simp: passed_def slack_def underflowed_def)
  moreover have "kids (wf h) lo hi ks (as @ c' # bs)" using focus_kids [OF f] c' by (simp add: passed_def)
  ultimately show ?thesis using c' unfolding passed_def
    by (simp add: cs del: fix_pass.simps rslack.simps)
qed

lemma fix_pass_ok:
  "wf h lo hi n \<Longrightarrow> above lo key \<Longrightarrow> below hi key \<Longrightarrow> rslack key n \<Longrightarrow>
   \<not> is_leaf n \<longrightarrow> 1 < fullness n \<Longrightarrow> \<exists>n' st' b. passed h lo hi key n st n' st' b"
proof (induction h arbitrary: lo hi n)
  case 0
  then show ?case by (cases n) (auto simp: passed_def chain_step_refl)
next
  case (Suc h)
  then obtain i ks cs where n: "n = Internal i ks (heads_for ks) cs"
    and kd: "kids (wf h) lo hi ks cs" by (cases n) auto
  from focus_ex [OF kd Suc.prems(2,3)] obtain xs ys as c bs
    where f: "focus h lo hi key ks cs xs ys as c bs" .
  have len: "1 < length cs" using Suc.prems(5) n by simp
  note w = Suc.prems(1) [unfolded n] and s = Suc.prems(4) [unfolded n]
  note p = focus_pos [OF f]
  have cs: "cs = as @ c # bs" using f by (simp add: focus_def)
  have sl: "slack key c" "\<forall>x \<in> set as \<union> set bs. sized x" "length ks \<le> MAX_KEYS"
    using s rslack_focus [OF f, of i c] cs by (auto simp del: rslack.simps)
  show ?case
  proof (cases "underflowed c")
    case True
    from passed_here [OF w f len True s, of st] show ?thesis by (simp only: n)
  next
    case nu: False
    then have fu: "MIN_KEYS \<le> fullness c" by (simp add: underflowed_def)
    show ?thesis
    proof (cases "is_leaf c")
      case True
      then have "sized c" using sl fu by (cases c) (auto simp: slack_def sized_iff)
      then have "root_sized n" using sl by (auto simp: n cs)
      moreover have "min (lower_bound ks (heads_for ks) key) (length cs - 1) = length xs" using p by auto
      then have "fix_pass key n st = Some (n, st, False)" using len p nu True by (simp add: n Let_def)
      ultimately have "passed (Suc h) lo hi key n st n st False"
        using Suc.prems(1) by (simp add: passed_def chain_step_refl del: fix_pass.simps)
      then show ?thesis by blast
    next
      case False
      have wc: "wf h (upto_last lo xs) (upb hi ys) c" "above (upto_last lo xs) key" "below (upb hi ys) key"
        using focus_child [OF f] by blast+
      have "rslack key c" using sl(1) root_sized_rslack [OF wc] by (auto simp: slack_def)
      moreover have "1 < fullness c" using fu by (simp add: MIN_KEYS_def MAX_KEYS_def)
      ultimately obtain c' st' b where c': "passed h (upto_last lo xs) (upb hi ys) key c st c' st' b"
        using Suc.IH [OF wc] by blast
      from passed_below [OF w f len nu False s c'] show ?thesis by (auto simp only: n)
    qed
  qed
qed

section \<open>The repeated passes and the collapse of the root\<close>

lemma wide_same: "fullness n' = fullness n \<Longrightarrow> wide n \<Longrightarrow> is_leaf n' \<or> \<not> is_leaf n \<Longrightarrow> wide n'"
  by (cases n; cases n') auto

lemma fix_loop_ok:
  "wf h None None n \<Longrightarrow> rslack key n \<and> wide n \<or> root_sized n \<Longrightarrow>
   \<exists>n' st'. fix_loop key n st = Some (n', st') \<and> wf h None None n' \<and> root_sized n' \<and> ent n' = ent n \<and>
     chain_step (next_id st) (links n) (next_id st') (links n')"
proof (induction "node_count n" arbitrary: n st rule: less_induct)
  case less
  show ?case
  proof (cases "wide n")
    case False
    then have "fix_pass key n st = Some (n, st, False)" by (cases n) auto
    with less.prems False show ?thesis by (subst fix_loop.simps) (simp add: chain_step_refl)
  next
    case True
    have "rslack key n" using less.prems root_sized_rslack [of h None None n key] by auto
    moreover have "\<not> is_leaf n \<longrightarrow> 1 < fullness n" using True by (cases n) auto
    ultimately obtain n' st' b where pd: "passed h None None key n st n' st' b"
      using fix_pass_ok [OF less.prems(1)] by fastforce
    then have fp: "fix_pass key n st = Some (n', st', b)" by (simp add: passed_def)
    show ?thesis
    proof (cases b)
      case False
      with pd fp show ?thesis by (subst fix_loop.simps) (simp add: passed_def)
    next
      case b: True
      with fp have nc: "node_count n' < node_count n" by (simp add: fix_pass_node_count)
      have "\<not> is_leaf n" using fp b by (cases n) auto
      then have "rslack key n' \<and> wide n' \<or> root_sized n'"
        using pd b wide_same [OF _ True, of n'] by (auto simp: passed_def)
      from less.hyps [OF nc _ this, of st'] pd obtain n'' st'' where
        n'': "fix_loop key n' st' = Some (n'', st'')" "wf h None None n''" "root_sized n''" "ent n'' = ent n'"
        "chain_step (next_id st') (links n') (next_id st'') (links n'')"
        by (auto simp: passed_def)
      have "fix_loop key n st = Some (n'', st'')" using fp b n''(1) by (subst fix_loop.simps) simp
      moreover have "ent n'' = ent n" "chain_step (next_id st) (links n) (next_id st'') (links n'')"
        using pd n'' by (auto simp: passed_def intro: chain_step_trans)
      ultimately show ?thesis using n'' by blast
    qed
  qed
qed

lemma childless_not_wf: "\<not> wf h lo hi (Internal i ks hs [])"
  by (cases h; cases ks) auto

lemma collapse_root_ok:
  "wf h None None n \<Longrightarrow> root_sized n \<Longrightarrow>
   \<exists>h' n' st'. collapse_root n st = (n', st') \<and> wf h' None None n' \<and> root_sized n' \<and> wide n' \<and>
     ent n' = ent n \<and> links n' = links n \<and> next_id st' = next_id st"
proof (induction n st arbitrary: h rule: collapse_root.induct)
  case (1 i ks hs c st)
  then obtain h' where "wf h' None None c" "root_sized c"
    by (cases h; cases ks) (auto intro: sized_root)
  from "1.IH" [OF this] show ?case by (auto simp: bump_splits_def)
qed (auto simp: childless_not_wf)

section \<open>Removal\<close>

lemma delete_leaf_size:
  "delete_leaf key (Leaf i ks hs vs nx) = (Leaf i' ks' hs' vs' nx', r) \<Longrightarrow>
   length ks' \<le> length ks \<and> length ks \<le> Suc (length ks')"
  by (auto simp: Let_def length_remove_at split: if_splits)

lemma delete_rec_size:
  "wf h lo hi n \<Longrightarrow> above lo key \<Longrightarrow> below hi key \<Longrightarrow> plain_descend (delete_leaf key) key n = Some (n', r) \<Longrightarrow>
   root_sized n \<Longrightarrow> rslack key n' \<and> is_leaf n' = is_leaf n \<and> fullness n \<le> Suc (fullness n') \<and>
     (\<not> is_leaf n \<longrightarrow> fullness n' = fullness n)"
proof (induction h arbitrary: lo hi n n' r)
  case 0
  then obtain i ks hs vs nx where n: "n = Leaf i ks hs vs nx" by (cases n) auto
  with 0 obtain i' ks' hs' vs' nx' where n': "n' = Leaf i' ks' hs' vs' nx'"
    by (cases n') (auto simp: Let_def split: if_splits)
  have "delete_leaf key (Leaf i ks hs vs nx) = (Leaf i' ks' hs' vs' nx', r)" using 0 by (simp add: n n')
  from delete_leaf_size [OF this] 0 show ?case by (simp add: n n')
next
  case (Suc h)
  then obtain i ks cs where n: "n = Internal i ks (heads_for ks) cs"
    and kd: "kids (wf h) lo hi ks cs" by (cases n) auto
  from focus_ex [OF kd Suc.prems(2,3)] obtain xs ys as c bs
    where f: "focus h lo hi key ks cs xs ys as c bs" .
  have cs: "cs = as @ c # bs" using f by (simp add: focus_def)
  from Suc.prems(4) focus_pos [OF f] obtain c' where
    c': "plain_descend (delete_leaf key) key c = Some (c', r)"
    and n': "n' = Internal i ks (heads_for ks) (as @ c' # bs)"
    by (auto simp: n Let_def split: option.splits)
  have sc: "sized c" using Suc.prems(5) by (simp add: n cs)
  have wc: "wf h (upto_last lo xs) (upb hi ys) c" "above (upto_last lo xs) key" "below (upb hi ys) key"
    using focus_child [OF f] by blast+
  from Suc.IH [OF wc c' sized_root [OF sc]] sc have "slack key c'"
    by (cases c; cases c') (auto simp: slack_def simp del: rslack.simps(1))
  with Suc.prems(5) have "rslack key n'" unfolding n' rslack_focus [OF f] by (simp add: n cs)
  then show ?case by (simp add: n n' cs del: rslack.simps)
qed

lemma delete_rec_none: "plain_descend (delete_leaf key) key n = Some (n', None) \<Longrightarrow> n' = n"
proof (induction "delete_leaf key" key n arbitrary: n' rule: plain_descend.induct)
  case (1 key i ks hs cs)
  then obtain c where c: "plain_descend (delete_leaf key) key (cs ! lower_bound ks hs key) = Some (c, None)"
    and "n' = Internal i ks hs (cs[lower_bound ks hs key := c])" and idx: "lower_bound ks hs key < length cs"
    by (auto simp: Let_def split: if_splits option.splits)
  moreover have "c = cs ! lower_bound ks hs key" using 1 c idx by auto
  ultimately show ?case by simp
qed (auto simp: Let_def split: if_splits)

lemma btree_remove_step:
  assumes ok: "btree_ok t"
  shows "\<exists>t'. btree_remove key t = Some (abs_map t key, t') \<and> btree_ok t' \<and>
     abs_map t' = (abs_map t)(key := None)"
proof -
  let ?h = "height (root t)"
  from ok have w: "wf ?h None None (root t)" and ro: "root_sized (root t)" and wd: "wide (root t)"
    and ch: "chain_ok (next_id t) (links (root t))" by (simp_all add: btree_ok_def tree_ok_def)
  from del.plain_descend_ok [OF w, of key] obtain n' r where
    d: "plain_descend (delete_leaf key) key (root t) = Some (n', r)" and w': "wf ?h None None n'"
    and l: "links n' = links (root t)" and e: "at_key key delete_effect (ent (root t)) (ent n') r" by auto
  from at_key_map [of key delete_effect t "t\<lparr>root := n'\<rparr>" r] e
  have r: "r = abs_map t key" and m: "map_of (ent n') = (abs_map t)(key := None)"
    by (auto simp: delete_effect_def abs_map_def)
  have sz: "rslack key n' \<and> wide n'"
    using delete_rec_size [OF w _ _ d ro] wd by (cases "root t"; cases n') auto
  from fix_loop_ok [OF w' disjI1 [OF sz], of "arena_of t"] obtain n1 st1 where
    n1: "fix_loop key n' (arena_of t) = Some (n1, st1)" "wf ?h None None n1" "root_sized n1" "ent n1 = ent n'"
    "chain_step (next_id t) (links n') (next_id st1) (links n1)" by auto
  from collapse_root_ok [OF n1(2,3), of st1] obtain h' n2 st2 where
    n2: "collapse_root n1 st1 = (n2, st2)" "wf h' None None n2" "root_sized n2" "wide n2" "ent n2 = ent n1"
    "links n2 = links n1" "next_id st2 = next_id st1" by blast
  have ch2: "chain_ok (next_id st2) (links n2)"
    using chain_step_ok [OF n1(5)] ch l n2 by simp
  show ?thesis
  proof (cases "abs_map t key")
    case (Some v)
    let ?t' = "(with_arena t st2 n2)\<lparr>entries := entries t - 1\<rparr>"
    have am: "abs_map ?t' = (abs_map t)(key := None)" by (simp add: abs_map_def n2 n1 m)
    have "0 < card (dom (abs_map t))" using Some by (auto simp: card_gt_0_iff)
    then have "entries t - 1 = of_nat (card (dom (abs_map t) - {key}))"
      using ok Some by (simp add: btree_ok_def card_Diff_singleton_if domI of_nat_diff Suc_le_eq)
    then have "entries ?t' = of_nat (card (dom (abs_map ?t')))" unfolding am by simp
    moreover have "tree_ok h' ?t'" using n2 ch2 by (simp add: tree_ok_def)
    ultimately have "btree_ok ?t'" using n2(4) by (intro btree_okI) simp_all
    moreover have "btree_remove key t = Some (abs_map t key, ?t')"
      using d r Some n1(1) n2(1) by (simp add: btree_remove_def delete_rec_def)
    ultimately show ?thesis using am by blast
  next
    case None
    then have "n' = root t" using delete_rec_none d r by simp
    then have "btree_remove key t = Some (None, t)"
      using d r None by (simp add: btree_remove_def delete_rec_def)
    moreover have "(abs_map t)(key := None) = abs_map t" using None by auto
    ultimately show ?thesis using ok None by auto
  qed
qed

end
