(* ===== verification/BTree_Range.thy ===== *)
theory BTree_Range
  imports BTree_Delete
begin

text \<open>
  The range scan. The walk along the leaf chain ends and returns exactly the entries between the
  two bounds, in key order: the chain visits the leaves of the tree from left to right, the first
  leaf is the one that can hold the start key, and the early stop loses nothing because the keys
  that follow are larger.
\<close>

section \<open>Entries are sorted\<close>

lemma segs_sorted_step:
  assumes "sorted_wrt (<) (map fst xs)" "sorted_wrt (<) (map fst ys)"
    and "\<forall>e \<in> set xs. fst e \<le> (k :: key)" "\<forall>e \<in> set ys. k < fst e"
  shows "sorted_wrt (<) (map fst (xs @ ys))"
proof -
  have "fst a < fst b" if "a \<in> set xs" "b \<in> set ys" for a b
    using assms(3,4) that by (blast intro: le_less_trans)
  with assms(1,2) show ?thesis by (auto simp: sorted_wrt_append)
qed

lemma kids_sorted:
  "kids P lo hi ks cs \<Longrightarrow>
   (\<And>lo hi c. c \<in> set cs \<Longrightarrow> P lo hi c \<Longrightarrow> within lo hi c \<and> sorted_wrt (<) (map fst (ent c))) \<Longrightarrow>
   sorted_wrt (<) (map fst (concat (map ent cs)))"
proof (induction P lo hi ks cs rule: kids.induct)
  case (2 P lo hi k ks c cs)
  have kd: "kids within (Some k) hi ks cs"
    by (rule kids_mono [of P]) (use 2 in auto)
  have "\<forall>e \<in> set (ent c). fst e \<le> k" using 2 by (fastforce simp: within_def)
  moreover have "\<forall>e \<in> set (concat (map ent cs)). k < fst e" using kids_within [OF kd] by auto
  moreover have "sorted_wrt (<) (map fst (ent c))" "sorted_wrt (<) (map fst (concat (map ent cs)))"
    using 2 by auto
  ultimately show ?case using segs_sorted_step [of "ent c" "concat (map ent cs)" k] by simp
qed auto

lemma ent_sorted: "wf h lo hi n \<Longrightarrow> sorted_wrt (<) (map fst (ent n))"
proof (induction h arbitrary: lo hi n)
  case 0
  then show ?case by (cases n) auto
next
  case (Suc h)
  then obtain i ks hs cs where n: "n = Internal i ks hs cs" and kd: "kids (wf h) lo hi ks cs"
    by (cases n) auto
  have "sorted_wrt (<) (map fst (concat (map ent cs)))"
    by (rule kids_sorted [OF kd]) (use Suc.IH wf_within in blast)
  then show ?case by (simp add: n)
qed

section \<open>One leaf\<close>

definition before_start :: "key option \<Rightarrow> bool \<Rightarrow> key \<Rightarrow> bool" where
  "before_start start start_incl k = (case start of Some lo \<Rightarrow> k < lo \<or> k = lo \<and> \<not> start_incl | None \<Rightarrow> False)"

definition past_end :: "key option \<Rightarrow> bool \<Rightarrow> key \<Rightarrow> bool" where
  "past_end till till_incl k = (case till of Some hi \<Rightarrow> k > hi \<or> k = hi \<and> \<not> till_incl | None \<Rightarrow> False)"

definition in_scan :: "key option \<Rightarrow> bool \<Rightarrow> key option \<Rightarrow> bool \<Rightarrow> key \<Rightarrow> bool" where
  "in_scan start start_incl till till_incl k \<longleftrightarrow> \<not> before_start start start_incl k \<and> \<not> past_end till till_incl k"

lemma past_end_mono: "past_end till ti k \<Longrightarrow> k < k' \<Longrightarrow> past_end till ti k'"
  by (auto simp: past_end_def split: option.splits)

lemma emit_Cons:
  "above last_key k \<Longrightarrow> emit start si till ti ((k, v) # es) last_key out =
     (if before_start start si k then emit start si till ti es last_key out
      else if past_end till ti k then (out, last_key, True)
      else emit start si till ti es (Some k) (out @ [(k, v)]))"
  by (cases last_key) (auto simp: before_start_def past_end_def)

declare emit.simps(2) [simp del]

lemma emit_ok:
  "sorted_wrt (<) (map fst es) \<Longrightarrow> (\<forall>e \<in> set es. above last_key (fst e)) \<Longrightarrow>
   \<exists>last' stopped. emit start si till ti es last_key out =
      (out @ filter (\<lambda>e. in_scan start si till ti (fst e)) es, last', stopped) \<and>
      (stopped \<longrightarrow> (\<exists>e \<in> set es. past_end till ti (fst e))) \<and>
      (last' = last_key \<or> (\<exists>e \<in> set es. last' = Some (fst e)))"
proof (induction es arbitrary: last_key out)
  case (Cons e es)
  obtain k v where e: "e = (k, v)" by force
  have s: "sorted_wrt (<) (map fst es)" and gt: "\<forall>e' \<in> set es. k < fst e'" using Cons.prems(1) e by auto
  have ab: "above last_key k" "\<forall>e' \<in> set es. above last_key (fst e')" using Cons.prems(2) e by simp_all
  consider (skip) "before_start start si k" | (stop) "\<not> before_start start si k" "past_end till ti k"
    | (take) "\<not> before_start start si k" "\<not> past_end till ti k" by blast
  then show ?case
  proof cases
    case skip
    with Cons.IH [OF s ab(2), of out] ab(1) show ?thesis by (auto simp: e in_scan_def emit_Cons)
  next
    case stop
    with gt have "filter (\<lambda>e. in_scan start si till ti (fst e)) es = []"
      by (auto simp: filter_empty_conv in_scan_def intro: past_end_mono)
    with stop ab(1) show ?thesis by (auto simp: e in_scan_def emit_Cons)
  next
    case take
    have "\<forall>e' \<in> set es. above (Some k) (fst e')" using gt by simp
    from Cons.IH [OF s this, of "out @ [(k, v)]"] take ab(1) show ?thesis
      by (auto simp: e in_scan_def emit_Cons)
  qed
qed auto

section \<open>The chain of leaves\<close>

fun leaf_next :: "node \<Rightarrow> node_id option" where
  "leaf_next (Leaf _ _ _ _ nx) = nx"
| "leaf_next (Internal _ _ _ _) = None"

lemma leaves_links: "map (\<lambda>l. (node_ident l, leaf_next l)) (leaves n) = links n"
  by (induction n rule: leaves.induct) (simp_all add: map_concat cong: map_cong)

lemma leaves_ent: "concat (map ent (leaves n)) = ent n"
proof (induction n rule: leaves.induct)
  case (2 i ks hs cs)
  then have "concat (map ent (concat (map leaves cs))) = concat (map ent cs)" by (induction cs) auto
  then show ?case by simp
qed simp

lemma leaves_leaf: "l \<in> set (leaves n) \<Longrightarrow> is_leaf l"
  by (induction n rule: leaves.induct) auto

lemma linked_next:
  "linked (A @ (i, nx) # B) \<Longrightarrow> nx = (case B of [] \<Rightarrow> None | (j, _) # _ \<Rightarrow> Some j)"
proof (induction A)
  case Nil
  then show ?case by (cases B) auto
next
  case (Cons a A)
  then show ?case by (cases a; cases A) auto
qed

lemma leaf_next_ok:
  assumes "chain_ok m (links n)" "leaves n = A @ l # B"
  shows "leaf_next l = (case B of [] \<Rightarrow> None | b # _ \<Rightarrow> Some (node_ident b))"
proof -
  have "links n = map (\<lambda>l. (node_ident l, leaf_next l)) A @ (node_ident l, leaf_next l) #
      map (\<lambda>l. (node_ident l, leaf_next l)) B"
    using leaves_links [of n] assms(2) by simp
  with assms(1) linked_next show ?thesis by (fastforce simp: chain_ok_def split: list.splits)
qed

lemma leaf_at_ok:
  assumes "chain_ok m (links n)" "leaves n = A @ l # B"
  shows "leaf_at n (node_ident l) = Some l"
proof -
  have "map fst (links n) = map node_ident (leaves n)" by (simp flip: leaves_links)
  then have "distinct (map node_ident (A @ l # B))" using assms by (simp add: chain_ok_def)
  then have "\<forall>a \<in> set A. node_ident a \<noteq> node_ident l" by (metis distinct.simps(2) distinct_append imageI
      list.simps(9) map_append not_distinct_conv_prefix set_map Un_iff set_append list.set_intros(1) IntI empty_iff)
  then show ?thesis unfolding leaf_at_def assms(2)
    by (induction A) auto
qed

section \<open>The walk\<close>

lemma range_walk_leaf:
  "emit start si till ti (zip ks vs) last_key out = (out', last', stopped) \<Longrightarrow>
   range_walk look start si till ti (Leaf i ks hs vs nx) last_key out =
     (if stopped then Some out'
      else case nx of None \<Rightarrow> Some out'
        | Some j \<Rightarrow> (case look j of None \<Rightarrow> None
            | Some n' \<Rightarrow> range_walk look start si till ti n' last' out'))"
  by (subst range_walk.simps) simp

lemma range_walk_ok:
  assumes ch: "chain_ok m (links n)" and s: "sorted_wrt (<) (map fst (ent n))"
  shows "leaves n = A @ l # B \<Longrightarrow> \<forall>e \<in> set (concat (map ent (l # B))). above last_key (fst e) \<Longrightarrow>
    range_walk (leaf_at n) start si till ti l last_key out =
      Some (out @ filter (\<lambda>e. in_scan start si till ti (fst e)) (concat (map ent (l # B))))"
proof (induction B arbitrary: A l last_key out)
  case Nil
  from leaves_leaf [of l n] Nil.prems(1) obtain i ks hs vs nx where l: "l = Leaf i ks hs vs nx" by (cases l) auto
  have nx: "nx = None" using leaf_next_ok [OF ch Nil.prems(1)] by (simp add: l)
  have "ent n = concat (map ent A) @ zip ks vs" using leaves_ent [of n] Nil.prems(1) by (simp add: l)
  with s have "sorted_wrt (<) (map fst (zip ks vs))" by (simp add: sorted_wrt_append)
  from emit_ok [OF this, of last_key start si till ti out] Nil.prems(2) obtain last' stopped where
    "emit start si till ti (zip ks vs) last_key out =
      (out @ filter (\<lambda>e. in_scan start si till ti (fst e)) (zip ks vs), last', stopped)"
    by (auto simp: l)
  from range_walk_leaf [OF this] show ?case by (simp add: l nx)
next
  case (Cons b B)
  from leaves_leaf [of l n] Cons.prems(1) obtain i ks hs vs nx where l: "l = Leaf i ks hs vs nx" by (cases l) auto
  have nx: "nx = Some (node_ident b)" using leaf_next_ok [OF ch Cons.prems(1)] by (simp add: l)
  have lb: "leaves n = (A @ [l]) @ b # B" using Cons.prems(1) by simp
  let ?rest = "concat (map ent (b # B))"
  have "ent n = concat (map ent A) @ zip ks vs @ ?rest"
    using leaves_ent [of n] Cons.prems(1) by (simp add: l)
  with s have all: "sorted_wrt (<) (map fst (concat (map ent A)) @ map fst (zip ks vs) @ map fst ?rest)"
    by (simp only: map_append)
  then have st: "sorted_wrt (<) (map fst (zip ks vs))" unfolding sorted_wrt_append by blast
  have gt: "fst e < fst e'" if "e \<in> set (zip ks vs)" "e' \<in> set ?rest" for e e'
    using all that unfolding sorted_wrt_append set_append set_map by blast
  from emit_ok [OF st, of last_key start si till ti out] Cons.prems(2) obtain last' stopped where
    em: "emit start si till ti (zip ks vs) last_key out =
      (out @ filter (\<lambda>e. in_scan start si till ti (fst e)) (zip ks vs), last', stopped)"
    and sp: "stopped \<longrightarrow> (\<exists>e \<in> set (zip ks vs). past_end till ti (fst e))"
    and la: "last' = last_key \<or> (\<exists>e \<in> set (zip ks vs). last' = Some (fst e))"
    by (auto simp: l)
  show ?case
  proof (cases stopped)
    case True
    with sp obtain e where "e \<in> set (zip ks vs)" "past_end till ti (fst e)" by blast
    then have "past_end till ti (fst e')" if "e' \<in> set ?rest" for e'
      using gt [OF _ that] past_end_mono by blast
    then have "filter (\<lambda>e. in_scan start si till ti (fst e)) ?rest = []"
      unfolding filter_empty_conv in_scan_def by blast
    with range_walk_leaf [OF em] True show ?thesis by (simp add: l)
  next
    case False
    have "above last' (fst e)" if "e \<in> set ?rest" for e
    proof (cases "last' = last_key")
      case True
      then show ?thesis using Cons.prems(2) that by simp
    next
      case False
      with la gt [OF _ that] show ?thesis by auto
    qed
    then have "\<forall>e \<in> set ?rest. above last' (fst e)" by blast
    from Cons.IH [OF lb this] range_walk_leaf [OF em] False leaf_at_ok [OF ch lb] show ?thesis
      by (simp add: l nx)
  qed
qed

section \<open>The first leaf\<close>

text \<open>The entries to the left of the first leaf are before the start of the scan.\<close>

definition left_of :: "key option \<Rightarrow> node list \<Rightarrow> bool" where
  "left_of start A \<longleftrightarrow>
     (case start of None \<Rightarrow> concat (map ent A) = [] | Some k \<Rightarrow> \<forall>e \<in> set (concat (map ent A)). fst e < k)"

lemma first_leaf_from:
  "wf h lo hi n \<Longrightarrow> above lo k \<Longrightarrow> below hi k \<Longrightarrow>
   \<exists>A l B. first_leaf (Some k) n = Some l \<and> leaves n = A @ l # B \<and> left_of (Some k) A"
proof (induction h arbitrary: lo hi n)
  case 0
  then obtain i ks hs vs nx where n: "n = Leaf i ks hs vs nx" by (cases n) auto
  show ?case
    by (rule exI [of _ "[]"], rule exI [of _ n], rule exI [of _ "[]"]) (simp add: n left_of_def)
next
  case (Suc h)
  then obtain i ks cs where n: "n = Internal i ks (heads_for ks) cs"
    and kd: "kids (wf h) lo hi ks cs" by (cases n) auto
  from focus_ex [OF kd Suc.prems(2,3)] obtain xs ys as c bs
    where f: "focus h lo hi k ks cs xs ys as c bs" .
  note p = focus_pos [OF f]
  have cs: "cs = as @ c # bs" using f by (simp add: focus_def)
  from Suc.IH focus_child [OF f] obtain A l B where
    l: "first_leaf (Some k) c = Some l" "leaves c = A @ l # B" "left_of (Some k) A" by blast
  have "min (lower_bound ks (heads_for ks) k) (length cs - 1) = length xs" using p by auto
  then have "first_leaf (Some k) n = Some l" using p l(1) by (auto simp: n Let_def)
  moreover have "leaves n = (concat (map leaves as) @ A) @ l # (B @ concat (map leaves bs))"
    by (simp add: n cs l(2))
  moreover have "left_of (Some k) (concat (map leaves as) @ A)"
  proof -
    have "fst e < k" if e: "e \<in> set (concat (map ent as))" for e
    proof -
      have sg: "segs within lo hi xs as" using f wf_within unfolding focus_def by (blast intro: segs_mono)
      have "xs \<noteq> []" using f e by (cases xs) (auto simp: focus_def)
      then have "fst e \<le> last xs" "last xs < k"
        using segs_within [OF sg e] f by (auto simp: upto_last_last focus_def splits_at_def)
      then show ?thesis by simp
    qed
    moreover have "concat (map ent (concat (map leaves as))) = concat (map ent as)"
      using leaves_ent by (induction as) auto
    ultimately show ?thesis using l(3) by (auto simp: left_of_def)
  qed
  ultimately show ?case by blast
qed

lemma first_leaf_start:
  "wf h lo hi n \<Longrightarrow> \<exists>l B. first_leaf None n = Some l \<and> leaves n = l # B"
proof (induction h arbitrary: lo hi n)
  case 0
  then show ?case by (cases n) auto
next
  case (Suc h)
  then obtain i ks hs cs where n: "n = Internal i ks hs cs" and kd: "kids (wf h) lo hi ks cs"
    by (cases n) auto
  then obtain c cs' where cs: "cs = c # cs'" using kids_length [OF kd] by (cases cs) auto
  from kd cs obtain hi' where "wf h lo hi' c" by (cases ks; cases cs') auto
  from Suc.IH [OF this] show ?case by (auto simp: n cs Let_def)
qed

lemma btree_range_step:
  assumes ok: "btree_ok t"
  shows "btree_range t start si till ti =
     Some (filter (\<lambda>e. in_scan start si till ti (fst e)) (ent (root t)))"
proof -
  from ok have w: "wf (height (root t)) None None (root t)" and ch: "chain_ok (next_id t) (links (root t))"
    by (simp_all add: btree_ok_def tree_ok_def)
  have "\<exists>A l B. first_leaf start (root t) = Some l \<and> leaves (root t) = A @ l # B \<and> left_of start A"
    using first_leaf_from [OF w] first_leaf_start [OF w] by (cases start) (fastforce simp: left_of_def)+
  then obtain A l B where l: "first_leaf start (root t) = Some l" "leaves (root t) = A @ l # B"
    and lo: "left_of start A" by blast
  have "range_walk (leaf_at (root t)) start si till ti l None [] =
      Some (filter (\<lambda>e. in_scan start si till ti (fst e)) (concat (map ent (l # B))))"
    using range_walk_ok [OF ch ent_sorted [OF w] l(2), of None start si till ti "[]"] by simp
  moreover have "filter (\<lambda>e. in_scan start si till ti (fst e)) (concat (map ent A)) = []"
    using lo by (auto simp: filter_empty_conv left_of_def in_scan_def before_start_def split: option.splits)
  moreover have "ent (root t) = concat (map ent A) @ concat (map ent (l # B))"
    using leaves_ent [of "root t"] l(2) by simp
  ultimately show ?thesis using l(1) by (simp add: btree_range_def)
qed

lemma ent_abs_map:
  assumes "btree_ok t"
  shows "sorted_wrt (<) (map fst (ent (root t)))" "(k, v) \<in> set (ent (root t)) \<longleftrightarrow> abs_map t k = Some v"
proof -
  from assms have w: "wf (height (root t)) None None (root t)" by (simp add: btree_ok_def tree_ok_def)
  show s: "sorted_wrt (<) (map fst (ent (root t)))" by (rule ent_sorted [OF w])
  then have "distinct (map fst (ent (root t)))" by (simp add: strict_sorted_iff)
  then show "(k, v) \<in> set (ent (root t)) \<longleftrightarrow> abs_map t k = Some v" by (simp add: abs_map_def)
qed

end
