(* ===== verification/BTree.thy ===== *)
theory BTree
  imports BTree_Range
begin

text \<open>
  What the B+ tree promises its clients: it implements a finite map, with sorted range scans, and
  every history of operations keeps its invariant. The exception is stated too: a key removed from
  the right end of a leaf that keeps its fill cannot be inserted again, because the writer restarts
  for ever.
\<close>

section \<open>Histories\<close>

datatype bt_op = OpInsert key val | OpUpsert key val | OpUpdate key val | OpRemove key

fun bt_apply :: "bt_op \<Rightarrow> (key \<rightharpoonup> val) \<Rightarrow> (key \<rightharpoonup> val)" where
  "bt_apply (OpInsert k v) m = map_insert k v m"
| "bt_apply (OpUpsert k v) m = m(k \<mapsto> v)"
| "bt_apply (OpUpdate k v) m = m(k := map_option (\<lambda>_. v) (m k))"
| "bt_apply (OpRemove k) m = m(k := None)"

inductive bt_step :: "btree \<Rightarrow> bt_op \<Rightarrow> btree \<Rightarrow> bool" where
  "btree_insert k v t = Some (Some (b, t')) \<Longrightarrow> bt_step t (OpInsert k v) t'"
| "btree_upsert k v t = Some (Some (p, t')) \<Longrightarrow> bt_step t (OpUpsert k v) t'"
| "update_in_place k v t = Some (p, t') \<Longrightarrow> bt_step t (OpUpdate k v) t'"
| "btree_remove k t = Some (p, t') \<Longrightarrow> bt_step t (OpRemove k) t'"

inductive_cases bt_step_cases: "bt_step t op t'"

inductive bt_run :: "btree \<Rightarrow> bt_op list \<Rightarrow> btree \<Rightarrow> bool" where
  bt_done: "bt_run t [] t"
| bt_more: "bt_step t op t' \<Longrightarrow> bt_run t' ops t'' \<Longrightarrow> bt_run t (op # ops) t''"

lemma insert_returned:
  "btree_ok t \<Longrightarrow> btree_insert k v t = Some y \<Longrightarrow> \<not> stuck k (root t)"
  using ins.never_returns [of "height (root t)" t k v] by (auto simp: btree_ok_def)

lemma upsert_returned:
  "btree_ok t \<Longrightarrow> btree_upsert k v t = Some y \<Longrightarrow> \<not> stuck k (root t)"
  using ups.never_returns [of "height (root t)" t k v] by (auto simp: btree_ok_def)

lemma bt_step_refines:
  assumes "bt_step t op t'" "btree_ok t"
  shows "btree_ok t' \<and> abs_map t' = bt_apply op (abs_map t)"
  using assms
proof (cases rule: bt_step.cases)
  case (1 k v b)
  then show ?thesis using btree_insert_step [OF assms(2) insert_returned [OF assms(2) 1(2)], of v] by auto
next
  case (2 k v p)
  then show ?thesis using btree_upsert_step [OF assms(2) upsert_returned [OF assms(2) 2(2)], of v] by auto
next
  case (3 k v p)
  then show ?thesis using update_in_place_step [OF assms(2), of k v] by auto
next
  case (4 k p)
  then show ?thesis using btree_remove_step [OF assms(2), of k] by auto
qed

lemma bt_run_refines:
  "bt_run t ops t' \<Longrightarrow> btree_ok t \<Longrightarrow> btree_ok t' \<and> abs_map t' = fold bt_apply ops (abs_map t)"
  by (induction rule: bt_run.induct) (auto dest: bt_step_refines)

section \<open>A key taken off the end of a leaf\<close>

function (sequential) routed_leaf :: "key \<Rightarrow> node \<Rightarrow> node" where
  "routed_leaf key (Internal i ks hs cs) =
     (let idx = lower_bound ks hs key in
      if length cs \<le> idx then Internal i ks hs cs else routed_leaf key (cs ! idx))"
| "routed_leaf key l = l"
  by pat_completeness auto
termination
  by (relation "measure (\<lambda>(_, n). height n)") (auto simp: height_child simp del: height.simps)

lemma sized_fix_pass:
  "wf h lo hi n \<Longrightarrow> above lo key \<Longrightarrow> below hi key \<Longrightarrow> root_sized n \<Longrightarrow>
   fix_pass key n st = Some (n, st, False)"
proof (induction h arbitrary: lo hi n)
  case 0
  then show ?case by (cases n) auto
next
  case (Suc h)
  then obtain i ks cs where n: "n = Internal i ks (heads_for ks) cs"
    and kd: "kids (wf h) lo hi ks cs" by (cases n) auto
  from focus_ex [OF kd Suc.prems(2,3)] obtain xs ys as c bs
    where f: "focus h lo hi key ks cs xs ys as c bs" .
  note p = focus_pos [OF f]
  have cs: "cs = as @ c # bs" using f by (simp add: focus_def)
  have sc: "sized c" using Suc.prems(4) by (simp add: n cs)
  then have "fix_pass key c st = Some (c, st, False)"
    using Suc.IH focus_child [OF f] sized_root by blast
  moreover have "min (lower_bound ks (heads_for ks) key) (length cs - 1) = length xs" using p by auto
  ultimately show ?case
    using p(3) sc p(4) [of c] by (auto simp: n Let_def sized_iff underflowed_def cs)
qed

lemma delete_end_leaf:
  assumes w: "wf 0 lo hi (Leaf i ks hs vs (Some j))" and e: "last ks = key" "MIN_KEYS < length ks"
    and d: "delete_leaf key (Leaf i ks hs vs (Some j)) = (n', r)"
  shows "r \<noteq> None \<and> (sized (Leaf i ks hs vs (Some j)) \<longrightarrow> sized n') \<and> stuck key n' \<and>
     (root_sized (Leaf i ks hs vs (Some j)) \<longrightarrow> root_sized n') \<and> wide n'"
  using w
proof (cases rule: leaf_focus [where key = key])
  case (hit xs ys us v ws)
  have "ys = []"
  proof (rule ccontr)
    assume "ys \<noteq> []"
    then have "last ys \<in> set ys" "last ks = last ys" using hit(1) by simp_all
    with hit(8) e(1) show False by auto
  qed
  with hit d have n': "n' = Leaf i xs (heads_for xs) (us @ ws) (Some j)" "r = Some v"
    by (auto simp: Let_def nth_append)
  have len: "MIN_KEYS \<le> length xs" using e(2) hit(1) \<open>ys = []\<close> by simp
  then have "xs \<noteq> []" by (auto simp: MIN_KEYS_def MAX_KEYS_def)
  then have "last xs < key" using hit(7) by simp
  with n' len \<open>xs \<noteq> []\<close> hit(1) show ?thesis by auto
next
  case (miss xs ys us ws)
  have "ks \<noteq> []" using e(2) by auto
  then have "key \<in> set ks" using e(1) by auto
  with miss show ?thesis by auto
qed

lemma delete_end:
  "wf h lo hi n \<Longrightarrow> above lo key \<Longrightarrow> below hi key \<Longrightarrow> plain_descend (delete_leaf key) key n = Some (n', r) \<Longrightarrow>
   routed_leaf key n = Leaf i ks hs vs (Some j) \<Longrightarrow> last ks = key \<Longrightarrow> MIN_KEYS < length ks \<Longrightarrow>
   r \<noteq> None \<and> (sized n \<longrightarrow> sized n') \<and> stuck key n' \<and> (root_sized n \<longrightarrow> root_sized n') \<and> (wide n \<longrightarrow> wide n')"
proof (induction h arbitrary: lo hi n n')
  case 0
  then have n: "n = Leaf i ks hs vs (Some j)" by (cases n) auto
  from 0 n have "delete_leaf key (Leaf i ks hs vs (Some j)) = (n', r)" by simp
  from delete_end_leaf [OF 0(1) [unfolded n] 0(6,7) this] show ?case by (simp only: n) blast
next
  case (Suc h)
  then obtain i ks cs where n: "n = Internal i ks (heads_for ks) cs"
    and kd: "kids (wf h) lo hi ks cs" by (cases n) auto
  from focus_ex [OF kd Suc.prems(2,3)] obtain xs ys as c bs
    where f: "focus h lo hi key ks cs xs ys as c bs" .
  note p = focus_pos [OF f]
  have cs: "cs = as @ c # bs" using f by (simp add: focus_def)
  from Suc.prems(4) p obtain c' where
    c': "plain_descend (delete_leaf key) key c = Some (c', r)"
    and n': "n' = Internal i ks (heads_for ks) (as @ c' # bs)"
    by (auto simp: n Let_def split: option.splits)
  have wc: "wf h (upto_last lo xs) (upb hi ys) c" "above (upto_last lo xs) key" "below (upb hi ys) key"
    using focus_child [OF f] by blast+
  have "routed_leaf key n = routed_leaf key c" using p by (simp add: n Let_def)
  with Suc.IH [OF wc c'] Suc.prems(5-7)
  have "r \<noteq> None \<and> (sized c \<longrightarrow> sized c') \<and> stuck key c'" by simp
  then show ?case using focus_stuck [OF f, of i c'] by (auto simp: n n' cs simp del: stuck.simps)
qed

lemma remove_end:
  assumes ok: "btree_ok t" and l: "routed_leaf key (root t) = Leaf i ks hs vs (Some j)"
    and e: "last ks = key" "MIN_KEYS < length ks"
  shows "\<exists>v t'. btree_remove key t = Some (Some v, t') \<and> btree_ok t' \<and> stuck key (root t')"
proof -
  from ok have w: "wf (height (root t)) None None (root t)" and ro: "root_sized (root t)" "wide (root t)"
    by (simp_all add: btree_ok_def tree_ok_def)
  from del.plain_descend_ok [OF w, of key] obtain n' r where
    d: "plain_descend (delete_leaf key) key (root t) = Some (n', r)" and w': "wf (height (root t)) None None n'"
    by auto
  from delete_end [OF w _ _ d l e] ro obtain v where r: "r = Some v" and st: "stuck key n'"
    and ro': "root_sized n'" "wide n'" by auto
  have "fix_loop key n' (arena_of t) = Some (n', arena_of t)"
    using sized_fix_pass [OF w' _ _ ro'(1), of key "arena_of t"] by (subst fix_loop.simps) simp
  moreover have "collapse_root n' (arena_of t) = (n', arena_of t)"
    using ro'(2) by (cases n' rule: widening.cases) auto
  ultimately have "btree_remove key t = Some (Some v, (with_arena t (arena_of t) n')\<lparr>entries := entries t - 1\<rparr>)"
    using d r by (simp add: btree_remove_def delete_rec_def)
  moreover from btree_remove_step [OF ok, of key] this
  have "btree_ok ((with_arena t (arena_of t) n')\<lparr>entries := entries t - 1\<rparr>)" by auto
  ultimately show ?thesis using st by auto
qed

section \<open>A sample tree of two leaves\<close>

definition kb :: "nat \<Rightarrow> key" where "kb n = [of_nat n]"

definition sample_leaf :: "node_id \<Rightarrow> nat \<Rightarrow> nat \<Rightarrow> node_id option \<Rightarrow> node" where
  "sample_leaf i a b nx = new_leaf_with i (map kb [a..<b]) (map kb [a..<b]) nx"

definition two_leaves :: btree where
  "two_leaves = \<lparr>next_id = 3, splits = 2, merges = 0,
     root = new_internal 2 [kb 64] [sample_leaf 0 0 65 (Some 1), sample_leaf 1 100 164 None],
     in_place = 0, entries = 129\<rparr>"

lemma kb_less: "m < 256 \<Longrightarrow> n < 256 \<Longrightarrow> kb m < kb n \<longleftrightarrow> m < n"
  by (simp add: kb_def word_less_nat_alt unat_of_nat)

lemma kb_le: "m < 256 \<Longrightarrow> n < 256 \<Longrightarrow> kb m \<le> kb n \<longleftrightarrow> m \<le> n"
  using kb_less [of n m] by (simp flip: not_less)

lemma sample_sorted: "b \<le> 256 \<Longrightarrow> sorted_wrt (<) (map kb [a..<b])"
  unfolding sorted_wrt_map by (rule sorted_wrt_mono_rel [of _ "(<)"]) (auto simp: kb_less)

lemma sample_wf:
  "b \<le> 256 \<Longrightarrow> \<forall>n. a \<le> n \<and> n < b \<longrightarrow> above lo (kb n) \<and> below hi (kb n) \<Longrightarrow> wf 0 lo hi (sample_leaf i a b nx)"
  using sample_sorted [of b a] by (auto simp: sample_leaf_def new_leaf_with_def)

lemma two_leaves_ent:
  "ent (root two_leaves) = map (\<lambda>n. (kb n, kb n)) ([0..<65] @ [100..<164])"
  by (simp only: two_leaves_def new_internal_def sample_leaf_def new_leaf_with_def btree.simps arena.simps
      ent.simps list.map concat.simps append_Nil2 map_append zip_map_map)
    (simp add: zip_same_conv_map del: upt_rec_numeral)

lemma two_leaves_card: "card (dom (abs_map two_leaves)) = 129"
proof -
  have "inj_on kb {n. n < 256}"
    by (rule inj_onI) (metis kb_less linorder_less_linear mem_Collect_eq order_less_irrefl)
  then have "inj_on kb (set ([0..<65] @ [100..<164]))" by (rule inj_on_subset) auto
  then have "card (kb ` set ([0..<65] @ [100..<164])) = length ([0..<65] @ [100..<164])"
    by (subst card_image, assumption) (rule distinct_card, simp del: upt_rec_numeral)
  moreover have "dom (abs_map two_leaves) = kb ` set ([0..<65] @ [100..<164])"
    unfolding abs_map_def two_leaves_ent dom_map_of_conv_image_fst set_map image_image by simp
  ultimately show ?thesis by simp
qed

lemma two_leaves_ok: "btree_ok two_leaves"
proof (rule btree_okI [of 1])
  have "wf 0 None (Some (kb 64)) (sample_leaf 0 0 65 (Some 1))" "wf 0 (Some (kb 64)) None (sample_leaf 1 100 164 None)"
    by (intro sample_wf; auto simp: kb_le kb_less)+
  then show "tree_ok 1 two_leaves"
    by (simp add: tree_ok_def two_leaves_def new_internal_def sample_leaf_def new_leaf_with_def
        chain_ok_def MAX_KEYS_def MIN_KEYS_def del: upt_rec_numeral)
  show "wide (root two_leaves)" by (simp add: two_leaves_def new_internal_def)
  show "entries two_leaves = of_nat (card (dom (abs_map two_leaves)))"
    unfolding two_leaves_card by (simp add: two_leaves_def)
qed

lemma two_leaves_routed:
  "routed_leaf (kb 64) (root two_leaves) = sample_leaf 0 0 65 (Some 1)"
proof -
  have "lower_bound [kb 64] (heads_for [kb 64]) (kb 64) = 0"
    using lower_bound_splits [of "kb 64" "[]" "[kb 64]"] by (simp add: splits_at_def)
  then show ?thesis by (simp add: two_leaves_def new_internal_def Let_def sample_leaf_def new_leaf_with_def)
qed


section \<open>Properties\<close>

text \<open>C1. Every history of insertions, replacements, in-place updates and removals that starts with
  an empty tree leaves a well-formed tree (balanced, ordered, filled within the bounds, leaves
  chained, entry counter right) whose contents are those of a finite map under the same history.\<close>
theorem btree_refines_map:
  "bt_run btree_new ops t \<Longrightarrow> btree_ok t \<and> abs_map t = fold bt_apply ops Map.empty"
  using bt_run_refines [of btree_new ops t] btree_new_ok by simp

theorem btree_refines_map_witness:
  "\<exists>t. bt_run btree_new [OpInsert [1] [2], OpRemove [3]] t \<and> btree_ok t \<and> abs_map t = [[1] \<mapsto> [2]]"
proof -
  have "\<not> stuck [1] (root btree_new)" by (simp add: btree_new_def new_leaf_with_def)
  from btree_insert_step [OF conjunct1 [OF btree_new_ok] this, of "[2]"] obtain t1 where
    1: "bt_step btree_new (OpInsert [1] [2]) t1" "btree_ok t1" by (auto intro: bt_step.intros)
  from btree_remove_step [OF 1(2), of "[3]"] obtain t2 where "bt_step t1 (OpRemove [3]) t2"
    by (auto intro: bt_step.intros)
  with 1 have r: "bt_run btree_new [OpInsert [1] [2], OpRemove [3]] t2" by (auto intro: bt_run.intros)
  from btree_refines_map [OF r] r show ?thesis by (auto simp: map_insert_def)
qed

text \<open>A point lookup never panics and returns the value bound to the key, or nothing when the
  key is absent.\<close>
theorem btree_get_correct: "btree_ok t \<Longrightarrow> btree_get t key = Some (abs_map t key)"
  by (rule btree_get_ok)

theorem btree_get_correct_witness: "btree_ok btree_new \<and> btree_get btree_new [7] = Some None"
  using btree_get_correct [of btree_new "[7]"] btree_new_ok by simp

text \<open>An insertion whose routed leaf is not stuck returns after finitely many attempts without a
  panic, reports whether the key was new, adds it only then, and keeps the invariant.\<close>
theorem btree_insert_correct:
  assumes "btree_ok t" "\<not> stuck key (root t)"
  shows "\<exists>t'. btree_insert key v t = Some (Some (abs_map t key = None, t')) \<and> btree_ok t' \<and>
     abs_map t' = map_insert key v (abs_map t)"
  using assms by (rule btree_insert_step)

theorem btree_insert_correct_witness:
  "\<exists>t'. btree_insert [1] [2] btree_new = Some (Some (True, t')) \<and> abs_map t' = [[1] \<mapsto> [2]]"
  using btree_insert_correct [of btree_new "[1]" "[2]"] btree_new_ok
  by (auto simp: btree_new_def new_leaf_with_def map_insert_def)

text \<open>An upsert whose routed leaf is not stuck returns the previous value and binds the key to
  the new one.\<close>
theorem btree_upsert_correct:
  assumes "btree_ok t" "\<not> stuck key (root t)"
  shows "\<exists>t'. btree_upsert key v t = Some (Some (abs_map t key, t')) \<and> btree_ok t' \<and>
     abs_map t' = (abs_map t)(key \<mapsto> v)"
  using assms by (rule btree_upsert_step)

theorem btree_upsert_correct_witness:
  "\<exists>t'. btree_upsert [1] [2] btree_new = Some (Some (None, t')) \<and> abs_map t' = [[1] \<mapsto> [2]]"
  using btree_upsert_correct [of btree_new "[1]" "[2]"] btree_new_ok
  by (auto simp: btree_new_def new_leaf_with_def)

text \<open>An in-place update replaces the value of a present key, returns the old value, does
  nothing to an absent key, and never restructures.\<close>
theorem update_in_place_correct:
  assumes "btree_ok t"
  shows "\<exists>t'. update_in_place key v t = Some (abs_map t key, t') \<and> btree_ok t' \<and>
     abs_map t' = (abs_map t)(key := map_option (\<lambda>_. v) (abs_map t key))"
  using assms by (rule update_in_place_step)

theorem update_in_place_correct_witness:
  "\<exists>t'. update_in_place (kb 200) [2] two_leaves = Some (abs_map two_leaves (kb 200), t') \<and> btree_ok t'"
  using update_in_place_correct [OF two_leaves_ok, of "kb 200" "[2]"] by auto

text \<open>C2. A removal returns the removed value and unbinds the key; borrowing, merging and the
  collapse of the root restore every bound of the invariant, and the repair passes end.\<close>
theorem btree_remove_correct:
  assumes "btree_ok t"
  shows "\<exists>t'. btree_remove key t = Some (abs_map t key, t') \<and> btree_ok t' \<and>
     abs_map t' = (abs_map t)(key := None)"
  using assms by (rule btree_remove_step)

theorem btree_remove_correct_witness:
  "\<exists>t'. btree_remove (kb 120) two_leaves = Some (abs_map two_leaves (kb 120), t') \<and> btree_ok t'"
  using btree_remove_correct [OF two_leaves_ok, of "kb 120"] by auto

text \<open>C3. A range scan ends and returns exactly the entries between its bounds, each once, in
  strictly increasing key order.\<close>
theorem btree_range_correct:
  assumes "btree_ok t"
  shows "\<exists>out. btree_range t start si till ti = Some out \<and> sorted_wrt (<) (map fst out) \<and>
     (\<forall>k v. (k, v) \<in> set out \<longleftrightarrow> abs_map t k = Some v \<and> in_scan start si till ti k)"
proof -
  have "sorted_wrt (<) (map fst (filter (\<lambda>e. in_scan start si till ti (fst e)) (ent (root t))))"
    using ent_abs_map(1) [OF assms] by (simp add: sorted_wrt_map sorted_wrt_filter)
  with btree_range_step [OF assms] ent_abs_map(2) [OF assms] show ?thesis by auto
qed

theorem btree_range_correct_witness:
  "\<exists>out. btree_range two_leaves (Some (kb 60)) True None False = Some out \<and> sorted_wrt (<) (map fst out)"
  using btree_range_correct [OF two_leaves_ok, of "Some (kb 60)" True None False] by blast

text \<open>C4. The retry loop of an insertion into a stuck leaf does not end: remove the last key of a
  leaf that has a right neighbour and more than the minimum number of keys, and inserting that key
  again never returns.\<close>
theorem remove_then_insert_hangs:
  assumes "btree_ok t" "routed_leaf key (root t) = Leaf i ks hs vs (Some j)"
    and "last ks = key" "MIN_KEYS < length ks"
  shows "\<exists>v t'. btree_remove key t = Some (Some v, t') \<and> btree_ok t' \<and> btree_insert key w t' = None"
proof -
  from remove_end [OF assms] obtain v t' where
    t': "btree_remove key t = Some (Some v, t')" "btree_ok t'" "stuck key (root t')" by blast
  then have "btree_insert key w t' = None"
    using ins.never_returns [of "height (root t')" t' key w] by (simp add: btree_ok_def)
  with t' show ?thesis by blast
qed

theorem remove_then_insert_hangs_witness:
  "\<exists>v t'. btree_remove (kb 64) two_leaves = Some (Some v, t') \<and> btree_ok t' \<and> btree_insert (kb 64) [9] t' = None"
  by (rule remove_then_insert_hangs [OF two_leaves_ok two_leaves_routed [unfolded sample_leaf_def new_leaf_with_def]])
    (simp_all add: MIN_KEYS_def MAX_KEYS_def last_map del: upt_rec_numeral)

text \<open>The binary search over cached four-byte key heads finds the same position as a linear
  search over the keys.\<close>
theorem lower_bound_linear:
  assumes "sorted_wrt (<) keys"
  shows "lower_bound keys (heads_for keys) key = length (takeWhile (\<lambda>k. k < key) keys)"
proof -
  from sorted_splits [OF assms] obtain xs ys where ks: "keys = xs @ ys" and sp: "splits_at key xs ys" .
  have "takeWhile (\<lambda>k. k < key) keys = xs"
    using sp unfolding ks splits_at_def by (cases ys) (auto simp: takeWhile_append2)
  with lower_bound_splits [OF sp] show ?thesis by (simp only: ks)
qed

theorem lower_bound_linear_witness:
  "lower_bound [[1, 2, 3, 4, 5], [1, 2, 3, 4, 6]] (heads_for [[1, 2, 3, 4, 5], [1, 2, 3, 4, 6]]) [1, 2, 3, 4, 6]
   = length (takeWhile (\<lambda>k. k < [1, 2, 3, 4, 6]) [[1, 2, 3, 4, 5], [1, 2, 3, 4, 6 :: u8]])"
  by (rule lower_bound_linear) simp

end
