(* ===== verification/Key_Codec.thy ===== *)
theory Key_Codec
  imports Values
begin

text \<open>
  Order-preserving key encodings (\<open>crates/engine/src/types.rs\<close>, \<open>encode_key\<close> to
  \<open>decode_sec_index_key\<close>). The B+ tree compares keys with memcmp, so what matters is that the
  encoded order is the order of the values and that decoding recovers them. Decoders that slice
  \<open>key[1..9]\<close> without a length check panic on short input: \<open>None\<close> is the panic.
\<close>

section \<open>Primary keys\<close>

definition ordered_bits :: "f64 \<Rightarrow> u64" where
  "ordered_bits v = (if f64_le 0 v then v XOR sign_bit else NOT v)"

definition unordered_bits :: "u64 \<Rightarrow> f64" where
  "unordered_bits bits = (if bits AND sign_bit \<noteq> 0 then bits XOR sign_bit else NOT bits)"

fun encode_key :: "datum \<Rightarrow> bytes result" where
  "encode_key (DInt v) = Inr (1 # u64_be (v XOR sign_bit))"
| "encode_key (DFloat v) = Inr (2 # u64_be (ordered_bits v))"
| "encode_key (DText v) = Inr (3 # str_bytes v)"
| "encode_key (DBool v) = Inr [4, bool_byte v]"
| "encode_key (DDateTime v) = Inr (5 # u64_be (v XOR sign_bit))"
| "encode_key DNull = Inl (NotNullViolation ''primary key'')"

definition key_word :: "bytes \<Rightarrow> u64 option" where
  "key_word key = (if length key < 9 then None else Some (u64_of_be (slice key 1 8)))"

definition decode_key :: "bytes \<Rightarrow> datum result option" where
  "decode_key key =
     (if key = [] then Some (Inl (Corrupted ''empty key''))
      else let t = key ! 0 in
        if t = 1 then map_option (\<lambda>w. Inr (DInt (w XOR sign_bit))) (key_word key)
        else if t = 2 then map_option (\<lambda>w. Inr (DFloat (unordered_bits w))) (key_word key)
        else if t = 3 then
          Some (if utf8_valid (drop 1 key) then Inr (DText (bytes_str (drop 1 key)))
                else Inl (Corrupted ''utf8 key''))
        else if t = 4 then
          (if length key < 2 then None else Some (Inr (DBool (key ! 1 \<noteq> 0))))
        else if t = 5 then map_option (\<lambda>w. Inr (DDateTime (w XOR sign_bit))) (key_word key)
        else Some (Inl (Corrupted (''unknown key tag '' @ dec_string (unat t)))))"

section \<open>Secondary index keys\<close>

fun escape :: "bytes \<Rightarrow> bytes" where
  "escape [] = []"
| "escape (b # bs) = (if b = 0 then 0 # 0xFF # escape bs else b # escape bs)"

fun encode_sec_key_prefix :: "datum \<Rightarrow> bytes" where
  "encode_sec_key_prefix DNull = [0]"
| "encode_sec_key_prefix (DInt v) = 1 # u64_be (v XOR sign_bit)"
| "encode_sec_key_prefix (DFloat v) = 2 # u64_be (ordered_bits v)"
| "encode_sec_key_prefix (DText v) = 3 # escape (str_bytes v) @ [0, 0]"
| "encode_sec_key_prefix (DBool v) = [4, bool_byte v]"
| "encode_sec_key_prefix (DDateTime v) = 5 # u64_be (v XOR sign_bit)"

definition encode_sec_index_key :: "datum \<Rightarrow> datum \<Rightarrow> bytes result" where
  "encode_sec_index_key sec pk =
     rbind (encode_key pk) (\<lambda>pk_bytes. Inr (encode_sec_key_prefix sec @ pk_bytes))"

text \<open>The loop of the text case: collect bytes up to the terminator, returning the text and the
  rest of the key after it.\<close>

fun unescape :: "bytes \<Rightarrow> (bytes \<times> bytes) result" where
  "unescape [] = Inl (Corrupted ''unterminated text in secondary key'')"
| "unescape (b # bs) =
     (if b = 0 then
        (case bs of
           [] \<Rightarrow> Inl (Corrupted ''truncated text terminator in secondary key'')
         | c # r \<Rightarrow>
             if c = 0 then Inr ([], r)
             else if c = 0xFF then rbind (unescape r) (\<lambda>(t, rest). Inr (0 # t, rest))
             else Inl (Corrupted ''invalid text escape in secondary key''))
      else rbind (unescape bs) (\<lambda>(t, rest). Inr (b # t, rest)))"

definition decode_sec_part :: "bytes \<Rightarrow> (datum \<times> bytes) result" where
  "decode_sec_part key =
     (if key = [] then Inl (Corrupted ''empty secondary index key'')
      else let tag = key ! 0; w = u64_of_be (slice key 1 8) in
        if tag = 0 then Inr (DNull, drop 1 key)
        else if tag = 1 then
          (if length key < 9 then Inl (Corrupted ''truncated int secondary key'')
           else Inr (DInt (w XOR sign_bit), drop 9 key))
        else if tag = 2 then
          (if length key < 9 then Inl (Corrupted ''truncated float secondary key'')
           else Inr (DFloat (unordered_bits w), drop 9 key))
        else if tag = 3 then
          rbind (unescape (drop 1 key)) (\<lambda>(t, rest).
            if utf8_valid t then Inr (DText (bytes_str t), rest)
            else Inl (Corrupted ''invalid utf8 in secondary key''))
        else if tag = 4 then
          (if length key < 2 then Inl (Corrupted ''truncated bool secondary key'')
           else Inr (DBool (key ! 1 \<noteq> 0), drop 2 key))
        else if tag = 5 then
          (if length key < 9 then Inl (Corrupted ''truncated datetime secondary key'')
           else Inr (DDateTime (w XOR sign_bit), drop 9 key))
        else Inl (Corrupted (''unknown secondary key tag '' @ dec_string (unat tag))))"

definition decode_sec_index_key :: "bytes \<Rightarrow> (datum \<times> datum) result option" where
  "decode_sec_index_key key =
     (case decode_sec_part key of
        Inl e \<Rightarrow> Some (Inl e)
      | Inr (sec, rest) \<Rightarrow>
          map_option (\<lambda>r. rbind r (\<lambda>pk. Inr (sec, pk))) (decode_key rest))"

section \<open>Floats and the sign flip\<close>

text \<open>The floats whose key is faithful: neither negative zero nor a NaN.\<close>

definition float_key_ok :: "f64 \<Rightarrow> bool" where
  "float_key_ok v \<longleftrightarrow> v \<noteq> sign_bit \<and> \<not> f64_nan v"

lemma f64_mag_unat: "f64_mag v = (if unat v < 2 ^ 63 then unat v else unat v - 2 ^ 63)"
proof -
  have "v AND 0x7FFFFFFFFFFFFFFF = take_bit 63 v" by (simp add: take_bit_eq_mask mask_eq_exp_minus_1)
  then have "f64_mag v = unat v mod 2 ^ 63"
    by (simp only: f64_mag_def unsigned_take_bit_eq) (simp add: take_bit_eq_mod)
  with unat_u64_less [of v] show ?thesis by (simp add: mod_if)
qed

lemma f64_neg_unat: "f64_neg v \<longleftrightarrow> 2 ^ 63 \<le> unat v"
  unfolding f64_neg_def and_sign_bit by (rule not_less)

lemma f64_zero: "f64_mag 0 = 0" "\<not> f64_nan 0" "f64_key 0 = 0"
  by (simp_all add: f64_mag_def f64_nan_def f64_key_def f64_neg_def)

text \<open>The same order on natural numbers, where arithmetic decides it.\<close>

definition signed_mag :: "nat \<Rightarrow> int" where
  "signed_mag x = (if x < 2 ^ 63 then int x else 2 ^ 63 - int x)"

definition flipped :: "nat \<Rightarrow> nat" where
  "flipped x = (if x < 2 ^ 63 then x + 2 ^ 63 else 2 ^ 64 - 1 - x)"

lemma f64_key_unat: "f64_key v = signed_mag (unat v)"
proof -
  have "f64_key v = (if 2 ^ 63 \<le> x then - int (if x < 2 ^ 63 then x else x - 2 ^ 63)
                    else int (if x < 2 ^ 63 then x else x - 2 ^ 63))" if "x = unat v" for x
    unfolding that by (simp only: f64_key_def f64_neg_unat f64_mag_unat)
  from this [OF refl] show ?thesis
    unfolding signed_mag_def by (auto simp: of_nat_diff simp del: of_nat_unat)
qed

lemma flipped_less:
  "x < 2 ^ 64 \<Longrightarrow> y < 2 ^ 64 \<Longrightarrow> x \<noteq> 2 ^ 63 \<Longrightarrow> y \<noteq> 2 ^ 63 \<Longrightarrow>
   flipped x < flipped y \<longleftrightarrow> signed_mag x < signed_mag y"
  by (auto simp: flipped_def signed_mag_def)

lemma float_key_ok_unat: "float_key_ok v \<Longrightarrow> unat v \<noteq> 2 ^ 63"
proof
  assume ok: "float_key_ok v" and "unat v = 2 ^ 63"
  then have "v = sign_bit" by (simp add: word_unat_eq_iff)
  with ok show False by (simp add: float_key_ok_def)
qed

lemma ge_zero_iff: "float_key_ok v \<Longrightarrow> f64_le 0 v \<longleftrightarrow> unat v < 2 ^ 63"
proof -
  assume ok: "float_key_ok v"
  have "0 \<le> signed_mag x \<longleftrightarrow> x < 2 ^ 63" if "x \<noteq> 2 ^ 63" for x
    using that by (auto simp: signed_mag_def)
  from this [OF float_key_ok_unat [OF ok]] ok show ?thesis
    by (simp only: f64_le_def f64_zero f64_key_unat float_key_ok_def) (simp add: signed_mag_def [of 0])
qed

lemma unat_ordered_bits:
  "float_key_ok v \<Longrightarrow>
   unat (ordered_bits v) = flipped (unat v)"
  by (simp add: flipped_def ordered_bits_def ge_zero_iff unat_xor_sign unat_not)

lemma unordered_ordered: "float_key_ok v \<Longrightarrow> unordered_bits (ordered_bits v) = v"
proof -
  assume ok: "float_key_ok v"
  have s: "ordered_bits v AND sign_bit \<noteq> 0 \<longleftrightarrow> unat v < 2 ^ 63"
    using unat_u64_less [of v] by (auto simp: and_sign_bit unat_ordered_bits [OF ok] flipped_def)
  show ?thesis
    unfolding unordered_bits_def s unfolding ordered_bits_def ge_zero_iff [OF ok]
    by (simp add: xor.assoc)
qed

lemma ordered_bits_less:
  assumes "float_key_ok a" "float_key_ok b"
  shows "f64_lt a b \<longleftrightarrow> ordered_bits a < ordered_bits b"
proof -
  have "flipped (unat a) < flipped (unat b) \<longleftrightarrow> signed_mag (unat a) < signed_mag (unat b)"
    by (intro flipped_less unat_u64_less float_key_ok_unat assms)
  with assms show ?thesis
    by (simp add: f64_lt_def float_key_ok_def f64_key_unat word_less_nat_alt unat_ordered_bits)
qed

section \<open>Primary keys: round trip and order\<close>

fun key_ok :: "datum \<Rightarrow> bool" where
  "key_ok (DFloat v) = float_key_ok v"
| "key_ok (DText s) = valid_str s"
| "key_ok DNull = False"
| "key_ok _ = True"

fun same_kind :: "datum \<Rightarrow> datum \<Rightarrow> bool" where
  "same_kind DNull DNull = True"
| "same_kind (DInt _) (DInt _) = True"
| "same_kind (DFloat _) (DFloat _) = True"
| "same_kind (DText _) (DText _) = True"
| "same_kind (DBool _) (DBool _) = True"
| "same_kind (DDateTime _) (DDateTime _) = True"
| "same_kind _ _ = False"

lemma key_word_be [codec_simps]: "key_word (t # u64_be w @ r) = Some w"
  by (simp add: key_word_def slice_def codec_simps)

lemma key_word_be_Nil [codec_simps]: "key_word (t # u64_be w) = Some w"
  using key_word_be [of t w "[]"] by simp

lemma xor_sign_cancel [simp]: "((v :: u64) XOR sign_bit) XOR sign_bit = v"
  by (simp add: xor.assoc)

lemma encode_key_total: "d \<noteq> DNull \<Longrightarrow> \<exists>k. encode_key d = Inr k"
  by (cases d) auto

lemma decode_encode_key:
  "key_ok d \<Longrightarrow> encode_key d = Inr k \<Longrightarrow> decode_key k = Some (Inr d)"
  by (cases d) (auto simp: decode_key_def codec_simps unordered_ordered bool_byte_def)

lemma cmp_Less [simp]: "cmp a b = Less \<longleftrightarrow> a < b"
  by (auto simp: cmp_def)

lemma partial_cmp_Less: "unwrap_or_equal (partial_cmp_f64 a b) = Less \<longleftrightarrow> f64_lt a b"
  by (auto simp: unwrap_or_equal_def partial_cmp_f64_def f64_lt_def)

lemma u64_be_less_iff: "u64_be u < u64_be w \<longleftrightarrow> u < w"
proof
  assume "u64_be u < u64_be w"
  then show "u < w"
    by (cases u w rule: linorder_cases) (auto dest: u64_be_less)
qed (rule u64_be_less)

lemma bool_byte_less: "bool_byte a < bool_byte b \<longleftrightarrow> a < b"
  by (auto simp: bool_byte_def)

text \<open>Within one kind of value, memcmp on encoded keys is the order of the values.\<close>

lemma encode_key_less_iff:
  assumes "key_ok a" "key_ok b" "same_kind a b"
    and "encode_key a = Inr ka" "encode_key b = Inr kb"
  shows "ka < kb \<longleftrightarrow> datum_lt a b"
  using assms
  by (cases a; cases b)
     (auto simp: datum_cmp_def u64_be_less_iff sint_less_xor ordered_bits_less partial_cmp_Less
        bool_byte_less)

section \<open>Secondary keys: round trip and order\<close>

lemma unescape_escape: "unescape (escape t @ 0 # 0 # r) = Inr (t, r)"
  by (induction t) auto

lemma escape_less: "(s :: bytes) < t \<Longrightarrow> escape s @ 0 # 0 # a < escape t @ 0 # 0 # b"
proof (induction s arbitrary: t)
  case Nil
  then obtain c t' where t: "t = c # t'" by (cases t) auto
  show ?case
  proof (cases "c = 0")
    case False
    then have "0 < c" by (simp add: word_gt_0)
    with t False show ?thesis by simp
  qed (simp add: t)
next
  case (Cons x s)
  then obtain c t' where t: "t = c # t'" by (cases t) auto
  from Cons.prems t have "x < c \<or> x = c \<and> s < t'" by auto
  then show ?case
  proof
    assume lt: "x < c"
    then have "c \<noteq> 0" by auto
    with lt show ?thesis by (cases "x = 0") (auto simp: t)
  next
    assume "x = c \<and> s < t'"
    with Cons.IH [of t'] show ?thesis by (simp add: t)
  qed
qed

fun sec_ok :: "datum \<Rightarrow> bool" where
  "sec_ok DNull = True"
| "sec_ok d = key_ok d"

lemma decode_sec_part_encode:
  "sec_ok s \<Longrightarrow> decode_sec_part (encode_sec_key_prefix s @ r) = Inr (s, r)"
  by (cases s)
     (auto simp: decode_sec_part_def codec_simps slice_def unordered_ordered bool_byte_def
        unescape_escape)

lemma decode_encode_sec_index_key:
  "sec_ok s \<Longrightarrow> key_ok p \<Longrightarrow> encode_sec_index_key s p = Inr k \<Longrightarrow>
   decode_sec_index_key k = Some (Inr (s, p))"
  by (auto simp: encode_sec_index_key_def decode_sec_index_key_def rbind_eq_Inr
      decode_sec_part_encode decode_encode_key)

lemma sec_prefix_less:
  assumes "sec_ok s" "sec_ok t" "same_kind s t" "datum_lt s t"
  shows "encode_sec_key_prefix s @ a < encode_sec_key_prefix t @ b"
  using assms
  by (cases s; cases t)
     (auto simp: datum_cmp_def sint_less_xor ordered_bits_less partial_cmp_Less bool_byte_less
        u64_be_less_iff escape_less less_append_left)

lemma encode_sec_index_key_less:
  assumes "sec_ok s" "sec_ok t" "same_kind s t" "key_ok p" "key_ok q" "same_kind p q"
    and "encode_sec_index_key s p = Inr k" "encode_sec_index_key t q = Inr l"
    and "datum_lt s t \<or> s = t \<and> datum_lt p q"
  shows "k < l"
proof -
  from assms(7,8) obtain kp kq where p: "encode_key p = Inr kp" and q: "encode_key q = Inr kq"
    and k: "k = encode_sec_key_prefix s @ kp" and l: "l = encode_sec_key_prefix t @ kq"
    by (auto simp: encode_sec_index_key_def rbind_eq_Inr)
  show ?thesis
  proof (cases "datum_lt s t")
    case True
    with assms show ?thesis by (simp add: k l sec_prefix_less)
  next
    case False
    with assms(9) have "s = t" "datum_lt p q" by auto
    with encode_key_less_iff [OF assms(4-6) p q] show ?thesis by (simp add: k l)
  qed
qed

section \<open>Properties\<close>



text \<open>Key round trip: every such key value is recovered from its encoded key.\<close>

theorem key_round_trip:
  assumes "key_ok d"
  shows "\<exists>k. encode_key d = Inr k \<and> decode_key k = Some (Inr d)"
  using assms decode_encode_key encode_key_total by (metis key_ok.simps(3))

theorem key_round_trip_witness:
  "\<exists>k. encode_key (DFloat 0xBFF8000000000000) = Inr k \<and>
       decode_key k = Some (Inr (DFloat 0xBFF8000000000000))"
  by (rule key_round_trip) (simp add: float_key_ok_def f64_nan_def f64_mag_def)

text \<open>Secondary index entries: the encoding of (secondary value, primary key) sorts first by the
  secondary value and then by the primary key, for values of one kind each, with escaped text and
  NULL included.\<close>

theorem sec_index_order:
  assumes "sec_ok s" "sec_ok t" "same_kind s t" "key_ok p" "key_ok q" "same_kind p q"
    and "datum_cmp s t = Less \<or> s = t \<and> datum_cmp p q = Less"
  shows "\<exists>k l. encode_sec_index_key s p = Inr k \<and> encode_sec_index_key t q = Inr l \<and> k < l"
proof -
  from assms(4,5) obtain kp kq where "encode_key p = Inr kp" "encode_key q = Inr kq"
    by (metis encode_key_total key_ok.simps(3))
  then obtain k l where "encode_sec_index_key s p = Inr k" "encode_sec_index_key t q = Inr l"
    by (simp add: encode_sec_index_key_def)
  with encode_sec_index_key_less [OF assms(1-6) _ _ assms(7)] show ?thesis by blast
qed

theorem sec_index_order_witness:
  "\<exists>k l. encode_sec_index_key (DText ''cat'') (DInt 2) = Inr k \<and>
     encode_sec_index_key (DText ''caterpillar'') (DInt 1) = Inr l \<and> k < l"
proof (rule sec_index_order)
  show "datum_cmp (DText ''cat'') (DText ''caterpillar'') = Less \<or>
        DText ''cat'' = DText ''caterpillar'' \<and> datum_cmp (DInt 2) (DInt 1) = Less"
    by (simp add: datum_cmp_def cmp_def str_bytes_def)
qed (simp_all add: str_bytes_def in_range_def)

text \<open>Secondary index round trip: an index entry decodes to the pair it was made from.\<close>

theorem sec_index_round_trip:
  assumes "sec_ok s" "key_ok p"
  shows "\<exists>k. encode_sec_index_key s p = Inr k \<and> decode_sec_index_key k = Some (Inr (s, p))"
proof -
  from assms(2) obtain kp where "encode_key p = Inr kp"
    by (metis encode_key_total key_ok.simps(3))
  then have "encode_sec_index_key s p = Inr (encode_sec_key_prefix s @ kp)"
    by (simp add: encode_sec_index_key_def)
  with decode_encode_sec_index_key [OF assms] show ?thesis by blast
qed

theorem sec_index_round_trip_witness:
  "\<exists>k. encode_sec_index_key DNull (DBool True) = Inr k \<and>
       decode_sec_index_key k = Some (Inr (DNull, DBool True))"
  by (rule sec_index_round_trip) simp_all

text \<open>Negative zero breaks the float key encoding: it equals positive zero as a value, but its key
  sorts below the key of \<open>- 1.0\<close> and decodes to a NaN. The comment in \<open>encode_key\<close> calls the
  encoding the IEEE-754 total order.\<close>

theorem negative_zero_key:
  "\<exists>kz km v. datum_cmp (DFloat sign_bit) (DFloat 0) = Equal \<and>
     datum_cmp (DFloat 0xBFF0000000000000) (DFloat sign_bit) = Less \<and>
     encode_key (DFloat sign_bit) = Inr kz \<and> encode_key (DFloat 0xBFF0000000000000) = Inr km \<and>
     kz < km \<and> decode_key kz = Some (Inr (DFloat v)) \<and> f64_nan v"
proof -
  note f64 = f64_nan_def f64_key_def f64_neg_def f64_mag_def f64_le_def
  have z: "encode_key (DFloat sign_bit) = Inr (2 # u64_be 0)"
    by (simp add: ordered_bits_def f64)
  have m: "encode_key (DFloat 0xBFF0000000000000) = Inr (2 # u64_be 0x400FFFFFFFFFFFFF)"
    by (simp add: ordered_bits_def f64)
  have "u64_be 0 < u64_be 0x400FFFFFFFFFFFFF" by (rule u64_be_less) simp
  moreover have "decode_key (2 # u64_be 0) = Some (Inr (DFloat (- 1)))"
    by (simp only: decode_key_def codec_simps) (simp add: unordered_bits_def)
  moreover have "f64_nan (- 1)" by (simp add: f64)
  moreover have "datum_cmp (DFloat sign_bit) (DFloat 0) = Equal"
    "datum_cmp (DFloat 0xBFF0000000000000) (DFloat sign_bit) = Less"
    by (simp_all add: datum_cmp_def unwrap_or_equal_def partial_cmp_f64_def cmp_def f64)
  ultimately show ?thesis using z m
    by (metis (no_types, opaque_lifting) less_list_code(3) Cons_less_Cons)
qed

text \<open>Integers and floats of one column are not in value order: a FLOAT column accepts integer
  datums as they are, and the key of the integer 2 sorts below the key of the float 1.5.\<close>

theorem mixed_numeric_keys_out_of_order:
  "\<exists>ka kb. accepts TFloat (DInt 2) \<and> accepts TFloat (DFloat 0x3FF8000000000000) \<and>
     datum_cmp (DFloat 0x3FF8000000000000) (DInt 2) = Less \<and>
     encode_key (DInt 2) = Inr ka \<and> encode_key (DFloat 0x3FF8000000000000) = Inr kb \<and> ka < kb"
proof -
  have "datum_cmp (DFloat 0x3FF8000000000000) (DInt 2) = Less"
    by (simp add: datum_cmp_def unwrap_or_equal_def partial_cmp_f64_def cmp_def f64_nan_def
        f64_key_def f64_neg_def f64_mag_def f64_of_i64_def f64_of_mag_def bit_length.simps Let_def)
  then show ?thesis by simp
qed

end
