(* ===== verification/Date_Time.thy ===== *)
theory Date_Time
  imports Values "HOL-Library.Signed_Division"
begin

text \<open>
  Date and time text (\<open>parse_datetime_str\<close>, \<open>format_datetime_micros\<close> and the civil-calendar
  conversions of \<open>crates/engine/src/types.rs\<close>). Values are microseconds since 1970-01-01 in an
  \<open>i64\<close>. The calendar arithmetic is on integers: the \<open>u32\<close> intermediates stay in range (that is
  proved), and the final products, which can exceed an \<open>i64\<close> for a parsed year above 292277, wrap as
  in a release build.
\<close>

section \<open>The civil calendar\<close>

definition ymd_to_days :: "int \<Rightarrow> int \<Rightarrow> int \<Rightarrow> int" where
  "ymd_to_days y0 m0 d =
     (let y = y0 - (if m0 \<le> 2 then 1 else 0);
          era = (if y \<ge> 0 then y else y - 399) sdiv 400;
          yoe = y - era * 400;
          m = m0 + (if m0 > 2 then 0 else 12);
          doy = (153 * (m - 3) + 2) div 5 + d - 1;
          doe = yoe * 365 + yoe div 4 - yoe div 100 + doy
      in era * 146097 + doe - 719468)"

definition doe_year :: "int \<Rightarrow> int" where
  "doe_year doe = (doe - doe div 1460 + doe div 36524 - doe div 146096) div 365"

definition days_to_ymd :: "int \<Rightarrow> int \<times> int \<times> int" where
  "days_to_ymd days =
     (let z = days + 719468;
          era = (if z \<ge> 0 then z else z - 146096) sdiv 146097;
          doe = z - era * 146097;
          yoe = doe_year doe;
          y = yoe + era * 400;
          doy = doe - (365 * yoe + yoe div 4 - yoe div 100);
          mp = (5 * doy + 2) div 153;
          d = doy - (153 * mp + 2) div 5 + 1;
          m = (if mp < 10 then mp + 3 else mp - 9)
      in (y + (if m \<le> 2 then 1 else 0), m, d))"

lemma sdiv_floor:
  assumes "0 < (n :: int)" "k = n - 1"
  shows "(if z \<ge> 0 then z else z - k) sdiv n = z div n"
proof (cases "z \<ge> 0")
  case True
  then show ?thesis using assms by (cases "z = 0") (simp_all add: signed_divide_int_def)
next
  case False
  have "(n - 1 - z) div n = - (z div n)"
  proof (rule int_div_pos_eq)
    show "n - 1 - z = n * - (z div n) + (n - 1 - z mod n)"
      using mult_div_mod_eq [of n z] by (simp add: algebra_simps)
  qed (use assms pos_mod_bound [of n z] pos_mod_sign [of n z] in linarith)+
  moreover have "\<bar>z - k\<bar> = n - 1 - z" "sgn (z - k) = - 1" using False assms by auto
  ultimately show ?thesis using False assms by (simp add: signed_divide_int_def)
qed

lemma doe_year_quotients:
  assumes "0 \<le> doe" "doe < 146096"
  obtains a b y where "doe_year doe = y" "1460 * a \<le> doe" "doe < 1460 * a + 1460"
    "36524 * b \<le> doe" "doe < 36524 * b + 36524" "365 * y \<le> doe - a + b" "doe - a + b < 365 * y + 365"
    "b = 0 \<or> b = 1 \<or> b = 2 \<or> b = 3"
proof -
  have "doe div 146096 = 0" using assms by simp
  then have "365 * doe_year doe \<le> doe - doe div 1460 + doe div 36524"
    "doe - doe div 1460 + doe div 36524 < 365 * doe_year doe + 365"
    unfolding doe_year_def by linarith+
  moreover have "1460 * (doe div 1460) \<le> doe" "doe < 1460 * (doe div 1460) + 1460"
    "36524 * (doe div 36524) \<le> doe" "doe < 36524 * (doe div 36524) + 36524" by linarith+
  moreover have "doe div 36524 = 0 \<or> doe div 36524 = 1 \<or> doe div 36524 = 2 \<or> doe div 36524 = 3"
    using assms by linarith
  ultimately show ?thesis by (intro that [OF refl])
qed

lemma doe_century:
  assumes "1460 * a \<le> doe" "doe < 1460 * a + 1460"
    "36524 * b \<le> doe" "doe < 36524 * b + 36524" "365 * y \<le> doe - a + b" "doe - a + b < 365 * y + 365"
    "b = 0 \<or> b = 1 \<or> b = 2 \<or> b = (3 :: int)"
  shows "100 * b \<le> y \<and> y < 100 * b + 100"
proof -
  have b: "0 \<le> b" "b \<le> 3" using assms(7) by auto
  have "36500 * b \<le> doe - a + b"
  proof (cases "a \<le> 25 * b")
    case True then show ?thesis using assms(1-6) b by linarith
  next
    case False then show ?thesis using assms(1-6) b by linarith
  qed
  moreover have "doe - a + b < 36500 * b + 36500"
  proof (cases "a \<le> 25 * b + 24")
    case True
    then have "1459 * a \<le> 36475 * b + 35016" by linarith
    then show ?thesis using assms(2) b by linarith
  next
    case False then show ?thesis using assms(1-6) b by linarith
  qed
  ultimately show ?thesis using assms(1-6) by linarith
qed

lemma doe_bounds:
  assumes "0 \<le> doe" "doe < 146097"
  defines "y \<equiv> doe_year doe"
  shows "0 \<le> y \<and> y \<le> 399 \<and> 0 \<le> doe - (365 * y + y div 4 - y div 100) \<and>
    doe - (365 * y + y div 4 - y div 100) \<le> 365"
proof (cases "doe = 146096")
  case True
  then show ?thesis by (simp add: y_def doe_year_def)
next
  case False
  then have "doe < 146096" using assms by simp
  with assms(1) obtain a b y' where y': "doe_year doe = y'" and
    f: "1460 * a \<le> doe" "doe < 1460 * a + 1460"
    "36524 * b \<le> doe" "doe < 36524 * b + 36524" "365 * y' \<le> doe - a + b" "doe - a + b < 365 * y' + 365"
    "b = 0 \<or> b = 1 \<or> b = 2 \<or> b = 3" 
    by (rule doe_year_quotients)
  note c = doe_century [OF f, folded y', folded y_def]
  note f = f [folded y', folded y_def]
  have b: "0 \<le> b" "b \<le> 3" using f(7) by auto
  define p where "p = y div 4"
  have p: "4 * p \<le> y" "y < 4 * p + 4" unfolding p_def by linarith+
  have q: "y div 100 = b" using c by linarith
  have "25 * b \<le> a" "a \<le> 100" using f(1-4) b by linarith+
  then have "p \<le> a" "a \<le> p + 1" using p f(1-6) b by linarith+
  then show ?thesis unfolding q p_def [symmetric] using f(1-6) c b by linarith
qed

lemma month_of_day:
  assumes "0 \<le> doy" "doy \<le> (365 :: int)"
  defines "mp \<equiv> (5 * doy + 2) div 153"
  shows "0 \<le> mp \<and> mp \<le> 11 \<and> 1 \<le> doy - (153 * mp + 2) div 5 + 1 \<and> doy - (153 * mp + 2) div 5 + 1 \<le> 31"
  using assms(1,2) unfolding mp_def by linarith

lemma days_to_ymd_parts:
  assumes "days_to_ymd z = (y, m, d)"
  obtains era yoe doy mp where "era = (z + 719468) div 146097"
    "z + 719468 = era * 146097 + (365 * yoe + yoe div 4 - yoe div 100 + doy)"
    "0 \<le> yoe" "yoe \<le> 399" "0 \<le> doy" "doy \<le> 365" "mp = (5 * doy + 2) div 153" "0 \<le> mp" "mp \<le> 11"
    "1 \<le> d" "d \<le> 31" "d = doy - (153 * mp + 2) div 5 + 1" "m = (if mp < 10 then mp + 3 else mp - 9)"
    "y = yoe + era * 400 + (if m \<le> 2 then 1 else 0)"
proof -
  define era where "era = (z + 719468) div 146097"
  define doe where "doe = (z + 719468) - era * 146097"
  define yoe where "yoe = doe_year doe"
  define doy where "doy = doe - (365 * yoe + yoe div 4 - yoe div 100)"
  define mp where "mp = (5 * doy + 2) div 153"
  have "0 \<le> doe" "doe < 146097" unfolding doe_def era_def by linarith+
  from doe_bounds [OF this] have yoe: "0 \<le> yoe" "yoe \<le> 399" and doy: "0 \<le> doy" "doy \<le> 365"
    unfolding doy_def yoe_def by auto
  note mp = month_of_day [OF doy, folded mp_def]
  have sd: "(if z + 719468 \<ge> 0 then z + 719468 else z + 719468 - 146096) sdiv 146097 = era"
    unfolding era_def by (rule sdiv_floor) simp_all
  have f: "m = (if mp < 10 then mp + 3 else mp - 9)" "d = doy - (153 * mp + 2) div 5 + 1"
    "y = yoe + era * 400 + (if m \<le> 2 then 1 else 0)"
    using assms unfolding days_to_ymd_def Let_def sd doe_def [symmetric] yoe_def [symmetric] doy_def [symmetric]
      mp_def [symmetric] by auto
  have z: "z + 719468 = era * 146097 + (365 * yoe + yoe div 4 - yoe div 100 + doy)"
    unfolding doy_def doe_def by simp
  have mp': "0 \<le> mp" "mp \<le> 11" and d: "1 \<le> d" "d \<le> 31" using mp f(2) by simp_all
  show ?thesis by (rule that [OF era_def z yoe doy mp_def mp' d f(2,1,3)])
qed

lemma days_to_ymd_fields:
  assumes "days_to_ymd z = (y, m, d)"
  shows "1 \<le> m \<and> m \<le> 12 \<and> 1 \<le> d \<and> d \<le> 31 \<and> ymd_to_days y m d = z"
proof -
  from assms obtain era yoe doy mp where p:
    "z + 719468 = era * 146097 + (365 * yoe + yoe div 4 - yoe div 100 + doy)"
    "0 \<le> yoe" "yoe \<le> 399" "0 \<le> mp" "mp \<le> 11" "1 \<le> d" "d \<le> 31" "d = doy - (153 * mp + 2) div 5 + 1"
    "m = (if mp < 10 then mp + 3 else mp - 9)" "y = yoe + era * 400 + (if m \<le> 2 then 1 else 0)"
    by (rule days_to_ymd_parts)
  have yy: "y - (if m \<le> 2 then 1 else 0) = yoe + era * 400" using p(10) by simp
  have "(yoe + era * 400) div 400 = era" using p(2,3) by simp
  moreover have "(if yoe + era * 400 \<ge> 0 then yoe + era * 400 else yoe + era * 400 - 399) sdiv 400
      = (yoe + era * 400) div 400" by (rule sdiv_floor) simp_all
  ultimately have sd4: "(if yoe + era * 400 \<ge> 0 then yoe + era * 400 else yoe + era * 400 - 399) sdiv 400 = era"
    by (simp only:)
  have mm: "m + (if m > 2 then 0 else 12) - 3 = mp" using p(4,5,9) by auto
  have "ymd_to_days y m d = era * 146097 + (yoe * 365 + yoe div 4 - yoe div 100 + ((153 * mp + 2) div 5 + d - 1)) - 719468"
    unfolding ymd_to_days_def Let_def yy sd4 mm by simp
  also have "\<dots> = z" using p(1,8) by simp
  finally show ?thesis using p(4-7,9) by auto
qed

section \<open>Splitting and reading numbers\<close>

text \<open>The length in bytes of a white-space character (\<open>char::is_whitespace\<close>) at the start of a
  UTF-8 string, or 0.\<close>

definition ws_len :: "string \<Rightarrow> nat" where
  "ws_len s =
     (let c = (\<lambda>i. if i < length s then of_char (s ! i) else (256 :: nat)) in
      if c 0 \<in> {9, 10, 11, 12, 13, 32} then 1
      else if c 0 = 0xC2 \<and> c 1 \<in> {0x85, 0xA0} then 2
      else if c 0 = 0xE1 \<and> c 1 = 0x9A \<and> c 2 = 0x80 then 3
      else if c 0 = 0xE2 \<and> c 1 = 0x80 \<and> (0x80 \<le> c 2 \<and> c 2 \<le> 0x8A \<or> c 2 \<in> {0xA8, 0xA9, 0xAF}) then 3
      else if c 0 = 0xE2 \<and> c 1 = 0x81 \<and> c 2 = 0x9F then 3
      else if c 0 = 0xE3 \<and> c 1 = 0x80 \<and> c 2 = 0x80 then 3
      else 0)"

definition flush :: "string \<Rightarrow> string list" where
  "flush w = (if w = [] then [] else [w])"

function split_whitespace :: "string \<Rightarrow> string \<Rightarrow> string list" where
  "split_whitespace s w =
     (if s = [] then flush w
      else if 0 < ws_len s then flush w @ split_whitespace (drop (ws_len s) s) []
      else split_whitespace (tl s) (w @ [hd s]))"
  by pat_completeness auto
termination
  by (relation "measure (length \<circ> fst)") auto

declare split_whitespace.simps [simp del]

fun split_on :: "char \<Rightarrow> string \<Rightarrow> string list" where
  "split_on c [] = [[]]"
| "split_on c (x # xs) =
     (if x = c then [] # split_on c xs
      else case split_on c xs of p # ps \<Rightarrow> (x # p) # ps | [] \<Rightarrow> [[x]])"

definition is_digit :: "char \<Rightarrow> bool" where
  "is_digit c \<longleftrightarrow> 48 \<le> (of_char c :: nat) \<and> (of_char c :: nat) \<le> 57"

definition digits_val :: "string \<Rightarrow> nat" where
  "digits_val s = foldl (\<lambda>a c. a * 10 + (of_char c - 48)) 0 s"

definition parse_digits :: "string \<Rightarrow> nat option" where
  "parse_digits s = (if s \<noteq> [] \<and> list_all is_digit s then Some (digits_val s) else None)"

definition parse_u32 :: "string \<Rightarrow> nat option" where
  "parse_u32 s =
     (case parse_digits (if s \<noteq> [] \<and> hd s = CHR ''+'' then tl s else s) of
        Some n \<Rightarrow> if n < 2 ^ 32 then Some n else None
      | None \<Rightarrow> None)"

definition parse_i32 :: "string \<Rightarrow> int option" where
  "parse_i32 s =
     (if s \<noteq> [] \<and> hd s = CHR ''-'' then
        (case parse_digits (tl s) of
           Some n \<Rightarrow> if n \<le> 2 ^ 31 then Some (- int n) else None | None \<Rightarrow> None)
      else
        (case parse_digits (if s \<noteq> [] \<and> hd s = CHR ''+'' then tl s else s) of
           Some n \<Rightarrow> if n < 2 ^ 31 then Some (int n) else None | None \<Rightarrow> None))"

section \<open>Parsing\<close>

definition scale_fraction :: "nat \<Rightarrow> nat \<Rightarrow> nat" where
  "scale_fraction val len =
     (if len < 6 then ((\<lambda>v. v * 10) ^^ (6 - len)) val else ((\<lambda>v. v div 10) ^^ (len - 6)) val)"

definition parse_seconds :: "string \<Rightarrow> (nat \<times> nat) option" where
  "parse_seconds t =
     (let sec_parts = split_on CHR ''.'' t in
      case parse_u32 (sec_parts ! 0) of
        None \<Rightarrow> None
      | Some s \<Rightarrow>
          if length sec_parts = 2 then
            (case parse_u32 (sec_parts ! 1) of
               None \<Rightarrow> None
             | Some v \<Rightarrow> Some (s, scale_fraction v (length (sec_parts ! 1))))
          else Some (s, 0))"

definition parse_time :: "string \<Rightarrow> (nat \<times> nat \<times> nat \<times> nat) option" where
  "parse_time t =
     (case split_on CHR '':'' t of
        [hs, ms, ss] \<Rightarrow>
          (case (parse_u32 hs, parse_u32 ms, parse_seconds ss) of
             (Some h, Some m, Some (s, us)) \<Rightarrow> Some (h, m, s, us)
           | _ \<Rightarrow> None)
      | _ \<Rightarrow> None)"

definition parse_date :: "string \<Rightarrow> (int \<times> nat \<times> nat) option" where
  "parse_date t =
     (case split_on CHR ''-'' t of
        [ys, ms, ds] \<Rightarrow>
          (case (parse_i32 ys, parse_u32 ms, parse_u32 ds) of
             (Some y, Some m, Some d) \<Rightarrow> Some (y, m, d)
           | _ \<Rightarrow> None)
      | _ \<Rightarrow> None)"

definition parse_datetime_str :: "string \<Rightarrow> i64 option" where
  "parse_datetime_str s =
     (let parts = split_whitespace s [] in
      if parts = [] \<or> length parts > 2 then None
      else case parse_date (parts ! 0) of
        None \<Rightarrow> None
      | Some (year, month, day) \<Rightarrow>
          (case (if length parts = 2 then parse_time (parts ! 1) else Some (0, 0, 0, 0)) of
             None \<Rightarrow> None
           | Some (hour, minute, sec, micros) \<Rightarrow>
               if month = 0 \<or> month > 12 \<or> day = 0 \<or> day > 31 \<or> hour \<ge> 24 \<or> minute \<ge> 60 \<or> sec \<ge> 60
               then None
               else
                 let days = ymd_to_days year (int month) (int day);
                     secs = days * 86400 + int hour * 3600 + int minute * 60 + int sec
                 in Some (word_of_int (secs * 1000000 + int micros))))"

section \<open>Formatting\<close>

definition pad_num :: "nat \<Rightarrow> nat \<Rightarrow> string" where
  "pad_num w n = replicate (w - length (dec_string n)) CHR ''0'' @ dec_string n"

definition pad_year :: "int \<Rightarrow> string" where
  "pad_year y = (if y < 0 then CHR ''-'' # pad_num 3 (nat (- y)) else pad_num 4 (nat y))"

definition format_datetime_micros :: "i64 \<Rightarrow> string" where
  "format_datetime_micros micros =
     (let secs = sint micros div 1000000;
          micro_part = sint micros mod 1000000;
          days = secs div 86400;
          tod = secs mod 86400;
          hour = tod div 3600;
          minute = (tod mod 3600) div 60;
          sec = tod mod 60;
          (y, m, d) = days_to_ymd days
      in pad_year y @ ''-'' @ pad_num 2 (nat m) @ ''-'' @ pad_num 2 (nat d) @ '' '' @
         pad_num 2 (nat hour) @ '':'' @ pad_num 2 (nat minute) @ '':'' @ pad_num 2 (nat sec) @
         (if micro_part > 0 then ''.'' @ pad_num 6 (nat micro_part) else []))"

lemma days_to_ymd_year:
  assumes "days_to_ymd z = (y, m, d)"
  shows "y < 0 \<longleftrightarrow> z < - 719528" "y \<le> 400 * ((z + 719468) div 146097) + 400"
proof -
  from assms obtain era yoe doy mp where e: "era = (z + 719468) div 146097" and
    z: "z + 719468 = era * 146097 + (365 * yoe + yoe div 4 - yoe div 100 + doy)"
    and yoe: "0 \<le> yoe" "yoe \<le> 399" and doy: "0 \<le> doy" "doy \<le> 365" and mp: "mp = (5 * doy + 2) div 153" "0 \<le> mp" "mp \<le> 11"
    and m: "m = (if mp < 10 then mp + 3 else mp - 9)" and y: "y = yoe + era * 400 + (if m \<le> 2 then 1 else 0)"
    by (rule days_to_ymd_parts)
  show "y \<le> 400 * ((z + 719468) div 146097) + 400" using y yoe e by auto
  have m2: "m \<le> 2 \<longleftrightarrow> 306 \<le> doy" using m mp by auto
  define doe where "doe = 365 * yoe + yoe div 4 - yoe div 100 + doy"
  have z': "z = era * 146097 + doe - 719468" using z by (simp add: doe_def)
  have de: "0 \<le> doe" "doe < 146097" using z e unfolding doe_def by linarith+
  have last: "yoe = 399 \<and> 306 \<le> doy \<longleftrightarrow> 146037 \<le> doe"
  proof
    assume h: "146037 \<le> doe"
    have "yoe = 399"
    proof (rule ccontr)
      assume "yoe \<noteq> 399"
      with yoe have "yoe \<le> 398" by simp
      moreover from this yoe have "yoe div 4 \<le> 99" "0 \<le> yoe div 100" by linarith+
      ultimately show False using doy h unfolding doe_def by linarith
    qed
    then show "yoe = 399 \<and> 306 \<le> doy" using h by (simp add: doe_def)
  qed (simp add: doe_def)
  consider "0 \<le> era" | "era = - 1" | "era \<le> - 2" by linarith
  then show "y < 0 \<longleftrightarrow> z < - 719528"
  proof cases
    case 1
    then show ?thesis using y yoe z' de by auto
  next
    case 2
    then have "y < 0 \<longleftrightarrow> \<not> (yoe = 399 \<and> m \<le> 2)" using y yoe by auto
    also have "\<dots> \<longleftrightarrow> doe < 146037" unfolding m2 last by auto
    finally show ?thesis using z' 2 by auto
  next
    case 3
    then show ?thesis using y yoe z' de by auto
  qed
qed

section \<open>Reading back what was written\<close>

lemma of_char_digit: "n < 10 \<Longrightarrow> (of_char (char_of (48 + n :: nat) :: char) :: nat) = 48 + n"
  by simp

lemma dec_string_digits: "dec_string n \<noteq> [] \<and> list_all is_digit (dec_string n) \<and> digits_val (dec_string n) = n"
proof (induction n rule: dec_string.induct)
  case (1 n)
  show ?case
  proof (cases "n < 10")
    case True
    then show ?thesis by (subst (1 2 3) dec_string.simps) (simp add: is_digit_def digits_val_def)
  next
    case False
    with 1 show ?thesis
      by (subst (1 2 3) dec_string.simps) (simp add: is_digit_def [of "char_of _"] digits_val_def)
  qed
qed

lemma digits_val_zeros: "digits_val (replicate k CHR ''0'' @ s) = digits_val s"
  by (induction k) (simp_all add: digits_val_def)

lemma pad_num_digits:
  "pad_num w n \<noteq> [] \<and> list_all is_digit (pad_num w n) \<and> digits_val (pad_num w n) = n"
  using dec_string_digits [of n] by (auto simp: pad_num_def digits_val_zeros list_all_iff) (simp add: is_digit_def)

lemma parse_digits_pad: "parse_digits (pad_num w n) = Some n"
  using pad_num_digits [of w n] by (simp add: parse_digits_def)

lemma hd_pad: "is_digit (hd (pad_num w n))"
  using pad_num_digits [of w n] by (auto simp: list_all_iff)

lemma digit_not: "is_digit c \<Longrightarrow> c \<noteq> CHR ''+'' \<and> c \<noteq> CHR ''-'' \<and> c \<noteq> CHR '':'' \<and> c \<noteq> CHR ''.''"
  by (auto simp: is_digit_def)

lemma parse_pad:
  "n < 2 ^ 32 \<Longrightarrow> parse_u32 (pad_num w n) = Some n" "n < 2 ^ 31 \<Longrightarrow> parse_i32 (pad_num w n) = Some (int n)"
  using digit_not [OF hd_pad [of w n]] parse_digits_pad [of w n] by (simp_all add: parse_u32_def parse_i32_def)

lemma dec_string_length: "n < 10 ^ k \<Longrightarrow> 0 < k \<Longrightarrow> length (dec_string n) \<le> k"
proof (induction k arbitrary: n)
  case (Suc k)
  show ?case
  proof (cases "n < 10")
    case False
    with Suc.prems have "n div 10 < 10 ^ k" "0 < k" by (auto simp: less_mult_imp_div_less mult.commute intro: gr0I)
    with Suc.IH [of "n div 10"] False show ?thesis by (subst dec_string.simps) simp
  qed (subst dec_string.simps, simp)
qed simp

lemma length_pad_num: "n < 10 ^ 6 \<Longrightarrow> length (pad_num 6 n) = 6"
  using dec_string_length [of n 6] by (simp add: pad_num_def)

lemma split_on_ne: "split_on c s \<noteq> []"
  by (induction s) (auto split: list.splits)

lemma split_on_sep: "c \<notin> set a \<Longrightarrow> split_on c (a @ c # b) = a # split_on c b"
  by (induction a) auto

lemma split_on_none: "c \<notin> set a \<Longrightarrow> split_on c a = [a]"
  by (induction a) auto

lemma digits_free: "list_all is_digit s \<Longrightarrow> \<not> is_digit c \<Longrightarrow> c \<notin> set s"
  by (auto simp: list_all_iff)

lemmas pad_free = digits_free [OF conjunct1 [OF conjunct2 [OF pad_num_digits]]]

lemma not_digits: "\<not> is_digit CHR ''-''" "\<not> is_digit CHR '':''" "\<not> is_digit CHR ''.''"
  by (auto simp: is_digit_def)

section \<open>White space\<close>

definition plain :: "char \<Rightarrow> bool" where
  "plain c \<longleftrightarrow> 32 < (of_char c :: nat) \<and> (of_char c :: nat) < 128"

lemma ws_len_plain: "plain c \<Longrightarrow> ws_len (c # s) = 0"
  by (simp add: ws_len_def plain_def Let_def)

lemma ws_len_space: "ws_len (CHR '' '' # s) = 1"
  by (simp add: ws_len_def Let_def)

lemma split_whitespace_word:
  "list_all plain a \<Longrightarrow> split_whitespace (a @ s) w = split_whitespace s (w @ a)"
proof (induction a arbitrary: w)
  case (Cons c a)
  then show ?case by (subst split_whitespace.simps) (simp add: ws_len_plain)
qed simp

lemma split_whitespace_two:
  assumes "list_all plain a" "list_all plain b" "a \<noteq> []" "b \<noteq> []"
  shows "split_whitespace (a @ CHR '' '' # b) [] = [a, b]"
proof -
  have "split_whitespace b [] = [b]"
    using split_whitespace_word [OF assms(2), of "[]" "[]"] assms(4)
    by (simp add: split_whitespace.simps [of "[]"] flush_def)
  then show ?thesis
    using split_whitespace_word [OF assms(1), of "CHR '' '' # b" "[]"] assms(3)
    by (simp add: split_whitespace.simps [of "CHR '' '' # b"] ws_len_space flush_def)
qed

lemma plain_pad: "list_all plain (pad_num w n)"
  using pad_num_digits [of w n] by (auto simp: list_all_iff plain_def is_digit_def)

lemma plain_marks: "plain CHR ''-''" "plain CHR '':''" "plain CHR ''.''"
  by (simp_all add: plain_def)

section \<open>Round trip\<close>

lemma parse_seconds_pad:
  assumes "s < 2 ^ 32" "us < 10 ^ 6"
  shows "parse_seconds (pad_num 2 s @ (if 0 < us then ''.'' @ pad_num 6 us else [])) = Some (s, us)"
proof (cases "0 < us")
  case True
  have "us < 2 ^ 32" using assms(2) by simp
  then show ?thesis
    using True assms parse_pad(1) [OF assms(1), of 2] parse_pad(1) [of us 6] length_pad_num [OF assms(2)]
    by (simp add: parse_seconds_def split_on_sep split_on_none pad_free not_digits scale_fraction_def)
next
  case False
  then show ?thesis using parse_pad(1) [OF assms(1), of 2]
    by (simp add: parse_seconds_def split_on_none pad_free not_digits)
qed

lemma parse_time_pad:
  assumes "h < 24" "mi < 60" "s < 60" "us < 10 ^ 6"
  shows "parse_time (pad_num 2 h @ '':'' @ pad_num 2 mi @ '':'' @ pad_num 2 s @
      (if 0 < us then ''.'' @ pad_num 6 us else [])) = Some (h, mi, s, us)"
proof -
  have "parse_seconds (pad_num 2 s @ (if 0 < us then ''.'' @ pad_num 6 us else [])) = Some (s, us)"
    by (rule parse_seconds_pad) (use assms in simp_all)
  moreover have "CHR '':'' \<notin> set (pad_num 2 s @ (if 0 < us then ''.'' @ pad_num 6 us else []))"
    by (auto simp: pad_free not_digits)
  moreover have "parse_u32 (pad_num 2 h) = Some h" "parse_u32 (pad_num 2 mi) = Some mi"
    using assms by (simp_all add: parse_pad)
  ultimately show ?thesis by (simp add: parse_time_def split_on_sep split_on_none pad_free not_digits)
qed

lemma parse_date_pad:
  assumes "0 \<le> y" "y < 2 ^ 31" "m < 2 ^ 32" "d < 2 ^ 32"
  shows "parse_date (pad_year y @ ''-'' @ pad_num 2 m @ ''-'' @ pad_num 2 d) = Some (y, m, d)"
  using assms parse_pad [of _ 2] parse_pad(2) [of "nat y" 4]
  by (simp add: parse_date_def pad_year_def split_on_sep split_on_none pad_free not_digits nat_less_iff)

lemma parse_date_negative:
  "y < 0 \<Longrightarrow> parse_date (pad_year y @ ''-'' @ pad_num 2 m @ ''-'' @ pad_num 2 d) = None"
  by (simp add: parse_date_def pad_year_def split_on_sep split_on_none pad_free not_digits)

lemma date_plain: "list_all plain (pad_year y @ ''-'' @ pad_num 2 m @ ''-'' @ pad_num 2 d)"
  by (simp add: pad_year_def plain_pad plain_marks)

lemma time_plain:
  "list_all plain (pad_num 2 h @ '':'' @ pad_num 2 mi @ '':'' @ pad_num 2 s @ (if 0 < us then ''.'' @ pad_num 6 us else []))"
  by (simp add: plain_pad plain_marks)

text \<open>What is formatted: a date and a time, separated by one space.\<close>

lemma format_parts:
  assumes "days_to_ymd (sint w div 86400000000) = (y, m, d)"
  obtains h mi s us where
    "format_datetime_micros w =
       (pad_year y @ ''-'' @ pad_num 2 (nat m) @ ''-'' @ pad_num 2 (nat d)) @ CHR '' '' #
       (pad_num 2 h @ '':'' @ pad_num 2 mi @ '':'' @ pad_num 2 s @ (if 0 < us then ''.'' @ pad_num 6 us else []))"
    "h < 24" "mi < 60" "s < 60" "us < 10 ^ 6"
    "((sint w div 86400000000) * 86400 + int h * 3600 + int mi * 60 + int s) * 1000000 + int us = sint w"
proof -
  define secs where "secs = sint w div 1000000"
  define us where "us = sint w mod 1000000"
  define tod where "tod = secs mod 86400"
  have dd: "secs div 86400 = sint w div 86400000000" 
    using zdiv_zmult2_eq [of 86400 "sint w" 1000000] by (simp add: secs_def)
  have t: "0 \<le> tod" "tod < 86400" "0 \<le> us" "us < 1000000" by (simp_all add: tod_def us_def)
  have w: "sint w = secs * 1000000 + us" "secs = (secs div 86400) * 86400 + tod"
    unfolding secs_def us_def tod_def by (rule div_mult_mod_eq [symmetric])+
  show ?thesis
  proof (rule that [of "nat (tod div 3600)" "nat ((tod mod 3600) div 60)" "nat (tod mod 60)" "nat us"])
    show "format_datetime_micros w =
       (pad_year y @ ''-'' @ pad_num 2 (nat m) @ ''-'' @ pad_num 2 (nat d)) @ CHR '' '' #
       (pad_num 2 (nat (tod div 3600)) @ '':'' @ pad_num 2 (nat ((tod mod 3600) div 60)) @ '':'' @
        pad_num 2 (nat (tod mod 60)) @ (if 0 < nat us then ''.'' @ pad_num 6 (nat us) else []))"
      unfolding format_datetime_micros_def Let_def secs_def [symmetric] us_def [symmetric] dd assms
      by (simp add: tod_def)
    have "(tod div 3600) * 3600 + ((tod mod 3600) div 60) * 60 + tod mod 60 = tod"
      using div_mult_mod_eq [of tod 3600] div_mult_mod_eq [of "tod mod 3600" 60] mod_mod_cancel [of 60 3600 tod, simplified]
      by linarith
    moreover have "0 \<le> tod div 3600" "0 \<le> tod mod 3600 div 60" using t by (simp_all add: pos_imp_zdiv_nonneg_iff)
    ultimately show "((sint w div 86400000000) * 86400 + int (nat (tod div 3600)) * 3600 +
        int (nat ((tod mod 3600) div 60)) * 60 + int (nat (tod mod 60))) * 1000000 + int (nat us) = sint w"
      using t w unfolding dd by simp
    show "nat (tod div 3600) < 24" using t by linarith
    show "nat (tod mod 3600 div 60) < 60" "nat (tod mod 60) < 60" by linarith+
    show "nat us < 10 ^ 6" using t by simp
  qed
qed

lemma parse_format:
  "parse_datetime_str (format_datetime_micros w) =
     (if - 62167219200000000 \<le> sint w then Some w else None)"
proof -
  obtain y m d where ymd: "days_to_ymd (sint w div 86400000000) = (y, m, d)" by (cases "days_to_ymd (sint w div 86400000000)")
  from format_parts [OF ymd] obtain h mi s us where
    f: "format_datetime_micros w = (pad_year y @ ''-'' @ pad_num 2 (nat m) @ ''-'' @ pad_num 2 (nat d)) @ CHR '' '' #
       (pad_num 2 h @ '':'' @ pad_num 2 mi @ '':'' @ pad_num 2 s @ (if 0 < us then ''.'' @ pad_num 6 us else []))"
    and b: "h < 24" "mi < 60" "s < 60" "us < 10 ^ 6"
    and v: "((sint w div 86400000000) * 86400 + int h * 3600 + int mi * 60 + int s) * 1000000 + int us = sint w" .
  let ?date = "pad_year y @ ''-'' @ pad_num 2 (nat m) @ ''-'' @ pad_num 2 (nat d)"
  let ?time = "pad_num 2 h @ '':'' @ pad_num 2 mi @ '':'' @ pad_num 2 s @ (if 0 < us then ''.'' @ pad_num 6 us else [])"
  have sp: "split_whitespace (format_datetime_micros w) [] = [?date, ?time]"
    unfolding f by (rule split_whitespace_two [OF date_plain time_plain]) simp_all
  have fl: "1 \<le> m" "m \<le> 12" "1 \<le> d" "d \<le> 31" "ymd_to_days y m d = sint w div 86400000000"
    using days_to_ymd_fields [OF ymd] by auto
  have neg: "y < 0 \<longleftrightarrow> sint w < - 62167219200000000"
    unfolding days_to_ymd_year(1) [OF ymd] by linarith
  show ?thesis
  proof (cases "y < 0")
    case True
    then show ?thesis using neg by (simp add: parse_datetime_str_def sp parse_date_negative del: append.simps)
  next
    case False
    have "sint w < 2 ^ 63" using sint_less [of w] by simp
    then have "y < 2 ^ 31" using days_to_ymd_year(2) [OF ymd] by simp
    then have "parse_date ?date = Some (y, nat m, nat d)"
      using False fl by (intro parse_date_pad) simp_all
    moreover have "parse_time ?time = Some (h, mi, s, us)" using b by (rule parse_time_pad)
    moreover have "word_of_int (((sint w div 86400000000) * 86400 + int h * 3600 + int mi * 60 + int s) * 1000000 + int us) = w"
      unfolding v by simp
    moreover have "0 < nat m" "\<not> 12 < nat m" "0 < nat d" "\<not> 31 < nat d" "int (nat m) = m" "int (nat d) = d"
      using fl by simp_all
    ultimately show ?thesis using False neg fl(5) b
      by (simp add: parse_datetime_str_def sp Let_def del: append.simps of_int_add of_int_mult of_int_of_nat_eq)
  qed
qed

section \<open>Properties\<close>

text \<open>C26. Date and time text: formatting a \<open>DATETIME\<close> value and parsing the text gives the value back,
  to the microsecond, for every instant from the year 0 on; an earlier instant is formatted with a
  minus sign that the parser rejects.\<close>
theorem datetime_text_round_trip:
  "parse_datetime_str (format_datetime_micros w) =
     (if - 62167219200000000 \<le> sint w then Some w else None)"
  by (rule parse_format)

text \<open>The civil calendar: converting a day number to year, month and day gives a month between 1
  and 12 and a day between 1 and 31, and converting back gives the day number, for every integer.\<close>
theorem civil_calendar_round_trip:
  "\<exists>y m d. days_to_ymd z = (y, m, d) \<and> 1 \<le> m \<and> m \<le> 12 \<and> 1 \<le> d \<and> d \<le> 31 \<and> ymd_to_days y m d = z"
  using days_to_ymd_fields by (cases "days_to_ymd z") blast

end
