(* ===== verification/Table_Types.thy ===== *)
theory Table_Types
  imports Codec Values
begin

text \<open>
  Table definitions (\<open>crates/engine/src/table.rs\<close>): columns, schema, secondary indexes, foreign keys
  and the statistics that ride along. A \<open>usize\<close> is a \<open>u64\<close> on the supported targets and is a \<open>nat\<close>
  here; the \<open>HashMap\<close> of column statistics is an association list kept in the order of its names,
  which is the only order the program reads it in.
\<close>

record column_def =
  cd_name :: string
  cd_type :: column_type
  cd_nullable :: bool
  cd_auto_increment :: bool
  cd_default :: "datum option"

record schema =
  columns :: "column_def list"
  pk_idx :: nat

definition index_of :: "schema \<Rightarrow> string \<Rightarrow> nat option" where
  "index_of s name =
     (let ns = map cd_name (columns s) in
      if name \<in> set ns then Some (length (takeWhile (\<lambda>n. n \<noteq> name) ns)) else None)"

definition column_names :: "schema \<Rightarrow> string list" where
  "column_names s = map cd_name (columns s)"

record index_def =
  ix_name :: string
  ix_column :: string

datatype fk_action = Restrict | Cascade | SetNull

definition fk_action_parse :: "string \<Rightarrow> fk_action option" where
  "fk_action_parse s =
     (if s = ''RESTRICT'' then Some Restrict
      else if s = ''CASCADE'' then Some Cascade
      else if s = ''SET NULL'' then Some SetNull
      else None)"

record foreign_key_def =
  fk_name :: string
  fk_column :: string
  fk_ref_table :: string
  fk_ref_column :: string
  fk_on_delete :: fk_action

record column_stats =
  null_count :: nat
  distinct_count :: nat
  cs_min :: "datum option"
  cs_max :: "datum option"
  cs_mcv :: "(datum \<times> nat) list"
  cs_total :: nat

record table_stats =
  row_count :: nat
  stat_columns :: "(string \<times> column_stats) list"
  analyzed_at :: u64

record table_def =
  td_name :: string
  td_schema :: schema
  td_indexes :: "index_def list"
  td_foreign_keys :: "foreign_key_def list"
  td_stats :: "table_stats option"

text \<open>\<open>HashMap::insert\<close> on the ordered association list.\<close>

fun map_put :: "string \<Rightarrow> 'a \<Rightarrow> (string \<times> 'a) list \<Rightarrow> (string \<times> 'a) list" where
  "map_put k v [] = [(k, v)]"
| "map_put k v ((k', v') # m) =
     (if k = k' then (k, v) # m
      else if str_bytes k < str_bytes k' then (k, v) # (k', v') # m
      else (k', v') # map_put k v m)"

definition names_sorted :: "(string \<times> 'a) list \<Rightarrow> bool" where
  "names_sorted m \<longleftrightarrow> sorted_wrt (\<lambda>a b. str_bytes (fst a) < str_bytes (fst b)) m"

lemma map_put_set: "set (map_put k v m) \<subseteq> insert (k, v) (set m)"
  by (induction k v m rule: map_put.induct) auto

lemma map_put_lookup: "map_of (map_put k v m) = (map_of m)(k \<mapsto> v)"
  by (induction k v m rule: map_put.induct) (auto simp: fun_eq_iff)

lemma map_put_sorted: "names_sorted m \<Longrightarrow> names_sorted (map_put k v m)"
proof (induction k v m rule: map_put.induct)
  case (2 k v k' v' m)
  show ?case
  proof (cases "k = k' \<or> str_bytes k < str_bytes k'")
    case True
    with 2 show ?thesis by (auto simp: names_sorted_def dest: less_trans)
  next
    case False
    then have "str_bytes k' < str_bytes k" by (metis linorder_less_linear str_bytes_inject)
    with 2 False map_put_set [of k v m] show ?thesis by (auto simp: names_sorted_def)
  qed
qed (simp add: names_sorted_def)

lemma map_put_last:
  "\<forall>e \<in> set m. str_bytes (fst e) < str_bytes k \<Longrightarrow> map_put k v m = m @ [(k, v)]"
  by (induction k v m rule: map_put.induct) (auto dest: less_asym)

lemma fold_map_put:
  "names_sorted (acc @ m) \<Longrightarrow> fold (\<lambda>(k, v). map_put k v) m acc = acc @ m"
proof (induction m arbitrary: acc)
  case (Cons e m)
  obtain k v where e: "e = (k, v)" by force
  have "map_put k v acc = acc @ [(k, v)]"
    by (rule map_put_last) (use Cons.prems e in \<open>auto simp: names_sorted_def sorted_wrt_append\<close>)
  with Cons.IH [of "acc @ [(k, v)]"] Cons.prems e show ?case by simp
qed simp

end
