(* ===== verification/Crc.thy ===== *)
theory Crc
  imports Prelude
begin

text \<open>
  CRC-32 (\<open>crc32\<close> in \<open>crates/engine/src/wal.rs\<close>): the table-driven routine, its equality with the
  bit-by-bit definition of the reflected IEEE polynomial, and the detection of a damaged byte.
\<close>

unbundle bit_operations_syntax

definition crc_step :: "u32 \<Rightarrow> u32" where
  "crc_step c = (if c AND 1 \<noteq> 0 then 0xEDB88320 XOR drop_bit 1 c else drop_bit 1 c)"

definition poly_table :: "u32 list" where
  "poly_table = map (\<lambda>i. (crc_step ^^ 8) (of_nat i)) [0..<256]"

definition crc_byte :: "u32 \<Rightarrow> u8 \<Rightarrow> u32" where
  "crc_byte crc b = poly_table ! unat ((crc XOR ucast b) AND 0xFF) XOR drop_bit 8 crc"

definition crc32 :: "bytes \<Rightarrow> u32" where
  "crc32 data = foldl crc_byte 0xFFFFFFFF data XOR 0xFFFFFFFF"

section \<open>The reference: one bit at a time\<close>

definition crc_bits :: "u32 \<Rightarrow> u8 \<Rightarrow> u32" where
  "crc_bits crc b = (crc_step ^^ 8) (crc XOR ucast b)"

lemma and_one_bit: "c AND 1 \<noteq> 0 \<longleftrightarrow> bit (c :: u32) 0"
  by (simp add: and_one_eq odd_iff_mod_2_eq_one bit_0)

lemma crc_step_bit: "crc_step c = (if bit c 0 then 0xEDB88320 XOR drop_bit 1 c else drop_bit 1 c)"
  by (simp only: crc_step_def and_one_bit)

lemma crc_step_xor: "crc_step (x XOR y) = crc_step x XOR crc_step y"
  by (simp add: crc_step_bit bit_xor_iff drop_bit_xor xor.assoc xor.left_commute)

lemma crc_steps_xor: "(crc_step ^^ n) (x XOR y) = (crc_step ^^ n) x XOR (crc_step ^^ n) y"
  by (induction n) (simp_all add: crc_step_xor)

lemma crc_steps_zeros:
  "\<forall>i < n. \<not> bit x i \<Longrightarrow> (crc_step ^^ n) x = drop_bit n x"
proof (induction n arbitrary: x)
  case (Suc n)
  then have "crc_step x = drop_bit 1 x" by (auto simp: crc_step_bit)
  moreover have "(crc_step ^^ n) (drop_bit 1 x) = drop_bit n (drop_bit 1 x)"
    by (rule Suc.IH) (use Suc.prems in \<open>simp add: bit_drop_bit_eq\<close>)
  ultimately show ?case by (simp only: funpow_Suc_right comp_apply) (simp add: drop_bit_drop_bit)
qed simp

lemma low_high: "(x :: u32) = (x AND m) XOR (x AND NOT m)"
  by (rule bit_eqI) (auto simp: bit_and_iff bit_xor_iff bit_not_iff)

lemma FF_mask: "(0xFF :: u32) = mask 8"
  by (simp add: mask_eq_exp_minus_1)

lemma bit_mask8: "bit (mask 8 :: u32) i \<longleftrightarrow> i < 8"
  unfolding bit_mask_iff by auto

lemma xor_cancel: "(a :: 'a::len word) XOR b = a XOR c \<longleftrightarrow> b = c" "b XOR a = c XOR a \<longleftrightarrow> b = c"
  by (metis xor.assoc xor_self_eq xor.left_neutral) (metis xor.assoc xor_self_eq xor.right_neutral)

lemma crc_byte_bits: "crc_byte crc b = crc_bits crc b"
proof -
  define x where "x = crc XOR ucast b"
  have lt: "unat (x AND 0xFF) < 256"
  proof -
    have "x AND 0xFF \<le> 0xFF" by (rule word_and_le1)
    then have "unat (x AND 0xFF) \<le> unat (0xFF :: u32)" by (simp only: word_le_nat_alt)
    then show ?thesis by simp
  qed
  have "(crc_step ^^ 8) (x AND NOT (mask 8)) = drop_bit 8 (x AND NOT (mask 8))"
    by (rule crc_steps_zeros) (simp only: bit_and_iff bit_not_iff bit_mask8, simp)
  also have "\<dots> = drop_bit 8 crc"
    unfolding x_def
    by (rule bit_eqI, unfold bit_drop_bit_eq bit_and_iff bit_not_iff bit_mask8 bit_xor_iff bit_ucast_iff)
      (auto dest: bit_imp_le_length)
  finally have "(crc_step ^^ 8) x = (crc_step ^^ 8) (x AND mask 8) XOR drop_bit 8 crc"
    using crc_steps_xor [of 8 "x AND mask 8" "x AND NOT (mask 8)"] low_high [of x "mask 8"] by simp
  then have "(crc_step ^^ 8) x = (crc_step ^^ 8) (x AND 0xFF) XOR drop_bit 8 crc" unfolding FF_mask .
  then show ?thesis using lt
    by (simp add: crc_byte_def crc_bits_def poly_table_def flip: x_def)
qed

section \<open>Injectivity\<close>

lemma crc_step_inj: "crc_step x = crc_step y \<Longrightarrow> x = y"
proof -
  assume e: "crc_step x = crc_step y"
  have top: "bit (crc_step z) 31 \<longleftrightarrow> bit z 0" for z :: u32
    by (auto simp: crc_step_bit bit_xor_iff bit_drop_bit_eq dest: bit_imp_le_length)
  from e have b0: "bit x 0 \<longleftrightarrow> bit y 0" using top by metis
  with e have d: "drop_bit 1 x = drop_bit 1 y" by (auto simp: crc_step_bit xor_cancel split: if_splits)
  show ?thesis
  proof (rule bit_eqI)
    fix n
    show "bit x n \<longleftrightarrow> bit y n"
    proof (cases n)
      case (Suc m)
      then show ?thesis using arg_cong [OF d, of "\<lambda>w. bit w m"] by (simp add: bit_drop_bit_eq)
    qed (use b0 in simp)
  qed
qed

lemma crc_steps_inj: "(crc_step ^^ n) x = (crc_step ^^ n) y \<Longrightarrow> x = y"
  by (induction n) (auto dest: crc_step_inj)

lemma crc_byte_inj: "crc_byte c b = crc_byte c' b \<Longrightarrow> c = c'" "crc_byte c b = crc_byte c b' \<Longrightarrow> b = b'"
proof -
  assume "crc_byte c b = crc_byte c' b"
  then have "c XOR ucast b = c' XOR ucast b" unfolding crc_byte_bits crc_bits_def by (rule crc_steps_inj)
  then show "c = c'" by (simp add: xor_cancel)
next
  assume "crc_byte c b = crc_byte c b'"
  then have "c XOR ucast b = c XOR ucast b'" unfolding crc_byte_bits crc_bits_def by (rule crc_steps_inj)
  then have e: "ucast b = (ucast b' :: u32)" by (simp only: xor_cancel)
  have "bit b n = bit b' n" if "n < 8" for n
  proof -
    have "bit (ucast b :: u32) n = bit (ucast b' :: u32) n" using e by (rule arg_cong)
    with that show ?thesis unfolding bit_ucast_iff by simp
  qed
  then show "b = b'" by (intro bit_eqI) simp
qed

lemma crc_fold_inj: "foldl crc_byte c bs = foldl crc_byte c' bs \<Longrightarrow> c = c'"
  by (induction bs arbitrary: c c') (auto dest: crc_byte_inj)

section \<open>Properties\<close>

text \<open>C7. The table-driven checksum is the bit-by-bit CRC-32.\<close>
theorem crc32_bitwise: "crc32 data = foldl crc_bits 0xFFFFFFFF data XOR 0xFFFFFFFF"
  by (simp only: crc32_def crc_byte_bits [abs_def])

lemma crc32_byte_differs:
  assumes "b \<noteq> b'"
  shows "crc32 (xs @ b # ys) \<noteq> crc32 (xs @ b' # ys)"
proof
  assume "crc32 (xs @ b # ys) = crc32 (xs @ b' # ys)"
  then have "foldl crc_byte (crc_byte (foldl crc_byte 0xFFFFFFFF xs) b) ys =
      foldl crc_byte (crc_byte (foldl crc_byte 0xFFFFFFFF xs) b') ys"
    by (simp add: crc32_def xor_cancel)
  from crc_byte_inj(2) [OF crc_fold_inj [OF this]] assms show False by simp
qed

text \<open>Damage confined to one byte of a payload always changes its checksum.\<close>
theorem crc32_detects_byte:
  assumes "b \<noteq> b'"
  shows "crc32 (xs @ b # ys) \<noteq> crc32 (xs @ b' # ys)"
  using assms by (rule crc32_byte_differs)

theorem crc32_detects_byte_witness: "crc32 ([1, 2] @ 3 # [4]) \<noteq> crc32 ([1, 2] @ 5 # [4])"
  by (rule crc32_detects_byte) simp

end
