(* ===== verification/Page.thy ===== *)
theory Page
  imports Crc Engine_Error
begin

text \<open>
  Slotted pages (\<open>crates/engine/src/page.rs\<close>, the \<open>Swip\<close>, \<open>Locator\<close> and \<open>Page\<close> parts). A page is its image, a
  byte array of \<open>PAGE_SIZE\<close> bytes: a header with the slot count, the start of the record area and a
  checksum over the whole image, the slot directory growing up, the records growing down. Every
  operation is the code's sequence of writes into the image. \<open>copy_from_slice\<close> is \<open>write_at\<close>.
\<close>

section \<open>Constants and byte access\<close>

definition PAGE_SIZE :: nat where "PAGE_SIZE = 256 * 1024"
definition PAGE_MAGIC :: bytes where "PAGE_MAGIC = str_bytes ''HDBP''"
definition PAGE_FORMAT_VERSION :: u32 where "PAGE_FORMAT_VERSION = 1"
definition MAX_VALUE_LEN :: nat where "MAX_VALUE_LEN = 64 * 1024 * 1024"
definition LOCATOR_TAG :: u8 where "LOCATOR_TAG = 0xFF"
definition LOCATOR_MAGIC :: u8 where "LOCATOR_MAGIC = 0x50"
definition LOCATOR_LEN :: nat where "LOCATOR_LEN = 14"
definition HEADER_LEN :: nat where "HEADER_LEN = 32"
definition SLOT_LEN :: nat where "SLOT_LEN = 8"

definition write_at :: "bytes \<Rightarrow> nat \<Rightarrow> bytes \<Rightarrow> bytes" where
  "write_at img off bs = take off img @ bs @ drop (off + length bs) img"

definition read_u32 :: "bytes \<Rightarrow> nat \<Rightarrow> u32" where "read_u32 img off = u32_of_le (slice img off 4)"
definition write_u32 :: "bytes \<Rightarrow> nat \<Rightarrow> u32 \<Rightarrow> bytes" where "write_u32 img off v = write_at img off (u32_le v)"
definition read_u64 :: "bytes \<Rightarrow> nat \<Rightarrow> u64" where "read_u64 img off = u64_of_le (slice img off 8)"
definition write_u64 :: "bytes \<Rightarrow> nat \<Rightarrow> u64 \<Rightarrow> bytes" where "write_u64 img off v = write_at img off (u64_le v)"

section \<open>Tagged pointers\<close>

type_synonym swip = u64

definition SWIZZLED_BIT :: u64 where "SWIZZLED_BIT = push_bit 63 1"
definition unswizzled :: "u64 \<Rightarrow> swip" where "unswizzled page = page"
definition swizzled :: "u64 \<Rightarrow> swip" where "swizzled frame_idx = or frame_idx SWIZZLED_BIT"
definition is_swizzled :: "swip \<Rightarrow> bool" where "is_swizzled s \<longleftrightarrow> and s SWIZZLED_BIT \<noteq> 0"
definition swip_page_id :: "swip \<Rightarrow> u64 option" where "swip_page_id s = (if is_swizzled s then None else Some s)"
definition swip_frame_idx :: "swip \<Rightarrow> u64 option" where
  "swip_frame_idx s = (if is_swizzled s then Some (and s (not SWIZZLED_BIT)) else None)"

section \<open>Locators\<close>

record locator =
  loc_page :: u64
  loc_slot :: u32

definition locator_encode :: "locator \<Rightarrow> bytes" where
  "locator_encode l = LOCATOR_TAG # LOCATOR_MAGIC # u64_le (loc_page l) @ u32_le (loc_slot l)"

definition is_locator :: "bytes \<Rightarrow> bool" where
  "is_locator buf \<longleftrightarrow> length buf = LOCATOR_LEN \<and> buf ! 0 = LOCATOR_TAG \<and> buf ! 1 = LOCATOR_MAGIC"

definition locator_decode :: "bytes \<Rightarrow> locator result" where
  "locator_decode buf =
     (if length buf \<noteq> LOCATOR_LEN \<or> buf ! 0 \<noteq> LOCATOR_TAG \<or> buf ! 1 \<noteq> LOCATOR_MAGIC
      then Inl (Corrupted ''bad overflow locator'')
      else Inr \<lparr>loc_page = u64_of_le (slice buf 2 8), loc_slot = u32_of_le (slice buf 10 4)\<rparr>)"

section \<open>The page image\<close>

record page =
  page_id :: u64
  page_img :: bytes

definition update_checksum :: "page \<Rightarrow> page" where
  "update_checksum p =
     (let img = write_at (page_img p) 24 [0, 0, 0, 0]; c = crc32 img in
      p\<lparr>page_img := write_at img 24 (u32_le c)\<rparr>)"

definition page_create :: "u64 \<Rightarrow> page" where
  "page_create pid =
     (let img = replicate PAGE_SIZE 0;
          img = write_at img 0 PAGE_MAGIC;
          img = write_u32 img 4 PAGE_FORMAT_VERSION;
          img = write_u64 img 8 pid;
          img = write_u32 img 16 0;
          img = write_u32 img 20 (of_nat PAGE_SIZE)
      in update_checksum \<lparr>page_id = pid, page_img = img\<rparr>)"

definition slot_count :: "page \<Rightarrow> nat" where
  "slot_count p = unat (read_u32 (page_img p) 16)"

definition data_start :: "page \<Rightarrow> nat" where
  "data_start p = unat (read_u32 (page_img p) 20)"

definition set_data_start :: "nat \<Rightarrow> page \<Rightarrow> page" where
  "set_data_start v p = p\<lparr>page_img := write_u32 (page_img p) 20 (of_nat v)\<rparr>"

definition slot_off :: "page \<Rightarrow> nat \<Rightarrow> (nat \<times> nat) option" where
  "slot_off p slot =
     (if slot \<ge> slot_count p then None
      else let base = HEADER_LEN + slot * SLOT_LEN in
        if base + SLOT_LEN > PAGE_SIZE then None
        else Some (unat (read_u32 (page_img p) base), unat (read_u32 (page_img p) (base + 4))))"

definition set_slot :: "nat \<Rightarrow> nat \<Rightarrow> nat \<Rightarrow> page \<Rightarrow> page" where
  "set_slot slot off len p =
     (let base = HEADER_LEN + slot * SLOT_LEN;
          img = write_u32 (page_img p) base (of_nat off);
          img = write_u32 img (base + 4) (of_nat len)
      in update_checksum (p\<lparr>page_img := img\<rparr>))"

definition free_space :: "page \<Rightarrow> nat" where
  "free_space p = data_start p - (HEADER_LEN + (slot_count p + 1) * SLOT_LEN)"

text \<open>First fit over the slot directory, else a new slot at its end.\<close>

definition page_insert :: "bytes \<Rightarrow> page \<Rightarrow> (page \<times> u32) option" where
  "page_insert data p =
     (if length data + SLOT_LEN > free_space p then None
      else
        let count = slot_count p; start = data_start p - length data in
        case find (\<lambda>s. slot_off p s = Some (0, 0)) [0..<count] of
          Some s \<Rightarrow>
            let p = p\<lparr>page_img := write_at (page_img p) start data\<rparr>;
                p = set_data_start start p
            in Some (set_slot s start (length data) p, of_nat s)
        | None \<Rightarrow>
            let p = p\<lparr>page_img := write_at (page_img p) start data\<rparr>;
                p = set_data_start start p;
                p = p\<lparr>page_img := write_u32 (page_img p) 16 (of_nat (count + 1))\<rparr>
            in Some (set_slot count start (length data) p, of_nat count))"

definition page_get :: "page \<Rightarrow> u32 \<Rightarrow> bytes option" where
  "page_get p slot =
     (case slot_off p (unat slot) of
        None \<Rightarrow> None
      | Some (o', l) \<Rightarrow>
          if o' = 0 \<and> l = 0 then None
          else if o' + l > PAGE_SIZE \<or> o' < HEADER_LEN + slot_count p * SLOT_LEN then None
          else Some (slice (page_img p) o' l))"

definition page_free_slot :: "u32 \<Rightarrow> page \<Rightarrow> page \<times> bool" where
  "page_free_slot slot p =
     (case slot_off p (unat slot) of
        None \<Rightarrow> (p, False)
      | Some (o', l) \<Rightarrow> if o' = 0 \<and> l = 0 then (p, False) else (set_slot (unat slot) 0 0 p, True))"

text \<open>Defragmentation: the live records are copied out, then packed from the end of the page.\<close>

definition live_records :: "page \<Rightarrow> (nat \<times> bytes) list" where
  "live_records p =
     concat (map (\<lambda>s. case slot_off p s of
         Some (o', l) \<Rightarrow> if o' \<noteq> 0 \<or> l \<noteq> 0 then [(s, slice (page_img p) o' l)] else []
       | None \<Rightarrow> []) [0..<slot_count p])"

fun pack :: "(nat \<times> bytes) list \<Rightarrow> nat \<Rightarrow> bytes \<Rightarrow> nat \<times> bytes" where
  "pack [] start img = (start, img)"
| "pack ((s, data) # live) start img =
     (let start = start - length data;
          img = write_at img start data;
          base = HEADER_LEN + s * SLOT_LEN;
          img = write_u32 img base (of_nat start);
          img = write_u32 img (base + 4) (of_nat (length data))
      in pack live start img)"

definition compact :: "page \<Rightarrow> page" where
  "compact p =
     (let (start, img) = pack (live_records p) PAGE_SIZE (page_img p);
          dir_end = HEADER_LEN + slot_count p * SLOT_LEN;
          img = write_at img dir_end (replicate (start - dir_end) 0)
      in update_checksum (set_data_start start (p\<lparr>page_img := img\<rparr>)))"

definition page_verify :: "page \<Rightarrow> unit result" where
  "page_verify p =
     (let img = page_img p in
      if slice img 0 4 \<noteq> PAGE_MAGIC then Inl (Corrupted ''page: bad magic'')
      else if read_u32 img 4 \<noteq> PAGE_FORMAT_VERSION then Inl (Corrupted ''page: version'')
      else if read_u64 img 8 \<noteq> page_id p then Inl (Corrupted ''page: id mismatch'')
      else if crc32 (write_at img 24 [0, 0, 0, 0]) \<noteq> read_u32 img 24 then Inl (Corrupted ''page: checksum'')
      else if HEADER_LEN + slot_count p * SLOT_LEN > PAGE_SIZE then Inl (Corrupted ''page: slot directory overflow'')
      else if data_start p < HEADER_LEN + slot_count p * SLOT_LEN \<or> data_start p > PAGE_SIZE
      then Inl (Corrupted ''page: data-start out of range'')
      else Inr ())"

definition from_image :: "u64 \<Rightarrow> bytes \<Rightarrow> page result" where
  "from_image pid img =
     (if length img \<noteq> PAGE_SIZE then Inl (Corrupted ''page: short image'')
      else let p = \<lparr>page_id = pid, page_img = img\<rparr> in rbind (page_verify p) (\<lambda>_. Inr p))"

section \<open>Writing into an image\<close>

lemma length_write_at [simp]: "off + length bs \<le> length img \<Longrightarrow> length (write_at img off bs) = length img"
  by (simp add: write_at_def)

lemma slice_write_same: "off \<le> length img \<Longrightarrow> n = length bs \<Longrightarrow> slice (write_at img off bs) off n = bs"
  by (simp add: write_at_def slice_def)

lemma split_at: "k \<le> length xs \<Longrightarrow> \<exists>a b. xs = a @ b \<and> length a = k"
  by (metis append_take_drop_id length_take min.absorb2)

lemma slice_write_within:
  assumes "o' \<le> off" "off + length bs \<le> o' + n" "o' + n \<le> length img"
  shows "slice (write_at img off bs) o' n = write_at (slice img o' n) (off - o') bs"
proof -
  from assms have "o' \<le> length img" by simp
  from split_at [OF this] obtain a r1 where 1: "img = a @ r1" "length a = o'" by blast
  have "off - o' \<le> length r1" using assms 1 by simp
  from split_at [OF this] obtain b r2 where 2: "r1 = b @ r2" "length b = off - o'" by blast
  have "length bs \<le> length r2" using assms 1 2 by simp
  from split_at [OF this] obtain c r3 where 3: "r2 = c @ r3" "length c = length bs" by blast
  have "off = length a + length b" "n = length b + length bs + (n - (length b + length bs))" using assms 1 2 by simp_all
  then show ?thesis using 1 2 3 by (simp add: slice_def write_at_def)
qed

lemma slice_write_other:
  assumes "off + length bs \<le> length img" "x + n \<le> off \<or> off + length bs \<le> x"
  shows "slice (write_at img off bs) x n = slice img x n"
proof (cases "x + n \<le> off")
  case True
  then show ?thesis using assms(1) by (simp add: write_at_def slice_def drop_take)
next
  case False
  then have "off + length bs \<le> x" using assms(2) by simp
  then show ?thesis using assms(1) by (simp add: write_at_def slice_def add.commute)
qed

lemma read_write_same:
  "off \<le> length img \<Longrightarrow> read_u32 (write_u32 img off v) off = v"
  "off \<le> length img \<Longrightarrow> read_u64 (write_u64 img off w) off = w"
  by (simp_all add: read_u32_def write_u32_def read_u64_def write_u64_def slice_write_same codec_simps)

lemma read_write_other:
  "off + length bs \<le> length img \<Longrightarrow> x + 4 \<le> off \<or> off + length bs \<le> x \<Longrightarrow>
     read_u32 (write_at img off bs) x = read_u32 img x"
  "off + length bs \<le> length img \<Longrightarrow> x + 8 \<le> off \<or> off + length bs \<le> x \<Longrightarrow>
     read_u64 (write_at img off bs) x = read_u64 img x"
  by (simp_all add: read_u32_def read_u64_def slice_write_other)

section \<open>The layout of an image\<close>

text \<open>An image with its slot directory and the start of its record area, and what makes them
  consistent: the directory ends below the records, every live record lies in the record area, and
  no two records overlap.\<close>

type_synonym slots = "(nat \<times> nat) list"

definition layout :: "bytes \<Rightarrow> u64 \<Rightarrow> slots \<Rightarrow> nat \<Rightarrow> bool" where
  "layout img pid slots ds \<longleftrightarrow> length img = PAGE_SIZE \<and> 32 + 8 * length slots \<le> PAGE_SIZE \<and>
     slice img 0 4 = PAGE_MAGIC \<and> read_u32 img 4 = PAGE_FORMAT_VERSION \<and> read_u64 img 8 = pid \<and>
     unat (read_u32 img 16) = length slots \<and> unat (read_u32 img 20) = ds \<and>
     (\<forall>i < length slots. unat (read_u32 img (32 + i * 8)) = fst (slots ! i) \<and>
        unat (read_u32 img (36 + i * 8)) = snd (slots ! i))"

definition clear_of :: "nat \<times> nat \<Rightarrow> nat \<times> nat \<Rightarrow> bool" where
  "clear_of e e' \<longleftrightarrow> e = (0, 0) \<or> e' = (0, 0) \<or> fst e + snd e \<le> fst e' \<or> fst e' + snd e' \<le> fst e"

definition apart :: "slots \<Rightarrow> bool" where
  "apart slots \<longleftrightarrow> (\<forall>i < length slots. \<forall>j < length slots. i \<noteq> j \<longrightarrow> clear_of (slots ! i) (slots ! j))"

definition fits :: "slots \<Rightarrow> nat \<Rightarrow> bool" where
  "fits slots ds \<longleftrightarrow> 32 + 8 * length slots \<le> ds \<and> ds \<le> PAGE_SIZE \<and>
     (\<forall>(o', l) \<in> set slots. (o', l) = (0, 0) \<or> ds \<le> o' \<and> o' + l \<le> PAGE_SIZE) \<and>
     sum_list (map snd slots) \<le> PAGE_SIZE - ds \<and> apart slots"

definition crc_ok :: "bytes \<Rightarrow> bool" where
  "crc_ok img \<longleftrightarrow> crc32 (write_at img 24 [0, 0, 0, 0]) = read_u32 img 24"

definition page_ok :: "page \<Rightarrow> bool" where
  "page_ok p \<longleftrightarrow> (\<exists>slots ds. layout (page_img p) (page_id p) slots ds \<and> fits slots ds) \<and> crc_ok (page_img p)"

lemma page_size_small: "n \<le> PAGE_SIZE \<Longrightarrow> unat (of_nat n :: u32) = n"
  by (simp add: PAGE_SIZE_def unat_of_nat)

lemma layout_data:
  assumes "layout img pid slots ds" "32 + 8 * length slots \<le> off" "off + length bs \<le> PAGE_SIZE"
  shows "layout (write_at img off bs) pid slots ds"
  using assms unfolding layout_def
  by (auto simp: slice_write_other read_write_other PAGE_SIZE_def)

lemma layout_data_start:
  assumes "layout img pid slots ds" "v \<le> PAGE_SIZE"
  shows "layout (write_u32 img 20 (of_nat v)) pid slots v"
  using assms page_size_small [OF assms(2)] read_write_same(1) [of 20 img "of_nat v"] unfolding layout_def
  by (auto simp: write_u32_def slice_write_other read_write_other PAGE_SIZE_def)

lemma layout_checksum: "layout img pid slots ds \<Longrightarrow> length bs = 4 \<Longrightarrow> layout (write_at img 24 bs) pid slots ds"
  unfolding layout_def by (auto simp: slice_write_other read_write_other PAGE_SIZE_def)

lemma layout_slot:
  assumes l: "layout img pid slots ds" and i: "i < length slots" and s: "o' \<le> PAGE_SIZE" "n \<le> PAGE_SIZE"
  shows "layout (write_u32 (write_u32 img (32 + i * 8) (of_nat o')) (36 + i * 8) (of_nat n)) pid (slots[i := (o', n)]) ds"
proof -
  let ?a = "write_u32 img (32 + i * 8) (of_nat o')"
  let ?b = "write_u32 ?a (36 + i * 8) (of_nat n)"
  have len: "length img = PAGE_SIZE" "32 + 8 * length slots \<le> PAGE_SIZE" using l by (simp_all add: layout_def)
  have la: "length ?a = PAGE_SIZE" "length ?b = PAGE_SIZE" using len i by (simp_all add: write_u32_def)
  have r: "read_u32 ?b x = read_u32 img x" if "x + 4 \<le> 32 + i * 8 \<or> 40 + i * 8 \<le> x" for x
    using that len i la by (auto simp: write_u32_def read_write_other)
  have s1: "read_u32 ?b (32 + i * 8) = of_nat o'" "read_u32 ?b (36 + i * 8) = of_nat n"
    using len i la read_write_same(1) [of "36 + i * 8" ?a] read_write_same(1) [of "32 + i * 8" img]
    by (auto simp: write_u32_def read_write_other)
  have "slice ?b 0 4 = slice img 0 4" "read_u64 ?b 8 = read_u64 img 8"
    using len i la by (simp_all add: write_u32_def slice_write_other read_write_other)
  moreover have "unat (read_u32 ?b (32 + j * 8)) = fst (slots[i := (o', n)] ! j) \<and>
      unat (read_u32 ?b (36 + j * 8)) = snd (slots[i := (o', n)] ! j)" if "j < length slots" for j
  proof (cases "j = i")
    case True
    then show ?thesis using s1 s page_size_small i by simp
  next
    case False
    then have "j < i \<or> i < j" by auto
    then have "read_u32 ?b (32 + j * 8) = read_u32 img (32 + j * 8)" "read_u32 ?b (36 + j * 8) = read_u32 img (36 + j * 8)"
      by (auto intro!: r)
    then show ?thesis using l that False by (simp add: layout_def)
  qed
  ultimately show ?thesis using l la by (simp add: layout_def r)
qed

lemma layout_grow:
  assumes l: "layout img pid slots ds" and n: "32 + 8 * (length slots + 1) \<le> PAGE_SIZE"
  obtains o' m where "layout (write_u32 img 16 (of_nat (length slots + 1))) pid (slots @ [(o', m)]) ds"
proof
  let ?a = "write_u32 img 16 (of_nat (length slots + 1))"
  let ?n = "length slots"
  have len: "length img = PAGE_SIZE" using l by (simp add: layout_def)
  have r: "read_u32 ?a x = read_u32 img x" if "x + 4 \<le> 16 \<or> 20 \<le> x" for x
    using that len by (auto simp: write_u32_def read_write_other PAGE_SIZE_def)
  have "read_u32 ?a 16 = of_nat (?n + 1)" "slice ?a 0 4 = slice img 0 4" "read_u64 ?a 8 = read_u64 img 8" "length ?a = PAGE_SIZE"
    using len read_write_same(1) [of 16 img]
    by (simp_all add: write_u32_def slice_write_other read_write_other PAGE_SIZE_def)
  moreover have "unat (of_nat (?n + 1) :: u32) = ?n + 1" using n by (intro page_size_small) simp
  ultimately show "layout ?a pid (slots @ [(unat (read_u32 img (32 + ?n * 8)), unat (read_u32 img (36 + ?n * 8)))]) ds"
    using l n r by (auto simp: layout_def nth_append less_Suc_eq)
qed

lemma write_at_twice:
  "off + length bs \<le> length img \<Longrightarrow> length bs = length bs' \<Longrightarrow> write_at (write_at img off bs) off bs' = write_at img off bs'"
  by (simp add: write_at_def)

lemma update_checksum_ok:
  assumes "layout (page_img p) pid slots ds"
  shows "layout (page_img (update_checksum p)) pid slots ds" "crc_ok (page_img (update_checksum p))"
    "page_id (update_checksum p) = page_id p"
    "\<And>x n. 32 \<le> x \<Longrightarrow> slice (page_img (update_checksum p)) x n = slice (page_img p) x n"
proof -
  have len: "length (page_img p) = PAGE_SIZE" using assms by (simp add: layout_def)
  let ?z = "write_at (page_img p) 24 [0, 0, 0, 0]"
  have eq: "page_img (update_checksum p) = write_at ?z 24 (u32_le (crc32 ?z))" "length ?z = PAGE_SIZE"
    using len by (simp_all add: update_checksum_def Let_def PAGE_SIZE_def)
  show "layout (page_img (update_checksum p)) pid slots ds"
    unfolding eq(1) using assms by (intro layout_checksum) simp_all
  show "crc_ok (page_img (update_checksum p))"
    unfolding crc_ok_def eq(1) using eq(2) len
    by (simp add: write_at_twice PAGE_SIZE_def read_u32_def slice_write_same codec_simps)
  show "page_id (update_checksum p) = page_id p" by (simp add: update_checksum_def Let_def)
  show "slice (page_img (update_checksum p)) x n = slice (page_img p) x n" if "32 \<le> x" for x n
    unfolding eq(1) using that eq(2) len by (simp add: slice_write_other PAGE_SIZE_def)
qed

section \<open>The operations on a consistent page\<close>

lemma layout_fields:
  assumes "layout (page_img p) pid slots ds"
  shows "slot_count p = length slots" "data_start p = ds"
    "slot_off p i = (if i < length slots then Some (slots ! i) else None)"
    "free_space p = ds - (32 + (length slots + 1) * 8)"
  using assms by (auto simp: layout_def slot_count_def data_start_def slot_off_def free_space_def HEADER_LEN_def
      SLOT_LEN_def Let_def prod_eq_iff add.commute)

lemma page_get_layout:
  assumes "layout (page_img p) pid slots ds" "fits slots ds"
  shows "page_get p s =
    (if unat s < length slots \<and> slots ! unat s \<noteq> (0, 0)
     then Some (slice (page_img p) (fst (slots ! unat s)) (snd (slots ! unat s))) else None)"
proof (cases "unat s < length slots")
  case True
  then have "slots ! unat s \<in> set slots" by simp
  then show ?thesis using True assms(2) layout_fields [OF assms(1)]
    by (cases "slots ! unat s") (auto simp: page_get_def fits_def HEADER_LEN_def SLOT_LEN_def)
qed (simp add: page_get_def layout_fields [OF assms(1)])

lemma page_okE:
  assumes "page_ok p"
  obtains slots ds where "layout (page_img p) (page_id p) slots ds" "fits slots ds" "crc_ok (page_img p)"
  using assms by (auto simp: page_ok_def)

lemma find_upt_None: "find P [0..<n] = None \<Longrightarrow> i < n \<Longrightarrow> \<not> P i"
  by (auto simp: find_None_iff)

lemma find_upt_Some: "find P [0..<n] = Some i \<Longrightarrow> i < n \<and> P i"
  by (auto simp: find_Some_iff)

text \<open>The last writes of \<open>insert\<close> and \<open>free_slot\<close>: a directory entry and the checksum.\<close>

lemma set_slot_ok:
  assumes l: "layout (page_img p) pid slots ds" and i: "i < length slots" and s: "o' \<le> PAGE_SIZE" "n \<le> PAGE_SIZE"
  shows "layout (page_img (set_slot i o' n p)) pid (slots[i := (o', n)]) ds" "crc_ok (page_img (set_slot i o' n p))"
    "page_id (set_slot i o' n p) = page_id p"
    "\<And>x m. 32 + 8 * length slots \<le> x \<Longrightarrow> slice (page_img (set_slot i o' n p)) x m = slice (page_img p) x m"
proof -
  let ?img = "write_u32 (write_u32 (page_img p) (32 + i * 8) (of_nat o')) (36 + i * 8) (of_nat n)"
  have eq: "set_slot i o' n p = update_checksum (p\<lparr>page_img := ?img\<rparr>)"
    by (simp add: set_slot_def Let_def HEADER_LEN_def SLOT_LEN_def add.commute)
  have l': "layout (page_img (p\<lparr>page_img := ?img\<rparr>)) pid (slots[i := (o', n)]) ds"
    using layout_slot [OF l i s] by simp
  note u = update_checksum_ok [OF l']
  show "layout (page_img (set_slot i o' n p)) pid (slots[i := (o', n)]) ds" "crc_ok (page_img (set_slot i o' n p))"
    "page_id (set_slot i o' n p) = page_id p" unfolding eq using u by simp_all
  show "slice (page_img (set_slot i o' n p)) x m = slice (page_img p) x m" if "32 + 8 * length slots \<le> x" for x m
  proof -
    have "length (page_img p) = PAGE_SIZE" "32 + 8 * length slots \<le> PAGE_SIZE" using l by (simp_all add: layout_def)
    then have "slice ?img x m = slice (page_img p) x m" using that i
      by (auto simp: write_u32_def slice_write_other)
    then show ?thesis unfolding eq using u(4) [of x m] that by simp
  qed
qed

definition slots_kept :: "page \<Rightarrow> page \<Rightarrow> u32 \<Rightarrow> bool" where
  "slots_kept p p' s \<longleftrightarrow> page_id p' = page_id p \<and> (\<forall>s'. s' \<noteq> s \<longrightarrow> page_get p' s' = page_get p s')"

lemma clear_of_sym: "clear_of e e' \<longleftrightarrow> clear_of e' e"
  by (auto simp: clear_of_def)

lemma clear_of_zero [simp]: "clear_of (0, 0) e" "clear_of e (0, 0)"
  by (simp_all add: clear_of_def)

lemma fits_nth:
  assumes "fits slots ds" "i < length slots"
  shows "slots ! i = (0, 0) \<or> ds \<le> fst (slots ! i) \<and> fst (slots ! i) + snd (slots ! i) \<le> PAGE_SIZE"
proof -
  have "case slots ! i of (o', l) \<Rightarrow> (o', l) = (0, 0) \<or> ds \<le> o' \<and> o' + l \<le> PAGE_SIZE"
    by (rule bspec [OF _ nth_mem [OF assms(2)]]) (use assms(1) in \<open>simp add: fits_def\<close>)
  then show ?thesis by (cases "slots ! i") auto
qed

lemma fitsI:
  assumes "32 + 8 * length slots \<le> ds" "ds \<le> PAGE_SIZE" "sum_list (map snd slots) \<le> PAGE_SIZE - ds"
    and "\<And>i. i < length slots \<Longrightarrow> slots ! i = (0, 0) \<or> ds \<le> fst (slots ! i) \<and> fst (slots ! i) + snd (slots ! i) \<le> PAGE_SIZE"
    and "apart slots"
  shows "fits slots ds"
proof -
  have "case e of (o', l) \<Rightarrow> (o', l) = (0, 0) \<or> ds \<le> o' \<and> o' + l \<le> PAGE_SIZE" if "e \<in> set slots" for e
  proof -
    from that obtain i where "i < length slots" "e = slots ! i" by (metis in_set_conv_nth)
    then show ?thesis using assms(4) [of i] by (cases e) auto
  qed
  then show ?thesis using assms(1-3,5) unfolding fits_def by blast
qed

lemma fits_bounds: "fits slots ds \<Longrightarrow> 32 + 8 * length slots \<le> ds \<and> ds \<le> PAGE_SIZE \<and> sum_list (map snd slots) \<le> PAGE_SIZE - ds"
  by (simp add: fits_def)

text \<open>What an insertion does to the directory: the old entries, with one free or new entry pointing at
  the new record right below the old record area.\<close>

definition entry_added :: "slots \<Rightarrow> nat \<Rightarrow> nat \<Rightarrow> nat \<times> nat \<Rightarrow> slots \<Rightarrow> bool" where
  "entry_added slots ds i e slots' \<longleftrightarrow> i < length slots' \<and> slots' ! i = e \<and>
     (if i < length slots then slots ! i = (0, 0) \<and> length slots' = length slots
      else i = length slots \<and> length slots' = length slots + 1) \<and>
     (\<forall>j < length slots. j \<noteq> i \<longrightarrow> slots' ! j = slots ! j) \<and>
     sum_list (map snd slots') = sum_list (map snd slots) + snd e"

lemma entry_added_fits:
  assumes a: "entry_added slots ds i (start, n) slots'" and f: "fits slots ds"
    and st: "32 + 8 * (length slots + 1) \<le> start" "start + n = ds"
  shows "fits slots' start"
proof (rule fitsI)
  note fb = fits_bounds [OF f]
  show "32 + 8 * length slots' \<le> start" using a st(1) by (auto simp: entry_added_def split: if_splits)
  show "start \<le> PAGE_SIZE" using fb st(2) by simp
  have "sum_list (map snd slots') = sum_list (map snd slots) + n" using a by (simp add: entry_added_def)
  then show "sum_list (map snd slots') \<le> PAGE_SIZE - start" using fb st(2) by linarith
  show "slots' ! j = (0, 0) \<or> start \<le> fst (slots' ! j) \<and> fst (slots' ! j) + snd (slots' ! j) \<le> PAGE_SIZE"
    if j: "j < length slots'" for j
  proof (cases "j = i")
    case True
    then show ?thesis using a fb st(2) by (simp add: entry_added_def)
  next
    case False
    then have "j < length slots" "slots' ! j = slots ! j" using a j by (auto simp: entry_added_def split: if_splits)
    then show ?thesis using fits_nth [OF f, of j] st(2) by auto
  qed
  have old: "j < length slots \<and> slots' ! j = slots ! j" if "j < length slots'" "j \<noteq> i" for j
    using a that by (auto simp: entry_added_def split: if_splits)
  have new: "clear_of (start, n) (slots ! j)" if "j < length slots" for j
    using fits_nth [OF f that] st(2) by (auto simp: clear_of_def)
  have "slots' ! i = (start, n)" using a by (simp add: entry_added_def)
  moreover have "apart slots" using f by (simp add: fits_def)
  ultimately show "apart slots'" unfolding apart_def using old new by (metis clear_of_sym)
qed

lemma entry_added_get:
  assumes l: "layout (page_img p) pid slots ds" "fits slots ds"
    and l': "layout (page_img p') pid' slots' start" "fits slots' start"
    and a: "entry_added slots ds i (start, length data) slots'"
    and d: "slice (page_img p') start (length data) = data" "start \<noteq> 0"
    and k: "\<And>x n. ds \<le> x \<Longrightarrow> slice (page_img p') x n = slice (page_img p) x n"
  shows "page_get p' (of_nat i) = Some data" "page_get p (of_nat i) = None"
    "s \<noteq> of_nat i \<Longrightarrow> page_get p' s = page_get p s"
proof -
  have i32: "unat (of_nat i :: u32) = i"
    using a l'(1) by (intro page_size_small) (auto simp: layout_def entry_added_def)
  show "page_get p' (of_nat i) = Some data"
    unfolding page_get_layout [OF l'] i32 using a d by (simp add: entry_added_def)
  show "page_get p (of_nat i) = None"
    unfolding page_get_layout [OF l] i32 using a by (auto simp: entry_added_def)
  show "page_get p' s = page_get p s" if "s \<noteq> of_nat i"
  proof -
    have ne: "unat s \<noteq> i" using that by auto
    show ?thesis
    proof (cases "unat s < length slots")
      case True
      then have "slots' ! unat s = slots ! unat s" "unat s < length slots'"
        using a ne by (auto simp: entry_added_def split: if_splits)
      then show ?thesis
        unfolding page_get_layout [OF l'] page_get_layout [OF l] using True fits_nth [OF l(2) True] k by auto
    next
      case False
      then have "\<not> unat s < length slots'" using a ne by (auto simp: entry_added_def split: if_splits)
      then show ?thesis unfolding page_get_layout [OF l'] page_get_layout [OF l] using False by simp
    qed
  qed
qed

lemma page_insert_ok:
  assumes ok: "page_ok p" and room: "length data + 8 \<le> free_space p"
  shows "\<exists>p' s. page_insert data p = Some (p', s) \<and> page_ok p' \<and> page_get p' s = Some data \<and> page_get p s = None \<and>
    slots_kept p p' s"
proof -
  from ok obtain slots ds where l: "layout (page_img p) (page_id p) slots ds" and f: "fits slots ds"
    by (rule page_okE)
  note lf = layout_fields [OF l]
  define start where "start = ds - length data"
  have st: "32 + 8 * (length slots + 1) \<le> start" "start + length data = ds" "ds \<le> PAGE_SIZE"
    using room fits_bounds [OF f] unfolding lf(4) start_def by auto
  let ?p1 = "p\<lparr>page_img := write_at (page_img p) start data\<rparr>"
  let ?p2 = "set_data_start start ?p1"
  have l1: "layout (page_img ?p1) (page_id p) slots ds"
    using layout_data [OF l, of start data] st by simp
  have l2: "layout (page_img ?p2) (page_id p) slots start"
    using layout_data_start [OF l1, of start] st by (simp add: set_data_start_def)
  have len: "length (page_img p) = PAGE_SIZE" "length (page_img ?p1) = PAGE_SIZE" "length (page_img ?p2) = PAGE_SIZE"
    using l l1 l2 by (simp_all add: layout_def)
  have d2: "slice (page_img ?p2) start (length data) = data"
    using len st by (simp add: set_data_start_def write_u32_def slice_write_other slice_write_same)
  have k2: "slice (page_img ?p2) x n = slice (page_img p) x n" if "ds \<le> x" for x n
    using that len st by (simp add: set_data_start_def write_u32_def slice_write_other)
  have "\<exists>p3 slots3 i. page_insert data p = Some (set_slot i start (length data) p3, of_nat i) \<and> page_id p3 = page_id p \<and>
      layout (page_img p3) (page_id p) slots3 start \<and> i < length slots3 \<and>
      entry_added slots ds i (start, length data) (slots3[i := (start, length data)]) \<and>
      (\<forall>x n. start \<le> x \<longrightarrow> slice (page_img p3) x n = slice (page_img ?p2) x n)"
  proof (cases "find (\<lambda>s. slot_off p s = Some (0, 0)) [0..<length slots]")
    case (Some i)
    from find_upt_Some [OF this] have i: "i < length slots" "slots ! i = (0, 0)" by (auto simp: lf(3) split: if_splits)
    have "page_insert data p = Some (set_slot i start (length data) ?p2, of_nat i)"
      using Some room by (simp add: page_insert_def Let_def SLOT_LEN_def start_def lf(1,2))
    moreover have "entry_added slots ds i (start, length data) (slots[i := (start, length data)])"
      using i by (simp add: entry_added_def map_update sum_list_update)
    ultimately show ?thesis using l2 i(1) by (intro exI [of _ ?p2] exI [of _ slots] exI [of _ i]) (simp add: set_data_start_def)
  next
    case None
    let ?n = "length slots"
    let ?p3 = "?p2\<lparr>page_img := write_u32 (page_img ?p2) 16 (of_nat (?n + 1))\<rparr>"
    have "32 + 8 * (?n + 1) \<le> PAGE_SIZE" using st by simp
    from layout_grow [OF l2 this] obtain o' m where
      l3: "layout (write_u32 (page_img ?p2) 16 (of_nat (?n + 1))) (page_id p) (slots @ [(o', m)]) start" .
    have "page_insert data p = Some (set_slot ?n start (length data) ?p3, of_nat ?n)"
      using None room by (simp add: page_insert_def Let_def SLOT_LEN_def start_def lf(1,2))
    moreover have "entry_added slots ds ?n (start, length data) ((slots @ [(o', m)])[?n := (start, length data)])"
      by (simp add: entry_added_def nth_append)
    moreover have "\<forall>x n. start \<le> x \<longrightarrow> slice (page_img ?p3) x n = slice (page_img ?p2) x n"
      using len(3) st by (simp add: write_u32_def slice_write_other PAGE_SIZE_def)
    ultimately show ?thesis using l3
      by (intro exI [of _ ?p3] exI [of _ "slots @ [(o', m)]"] exI [of _ ?n]) (simp add: set_data_start_def)
  qed
  then obtain p3 slots3 i where ins: "page_insert data p = Some (set_slot i start (length data) p3, of_nat i)"
    and pid: "page_id p3 = page_id p" and l3: "layout (page_img p3) (page_id p) slots3 start" and i: "i < length slots3"
    and e: "entry_added slots ds i (start, length data) (slots3[i := (start, length data)])"
    and k3: "\<forall>x n. start \<le> x \<longrightarrow> slice (page_img p3) x n = slice (page_img ?p2) x n" by (elim exE conjE)
  let ?p4 = "set_slot i start (length data) p3"
  let ?slots4 = "slots3[i := (start, length data)]"
  have sz: "start \<le> PAGE_SIZE" "length data \<le> PAGE_SIZE" using st by simp_all
  note s4 = set_slot_ok [OF l3 i sz]
  note f4 = entry_added_fits [OF e f st(1,2)]
  have "32 + 8 * length slots3 \<le> start" using fits_bounds [OF f4] by simp
  then have k4: "slice (page_img ?p4) x n = slice (page_img ?p2) x n" if "start \<le> x" for x n
    using s4(4) [of x n] k3 that by simp
  have k5: "slice (page_img ?p4) x n = slice (page_img p) x n" if "ds \<le> x" for x n
    using k4 [of x n] k2 [of x n] that st(2) by simp
  have d4: "slice (page_img ?p4) start (length data) = data" "start \<noteq> 0" using k4 d2 st(1) by simp_all
  note g = entry_added_get [OF l f s4(1) f4 e d4 k5]
  have "page_ok ?p4" using s4(1,2,3) f4 pid unfolding page_ok_def by auto
  then show ?thesis using ins g s4(3) pid by (auto simp: slots_kept_def)
qed

lemma page_free_slot_ok:
  assumes ok: "page_ok p"
  shows "page_ok (fst (page_free_slot s p)) \<and> page_get (fst (page_free_slot s p)) s = None \<and>
    slots_kept p (fst (page_free_slot s p)) s \<and> (snd (page_free_slot s p) \<longleftrightarrow> page_get p s \<noteq> None)"
proof -
  from ok obtain slots ds where l: "layout (page_img p) (page_id p) slots ds" and f: "fits slots ds" and c: "crc_ok (page_img p)"
    by (rule page_okE)
  note lf = layout_fields [OF l] and g = page_get_layout [OF l f]
  show ?thesis
  proof (cases "unat s < length slots \<and> slots ! unat s \<noteq> (0, 0)")
    case False
    then have "page_free_slot s p = (p, False)"
      by (cases "slots ! unat s") (auto simp: page_free_slot_def lf)
    then show ?thesis using ok g [of s] False by (auto simp: slots_kept_def)
  next
    case True
    let ?p = "set_slot (unat s) 0 0 p"
    let ?slots = "slots[unat s := (0, 0)]"
    have eq: "page_free_slot s p = (?p, True)" using True by (cases "slots ! unat s") (auto simp: page_free_slot_def lf)
    note s4 = set_slot_ok [OF l, of "unat s" 0 0]
    have l4: "layout (page_img ?p) (page_id p) ?slots ds" "crc_ok (page_img ?p)" "page_id ?p = page_id p"
      using s4 True by simp_all
    have "sum_list (map snd ?slots) \<le> sum_list (map snd slots)"
      using True by (simp add: map_update sum_list_update)
    moreover have "?slots ! i = (0, 0) \<or> ds \<le> fst (?slots ! i) \<and> fst (?slots ! i) + snd (?slots ! i) \<le> PAGE_SIZE"
      if "i < length slots" for i using fits_nth [OF f that] that by (cases "i = unat s") simp_all
    moreover have "clear_of (?slots ! i) (?slots ! j)" if "i < length slots" "j < length slots" "i \<noteq> j" for i j
      using f that by (cases "i = unat s"; cases "j = unat s") (simp_all add: fits_def apart_def)
    then have "apart ?slots" by (simp add: apart_def)
    ultimately have f4: "fits ?slots ds" using fits_bounds [OF f] by (intro fitsI) simp_all
    have "page_get ?p s' = page_get p s'" if "s' \<noteq> s" for s'
    proof (cases "unat s' < length slots")
      case inb: True
      then have "slots ! unat s' = (0, 0) \<or> 32 + 8 * length slots \<le> fst (slots ! unat s')"
        using fits_nth [OF f, of "unat s'"] fits_bounds [OF f] by auto
      moreover have "unat s \<noteq> unat s'" using that by (metis word_unat_eq_iff)
      ultimately show ?thesis using page_get_layout [OF l4(1) f4, of s'] g [of s'] inb s4(4) True by auto
    qed (use page_get_layout [OF l4(1) f4, of s'] g [of s'] in simp)
    then show ?thesis using eq l4 f4 g [of s] True page_get_layout [OF l4(1) f4, of s]
      by (auto simp: page_ok_def slots_kept_def)
  qed
qed

text \<open>Overwriting part of a record in place.\<close>

lemma page_patch_ok:
  assumes ok: "page_ok p" and g: "page_get p s = Some rec" and n: "off + length bs \<le> length rec"
  defines "ro \<equiv> fst (the (slot_off p (unat s)))"
  defines "p' \<equiv> update_checksum (p\<lparr>page_img := write_at (page_img p) (ro + off) bs\<rparr>)"
  shows "slot_off p (unat s) \<noteq> None" "page_ok p'" "page_get p' s = Some (write_at rec off bs)" "slots_kept p p' s"
proof -
  from ok obtain slots ds where l: "layout (page_img p) (page_id p) slots ds" and f: "fits slots ds" by (rule page_okE)
  note lf = layout_fields [OF l] and fb = fits_bounds [OF f] and gl = page_get_layout [OF l f]
  let ?i = "unat s"
  have i: "?i < length slots" "slots ! ?i \<noteq> (0, 0)" and rec: "rec = slice (page_img p) (fst (slots ! ?i)) (snd (slots ! ?i))"
    using g gl [of s] by (auto split: if_splits)
  have so: "slot_off p ?i = Some (slots ! ?i)" using i by (simp add: lf(3))
  have ro: "ro = fst (slots ! ?i)" by (simp add: ro_def so)
  have len: "length (page_img p) = PAGE_SIZE" using l by (simp add: layout_def)
  have e: "ds \<le> ro" "ro + snd (slots ! ?i) \<le> PAGE_SIZE" using fits_nth [OF f i(1)] i(2) ro by auto
  have lrec: "length rec = snd (slots ! ?i)" using e len ro by (simp add: rec length_slice)
  have in1: "32 + 8 * length slots \<le> ro + off" "ro + off + length bs \<le> PAGE_SIZE" using fb e n lrec by auto
  let ?q = "p\<lparr>page_img := write_at (page_img p) (ro + off) bs\<rparr>"
  have l1: "layout (page_img ?q) (page_id p) slots ds" using layout_data [OF l in1] by simp
  note u = update_checksum_ok [OF l1, folded p'_def]
  have gl': "page_get p' s' = (if unat s' < length slots \<and> slots ! unat s' \<noteq> (0, 0)
     then Some (slice (write_at (page_img p) (ro + off) bs) (fst (slots ! unat s')) (snd (slots ! unat s'))) else None)" for s'
    unfolding page_get_layout [OF u(1) f] using fits_nth [OF f, of "unat s'"] fb u(4) by auto
  show "slot_off p ?i \<noteq> None" by (simp add: so)
  show "page_ok p'" using u f unfolding page_ok_def by auto
  show "page_get p' s = Some (write_at rec off bs)"
    using i slice_write_within [of ro "ro + off" bs "snd (slots ! ?i)" "page_img p"] n lrec len e
    by (simp add: gl' rec ro [symmetric])
  show "slots_kept p p' s" unfolding slots_kept_def
  proof (intro conjI allI impI)
    fix s' :: u32 assume ne: "s' \<noteq> s"
    then have ne': "unat s' \<noteq> ?i" by (metis word_unat_eq_iff)
    show "page_get p' s' = page_get p s'"
    proof (cases "unat s' < length slots \<and> slots ! unat s' \<noteq> (0, 0)")
      case True
      have "clear_of (slots ! unat s') (slots ! ?i)" using f True i ne' by (simp add: fits_def apart_def)
      then have "fst (slots ! unat s') + snd (slots ! unat s') \<le> ro + off \<or> ro + off + length bs \<le> fst (slots ! unat s')"
        using True i n lrec ro by (auto simp: clear_of_def)
      then show ?thesis using True gl gl' [of s'] in1(2) len by (simp add: slice_write_other)
    qed (use gl [of s'] gl' [of s'] in simp)
  qed (use u(3) in simp)
qed

lemma slot_bound:
  assumes ok: "page_ok p" and g: "page_get p s = Some rec" and so: "slot_off p (unat s) = Some (ro, n)"
  shows "ro + length rec \<le> PAGE_SIZE"
proof -
  from ok obtain slots ds where l: "layout (page_img p) (page_id p) slots ds" and f: "fits slots ds" by (rule page_okE)
  have len: "length (page_img p) = PAGE_SIZE" using l by (simp add: layout_def)
  show ?thesis using g so len by (auto simp: page_get_def length_slice split: if_splits)
qed

section \<open>Fresh pages, images and defragmentation\<close>

lemma page_create_layout:
  "layout (page_img (page_create pid)) pid [] PAGE_SIZE" "crc_ok (page_img (page_create pid))" "page_id (page_create pid) = pid"
proof -
  let ?i0 = "write_at (replicate PAGE_SIZE 0) 0 PAGE_MAGIC"
  let ?i1 = "write_u32 ?i0 4 PAGE_FORMAT_VERSION"
  let ?i2 = "write_u64 ?i1 8 pid"
  let ?i3 = "write_u32 ?i2 16 0"
  let ?i4 = "write_u32 ?i3 20 (of_nat PAGE_SIZE)"
  let ?p = "\<lparr>page_id = pid, page_img = ?i4\<rparr>"
  have mg: "length PAGE_MAGIC = 4" by (simp add: PAGE_MAGIC_def)
  have big: "32 \<le> PAGE_SIZE" by (simp add: PAGE_SIZE_def)
  have len: "length ?i0 = PAGE_SIZE" "length ?i1 = PAGE_SIZE" "length ?i2 = PAGE_SIZE" "length ?i3 = PAGE_SIZE" "length ?i4 = PAGE_SIZE"
    using mg big by (simp_all add: write_u32_def write_u64_def)
  have "slice ?i4 0 4 = PAGE_MAGIC"
    using mg big len by (simp add: write_u32_def write_u64_def slice_write_other slice_write_same)
  moreover have "read_u32 ?i1 4 = PAGE_FORMAT_VERSION" "read_u64 ?i2 8 = pid" "read_u32 ?i3 16 = 0"
      "read_u32 ?i4 20 = of_nat PAGE_SIZE"
    by (rule read_write_same, use big len in simp)+
  moreover have "read_u32 ?i4 4 = read_u32 ?i1 4" "read_u64 ?i4 8 = read_u64 ?i2 8" "read_u32 ?i4 16 = read_u32 ?i3 16"
    using big len by (simp_all add: write_u32_def write_u64_def read_write_other)
  ultimately have l: "layout (page_img ?p) pid [] PAGE_SIZE"
    using len big page_size_small [of PAGE_SIZE] by (simp add: layout_def)
  have eq: "page_create pid = update_checksum ?p" by (simp add: page_create_def Let_def)
  show "layout (page_img (page_create pid)) pid [] PAGE_SIZE" "crc_ok (page_img (page_create pid))"
    "page_id (page_create pid) = pid" using update_checksum_ok [OF l] unfolding eq by simp_all
qed

lemma page_create_ok:
  "page_ok (page_create pid)" "page_get (page_create pid) s = None" "free_space (page_create pid) = PAGE_SIZE - 40"
proof -
  have f: "fits [] PAGE_SIZE" by (simp add: fits_def apart_def PAGE_SIZE_def)
  show "page_ok (page_create pid)" using page_create_layout f unfolding page_ok_def by (metis page_create_layout(3))
  show "page_get (page_create pid) s = None" unfolding page_get_layout [OF page_create_layout(1) f] by simp
  show "free_space (page_create pid) = PAGE_SIZE - 40" unfolding layout_fields(4) [OF page_create_layout(1)] by simp
qed

lemma page_ok_verify:
  assumes "page_ok p"
  shows "from_image (page_id p) (page_img p) = Inr p"
proof -
  from assms obtain slots ds where l: "layout (page_img p) (page_id p) slots ds" and f: "fits slots ds" and c: "crc_ok (page_img p)"
    by (rule page_okE)
  have p: "\<lparr>page_id = page_id p, page_img = page_img p\<rparr> = p" by simp
  have "page_verify p = Inr ()"
    using l c fits_bounds [OF f] unfolding page_verify_def Let_def layout_fields(1,2) [OF l]
    by (simp add: layout_def crc_ok_def HEADER_LEN_def SLOT_LEN_def)
  then show ?thesis using l by (simp add: from_image_def Let_def p layout_def)
qed

fun live_bytes :: "(nat \<times> bytes) list \<Rightarrow> nat" where
  "live_bytes [] = 0"
| "live_bytes ((_, data) # live) = length data + live_bytes live"

text \<open>Packing: after writing the records one below the other from \<open>start\<close> down, every listed slot points at
  its record and the other slots are as before.\<close>

definition packed :: "(nat \<times> bytes) list \<Rightarrow> nat \<Rightarrow> nat \<Rightarrow> slots \<Rightarrow> slots \<Rightarrow> bytes \<Rightarrow> bool" where
  "packed live lo hi slots slots' img \<longleftrightarrow> length slots' = length slots \<and>
     (\<forall>i < length slots. i \<notin> fst ` set live \<longrightarrow> slots' ! i = slots ! i) \<and>
     (\<forall>(s, data) \<in> set live. lo \<le> fst (slots' ! s) \<and> snd (slots' ! s) = length data \<and>
        fst (slots' ! s) + length data \<le> hi \<and> slice img (fst (slots' ! s)) (length data) = data) \<and>
     (\<forall>i \<in> fst ` set live. \<forall>j \<in> fst ` set live. i \<noteq> j \<longrightarrow> clear_of (slots' ! i) (slots' ! j))"

lemma pack_ok:
  assumes "layout img pid slots ds" "distinct (map fst live)" "fst ` set live \<subseteq> {..<length slots}"
    and "32 + 8 * length slots + live_bytes live \<le> start" "start \<le> PAGE_SIZE"
  shows "\<exists>img' slots'. pack live start img = (start - live_bytes live, img') \<and>
     layout img' pid slots' ds \<and> packed live (start - live_bytes live) start slots slots' img' \<and>
     (\<forall>x n. start \<le> x \<longrightarrow> slice img' x n = slice img x n)"
  using assms
proof (induction live arbitrary: start img slots)
  case Nil
  then show ?case by (auto simp: packed_def)
next
  case (Cons e live)
  obtain s data where e: "e = (s, data)" by force
  let ?st = "start - length data"
  let ?i1 = "write_at img ?st data"
  let ?i3 = "write_u32 (write_u32 ?i1 (32 + s * 8) (of_nat ?st)) (36 + s * 8) (of_nat (length data))"
  let ?sl = "slots[s := (?st, length data)]"
  let ?S = "live_bytes live"
  have b: "s < length slots" "32 + 8 * length slots + ?S \<le> ?st" "?st + length data = start" "length data \<le> PAGE_SIZE"
    using Cons.prems(3-5) e by auto
  have l1: "layout ?i1 pid slots ds" using layout_data [OF Cons.prems(1), of ?st data] b Cons.prems(5) by simp
  have l3: "layout ?i3 pid ?sl ds" using layout_slot [OF l1 b(1), of ?st "length data"] b Cons.prems(5) by simp
  have len: "length img = PAGE_SIZE" "length ?i1 = PAGE_SIZE" "32 + 8 * length slots \<le> PAGE_SIZE"
    using Cons.prems(1) l1 by (simp_all add: layout_def)
  have k3: "slice ?i3 x n = slice ?i1 x n" if "?st \<le> x" for x n
    using that len b(1,2) by (simp add: write_u32_def slice_write_other)
  have "distinct (map fst live)" "fst ` set live \<subseteq> {..<length ?sl}" "32 + 8 * length ?sl + ?S \<le> ?st" "?st \<le> PAGE_SIZE"
    using Cons.prems(2-5) b by auto
  from Cons.IH [OF l3 this] obtain img' sl' where r:
    "pack live ?st ?i3 = (?st - ?S, img')" "layout img' pid sl' ds" "packed live (?st - ?S) ?st ?sl sl' img'"
    "\<forall>x n. ?st \<le> x \<longrightarrow> slice img' x n = slice ?i3 x n" by (elim exE conjE)
  have "pack (e # live) start img = (start - live_bytes (e # live), img')"
    using r(1) by (simp add: e Let_def HEADER_LEN_def SLOT_LEN_def add.commute)
  moreover have "packed (e # live) (start - live_bytes (e # live)) start slots sl' img'"
  proof -
    have s: "s \<notin> fst ` set live" using Cons.prems(2) e by force
    then have "sl' ! s = (?st, length data)" using r(3) b(1) by (simp add: packed_def)
    moreover have "slice img' ?st (length data) = data"
      using r(4) k3 len b Cons.prems(5) by (simp add: slice_write_same)
    moreover have "\<forall>i < length slots. i \<notin> fst ` set (e # live) \<longrightarrow> sl' ! i = slots ! i"
      using r(3) e by (auto simp: packed_def)
    moreover have "\<forall>(s', d) \<in> set live. ?st - ?S \<le> fst (sl' ! s') \<and> snd (sl' ! s') = length d \<and>
        fst (sl' ! s') + length d \<le> start \<and> slice img' (fst (sl' ! s')) (length d) = d"
      using r(3) b(3) unfolding packed_def by fastforce
    moreover have "clear_of (sl' ! i) (sl' ! j)" if ij: "i \<in> fst ` set (e # live)" "j \<in> fst ` set (e # live)" "i \<noteq> j" for i j
    proof -
      have below: "clear_of (sl' ! s) (sl' ! k)" if "k \<in> fst ` set live" for k
      proof -
        from that obtain d where "(k, d) \<in> set live" by force
        then have "fst (sl' ! k) + snd (sl' ! k) \<le> ?st" using r(3) unfolding packed_def by fastforce
        then show ?thesis using \<open>sl' ! s = (?st, length data)\<close> by (simp add: clear_of_def)
      qed
      from ij consider "i = s" "j \<in> fst ` set live" | "j = s" "i \<in> fst ` set live" | "i \<in> fst ` set live" "j \<in> fst ` set live"
        using e by auto
      then show ?thesis using below r(3) ij(3) by cases (auto simp: packed_def clear_of_sym [of _ "sl' ! s"])
    qed
    ultimately show ?thesis using r(3) b e unfolding packed_def by (auto simp: diff_diff_left)
  qed
  moreover have "\<forall>x n. start \<le> x \<longrightarrow> slice img' x n = slice img x n"
    using r(4) k3 len b Cons.prems(5) by (simp add: slice_write_other)
  ultimately show ?case using r(2) by blast
qed

lemma live_records_layout:
  assumes l: "layout (page_img p) pid slots ds"
  shows "distinct (map fst (live_records p))" "fst ` set (live_records p) = {i. i < length slots \<and> slots ! i \<noteq> (0, 0)}"
    "(s, data) \<in> set (live_records p) \<Longrightarrow> data = slice (page_img p) (fst (slots ! s)) (snd (slots ! s))"
proof -
  have eq: "live_records p = map (\<lambda>s. (s, slice (page_img p) (fst (slots ! s)) (snd (slots ! s))))
      (filter (\<lambda>s. slots ! s \<noteq> (0, 0)) [0..<length slots])"
  proof -
    have "concat (map (\<lambda>s. case slot_off p s of Some (o', l) \<Rightarrow> if o' \<noteq> 0 \<or> l \<noteq> 0 then [(s, slice (page_img p) o' l)] else []
        | None \<Rightarrow> []) xs) = map (\<lambda>s. (s, slice (page_img p) (fst (slots ! s)) (snd (slots ! s))))
          (filter (\<lambda>s. slots ! s \<noteq> (0, 0)) xs)" if "set xs \<subseteq> {..<length slots}" for xs
      using that by (induction xs) (auto simp: layout_fields(3) [OF l] prod_eq_iff split: prod.splits)
    then show ?thesis by (simp add: live_records_def layout_fields(1) [OF l] atLeast0LessThan)
  qed
  show "distinct (map fst (live_records p))" unfolding eq by (simp add: comp_def)
  show "fst ` set (live_records p) = {i. i < length slots \<and> slots ! i \<noteq> (0, 0)}" unfolding eq by force
  show "(s, data) \<in> set (live_records p) \<Longrightarrow> data = slice (page_img p) (fst (slots ! s)) (snd (slots ! s))"
    unfolding eq by auto
qed

lemma live_bytes_sum: "live_bytes live = sum_list (map (\<lambda>(_, d). length d) live)"
  by (induction live rule: live_bytes.induct) auto

lemma live_bytes_layout:
  assumes l: "layout (page_img p) pid slots ds" and f: "fits slots ds"
  shows "live_bytes (live_records p) = sum_list (map snd slots)"
proof -
  have len: "length (page_img p) = PAGE_SIZE" using l by (simp add: layout_def)
  have "live_bytes (live_records p) = (\<Sum>s \<leftarrow> [0..<length slots]. snd (slots ! s))"
  proof -
    have "live_bytes (concat (map (\<lambda>s. case slot_off p s of Some (o', l) \<Rightarrow> if o' \<noteq> 0 \<or> l \<noteq> 0 then [(s, slice (page_img p) o' l)] else []
        | None \<Rightarrow> []) xs)) = (\<Sum>s \<leftarrow> xs. snd (slots ! s))" if "set xs \<subseteq> {..<length slots}" for xs
      using that
    proof (induction xs)
      case (Cons s xs)
      then have s: "s < length slots" by simp
      then have "length (slice (page_img p) (fst (slots ! s)) (snd (slots ! s))) = snd (slots ! s) \<or> slots ! s = (0, 0)"
        using fits_nth [OF f s] len by (auto simp: length_slice)
      then show ?case using Cons s by (cases "slots ! s") (auto simp: layout_fields(3) [OF l] live_bytes_sum)
    qed simp
    then show ?thesis by (simp add: live_records_def layout_fields(1) [OF l] atLeast0LessThan)
  qed
  moreover have "map (\<lambda>s. snd (slots ! s)) [0..<length slots] = map snd slots"
    by (auto intro: nth_equalityI)
  ultimately show ?thesis by simp
qed

lemma compact_ok:
  assumes ok: "page_ok p"
  shows "page_ok (compact p) \<and> page_id (compact p) = page_id p \<and> (\<forall>s. page_get (compact p) s = page_get p s) \<and>
    free_space (compact p) \<ge> free_space p"
proof -
  from ok obtain slots ds where l: "layout (page_img p) (page_id p) slots ds" and f: "fits slots ds"
    by (rule page_okE)
  note fb = fits_bounds [OF f] and lr = live_records_layout [OF l] and lb = live_bytes_layout [OF l f]
  let ?S = "sum_list (map snd slots)"
  let ?st = "PAGE_SIZE - ?S"
  let ?n = "length slots"
  have S: "32 + 8 * ?n + ?S \<le> PAGE_SIZE" "ds \<le> ?st" "?st \<le> PAGE_SIZE" using fb by auto
  have "32 + 8 * ?n + live_bytes (live_records p) \<le> PAGE_SIZE" "fst ` set (live_records p) \<subseteq> {..<?n}"
    using S(1) lr(2) by (auto simp: lb)
  from pack_ok [OF l lr(1) this(2,1) order_refl] obtain img slots' where
    pk: "pack (live_records p) PAGE_SIZE (page_img p) = (?st, img)" "layout img (page_id p) slots' ds"
      "packed (live_records p) ?st PAGE_SIZE slots slots' img" unfolding lb by (elim exE conjE)
  let ?d = "32 + 8 * ?n"
  let ?i1 = "write_at img ?d (replicate (?st - ?d) 0)"
  let ?p2 = "set_data_start ?st (p\<lparr>page_img := ?i1\<rparr>)"
  have len: "length slots' = ?n" "length img = PAGE_SIZE" using pk(2,3) by (simp_all add: packed_def layout_def)
  have l1: "layout ?i1 (page_id p) slots' ds" using pk(2) S len by (intro layout_data) simp_all
  have l2: "layout (page_img ?p2) (page_id p) slots' ?st"
    using layout_data_start [OF l1 S(3)] by (simp add: set_data_start_def)
  have len1: "length ?i1 = PAGE_SIZE" using l1 by (simp add: layout_def)
  have img2: "page_img ?p2 = write_at ?i1 20 (u32_le (of_nat ?st))" by (simp add: set_data_start_def write_u32_def)
  have k2: "slice (page_img ?p2) x n = slice img x n" if "?st \<le> x" for x n
  proof -
    have "24 \<le> x" using that S(1) by linarith
    then have "slice (page_img ?p2) x n = slice ?i1 x n"
      unfolding img2 by (intro slice_write_other) (use len1 in \<open>simp_all add: PAGE_SIZE_def\<close>)
    also have "slice ?i1 x n = slice img x n" by (rule slice_write_other) (use that S len in simp_all)
    finally show ?thesis .
  qed
  have eq: "compact p = update_checksum ?p2"
    by (simp add: compact_def pk(1) Let_def HEADER_LEN_def SLOT_LEN_def layout_fields(1) [OF l] mult.commute)
  note u = update_checksum_ok [OF l2]
  have ent: "slots' ! i = (0, 0) \<and> slots ! i = (0, 0) \<or>
      slots ! i \<noteq> (0, 0) \<and> ?st \<le> fst (slots' ! i) \<and> snd (slots' ! i) = snd (slots ! i) \<and> fst (slots' ! i) + snd (slots ! i) \<le> PAGE_SIZE \<and>
      slice img (fst (slots' ! i)) (snd (slots ! i)) = slice (page_img p) (fst (slots ! i)) (snd (slots ! i))" if i: "i < ?n" for i
  proof (cases "slots ! i = (0, 0)")
    case True
    then show ?thesis using pk(3) i lr(2) by (auto simp: packed_def)
  next
    case False
    then obtain data where d: "(i, data) \<in> set (live_records p)" using lr(2) i by (metis (mono_tags, lifting) image_iff mem_Collect_eq prod.collapse)
    note dd = lr(3) [OF d]
    have "length data = snd (slots ! i)"
      using fits_nth [OF f i] False l unfolding dd by (auto simp: length_slice layout_def)
    moreover have "?st \<le> fst (slots' ! i) \<and> snd (slots' ! i) = length data \<and>
        fst (slots' ! i) + length data \<le> PAGE_SIZE \<and> slice img (fst (slots' ! i)) (length data) = data"
      using pk(3) d unfolding packed_def by blast
    ultimately show ?thesis using False dd by simp
  qed
  have "map snd slots' = map snd slots"
  proof (rule nth_equalityI)
    show "map snd slots' ! i = map snd slots ! i" if "i < length (map snd slots')" for i
      using ent [of i] that len by (auto simp: nth_map)
  qed (simp add: len)
  moreover have "apart slots'" unfolding apart_def
  proof (intro allI impI)
    fix i j assume ij: "i < length slots'" "j < length slots'" "i \<noteq> j"
    show "clear_of (slots' ! i) (slots' ! j)"
    proof (cases "slots ! i = (0, 0) \<or> slots ! j = (0, 0)")
      case True
      then show ?thesis using ent [of i] ent [of j] ij len by auto
    next
      case False
      then show ?thesis using pk(3) lr(2) ij len unfolding packed_def by auto
    qed
  qed
  ultimately have f2: "fits slots' ?st" using ent S len by (intro fitsI) (auto, fastforce+)
  have "page_get (compact p) s = page_get p s" for s
  proof (cases "unat s < ?n")
    case True
    note e = ent [OF True]
    have "slice (page_img (update_checksum ?p2)) (fst (slots' ! unat s)) m = slice img (fst (slots' ! unat s)) m"
      if "?st \<le> fst (slots' ! unat s)" for m using u(4) k2 that S by simp
    then show ?thesis unfolding eq page_get_layout [OF u(1) f2] page_get_layout [OF l f] using True e len S by auto
  next
    case False
    then show ?thesis unfolding eq page_get_layout [OF u(1) f2] page_get_layout [OF l f] len by simp
  qed
  moreover have "free_space p \<le> free_space (compact p)"
    unfolding eq layout_fields(4) [OF u(1)] layout_fields(4) [OF l] len using S by simp
  moreover have "page_ok (compact p)" "page_id (compact p) = page_id p"
    unfolding eq page_ok_def using u f2 by (auto simp: set_data_start_def)
  ultimately show ?thesis by simp
qed

text \<open>One changed byte: either the stored checksum changes or the checksummed bytes do.\<close>

lemma slice_le_inject:
  assumes "read_u32 img 24 = read_u32 img' 24" "length img = PAGE_SIZE" "length img' = PAGE_SIZE"
  shows "slice img 24 4 = slice img' 24 4"
proof -
  have inv: "u32_le (read_u32 x 24) = slice x 24 4" if "length x = PAGE_SIZE" for x
  proof -
    have "length (slice x 24 4) = 4" using that by (simp add: length_slice PAGE_SIZE_def)
    then show ?thesis unfolding read_u32_def by (rule u32_le_of_le)
  qed
  show ?thesis using inv [OF assms(2)] inv [OF assms(3)] assms(1) by simp
qed

lemma crc_ok_damaged:
  assumes c: "crc_ok (xs @ b # ys)" and l: "length (xs @ b # ys) = PAGE_SIZE" and d: "b' \<noteq> b"
  shows "\<not> crc_ok (xs @ b' # ys)"
proof
  assume c': "crc_ok (xs @ b' # ys)"
  let ?n = "length xs"
  have l': "length (xs @ b' # ys) = PAGE_SIZE" using l by simp
  have big: "28 \<le> PAGE_SIZE" by (simp add: PAGE_SIZE_def)
  show False
  proof (cases "24 \<le> ?n \<and> ?n < 28")
    case True
    then obtain k where "28 - ?n = Suc k" by (metis Suc_diff_Suc)
    then have "write_at (xs @ b # ys) 24 [0, 0, 0, 0] = write_at (xs @ b' # ys) 24 [0, 0, 0, 0]"
      using True by (simp add: write_at_def)
    then have "read_u32 (xs @ b # ys) 24 = read_u32 (xs @ b' # ys) 24" using c c' by (simp add: crc_ok_def)
    from slice_le_inject [OF this l l'] have "slice (xs @ b # ys) 24 4 ! (?n - 24) = slice (xs @ b' # ys) 24 4 ! (?n - 24)"
      by simp
    moreover have "slice (xs @ c # ys) 24 4 ! (?n - 24) = (xs @ c # ys) ! ?n" for c
    proof -
      have "?n - 24 < 4" "24 + (?n - 24) = ?n" "24 \<le> length (xs @ c # ys)" using True by auto
      then show ?thesis by (simp only: slice_def nth_take nth_drop)
    qed
    ultimately show False using d by simp
  next
    case False
    have "\<exists>us vs. write_at (xs @ b # ys) 24 [0, 0, 0, 0] = us @ b # vs \<and> write_at (xs @ b' # ys) 24 [0, 0, 0, 0] = us @ b' # vs"
    proof (cases "?n < 24")
      case True
      then obtain k where k: "24 - ?n = Suc k" by (metis Suc_diff_Suc)
      then have d: "drop (28 - ?n) (c # ys) = drop (k + 4) ys" for c
      proof -
        have "28 - ?n = Suc (k + 4)" using k by linarith
        then show ?thesis by (simp only: drop_Suc_Cons)
      qed
      show ?thesis
        by (rule exI [of _ xs], rule exI [of _ "take k ys @ [0, 0, 0, 0] @ drop (k + 4) ys"])
          (use True in \<open>simp add: write_at_def d k\<close>)
    next
      case F: False
      with False have "28 \<le> ?n" by simp
      show ?thesis
        by (rule exI [of _ "take 24 xs @ [0, 0, 0, 0] @ drop 28 xs"], rule exI [of _ ys])
          (use \<open>28 \<le> ?n\<close> in \<open>simp add: write_at_def\<close>)
    qed
    then have "crc32 (write_at (xs @ b # ys) 24 [0, 0, 0, 0]) \<noteq> crc32 (write_at (xs @ b' # ys) 24 [0, 0, 0, 0])"
      using crc32_byte_differs [OF d] by metis
    moreover have "slice (xs @ b # ys) 24 4 = slice (xs @ b' # ys) 24 4"
    proof (cases "?n < 24")
      case True
      then have "24 - ?n = Suc (23 - ?n)" by simp
      then show ?thesis using True by (simp add: slice_def)
    qed (use False in \<open>simp add: slice_def\<close>)
    ultimately show False using c c' by (simp add: crc_ok_def read_u32_def)
  qed
qed

section \<open>Properties\<close>

text \<open>C10. A page is a map from slots to records: on every consistent page \<open>insert\<close> succeeds when there is
  room and binds the record to a slot that was free, \<open>free_slot\<close> unbinds exactly its slot, \<open>compact\<close> changes
  no binding and never loses space, and each result is consistent and is accepted when read back.\<close>
theorem page_refines_map:
  assumes "page_ok p"
  shows "(length data + 8 \<le> free_space p \<longrightarrow>
       (\<exists>p' s. page_insert data p = Some (p', s) \<and> page_ok p' \<and> page_get p s = None \<and>
          page_get p' = (page_get p)(s := Some data))) \<and>
     page_ok (fst (page_free_slot slot p)) \<and> page_get (fst (page_free_slot slot p)) = (page_get p)(slot := None) \<and>
     page_ok (compact p) \<and> page_get (compact p) = page_get p \<and> free_space p \<le> free_space (compact p) \<and>
     from_image (page_id p) (page_img p) = Inr p"
  using page_insert_ok [OF assms, of data] page_free_slot_ok [OF assms, of slot] compact_ok [OF assms]
    page_ok_verify [OF assms] by (auto simp: slots_kept_def fun_eq_iff)

theorem page_refines_map_witness:
  "\<exists>p' s. page_insert [1, 2, 3] (page_create 5) = Some (p', s) \<and> page_get p' s = Some [1, 2, 3]"
proof -
  have "length [1, 2, 3 :: u8] + 8 \<le> free_space (page_create 5)" by (simp add: page_create_ok(3) PAGE_SIZE_def)
  then have "\<exists>p' s. page_insert [1, 2, 3] (page_create 5) = Some (p', s) \<and> page_ok p' \<and> page_get (page_create 5) s = None \<and>
      page_get p' = (page_get (page_create 5))(s := Some [1, 2, 3])"
    using page_refines_map [OF page_create_ok(1) [of 5], of "[1, 2, 3]" 0] by (elim conjE) (drule (1) mp)
  then show ?thesis by fastforce
qed

text \<open>Damage is detected: if any single byte of a stored page changes, reading the page reports
  corruption.\<close>
theorem page_damage_detected:
  assumes "page_ok p" "page_img p = xs @ b # ys" "b' \<noteq> b"
  shows "\<exists>m. from_image (page_id p) (xs @ b' # ys) = Inl (Corrupted m)"
proof -
  from assms(1) have c: "crc_ok (xs @ b # ys)" "length (xs @ b # ys) = PAGE_SIZE"
    using assms(2) by (auto simp: page_ok_def layout_def)
  from crc_ok_damaged [OF c assms(3)] show ?thesis
    using c(2) by (auto simp: from_image_def page_verify_def Let_def crc_ok_def)
qed

theorem page_damage_detected_witness:
  "\<exists>m. from_image 5 (0 # tl (page_img (page_create 5))) = Inl (Corrupted m)"
proof -
  have "slice (page_img (page_create 5)) 0 4 = PAGE_MAGIC" using page_create_layout(1) [of 5] by (simp add: layout_def)
  then obtain b ys where "page_img (page_create 5) = b # ys" "b \<noteq> 0"
    by (cases "page_img (page_create 5)") (auto simp: slice_def PAGE_MAGIC_def str_bytes_def)
  then show ?thesis using page_damage_detected [OF page_create_ok(1) [of 5], of "[]" b ys 0]
    by (simp add: page_create_layout(3))
qed

text \<open>A locator survives its encoding, and a buffer is recognised as a locator exactly when it is the
  encoding of one.\<close>
theorem locator_round_trip:
  "locator_decode (locator_encode l) = Inr l \<and> is_locator (locator_encode l) \<and>
   (is_locator buf \<longleftrightarrow> (\<exists>l'. buf = locator_encode l'))"
proof -
  have dec: "locator_decode (locator_encode l) = Inr l" "is_locator (locator_encode l)" for l :: locator
    by (simp_all add: locator_decode_def locator_encode_def is_locator_def LOCATOR_LEN_def slice_def codec_simps)
  have "\<exists>l'. buf = locator_encode l'" if b: "is_locator buf"
  proof -
    let ?l = "\<lparr>loc_page = u64_of_le (slice buf 2 8), loc_slot = u32_of_le (slice buf 10 4)\<rparr>"
    have len: "length buf = 14" "buf ! 0 = LOCATOR_TAG" "buf ! 1 = LOCATOR_MAGIC" using b by (auto simp: is_locator_def LOCATOR_LEN_def)
    then have "buf = buf ! 0 # buf ! 1 # slice buf 2 8 @ slice buf 10 4"
      by (intro nth_equalityI) (auto simp: slice_def nth_Cons nth_append split: nat.splits)
    also have "\<dots> = locator_encode ?l"
      using len u64_le_of_le [of "slice buf 2 8"] u32_le_of_le [of "slice buf 10 4"]
      by (simp add: locator_encode_def length_slice)
    finally show ?thesis by blast
  qed
  then show ?thesis using dec by blast
qed

end
