(* ===== verification/Epoch.thy ===== *)
theory Epoch
  imports Prelude
begin

text \<open>
  Epoch-based reclamation (\<open>crates/engine/src/epoch.rs\<close>). The manager keeps the global epoch, the
  participants with the epoch each is pinned at, and the queue of retired objects. \<open>try_reclaim\<close> is
  split where another thread can run in between: the scan of the participants, and the rest, which
  advances the epoch and sweeps the queue. Threads and objects are numbers; \<open>drop\<close>ping a retired object
  moves it to \<open>freed\<close>. Epochs are natural numbers below \<open>INACTIVE_EPOCH\<close>.
\<close>

section \<open>The manager\<close>

definition INACTIVE_EPOCH :: nat where "INACTIVE_EPOCH = 2 ^ 64 - 1"

record epoch_manager =
  global_epoch :: nat
  participants :: "nat list"
  active_epoch :: "nat \<Rightarrow> nat"
  thread_alive :: "nat \<Rightarrow> bool"
  retired :: "(nat \<times> nat) list"
  freed :: "nat list"
  retired_total :: nat
  reclaimed_total :: nat

definition epoch_manager_new :: epoch_manager where
  "epoch_manager_new =
     \<lparr>global_epoch = 1, participants = [], active_epoch = (\<lambda>_. INACTIVE_EPOCH), thread_alive = (\<lambda>_. True),
      retired = [], freed = [], retired_total = 0, reclaimed_total = 0\<rparr>"

definition register_thread :: "nat \<Rightarrow> epoch_manager \<Rightarrow> epoch_manager" where
  "register_thread t m =
     m\<lparr>participants := participants m @ [t], active_epoch := (active_epoch m)(t := INACTIVE_EPOCH)\<rparr>"

definition local_participant :: "nat \<Rightarrow> epoch_manager \<Rightarrow> epoch_manager" where
  "local_participant t m = (if t \<in> set (participants m) then m else register_thread t m)"

text \<open>\<open>pin\<close> returns the guard: the epoch the participant had before.\<close>

definition pin :: "nat \<Rightarrow> epoch_manager \<Rightarrow> nat \<times> epoch_manager" where
  "pin t m =
     (let m = local_participant t m; e = global_epoch m; prev = active_epoch m t in
      (prev, m\<lparr>active_epoch := (active_epoch m)(t := e)\<rparr>))"

definition guard_drop :: "nat \<Rightarrow> nat \<Rightarrow> epoch_manager \<Rightarrow> epoch_manager" where
  "guard_drop t prev m = m\<lparr>active_epoch := (active_epoch m)(t := prev)\<rparr>"

definition retire :: "nat \<Rightarrow> epoch_manager \<Rightarrow> epoch_manager" where
  "retire x m = m\<lparr>retired_total := retired_total m + 1, retired := retired m @ [(x, global_epoch m)]\<rparr>"

definition pending_count :: "epoch_manager \<Rightarrow> nat" where
  "pending_count m = length (retired m)"

text \<open>The loop over the participants: the oldest epoch in use, and whether every active participant is
  at the current one.\<close>

fun scan_loop :: "(nat \<Rightarrow> nat) \<Rightarrow> nat \<Rightarrow> nat list \<Rightarrow> nat option \<Rightarrow> bool \<Rightarrow> nat option \<times> bool" where
  "scan_loop active current [] min_active all_caught_up = (min_active, all_caught_up)"
| "scan_loop active current (p # ps) min_active all_caught_up =
     (let e = active p in
      if e \<noteq> INACTIVE_EPOCH then
        scan_loop active current ps (Some (case min_active of None \<Rightarrow> e | Some m \<Rightarrow> min m e))
          (if e < current then False else all_caught_up)
      else scan_loop active current ps min_active all_caught_up)"

definition reclaim_scan :: "epoch_manager \<Rightarrow> epoch_manager \<times> nat option \<times> bool" where
  "reclaim_scan m =
     (let m = m\<lparr>participants := filter (thread_alive m) (participants m)\<rparr> in
      (m, scan_loop (active_epoch m) (global_epoch m) (participants m) None True))"

definition reclaim_finish :: "nat option \<Rightarrow> bool \<Rightarrow> epoch_manager \<Rightarrow> epoch_manager \<times> nat" where
  "reclaim_finish min_active all_caught_up m =
     (let m = (if all_caught_up then m\<lparr>global_epoch := global_epoch m + 1\<rparr> else m);
          safe_epoch = global_epoch m;
          horizon = (case min_active of Some e \<Rightarrow> e | None \<Rightarrow> safe_epoch);
          gone = filter (\<lambda>(_, e). e < horizon) (retired m)
      in (m\<lparr>retired := filter (\<lambda>(_, e). e \<ge> horizon) (retired m), freed := freed m @ map fst gone,
            reclaimed_total := reclaimed_total m + length gone\<rparr>, length gone))"

definition try_reclaim :: "epoch_manager \<Rightarrow> epoch_manager \<times> nat" where
  "try_reclaim m = (case reclaim_scan m of (m, min_active, caught_up) \<Rightarrow> reclaim_finish min_active caught_up m)"

section \<open>Readers and writers\<close>

text \<open>The clients: which objects are still linked into the structure, which references each thread
  took since its outermost pin, its guards, and a reclamation that has scanned and not finished.\<close>

record ebr =
  mgr :: epoch_manager
  linked :: "nat set"
  held :: "nat \<Rightarrow> nat set"
  guards :: "nat \<Rightarrow> nat list"
  scanned :: "(nat option \<times> bool) option"

definition ebr_start :: "nat set \<Rightarrow> ebr" where
  "ebr_start objs = \<lparr>mgr = epoch_manager_new, linked = objs, held = (\<lambda>_. {}), guards = (\<lambda>_. []), scanned = None\<rparr>"

definition do_pin :: "nat \<Rightarrow> ebr \<Rightarrow> ebr" where
  "do_pin t s = (case pin t (mgr s) of (prev, m) \<Rightarrow> s\<lparr>mgr := m, guards := (guards s)(t := prev # guards s t)\<rparr>)"

definition do_unpin :: "nat \<Rightarrow> ebr \<Rightarrow> ebr" where
  "do_unpin t s =
     (case guards s t of
        [] \<Rightarrow> s
      | prev # gs \<Rightarrow> s\<lparr>mgr := guard_drop t prev (mgr s), guards := (guards s)(t := gs),
                        held := (held s)(t := if gs = [] then {} else held s t)\<rparr>)"

definition do_read :: "nat \<Rightarrow> nat \<Rightarrow> ebr \<Rightarrow> ebr" where
  "do_read t x s = s\<lparr>held := (held s)(t := insert x (held s t))\<rparr>"

definition do_retire :: "nat \<Rightarrow> ebr \<Rightarrow> ebr" where
  "do_retire x s = s\<lparr>linked := linked s - {x}, mgr := retire x (mgr s)\<rparr>"

definition do_scan :: "ebr \<Rightarrow> ebr" where
  "do_scan s = (case reclaim_scan (mgr s) of (m, r) \<Rightarrow> s\<lparr>mgr := m, scanned := Some r\<rparr>)"

definition do_finish :: "ebr \<Rightarrow> ebr" where
  "do_finish s =
     (case scanned s of
        None \<Rightarrow> s
      | Some (min_active, caught_up) \<Rightarrow> s\<lparr>mgr := fst (reclaim_finish min_active caught_up (mgr s)), scanned := None\<rparr>)"

definition do_reclaim :: "ebr \<Rightarrow> ebr" where
  "do_reclaim s = s\<lparr>mgr := fst (try_reclaim (mgr s))\<rparr>"

definition do_exit :: "nat \<Rightarrow> ebr \<Rightarrow> ebr" where
  "do_exit t s = s\<lparr>mgr := (mgr s)\<lparr>thread_alive := (thread_alive (mgr s))(t := False)\<rparr>\<rparr>"

text \<open>The steps: \<open>nest\<close> allows a pin inside a pinned phase, \<open>race\<close> lets other threads run between the
  scan of a reclamation and its end. A reclamation holds the lock of the participant list from its
  scan to its end, so no thread registers and no other reclamation runs meanwhile.\<close>

inductive ebr_step :: "bool \<Rightarrow> bool \<Rightarrow> ebr \<Rightarrow> ebr \<Rightarrow> bool" for nest race where
  Pin: "nest \<or> guards s t = [] \<Longrightarrow> thread_alive (mgr s) t \<Longrightarrow>
    scanned s = None \<or> t \<in> set (participants (mgr s)) \<Longrightarrow> ebr_step nest race s (do_pin t s)"
| Unpin: "guards s t \<noteq> [] \<Longrightarrow> ebr_step nest race s (do_unpin t s)"
| Read: "guards s t \<noteq> [] \<Longrightarrow> x \<in> linked s \<Longrightarrow> ebr_step nest race s (do_read t x s)"
| Retire: "x \<in> linked s \<Longrightarrow> ebr_step nest race s (do_retire x s)"
| Reclaim: "scanned s = None \<Longrightarrow> global_epoch (mgr s) + 1 < INACTIVE_EPOCH \<Longrightarrow> ebr_step nest race s (do_reclaim s)"
| Scan: "race \<Longrightarrow> scanned s = None \<Longrightarrow> ebr_step nest race s (do_scan s)"
| Finish: "scanned s \<noteq> None \<Longrightarrow> global_epoch (mgr s) + 1 < INACTIVE_EPOCH \<Longrightarrow> ebr_step nest race s (do_finish s)"
| Exit: "guards s t = [] \<Longrightarrow> ebr_step nest race s (do_exit t s)"

abbreviation ebr_run :: "bool \<Rightarrow> bool \<Rightarrow> ebr \<Rightarrow> ebr \<Rightarrow> bool" where
  "ebr_run nest race \<equiv> (ebr_step nest race)\<^sup>*\<^sup>*"

definition ebr_safe :: "ebr \<Rightarrow> bool" where
  "ebr_safe s \<longleftrightarrow> (\<forall>t. held s t \<inter> set (freed (mgr s)) = {})"

section \<open>The scan\<close>

lemma scan_loop_min:
  "scan_loop active cur ps m c = (m', c') \<Longrightarrow>
   (\<forall>p \<in> set ps. active p \<noteq> INACTIVE_EPOCH \<longrightarrow> (\<exists>e. m' = Some e \<and> e \<le> active p)) \<and>
   (\<forall>e. m = Some e \<longrightarrow> (\<exists>e'. m' = Some e' \<and> e' \<le> e)) \<and>
   (m' = None \<longleftrightarrow> m = None \<and> (\<forall>p \<in> set ps. active p = INACTIVE_EPOCH))"
proof (induction active cur ps m c arbitrary: m' c' rule: scan_loop.induct)
  case (2 active cur p ps m c)
  show ?case
  proof (cases "active p = INACTIVE_EPOCH")
    case True
    then show ?thesis using 2 by (auto simp: Let_def)
  next
    case False
    let ?m = "Some (case m of None \<Rightarrow> active p | Some m \<Rightarrow> min m (active p))"
    have "scan_loop active cur ps ?m (if active p < cur then False else c) = (m', c')"
      using "2.prems" False by (simp add: Let_def)
    from "2.IH"(1) [OF refl False this] False show ?thesis
      by (cases m) (auto simp: min_def split: if_splits)
  qed
qed auto

section \<open>The invariant\<close>

text \<open>A thread is outside every read phase, or pinned once; a held object was linked when it was read,
  so if it is retired, its epoch is not older than the epoch its reader is pinned at.\<close>

definition reader_ok :: "epoch_manager \<Rightarrow> nat \<Rightarrow> nat list \<Rightarrow> nat set \<Rightarrow> bool" where
  "reader_ok m t gs h \<longleftrightarrow>
     (if gs = [] then active_epoch m t = INACTIVE_EPOCH \<and> h = {}
      else gs = [INACTIVE_EPOCH] \<and> active_epoch m t \<noteq> INACTIVE_EPOCH \<and> t \<in> set (participants m) \<and>
        thread_alive m t \<and> active_epoch m t \<le> global_epoch m \<and> h \<inter> set (freed m) = {} \<and>
        (\<forall>(x, e) \<in> set (retired m). x \<in> h \<longrightarrow> active_epoch m t \<le> e))"

definition ebr_inv :: "ebr \<Rightarrow> bool" where
  "ebr_inv s \<longleftrightarrow>
     (\<forall>t. reader_ok (mgr s) t (guards s t) (held s t)) \<and>
     global_epoch (mgr s) < INACTIVE_EPOCH \<and> scanned s = None \<and>
     linked s \<inter> (set (freed (mgr s)) \<union> fst ` set (retired (mgr s))) = {}"

lemma ebr_inv_reader: "ebr_inv s \<Longrightarrow> reader_ok (mgr s) t (guards s t) (held s t)"
  by (simp add: ebr_inv_def)

lemmas ebr_ops = do_pin_def do_unpin_def do_read_def do_retire_def do_exit_def pin_def guard_drop_def retire_def
  local_participant_def register_thread_def Let_def

lemma ebr_start_inv: "ebr_inv (ebr_start objs)"
  by (simp add: ebr_inv_def reader_ok_def ebr_start_def epoch_manager_new_def INACTIVE_EPOCH_def)

lemma pin_inv:
  assumes i: "ebr_inv s" and g: "guards s t = []" and a: "thread_alive (mgr s) t"
  shows "ebr_inv (do_pin t s)"
proof -
  have r: "active_epoch (mgr s) t = INACTIVE_EPOCH" "held s t = {}"
    using ebr_inv_reader [OF i, of t] g by (simp_all add: reader_ok_def)
  have "reader_ok (mgr (do_pin t s)) u (guards (do_pin t s) u) (held (do_pin t s) u)" for u
    using ebr_inv_reader [OF i, of u] i r g a
    by (cases "u = t"; cases "t \<in> set (participants (mgr s))") (simp_all add: reader_ok_def ebr_ops ebr_inv_def)
  then show ?thesis using i by (simp add: ebr_inv_def) (simp add: ebr_ops)
qed

lemma unpin_inv:
  assumes i: "ebr_inv s" and g: "guards s t \<noteq> []"
  shows "ebr_inv (do_unpin t s)"
proof -
  have gs: "guards s t = [INACTIVE_EPOCH]"
    using ebr_inv_reader [OF i, of t] g by (simp add: reader_ok_def)
  have "reader_ok (mgr (do_unpin t s)) u (guards (do_unpin t s) u) (held (do_unpin t s) u)" for u
    using ebr_inv_reader [OF i, of u] gs by (cases "u = t") (simp_all add: reader_ok_def ebr_ops)
  then show ?thesis using i gs by (simp add: ebr_inv_def) (simp add: ebr_ops)
qed

lemma read_inv:
  assumes i: "ebr_inv s" and g: "guards s t \<noteq> []" and x: "x \<in> linked s"
  shows "ebr_inv (do_read t x s)"
proof -
  have "x \<notin> set (freed (mgr s))" "x \<notin> fst ` set (retired (mgr s))" using i x unfolding ebr_inv_def by blast+
  then have "reader_ok (mgr (do_read t x s)) u (guards (do_read t x s) u) (held (do_read t x s) u)" for u
    using ebr_inv_reader [OF i, of u] g by (cases "u = t") (auto simp: reader_ok_def ebr_ops image_iff)
  then show ?thesis using i by (simp add: ebr_inv_def) (simp add: ebr_ops)
qed

lemma retire_inv:
  assumes i: "ebr_inv s" and x: "x \<in> linked s"
  shows "ebr_inv (do_retire x s)"
proof -
  have "reader_ok (mgr (do_retire x s)) u (guards (do_retire x s) u) (held (do_retire x s) u)" for u
    using ebr_inv_reader [OF i, of u] by (auto simp: reader_ok_def ebr_ops)
  then show ?thesis using i by (simp add: ebr_inv_def) (auto simp: ebr_ops)
qed

lemma exit_inv:
  assumes i: "ebr_inv s" and g: "guards s t = []"
  shows "ebr_inv (do_exit t s)"
proof -
  have "reader_ok (mgr (do_exit t s)) u (guards (do_exit t s) u) (held (do_exit t s) u)" for u
    using ebr_inv_reader [OF i, of u] g by (cases "u = t") (simp_all add: reader_ok_def ebr_ops)
  then show ?thesis using i by (simp add: ebr_inv_def) (simp add: ebr_ops)
qed

lemma try_reclaim_inv:
  assumes i: "ebr_inv s" and g: "global_epoch (mgr s) + 1 < INACTIVE_EPOCH"
  shows "ebr_inv (do_reclaim s)"
proof -
  let ?m = "(mgr s)\<lparr>participants := filter (thread_alive (mgr s)) (participants (mgr s))\<rparr>"
  obtain lo caught where sc: "scan_loop (active_epoch ?m) (global_epoch ?m) (participants ?m) None True = (lo, caught)"
    by force
  note mn = scan_loop_min [OF sc]
  define cur where "cur = (if caught then global_epoch (mgr s) + 1 else global_epoch (mgr s))"
  define horizon where "horizon = (case lo of Some e \<Rightarrow> e | None \<Rightarrow> cur)"
  have eq: "mgr (do_reclaim s) = (mgr s)\<lparr>participants := participants ?m, global_epoch := cur,
      retired := filter (\<lambda>(_, e). e \<ge> horizon) (retired (mgr s)),
      freed := freed (mgr s) @ map fst (filter (\<lambda>(_, e). e < horizon) (retired (mgr s))),
      reclaimed_total := reclaimed_total (mgr s) + length (filter (\<lambda>(_, e). e < horizon) (retired (mgr s)))\<rparr>"
    using sc by (cases lo; cases caught)
      (simp_all add: do_reclaim_def try_reclaim_def reclaim_scan_def reclaim_finish_def Let_def cur_def horizon_def)
  have same: "linked (do_reclaim s) = linked s" "held (do_reclaim s) = held s" "guards (do_reclaim s) = guards s"
    "scanned (do_reclaim s) = scanned s" by (simp_all add: do_reclaim_def)
  have "reader_ok (mgr (do_reclaim s)) t (guards s t) (held s t)" for t
  proof (cases "guards s t = []")
    case True
    then show ?thesis using ebr_inv_reader [OF i, of t] by (simp add: reader_ok_def eq)
  next
    case False
    then have r: "guards s t = [INACTIVE_EPOCH]" "active_epoch (mgr s) t \<noteq> INACTIVE_EPOCH" "t \<in> set (participants ?m)"
      "thread_alive (mgr s) t" "active_epoch (mgr s) t \<le> global_epoch (mgr s)" "held s t \<inter> set (freed (mgr s)) = {}"
      "\<forall>(x, e) \<in> set (retired (mgr s)). x \<in> held s t \<longrightarrow> active_epoch (mgr s) t \<le> e"
      using ebr_inv_reader [OF i, of t] by (simp_all add: reader_ok_def)
    then obtain e where "lo = Some e" "e \<le> active_epoch (mgr s) t" using mn by fastforce
    then have "horizon \<le> active_epoch (mgr s) t" by (simp add: horizon_def)
    then have "\<forall>(x, e) \<in> set (retired (mgr s)). x \<in> held s t \<longrightarrow> \<not> e < horizon" using r(7) by fastforce
    then have "held s t \<inter> set (freed (mgr (do_reclaim s))) = {}" using r(6) unfolding eq by auto
    moreover have "active_epoch (mgr s) t \<le> cur" using r(5) by (simp add: cur_def)
    ultimately show ?thesis using r by (auto simp: reader_ok_def eq)
  qed
  moreover have "linked s \<inter> (set (freed (mgr (do_reclaim s))) \<union> fst ` set (retired (mgr (do_reclaim s)))) = {}"
    using i unfolding ebr_inv_def eq by auto
  ultimately show ?thesis using i g by (simp add: ebr_inv_def same) (simp add: eq cur_def)
qed

lemma ebr_step_inv: "ebr_step False False s s' \<Longrightarrow> ebr_inv s \<Longrightarrow> ebr_inv s'"
  by (induction rule: ebr_step.induct)
    (simp_all add: pin_inv unpin_inv read_inv retire_inv exit_inv try_reclaim_inv, simp add: ebr_inv_def)

section \<open>Sample states\<close>

text \<open>Thread 0 is the only participant; object 7 is the only object.\<close>

definition sample_ebr :: "nat \<Rightarrow> nat \<Rightarrow> (nat \<times> nat) list \<Rightarrow> nat list \<Rightarrow> nat set \<Rightarrow> nat set \<Rightarrow> nat list \<Rightarrow>
    (nat option \<times> bool) option \<Rightarrow> ebr" where
  "sample_ebr g act ret fr lk h gs sc =
     \<lparr>mgr = \<lparr>global_epoch = g, participants = [0], active_epoch = (\<lambda>_. INACTIVE_EPOCH)(0 := act),
              thread_alive = (\<lambda>_. True), retired = ret, freed = fr,
              retired_total = length (ret @ map (\<lambda>x. (x, 0)) fr), reclaimed_total = length fr\<rparr>,
      linked = lk, held = (\<lambda>_. {})(0 := h), guards = (\<lambda>_. [])(0 := gs), scanned = sc\<rparr>"

lemmas ebr_eval = ebr_ops do_reclaim_def try_reclaim_def reclaim_scan_def reclaim_finish_def
  ebr_start_def epoch_manager_new_def INACTIVE_EPOCH_def do_scan_def do_finish_def

lemma sample_steps:
  "do_pin 0 (ebr_start {7}) = sample_ebr 1 1 [] [] {7} {} [INACTIVE_EPOCH] None"
  "do_read 0 7 (sample_ebr 1 1 [] [] {7} {} [INACTIVE_EPOCH] sc) = sample_ebr 1 1 [] [] {7} {7} [INACTIVE_EPOCH] sc"
  "do_retire 7 (sample_ebr 1 1 [] [] {7} {7} [INACTIVE_EPOCH] sc) = sample_ebr 1 1 [(7, 1)] [] {} {7} [INACTIVE_EPOCH] sc"
  "do_reclaim (sample_ebr 1 1 [(7, 1)] [] {} {7} [INACTIVE_EPOCH] None) =
     sample_ebr 2 1 [(7, 1)] [] {} {7} [INACTIVE_EPOCH] None"
  "do_pin 0 (sample_ebr 2 1 [(7, 1)] [] {} {7} [INACTIVE_EPOCH] None) =
     sample_ebr 2 2 [(7, 1)] [] {} {7} [1, INACTIVE_EPOCH] None"
  "do_reclaim (sample_ebr 2 2 [(7, 1)] [] {} {7} [1, INACTIVE_EPOCH] None) =
     sample_ebr 3 2 [] [7] {} {7} [1, INACTIVE_EPOCH] None"
  "do_finish (sample_ebr 1 1 [(7, 1)] [] {} {7} [INACTIVE_EPOCH] (Some (None, True))) =
     sample_ebr 2 1 [] [7] {} {7} [INACTIVE_EPOCH] None"
  by (simp_all add: ebr_eval sample_ebr_def fun_upd_idem)

lemma sample_scan:
  "do_unpin 0 (sample_ebr 1 1 [] [] {7} {} [INACTIVE_EPOCH] None) = sample_ebr 1 INACTIVE_EPOCH [] [] {7} {} [] None"
  "do_scan (sample_ebr 1 INACTIVE_EPOCH [] [] {7} {} [] None) = sample_ebr 1 INACTIVE_EPOCH [] [] {7} {} [] (Some (None, True))"
  "do_pin 0 (sample_ebr 1 INACTIVE_EPOCH [] [] {7} {} [] (Some (None, True))) =
     sample_ebr 1 1 [] [] {7} {} [INACTIVE_EPOCH] (Some (None, True))"
  by (simp_all add: ebr_eval sample_ebr_def fun_upd_idem)

lemmas run_step = rtranclp.rtrancl_into_rtrancl

lemma ebr_sample_run:
  "ebr_run nest race (ebr_start {7}) (sample_ebr 2 1 [(7, 1)] [] {} {7} [INACTIVE_EPOCH] None)"
proof -
  let ?s = "ebr_step nest race"
  have "?s (ebr_start {7}) (sample_ebr 1 1 [] [] {7} {} [INACTIVE_EPOCH] None)"
    by (rule Pin [of nest "ebr_start {7}" 0 race, unfolded sample_steps]) (simp_all add: ebr_start_def epoch_manager_new_def)
  moreover have "?s (sample_ebr 1 1 [] [] {7} {} [INACTIVE_EPOCH] None) (sample_ebr 1 1 [] [] {7} {7} [INACTIVE_EPOCH] None)"
    by (rule Read [of "sample_ebr 1 1 [] [] {7} {} [INACTIVE_EPOCH] None" 0 7 nest race, unfolded sample_steps]) (simp_all add: sample_ebr_def)
  moreover have "?s (sample_ebr 1 1 [] [] {7} {7} [INACTIVE_EPOCH] None) (sample_ebr 1 1 [(7, 1)] [] {} {7} [INACTIVE_EPOCH] None)"
    by (rule Retire [of 7 "sample_ebr 1 1 [] [] {7} {7} [INACTIVE_EPOCH] None" nest race, unfolded sample_steps]) (simp_all add: sample_ebr_def)
  moreover have "?s (sample_ebr 1 1 [(7, 1)] [] {} {7} [INACTIVE_EPOCH] None) (sample_ebr 2 1 [(7, 1)] [] {} {7} [INACTIVE_EPOCH] None)"
    by (rule Reclaim [of "sample_ebr 1 1 [(7, 1)] [] {} {7} [INACTIVE_EPOCH] None" nest race, unfolded sample_steps]) (simp_all add: sample_ebr_def INACTIVE_EPOCH_def)
  ultimately show ?thesis by (intro run_step [OF run_step [OF run_step [OF run_step [OF rtranclp.rtrancl_refl]]]])
qed

section \<open>Properties\<close>

text \<open>C24. Reclamation is safe when pins do not nest and a reclamation is not interrupted: in every
  history of pins, reads, unlinks, reclamations and exiting threads, no object a pinned reader holds
  has been freed.\<close>
theorem epoch_safe:
  assumes "ebr_run False False (ebr_start objs) s"
  shows "ebr_safe s"
proof -
  have "ebr_inv s" using assms
    by (induction rule: rtranclp_induct) (auto simp: ebr_start_inv intro: ebr_step_inv)
  then have "reader_ok (mgr s) t (guards s t) (held s t)" for t by (rule ebr_inv_reader)
  then show ?thesis unfolding ebr_safe_def reader_ok_def by (metis inf_bot_left)
qed

theorem epoch_safe_witness: "ebr_safe (sample_ebr 2 1 [(7, 1)] [] {} {7} [INACTIVE_EPOCH] None)"
  by (rule epoch_safe [OF ebr_sample_run])

text \<open>A nested pin exposes the outer phase: after an inner pin the participant counts as pinned at
  the newer epoch, so an object that was unlinked and retired before it, and that the outer phase
  still holds, is freed by the next reclamation.\<close>
theorem nested_pin_unsafe: "\<exists>s. ebr_run True False (ebr_start {7}) s \<and> \<not> ebr_safe s"
proof -
  let ?c = "sample_ebr 2 1 [(7, 1)] [] {} {7} [INACTIVE_EPOCH] None"
  let ?n = "sample_ebr 2 2 [(7, 1)] [] {} {7} [1, INACTIVE_EPOCH] None"
  let ?f = "sample_ebr 3 2 [] [7] {} {7} [1, INACTIVE_EPOCH] None"
  have "ebr_step True False ?c ?n"
    by (rule Pin [of True ?c 0 False, unfolded sample_steps]) (simp_all add: sample_ebr_def)
  moreover have "ebr_step True False ?n ?f"
    by (rule Reclaim [of ?n True False, unfolded sample_steps]) (simp_all add: sample_ebr_def INACTIVE_EPOCH_def)
  ultimately have "ebr_run True False (ebr_start {7}) ?f" by (intro run_step [OF run_step [OF ebr_sample_run]])
  moreover have "\<not> ebr_safe ?f" unfolding ebr_safe_def not_all by (intro exI [of _ 0]) (simp add: sample_ebr_def)
  ultimately show ?thesis by blast
qed

text \<open>A reclamation that another thread interrupts is unsafe even without nested pins: a reader
  that pins right after the participants were scanned is not counted, and an object it holds that is
  retired before the epoch advances is freed under it.\<close>
theorem interrupted_reclaim_unsafe: "\<exists>s. ebr_run False True (ebr_start {7}) s \<and> \<not> ebr_safe s"
proof -
  let ?st = "\<lambda>ret fr lk h. sample_ebr 1 1 ret fr lk h [INACTIVE_EPOCH] (Some (None, True))"
  let ?f = "sample_ebr 2 1 [] [7] {} {7} [INACTIVE_EPOCH] None"
  let ?s = "ebr_step False True"
  let ?idle = "sample_ebr 1 INACTIVE_EPOCH [] [] {7} {} []"
  have "?s (ebr_start {7}) (sample_ebr 1 1 [] [] {7} {} [INACTIVE_EPOCH] None)"
    by (rule Pin [of False "ebr_start {7}" 0 True, unfolded sample_steps]) (simp_all add: ebr_start_def epoch_manager_new_def)
  moreover have "?s (sample_ebr 1 1 [] [] {7} {} [INACTIVE_EPOCH] None) (?idle None)"
    by (rule Unpin [of "sample_ebr 1 1 [] [] {7} {} [INACTIVE_EPOCH] None" 0 False True, unfolded sample_scan])
      (simp add: sample_ebr_def)
  moreover have "?s (?idle None) (?idle (Some (None, True)))"
    by (rule Scan [of True "?idle None" False, unfolded sample_scan]) (simp_all add: sample_ebr_def)
  moreover have "?s (?idle (Some (None, True))) (?st [] [] {7} {})"
    by (rule Pin [of False "?idle (Some (None, True))" 0 True, unfolded sample_scan]) (simp_all add: sample_ebr_def)
  moreover have "?s (?st [] [] {7} {}) (?st [] [] {7} {7})"
    by (rule Read [of "?st [] [] {7} {}" 0 7 False True, unfolded sample_steps]) (simp_all add: sample_ebr_def)
  moreover have "?s (?st [] [] {7} {7}) (?st [(7, 1)] [] {} {7})"
    by (rule Retire [of 7 "?st [] [] {7} {7}" False True, unfolded sample_steps]) (simp_all add: sample_ebr_def)
  moreover have "?s (?st [(7, 1)] [] {} {7}) ?f"
    by (rule Finish [of "?st [(7, 1)] [] {} {7}" False True, unfolded sample_steps]) (simp_all add: sample_ebr_def INACTIVE_EPOCH_def)
  ultimately have "ebr_run False True (ebr_start {7}) ?f"
    by (intro run_step [OF run_step [OF run_step [OF run_step [OF run_step [OF run_step
          [OF run_step [OF rtranclp.rtrancl_refl]]]]]]])
  moreover have "\<not> ebr_safe ?f" unfolding ebr_safe_def not_all by (intro exI [of _ 0]) (simp add: sample_ebr_def)
  ultimately show ?thesis by blast
qed

end
