(* ===== verification/Pool.thy ===== *)
theory Pool
  imports Page Epoch "HOL-Library.AList" "HOL-Library.Product_Lexorder"
begin

text \<open>
  The overflow page pool (\<open>crates/engine/src/page.rs\<close>, the \<open>PageFile\<close> and \<open>BufferPool\<close> parts): a page file with a
  superblock, a fixed number of frames caching its pages, a page table, a two-stage cooling queue,
  and values stored as chains of page records.

  \<^item> The page file is its bytes. A write consumes one entry of \<open>pf_faults\<close>: \<open>None\<close>, or an empty list, is a
    write that succeeds, \<open>Some k\<close> one that fails after \<open>k\<close> bytes.
  \<^item> An operation on the pool's state returns \<open>None\<close> when the code panics (an index out of range, an
    \<open>unwrap\<close> of an empty frame), else the new state and its result.
  \<^item> \<open>free_map\<close> is a \<open>HashMap\<close> whose entries are visited when a page is chosen; the list is the order of the
    visit. The lock around the state makes every operation atomic.
\<close>

definition FRAG_SINGLE_OVERHEAD :: nat where "FRAG_SINGLE_OVERHEAD = 9"
definition FRAG_CHAIN_OVERHEAD :: nat where "FRAG_CHAIN_OVERHEAD = 21"
definition MAX_FRAG_PAYLOAD :: nat where
  "MAX_FRAG_PAYLOAD = PAGE_SIZE - HEADER_LEN - 2 * SLOT_LEN - FRAG_CHAIN_OVERHEAD"
definition MAX_CHAIN_FRAGS :: nat where "MAX_CHAIN_FRAGS = 4096"
definition SUPERBLOCK_PAGE :: u64 where "SUPERBLOCK_PAGE = 0"

section \<open>The page file\<close>

definition superblock_image :: "u64 \<Rightarrow> bytes" where
  "superblock_image next_id =
     (let img = replicate PAGE_SIZE 0;
          img = write_at img 0 PAGE_MAGIC;
          img = write_u32 img 4 PAGE_FORMAT_VERSION;
          img = write_u64 img 8 SUPERBLOCK_PAGE;
          img = write_u64 img HEADER_LEN next_id;
          c = crc32 img
      in write_at img 24 (u32_le c))"

definition superblock_next_id :: "bytes \<Rightarrow> u64 result" where
  "superblock_next_id img =
     (if slice img 0 4 \<noteq> PAGE_MAGIC \<or> read_u32 img 4 \<noteq> PAGE_FORMAT_VERSION
      then Inl (Corrupted ''page file: bad superblock'')
      else if crc32 (write_at img 24 [0, 0, 0, 0]) \<noteq> read_u32 img 24
      then Inl (Corrupted ''page file: superblock checksum'')
      else if read_u64 img HEADER_LEN < 1 then Inl (Corrupted ''page file: bad next-page'')
      else Inr (read_u64 img HEADER_LEN))"

record page_file =
  pf_file :: bytes
  pf_next_id :: u64
  pf_faults :: "nat option list"

text \<open>A write at an offset; the gap behind a short file is filled with zeros.\<close>

definition put_file :: "bytes \<Rightarrow> nat \<Rightarrow> bytes \<Rightarrow> bytes" where
  "put_file f off bs = write_at (f @ replicate (off - length f) 0) off bs"

definition write_all :: "nat \<Rightarrow> bytes \<Rightarrow> page_file \<Rightarrow> page_file \<times> unit result" where
  "write_all off bs pf =
     (case pf_faults pf of
        Some k # fs \<Rightarrow> (pf\<lparr>pf_file := put_file (pf_file pf) off (take k bs), pf_faults := fs\<rparr>, Inl (Io ''write failed''))
      | fs \<Rightarrow> (pf\<lparr>pf_file := put_file (pf_file pf) off bs, pf_faults := tl fs\<rparr>, Inr ()))"

text \<open>\<open>open\<close>, on the content of the file when there is one.\<close>

definition page_file_open :: "bytes option \<Rightarrow> nat option list \<Rightarrow> page_file result" where
  "page_file_open content faults =
     (case content of
        None \<Rightarrow>
          (case write_all 0 (superblock_image 1) \<lparr>pf_file = [], pf_next_id = 1, pf_faults = faults\<rparr> of
             (pf, Inl e) \<Rightarrow> Inl e | (pf, Inr _) \<Rightarrow> Inr pf)
      | Some f \<Rightarrow>
          if length f < PAGE_SIZE \<or> length f mod PAGE_SIZE \<noteq> 0 then Inl (Corrupted ''page file: bad size'')
          else rbind (superblock_next_id (slice f 0 PAGE_SIZE))
                 (\<lambda>next_id. Inr \<lparr>pf_file = f, pf_next_id = next_id, pf_faults = faults\<rparr>))"

definition alloc_page :: "page_file \<Rightarrow> page_file \<times> u64 result" where
  "alloc_page pf =
     (let pid = pf_next_id pf in
      if pid = - 1 then (pf, Inl (Io ''page file exhausted''))
      else case write_all 0 (superblock_image (pid + 1)) (pf\<lparr>pf_next_id := pid + 1\<rparr>) of
          (pf, Inl e) \<Rightarrow> (pf, Inl e)
        | (pf, Inr _) \<Rightarrow>
            case write_all (unat pid * PAGE_SIZE) (page_img (page_create pid)) pf of
              (pf, Inl e) \<Rightarrow> (pf, Inl e)
            | (pf, Inr _) \<Rightarrow> (pf, Inr pid))"

definition read_page :: "u64 \<Rightarrow> page_file \<Rightarrow> page result" where
  "read_page pid pf =
     (if pid = SUPERBLOCK_PAGE \<or> pid \<ge> pf_next_id pf then Inl (Corrupted ''page: id out of range'')
      else if unat pid * PAGE_SIZE + PAGE_SIZE > length (pf_file pf) then Inl (Corrupted ''page: short read'')
      else from_image pid (slice (pf_file pf) (unat pid * PAGE_SIZE) PAGE_SIZE))"

definition write_page :: "page \<Rightarrow> page_file \<Rightarrow> page_file \<times> unit result" where
  "write_page p pf =
     (if page_id p = SUPERBLOCK_PAGE \<or> page_id p \<ge> pf_next_id pf then (pf, Inl (Corrupted ''page: id out of range''))
      else write_all (unat (page_id p) * PAGE_SIZE) (page_img p) pf)"

section \<open>The pool\<close>

record pool_stats =
  hits :: nat
  faults :: nat
  evictions :: nat
  stores :: nat
  loads :: nat

record frame =
  fr_page :: "u64 option"
  fr_image :: "page option"
  fr_cooling :: bool

type_synonym frag = "u64 \<times> u32"

record quarantined =
  q_frags :: "frag list"
  q_epoch :: nat

record inner =
  in_file :: page_file
  frames :: "frame list"
  index :: "u64 \<rightharpoonup> nat"
  cooling :: "nat list"
  quarantine :: "quarantined list"
  pending_free :: "u64 \<rightharpoonup> u32 list"
  free_map :: "(u64 \<times> nat) list"
  in_stats :: pool_stats
  rng :: u64

record buffer_pool =
  inner :: inner
  epoch :: epoch_manager

type_synonym 'a pool_op = "inner \<Rightarrow> (inner \<times> 'a result) option"

definition empty_frame :: frame where
  "empty_frame = \<lparr>fr_page = None, fr_image = None, fr_cooling = False\<rparr>"

definition zero_stats :: pool_stats where
  "zero_stats = \<lparr>hits = 0, faults = 0, evictions = 0, stores = 0, loads = 0\<rparr>"

definition inner_new :: "page_file \<Rightarrow> nat \<Rightarrow> inner" where
  "inner_new pf n =
     \<lparr>in_file = pf, frames = replicate n empty_frame, index = Map.empty, cooling = [], quarantine = [],
      pending_free = Map.empty, free_map = [], in_stats = zero_stats, rng = 0x9E3779B97F4A7C15\<rparr>"

definition pool_open :: "bytes option \<Rightarrow> nat option list \<Rightarrow> nat \<Rightarrow> epoch_manager \<Rightarrow> buffer_pool result" where
  "pool_open content fs n e =
     (if n = 0 then Inl (Io ''buffer pool needs at least one frame'')
      else rbind (page_file_open content fs) (\<lambda>pf. Inr \<lparr>inner = inner_new pf n, epoch = e\<rparr>))"

text \<open>\<open>invalidate\<close> reopens the file, whose content may have been replaced, and forgets everything cached.\<close>

definition invalidate :: "bytes \<Rightarrow> buffer_pool \<Rightarrow> buffer_pool \<times> unit result" where
  "invalidate content p =
     (case page_file_open (Some content) (pf_faults (in_file (inner p))) of
        Inl e \<Rightarrow> (p, Inl e)
      | Inr pf \<Rightarrow> (p\<lparr>inner := inner_new pf (length (frames (inner p)))\<rparr>, Inr ()))"

definition next_rand :: "inner \<Rightarrow> inner \<times> nat" where
  "next_rand i =
     (let r = rng i; r = xor r (push_bit 13 r); r = xor r (drop_bit 7 r); r = xor r (push_bit 17 r)
      in (i\<lparr>rng := r\<rparr>, unat r mod length (frames i)))"

abbreviation set_frame :: "nat \<Rightarrow> frame \<Rightarrow> inner \<Rightarrow> inner" where
  "set_frame f fr i \<equiv> i\<lparr>frames := (frames i)[f := fr]\<rparr>"

definition drop_frame :: "nat \<Rightarrow> inner \<Rightarrow> inner option" where
  "drop_frame f i =
     (if f \<ge> length (frames i) then None
      else
        let i' = (case fr_page (frames i ! f) of
                    Some p \<Rightarrow> i\<lparr>index := (index i)(p := None),
                                in_stats := (in_stats i)\<lparr>evictions := evictions (in_stats i) + 1\<rparr>\<rparr>
                  | None \<Rightarrow> i)
        in Some (set_frame f empty_frame i'))"

definition victim_frame :: "inner \<Rightarrow> (inner \<times> nat) option" where
  "victim_frame i =
     (case find (\<lambda>f. fr_page (frames i ! f) = None) [0..<length (frames i)] of
        Some f \<Rightarrow> Some (i, f)
      | None \<Rightarrow>
          (case cooling i of
             f # c \<Rightarrow> map_option (\<lambda>i. (i, f)) (drop_frame f (i\<lparr>cooling := c\<rparr>))
           | [] \<Rightarrow>
               if frames i = [] then None
               else
                 let (i, v) = next_rand i;
                     i = set_frame v ((frames i ! v)\<lparr>fr_cooling := True\<rparr>) i
                 in map_option (\<lambda>i. (i, v)) (drop_frame v i)))"

fun cool_tries :: "nat \<Rightarrow> inner \<Rightarrow> inner" where
  "cool_tries 0 i = i"
| "cool_tries (Suc n) i =
     (let (i, v) = next_rand i in
      if fr_page (frames i ! v) \<noteq> None \<and> \<not> fr_cooling (frames i ! v)
      then set_frame v ((frames i ! v)\<lparr>fr_cooling := True\<rparr>) (i\<lparr>cooling := cooling i @ [v]\<rparr>)
      else cool_tries n i)"

definition maybe_cool :: "inner \<Rightarrow> inner" where
  "maybe_cool i = (if length (cooling i) \<ge> length (frames i) then i else cool_tries 4 i)"

text \<open>The slots freed while the page was not resident, applied when it is read back.\<close>

fun free_slots :: "u32 list \<Rightarrow> page \<Rightarrow> page \<times> bool" where
  "free_slots [] p = (p, False)"
| "free_slots (s # ss) p =
     (let (p, d) = page_free_slot s p; (p, d') = free_slots ss p in (p, d \<or> d'))"

definition install :: "nat \<Rightarrow> page \<Rightarrow> inner \<Rightarrow> inner" where
  "install f p i =
     i\<lparr>frames := (frames i)[f := \<lparr>fr_page = Some (page_id p), fr_image = Some p, fr_cooling = False\<rparr>],
       index := (index i)(page_id p \<mapsto> f)\<rparr>"

definition fault_in :: "u64 \<Rightarrow> nat pool_op" where
  "fault_in pid i =
     (case victim_frame i of
        None \<Rightarrow> None
      | Some (i, f) \<Rightarrow>
          (case read_page pid (in_file i) of
             Inl e \<Rightarrow> Some (i, Inl e)
           | Inr img \<Rightarrow>
               let (img, dirty) = (case pending_free i pid of None \<Rightarrow> (img, False) | Some ss \<Rightarrow> free_slots ss img);
                   i = i\<lparr>pending_free := (pending_free i)(pid := None)\<rparr>;
                   (pf, r) = (if dirty then write_page img (in_file i) else (in_file i, Inr ()));
                   i = i\<lparr>in_file := pf\<rparr>
               in case r of
                    Inl e \<Rightarrow> Some (i, Inl e)
                  | Inr _ \<Rightarrow>
                      let i = i\<lparr>free_map := AList.update pid (free_space img) (free_map i)\<rparr>;
                          i = install f img i
                      in Some (i\<lparr>in_stats := (in_stats i)\<lparr>faults := faults (in_stats i) + 1\<rparr>\<rparr>, Inr f)))"

definition fix_page :: "u64 \<Rightarrow> nat pool_op" where
  "fix_page pid i =
     (case index i pid of
        Some f \<Rightarrow>
          if f \<ge> length (frames i) then None
          else
            let i = (if fr_cooling (frames i ! f)
                     then set_frame f ((frames i ! f)\<lparr>fr_cooling := False\<rparr>) (i\<lparr>cooling := filter (\<lambda>x. x \<noteq> f) (cooling i)\<rparr>)
                     else i)
            in Some (i\<lparr>in_stats := (in_stats i)\<lparr>hits := hits (in_stats i) + 1\<rparr>\<rparr>, Inr f)
      | None \<Rightarrow> fault_in pid i)"

text \<open>The image of a frame, \<open>frames[f].image.as_mut().unwrap()\<close>.\<close>

definition image_of :: "inner \<Rightarrow> nat \<Rightarrow> page option" where
  "image_of i f = (if f < length (frames i) then fr_image (frames i ! f) else None)"

definition set_image :: "nat \<Rightarrow> page \<Rightarrow> inner \<Rightarrow> inner" where
  "set_image f p i = set_frame f ((frames i ! f)\<lparr>fr_image := Some p\<rparr>) i"

text \<open>\<open>let _ = self.file.write_page(img)\<close>: the error is dropped.\<close>

definition write_frame_through :: "nat \<Rightarrow> inner \<Rightarrow> inner option" where
  "write_frame_through f i =
     (if f \<ge> length (frames i) then None
      else case fr_image (frames i ! f) of
          None \<Rightarrow> Some i
        | Some img \<Rightarrow> Some (i\<lparr>in_file := fst (write_page img (in_file i))\<rparr>))"

definition release_frag :: "frag \<Rightarrow> inner \<Rightarrow> inner option" where
  "release_frag fg i =
     (case index i (fst fg) of
        Some f \<Rightarrow>
          (case image_of i f of
             None \<Rightarrow> None
           | Some img \<Rightarrow>
               let (img, freed) = page_free_slot (snd fg) img;
                   i = set_image f img i
               in Some (if freed
                        then i\<lparr>free_map := AList.update (fst fg) (free_space img) (free_map i),
                               in_file := fst (write_page img (in_file i))\<rparr>
                        else i))
      | None \<Rightarrow>
          Some (i\<lparr>pending_free := (pending_free i)(fst fg \<mapsto>
            (case pending_free i (fst fg) of None \<Rightarrow> [] | Some ss \<Rightarrow> ss) @ [snd fg])\<rparr>))"

fun release_frags :: "frag list \<Rightarrow> inner \<Rightarrow> inner option" where
  "release_frags [] i = Some i"
| "release_frags (fg # fgs) i = (case release_frag fg i of None \<Rightarrow> None | Some i \<Rightarrow> release_frags fgs i)"

text \<open>The loop over the quarantine: the entries past the horizon are released, the others are kept.\<close>

fun reclaim_loop :: "nat \<Rightarrow> quarantined list \<Rightarrow> quarantined list \<Rightarrow> inner \<Rightarrow> inner option" where
  "reclaim_loop current kept [] i = Some (i\<lparr>quarantine := kept\<rparr>)"
| "reclaim_loop current kept (q # qs) i =
     (if q_epoch q + 1 < current
      then (case release_frags (q_frags q) (i\<lparr>quarantine := kept @ qs\<rparr>) of
              None \<Rightarrow> None | Some i \<Rightarrow> reclaim_loop current kept qs i)
      else reclaim_loop current (kept @ [q]) qs i)"

definition reclaim_quarantine :: "buffer_pool \<Rightarrow> buffer_pool option" where
  "reclaim_quarantine p =
     (let e = fst (try_reclaim (epoch p)) in
      map_option (\<lambda>i. \<lparr>inner = i, epoch = e\<rparr>)
        (reclaim_loop (global_epoch e) [] (quarantine (inner p)) (inner p)))"

text \<open>Best fit over the pages with known free space.\<close>

fun best_fit :: "nat \<Rightarrow> (u64 \<times> nat) list \<Rightarrow> u64 option \<Rightarrow> nat \<Rightarrow> u64 option" where
  "best_fit need [] best best_free = best"
| "best_fit need ((pid, free) # fm) best best_free =
     (if free \<ge> need \<and> free < best_free then best_fit need fm (Some pid) free else best_fit need fm best best_free)"

definition fresh_page :: "bytes \<Rightarrow> frag pool_op" where
  "fresh_page frag i =
     (case alloc_page (in_file i) of
        (pf, Inl e) \<Rightarrow> Some (i\<lparr>in_file := pf\<rparr>, Inl e)
      | (pf, Inr pid) \<Rightarrow>
          (case victim_frame (i\<lparr>in_file := pf\<rparr>) of
             None \<Rightarrow> None
           | Some (i, f) \<Rightarrow>
               (case page_insert frag (page_create pid) of
                  None \<Rightarrow> None
                | Some (p, slot) \<Rightarrow>
                    let i = i\<lparr>free_map := AList.update pid (free_space p) (free_map i)\<rparr> in
                    (case write_page p (in_file i) of
                       (pf, Inl e) \<Rightarrow> Some (i\<lparr>in_file := pf\<rparr>, Inl e)
                     | (pf, Inr _) \<Rightarrow> Some (maybe_cool (install f p (i\<lparr>in_file := pf\<rparr>)), Inr (pid, slot))))))"

definition insert_frag :: "bytes \<Rightarrow> frag pool_op" where
  "insert_frag frag i =
     (case best_fit (length frag + SLOT_LEN) (free_map i) None (2 ^ 64 - 1) of
        None \<Rightarrow> fresh_page frag i
      | Some pid \<Rightarrow>
          (case fix_page pid i of
             None \<Rightarrow> None
           | Some (i, Inl e) \<Rightarrow> Some (i, Inl e)
           | Some (i, Inr f) \<Rightarrow>
               (case image_of i f of
                  None \<Rightarrow> None
                | Some img \<Rightarrow>
                    (case page_insert frag img of
                       Some (img, slot) \<Rightarrow>
                         let i = set_image f img i in
                         (case write_page img (in_file i) of
                            (pf, Inl e) \<Rightarrow> Some (i\<lparr>in_file := pf\<rparr>, Inl e)
                          | (pf, Inr _) \<Rightarrow>
                              Some (i\<lparr>in_file := pf,
                                free_map := AList.update (page_id img) (free_space img) (free_map i)\<rparr>, Inr (page_id img, slot)))
                     | None \<Rightarrow>
                         fresh_page frag (i\<lparr>free_map := AList.update pid (free_space img) (free_map i)\<rparr>)))))"

section \<open>Storing, loading and freeing values\<close>

function split_frags :: "bytes \<Rightarrow> bytes list" where
  "split_frags data =
     (if data = [] then [] else take MAX_FRAG_PAYLOAD data # split_frags (drop MAX_FRAG_PAYLOAD data))"
  by pat_completeness auto
termination
  by (relation "measure length")
    (auto simp: MAX_FRAG_PAYLOAD_def PAGE_SIZE_def HEADER_LEN_def SLOT_LEN_def FRAG_CHAIN_OVERHEAD_def)

declare split_frags.simps [simp del]

definition frag_record :: "u64 \<Rightarrow> bool \<Rightarrow> bytes \<Rightarrow> bytes" where
  "frag_record tot chained chunk =
     (if chained then 1 else 0) # u64_le tot @ (if chained then u64_le 0 @ u32_le 0 else []) @ chunk"

text \<open>The next pointer of the fragment stored before, patched in its page.\<close>

definition patch_prev :: "frag list \<Rightarrow> frag \<Rightarrow> unit pool_op" where
  "patch_prev alloced loc i =
     (if alloced = [] then Some (i, Inr ())
      else
        case fix_page (fst (last alloced)) i of
          None \<Rightarrow> None
        | Some (i, Inl e) \<Rightarrow> Some (i, Inl e)
        | Some (i, Inr pf) \<Rightarrow>
            (case image_of i pf of
               None \<Rightarrow> None
             | Some img \<Rightarrow>
                 (case slot_off img (unat (snd (last alloced))) of
                    None \<Rightarrow> Some (i, Inl (Corrupted ''overflow: chain slot lost''))
                  | Some (ro, _) \<Rightarrow>
                      if ro + 21 > length (page_img img) then None
                      else
                        let b = write_at (page_img img) (ro + 9) (u64_le (fst loc));
                            b = write_at b (ro + 17) (u32_le (snd loc));
                            i = set_image pf (update_checksum (img\<lparr>page_img := b\<rparr>)) i
                        in map_option (\<lambda>i. (i, Inr ())) (write_frame_through pf i))))"

fun rollback_chain :: "frag list \<Rightarrow> inner \<Rightarrow> inner option" where
  "rollback_chain [] i = Some i"
| "rollback_chain ((p, s) # fgs) i =
     (case index i p of
        None \<Rightarrow> rollback_chain fgs i
      | Some f \<Rightarrow>
          (case image_of i f of
             None \<Rightarrow> None
           | Some img \<Rightarrow>
               (case write_frame_through f (set_image f (fst (page_free_slot s img)) i) of
                  None \<Rightarrow> None | Some i \<Rightarrow> rollback_chain fgs i)))"

fun store_loop :: "u64 \<Rightarrow> bytes list \<Rightarrow> frag list \<Rightarrow> frag list pool_op" where
  "store_loop tot [] alloced i = Some (i, Inr alloced)"
| "store_loop tot (chunk # chunks) alloced i =
     (case insert_frag (frag_record tot (chunks \<noteq> []) chunk) i of
        None \<Rightarrow> None
      | Some (i, Inl e) \<Rightarrow> map_option (\<lambda>i. (i, Inl e)) (rollback_chain alloced i)
      | Some (i, Inr loc) \<Rightarrow>
          (case patch_prev alloced loc i of
             None \<Rightarrow> None
           | Some (i, Inl e) \<Rightarrow> Some (i, Inl e)
           | Some (i, Inr _) \<Rightarrow> store_loop tot chunks (alloced @ [loc]) i))"

definition store :: "bytes \<Rightarrow> buffer_pool \<Rightarrow> (buffer_pool \<times> locator result) option" where
  "store data p =
     (if data = [] then Some (p, Inl (Io ''cannot page empty value''))
      else if length data > MAX_VALUE_LEN then Some (p, Inl (Io ''overflow value too large''))
      else
        case reclaim_quarantine p of
          None \<Rightarrow> None
        | Some p \<Rightarrow>
            (case store_loop (of_nat (length data)) (split_frags data) [] (inner p) of
               None \<Rightarrow> None
             | Some (i, Inl e) \<Rightarrow> Some (p\<lparr>inner := i\<rparr>, Inl e)
             | Some (i, Inr fgs) \<Rightarrow>
                 Some (p\<lparr>inner := i\<lparr>in_stats := (in_stats i)\<lparr>stores := stores (in_stats i) + 1\<rparr>\<rparr>\<rparr>,
                       Inr \<lparr>loc_page = fst (hd fgs), loc_slot = snd (hd fgs)\<rparr>)))"

text \<open>One fragment's checks and payload: the tot it announces, and the next fragment if chained.\<close>

definition read_frag :: "u64 option \<Rightarrow> bytes \<Rightarrow> (u64 \<times> bytes \<times> frag option) result" where
  "read_frag tot rec =
     (if length rec < FRAG_SINGLE_OVERHEAD then Inl (Corrupted ''overflow: short fragment'')
      else if rec ! 0 > 1 then Inl (Corrupted ''overflow: bad flags'')
      else
        let t = u64_of_le (slice rec 1 8) in
        if tot \<noteq> None \<and> tot \<noteq> Some t then Inl (Corrupted ''overflow: total mismatch'')
        else if unat t > MAX_VALUE_LEN then Inl (Corrupted ''overflow: total too large'')
        else if rec ! 0 = 1 then
          (if length rec < FRAG_CHAIN_OVERHEAD then Inl (Corrupted ''overflow: short chain head'')
           else Inr (t, drop FRAG_CHAIN_OVERHEAD rec, Some (u64_of_le (slice rec 9 8), u32_of_le (slice rec 17 4))))
        else Inr (t, drop FRAG_SINGLE_OVERHEAD rec, None))"

fun load_loop :: "nat \<Rightarrow> u64 option \<Rightarrow> bytes \<Rightarrow> frag \<Rightarrow> (u64 \<times> bytes) pool_op" where
  "load_loop 0 tot out cur i = Some (i, Inl (Corrupted ''overflow chain too long''))"
| "load_loop (Suc n) tot out cur i =
     (case fix_page (fst cur) i of
        None \<Rightarrow> None
      | Some (i, Inl e) \<Rightarrow> Some (i, Inl e)
      | Some (i, Inr f) \<Rightarrow>
          (case image_of i f of
             None \<Rightarrow> None
           | Some img \<Rightarrow>
               (case page_get img (snd cur) of
                  None \<Rightarrow> Some (i, Inl (Corrupted ''overflow: bad slot''))
                | Some rec \<Rightarrow>
                    (case read_frag tot rec of
                       Inl e \<Rightarrow> Some (i, Inl e)
                     | Inr (t, part, Some next) \<Rightarrow> load_loop n (Some t) (out @ part) next i
                     | Inr (t, part, None) \<Rightarrow> Some (i, Inr (t, out @ part))))))"

definition load :: "locator \<Rightarrow> buffer_pool \<Rightarrow> (buffer_pool \<times> bytes result) option" where
  "load loc p =
     (case reclaim_quarantine p of
        None \<Rightarrow> None
      | Some p \<Rightarrow>
          (case load_loop MAX_CHAIN_FRAGS None [] (loc_page loc, loc_slot loc) (inner p) of
             None \<Rightarrow> None
           | Some (i, Inl e) \<Rightarrow> Some (p\<lparr>inner := i\<rparr>, Inl e)
           | Some (i, Inr (tot, out)) \<Rightarrow>
               if length out \<noteq> unat tot then Some (p\<lparr>inner := i\<rparr>, Inl (Corrupted ''overflow: length mismatch''))
               else Some (p\<lparr>inner := i\<lparr>in_stats := (in_stats i)\<lparr>loads := loads (in_stats i) + 1\<rparr>\<rparr>\<rparr>, Inr out)))"

text \<open>The chain of a value as far as its pages are resident.\<close>

definition next_frag :: "inner \<Rightarrow> frag \<Rightarrow> frag option option" where
  "next_frag i cur =
     (case index i (fst cur) of
        None \<Rightarrow> Some None
      | Some f \<Rightarrow>
          (case image_of i f of
             None \<Rightarrow> None
           | Some img \<Rightarrow>
               Some (case page_get img (snd cur) of
                  None \<Rightarrow> None
                | Some rec \<Rightarrow>
                    if rec \<noteq> [] \<and> rec ! 0 = 1 \<and> length rec \<ge> FRAG_CHAIN_OVERHEAD
                    then Some (u64_of_le (slice rec 9 8), u32_of_le (slice rec 17 4)) else None)))"

fun collect_chain :: "nat \<Rightarrow> inner \<Rightarrow> frag \<Rightarrow> frag list option" where
  "collect_chain 0 i cur = Some []"
| "collect_chain (Suc n) i cur =
     (case next_frag i cur of
        None \<Rightarrow> None
      | Some None \<Rightarrow> Some []
      | Some (Some next) \<Rightarrow> map_option (\<lambda>fgs. next # fgs) (collect_chain n i next))"

definition pool_free :: "locator \<Rightarrow> buffer_pool \<Rightarrow> buffer_pool option" where
  "pool_free loc p =
     (let head = (loc_page loc, loc_slot loc) in
      map_option (\<lambda>fgs. p\<lparr>inner := (inner p)\<lparr>quarantine := quarantine (inner p) @
            [\<lparr>q_frags = remdups_adj (sort (head # fgs)), q_epoch = global_epoch (epoch p)\<rparr>]\<rparr>\<rparr>)
        (collect_chain MAX_CHAIN_FRAGS (inner p) head))"

end
