(* ===== verification/Pool_Heap.thy ===== *)
theory Pool_Heap
  imports Pool
begin

text \<open>
  The overflow pool as a heap of byte strings. The page file always holds consistent pages, every
  resident page equals its page on file, and a stored value is a chain of records none of which is
  waiting to be reused. Eviction, faults and lazy frees then never change a stored value.
\<close>

section \<open>Pages on file\<close>

definition disk :: "page_file \<Rightarrow> u64 \<Rightarrow> page" where
  "disk pf p = \<lparr>page_id = p, page_img = slice (pf_file pf) (unat p * PAGE_SIZE) PAGE_SIZE\<rparr>"

definition on_file :: "page_file \<Rightarrow> u64 \<Rightarrow> bool" where
  "on_file pf p \<longleftrightarrow> p \<noteq> 0 \<and> p < pf_next_id pf"

definition file_ok :: "page_file \<Rightarrow> bool" where
  "file_ok pf \<longleftrightarrow> pf_faults pf = [] \<and> pf_next_id pf \<noteq> 0 \<and> length (pf_file pf) = unat (pf_next_id pf) * PAGE_SIZE \<and>
     slice (pf_file pf) 0 PAGE_SIZE = superblock_image (pf_next_id pf) \<and> (\<forall>p. on_file pf p \<longrightarrow> page_ok (disk pf p))"

lemma page_size_pos [simp]: "0 < PAGE_SIZE"
  by (simp add: PAGE_SIZE_def)

lemma page_ok_length: "page_ok p \<Longrightarrow> length (page_img p) = PAGE_SIZE"
  by (auto elim: page_okE simp: layout_def)

lemma disk_id [simp]: "page_id (disk pf p) = p"
  by (simp add: disk_def)

text \<open>Distinct blocks of a file do not overlap.\<close>

lemma block_other:
  assumes "n \<noteq> m"
  shows "n * PAGE_SIZE + PAGE_SIZE \<le> m * PAGE_SIZE \<or> m * PAGE_SIZE + PAGE_SIZE \<le> n * PAGE_SIZE"
proof (cases "n < m")
  case True
  then have "(n + 1) * PAGE_SIZE \<le> m * PAGE_SIZE" by (intro mult_le_mono1) simp
  then show ?thesis by simp
next
  case False
  then have "(m + 1) * PAGE_SIZE \<le> n * PAGE_SIZE" using assms by (intro mult_le_mono1) simp
  then show ?thesis by simp
qed

lemma block_inside:
  assumes "length f = n * PAGE_SIZE" "m < n"
  shows "m * PAGE_SIZE + PAGE_SIZE \<le> length f"
proof -
  have "(m + 1) * PAGE_SIZE \<le> n * PAGE_SIZE" using assms(2) by (intro mult_le_mono1) simp
  then show ?thesis using assms(1) by simp
qed

lemma put_block:
  assumes "length f = n * PAGE_SIZE" "m < n" "length bs = PAGE_SIZE"
  shows "length (put_file f (m * PAGE_SIZE) bs) = length f"
    "slice (put_file f (m * PAGE_SIZE) bs) (k * PAGE_SIZE) PAGE_SIZE = (if k = m then bs else slice f (k * PAGE_SIZE) PAGE_SIZE)"
proof -
  note ins = block_inside [OF assms(1,2)]
  have eq: "put_file f (m * PAGE_SIZE) bs = write_at f (m * PAGE_SIZE) bs" using ins by (simp add: put_file_def)
  show "length (put_file f (m * PAGE_SIZE) bs) = length f" using ins assms(3) by (simp add: eq)
  show "slice (put_file f (m * PAGE_SIZE) bs) (k * PAGE_SIZE) PAGE_SIZE = (if k = m then bs else slice f (k * PAGE_SIZE) PAGE_SIZE)"
    using ins assms(3) block_other [of k m] by (auto simp: eq slice_write_same slice_write_other)
qed

lemma put_block_end:
  assumes "length f = n * PAGE_SIZE" "length bs = PAGE_SIZE"
  shows "length (put_file f (n * PAGE_SIZE) bs) = Suc n * PAGE_SIZE"
    "slice (put_file f (n * PAGE_SIZE) bs) (n * PAGE_SIZE) PAGE_SIZE = bs"
    "k < n \<Longrightarrow> slice (put_file f (n * PAGE_SIZE) bs) (k * PAGE_SIZE) PAGE_SIZE = slice f (k * PAGE_SIZE) PAGE_SIZE"
proof -
  have eq: "put_file f (n * PAGE_SIZE) bs = f @ bs" using assms by (simp add: put_file_def write_at_def)
  show "length (put_file f (n * PAGE_SIZE) bs) = Suc n * PAGE_SIZE" using assms by (simp add: eq)
  show "slice (put_file f (n * PAGE_SIZE) bs) (n * PAGE_SIZE) PAGE_SIZE = bs" using assms by (simp add: eq slice_def)
  show "slice (put_file f (n * PAGE_SIZE) bs) (k * PAGE_SIZE) PAGE_SIZE = slice f (k * PAGE_SIZE) PAGE_SIZE" if "k < n"
    using block_inside [OF assms(1) that] by (simp add: eq slice_def)
qed

lemma write_all_ok: "pf_faults pf = [] \<Longrightarrow> write_all off bs pf = (pf\<lparr>pf_file := put_file (pf_file pf) off bs\<rparr>, Inr ())"
  by (simp add: write_all_def)

lemma on_file_unat: "on_file pf p \<Longrightarrow> unat p < unat (pf_next_id pf) \<and> 0 < unat p"
  by (auto simp: on_file_def word_less_nat_alt unat_gt_0)

lemma read_page_ok:
  assumes "file_ok pf" "on_file pf p"
  shows "read_page p pf = Inr (disk pf p)"
proof -
  have "unat p * PAGE_SIZE + PAGE_SIZE \<le> length (pf_file pf)"
    using assms on_file_unat [OF assms(2)] by (intro block_inside) (auto simp: file_ok_def)
  then show ?thesis using assms page_ok_verify [of "disk pf p"]
    by (simp add: read_page_def on_file_def SUPERBLOCK_PAGE_def file_ok_def disk_def not_le)
qed

lemma write_page_ok:
  assumes f: "file_ok pf" and p: "page_ok p" "on_file pf (page_id p)"
  shows "\<exists>pf'. write_page p pf = (pf', Inr ()) \<and> file_ok pf' \<and> pf_next_id pf' = pf_next_id pf \<and> disk pf' = (disk pf)(page_id p := p)"
proof -
  let ?pf = "pf\<lparr>pf_file := put_file (pf_file pf) (unat (page_id p) * PAGE_SIZE) (page_img p)\<rparr>"
  have w: "write_page p pf = (?pf, Inr ())"
    using f p by (simp add: write_page_def on_file_def SUPERBLOCK_PAGE_def write_all_ok file_ok_def not_le)
  note ids = on_file_unat [OF p(2)]
  note pb = put_block [OF _ conjunct1 [OF ids] page_ok_length [OF p(1)], of "pf_file pf"]
  have len: "length (pf_file pf) = unat (pf_next_id pf) * PAGE_SIZE" using f by (simp add: file_ok_def)
  have d: "disk ?pf = (disk pf)(page_id p := p)"
    using pb(2) [OF len] by (auto simp: disk_def fun_eq_iff word_unat_eq_iff)
  have "slice (pf_file ?pf) 0 PAGE_SIZE = slice (pf_file pf) 0 PAGE_SIZE" using pb(2) [OF len, of 0] ids by simp
  moreover have "page_ok (disk ?pf q)" if "on_file ?pf q" for q
    using that f p(1) unfolding d by (auto simp: file_ok_def on_file_def)
  ultimately have "file_ok ?pf" using f pb(1) [OF len] by (simp add: file_ok_def)
  then show ?thesis using w d by auto
qed

lemma superblock_length: "length (superblock_image n) = PAGE_SIZE"
proof -
  let ?i0 = "write_at (replicate PAGE_SIZE 0) 0 PAGE_MAGIC"
  let ?i1 = "write_u32 ?i0 4 PAGE_FORMAT_VERSION"
  let ?i2 = "write_u64 ?i1 8 SUPERBLOCK_PAGE"
  let ?i3 = "write_u64 ?i2 HEADER_LEN n"
  have mg: "length PAGE_MAGIC = 4" by (simp add: PAGE_MAGIC_def)
  have big: "40 \<le> PAGE_SIZE" by (simp add: PAGE_SIZE_def)
  have len: "length ?i0 = PAGE_SIZE" "length ?i1 = PAGE_SIZE" "length ?i2 = PAGE_SIZE" "length ?i3 = PAGE_SIZE"
    using mg big by (simp_all add: write_u32_def write_u64_def HEADER_LEN_def)
  have "superblock_image n = write_at ?i3 24 (u32_le (crc32 ?i3))"
    unfolding superblock_image_def Let_def by (rule refl)
  moreover have "length (write_at ?i3 24 bs) = PAGE_SIZE" if "length bs = 4" for bs
    using len(4) big that by simp
  ultimately show ?thesis by (metis length_le_nat)
qed

lemma unat_succ:
  assumes "(n :: u64) \<noteq> - 1"
  shows "n + 1 \<noteq> 0" "unat (n + 1) = Suc (unat n)"
proof -
  show nz: "n + 1 \<noteq> 0" using assms by (simp add: add_eq_0_iff2)
  show "unat (n + 1) = Suc (unat n)" using unatSuc [of n] nz by (simp add: add.commute)
qed

lemma alloc_page_ok:
  assumes f: "file_ok pf" and n: "pf_next_id pf \<noteq> - 1"
  shows "\<exists>pf'. alloc_page pf = (pf', Inr (pf_next_id pf)) \<and> file_ok pf' \<and> pf_next_id pf' = pf_next_id pf + 1 \<and>
    disk pf' (pf_next_id pf) = page_create (pf_next_id pf) \<and> (\<forall>p. on_file pf p \<longrightarrow> disk pf' p = disk pf p)"
proof -
  let ?n = "pf_next_id pf"
  let ?f1 = "put_file (pf_file pf) (0 * PAGE_SIZE) (superblock_image (?n + 1))"
  let ?f2 = "put_file ?f1 (unat ?n * PAGE_SIZE) (page_img (page_create ?n))"
  let ?pf = "pf\<lparr>pf_next_id := ?n + 1, pf_file := ?f2\<rparr>"
  have len: "length (pf_file pf) = unat ?n * PAGE_SIZE" "0 < unat ?n" using f by (auto simp: file_ok_def unat_gt_0)
  note b1 = put_block [OF len superblock_length [of "?n + 1"]]
  have l1: "length ?f1 = unat ?n * PAGE_SIZE" using b1(1) len by simp
  have pc: "length (page_img (page_create ?n)) = PAGE_SIZE" using page_create_ok(1) by (rule page_ok_length)
  note b2 = put_block_end [OF l1 pc]
  note nz = unat_succ(1) [OF n] and sn = unat_succ(2) [OF n]
  have a: "alloc_page pf = (?pf, Inr ?n)"
    using f n by (simp add: alloc_page_def Let_def file_ok_def write_all_ok)
  have d: "disk ?pf ?n = page_create ?n" using b2(2) page_create_layout(3) by (simp add: disk_def)
  have old: "disk ?pf p = disk pf p" if "on_file pf p" for p
    using on_file_unat [OF that] b2(3) [of "unat p"] b1(2) [of "unat p"] by (simp add: disk_def)
  have "slice (pf_file ?pf) 0 PAGE_SIZE = superblock_image (?n + 1)"
    using b2(3) [of 0] b1(2) [of 0] len(2) by simp
  moreover have "page_ok (disk ?pf p)" if "on_file ?pf p" for p
  proof (cases "p = ?n")
    case True
    then show ?thesis using d page_create_ok(1) by simp
  next
    case False
    have "unat p < Suc (unat ?n)" using on_file_unat [OF that] sn by simp
    then have "on_file pf p" using that False by (auto simp: on_file_def word_less_nat_alt less_Suc_eq word_unat_eq_iff)
    then show ?thesis using old [of p] f by (simp add: file_ok_def)
  qed
  ultimately have "file_ok ?pf" using f b2(1) sn nz by (simp add: file_ok_def)
  then show ?thesis using a d old by (intro exI [of _ ?pf]) simp
qed

section \<open>Resident pages\<close>

text \<open>Write-through coherence: the page table and the frames agree, and a resident page is its page on
  file.\<close>

definition coherent :: "page_file \<Rightarrow> frame list \<Rightarrow> (u64 \<rightharpoonup> nat) \<Rightarrow> bool" where
  "coherent pf frs idx \<longleftrightarrow> frs \<noteq> [] \<and>
     (\<forall>p f. idx p = Some f \<longrightarrow> f < length frs \<and> fr_page (frs ! f) = Some p \<and> fr_image (frs ! f) = Some (disk pf p) \<and> on_file pf p) \<and>
     (\<forall>f p. f < length frs \<longrightarrow> fr_page (frs ! f) = Some p \<longrightarrow> idx p = Some f)"

lemma coherentD:
  assumes "coherent pf frs idx"
  shows "frs \<noteq> []" "idx p = Some f \<Longrightarrow> f < length frs" "idx p = Some f \<Longrightarrow> fr_page (frs ! f) = Some p"
    "idx p = Some f \<Longrightarrow> fr_image (frs ! f) = Some (disk pf p)" "idx p = Some f \<Longrightarrow> on_file pf p"
    "f < length frs \<Longrightarrow> fr_page (frs ! f) = Some p \<Longrightarrow> idx p = Some f"
  using assms unfolding coherent_def by blast+

lemma coherentI:
  assumes "frs \<noteq> []" "\<And>p f. idx p = Some f \<Longrightarrow> f < length frs \<and> fr_page (frs ! f) = Some p \<and> fr_image (frs ! f) = Some (disk pf p) \<and> on_file pf p"
    "\<And>f p. f < length frs \<Longrightarrow> fr_page (frs ! f) = Some p \<Longrightarrow> idx p = Some f"
  shows "coherent pf frs idx"
  using assms unfolding coherent_def by blast

lemma coherent_file:
  assumes c: "coherent pf frs idx" and k: "\<And>q. on_file pf q \<Longrightarrow> on_file pf' q \<and> disk pf' q = disk pf q"
  shows "coherent pf' frs idx"
proof (rule coherentI)
  note d = coherentD [OF c]
  show "frs \<noteq> []" by (rule d(1))
  show "f < length frs \<and> fr_page (frs ! f) = Some p \<and> fr_image (frs ! f) = Some (disk pf' p) \<and> on_file pf' p"
    if "idx p = Some f" for p f using d(2-5) [OF that] k [of p] by simp
  show "idx p = Some f" if "f < length frs" "fr_page (frs ! f) = Some p" for f p using d(6) [OF that] .
qed

lemma coherent_cool:
  assumes c: "coherent pf frs idx" and f: "f < length frs"
  shows "coherent pf (frs[f := (frs ! f)\<lparr>fr_cooling := b\<rparr>]) idx"
proof (rule coherentI)
  note d = coherentD [OF c]
  have eq: "fr_page (frs[f := (frs ! f)\<lparr>fr_cooling := b\<rparr>] ! g) = fr_page (frs ! g)"
    "fr_image (frs[f := (frs ! f)\<lparr>fr_cooling := b\<rparr>] ! g) = fr_image (frs ! g)" for g
    using f by (simp_all add: nth_list_update)
  show "frs[f := (frs ! f)\<lparr>fr_cooling := b\<rparr>] \<noteq> []" using d(1) by simp
  show "g < length (frs[f := (frs ! f)\<lparr>fr_cooling := b\<rparr>]) \<and> fr_page (frs[f := (frs ! f)\<lparr>fr_cooling := b\<rparr>] ! g) = Some p \<and>
      fr_image (frs[f := (frs ! f)\<lparr>fr_cooling := b\<rparr>] ! g) = Some (disk pf p) \<and> on_file pf p" if "idx p = Some g" for p g
    using d(2-5) [OF that] by (simp add: eq)
  show "idx p = Some g" if "g < length (frs[f := (frs ! f)\<lparr>fr_cooling := b\<rparr>])"
    "fr_page (frs[f := (frs ! f)\<lparr>fr_cooling := b\<rparr>] ! g) = Some p" for g p
    using d(6) [of g p] that by (simp add: eq)
qed

lemma coherent_drop:
  assumes c: "coherent pf frs idx" and f: "f < length frs"
  shows "coherent pf (frs[f := empty_frame]) (case fr_page (frs ! f) of Some p \<Rightarrow> idx(p := None) | None \<Rightarrow> idx)" (is "coherent pf _ ?idx")
proof (rule coherentI)
  note d = coherentD [OF c]
  have idx: "?idx p = (if idx p = Some f then None else idx p)" for p
    using d(3) [of p f] d(6) [of f] f by (auto split: option.splits)
  show "frs[f := empty_frame] \<noteq> []" using d(1) by simp
  show "g < length (frs[f := empty_frame]) \<and> fr_page (frs[f := empty_frame] ! g) = Some p \<and>
      fr_image (frs[f := empty_frame] ! g) = Some (disk pf p) \<and> on_file pf p" if "?idx p = Some g" for p g
  proof -
    have "idx p = Some g" "g \<noteq> f" using that unfolding idx by (auto split: if_splits)
    then show ?thesis using d(2-5) [of p g] by simp
  qed
  show "?idx p = Some g" if "g < length (frs[f := empty_frame])" "fr_page (frs[f := empty_frame] ! g) = Some p" for g p
  proof -
    have "g \<noteq> f" using that f by (auto simp: empty_frame_def)
    then show ?thesis using d(6) [of g p] that unfolding idx by simp
  qed
qed

definition core_ok :: "inner \<Rightarrow> bool" where
  "core_ok i \<longleftrightarrow> file_ok (in_file i) \<and> coherent (in_file i) (frames i) (index i) \<and> set (cooling i) \<subseteq> {..<length (frames i)} \<and>
     fst ` set (free_map i) \<subseteq> {p. on_file (in_file i) p}"

definition same_data :: "inner \<Rightarrow> inner \<Rightarrow> bool" where
  "same_data i i' \<longleftrightarrow> in_file i' = in_file i \<and> quarantine i' = quarantine i \<and> pending_free i' = pending_free i"

lemma core_okD:
  assumes "core_ok i"
  shows "file_ok (in_file i)" "coherent (in_file i) (frames i) (index i)" "frames i \<noteq> []" "set (cooling i) \<subseteq> {..<length (frames i)}"
    "fst ` set (free_map i) \<subseteq> {p. on_file (in_file i) p}"
  using assms by (auto simp: core_ok_def dest: coherentD(1))

lemma resident_image:
  assumes "core_ok i" "index i p = Some f"
  shows "f < length (frames i)" "image_of i f = Some (disk (in_file i) p)" "on_file (in_file i) p"
  using coherentD(2,4,5) [OF core_okD(2) [OF assms(1)] assms(2)] by (simp_all add: image_of_def)

lemma drop_frame_ok:
  assumes "core_ok i" "f < length (frames i)"
  shows "\<exists>i'. drop_frame f i = Some i' \<and> core_ok i' \<and> length (frames i') = length (frames i) \<and> fr_page (frames i' ! f) = None \<and>
    same_data i i' \<and> index i' \<subseteq>\<^sub>m index i"
  using coherent_drop [OF core_okD(2) [OF assms(1)] assms(2)] assms
  by (cases "fr_page (frames i ! f)") (simp_all add: drop_frame_def core_ok_def same_data_def empty_frame_def map_le_def)

lemma victim_frame_ok:
  assumes "core_ok i"
  shows "\<exists>i' f. victim_frame i = Some (i', f) \<and> core_ok i' \<and> f < length (frames i') \<and> fr_page (frames i' ! f) = None \<and>
    same_data i i' \<and> index i' \<subseteq>\<^sub>m index i"
proof (cases "find (\<lambda>f. fr_page (frames i ! f) = None) [0..<length (frames i)]")
  case (Some f)
  from find_upt_Some [OF this] show ?thesis using Some assms by (auto simp: victim_frame_def same_data_def)
next
  case None
  show ?thesis
  proof (cases "cooling i")
    case (Cons f c)
    then have f: "f < length (frames i)" "set c \<subseteq> {..<length (frames i)}" using core_okD(4) [OF assms] by auto
    have "core_ok (i\<lparr>cooling := c\<rparr>)" using assms f(2) by (simp add: core_ok_def)
    from drop_frame_ok [OF this, of f] f(1) show ?thesis
      using None Cons by (auto simp: victim_frame_def same_data_def)
  next
    case Nil
    obtain r v where nr: "next_rand i = (i\<lparr>rng := r\<rparr>, v)" and v: "v < length (frames i)"
      using core_okD(3) [OF assms] by (simp add: next_rand_def Let_def)
    let ?i = "set_frame v ((frames i ! v)\<lparr>fr_cooling := True\<rparr>) (i\<lparr>rng := r\<rparr>)"
    have "core_ok ?i" using assms coherent_cool [OF core_okD(2) [OF assms] v, of True] by (simp add: core_ok_def)
    from drop_frame_ok [OF this, of v] v show ?thesis
      using None Nil nr core_okD(3) [OF assms] by (auto simp: victim_frame_def same_data_def)
  qed
qed

lemma maybe_cool_ok: "core_ok i \<Longrightarrow> core_ok (maybe_cool i) \<and> same_data i (maybe_cool i)"
proof -
  have "core_ok (cool_tries n i) \<and> same_data i (cool_tries n i)" if "core_ok i" for n i
    using that
  proof (induction n arbitrary: i)
    case (Suc n)
    obtain r v where nr: "next_rand i = (i\<lparr>rng := r\<rparr>, v)" and v: "v < length (frames i)"
      using core_okD(3) [OF Suc.prems] by (simp add: next_rand_def Let_def)
    have "core_ok (i\<lparr>rng := r\<rparr>)" using Suc.prems by (simp add: core_ok_def)
    moreover have "core_ok (set_frame v ((frames i ! v)\<lparr>fr_cooling := True\<rparr>) (i\<lparr>rng := r, cooling := cooling i @ [v]\<rparr>))"
      using Suc.prems v coherent_cool [OF core_okD(2) [OF Suc.prems] v, of True] by (simp add: core_ok_def)
    ultimately show ?case using Suc.IH [of "i\<lparr>rng := r\<rparr>"] by (simp add: nr same_data_def)
  qed (simp add: same_data_def)
  then show "core_ok i \<Longrightarrow> core_ok (maybe_cool i) \<and> same_data i (maybe_cool i)"
    by (simp add: maybe_cool_def same_data_def)
qed

lemma coherent_set:
  assumes c: "coherent pf frs idx" and f: "f < length frs" and free: "fr_page (frs ! f) = None \<and> idx p = None \<or> idx p = Some f"
    and pf: "on_file pf' p" "\<And>q. on_file pf q \<Longrightarrow> on_file pf' q \<and> (q \<noteq> p \<longrightarrow> disk pf' q = disk pf q)"
    and fr: "fr_page fr = Some p" "fr_image fr = Some (disk pf' p)"
  shows "coherent pf' (frs[f := fr]) (idx(p \<mapsto> f))"
proof (rule coherentI)
  note d = coherentD [OF c]
  have other: "idx q \<noteq> Some f" if "q \<noteq> p" for q
    using free that d(3) [of q f] d(3) [of p f] by auto
  show "frs[f := fr] \<noteq> []" using d(1) by simp
  show "g < length (frs[f := fr]) \<and> fr_page (frs[f := fr] ! g) = Some q \<and>
      fr_image (frs[f := fr] ! g) = Some (disk pf' q) \<and> on_file pf' q" if "(idx(p \<mapsto> f)) q = Some g" for q g
  proof (cases "q = p")
    case True
    then show ?thesis using that f fr pf(1) by auto
  next
    case False
    then have "idx q = Some g" "g \<noteq> f" using that other by auto
    then show ?thesis using d(2-5) [of q g] pf(2) [of q] False by auto
  qed
  show "(idx(p \<mapsto> f)) q = Some g" if "g < length (frs[f := fr])" "fr_page (frs[f := fr] ! g) = Some q" for g q
  proof (cases "g = f")
    case True
    then show ?thesis using that f fr by auto
  next
    case False
    then have "idx q = Some g" using d(6) [of g q] that by simp
    then show ?thesis using False free by auto
  qed
qed

section \<open>Records on file and records waiting for reuse\<close>

definition recs :: "inner \<Rightarrow> frag \<rightharpoonup> bytes" where
  "recs i fg = (if on_file (in_file i) (fst fg) then page_get (disk (in_file i) (fst fg)) (snd fg) else None)"

definition quar :: "inner \<Rightarrow> frag list" where
  "quar i = concat (map q_frags (quarantine i))"

definition pend :: "inner \<Rightarrow> frag set" where
  "pend i = {fg. \<exists>ss. pending_free i (fst fg) = Some ss \<and> snd fg \<in> set ss}"

text \<open>\<open>X\<close> lists the fragments that have left the quarantine and are about to be released.\<close>

definition dead :: "frag list \<Rightarrow> inner \<Rightarrow> frag set" where
  "dead X i = set X \<union> set (quar i) \<union> pend i"

definition inner_ok :: "frag list \<Rightarrow> inner \<Rightarrow> bool" where
  "inner_ok X i \<longleftrightarrow> core_ok i \<and> distinct (X @ quar i) \<and> (set X \<union> set (quar i)) \<inter> pend i = {} \<and>
     (\<forall>fg \<in> dead X i. recs i fg \<noteq> None)"

text \<open>What a step may do to the records behind its client's back: dispose of records that were waiting
  for it.\<close>

definition settles :: "frag list \<Rightarrow> frag list \<Rightarrow> inner \<Rightarrow> inner \<Rightarrow> bool" where
  "settles X Y i i' \<longleftrightarrow> inner_ok Y i' \<and> pf_next_id (in_file i') = pf_next_id (in_file i) \<and>
     (\<exists>D. D \<subseteq> dead X i \<and> dead Y i' = dead X i - D \<and> recs i' = recs i |` (- D))"

lemma settlesI:
  assumes "inner_ok Y i'" "pf_next_id (in_file i') = pf_next_id (in_file i)"
    "D \<subseteq> dead X i" "dead Y i' = dead X i - D" "recs i' = recs i |` (- D)"
  shows "settles X Y i i'"
  using assms unfolding settles_def by blast

lemma settles_refl: "inner_ok X i \<Longrightarrow> settles X X i i"
  by (rule settlesI [of _ _ _ "{}"]) auto

lemma settles_trans:
  assumes "settles X Y i j" "settles Y Z j k"
  shows "settles X Z i k"
proof -
  from assms obtain D E where d: "D \<subseteq> dead X i" "dead Y j = dead X i - D" "recs j = recs i |` (- D)"
    and e: "E \<subseteq> dead Y j" "dead Z k = dead Y j - E" "recs k = recs j |` (- E)" unfolding settles_def by blast
  show ?thesis
  proof (rule settlesI [of _ _ _ "D \<union> E"])
    show "D \<union> E \<subseteq> dead X i" using d e by blast
    show "dead Z k = dead X i - (D \<union> E)" using d e by blast
    show "recs k = recs i |` (- (D \<union> E))" using d e by (auto simp: restrict_map_def fun_eq_iff)
  qed (use assms in \<open>auto simp: settles_def\<close>)
qed

lemma settles_live:
  assumes "settles X Y i i'" "fg \<notin> dead X i"
  shows "recs i' fg = recs i fg" "fg \<notin> dead Y i'"
  using assms unfolding settles_def by (auto simp: restrict_map_def)

lemma page_free_slot_get:
  assumes "page_ok p"
  shows "page_ok (fst (page_free_slot s p))" "page_id (fst (page_free_slot s p)) = page_id p"
    "page_get (fst (page_free_slot s p)) = (page_get p)(s := None)"
    "\<not> snd (page_free_slot s p) \<Longrightarrow> fst (page_free_slot s p) = p"
proof -
  note k = page_free_slot_ok [OF assms, of s]
  show "page_ok (fst (page_free_slot s p))" "page_id (fst (page_free_slot s p)) = page_id p"
    "page_get (fst (page_free_slot s p)) = (page_get p)(s := None)"
    using k by (auto simp: slots_kept_def fun_eq_iff)
  show "\<not> snd (page_free_slot s p) \<Longrightarrow> fst (page_free_slot s p) = p"
    by (auto simp: page_free_slot_def split: option.splits prod.splits if_splits)
qed

lemma free_slots_ok:
  assumes "page_ok p"
  shows "page_ok (fst (free_slots ss p)) \<and> page_id (fst (free_slots ss p)) = page_id p \<and>
    page_get (fst (free_slots ss p)) = page_get p |` (- set ss) \<and> (\<not> snd (free_slots ss p) \<longrightarrow> fst (free_slots ss p) = p)"
  using assms
proof (induction ss arbitrary: p)
  case (Cons s ss)
  note k = page_free_slot_get [OF Cons.prems, of s]
  note ih = Cons.IH [OF k(1)]
  have eq: "free_slots (s # ss) p = (fst (free_slots ss (fst (page_free_slot s p))),
      snd (page_free_slot s p) \<or> snd (free_slots ss (fst (page_free_slot s p))))"
    by (simp add: Let_def split: prod.splits)
  show ?case unfolding eq using k ih by (auto simp: restrict_map_def fun_eq_iff)
qed (simp add: restrict_map_def)

text \<open>A page replaced on file and in its frame.\<close>

lemma core_ok_set:
  assumes core: "core_ok i" and f: "f < length (frames i)"
    and free: "fr_page (frames i ! f) = None \<and> index i p = None \<or> index i p = Some f"
    and pf: "file_ok pf'" "on_file pf' p" "\<And>q. on_file (in_file i) q \<Longrightarrow> on_file pf' q \<and> (q \<noteq> p \<longrightarrow> disk pf' q = disk (in_file i) q)"
    and fr: "fr_page fr = Some p" "fr_image fr = Some (disk pf' p)"
    and i': "in_file i' = pf'" "frames i' = (frames i)[f := fr]" "index i' = (index i)(p \<mapsto> f)" "cooling i' = cooling i"
      "fst ` set (free_map i') \<subseteq> insert p (fst ` set (free_map i))"
  shows "core_ok i'"
  unfolding core_ok_def i'
proof (intro conjI)
  show "file_ok pf'" by (rule pf(1))
  show "coherent pf' ((frames i)[f := fr]) ((index i)(p \<mapsto> f))"
    by (rule coherent_set [OF core_okD(2) [OF core] f free pf(2,3) fr])
  show "set (cooling i) \<subseteq> {..<length ((frames i)[f := fr])}" using core_okD(4) [OF core] by simp
  show "fst ` set (free_map i') \<subseteq> {p. on_file pf' p}" using i'(5) core_okD(5) [OF core] pf(2,3) by blast
qed

lemma recs_same: "in_file i' = in_file i \<Longrightarrow> recs i' = recs i"
  by (simp add: recs_def fun_eq_iff)

lemma recs_page:
  assumes "pf_next_id (in_file i') = pf_next_id (in_file i)" "disk (in_file i') = (disk (in_file i))(p := pg)" "on_file (in_file i) p"
  shows "recs i' fg = (if fst fg = p then page_get pg (snd fg) else recs i fg)"
  using assms by (simp add: recs_def on_file_def)

lemma settles_same:
  assumes ok: "inner_ok X i" and core: "core_ok i'" and same: "same_data i i'"
  shows "settles X X i i'"
proof -
  have eqs: "recs i' = recs i" "quar i' = quar i" "pend i' = pend i" "dead X i' = dead X i"
    using same recs_same [of i' i] by (simp_all add: same_data_def quar_def pend_def dead_def)
  have "inner_ok X i'" using ok core unfolding inner_ok_def eqs by simp
  then show ?thesis using eqs same by (intro settlesI [of _ _ _ "{}"]) (simp_all add: same_data_def restrict_map_def)
qed

lemma fault_in_ok:
  assumes ok: "inner_ok X i" and p: "on_file (in_file i) p" and out: "index i p = None"
  shows "\<exists>i' f. fault_in p i = Some (i', Inr f) \<and> settles X X i i' \<and> index i' p = Some f"
proof -
  have core: "core_ok i" using ok by (simp add: inner_ok_def)
  from victim_frame_ok [OF core] obtain j f where
    v: "victim_frame i = Some (j, f)" "core_ok j" "f < length (frames j)" "fr_page (frames j ! f) = None"
      "same_data i j" "index j \<subseteq>\<^sub>m index i" by blast
  have j: "in_file j = in_file i" "quarantine j = quarantine i" "pending_free j = pending_free i"
    using v(5) by (simp_all add: same_data_def)
  have outj: "index j p = None" using v(6) out by (metis domIff map_le_implies_dom_le subsetD)
  have fok: "file_ok (in_file i)" using core by (rule core_okD(1))
  then have pok: "page_ok (disk (in_file i) p)" using p by (simp add: file_ok_def)
  define ss where "ss = (case pending_free i p of None \<Rightarrow> [] | Some ss \<Rightarrow> ss)"
  define img where "img = fst (free_slots ss (disk (in_file i) p))"
  define dirty where "dirty = snd (free_slots ss (disk (in_file i) p))"
  have fs: "page_ok img" "page_id img = p" "page_get img = page_get (disk (in_file i) p) |` (- set ss)"
    "\<not> dirty \<Longrightarrow> img = disk (in_file i) p"
    using free_slots_ok [OF pok, of ss] by (auto simp: img_def dirty_def)
  have cs: "(case pending_free j p of None \<Rightarrow> (disk (in_file i) p, False) | Some ss \<Rightarrow> free_slots ss (disk (in_file i) p)) = (img, dirty)"
    by (simp add: j img_def dirty_def ss_def split: option.splits)
  obtain pf' where w: "(if dirty then write_page img (in_file i) else (in_file i, Inr ())) = (pf', Inr ())"
    "file_ok pf'" "pf_next_id pf' = pf_next_id (in_file i)" "disk pf' = (disk (in_file i))(p := img)"
  proof (cases dirty)
    case True
    from write_page_ok [OF fok fs(1)] p fs(2) True show ?thesis using that by auto
  next
    case False
    then show ?thesis using that [of "in_file i"] fs(4) fok by simp
  qed
  let ?st = "(in_stats j)\<lparr>faults := faults (in_stats j) + 1\<rparr>"
  let ?i = "(install f img (j\<lparr>pending_free := (pending_free j)(p := None), in_file := pf',
      free_map := AList.update p (free_space img) (free_map j)\<rparr>))\<lparr>in_stats := ?st\<rparr>"
  have run: "fault_in p i = Some (?i, Inr f)"
    unfolding fault_in_def v(1) option.case prod.case j(1) read_page_ok [OF fok p] sum.case Let_def
    using cs w(1) by (cases dirty) (simp_all add: j install_def)
  have on: "on_file pf' q = on_file (in_file i) q" for q using w(3) by (simp add: on_file_def)
  have core': "core_ok ?i"
    by (rule core_ok_set [OF v(2,3), where p = p and pf' = pf' and fr = "\<lparr>fr_page = Some p, fr_image = Some img, fr_cooling = False\<rparr>"])
      (use v(4) outj w p fs(2) in \<open>simp_all add: install_def on j dom_update\<close>)
  let ?D = "{fg. fst fg = p \<and> snd fg \<in> set ss}"
  have pd: "fg \<in> pend i \<longleftrightarrow> fg \<in> ?D" if "fst fg = p" for fg using that by (cases "pending_free i p") (auto simp: pend_def ss_def)
  have pend': "pend ?i = pend i - ?D" using pd by (auto simp: pend_def install_def j)
  have sub: "?D \<subseteq> pend i" using pd by auto
  have quar': "quar ?i = quar i" by (simp add: quar_def install_def j)
  have recs': "recs ?i = recs i |` (- ?D)"
  proof
    fix fg
    have "recs ?i fg = (if fst fg = p then page_get img (snd fg) else recs i fg)"
      by (rule recs_page) (use w p in \<open>simp_all add: install_def\<close>)
    then show "recs ?i fg = (recs i |` (- ?D)) fg" using p by (auto simp: fs(3) recs_def restrict_map_def)
  qed
  have disj: "(set X \<union> set (quar i)) \<inter> pend i = {}" using ok by (simp add: inner_ok_def)
  have dead': "dead X ?i = dead X i - ?D" unfolding dead_def quar' pend' using disj sub by blast
  have "inner_ok X ?i" using ok core' disj sub
    unfolding inner_ok_def dead' recs' quar' pend' by (auto simp: restrict_map_def)
  then have "settles X X i ?i" using sub dead' recs' w(3)
    by (intro settlesI [of _ _ _ ?D]) (auto simp: dead_def install_def)
  moreover have "index ?i p = Some f" by (simp add: install_def fs(2))
  ultimately show ?thesis using run by blast
qed

lemma fix_page_ok:
  assumes ok: "inner_ok X i" and p: "on_file (in_file i) p"
  shows "\<exists>i' f. fix_page p i = Some (i', Inr f) \<and> settles X X i i' \<and> index i' p = Some f"
proof (cases "index i p")
  case None
  from fault_in_ok [OF ok p None] show ?thesis using None by (simp add: fix_page_def)
next
  case (Some f)
  have core: "core_ok i" using ok by (simp add: inner_ok_def)
  note f = resident_image(1) [OF core Some]
  show ?thesis
  proof (cases "fr_cooling (frames i ! f)")
    case True
    let ?i = "i\<lparr>cooling := filter (\<lambda>x. x \<noteq> f) (cooling i), frames := (frames i)[f := (frames i ! f)\<lparr>fr_cooling := False\<rparr>],
      in_stats := (in_stats i)\<lparr>hits := hits (in_stats i) + 1\<rparr>\<rparr>"
    have "core_ok ?i" using core coherent_cool [OF core_okD(2) [OF core] f, of False] by (auto simp: core_ok_def)
    from settles_same [OF ok this] show ?thesis using Some f True by (simp add: fix_page_def same_data_def)
  next
    case False
    let ?i = "i\<lparr>in_stats := (in_stats i)\<lparr>hits := hits (in_stats i) + 1\<rparr>\<rparr>"
    have "core_ok ?i" using core by (simp add: core_ok_def)
    from settles_same [OF ok this] show ?thesis using Some f False by (simp add: fix_page_def same_data_def)
  qed
qed

text \<open>The image of a resident page changed and written through.\<close>

lemma rewrite_page_ok:
  assumes core: "core_ok i" and f: "index i p = Some f" and pg: "page_ok pg" "page_id pg = p"
  shows "\<exists>pf. write_page pg (in_file i) = (pf, Inr ()) \<and> pf_next_id pf = pf_next_id (in_file i) \<and>
     disk pf = (disk (in_file i))(p := pg) \<and>
     (\<forall>i'. in_file i' = pf \<longrightarrow> frames i' = frames (set_image f pg i) \<longrightarrow> index i' = index i \<longrightarrow> cooling i' = cooling i \<longrightarrow>
        fst ` set (free_map i') \<subseteq> insert p (fst ` set (free_map i)) \<longrightarrow> core_ok i')"
proof -
  note r = resident_image [OF core f]
  from write_page_ok [OF core_okD(1) [OF core] pg(1)] pg(2) r(3) obtain pf where
    w: "write_page pg (in_file i) = (pf, Inr ())" "file_ok pf" "pf_next_id pf = pf_next_id (in_file i)"
      "disk pf = (disk (in_file i))(p := pg)" by auto
  have page: "fr_page (frames i ! f) = Some p" using coherentD(3) [OF core_okD(2) [OF core] f] .
  have idx: "(index i)(p \<mapsto> f) = index i" using f by auto
  have "core_ok i'" if "in_file i' = pf" "frames i' = frames (set_image f pg i)" "index i' = index i" "cooling i' = cooling i"
    "fst ` set (free_map i') \<subseteq> insert p (fst ` set (free_map i))" for i'
    by (rule core_ok_set [OF core r(1), where p = p and pf' = pf and fr = "(frames i ! f)\<lparr>fr_image := Some pg\<rparr>"])
      (use that w f r(3) page idx in \<open>simp_all add: set_image_def on_file_def\<close>)
  then show ?thesis using w by blast
qed

lemma release_frag_ok:
  assumes ok: "inner_ok (fg # X) i"
  shows "\<exists>i'. release_frag fg i = Some i' \<and> settles (fg # X) X i i' \<and> quarantine i' = quarantine i"
proof -
  have core: "core_ok i" and fresh: "fg \<notin> set X" "fg \<notin> set (quar i)" "fg \<notin> pend i"
    and disj: "(set X \<union> set (quar i)) \<inter> pend i = {}" and dist: "distinct (X @ quar i)"
    and occ: "\<And>x. x \<in> dead (fg # X) i \<Longrightarrow> recs i x \<noteq> None"
    using ok by (auto simp: inner_ok_def)
  have fgr: "recs i fg \<noteq> None" by (rule occ) (simp add: dead_def)
  show ?thesis
  proof (cases "index i (fst fg)")
    case None
    let ?i = "i\<lparr>pending_free := (pending_free i)(fst fg \<mapsto>
            (case pending_free i (fst fg) of None \<Rightarrow> [] | Some ss \<Rightarrow> ss) @ [snd fg])\<rparr>"
    have run: "release_frag fg i = Some ?i" using None by (simp add: release_frag_def)
    have pend': "pend ?i = insert fg (pend i)"
      by (cases "pending_free i (fst fg)") (auto simp: pend_def prod_eq_iff)
    have same: "quar ?i = quar i" "recs ?i = recs i" by (simp_all add: quar_def recs_same [of ?i i])
    have dead': "dead X ?i = dead (fg # X) i" unfolding dead_def pend' same by auto
    have "core_ok ?i" using core by (simp add: core_ok_def)
    then have "inner_ok X ?i" unfolding inner_ok_def dead' same pend' using disj dist fresh occ by auto
    then have "settles (fg # X) X i ?i"
      using dead' same(2) by (intro settlesI [of _ _ _ "{}"]) (simp_all add: restrict_map_def)
    then show ?thesis using run by (intro exI [of _ ?i]) simp
  next
    case (Some f)
    note r = resident_image [OF core Some]
    let ?img = "disk (in_file i) (fst fg)"
    have pok: "page_ok ?img" using core_okD(1) [OF core] r(3) by (simp add: file_ok_def)
    have occupied: "page_get ?img (snd fg) \<noteq> None" using fgr r(3) by (simp add: recs_def)
    note k = page_free_slot_get [OF pok, of "snd fg"] and freed = page_free_slot_ok [OF pok, of "snd fg"]
    let ?pg = "fst (page_free_slot (snd fg) ?img)"
    from rewrite_page_ok [OF core Some k(1)] k(2) obtain pf where
      w: "write_page ?pg (in_file i) = (pf, Inr ())" "pf_next_id pf = pf_next_id (in_file i)"
        "disk pf = (disk (in_file i))(fst fg := ?pg)" and core': "\<And>i'. in_file i' = pf \<Longrightarrow> frames i' = frames (set_image f ?pg i) \<Longrightarrow>
          index i' = index i \<Longrightarrow> cooling i' = cooling i \<Longrightarrow> fst ` set (free_map i') \<subseteq> insert (fst fg) (fst ` set (free_map i)) \<Longrightarrow> core_ok i'"
      by auto
    let ?i = "(set_image f ?pg i)\<lparr>free_map := AList.update (fst fg) (free_space ?pg) (free_map i), in_file := pf\<rparr>"
    have "page_free_slot (snd fg) ?img = (?pg, True)" using freed occupied by (simp add: prod_eq_iff)
    then have run: "release_frag fg i = Some ?i" using Some r(2) w(1)
      by (cases "page_free_slot (snd fg) ?img") (simp add: release_frag_def set_image_def)
    have c': "core_ok ?i" by (rule core') (simp_all add: set_image_def dom_update)
    have recs': "recs ?i = recs i |` (- {fg})"
    proof
      fix x
      have "recs ?i x = (if fst x = fst fg then page_get ?pg (snd x) else recs i x)"
        by (rule recs_page) (use w r(3) in \<open>simp_all add: set_image_def\<close>)
      then show "recs ?i x = (recs i |` (- {fg})) x" using r(3) by (auto simp: k(3) recs_def restrict_map_def prod_eq_iff)
    qed
    have same: "quar ?i = quar i" "pend ?i = pend i" by (simp_all add: quar_def pend_def set_image_def)
    have dead': "dead X ?i = dead (fg # X) i - {fg}" unfolding dead_def same using fresh by auto
    have "inner_ok X ?i" unfolding inner_ok_def dead' same recs' using c' disj dist occ by (auto simp: restrict_map_def)
    then have "settles (fg # X) X i ?i"
      using dead' recs' w(2) by (intro settlesI [of _ _ _ "{fg}"]) (simp_all add: dead_def set_image_def)
    then show ?thesis using run by (intro exI [of _ ?i]) (simp add: set_image_def)
  qed
qed

lemma release_frags_ok:
  "inner_ok (fgs @ X) i \<Longrightarrow> \<exists>i'. release_frags fgs i = Some i' \<and> settles (fgs @ X) X i i' \<and> quarantine i' = quarantine i"
proof (induction fgs arbitrary: i)
  case Nil
  then show ?case using settles_refl by auto
next
  case (Cons fg fgs)
  then obtain j where j: "release_frag fg i = Some j" "settles (fg # fgs @ X) (fgs @ X) i j" "quarantine j = quarantine i"
    using release_frag_ok [of fg "fgs @ X" i] by auto
  have "inner_ok (fgs @ X) j" using j(2) by (simp add: settles_def)
  from Cons.IH [OF this] j show ?case using settles_trans [OF j(2)] by auto
qed

lemma reclaim_loop_ok:
  "inner_ok [] i \<Longrightarrow> quarantine i = kept @ qs \<Longrightarrow> \<exists>i'. reclaim_loop current kept qs i = Some i' \<and> settles [] [] i i'"
proof (induction qs arbitrary: i kept)
  case Nil
  then have "i\<lparr>quarantine := kept\<rparr> = i" by simp
  then show ?case using settles_refl [OF Nil.prems(1)] by auto
next
  case (Cons q qs)
  show ?case
  proof (cases "q_epoch q + 1 < current")
    case False
    then show ?thesis using Cons.IH [of i "kept @ [q]"] Cons.prems by simp
  next
    case True
    let ?j = "i\<lparr>quarantine := kept @ qs\<rparr>"
    have same: "recs ?j = recs i" "pend ?j = pend i" by (simp_all add: recs_same [of ?j i] pend_def)
    have quar': "set (q_frags q) \<union> set (quar ?j) = set (quar i)" "distinct (quar i) = distinct (q_frags q @ quar ?j)"
      using Cons.prems(2) by (auto simp: quar_def)
    have dead': "dead (q_frags q) ?j = dead [] i" unfolding dead_def same using quar' by auto
    have "core_ok ?j" using Cons.prems(1) by (simp add: inner_ok_def core_ok_def)
    moreover have "\<forall>fg \<in> dead (q_frags q) ?j. recs ?j fg \<noteq> None" unfolding dead' same
      using Cons.prems(1) by (simp add: inner_ok_def)
    ultimately have ok: "inner_ok (q_frags q) ?j" using Cons.prems(1) quar' same(2) unfolding inner_ok_def by auto
    have first: "settles [] (q_frags q) i ?j"
      using ok dead' same(1) by (intro settlesI [of _ _ _ "{}"]) (simp_all add: restrict_map_def)
    from release_frags_ok [of "q_frags q" "[]" ?j] ok obtain k where
      k: "release_frags (q_frags q) ?j = Some k" "settles (q_frags q) [] ?j k" "quarantine k = kept @ qs" by auto
    from Cons.IH [of k kept] k obtain l where l: "reclaim_loop current kept qs k = Some l" "settles [] [] k l"
      by (auto simp: settles_def)
    have "settles [] [] i l" using settles_trans [OF settles_trans [OF first k(2)] l(2)] .
    then show ?thesis using True k(1) l(1) by simp
  qed
qed

lemma reclaim_quarantine_ok:
  assumes "inner_ok [] (inner p)"
  shows "\<exists>p'. reclaim_quarantine p = Some p' \<and> settles [] [] (inner p) (inner p')"
proof -
  let ?e = "fst (try_reclaim (epoch p))"
  from reclaim_loop_ok [OF assms, of "[]" "quarantine (inner p)" "global_epoch ?e"] obtain i where
    "reclaim_loop (global_epoch ?e) [] (quarantine (inner p)) (inner p) = Some i" "settles [] [] (inner p) i" by auto
  then show ?thesis by (simp add: reclaim_quarantine_def Let_def)
qed

section \<open>Adding a record\<close>

definition adds :: "inner \<Rightarrow> inner \<Rightarrow> frag \<Rightarrow> bytes \<Rightarrow> bool" where
  "adds i i' loc rec \<longleftrightarrow> inner_ok [] i' \<and> recs i loc = None \<and> recs i' = (recs i)(loc \<mapsto> rec) \<and> dead [] i' = dead [] i \<and>
     unat (pf_next_id (in_file i')) \<le> unat (pf_next_id (in_file i)) + 1"

lemma addsI:
  assumes ok: "inner_ok [] i" and core: "core_ok i'" and same: "quarantine i' = quarantine i" "pending_free i' = pending_free i"
    and r: "recs i loc = None" "recs i' = (recs i)(loc \<mapsto> rec)" and n: "unat (pf_next_id (in_file i')) \<le> unat (pf_next_id (in_file i)) + 1"
  shows "adds i i' loc rec"
proof -
  have eqs: "quar i' = quar i" "pend i' = pend i" "dead [] i' = dead [] i" using same by (simp_all add: quar_def pend_def dead_def)
  have "\<forall>fg \<in> dead [] i'. recs i' fg \<noteq> None" unfolding eqs r(2) using ok by (auto simp: inner_ok_def)
  then have "inner_ok [] i'" using ok core unfolding inner_ok_def eqs(1,2) by simp
  then show ?thesis using r n eqs(3) by (simp add: adds_def)
qed

lemma page_insert_none: "free_space p < length data + 8 \<Longrightarrow> page_insert data p = None"
  by (simp add: page_insert_def SLOT_LEN_def)

lemma fresh_page_ok:
  assumes ok: "inner_ok [] i" and room: "length frag + 48 \<le> PAGE_SIZE"
  shows "pf_next_id (in_file i) = - 1 \<and> (\<exists>e. fresh_page frag i = Some (i, Inl e)) \<or>
    (\<exists>i' loc. fresh_page frag i = Some (i', Inr loc) \<and> adds i i' loc frag)"
proof (cases "pf_next_id (in_file i) = - 1")
  case True
  then show ?thesis by (simp add: fresh_page_def alloc_page_def)
next
  case False
  let ?n = "pf_next_id (in_file i)"
  have core: "core_ok i" using ok by (simp add: inner_ok_def)
  note fok = core_okD(1) [OF core]
  from alloc_page_ok [OF fok False] obtain pf where
    a: "alloc_page (in_file i) = (pf, Inr ?n)" "file_ok pf" "pf_next_id pf = ?n + 1" "disk pf ?n = page_create ?n"
      "\<And>p. on_file (in_file i) p \<Longrightarrow> disk pf p = disk (in_file i) p" by blast
  note sn = unat_succ(2) [OF False]
  have on: "on_file pf q \<longleftrightarrow> on_file (in_file i) q \<or> q = ?n" for q
    using fok sn by (auto simp: on_file_def a(3) file_ok_def word_less_nat_alt less_Suc_eq word_unat_eq_iff)
  let ?i1 = "i\<lparr>in_file := pf\<rparr>"
  have notn: "\<not> on_file (in_file i) ?n" by (simp add: on_file_def)
  have core1: "core_ok ?i1"
  proof -
    have "coherent pf (frames i) (index i)"
      by (rule coherent_file [OF core_okD(2) [OF core]]) (use a(5) on in blast)
    then show ?thesis using core a(2) on by (auto simp: core_ok_def)
  qed
  from victim_frame_ok [OF core1] obtain j f where
    v: "victim_frame ?i1 = Some (j, f)" "core_ok j" "f < length (frames j)" "fr_page (frames j ! f) = None"
      "same_data ?i1 j" "index j \<subseteq>\<^sub>m index i" by auto
  have j: "in_file j = pf" "quarantine j = quarantine i" "pending_free j = pending_free i" using v(5) by (simp_all add: same_data_def)
  have "index i ?n = None" using coherentD(5) [OF core_okD(2) [OF core], of ?n] notn by (cases "index i ?n") auto
  then have nj: "index j ?n = None" using v(6) by (metis domIff map_le_implies_dom_le subsetD)
  have "length frag + 8 \<le> free_space (page_create ?n)" using room by (simp add: page_create_ok(3))
  from page_insert_ok [OF page_create_ok(1) this] obtain pg s where
    ins: "page_insert frag (page_create ?n) = Some (pg, s)" "page_ok pg" "page_get pg s = Some frag"
      "slots_kept (page_create ?n) pg s" by blast
  have pgid: "page_id pg = ?n" using ins(4) by (simp add: slots_kept_def page_create_layout(3))
  have gpg: "page_get pg s' = (if s' = s then Some frag else None)" for s'
    using ins(3,4) by (auto simp: slots_kept_def page_create_ok(2))
  have onn: "on_file pf ?n" by (simp add: on)
  from write_page_ok [OF a(2) ins(2)] pgid onn obtain pf2 where
    w: "write_page pg pf = (pf2, Inr ())" "file_ok pf2" "pf_next_id pf2 = pf_next_id pf" "disk pf2 = (disk pf)(?n := pg)" by auto
  let ?k = "install f pg (j\<lparr>free_map := AList.update ?n (free_space pg) (free_map j), in_file := pf2\<rparr>)"
  have run: "fresh_page frag i = Some (maybe_cool ?k, Inr (?n, s))"
    using a(1) v(1) ins(1) w(1) by (simp add: fresh_page_def j)
  have corek: "core_ok ?k"
    by (rule core_ok_set [OF v(2,3), where p = ?n and pf' = pf2 and fr = "\<lparr>fr_page = Some ?n, fr_image = Some pg, fr_cooling = False\<rparr>"])
      (use v(4) nj w onn pgid in \<open>simp_all add: install_def dom_update j on_file_def\<close>)
  note mc = maybe_cool_ok [OF corek]
  have same: "in_file (maybe_cool ?k) = pf2" "quarantine (maybe_cool ?k) = quarantine i" "pending_free (maybe_cool ?k) = pending_free i"
    using mc by (simp_all add: same_data_def install_def j)
  have on2: "on_file pf2 q \<longleftrightarrow> on_file (in_file i) q \<or> q = ?n" for q using on [of q] w(3) by (simp add: on_file_def)
  have recs': "recs (maybe_cool ?k) = (recs i)((?n, s) \<mapsto> frag)"
  proof
    fix fg
    show "recs (maybe_cool ?k) fg = ((recs i)((?n, s) \<mapsto> frag)) fg"
      using a(5) [of "fst fg"] notn by (cases fg) (auto simp: recs_def same on2 w(4) gpg)
  qed
  have "adds i (maybe_cool ?k) (?n, s) frag"
    by (rule addsI [OF ok conjunct1 [OF mc] same(2,3) _ recs']) (use notn a(3) w(3) sn same(1) in \<open>simp_all add: recs_def\<close>)
  then show ?thesis using run by blast
qed

lemma best_fit_mem: "best_fit need fm best b = Some p \<Longrightarrow> p \<in> fst ` set fm \<or> best = Some p"
  by (induction need fm best b rule: best_fit.induct) (auto split: if_splits)

lemma insert_frag_ok:
  assumes ok: "inner_ok [] i" and room: "length frag + 48 \<le> PAGE_SIZE"
  shows "\<exists>i0. settles [] [] i i0 \<and>
    (pf_next_id (in_file i) = - 1 \<and> (\<exists>e. insert_frag frag i = Some (i0, Inl e)) \<or>
     (\<exists>i' loc. insert_frag frag i = Some (i', Inr loc) \<and> adds i0 i' loc frag))"
proof (cases "best_fit (length frag + SLOT_LEN) (free_map i) None (2 ^ 64 - 1)")
  case None
  then have "insert_frag frag i = fresh_page frag i" by (simp add: insert_frag_def)
  then show ?thesis using fresh_page_ok [OF assms] settles_refl [OF ok] by auto
next
  case (Some p)
  have core: "core_ok i" using ok by (simp add: inner_ok_def)
  have p: "on_file (in_file i) p" using best_fit_mem [OF Some] core_okD(5) [OF core] by auto
  from fix_page_ok [OF ok p] obtain j f where
    j: "fix_page p i = Some (j, Inr f)" "settles [] [] i j" "index j p = Some f" by blast
  have okj: "inner_ok [] j" and nj: "pf_next_id (in_file j) = pf_next_id (in_file i)" using j(2) by (simp_all add: settles_def)
  have corej: "core_ok j" using okj by (simp add: inner_ok_def)
  note r = resident_image [OF corej j(3)]
  let ?img = "disk (in_file j) p"
  have pok: "page_ok ?img" using core_okD(1) [OF corej] r(3) by (simp add: file_ok_def)
  show ?thesis
  proof (cases "length frag + 8 \<le> free_space ?img")
    case False
    let ?k = "j\<lparr>free_map := AList.update p (free_space ?img) (free_map j)\<rparr>"
    have "core_ok ?k" using corej r(3) by (auto simp: core_ok_def dom_update)
    from settles_same [OF okj this] have k: "settles [] [] j ?k" by (simp add: same_data_def)
    have "insert_frag frag i = fresh_page frag ?k"
      using Some j(1) r(2) False by (simp add: insert_frag_def page_insert_none)
    moreover have "inner_ok [] ?k" using k by (simp add: settles_def)
    ultimately show ?thesis using fresh_page_ok [OF _ room, of ?k] settles_trans [OF j(2) k] nj by (intro exI [of _ ?k]) auto
  next
    case True
    from page_insert_ok [OF pok True] obtain pg s where
      ins: "page_insert frag ?img = Some (pg, s)" "page_ok pg" "page_get pg s = Some frag" "page_get ?img s = None"
        "slots_kept ?img pg s" by blast
    have pgid: "page_id pg = p" using ins(5) by (simp add: slots_kept_def)
    from rewrite_page_ok [OF corej j(3) ins(2) pgid] obtain pf where
      w: "write_page pg (in_file j) = (pf, Inr ())" "pf_next_id pf = pf_next_id (in_file j)"
        "disk pf = (disk (in_file j))(p := pg)" and core': "\<And>i'. in_file i' = pf \<Longrightarrow> frames i' = frames (set_image f pg j) \<Longrightarrow>
          index i' = index j \<Longrightarrow> cooling i' = cooling j \<Longrightarrow> fst ` set (free_map i') \<subseteq> insert p (fst ` set (free_map j)) \<Longrightarrow> core_ok i'"
      by auto
    let ?k = "(set_image f pg j)\<lparr>in_file := pf, free_map := AList.update p (free_space pg) (free_map j)\<rparr>"
    have run: "insert_frag frag i = Some (?k, Inr (p, s))"
      using Some j(1) r(2) ins(1) w(1) pgid by (simp add: insert_frag_def set_image_def)
    have "core_ok ?k" by (rule core') (simp_all add: set_image_def dom_update)
    moreover have "recs ?k = (recs j)((p, s) \<mapsto> frag)"
    proof
      fix fg
      have "recs ?k fg = (if fst fg = p then page_get pg (snd fg) else recs j fg)"
        by (rule recs_page) (use w r(3) in \<open>simp_all add: set_image_def\<close>)
      then show "recs ?k fg = ((recs j)((p, s) \<mapsto> frag)) fg"
        using ins(3,5) r(3) by (cases fg) (auto simp: recs_def slots_kept_def)
    qed
    moreover have "recs j (p, s) = None" using ins(4) by (simp add: recs_def)
    ultimately have "adds j ?k (p, s) frag" using w(2) by (intro addsI [OF okj]) (simp_all add: set_image_def)
    then show ?thesis using run j(2) by blast
  qed
qed

end
