(* ===== verification/Pool_Store.thy ===== *)
theory Pool_Store
  imports Pool_Heap
begin

text \<open>
  Values in the overflow pool: a value is a chain of records, and \<open>store\<close>, \<open>load\<close> and \<open>free\<close> implement a heap
  of byte strings. \<open>blob_store\<close> is the interface the table layer relies on.
\<close>

lemma unat_max: "unat (- 1 :: u64) = 2 ^ 64 - 1"
proof -
  have "unat (- 1 :: u64) = mask 64" by (simp add: unsigned_minus_1_eq_mask)
  then show ?thesis by (simp only: mask_eq_exp_minus_1)
qed

section \<open>Chains\<close>

definition link :: "u64 \<Rightarrow> frag option \<Rightarrow> bytes \<Rightarrow> bytes" where
  "link t nxt chunk = (case nxt of None \<Rightarrow> 0 # u64_le t @ chunk | Some fg \<Rightarrow> 1 # u64_le t @ u64_le (fst fg) @ u32_le (snd fg) @ chunk)"

fun chain :: "(frag \<rightharpoonup> bytes) \<Rightarrow> u64 \<Rightarrow> frag list \<Rightarrow> bytes list \<Rightarrow> frag option \<Rightarrow> bool" where
  "chain R t [] [] nxt \<longleftrightarrow> True"
| "chain R t (fg # fgs) (c # cs) nxt \<longleftrightarrow>
     R fg = Some (link t (if fgs = [] then nxt else Some (hd fgs)) c) \<and> chain R t fgs cs nxt"
| "chain R t _ _ nxt \<longleftrightarrow> False"

lemma chain_length: "chain R t fgs cs nxt \<Longrightarrow> length fgs = length cs"
  by (induction R t fgs cs nxt rule: chain.induct) auto

lemma chain_snoc:
  "length fgs = length cs \<Longrightarrow>
     chain R t (fgs @ [fg]) (cs @ [c]) nxt \<longleftrightarrow> chain R t fgs cs (Some fg) \<and> R fg = Some (link t nxt c)"
  by (induction fgs cs rule: list_induct2) (auto simp: hd_append)

lemma chain_cong: "chain R t fgs cs nxt \<Longrightarrow> (\<And>fg. fg \<in> set fgs \<Longrightarrow> R' fg = R fg) \<Longrightarrow> chain R' t fgs cs nxt"
  by (induction R t fgs cs nxt rule: chain.induct) auto

lemma chain_occupied: "chain R t fgs cs nxt \<Longrightarrow> fg \<in> set fgs \<Longrightarrow> R fg \<noteq> None"
  by (induction R t fgs cs nxt rule: chain.induct) auto

lemma chain_last:
  assumes "chain R t fgs cs nxt" "fgs \<noteq> []"
  obtains as a ds d where "fgs = as @ [a]" "cs = ds @ [d]" "length as = length ds" "chain R t as ds (Some a)" "R a = Some (link t nxt d)"
proof -
  from assms(2) obtain as a where 1: "fgs = as @ [a]" by (metis rev_exhaust)
  have "cs \<noteq> []" using chain_length [OF assms(1)] assms(2) by auto
  then obtain ds d where 2: "cs = ds @ [d]" by (metis rev_exhaust)
  have "length as = length ds" using chain_length [OF assms(1)] 1 2 by simp
  with assms(1) chain_snoc [OF this, of R t a d nxt] 1 2 that show ?thesis by auto
qed

lemma frag_record_link: "frag_record t chained chunk = link t (if chained then Some (0, 0) else None) chunk"
  by (simp add: frag_record_def link_def)

lemma write_at_adjacent:
  assumes "off + length x \<le> length b"
  shows "write_at (write_at b off x) (off + length x) y = write_at b off (x @ y)"
  using assms by (simp add: write_at_def ac_simps)

lemma patch_link: "write_at (link t (Some old) c) 9 (u64_le (fst loc) @ u32_le (snd loc)) = link t (Some loc) c"
  by (simp add: link_def write_at_def)

lemma patch_prev_ok:
  assumes ok: "inner_ok [] i" and a: "alloced \<noteq> []" and r: "recs i (last alloced) = Some (link t (Some old) c)"
    and live: "last alloced \<notin> dead [] i"
  shows "\<exists>i0 i'. patch_prev alloced loc i = Some (i', Inr ()) \<and> settles [] [] i i0 \<and> inner_ok [] i' \<and>
    recs i' = (recs i0)(last alloced \<mapsto> link t (Some loc) c) \<and> dead [] i' = dead [] i0 \<and>
    pf_next_id (in_file i') = pf_next_id (in_file i)"
proof -
  obtain p s where l: "last alloced = (p, s)" by force
  have p: "on_file (in_file i) p" using r l by (auto simp: recs_def split: if_splits)
  from fix_page_ok [OF ok p] obtain j f where
    j: "fix_page p i = Some (j, Inr f)" "settles [] [] i j" "index j p = Some f" by blast
  have okj: "inner_ok [] j" and nj: "pf_next_id (in_file j) = pf_next_id (in_file i)" using j(2) by (simp_all add: settles_def)
  have core: "core_ok j" using okj by (simp add: inner_ok_def)
  note res = resident_image [OF core j(3)]
  let ?img = "disk (in_file j) p"
  have pok: "page_ok ?img" using core_okD(1) [OF core] res(3) by (simp add: file_ok_def)
  have g: "page_get ?img s = Some (link t (Some old) c)"
    using settles_live(1) [OF j(2) live] r l res(3) by (simp add: recs_def)
  have len: "length (page_img ?img) = PAGE_SIZE" using page_ok_length [OF pok] .
  let ?bs = "u64_le (fst loc) @ u32_le (snd loc)"
  have n: "9 + length ?bs \<le> length (link t (Some old) c)" by (simp add: link_def)
  note pt = page_patch_ok [OF pok g n]
  from pt(1) obtain ro rl where so: "slot_off ?img (unat s) = Some (ro, rl)" by auto
  let ?pg = "update_checksum (?img\<lparr>page_img := write_at (page_img ?img) (ro + 9) ?bs\<rparr>)"
  have pg: "page_ok ?pg" "page_get ?pg s = Some (link t (Some loc) c)" "slots_kept ?img ?pg s"
    using pt(2-4) by (simp_all add: so patch_link)
  have pgid: "page_id ?pg = p" using pg(3) by (simp add: slots_kept_def)
  have ro: "ro + 21 \<le> PAGE_SIZE"
    using slot_bound [OF pok g so] by (simp add: link_def)
  have two: "write_at (write_at (page_img ?img) (ro + 9) (u64_le (fst loc))) (ro + 17) (u32_le (snd loc)) = write_at (page_img ?img) (ro + 9) ?bs"
    using write_at_adjacent [of "ro + 9" "u64_le (fst loc)" "page_img ?img" "u32_le (snd loc)"] ro len by (simp add: add.assoc)
  from rewrite_page_ok [OF core j(3) pg(1) pgid] obtain pf where
    w: "write_page ?pg (in_file j) = (pf, Inr ())" "pf_next_id pf = pf_next_id (in_file j)"
      "disk pf = (disk (in_file j))(p := ?pg)" and core': "\<And>i'. in_file i' = pf \<Longrightarrow> frames i' = frames (set_image f ?pg j) \<Longrightarrow>
        index i' = index j \<Longrightarrow> cooling i' = cooling j \<Longrightarrow> fst ` set (free_map i') \<subseteq> insert p (fst ` set (free_map j)) \<Longrightarrow> core_ok i'"
    by auto
  let ?k = "(set_image f ?pg j)\<lparr>in_file := pf\<rparr>"
  have "patch_prev alloced loc i = map_option (\<lambda>i. (i, Inr ())) (write_frame_through f (set_image f ?pg j))"
    using a l j(1) res(2) so ro len two by (simp add: patch_prev_def)
  moreover have "write_frame_through f (set_image f ?pg j) = Some ?k"
    using res(1) w(1) by (simp add: write_frame_through_def set_image_def)
  ultimately have run: "patch_prev alloced loc i = Some (?k, Inr ())" by simp
  have ck: "core_ok ?k" by (rule core') (auto simp: set_image_def)
  have recs': "recs ?k = (recs j)(last alloced \<mapsto> link t (Some loc) c)"
  proof
    fix fg
    have "recs ?k fg = (if fst fg = p then page_get ?pg (snd fg) else recs j fg)"
      by (rule recs_page) (use w res(3) in \<open>simp_all add: set_image_def\<close>)
    then show "recs ?k fg = ((recs j)(last alloced \<mapsto> link t (Some loc) c)) fg"
      using pg(2,3) res(3) l by (cases fg) (auto simp: recs_def slots_kept_def)
  qed
  have same: "quar ?k = quar j" "pend ?k = pend j" "dead [] ?k = dead [] j" by (simp_all add: quar_def pend_def dead_def set_image_def)
  have "inner_ok [] ?k" using okj ck unfolding inner_ok_def same recs' by auto
  then show ?thesis using run j(2) recs' same(3) w(2) nj by (intro exI [of _ j] exI [of _ ?k]) simp
qed

section \<open>Storing\<close>

text \<open>\<open>L\<close> is a set of records in use: a step keeps them as they are.\<close>

definition in_use :: "frag set \<Rightarrow> inner \<Rightarrow> bool" where
  "in_use L i \<longleftrightarrow> inner_ok [] i \<and> L \<inter> dead [] i = {} \<and> (\<forall>fg \<in> L. recs i fg \<noteq> None)"

definition keeps :: "frag set \<Rightarrow> inner \<Rightarrow> inner \<Rightarrow> bool" where
  "keeps L i i' \<longleftrightarrow> in_use L i' \<and> (\<forall>fg \<in> L. recs i' fg = recs i fg)"

lemma in_use_mono: "in_use L i \<Longrightarrow> M \<subseteq> L \<Longrightarrow> in_use M i"
  unfolding in_use_def by blast

lemma disjoint_subset_right: "A \<inter> B = {} \<Longrightarrow> C \<subseteq> B \<Longrightarrow> A \<inter> C = {}"
  by blast

lemma keeps_refl: "in_use L i \<Longrightarrow> keeps L i i"
  by (simp add: keeps_def)

lemma keeps_trans: "keeps L i j \<Longrightarrow> keeps L j k \<Longrightarrow> keeps L i k"
  by (simp add: keeps_def)

lemma keeps_mono: "keeps L i j \<Longrightarrow> M \<subseteq> L \<Longrightarrow> keeps M i j"
  by (auto simp: keeps_def in_use_def)

lemma keeps_settles:
  assumes "in_use L i" "settles [] [] i i'"
  shows "keeps L i i'"
proof -
  have ok: "inner_ok [] i'" using assms(2) by (simp add: settles_def)
  have "recs i' fg = recs i fg \<and> fg \<notin> dead [] i'" if "fg \<in> L" for fg
    using settles_live [OF assms(2), of fg] that assms(1) by (auto simp: in_use_def)
  then show ?thesis using assms(1) ok unfolding keeps_def in_use_def by fastforce
qed

lemma keeps_adds:
  assumes "in_use L i" "adds i i' loc rec"
  shows "keeps L i i'" "in_use (insert loc L) i'" "loc \<notin> L"
proof -
  have a: "inner_ok [] i'" "recs i loc = None" "recs i' = (recs i)(loc \<mapsto> rec)" "dead [] i' = dead [] i" "inner_ok [] i"
    using assms by (simp_all add: adds_def in_use_def)
  show nl: "loc \<notin> L" using a(2) assms(1) by (auto simp: in_use_def)
  have nd: "loc \<notin> dead [] i" using a(2,5) by (auto simp: inner_ok_def)
  show "keeps L i i'" "in_use (insert loc L) i'" using a assms(1) nl nd by (auto simp: keeps_def in_use_def)
qed

lemma rollback_chain_ok:
  "in_use L i \<Longrightarrow> set fgs \<inter> (L \<union> dead [] i) = {} \<Longrightarrow> \<exists>i'. rollback_chain fgs i = Some i' \<and> keeps L i i'"
proof (induction fgs arbitrary: i)
  case Nil
  then show ?case by (simp add: keeps_refl)
next
  case (Cons fg fgs)
  obtain p s where fg: "fg = (p, s)" by force
  show ?case
  proof (cases "index i p")
    case None
    then show ?thesis using Cons fg by auto
  next
    case (Some f)
    have ok: "inner_ok [] i" and core: "core_ok i" using Cons.prems(1) by (simp_all add: in_use_def inner_ok_def)
    note r = resident_image [OF core Some]
    let ?img = "disk (in_file i) p"
    have pok: "page_ok ?img" using core_okD(1) [OF core] r(3) by (simp add: file_ok_def)
    note k = page_free_slot_get [OF pok, of s]
    let ?pg = "fst (page_free_slot s ?img)"
    from rewrite_page_ok [OF core Some k(1)] k(2) obtain pf where
      w: "write_page ?pg (in_file i) = (pf, Inr ())" "pf_next_id pf = pf_next_id (in_file i)"
        "disk pf = (disk (in_file i))(p := ?pg)" and core': "\<And>i'. in_file i' = pf \<Longrightarrow> frames i' = frames (set_image f ?pg i) \<Longrightarrow>
          index i' = index i \<Longrightarrow> cooling i' = cooling i \<Longrightarrow> fst ` set (free_map i') \<subseteq> insert p (fst ` set (free_map i)) \<Longrightarrow> core_ok i'"
      by auto
    let ?i = "(set_image f ?pg i)\<lparr>in_file := pf\<rparr>"
    have wt: "write_frame_through f (set_image f ?pg i) = Some ?i"
      using r(1) w(1) by (simp add: write_frame_through_def set_image_def)
    have c: "core_ok ?i" by (rule core') (auto simp: set_image_def)
    have recs': "recs ?i x = (if x = fg then None else recs i x)" for x
    proof -
      have "recs ?i x = (if fst x = p then page_get ?pg (snd x) else recs i x)"
        by (rule recs_page) (use w r(3) in \<open>simp_all add: set_image_def\<close>)
      then show ?thesis using r(3) fg by (cases x) (auto simp: k(3) recs_def)
    qed
    have same: "quar ?i = quar i" "pend ?i = pend i" "dead [] ?i = dead [] i" by (simp_all add: quar_def pend_def dead_def set_image_def)
    have nd: "fg \<notin> dead [] i" "fg \<notin> L" using Cons.prems(2) by auto
    then have "inner_ok [] ?i" using ok c unfolding inner_ok_def same by (auto simp: recs')
    then have kp: "keeps L i ?i" using Cons.prems(1) nd same(3) by (auto simp: keeps_def in_use_def recs')
    have "in_use L ?i" using kp by (simp add: keeps_def)
    from Cons.IH [OF this] Cons.prems(2) same(3) obtain j where "rollback_chain fgs ?i = Some j" "keeps L ?i j" by auto
    then show ?thesis using Some fg r(2) wt keeps_trans [OF kp] by auto
  qed
qed

lemma patch_keeps:
  assumes u: "in_use (L \<union> set alloced) i" and disj: "L \<inter> set alloced = {}" and d: "distinct alloced"
    and c: "chain (recs i) t alloced fin (Some (0, 0))"
  shows "\<exists>i'. patch_prev alloced loc i = Some (i', Inr ()) \<and> in_use (L \<union> set alloced) i' \<and> keeps L i i' \<and>
    chain (recs i') t alloced fin (Some loc) \<and> pf_next_id (in_file i') = pf_next_id (in_file i)"
proof (cases "alloced = []")
  case True
  then have "fin = []" using chain_length [OF c] by simp
  then show ?thesis using True u by (simp add: patch_prev_def keeps_refl)
next
  case False
  from chain_last [OF c False] obtain as a ds dd where
    s: "alloced = as @ [a]" "fin = ds @ [dd]" "length as = length ds" "chain (recs i) t as ds (Some a)" "recs i a = Some (link t (Some (0, 0)) dd)" .
  have ok: "inner_ok [] i" and la: "last alloced \<notin> dead [] i" using u s(1) by (auto simp: in_use_def)
  from patch_prev_ok [OF ok False _ la, of t "(0, 0)" dd loc] s obtain i0 i' where
    p: "patch_prev alloced loc i = Some (i', Inr ())" "settles [] [] i i0" "inner_ok [] i'"
      "recs i' = (recs i0)(a \<mapsto> link t (Some loc) dd)" "dead [] i' = dead [] i0" "pf_next_id (in_file i') = pf_next_id (in_file i)"
    by auto
  note k0 = keeps_settles [OF u p(2)]
  have k: "recs i0 fg = recs i fg" if "fg \<in> L \<union> set alloced" for fg using k0 that by (simp add: keeps_def)
  have "in_use (L \<union> set alloced) i'" using k0 p(3,4,5) by (auto simp: keeps_def in_use_def)
  moreover have "keeps L i i'"
    using \<open>in_use (L \<union> set alloced) i'\<close> disj s(1) k by (auto simp: keeps_def in_use_def p(4))
  moreover have "chain (recs i') t as ds (Some a)"
    by (rule chain_cong [OF s(4)]) (use d s(1) k p(4) in auto)
  then have "chain (recs i') t alloced fin (Some loc)" using s p(4) by (simp add: chain_snoc)
  ultimately show ?thesis using p(1,6) by blast
qed

lemma store_loop_ok:
  assumes "in_use (L \<union> set alloced) i" "L \<inter> set alloced = {}" "distinct alloced"
    and "chain (recs i) t alloced fin (if chunks = [] then None else Some (0, 0))"
    and "\<forall>c \<in> set chunks. length c \<le> MAX_FRAG_PAYLOAD"
  shows "\<exists>i' r. store_loop t chunks alloced i = Some (i', r) \<and> keeps L i i' \<and>
    (case r of Inl e \<Rightarrow> 2 ^ 64 - 1 \<le> unat (pf_next_id (in_file i)) + length chunks
     | Inr fgs \<Rightarrow> in_use (L \<union> set fgs) i' \<and> L \<inter> set fgs = {} \<and> distinct fgs \<and> chain (recs i') t fgs (fin @ chunks) None)"
  using assms
proof (induction chunks arbitrary: i alloced "fin")
  case Nil
  have "keeps L i i" using Nil.prems(1) by (intro keeps_refl) (auto simp: in_use_def)
  then show ?case using Nil.prems by simp
next
  case (Cons chunk chunks)
  let ?rec = "frag_record t (chunks \<noteq> []) chunk"
  have ok: "inner_ok [] i" using Cons.prems(1) by (simp add: in_use_def)
  have room: "length ?rec + 48 \<le> PAGE_SIZE" using Cons.prems(5)
    by (auto simp: frag_record_def MAX_FRAG_PAYLOAD_def PAGE_SIZE_def HEADER_LEN_def SLOT_LEN_def FRAG_CHAIN_OVERHEAD_def)
  from insert_frag_ok [OF ok room] obtain i0 where i0: "settles [] [] i i0" and
    cases: "pf_next_id (in_file i) = - 1 \<and> (\<exists>e. insert_frag ?rec i = Some (i0, Inl e)) \<or>
     (\<exists>i' loc. insert_frag ?rec i = Some (i', Inr loc) \<and> adds i0 i' loc ?rec)" by blast
  note k0 = keeps_settles [OF Cons.prems(1) i0]
  have u0: "in_use (L \<union> set alloced) i0" using k0 by (simp add: keeps_def)
  from cases show ?case
  proof (elim disjE conjE exE)
    fix e assume n: "pf_next_id (in_file i) = - 1" and e: "insert_frag ?rec i = Some (i0, Inl e)"
    have "in_use L i0" "set alloced \<inter> (L \<union> dead [] i0) = {}" using u0 Cons.prems(2) by (auto simp: in_use_def)
    from rollback_chain_ok [OF this] obtain i' where r: "rollback_chain alloced i0 = Some i'" "keeps L i0 i'" by blast
    have "keeps L i i0" using k0 by (rule keeps_mono) simp
    moreover have "unat (pf_next_id (in_file i)) = 2 ^ 64 - 1" unfolding n by (rule unat_max)
    ultimately show ?thesis using e r keeps_trans [of L i i0 i'] by simp
  next
    fix i1 loc assume ins: "insert_frag ?rec i = Some (i1, Inr loc)" and a: "adds i0 i1 loc ?rec"
    note ka = keeps_adds [OF u0 a]
    have r1: "recs i1 loc = Some ?rec" "\<And>fg. fg \<in> set alloced \<Longrightarrow> recs i1 fg = recs i fg"
      using a k0 ka(3) by (auto simp: adds_def keeps_def)
    have c1: "chain (recs i1) t alloced fin (Some (0, 0))" using Cons.prems(4) r1(2) by (auto intro: chain_cong)
    let ?L = "insert loc L"
    have "in_use (?L \<union> set alloced) i1" "?L \<inter> set alloced = {}" using ka(2,3) Cons.prems(2) by auto
    from patch_keeps [OF this Cons.prems(3) c1, of loc] obtain i2 where
      p: "patch_prev alloced loc i1 = Some (i2, Inr ())" "in_use (?L \<union> set alloced) i2" "keeps ?L i1 i2"
        "chain (recs i2) t alloced fin (Some loc)" "pf_next_id (in_file i2) = pf_next_id (in_file i1)" by blast
    have "recs i2 loc = Some ?rec" using p(3) r1(1) by (simp add: keeps_def)
    then have c2: "chain (recs i2) t (alloced @ [loc]) (fin @ [chunk]) (if chunks = [] then None else Some (0, 0))"
      using p(4) by (simp add: chain_snoc [OF chain_length [OF p(4)]] frag_record_link)
    have "in_use (L \<union> set (alloced @ [loc])) i2" "L \<inter> set (alloced @ [loc]) = {}" "distinct (alloced @ [loc])"
      using p(2) ka(3) Cons.prems(2,3) by auto
    from Cons.IH [OF this c2] Cons.prems(5) obtain i' r where
      ih: "store_loop t chunks (alloced @ [loc]) i2 = Some (i', r)" "keeps L i2 i'"
        "case r of Inl e \<Rightarrow> 2 ^ 64 - 1 \<le> unat (pf_next_id (in_file i2)) + length chunks
         | Inr fgs \<Rightarrow> in_use (L \<union> set fgs) i' \<and> L \<inter> set fgs = {} \<and> distinct fgs \<and> chain (recs i') t fgs ((fin @ [chunk]) @ chunks) None"
      by auto
    have "keeps L i i2" using keeps_mono [OF k0, of L] keeps_mono [OF ka(1), of L] keeps_mono [OF p(3), of L]
      by (auto intro: keeps_trans)
    moreover have "unat (pf_next_id (in_file i2)) \<le> unat (pf_next_id (in_file i)) + 1"
      using a i0 p(5) by (simp add: adds_def settles_def)
    moreover have "store_loop t (chunk # chunks) alloced i = Some (i', r)" using ins p(1) ih(1) by simp
    ultimately show ?thesis using ih(2,3) keeps_trans [of L i i2 i'] by (cases r) simp_all
  qed
qed

section \<open>Loading\<close>

lemma link_fields:
  "length (link t None c) = 9 + length c" "link t None c ! 0 = 0" "slice (link t nxt c) (Suc 0) 8 = u64_le t" "drop 9 (link t None c) = c"
  "length (link t (Some fg) c) = 21 + length c" "link t (Some fg) c ! 0 = 1" "drop 21 (link t (Some fg) c) = c"
  "slice (link t (Some fg) c) 9 8 = u64_le (fst fg)" "slice (link t (Some fg) c) 17 4 = u32_le (snd fg)"
  by (simp_all add: link_def slice_def split: option.splits)

lemma read_frag_link:
  assumes "unat t \<le> MAX_VALUE_LEN" "tot = None \<or> tot = Some t"
  shows "read_frag tot (link t nxt c) = Inr (t, c, nxt)"
  using assms by (cases nxt) (auto simp: read_frag_def Let_def link_fields codec_simps FRAG_SINGLE_OVERHEAD_def FRAG_CHAIN_OVERHEAD_def)

lemma load_loop_ok:
  assumes "in_use L i" "set fgs \<subseteq> L" "chain (recs i) t fgs cs None" "fgs \<noteq> []" "length fgs \<le> n"
    and "unat t \<le> MAX_VALUE_LEN" "tot = None \<or> tot = Some t"
  shows "\<exists>i'. load_loop n tot out (hd fgs) i = Some (i', Inr (t, out @ concat cs)) \<and> keeps L i i'"
  using assms
proof (induction fgs arbitrary: i cs n tot out)
  case (Cons fg fgs)
  obtain c cs' where cs: "cs = c # cs'" using chain_length [OF Cons.prems(3)] by (cases cs) auto
  obtain m where n: "n = Suc m" using Cons.prems(5) by (cases n) auto
  have ok: "inner_ok [] i" using Cons.prems(1) by (simp add: in_use_def)
  let ?nxt = "if fgs = [] then None else Some (hd fgs)"
  have r: "recs i fg = Some (link t ?nxt c)" and rest: "chain (recs i) t fgs cs' None" using Cons.prems(3) cs by simp_all
  then have p: "on_file (in_file i) (fst fg)" by (auto simp: recs_def split: if_splits)
  from fix_page_ok [OF ok p] obtain j f where
    j: "fix_page (fst fg) i = Some (j, Inr f)" "settles [] [] i j" "index j (fst fg) = Some f" by blast
  note k = keeps_settles [OF Cons.prems(1) j(2)]
  have u: "in_use L j" and kr: "\<And>x. x \<in> L \<Longrightarrow> recs j x = recs i x" using k by (simp_all add: keeps_def)
  have core: "core_ok j" using u by (simp add: in_use_def inner_ok_def)
  note res = resident_image [OF core j(3)]
  have g: "page_get (disk (in_file j) (fst fg)) (snd fg) = Some (link t ?nxt c)"
    using kr [of fg] Cons.prems(2) r res(3) by (simp add: recs_def)
  note rf = read_frag_link [OF Cons.prems(6,7), of ?nxt c]
  show ?case
  proof (cases "fgs = []")
    case True
    then have "cs' = []" using rest by (cases cs') auto
    then show ?thesis using True n j(1) res(2) g rf k cs by auto
  next
    case False
    have "chain (recs j) t fgs cs' None" by (rule chain_cong [OF rest]) (use kr Cons.prems(2) in auto)
    from Cons.IH [OF u _ this False, of m "Some t" "out @ c"] Cons.prems(2,5,6) n obtain i' where
      "load_loop m (Some t) (out @ c) (hd fgs) j = Some (i', Inr (t, (out @ c) @ concat cs'))" "keeps L j i'" by auto
    then show ?thesis using False n j(1) res(2) g rf cs keeps_trans [OF k] by auto
  qed
qed simp

section \<open>Freeing\<close>

lemma collect_chain_ok:
  assumes "in_use L i" "set fgs \<subseteq> L" "chain (recs i) t fgs cs None" "fgs \<noteq> []"
  shows "\<exists>out. collect_chain n i (hd fgs) = Some out \<and> set out \<subseteq> set fgs"
  using assms(2-4)
proof (induction fgs arbitrary: cs n)
  case (Cons fg fgs)
  obtain c cs' where cs: "cs = c # cs'" using chain_length [OF Cons.prems(2)] by (cases cs) auto
  let ?nxt = "if fgs = [] then None else Some (hd fgs)"
  have r: "recs i fg = Some (link t ?nxt c)" and rest: "chain (recs i) t fgs cs' None" using Cons.prems(2) cs by simp_all
  have core: "core_ok i" using assms(1) by (simp add: in_use_def inner_ok_def)
  have nf: "next_frag i fg = Some None \<or> next_frag i fg = Some ?nxt"
  proof (cases "index i (fst fg)")
    case None
    then show ?thesis by (simp add: next_frag_def)
  next
    case (Some f)
    note res = resident_image [OF core Some]
    have g: "page_get (disk (in_file i) (fst fg)) (snd fg) = Some (link t ?nxt c)" using r res(3) by (simp add: recs_def)
    show ?thesis
    proof (cases "fgs = []")
      case True
      have "link t None c ! 0 \<noteq> 1" by (simp add: link_fields)
      then show ?thesis using True g Some res(2) by (simp add: next_frag_def)
    next
      case False
      have "link t (Some (hd fgs)) c \<noteq> []" "length (link t (Some (hd fgs)) c) \<ge> 21" by (simp_all add: link_def)
      then show ?thesis using False g Some res(2)
        by (simp add: next_frag_def link_fields FRAG_CHAIN_OVERHEAD_def codec_simps)
    qed
  qed
  show ?case
  proof (cases n)
    case (Suc m)
    show ?thesis
    proof (cases "next_frag i fg = Some None")
      case False
      then have ne: "fgs \<noteq> []" "next_frag i fg = Some (Some (hd fgs))" using nf by (auto split: if_splits)
      from Cons.IH [OF _ rest ne(1), of m] Cons.prems(1) obtain out where
        "collect_chain m i (hd fgs) = Some out" "set out \<subseteq> set fgs" by auto
      then show ?thesis using Suc ne by auto
    qed (simp add: Suc)
  qed simp
qed simp

section \<open>The pool as a heap\<close>

definition stored :: "(frag \<rightharpoonup> bytes) \<Rightarrow> locator \<Rightarrow> frag list \<Rightarrow> bytes \<Rightarrow> bool" where
  "stored R l fgs data \<longleftrightarrow> fgs \<noteq> [] \<and> hd fgs = (loc_page l, loc_slot l) \<and> length fgs \<le> MAX_CHAIN_FRAGS \<and> length data \<le> MAX_VALUE_LEN \<and>
     (\<exists>cs. chain R (of_nat (length data)) fgs cs None \<and> concat cs = data)"

definition holds_with :: "(locator \<Rightarrow> frag list) \<Rightarrow> inner \<Rightarrow> (locator \<rightharpoonup> bytes) \<Rightarrow> bool" where
  "holds_with G i h \<longleftrightarrow> in_use (\<Union>l \<in> dom h. set (G l)) i \<and> (\<forall>l data. h l = Some data \<longrightarrow> stored (recs i) l (G l) data) \<and>
     (\<forall>l \<in> dom h. \<forall>l' \<in> dom h. l \<noteq> l' \<longrightarrow> set (G l) \<inter> set (G l') = {})"

definition holds :: "buffer_pool \<Rightarrow> (locator \<rightharpoonup> bytes) \<Rightarrow> bool" where
  "holds p h \<longleftrightarrow> (\<exists>G. holds_with G (inner p) h)"

lemma stored_cong: "stored R l fgs data \<Longrightarrow> (\<And>fg. fg \<in> set fgs \<Longrightarrow> R' fg = R fg) \<Longrightarrow> stored R' l fgs data"
  unfolding stored_def by (metis chain_cong)

lemma holds_keeps:
  assumes "holds_with G i h" "keeps (\<Union>l \<in> dom h. set (G l)) i i'"
  shows "holds_with G i' h"
proof -
  have "stored (recs i') l (G l) data" if l: "h l = Some data" for l data
  proof (rule stored_cong [where R = "recs i"])
    show "stored (recs i) l (G l) data" using assms(1) l by (simp add: holds_with_def)
    show "recs i' fg = recs i fg" if "fg \<in> set (G l)" for fg using assms(2) that l by (auto simp: keeps_def)
  qed
  then show ?thesis using assms by (simp add: holds_with_def keeps_def)
qed

lemma in_use_stats: "in_use L (i\<lparr>in_stats := st\<rparr>) = in_use L i" "recs (i\<lparr>in_stats := st\<rparr>) = recs i"
  by (simp_all add: in_use_def inner_ok_def core_ok_def dead_def quar_def pend_def recs_def fun_eq_iff)

lemma holds_stats: "holds_with G (i\<lparr>in_stats := st\<rparr>) h = holds_with G i h"
  by (simp add: holds_with_def in_use_stats)

lemma split_frags_ok:
  "concat (split_frags data) = data" "c \<in> set (split_frags data) \<Longrightarrow> length c \<le> MAX_FRAG_PAYLOAD"
  "split_frags data = [] \<longleftrightarrow> data = []" "length (split_frags data) * MAX_FRAG_PAYLOAD < length data + MAX_FRAG_PAYLOAD"
proof (induction data rule: split_frags.induct)
  case (1 data)
  have pos: "0 < MAX_FRAG_PAYLOAD"
    by (simp add: MAX_FRAG_PAYLOAD_def PAGE_SIZE_def HEADER_LEN_def SLOT_LEN_def FRAG_CHAIN_OVERHEAD_def)
  note s = split_frags.simps [of data]
  {
    case 1
    show ?case using s "1.IH"(1) by (cases "data = []") simp_all
  next
    case 2
    then show ?case using s "1.IH"(2) by (cases "data = []") auto
  next
    case 3
    show ?case using s by (cases "data = []") simp_all
  next
    case 4
    show ?case
    proof (cases "data = []")
      case False
      show ?thesis
      proof (cases "length data \<le> MAX_FRAG_PAYLOAD")
        case True
        then have "split_frags (drop MAX_FRAG_PAYLOAD data) = []" by (simp add: split_frags.simps)
        then show ?thesis using False s by simp
      next
        case long: False
        then show ?thesis using False s "1.IH"(4) by simp
      qed
    qed (use s pos in simp)
  }
qed

lemma split_frags_few: "length data \<le> MAX_VALUE_LEN \<Longrightarrow> length (split_frags data) \<le> MAX_CHAIN_FRAGS"
proof -
  assume a: "length data \<le> MAX_VALUE_LEN"
  have m: "MAX_FRAG_PAYLOAD = 262075"
    by (simp add: MAX_FRAG_PAYLOAD_def PAGE_SIZE_def HEADER_LEN_def SLOT_LEN_def FRAG_CHAIN_OVERHEAD_def)
  have "length (split_frags data) * 262075 < 67108864 + 262075"
    using split_frags_ok(4) [of data] a by (simp add: m MAX_VALUE_LEN_def)
  then show ?thesis by (simp add: MAX_CHAIN_FRAGS_def)
qed

lemma store_holds:
  assumes h: "holds p h" and d: "data \<noteq> []" "length data \<le> MAX_VALUE_LEN"
  shows "\<exists>p' r. store data p = Some (p', r) \<and>
    (case r of Inl e \<Rightarrow> holds p' h \<and> 2 ^ 64 - 1 \<le> unat (pf_next_id (in_file (inner p))) + length (split_frags data)
     | Inr l \<Rightarrow> h l = None \<and> holds p' (h(l \<mapsto> data)))"
proof -
  from h obtain G where g: "holds_with G (inner p) h" by (auto simp: holds_def)
  let ?L = "\<Union>l \<in> dom h. set (G l)"
  have u: "in_use ?L (inner p)" using g by (simp add: holds_with_def)
  then have "inner_ok [] (inner p)" by (simp add: in_use_def)
  from reclaim_quarantine_ok [OF this] obtain q where
    q: "reclaim_quarantine p = Some q" "settles [] [] (inner p) (inner q)" by blast
  note gq = holds_keeps [OF g keeps_settles [OF u q(2)]]
  have uq: "in_use (?L \<union> set []) (inner q)" using gq by (simp add: holds_with_def)
  let ?t = "of_nat (length data) :: u64"
  have "chain (recs (inner q)) ?t [] [] (if split_frags data = [] then None else Some (0, 0))" by simp
  from store_loop_ok [OF uq _ _ this, unfolded append_Nil] split_frags_ok(2) obtain i r where
    s: "store_loop ?t (split_frags data) [] (inner q) = Some (i, r)" "keeps ?L (inner q) i"
      "case r of Inl e \<Rightarrow> 2 ^ 64 - 1 \<le> unat (pf_next_id (in_file (inner q))) + length (split_frags data)
       | Inr fgs \<Rightarrow> in_use (?L \<union> set fgs) i \<and> ?L \<inter> set fgs = {} \<and> distinct fgs \<and> chain (recs i) ?t fgs (split_frags data) None" by auto
  have nq: "pf_next_id (in_file (inner q)) = pf_next_id (in_file (inner p))" using q(2) by (simp add: settles_def)
  note gi = holds_keeps [OF gq s(2)]
  show ?thesis
  proof (cases r)
    case (Inl e)
    then show ?thesis using d q(1) s gi nq by (auto simp: store_def holds_def)
  next
    case (Inr fgs)
    let ?l = "\<lparr>loc_page = fst (hd fgs), loc_slot = snd (hd fgs)\<rparr>"
    have f: "in_use (?L \<union> set fgs) i" "?L \<inter> set fgs = {}" "chain (recs i) ?t fgs (split_frags data) None" using s(3) Inr by auto
    have fne: "fgs \<noteq> []" "length fgs \<le> MAX_CHAIN_FRAGS"
      using chain_length [OF f(3)] split_frags_ok(3) [of data] d split_frags_few [OF d(2)] by auto
    have new: "stored (recs i) ?l fgs data" using f(3) fne d(2) split_frags_ok(1) by (auto simp: stored_def)
    have fresh: "h ?l = None"
    proof (rule ccontr)
      assume "h ?l \<noteq> None"
      then obtain dd where "h ?l = Some dd" by auto
      then have "stored (recs i) ?l (G ?l) dd" using gi by (simp add: holds_with_def)
      then have "hd fgs \<in> set (G ?l)" unfolding stored_def by (metis hd_in_set locator.select_convs prod.collapse)
      then show False using f(2) fne(1) \<open>h ?l = Some dd\<close> by (meson UN_I disjoint_iff domI hd_in_set)
    qed
    let ?G = "G(?l := fgs)" and ?h = "h(?l \<mapsto> data)"
    have dom: "(\<Union>l \<in> dom ?h. set (?G l)) = ?L \<union> set fgs" 
    proof -
      have "?l \<notin> dom h" using fresh by auto
      then have "(\<Union>l \<in> dom h. set (?G l)) = ?L" by (intro SUP_cong) auto
      then show ?thesis by auto
    qed
    have "holds_with ?G i ?h" unfolding holds_with_def dom
    proof (intro conjI allI impI ballI)
      show "in_use (?L \<union> set fgs) i" by (rule f(1))
      show "stored (recs i) l (?G l) dd" if "?h l = Some dd" for l dd
        using that new gi by (auto simp: holds_with_def split: if_splits)
      have sep: "set (G l) \<inter> set (G l') = {}" if "l \<in> dom h" "l' \<in> dom h" "l \<noteq> l'" for l l'
        using that gi unfolding holds_with_def by blast
      have off: "set (G l) \<inter> set fgs = {}" if "l \<in> dom h" for l using f(2) that by blast
      show "set (?G l) \<inter> set (?G l') = {}" if "l \<in> dom ?h" "l' \<in> dom ?h" "l \<noteq> l'" for l l'
        using sep [of l l'] off [of l] off [of l'] that by (auto simp: fun_upd_apply split: if_splits)
    qed
    then have "holds (q\<lparr>inner := i\<lparr>in_stats := (in_stats i)\<lparr>stores := stores (in_stats i) + 1\<rparr>\<rparr>\<rparr>) ?h"
      using holds_stats by (auto simp: holds_def)
    then show ?thesis using d q(1) s(1) Inr fresh by (simp add: store_def)
  qed
qed

lemma load_holds_with:
  assumes g: "holds_with G (inner p) h" and l: "h l = Some data"
  shows "\<exists>p'. load l p = Some (p', Inr data) \<and> holds_with G (inner p') h"
proof -
  let ?L = "\<Union>l \<in> dom h. set (G l)"
  have u: "in_use ?L (inner p)" using g by (simp add: holds_with_def)
  then have "inner_ok [] (inner p)" by (simp add: in_use_def)
  from reclaim_quarantine_ok [OF this] obtain q where
    q: "reclaim_quarantine p = Some q" "settles [] [] (inner p) (inner q)" by blast
  note gq = holds_keeps [OF g keeps_settles [OF u q(2)]]
  have uq: "in_use ?L (inner q)" and st: "stored (recs (inner q)) l (G l) data" and sub: "set (G l) \<subseteq> ?L"
    using gq l by (auto simp: holds_with_def)
  from st obtain cs where cs: "chain (recs (inner q)) (of_nat (length data)) (G l) cs None" "concat cs = data"
    and gl: "G l \<noteq> []" "hd (G l) = (loc_page l, loc_slot l)" "length (G l) \<le> MAX_CHAIN_FRAGS" "length data \<le> MAX_VALUE_LEN"
    by (auto simp: stored_def)
  have ud: "unat (of_nat (length data) :: u64) = length data" using gl(4) by (simp add: MAX_VALUE_LEN_def unat_of_nat)
  from load_loop_ok [OF uq sub cs(1) gl(1,3), of None "[]"] ud gl obtain i where
    i: "load_loop MAX_CHAIN_FRAGS None [] (loc_page l, loc_slot l) (inner q) = Some (i, Inr (of_nat (length data), data))"
      "keeps ?L (inner q) i" using cs(2) by auto
  let ?i = "i\<lparr>in_stats := (in_stats i)\<lparr>loads := loads (in_stats i) + 1\<rparr>\<rparr>"
  have "holds_with G ?i h" using holds_keeps [OF gq i(2)] holds_stats by simp
  moreover have "load l p = Some (q\<lparr>inner := ?i\<rparr>, Inr data)" using q(1) i(1) ud by (simp add: load_def)
  ultimately show ?thesis by auto
qed

lemma load_holds:
  assumes "holds p h" "h l = Some data"
  shows "\<exists>p'. load l p = Some (p', Inr data) \<and> holds p' h"
  using assms load_holds_with unfolding holds_def by blast

lemma distinct_dedup: "distinct (remdups_adj (sort (xs :: 'a :: linorder list)))"
proof -
  have "sorted ys \<Longrightarrow> distinct_adj ys \<Longrightarrow> distinct ys" for ys :: "'a list"
    by (induction ys rule: induct_list012) (auto simp: order.strict_iff_order)
  moreover have "sorted (remdups_adj (sort xs))" by simp
  ultimately show ?thesis by simp
qed

text \<open>Putting records of a value into quarantine takes the value out of the heap.\<close>

lemma quarantine_holds:
  assumes g: "holds_with G i h" and l: "h l = Some data" and frs: "set fr \<subseteq> set (G l)" "distinct fr"
  shows "holds_with G (i\<lparr>quarantine := quarantine i @ [\<lparr>q_frags = fr, q_epoch = e\<rparr>]\<rparr>) (h(l := None))" (is "holds_with G ?j ?h")
proof -
  let ?L = "\<Union>l \<in> dom h. set (G l)" and ?i = i
  have u: "in_use ?L ?i" and sub: "set (G l) \<subseteq> ?L" using g l by (auto simp: holds_with_def)
  have same: "recs ?j = recs ?i" "pend ?j = pend ?i" "quar ?j = quar ?i @ fr"
    by (simp_all add: recs_same [of ?j ?i] pend_def quar_def)
  have dead': "dead [] ?j = dead [] ?i \<union> set fr" unfolding dead_def same by auto
  have old: "set fr \<inter> dead [] ?i = {}" "\<forall>fg \<in> set fr. recs ?i fg \<noteq> None"
  proof -
    have "set fr \<subseteq> ?L" using frs(1) sub by (rule order_trans)
    with u have "in_use (set fr) ?i" by (rule in_use_mono)
    then show "set fr \<inter> dead [] ?i = {}" "\<forall>fg \<in> set fr. recs ?i fg \<noteq> None" by (simp_all add: in_use_def)
  qed
  have io: "inner_ok [] ?i" using u by (simp add: in_use_def)
  then have co: "core_ok ?j" by (simp add: inner_ok_def core_ok_def)
  have off: "set (quar ?i) \<inter> set fr = {}" "set fr \<inter> pend ?i = {}" using old(1) unfolding dead_def by blast+
  have "distinct (quar ?i)" "set (quar ?i) \<inter> pend ?i = {}" "\<forall>fg \<in> dead [] ?i. recs ?i fg \<noteq> None"
    using io by (simp_all add: inner_ok_def)
  then have "distinct (quar ?j)" "set (quar ?j) \<inter> pend ?j = {}" "\<forall>fg \<in> dead [] ?j. recs ?j fg \<noteq> None"
    unfolding dead' same using off frs(2) old(2) by (simp_all add: Int_Un_distrib2 ball_Un)
  then have ok: "inner_ok [] ?j" using co by (simp add: inner_ok_def)
  let ?L' = "\<Union>l \<in> dom ?h. set (G l)"
  have L': "?L' \<subseteq> ?L" by auto
  have apart: "?L' \<inter> set (G l) = {}"
  proof -
    have "set (G x) \<inter> set (G l) = {}" if "x \<in> dom ?h" for x
    proof -
      have "x \<in> dom h" "l \<in> dom h" "x \<noteq> l" using that l by (auto split: if_splits)
      then show ?thesis using g unfolding holds_with_def by blast
    qed
    then show ?thesis by blast
  qed
  have "in_use ?L' ?j" unfolding in_use_def dead' same
  proof (intro conjI)
    have "in_use ?L' ?i" using u L' by (rule in_use_mono)
    note io' = conjunct2 [OF this [unfolded in_use_def]]
    show "\<forall>fg \<in> ?L'. recs ?i fg \<noteq> None" by (rule conjunct2 [OF io'])
    show "?L' \<inter> (dead [] ?i \<union> set fr) = {}"
      unfolding Int_Un_distrib conjunct1 [OF io'] disjoint_subset_right [OF apart frs(1)] by (rule Un_empty_left)
  qed (rule ok)
  moreover have "stored (recs ?i) x (G x) d" if "?h x = Some d" for x d
    using g that unfolding holds_with_def by (auto split: if_splits)
  moreover have "set (G x) \<inter> set (G y) = {}" if "x \<in> dom ?h" "y \<in> dom ?h" "x \<noteq> y" for x y
  proof -
    have "x \<in> dom h" "y \<in> dom h" using that by (auto split: if_splits)
    then show ?thesis using g that(3) unfolding holds_with_def by blast
  qed
  ultimately show ?thesis unfolding holds_with_def same(1) by (intro conjI allI impI ballI)
qed

lemma free_quarantines:
  assumes g: "holds_with G (inner p) h" and l: "h l = Some data"
  shows "\<exists>fr. set fr \<subseteq> set (G l) \<and> distinct fr \<and> pool_free l p = Some (p\<lparr>inner := (inner p)\<lparr>quarantine :=
    quarantine (inner p) @ [\<lparr>q_frags = fr, q_epoch = global_epoch (epoch p)\<rparr>]\<rparr>\<rparr>)"
proof -
  let ?L = "\<Union>l \<in> dom h. set (G l)" and ?i = "inner p"
  have u: "in_use ?L ?i" and st: "stored (recs ?i) l (G l) data" and sub: "set (G l) \<subseteq> ?L"
    using g l by (auto simp: holds_with_def)
  from st obtain cs where cs: "chain (recs ?i) (of_nat (length data)) (G l) cs None"
    and gl: "G l \<noteq> []" "hd (G l) = (loc_page l, loc_slot l)" by (auto simp: stored_def)
  from collect_chain_ok [OF u sub cs gl(1), of MAX_CHAIN_FRAGS] gl(2) obtain out where
    out: "collect_chain MAX_CHAIN_FRAGS ?i (loc_page l, loc_slot l) = Some out" "set out \<subseteq> set (G l)" by auto
  define fr where "fr = remdups_adj (sort ((loc_page l, loc_slot l) # out))"
  let ?q = "\<lparr>q_frags = fr, q_epoch = global_epoch (epoch p)\<rparr>"
  let ?j = "?i\<lparr>quarantine := quarantine ?i @ [?q]\<rparr>"
  have run: "pool_free l p = Some (p\<lparr>inner := ?j\<rparr>)" using out(1) by (simp add: pool_free_def Let_def fr_def)
  have frs: "set fr \<subseteq> set (G l)" "distinct fr"
  proof -
    have "set fr = set ((loc_page l, loc_slot l) # out)" by (simp only: remdups_adj_set set_sort fr_def)
    moreover have "(loc_page l, loc_slot l) \<in> set (G l)" using gl by (metis hd_in_set)
    ultimately show "set fr \<subseteq> set (G l)" using out(2) by simp
  qed (simp only: fr_def distinct_dedup)
  then show ?thesis using run by blast
qed

lemma free_holds:
  assumes "holds p h" "h l = Some data"
  shows "\<exists>p'. pool_free l p = Some p' \<and> holds p' (h(l := None))"
proof -
  from assms(1) obtain G where g: "holds_with G (inner p) h" by (auto simp: holds_def)
  from free_quarantines [OF g assms(2)] obtain fr where "set fr \<subseteq> set (G l)" "distinct fr"
    and run: "pool_free l p = Some (p\<lparr>inner := (inner p)\<lparr>quarantine := quarantine (inner p) @
      [\<lparr>q_frags = fr, q_epoch = global_epoch (epoch p)\<rparr>]\<rparr>\<rparr>)" by blast
  from quarantine_holds [OF g assms(2) this(1,2)] show ?thesis unfolding run holds_def by auto
qed

section \<open>The superblock, and opening a page file\<close>

lemma write_at_self:
  assumes "slice b off n = bs" "length bs = n"
  shows "write_at b off bs = b"
proof -
  have "drop (off + n) b = drop n (drop off b)" by (simp add: add.commute)
  then show ?thesis using assms append_take_drop_id [of n "drop off b"] by (simp add: write_at_def slice_def)
qed

lemma superblock_round_trip:
  assumes "n \<noteq> 0"
  shows "superblock_next_id (superblock_image n) = Inr n"
proof -
  let ?i0 = "write_at (replicate PAGE_SIZE 0) 0 PAGE_MAGIC"
  let ?i1 = "write_u32 ?i0 4 PAGE_FORMAT_VERSION"
  let ?i2 = "write_u64 ?i1 8 SUPERBLOCK_PAGE"
  let ?i3 = "write_u64 ?i2 HEADER_LEN n"
  have mg: "length PAGE_MAGIC = 4" by (simp add: PAGE_MAGIC_def)
  have big: "40 \<le> PAGE_SIZE" by (simp add: PAGE_SIZE_def)
  have len: "length ?i0 = PAGE_SIZE" "length ?i1 = PAGE_SIZE" "length ?i2 = PAGE_SIZE" "length ?i3 = PAGE_SIZE"
    using mg big by (simp_all add: write_u32_def write_u64_def HEADER_LEN_def)
  have img: "superblock_image n = write_at ?i3 24 (u32_le (crc32 ?i3))" (is "_ = ?i4")
    unfolding superblock_image_def Let_def by (rule refl)
  have z: "slice ?i3 24 4 = [0, 0, 0, 0]"
  proof -
    have "slice ?i3 24 4 = slice (replicate PAGE_SIZE 0) 24 4"
      using mg big len by (simp add: write_u32_def write_u64_def slice_write_other HEADER_LEN_def)
    also have "\<dots> = replicate 4 0" using big by (simp add: slice_def)
    finally show ?thesis by (simp add: numeral_eq_Suc)
  qed
  have "write_at ?i4 24 [0, 0, 0, 0] = write_at ?i3 24 [0, 0, 0, 0]" using big len by (simp add: write_at_twice)
  also have "\<dots> = ?i3" by (rule write_at_self [OF z]) simp
  finally have crc: "crc32 (write_at ?i4 24 [0, 0, 0, 0]) = crc32 ?i3" by simp
  have fields: "slice ?i4 0 4 = PAGE_MAGIC" "read_u32 ?i4 4 = PAGE_FORMAT_VERSION" "read_u64 ?i4 HEADER_LEN = n" "read_u32 ?i4 24 = crc32 ?i3"
  proof -
    show "slice ?i4 0 4 = PAGE_MAGIC" using mg big len
      by (simp add: write_u32_def write_u64_def slice_write_other slice_write_same HEADER_LEN_def)
    have "read_u32 ?i4 4 = read_u32 ?i1 4" "read_u64 ?i4 HEADER_LEN = read_u64 ?i3 HEADER_LEN"
      using big len by (simp_all add: write_u64_def read_write_other HEADER_LEN_def)
    moreover have "read_u32 ?i1 4 = PAGE_FORMAT_VERSION" "read_u64 ?i3 HEADER_LEN = n"
      by (rule read_write_same, use big len in \<open>simp add: HEADER_LEN_def\<close>)+
    ultimately show "read_u32 ?i4 4 = PAGE_FORMAT_VERSION" "read_u64 ?i4 HEADER_LEN = n" by simp_all
    show "read_u32 ?i4 24 = crc32 ?i3" using read_write_same(1) [of 24 ?i3 "crc32 ?i3"] big len by (simp add: write_u32_def)
  qed
  have "\<not> n < 1" using assms by (metis word_less_1)
  then show ?thesis unfolding superblock_next_id_def img fields crc by simp
qed

lemma inner_new_ok:
  assumes "file_ok pf" "0 < n"
  shows "inner_ok [] (inner_new pf n)" "dead [] (inner_new pf n) = {}" "in_file (inner_new pf n) = pf"
proof -
  show d: "dead [] (inner_new pf n) = {}" by (simp add: dead_def quar_def pend_def inner_new_def)
  show f: "in_file (inner_new pf n) = pf" by (simp add: inner_new_def)
  have "coherent pf (replicate n empty_frame) Map.empty"
    using assms(2) by (intro coherentI) (auto simp: empty_frame_def)
  then have "core_ok (inner_new pf n)" using assms(1) by (simp add: core_ok_def inner_new_def)
  then show "inner_ok [] (inner_new pf n)" unfolding inner_ok_def d by (simp add: quar_def pend_def inner_new_def)
qed

lemma reopen_file:
  assumes "file_ok pf"
  shows "page_file_open (Some (pf_file pf)) [] = Inr pf"
proof -
  have f: "length (pf_file pf) = unat (pf_next_id pf) * PAGE_SIZE" "0 < unat (pf_next_id pf)" "pf_faults pf = []"
    "slice (pf_file pf) 0 PAGE_SIZE = superblock_image (pf_next_id pf)" "pf_next_id pf \<noteq> 0"
    using assms by (auto simp: file_ok_def unat_gt_0)
  then have "PAGE_SIZE \<le> length (pf_file pf)" "length (pf_file pf) mod PAGE_SIZE = 0" by (auto simp: Suc_le_eq)
  then show ?thesis using f superblock_round_trip [OF f(5)] by (simp add: page_file_open_def)
qed

lemma new_file_ok:
  "\<exists>pf. page_file_open None [] = Inr pf \<and> file_ok pf"
proof -
  let ?pf = "\<lparr>pf_file = superblock_image 1, pf_next_id = 1, pf_faults = []\<rparr>"
  have "page_file_open None [] = Inr ?pf"
    by (simp add: page_file_open_def write_all_def put_file_def write_at_def)
  moreover have "\<not> on_file ?pf p" for p by (auto simp: on_file_def word_less_1)
  then have "file_ok ?pf" using superblock_length [of 1] by (simp add: file_ok_def slice_def)
  ultimately show ?thesis by blast
qed

lemma reopen_holds:
  assumes h: "holds p h" and n: "0 < n"
  shows "\<exists>p'. pool_open (Some (pf_file (in_file (inner p)))) [] n e = Inr p' \<and> holds p' h"
proof -
  from h obtain G where g: "holds_with G (inner p) h" by (auto simp: holds_def)
  let ?pf = "in_file (inner p)" and ?i = "inner_new (in_file (inner p)) n"
  have fok: "file_ok ?pf" using g by (simp add: holds_with_def in_use_def inner_ok_def core_ok_def)
  note new = inner_new_ok [OF fok n]
  have "recs ?i = recs (inner p)" by (rule recs_same) (rule new(3))
  then have "keeps (\<Union>l \<in> dom h. set (G l)) (inner p) ?i"
    using g new(1,2) by (simp add: keeps_def holds_with_def in_use_def)
  from holds_keeps [OF g this] have "holds \<lparr>inner = ?i, epoch = e\<rparr> h" by (auto simp: holds_def)
  then show ?thesis using reopen_file [OF fok] n by (simp add: pool_open_def)
qed

lemma new_holds:
  assumes "0 < n"
  shows "\<exists>p. pool_open None [] n e = Inr p \<and> holds p Map.empty"
proof -
  from new_file_ok obtain pf where pf: "page_file_open None [] = Inr pf" "file_ok pf" by blast
  have "holds \<lparr>inner = inner_new pf n, epoch = e\<rparr> Map.empty"
    using inner_new_ok [OF pf(2) assms] by (simp add: holds_def holds_with_def in_use_def)
  then show ?thesis using pf(1) assms by (simp add: pool_open_def)
qed

section \<open>The interface of a blob store\<close>

text \<open>What the table layer relies on: a store of byte strings under handles. \<open>None\<close> is a panic.\<close>

locale blob_store =
  fixes holds :: "'p \<Rightarrow> ('l \<rightharpoonup> bytes) \<Rightarrow> bool"
    and put :: "bytes \<Rightarrow> 'p \<Rightarrow> ('p \<times> 'l result) option"
    and fetch :: "'l \<Rightarrow> 'p \<Rightarrow> ('p \<times> bytes result) option"
    and release :: "'l \<Rightarrow> 'p \<Rightarrow> 'p option"
  assumes put_law: "holds p h \<Longrightarrow> \<exists>p' r. put data p = Some (p', r) \<and>
      (case r of Inl e \<Rightarrow> holds p' h | Inr l \<Rightarrow> h l = None \<and> holds p' (h(l \<mapsto> data)))"
    and fetch_law: "holds p h \<Longrightarrow> h l = Some data \<Longrightarrow> \<exists>p'. fetch l p = Some (p', Inr data) \<and> holds p' h"
    and release_law: "holds p h \<Longrightarrow> h l = Some data \<Longrightarrow> \<exists>p'. release l p = Some p' \<and> holds p' (h(l := None))"
begin

lemma put_then_fetch:
  assumes "holds p h" "put data p = Some (p', Inr l)"
  shows "\<exists>p''. fetch l p' = Some (p'', Inr data) \<and> holds p'' (h(l \<mapsto> data))"
  using put_law [OF assms(1), of data] assms(2) fetch_law [of p' "h(l \<mapsto> data)" l data] by auto

lemma put_keeps_others:
  assumes "holds p h" "put data p = Some (p', r)" "h k = Some d"
  shows "\<exists>p''. fetch k p' = Some (p'', Inr d)"
proof (cases r)
  case (Inl e)
  then have "holds p' h" using put_law [OF assms(1), of data] assms(2) by auto
  from fetch_law [OF this assms(3)] show ?thesis by blast
next
  case (Inr l)
  then have "h l = None" "holds p' (h(l \<mapsto> data))" using put_law [OF assms(1), of data] assms(2) by auto
  moreover have "(h(l \<mapsto> data)) k = Some d" using \<open>h l = None\<close> assms(3) by auto
  ultimately show ?thesis using fetch_law by blast
qed

lemma release_keeps_others:
  assumes "holds p h" "h l = Some data" "release l p = Some p'" "h k = Some d" "k \<noteq> l"
  shows "\<exists>p''. fetch k p' = Some (p'', Inr d)"
proof -
  have "holds p' (h(l := None))" using release_law [OF assms(1,2)] assms(3) by auto
  from fetch_law [OF this, of k d] assms(4,5) show ?thesis by auto
qed

end

lemma store_law:
  assumes "holds p h"
  shows "\<exists>p' r. store data p = Some (p', r) \<and> (case r of Inl e \<Rightarrow> holds p' h | Inr l \<Rightarrow> h l = None \<and> holds p' (h(l \<mapsto> data)))"
proof (cases "data = [] \<or> length data > MAX_VALUE_LEN")
  case True
  then show ?thesis using assms by (auto simp: store_def)
next
  case False
  then have "data \<noteq> []" "length data \<le> MAX_VALUE_LEN" by auto
  from store_holds [OF assms this] obtain p' r where s: "store data p = Some (p', r)"
    "case r of Inl e \<Rightarrow> holds p' h \<and> 2 ^ 64 - 1 \<le> unat (pf_next_id (in_file (inner p))) + length (split_frags data)
       | Inr l \<Rightarrow> h l = None \<and> holds p' (h(l \<mapsto> data))" by blast
  then show ?thesis by (cases r) auto
qed

interpretation overflow: blob_store holds store load pool_free
  by unfold_locales (rule store_law load_holds free_holds; assumption)+

section \<open>Properties\<close>





end
