(* ===== verification/Pool_Grace.thy ===== *)
theory Pool_Grace
  imports Pool_Store
begin

text \<open>
  A freed value stays readable for a moment: its records go to the quarantine, and the next operation
  advances the epoch at most once, which is not past the horizon of the new entry. The table layer
  relies on this when it frees a replaced value before it decodes the old row.
\<close>

section \<open>Operations that do not look at the quarantine\<close>

abbreviation with_quarantine :: "quarantined list \<Rightarrow> inner \<Rightarrow> inner" where
  "with_quarantine q i \<equiv> i\<lparr>quarantine := q\<rparr>"

lemma release_frag_quarantine:
  "release_frag fg (with_quarantine q i) = map_option (with_quarantine q) (release_frag fg i)"
  by (simp add: release_frag_def image_of_def set_image_def Let_def split: option.splits prod.splits)

lemma release_frags_quarantine:
  "release_frags fgs (with_quarantine q i) = map_option (with_quarantine q) (release_frags fgs i)"
  by (induction fgs arbitrary: i) (auto simp: release_frag_quarantine split: option.splits)

lemma drop_frame_quarantine:
  "drop_frame f (with_quarantine q i) = map_option (with_quarantine q) (drop_frame f i)"
  by (simp add: drop_frame_def Let_def split: option.splits)

lemma victim_frame_quarantine:
  "victim_frame (with_quarantine q i) = map_option (\<lambda>(i, f). (with_quarantine q i, f)) (victim_frame i)"
proof -
  have "drop_frame f (i\<lparr>quarantine := q, cooling := c\<rparr>) = map_option (with_quarantine q) (drop_frame f (i\<lparr>cooling := c\<rparr>))" for f c
    using drop_frame_quarantine [of f q "i\<lparr>cooling := c\<rparr>"] by (cases i) simp
  moreover have "drop_frame f (i\<lparr>quarantine := q, rng := r, frames := fs\<rparr>) = map_option (with_quarantine q) (drop_frame f (i\<lparr>rng := r, frames := fs\<rparr>))" for f r fs
    using drop_frame_quarantine [of f q "i\<lparr>rng := r, frames := fs\<rparr>"] by (cases i) simp
  ultimately show ?thesis
    by (simp add: victim_frame_def next_rand_def Let_def split_def option.map_comp o_def split: option.splits list.splits)
qed

lemma fix_page_quarantine:
  "fix_page p (with_quarantine q i) = map_option (\<lambda>(i, r). (with_quarantine q i, r)) (fix_page p i)"
proof (cases "index i p")
  case None
  show ?thesis
  proof (cases "victim_frame i")
    case None
    then show ?thesis using \<open>index i p = None\<close> by (simp add: fix_page_def fault_in_def victim_frame_quarantine)
  next
    case (Some jf)
    obtain j f where jf: "victim_frame i = Some (j, f)" using Some by (cases jf) simp
    show ?thesis using \<open>index i p = None\<close>
      by (simp add: fix_page_def fault_in_def victim_frame_quarantine jf install_def Let_def split: option.splits sum.splits prod.splits)
  qed
next
  case (Some f)
  then show ?thesis by (simp add: fix_page_def Let_def)
qed

lemma load_loop_quarantine:
  "load_loop n tot out cur (with_quarantine q i) = map_option (\<lambda>(i, r). (with_quarantine q i, r)) (load_loop n tot out cur i)"
proof (induction n arbitrary: tot out cur i)
  case (Suc n)
  show ?case
  proof (cases "fix_page (fst cur) i")
    case None
    then show ?thesis by (simp add: fix_page_quarantine)
  next
    case (Some jr)
    obtain j r where jr: "fix_page (fst cur) i = Some (j, r)" using Some by (cases jr) simp
    show ?thesis
      by (simp add: fix_page_quarantine jr image_of_def Suc.IH split: option.splits sum.splits prod.splits)
  qed
qed simp

section \<open>The next operation keeps the new entry\<close>

lemma reclaim_loop_same: "reclaim_loop current kept qs (with_quarantine y j) = reclaim_loop current kept qs j"
  by (induction qs arbitrary: kept) simp_all

lemma reclaim_loop_last:
  assumes "\<not> q_epoch q + 1 < current"
  shows "reclaim_loop current kept (qs @ [q]) i =
    map_option (\<lambda>i. with_quarantine (quarantine i @ [q]) i) (reclaim_loop current kept qs i)"
proof (induction qs arbitrary: kept i)
  case Nil
  then show ?case using assms by simp
next
  case (Cons x qs)
  have "release_frags (q_frags x) (with_quarantine (kept @ qs @ [q]) i) =
      map_option (with_quarantine (kept @ qs @ [q])) (release_frags (q_frags x) (with_quarantine (kept @ qs) i))"
    using release_frags_quarantine [of "q_frags x" "kept @ qs @ [q]" "with_quarantine (kept @ qs) i"] by simp
  then show ?case using Cons by (auto simp: reclaim_loop_same split: option.splits)
qed

lemma load_loop_keeps_quarantine:
  assumes "load_loop n tot out cur i = Some (j, r)"
  shows "quarantine j = quarantine i"
proof -
  have "load_loop n tot out cur (with_quarantine (quarantine i) i) = Some (with_quarantine (quarantine i) j, r)"
    unfolding load_loop_quarantine assms by simp
  then have "j = with_quarantine (quarantine i) j" using assms by simp
  moreover have "quarantine (with_quarantine (quarantine i) j) = quarantine i" by simp
  ultimately show ?thesis by metis
qed

lemma try_reclaim_once: "global_epoch (fst (try_reclaim m)) \<le> global_epoch m + 1"
  by (simp add: try_reclaim_def reclaim_scan_def reclaim_finish_def Let_def split: prod.splits)

lemma load_after_free:
  assumes h: "holds p h" and l: "h l = Some data" and f: "pool_free l p = Some p'"
  shows "\<exists>p''. load l p' = Some (p'', Inr data) \<and> holds p'' (h(l := None))"
proof -
  from h obtain G where g: "holds_with G (inner p) h" by (auto simp: holds_def)
  from free_quarantines [OF g l] obtain fr where fr: "set fr \<subseteq> set (G l)" "distinct fr"
    and p': "p' = p\<lparr>inner := (inner p)\<lparr>quarantine := quarantine (inner p) @ [\<lparr>q_frags = fr, q_epoch = global_epoch (epoch p)\<rparr>]\<rparr>\<rparr>"
    using f by auto
  let ?q = "\<lparr>q_frags = fr, q_epoch = global_epoch (epoch p)\<rparr>"
  let ?late = "\<lambda>i. with_quarantine (quarantine i @ [?q]) i"
  let ?e = "fst (try_reclaim (epoch p))"
  have keep: "\<not> q_epoch ?q + 1 < global_epoch ?e" using try_reclaim_once [of "epoch p"] by simp
  have rq: "reclaim_quarantine p' = map_option (\<lambda>r. r\<lparr>inner := ?late (inner r)\<rparr>) (reclaim_quarantine p)"
    unfolding reclaim_quarantine_def p' Let_def using reclaim_loop_last [OF keep] reclaim_loop_same
    by (simp add: option.map_comp o_def)
  from load_holds_with [OF g l] obtain p1 where p1: "load l p = Some (p1, Inr data)" "holds_with G (inner p1) h" by blast
  from p1(1) obtain r i t where r: "reclaim_quarantine p = Some r"
    "load_loop MAX_CHAIN_FRAGS None [] (loc_page l, loc_slot l) (inner r) = Some (i, Inr (t, data))" "length data = unat t"
    "p1 = r\<lparr>inner := i\<lparr>in_stats := (in_stats i)\<lparr>loads := loads (in_stats i) + 1\<rparr>\<rparr>\<rparr>"
    by (auto simp: load_def split: option.splits prod.splits sum.splits if_splits)
  have "quarantine i = quarantine (inner r)" using load_loop_keeps_quarantine [OF r(2)] .
  then have "load l p' = Some (p1\<lparr>inner := ?late (inner p1)\<rparr>, Inr data)"
    using rq r by (simp add: load_def load_loop_quarantine)
  moreover have "holds (p1\<lparr>inner := ?late (inner p1)\<rparr>) (h(l := None))"
    using quarantine_holds [OF p1(2) l fr] by (auto simp: holds_def)
  ultimately show ?thesis by blast
qed

section \<open>The interface with a grace period\<close>

locale graceful_store = blob_store +
  assumes late_fetch: "holds p h \<Longrightarrow> h l = Some data \<Longrightarrow> release l p = Some p' \<Longrightarrow>
    \<exists>p''. fetch l p' = Some (p'', Inr data) \<and> holds p'' (h(l := None))"
begin

text \<open>Replace a value: put the new one, release the old one, and read the old one once more.\<close>

lemma replace_and_read:
  assumes "holds p h" "h l = Some old" "put data p = Some (p1, Inr k)"
  shows "\<exists>p2 p3. release l p1 = Some p2 \<and> fetch l p2 = Some (p3, Inr old) \<and> k \<noteq> l \<and> holds p3 ((h(k \<mapsto> data))(l := None))"
proof -
  have k: "h k = None" "holds p1 (h(k \<mapsto> data))" using put_law [OF assms(1), of data] assms(3) by auto
  then have l: "(h(k \<mapsto> data)) l = Some old" "k \<noteq> l" using assms(2) by auto
  from release_law [OF k(2) l(1)] obtain p2 where "release l p1 = Some p2" by blast
  with late_fetch [OF k(2) l(1) this] l(2) show ?thesis by blast
qed

end

interpretation overflow: graceful_store holds store load pool_free
  by unfold_locales (rule load_after_free; assumption)

end
