(* ===== verification/Table.thy ===== *)
theory Table
  imports BTree Key_Codec Date_Time Table_Types Pool_Grace "HOL-Library.Monad_Syntax"
begin

text \<open>
  The table layer (\<open>crates/engine/src/table.rs\<close>): rows in a B+ tree under their encoded primary key, wide
  rows in the overflow pool, secondary indexes, defaults and validation, the auto-increment counter.

  \<^item> The pool is shared by all tables and is passed along; \<open>t_pool\<close> says whether one is attached.
  \<^item> \<open>None\<close> is a call that does not come back: a panic (an index out of range, a truncated key) or an insertion
    that retries for ever. Otherwise the new table and pool come with the call's result.
  \<^item> Integer arithmetic wraps as in a release build. How a value is printed in a duplicate-key message is the
    argument \<open>disp\<close>.
\<close>

type_synonym row = "datum list"

record secondary_index =
  si_def :: index_def
  si_col :: nat
  si_tree :: btree

record auto_inc_state =
  ai_col :: nat
  ai_next :: u64

record table =
  t_def :: table_def
  t_tree :: btree
  t_indexes :: "secondary_index list"
  t_pool :: bool
  t_auto_inc :: "auto_inc_state option"
  t_stats :: "table_stats option"
  t_ephemeral :: bool

type_synonym 'a table_op = "table \<Rightarrow> buffer_pool \<Rightarrow> (table \<times> buffer_pool \<times> 'a result) option"

definition MAX_INLINE_ROW :: nat where "MAX_INLINE_ROW = 1024"

definition position :: "('a \<Rightarrow> bool) \<Rightarrow> 'a list \<Rightarrow> nat option" where
  "position P xs = (if \<exists>x \<in> set xs. P x then Some (length (takeWhile (\<lambda>x. \<not> P x) xs)) else None)"

definition at :: "'a list \<Rightarrow> nat \<Rightarrow> 'a option" where
  "at xs i = (if i < length xs then Some (xs ! i) else None)"

section \<open>Creation\<close>

definition auto_inc_for :: "table_def \<Rightarrow> auto_inc_state option" where
  "auto_inc_for def = map_option (\<lambda>c. \<lparr>ai_col = c, ai_next = 1\<rparr>) (position cd_auto_increment (columns (td_schema def)))"

definition table_new :: "table_def \<Rightarrow> table" where
  "table_new def =
     \<lparr>t_def = def, t_tree = btree_new,
      t_indexes = List.map_filter (\<lambda>d. map_option (\<lambda>c. \<lparr>si_def = d, si_col = c, si_tree = btree_new\<rparr>)
        (index_of (td_schema def) (ix_column d))) (td_indexes def),
      t_pool = False, t_auto_inc = auto_inc_for def, t_stats = td_stats def, t_ephemeral = False\<rparr>"

definition new_ephemeral :: "string \<Rightarrow> schema \<Rightarrow> table" where
  "new_ephemeral name s =
     \<lparr>t_def = \<lparr>td_name = name, td_schema = s, td_indexes = [], td_foreign_keys = [], td_stats = None\<rparr>,
      t_tree = btree_new, t_indexes = [], t_pool = False, t_auto_inc = None, t_stats = None, t_ephemeral = True\<rparr>"

definition set_pool :: "table \<Rightarrow> table" where
  "set_pool t = t\<lparr>t_pool := True\<rparr>"

text \<open>An insertion or a replacement that returns.\<close>

definition tree_insert :: "key \<Rightarrow> val \<Rightarrow> btree \<Rightarrow> (bool \<times> btree) option" where
  "tree_insert k v t = Option.bind (btree_insert k v t) (\<lambda>r. r)"

definition tree_upsert :: "key \<Rightarrow> val \<Rightarrow> btree \<Rightarrow> (val option \<times> btree) option" where
  "tree_upsert k v t = Option.bind (btree_upsert k v t) (\<lambda>r. r)"

text \<open>\<open>match update_in_place { Some(prev) => Some(prev), None => upsert }\<close>\<close>

definition tree_put :: "key \<Rightarrow> val \<Rightarrow> btree \<Rightarrow> (val option \<times> btree) option" where
  "tree_put k v t = do {
     (prev, t) \<leftarrow> update_in_place k v t;
     case prev of Some b \<Rightarrow> Some (Some b, t) | None \<Rightarrow> tree_upsert k v t }"

section \<open>Rows\<close>

definition encode_row :: "row \<Rightarrow> bytes" where
  "encode_row r = concat (map encode r)"

definition decode_row :: "table \<Rightarrow> bytes \<Rightarrow> row result" where
  "decode_row t buf =
     rbind (decode_n decode (length (columns (td_schema (t_def t)))) buf 0) (\<lambda>(r, off).
       if off \<noteq> length buf then Inl (Corrupted ''row trailing bytes'') else Inr r)"

definition key_of :: "table \<Rightarrow> row \<Rightarrow> bytes result option" where
  "key_of t r = map_option encode_key (at r (pk_idx (td_schema (t_def t))))"

definition append_ephemeral :: "u64 \<Rightarrow> row \<Rightarrow> table \<Rightarrow> (table \<times> unit result) option" where
  "append_ephemeral i r t =
     (case encode_key (DInt i) of
        Inl e \<Rightarrow> Some (t, Inl e)
      | Inr k \<Rightarrow> map_option (\<lambda>(_, tr). (t\<lparr>t_tree := tr\<rparr>, Inr ())) (tree_insert k (encode_row r) (t_tree t)))"

definition resolve_value :: "table \<Rightarrow> bytes \<Rightarrow> buffer_pool \<Rightarrow> (buffer_pool \<times> bytes result) option" where
  "resolve_value t raw p =
     (if \<not> is_locator raw then Some (p, Inr raw)
      else if \<not> t_pool t then Some (p, Inl (Corrupted ''overflow value without pool''))
      else case locator_decode raw of Inl e \<Rightarrow> Some (p, Inl e) | Inr l \<Rightarrow> load l p)"

definition decode_stored :: "table \<Rightarrow> bytes \<Rightarrow> buffer_pool \<Rightarrow> (buffer_pool \<times> row result) option" where
  "decode_stored t raw p =
     (if \<not> is_locator raw then Some (p, decode_row t raw)
      else map_option (\<lambda>(p, r). (p, rbind r (decode_row t))) (resolve_value t raw p))"

definition alloc_value :: "table \<Rightarrow> bytes \<Rightarrow> buffer_pool \<Rightarrow> (buffer_pool \<times> bytes result) option" where
  "alloc_value t full p =
     (if length full \<le> MAX_INLINE_ROW \<or> \<not> t_pool t then Some (p, Inr full)
      else map_option (\<lambda>(p, r). (p, rbind r (\<lambda>l. Inr (locator_encode l)))) (store full p))"

definition free_value :: "table \<Rightarrow> bytes \<Rightarrow> buffer_pool \<Rightarrow> buffer_pool option" where
  "free_value t raw p =
     (if \<not> is_locator raw \<or> \<not> t_pool t then Some p
      else case locator_decode raw of Inl _ \<Rightarrow> Some p | Inr l \<Rightarrow> pool_free l p)"

definition free_prev :: "table \<Rightarrow> bytes option \<Rightarrow> buffer_pool \<Rightarrow> buffer_pool option" where
  "free_prev t prev p = (case prev of None \<Rightarrow> Some p | Some b \<Rightarrow> free_value t b p)"

section \<open>Defaults, validation, the auto-increment counter\<close>

definition default_of :: "column_def \<Rightarrow> datum" where
  "default_of c = (case cd_default c of None \<Rightarrow> DNull | Some d \<Rightarrow> d)"

definition fill_defaults :: "table \<Rightarrow> row \<Rightarrow> row" where
  "fill_defaults t r = r @ map default_of (drop (length r) (columns (td_schema (t_def t))))"

definition coerce :: "column_type \<Rightarrow> datum \<Rightarrow> datum" where
  "coerce ty d =
     (if ty = TDateTime \<or> ty = TTimestamp then
        (case d of
           DText s \<Rightarrow> (case parse_datetime_str s of Some us \<Rightarrow> DDateTime us | None \<Rightarrow> d)
         | DInt sec \<Rightarrow> DDateTime (sec * 1000000)
         | _ \<Rightarrow> d)
      else if ty = TBool then (case d of DInt v \<Rightarrow> DBool (v \<noteq> 0) | _ \<Rightarrow> d)
      else if ty = TInt \<or> ty = TBigInt then (case d of DBool b \<Rightarrow> DInt (if b then 1 else 0) | _ \<Rightarrow> d)
      else d)"

definition validate_cell :: "column_def \<Rightarrow> datum \<Rightarrow> datum result" where
  "validate_cell c d =
     (if d = DNull \<and> cd_default c = None then
        (if cd_nullable c then Inr DNull else Inl (NotNullViolation (cd_name c)))
      else
        let d = coerce (cd_type c) (if d = DNull then default_of c else d) in
        if accepts (cd_type c) d then Inr d
        else Inl (TypeMismatch (column_type_name (cd_type c)) (type_name d)))"

fun validate_cells :: "column_def list \<Rightarrow> row \<Rightarrow> row result" where
  "validate_cells (c # cs) (d # ds) =
     rbind (validate_cell c d) (\<lambda>d. rbind (validate_cells cs ds) (\<lambda>ds. Inr (d # ds)))"
| "validate_cells _ _ = Inr []"

definition validate_row :: "table \<Rightarrow> row \<Rightarrow> row result" where
  "validate_row t r =
     (let r = fill_defaults t r; n = length (columns (td_schema (t_def t))) in
      if length r \<noteq> n then Inl (ColumnCountMismatch n (length r))
      else validate_cells (columns (td_schema (t_def t))) r)"

definition saturating_add :: "u64 \<Rightarrow> u64 \<Rightarrow> u64" where
  "saturating_add a b = (if unat a + unat b < 2 ^ 64 then a + b else - 1)"

fun max_int_key :: "key list \<Rightarrow> u64 option \<Rightarrow> u64 option option" where
  "max_int_key [] m = Some m"
| "max_int_key (k # ks) m =
     (case decode_key k of
        None \<Rightarrow> None
      | Some (Inr (DInt v)) \<Rightarrow>
          max_int_key ks (if 0 \<le> sint v then Some (case m of None \<Rightarrow> v | Some m \<Rightarrow> max m v) else m)
      | Some _ \<Rightarrow> max_int_key ks m)"

definition refresh_auto_inc :: "table \<Rightarrow> table option" where
  "refresh_auto_inc t =
     (case t_auto_inc t of
        None \<Rightarrow> Some t
      | Some st \<Rightarrow> do {
          es \<leftarrow> scan_all (t_tree t);
          m \<leftarrow> max_int_key (map fst es) None;
          Some (t\<lparr>t_auto_inc := Some (st\<lparr>ai_next := (case m of None \<Rightarrow> 1 | Some m \<Rightarrow> saturating_add m 1)\<rparr>)\<rparr>)
        })"

definition assign_auto_inc :: "row \<Rightarrow> table \<Rightarrow> table \<times> row result" where
  "assign_auto_inc r t =
     (case t_auto_inc t of
        None \<Rightarrow> (t, Inr r)
      | Some st \<Rightarrow>
          if ai_col st \<ge> length r then (t, Inl (Corrupted ''auto-inc column out of range''))
          else
            case r ! ai_col st of
              DNull \<Rightarrow>
                if unat (ai_next st) > 2 ^ 63 - 1 then (t, Inl (NotSupported ''auto-increment exhausted''))
                else (t\<lparr>t_auto_inc := Some (st\<lparr>ai_next := ai_next st + 1\<rparr>)\<rparr>, Inr (r[ai_col st := DInt (ai_next st)]))
            | DInt v \<Rightarrow>
                if 0 \<le> sint v \<and> v \<ge> ai_next st
                then (t\<lparr>t_auto_inc := Some (st\<lparr>ai_next := saturating_add v 1\<rparr>)\<rparr>, Inr r)
                else (t, Inr r)
            | _ \<Rightarrow> (t, Inr r))"

section \<open>Secondary indexes\<close>

text \<open>A loop over the indexes that stops at the first error.\<close>

fun each_index :: "(secondary_index \<Rightarrow> (secondary_index \<times> unit result) option) \<Rightarrow> secondary_index list \<Rightarrow>
    (secondary_index list \<times> unit result) option" where
  "each_index f [] = Some ([], Inr ())"
| "each_index f (x # xs) =
     (case f x of
        None \<Rightarrow> None
      | Some (x, Inl e) \<Rightarrow> Some (x # xs, Inl e)
      | Some (x, Inr _) \<Rightarrow> map_option (\<lambda>(xs, r). (x # xs, r)) (each_index f xs))"

definition index_insert :: "row \<Rightarrow> datum \<Rightarrow> secondary_index \<Rightarrow> (secondary_index \<times> unit result) option" where
  "index_insert r pk x = do {
     sec \<leftarrow> at r (si_col x);
     case encode_sec_index_key sec pk of
       Inl e \<Rightarrow> Some (x, Inl e)
     | Inr k \<Rightarrow> map_option (\<lambda>(_, tr). (x\<lparr>si_tree := tr\<rparr>, Inr ())) (tree_insert k [] (si_tree x)) }"

definition index_upsert :: "row \<Rightarrow> datum \<Rightarrow> secondary_index \<Rightarrow> (secondary_index \<times> unit result) option" where
  "index_upsert r pk x = do {
     sec \<leftarrow> at r (si_col x);
     case encode_sec_index_key sec pk of
       Inl e \<Rightarrow> Some (x, Inl e)
     | Inr k \<Rightarrow> map_option (\<lambda>(_, tr). (x\<lparr>si_tree := tr\<rparr>, Inr ())) (tree_upsert k [] (si_tree x)) }"

definition index_remove :: "row \<Rightarrow> datum \<Rightarrow> secondary_index \<Rightarrow> (secondary_index \<times> unit result) option" where
  "index_remove r pk x = do {
     sec \<leftarrow> at r (si_col x);
     case encode_sec_index_key sec pk of
       Inl e \<Rightarrow> Some (x, Inl e)
     | Inr k \<Rightarrow> map_option (\<lambda>(_, tr). (x\<lparr>si_tree := tr\<rparr>, Inr ())) (btree_remove k (si_tree x)) }"

text \<open>Moving an entry when the indexed value changed; \<open>add\<close> is one of the above.\<close>

definition index_move ::
  "(row \<Rightarrow> datum \<Rightarrow> secondary_index \<Rightarrow> (secondary_index \<times> unit result) option) \<Rightarrow> row \<Rightarrow> row \<Rightarrow> datum \<Rightarrow>
    secondary_index \<Rightarrow> (secondary_index \<times> unit result) option" where
  "index_move ins old new pk x = do {
     a \<leftarrow> at old (si_col x);
     b \<leftarrow> at new (si_col x);
     if datum_eq a b then Some (x, Inr ())
     else do {
       (x, r) \<leftarrow> index_remove old pk x;
       case r of Inl e \<Rightarrow> Some (x, Inl e) | Inr _ \<Rightarrow> ins new pk x } }"

text \<open>\<open>if let Ok(k) = ...\<close>: an error is ignored.\<close>

definition lenient :: "('a \<times> unit result) option \<Rightarrow> ('a \<times> unit result) option" where
  "lenient m = map_option (\<lambda>(x, _). (x, Inr ())) m"

definition index_move_lenient :: "row \<Rightarrow> row \<Rightarrow> datum \<Rightarrow> secondary_index \<Rightarrow> (secondary_index \<times> unit result) option" where
  "index_move_lenient old new pk x = do {
     a \<leftarrow> at old (si_col x);
     b \<leftarrow> at new (si_col x);
     if datum_eq a b then Some (x, Inr ())
     else do { (x, _) \<leftarrow> index_remove old pk x; lenient (index_upsert new pk x) } }"

definition on_indexes :: "(secondary_index \<Rightarrow> (secondary_index \<times> unit result) option) \<Rightarrow> table \<Rightarrow> (table \<times> unit result) option" where
  "on_indexes f t = map_option (\<lambda>(xs, r). (t\<lparr>t_indexes := xs\<rparr>, r)) (each_index f (t_indexes t))"

section \<open>Operations on rows\<close>

definition pk_value :: "table \<Rightarrow> row \<Rightarrow> datum option" where
  "pk_value t r = at r (pk_idx (td_schema (t_def t)))"

definition duplicate :: "(datum \<Rightarrow> string) \<Rightarrow> key \<Rightarrow> 'a result option" where
  "duplicate disp key = map_option (\<lambda>r. rbind r (\<lambda>pk. Inl (DuplicateKey (disp pk)))) (decode_key key)"

definition insert_row :: "(datum \<Rightarrow> string) \<Rightarrow> row \<Rightarrow> unit table_op" where
  "insert_row disp r t p = do {
     k \<leftarrow> key_of t r;
     case k of
       Inl e \<Rightarrow> Some (t, p, Inl e)
     | Inr key \<Rightarrow> do {
         cur \<leftarrow> btree_get (t_tree t) key;
         if cur \<noteq> None then map_option (\<lambda>e. (t, p, e)) (duplicate disp key)
         else do {
           (p, s) \<leftarrow> alloc_value t (encode_row r) p;
           case s of
             Inl e \<Rightarrow> Some (t, p, Inl e)
           | Inr storable \<Rightarrow> do {
               (new, tr) \<leftarrow> tree_insert key storable (t_tree t);
               if \<not> new then do {
                 p \<leftarrow> free_value t storable p;
                 map_option (\<lambda>e. (t\<lparr>t_tree := tr\<rparr>, p, e)) (duplicate disp key) }
               else if t_indexes t = [] then Some (t\<lparr>t_tree := tr\<rparr>, p, Inr ())
               else do {
                 pk \<leftarrow> pk_value t r;
                 (t, res) \<leftarrow> on_indexes (index_insert r pk) (t\<lparr>t_tree := tr\<rparr>);
                 Some (t, p, res) } } } } }"

text \<open>What follows a replacement in the tree: the displaced value is freed, then decoded, then the indexes
  are brought up to date. \<open>ins\<close> is what happens when nothing was displaced.\<close>

definition settle ::
  "(row \<Rightarrow> datum \<Rightarrow> secondary_index \<Rightarrow> (secondary_index \<times> unit result) option) \<Rightarrow> row \<Rightarrow> bytes option \<Rightarrow> row option table_op" where
  "settle ins r prev t p = do {
     p \<leftarrow> free_prev t prev p;
     (p, old) \<leftarrow> (case prev of
                    None \<Rightarrow> Some (p, Inr None)
                  | Some b \<Rightarrow> map_option (\<lambda>(p, w). (p, rbind w (\<lambda>w. Inr (Some w)))) (decode_stored t b p));
     case old of
       Inl e \<Rightarrow> Some (t, p, Inl e)
     | Inr old \<Rightarrow>
         if t_indexes t = [] then Some (t, p, Inr old)
         else do {
           pk \<leftarrow> pk_value t r;
           (t, res) \<leftarrow> on_indexes (case old of None \<Rightarrow> ins r pk | Some w \<Rightarrow> index_move index_insert w r pk) t;
           Some (t, p, rbind res (\<lambda>_. Inr old)) } }"

definition upsert_row :: "row \<Rightarrow> row option table_op" where
  "upsert_row r t p = do {
     k \<leftarrow> key_of t r;
     case k of
       Inl e \<Rightarrow> Some (t, p, Inl e)
     | Inr key \<Rightarrow> do {
         (p, s) \<leftarrow> alloc_value t (encode_row r) p;
         case s of
           Inl e \<Rightarrow> Some (t, p, Inl e)
         | Inr storable \<Rightarrow> do {
             (prev, tr) \<leftarrow> tree_put key storable (t_tree t);
             settle index_insert r prev (t\<lparr>t_tree := tr\<rparr>) p } } }"

definition update_row :: "row \<Rightarrow> row option table_op" where
  "update_row r t p = do {
     k \<leftarrow> key_of t r;
     case k of
       Inl e \<Rightarrow> Some (t, p, Inl e)
     | Inr key \<Rightarrow> do {
         (p, s) \<leftarrow> alloc_value t (encode_row r) p;
         case s of
           Inl e \<Rightarrow> Some (t, p, Inl e)
         | Inr storable \<Rightarrow> do {
             (prev, tr) \<leftarrow> update_in_place key storable (t_tree t);
             settle (\<lambda>_ _ x. Some (x, Inr ())) r prev (t\<lparr>t_tree := tr\<rparr>) p } } }"

definition delete_row :: "datum \<Rightarrow> row option table_op" where
  "delete_row d t p =
     (case encode_key d of
        Inl e \<Rightarrow> Some (t, p, Inl e)
      | Inr key \<Rightarrow> do {
          (prev, tr) \<leftarrow> btree_remove key (t_tree t);
          let t = t\<lparr>t_tree := tr\<rparr>;
          case prev of
            None \<Rightarrow> Some (t, p, Inr None)
          | Some b \<Rightarrow> do {
              p \<leftarrow> free_value t b p;
              (p, r) \<leftarrow> decode_stored t b p;
              case r of
                Inl e \<Rightarrow> Some (t, p, Inl e)
              | Inr r \<Rightarrow> do {
                  (t, res) \<leftarrow> on_indexes (index_remove r d) t;
                  Some (t, p, rbind res (\<lambda>_. Inr (Some r))) } } })"

definition get_row :: "table \<Rightarrow> datum \<Rightarrow> buffer_pool \<Rightarrow> (buffer_pool \<times> row option result) option" where
  "get_row t d p =
     (case encode_key d of
        Inl e \<Rightarrow> Some (p, Inl e)
      | Inr key \<Rightarrow> do {
          cur \<leftarrow> btree_get (t_tree t) key;
          case cur of
            None \<Rightarrow> Some (p, Inr None)
          | Some b \<Rightarrow> map_option (\<lambda>(p, r). (p, rbind r (\<lambda>r. Inr (Some r)))) (decode_stored t b p) })"

fun decode_entries :: "table \<Rightarrow> (key \<times> val) list \<Rightarrow> buffer_pool \<Rightarrow> (buffer_pool \<times> (datum \<times> row) list result) option" where
  "decode_entries t [] p = Some (p, Inr [])"
| "decode_entries t ((k, v) # es) p = do {
     d \<leftarrow> decode_key k;
     case d of
       Inl e \<Rightarrow> Some (p, Inl e)
     | Inr d \<Rightarrow> do {
         (p, r) \<leftarrow> decode_stored t v p;
         case r of
           Inl e \<Rightarrow> Some (p, Inl e)
         | Inr r \<Rightarrow> map_option (\<lambda>(p, rs). (p, rbind rs (\<lambda>rs. Inr ((d, r) # rs)))) (decode_entries t es p) } }"

definition scan :: "table \<Rightarrow> buffer_pool \<Rightarrow> (buffer_pool \<times> (datum \<times> row) list result) option" where
  "scan t p = Option.bind (scan_all (t_tree t)) (\<lambda>es. decode_entries t es p)"

definition bound_key :: "(datum \<Rightarrow> bytes result) \<Rightarrow> (datum \<times> bool) option \<Rightarrow> bytes option result" where
  "bound_key enc b = (case b of None \<Rightarrow> Inr None | Some (d, _) \<Rightarrow> rbind (enc d) (\<lambda>k. Inr (Some k)))"

definition bound_incl :: "(datum \<times> bool) option \<Rightarrow> bool" where
  "bound_incl b = (case b of None \<Rightarrow> True | Some (_, i) \<Rightarrow> i)"

definition scan_range ::
  "table \<Rightarrow> (datum \<times> bool) option \<Rightarrow> (datum \<times> bool) option \<Rightarrow> buffer_pool \<Rightarrow> (buffer_pool \<times> (datum \<times> row) list result) option" where
  "scan_range t lo hi p =
     (case (bound_key encode_key lo, bound_key encode_key hi) of
        (Inl e, _) \<Rightarrow> Some (p, Inl e)
      | (_, Inl e) \<Rightarrow> Some (p, Inl e)
      | (Inr l, Inr h) \<Rightarrow>
          Option.bind (btree_range (t_tree t) l (bound_incl lo) h (bound_incl hi)) (\<lambda>es. decode_entries t es p))"

section \<open>Index maintenance and index scans\<close>

fun build_index :: "nat \<Rightarrow> nat \<Rightarrow> row list \<Rightarrow> btree \<Rightarrow> (btree \<times> unit result) option" where
  "build_index col pkc [] tr = Some (tr, Inr ())"
| "build_index col pkc (r # rs) tr = do {
     sec \<leftarrow> at r col;
     pk \<leftarrow> at r pkc;
     case encode_sec_index_key sec pk of
       Inl e \<Rightarrow> Some (tr, Inl e)
     | Inr k \<Rightarrow> do { (_, tr) \<leftarrow> tree_insert k [] tr; build_index col pkc rs tr } }"

definition add_index :: "string \<Rightarrow> string \<Rightarrow> unit table_op" where
  "add_index name column t p =
     (case index_of (td_schema (t_def t)) column of
        None \<Rightarrow> Some (t, p, Inl (ColumnNotFound column))
      | Some col \<Rightarrow>
          if col = pk_idx (td_schema (t_def t)) then
            Some (t, p, Inl (InvalidSchema ''cannot create secondary index on primary key''))
          else if \<exists>x \<in> set (t_indexes t). ix_name (si_def x) = name then Some (t, p, Inl (IndexExists name))
          else do {
            (p, rows) \<leftarrow> scan t p;
            case rows of
              Inl e \<Rightarrow> Some (t, p, Inl e)
            | Inr rows \<Rightarrow> do {
                (tr, r) \<leftarrow> build_index col (pk_idx (td_schema (t_def t))) (map snd rows) btree_new;
                case r of
                  Inl e \<Rightarrow> Some (t, p, Inl e)
                | Inr _ \<Rightarrow>
                    Some (t\<lparr>t_indexes := t_indexes t @
                      [\<lparr>si_def = \<lparr>ix_name = name, ix_column = column\<rparr>, si_col = col, si_tree = tr\<rparr>]\<rparr>, p, Inr ()) } })"

definition drop_index :: "string \<Rightarrow> table \<Rightarrow> table \<times> unit result" where
  "drop_index name t =
     (case position (\<lambda>x. ix_name (si_def x) = name) (t_indexes t) of
        None \<Rightarrow> (t, Inl (IndexNotFound name))
      | Some i \<Rightarrow> (t\<lparr>t_indexes := take i (t_indexes t) @ drop (Suc i) (t_indexes t)\<rparr>, Inr ()))"

definition secondary_indexes :: "table \<Rightarrow> index_def list" where
  "secondary_indexes t = map si_def (t_indexes t)"

definition has_index :: "string \<Rightarrow> table \<Rightarrow> bool" where
  "has_index name t = (\<exists>x \<in> set (t_indexes t). ix_name (si_def x) = name)"

definition table_def_of :: "table \<Rightarrow> table_def" where
  "table_def_of t = (t_def t)\<lparr>td_indexes := secondary_indexes t, td_stats := t_stats t\<rparr>"

definition set_stats :: "table_stats \<Rightarrow> table \<Rightarrow> table" where
  "set_stats st t = t\<lparr>t_stats := Some st\<rparr>"

definition below_lo :: "(datum \<times> bool) option \<Rightarrow> datum \<Rightarrow> bool" where
  "below_lo lo d = (case lo of None \<Rightarrow> False | Some (v, incl) \<Rightarrow> if incl then datum_lt d v else datum_le d v)"

definition beyond_hi :: "(datum \<times> bool) option \<Rightarrow> datum \<Rightarrow> bool" where
  "beyond_hi hi d = (case hi of None \<Rightarrow> False | Some (v, incl) \<Rightarrow> if incl then datum_cmp d v = Greater else datum_cmp d v \<noteq> Less)"

fun pick_pks :: "(datum \<times> bool) option \<Rightarrow> (datum \<times> bool) option \<Rightarrow> key list \<Rightarrow> datum list result option" where
  "pick_pks lo hi [] = Some (Inr [])"
| "pick_pks lo hi (k # ks) = do {
     d \<leftarrow> decode_sec_index_key k;
     case d of
       Inl e \<Rightarrow> Some (Inl e)
     | Inr (sec, pk) \<Rightarrow>
         if below_lo lo sec then pick_pks lo hi ks
         else if beyond_hi hi sec then Some (Inr [])
         else map_option (\<lambda>r. rbind r (\<lambda>pks. Inr (pk # pks))) (pick_pks lo hi ks) }"

definition scan_secondary ::
  "table \<Rightarrow> nat \<Rightarrow> (datum \<times> bool) option \<Rightarrow> (datum \<times> bool) option \<Rightarrow> datum list option result option" where
  "scan_secondary t col lo hi =
     (case find (\<lambda>x. si_col x = col) (t_indexes t) of
        None \<Rightarrow> Some (Inr None)
      | Some x \<Rightarrow> do {
          es \<leftarrow> btree_range (si_tree x) (map_option (\<lambda>(d, _). encode_sec_key_prefix d) lo) True None True;
          map_option (\<lambda>r. rbind r (\<lambda>pks. Inr (Some pks))) (pick_pks lo hi (map fst es)) })"

section \<open>Restoring and redo\<close>

definition restore_raw :: "bytes \<Rightarrow> table \<Rightarrow> (table \<times> unit result) option" where
  "restore_raw raw t =
     (case decode_row t raw of
        Inl e \<Rightarrow> Some (t, Inl e)
      | Inr r \<Rightarrow> do {
          k \<leftarrow> key_of t r;
          case k of
            Inl e \<Rightarrow> Some (t, Inl e)
          | Inr key \<Rightarrow> do {
              (_, tr) \<leftarrow> tree_upsert key raw (t_tree t);
              if t_indexes t = [] then Some (t\<lparr>t_tree := tr\<rparr>, Inr ())
              else do { pk \<leftarrow> pk_value t r; on_indexes (index_upsert r pk) (t\<lparr>t_tree := tr\<rparr>) } } })"

definition restore_kv :: "key \<Rightarrow> val \<Rightarrow> unit table_op" where
  "restore_kv key v t p = do {
     (p, r) \<leftarrow> decode_stored t v p;
     case r of
       Inl e \<Rightarrow> Some (t, p, Inl e)
     | Inr r \<Rightarrow> do {
         k \<leftarrow> key_of t r;
         case k of
           Inl e \<Rightarrow> Some (t, p, Inl e)
         | Inr want \<Rightarrow>
             if want \<noteq> key then Some (t, p, Inl (Corrupted ''snapshot key/row mismatch''))
             else do {
               (_, tr) \<leftarrow> tree_upsert key v (t_tree t);
               if t_indexes t = [] then Some (t\<lparr>t_tree := tr\<rparr>, p, Inr ())
               else do {
                 d \<leftarrow> decode_key key;
                 case d of
                   Inl e \<Rightarrow> Some (t\<lparr>t_tree := tr\<rparr>, p, Inl e)
                 | Inr pk \<Rightarrow> do {
                     (t, res) \<leftarrow> on_indexes (index_upsert r pk) (t\<lparr>t_tree := tr\<rparr>);
                     Some (t, p, res) } } } } }"

definition apply_raw :: "key \<Rightarrow> bytes \<Rightarrow> unit table_op" where
  "apply_raw key full t p = do {
     (p, s) \<leftarrow> alloc_value t full p;
     case s of
       Inl e \<Rightarrow> Some (t, p, Inl e)
     | Inr storable \<Rightarrow> do {
         (prev, tr) \<leftarrow> tree_put key storable (t_tree t);
         let t = t\<lparr>t_tree := tr\<rparr>;
         p \<leftarrow> free_prev t prev p;
         if t_indexes t = [] then Some (t, p, Inr ())
         else do {
           d \<leftarrow> decode_key key;
           case (d, decode_row t full) of
             (Inr pk, Inr new) \<Rightarrow> do {
               (p, old) \<leftarrow> (case prev of
                              None \<Rightarrow> Some (p, None)
                            | Some b \<Rightarrow> map_option (\<lambda>(p, w). (p, case w of Inl _ \<Rightarrow> None | Inr r \<Rightarrow> Some r)) (decode_stored t b p));
               (t, _) \<leftarrow> on_indexes (case old of
                                       Some w \<Rightarrow> index_move_lenient w new pk
                                     | None \<Rightarrow> (\<lambda>x. lenient (index_upsert new pk x))) t;
               Some (t, p, Inr ()) }
           | _ \<Rightarrow> Some (t, p, Inr ()) } } }"

definition remove_raw :: "key \<Rightarrow> table \<Rightarrow> buffer_pool \<Rightarrow> (table \<times> buffer_pool) option" where
  "remove_raw key t p = do {
     (prev, tr) \<leftarrow> btree_remove key (t_tree t);
     let t = t\<lparr>t_tree := tr\<rparr>;
     case prev of
       None \<Rightarrow> Some (t, p)
     | Some b \<Rightarrow> do {
         p \<leftarrow> free_value t b p;
         if t_indexes t = [] then Some (t, p)
         else do {
           d \<leftarrow> decode_key key;
           case d of
             Inl _ \<Rightarrow> Some (t, p)
           | Inr pk \<Rightarrow> do {
               (p, r) \<leftarrow> decode_stored t b p;
               case r of
                 Inl _ \<Rightarrow> Some (t, p)
               | Inr r \<Rightarrow> do {
                   (t, _) \<leftarrow> on_indexes (\<lambda>x. lenient (index_remove r pk x)) t;
                   Some (t, p) } } } } }"

end
