(* ===== verification/Table_Store.thy ===== *)
theory Table_Store
  imports Table
begin

text \<open>
  What the table layer keeps: every row is stored, inline or in the overflow pool, under the key of its
  primary-key column, no overflow value is shared, and every secondary index holds exactly one entry per
  row. \<open>table_ok t h m\<close> says that table \<open>t\<close> over the pool contents \<open>h\<close> holds the rows \<open>m\<close>.
\<close>

section \<open>The interface to the trees\<close>

locale map_tree =
  fixes inv :: "'t \<Rightarrow> bool" and content :: "'t \<Rightarrow> (key \<rightharpoonup> val)"
    and upd :: "key \<Rightarrow> val \<Rightarrow> 't \<Rightarrow> (val option \<times> 't) option"
    and ups :: "key \<Rightarrow> val \<Rightarrow> 't \<Rightarrow> (val option \<times> 't) option"
    and rem :: "key \<Rightarrow> 't \<Rightarrow> (val option \<times> 't) option"
  assumes upd_law: "inv t \<Longrightarrow> \<exists>t'. upd k v t = Some (content t k, t') \<and> inv t' \<and> content t' = (content t)(k := map_option (\<lambda>_. v) (content t k))"
    and ups_law: "inv t \<Longrightarrow> ups k v t = Some (p, t') \<Longrightarrow> p = content t k \<and> inv t' \<and> content t' = (content t)(k \<mapsto> v)"
    and rem_law: "inv t \<Longrightarrow> \<exists>t'. rem k t = Some (content t k, t') \<and> inv t' \<and> content t' = (content t)(k := None)"
begin

text \<open>An update in place, or an upsert when there was nothing to update, is an upsert.\<close>

lemma put_law:
  assumes "inv t" "Option.bind (upd k v t) (\<lambda>(p, t). case p of Some b \<Rightarrow> Some (Some b, t) | None \<Rightarrow> ups k v t) = Some (p, t')"
  shows "p = content t k \<and> inv t' \<and> content t' = (content t)(k \<mapsto> v)"
proof -
  from upd_law [OF assms(1), of k v] obtain t1 where
    t1: "upd k v t = Some (content t k, t1)" "inv t1" "content t1 = (content t)(k := map_option (\<lambda>_. v) (content t k))" by blast
  show ?thesis
  proof (cases "content t k")
    case None
    then have "content t1 = content t" using t1(3) by auto
    then show ?thesis using ups_law [OF t1(2), of k v p t'] assms(2) t1(1) None by simp
  next
    case (Some b)
    then show ?thesis using assms(2) t1 by (cases p) (auto simp: Some)
  qed
qed

lemma move_law:
  assumes "inv t" "rem a t = Some (q, t1)" "ups b v t1 = Some (p, t')"
  shows "inv t' \<and> dom (content t') = insert b (dom (content t) - {a})"
proof -
  have "inv t1" "content t1 = (content t)(a := None)" using rem_law [OF assms(1), of a] assms(2) by auto
  then show ?thesis using ups_law [OF _ assms(3)] by auto
qed

end

lemma tree_upsert_law:
  assumes "btree_ok t" "tree_upsert k v t = Some (p, t')"
  shows "p = abs_map t k \<and> btree_ok t' \<and> abs_map t' = (abs_map t)(k \<mapsto> v)"
proof -
  have r: "btree_upsert k v t = Some (Some (p, t'))" using assms(2) by (auto simp: tree_upsert_def bind_eq_Some_conv)
  show ?thesis using btree_upsert_step [OF assms(1) upsert_returned [OF assms(1) r], of v] r by auto
qed

lemma tree_insert_law:
  assumes "btree_ok t" "tree_insert k v t = Some (b, t')"
  shows "b = (abs_map t k = None) \<and> btree_ok t' \<and> abs_map t' = map_insert k v (abs_map t)"
proof -
  have r: "btree_insert k v t = Some (Some (b, t'))" using assms(2) by (auto simp: tree_insert_def bind_eq_Some_conv)
  show ?thesis using btree_insert_step [OF assms(1) insert_returned [OF assms(1) r], of v] r by auto
qed

interpretation bt: map_tree btree_ok abs_map update_in_place tree_upsert btree_remove
  by unfold_locales (fact update_in_place_step | fact btree_remove_step | rule tree_upsert_law; assumption)+

lemma tree_put_law:
  "btree_ok t \<Longrightarrow> tree_put k v t = Some (p, t') \<Longrightarrow> p = abs_map t k \<and> btree_ok t' \<and> abs_map t' = (abs_map t)(k \<mapsto> v)"
  unfolding tree_put_def by (rule bt.put_law)

section \<open>Stored values\<close>

definition row_ok :: "table \<Rightarrow> row \<Rightarrow> bool" where
  "row_ok t r \<longleftrightarrow> length r = length (columns (td_schema (t_def t))) \<and> pk_idx (td_schema (t_def t)) < length r \<and>
     list_all datum_ok r \<and> key_ok (r ! pk_idx (td_schema (t_def t))) \<and>
     (\<forall>x \<in> set (t_indexes t). si_col x < length r \<and> sec_ok (r ! si_col x))"

abbreviation pk_of :: "table \<Rightarrow> row \<Rightarrow> datum" where
  "pk_of t r \<equiv> r ! pk_idx (td_schema (t_def t))"

definition stored_as :: "table \<Rightarrow> (locator \<rightharpoonup> bytes) \<Rightarrow> bytes \<Rightarrow> bytes \<Rightarrow> bool" where
  "stored_as t h raw full \<longleftrightarrow>
     (if is_locator raw then t_pool t \<and> (\<exists>l. raw = locator_encode l \<and> h l = Some full) else raw = full)"

definition without :: "bytes option \<Rightarrow> (locator \<rightharpoonup> bytes) \<Rightarrow> (locator \<rightharpoonup> bytes)" where
  "without raw h = (\<lambda>l. if raw = Some (locator_encode l) then None else h l)"

lemma locator_facts [simp]: "is_locator (locator_encode l)" "locator_decode (locator_encode l) = Inr l"
  by (simp_all add: locator_decode_def locator_encode_def is_locator_def LOCATOR_LEN_def slice_def codec_simps)

lemma locator_encode_inject [simp]: "locator_encode l = locator_encode l' \<longleftrightarrow> l = l'"
  by (metis locator_facts(2) sum.inject(2))

lemma without_None [simp]: "without None h = h"
  by (simp add: without_def)

lemma without_locator: "without (Some (locator_encode l)) h = h(l := None)"
  by (auto simp: without_def fun_eq_iff)

lemma without_inline: "\<not> is_locator b \<Longrightarrow> without (Some b) h = h"
  by (auto simp: without_def fun_eq_iff)

lemma row_not_locator:
  assumes "r \<noteq> []"
  shows "\<not> is_locator (encode_row r)"
proof -
  obtain d r' where r: "r = d # r'" using assms by (cases r) auto
  obtain c e where e: "encode d = c # e" "c \<noteq> 0xFF" by (cases d) auto
  show ?thesis using e by (simp add: encode_row_def r is_locator_def LOCATOR_TAG_def)
qed

lemma decode_encode_row:
  assumes "length r = length (columns (td_schema (t_def t)))" "list_all datum_ok r"
  shows "decode_row t (encode_row r) = Inr r"
proof -
  have "at_off (encode_row r) 0 (concat (map encode r) @ [])" by (simp add: at_off_def encode_row_def)
  from datum_codec.list_round_at [OF assms(2) this] show ?thesis by (simp add: decode_row_def assms(1) encode_row_def)
qed

text \<open>A value handle depends on the definition of the table and on its pool only.\<close>

lemma decode_row_tree [simp]: "decode_row (t\<lparr>t_tree := x\<rparr>) = decode_row t"
  by (simp add: fun_eq_iff decode_row_def)

lemma value_ops_tree [simp]:
  "decode_stored (t\<lparr>t_tree := x\<rparr>) = decode_stored t"
  "free_value (t\<lparr>t_tree := x\<rparr>) = free_value t" "free_prev (t\<lparr>t_tree := x\<rparr>) = free_prev t"
  "stored_as (t\<lparr>t_tree := x\<rparr>) = stored_as t" "row_ok (t\<lparr>t_tree := x\<rparr>) = row_ok t"
  by (simp_all add: fun_eq_iff decode_stored_def resolve_value_def free_value_def free_prev_def stored_as_def row_ok_def split: option.splits)

lemma alloc_value_law:
  assumes "holds p h" "\<not> is_locator full"
  shows "\<exists>p' res. alloc_value t full p = Some (p', res) \<and>
    (case res of Inl e \<Rightarrow> holds p' h
     | Inr raw \<Rightarrow> (raw = full \<and> holds p' h \<or> (\<exists>l. raw = locator_encode l \<and> t_pool t \<and> h l = None \<and> holds p' (h(l \<mapsto> full)))))"
proof (cases "length full \<le> MAX_INLINE_ROW \<or> \<not> t_pool t")
  case True
  then show ?thesis using assms by (auto simp: alloc_value_def)
next
  case False
  from overflow.put_law [OF assms(1), of full] obtain p' r where
    "store full p = Some (p', r)" "case r of Inl e \<Rightarrow> holds p' h | Inr l \<Rightarrow> h l = None \<and> holds p' (h(l \<mapsto> full))" by blast
  then show ?thesis using False by (cases r) (auto simp: alloc_value_def)
qed

lemma decode_stored_law:
  assumes "holds p h" "stored_as t h raw (encode_row r)" "row_ok t r"
  shows "\<exists>p'. decode_stored t raw p = Some (p', Inr r) \<and> holds p' h"
proof (cases "is_locator raw")
  case True
  then obtain l where l: "raw = locator_encode l" "h l = Some (encode_row r)" "t_pool t" using assms(2) by (auto simp: stored_as_def)
  from overflow.fetch_law [OF assms(1) l(2)] show ?thesis
    using l assms(3) by (auto simp: decode_stored_def resolve_value_def row_ok_def decode_encode_row)
next
  case False
  then show ?thesis using assms by (auto simp: stored_as_def decode_stored_def row_ok_def decode_encode_row)
qed

lemma free_then_decode:
  assumes "holds p h" "stored_as t h raw (encode_row r)" "row_ok t r"
  shows "\<exists>p1 p2. free_value t raw p = Some p1 \<and> holds p1 (without (Some raw) h) \<and>
    decode_stored t raw p1 = Some (p2, Inr r) \<and> holds p2 (without (Some raw) h)"
proof (cases "is_locator raw")
  case True
  then obtain l where l: "raw = locator_encode l" "h l = Some (encode_row r)" "t_pool t" using assms(2) by (auto simp: stored_as_def)
  from overflow.release_law [OF assms(1) l(2)] obtain p1 where
    p1: "pool_free l p = Some p1" "holds p1 (h(l := None))" by blast
  from overflow.late_fetch [OF assms(1) l(2) p1(1)] show ?thesis
    using l p1 assms(3) by (auto simp: free_value_def decode_stored_def resolve_value_def row_ok_def decode_encode_row without_locator)
next
  case False
  then show ?thesis using assms
    by (auto simp: stored_as_def free_value_def decode_stored_def row_ok_def decode_encode_row without_inline)
qed

section \<open>Index entries\<close>

definition index_keys :: "nat \<Rightarrow> nat \<Rightarrow> (key \<rightharpoonup> row) \<Rightarrow> key set" where
  "index_keys col pkc m = {k. \<exists>key r. m key = Some r \<and> encode_sec_index_key (r ! col) (r ! pkc) = Inr k}"

lemma sec_key_total: "key_ok pk \<Longrightarrow> \<exists>k. encode_sec_index_key sec pk = Inr k"
  by (cases pk) (auto simp: encode_sec_index_key_def)

lemma signed_mag_inject: "x \<noteq> 2 ^ 63 \<Longrightarrow> y \<noteq> 2 ^ 63 \<Longrightarrow> signed_mag x = signed_mag y \<Longrightarrow> x = y"
  by (auto simp: signed_mag_def split: if_splits)

lemma float_key_eq: "float_key_ok a \<Longrightarrow> float_key_ok b \<Longrightarrow> f64_eq a b \<Longrightarrow> a = b"
  using signed_mag_inject [OF float_key_ok_unat float_key_ok_unat, of a b] by (auto simp: f64_eq_def f64_key_unat word_unat_eq_iff)

lemma sec_ok_eq: "sec_ok a \<Longrightarrow> sec_ok b \<Longrightarrow> datum_eq a b \<Longrightarrow> a = b"
  by (cases a; cases b) (auto dest: float_key_eq)

text \<open>The index key determines the row.\<close>

definition keyed :: "nat \<Rightarrow> nat \<Rightarrow> (key \<rightharpoonup> row) \<Rightarrow> bool" where
  "keyed col pkc m \<longleftrightarrow> (\<forall>key r. m key = Some r \<longrightarrow> key_ok (r ! pkc) \<and> sec_ok (r ! col) \<and> encode_key (r ! pkc) = Inr key)"

lemma index_key_unique:
  assumes m: "keyed col pkc m" and a: "m key = Some r" "encode_sec_index_key (r ! col) (r ! pkc) = Inr k"
    and b: "m key' = Some r'" "encode_sec_index_key (r' ! col) (r' ! pkc) = Inr k"
  shows "key' = key"
proof -
  have ok: "key_ok (r ! pkc)" "sec_ok (r ! col)" "encode_key (r ! pkc) = Inr key"
    "key_ok (r' ! pkc)" "sec_ok (r' ! col)" "encode_key (r' ! pkc) = Inr key'"
    using m a(1) b(1) by (simp_all add: keyed_def)
  have "decode_sec_index_key k = Some (Inr (r ! col, r ! pkc))" "decode_sec_index_key k = Some (Inr (r' ! col, r' ! pkc))"
    using decode_encode_sec_index_key [OF ok(2,1) a(2)] decode_encode_sec_index_key [OF ok(5,4) b(2)] by simp_all
  then have "r' ! pkc = r ! pkc" by simp
  then show ?thesis using ok(3,6) by simp
qed

lemma index_keys_put:
  assumes "encode_sec_index_key (r ! col) (r ! pkc) = Inr k"
  shows "index_keys col pkc (m(key \<mapsto> r)) = insert k (index_keys col pkc (m(key := None)))"
proof -
  have "x \<in> index_keys col pkc (m(key \<mapsto> r)) \<longleftrightarrow> x = k \<or> x \<in> index_keys col pkc (m(key := None))" for x
    unfolding index_keys_def mem_Collect_eq fun_upd_apply using assms by (metis option.distinct(1) option.inject sum.inject(2))
  then show ?thesis by blast
qed

lemma index_keys_remove:
  assumes m: "keyed col pkc m" and old: "m key = Some r" "encode_sec_index_key (r ! col) (r ! pkc) = Inr k"
  shows "index_keys col pkc (m(key := None)) = index_keys col pkc m - {k}"
proof (intro set_eqI iffI)
  fix x assume "x \<in> index_keys col pkc (m(key := None))"
  then obtain key' r' where x: "key' \<noteq> key" "m key' = Some r'" "encode_sec_index_key (r' ! col) (r' ! pkc) = Inr x"
    unfolding index_keys_def mem_Collect_eq fun_upd_apply by (metis option.distinct(1))
  moreover have "x \<noteq> k" using index_key_unique [OF m old x(2)] x(1,3) by blast
  ultimately show "x \<in> index_keys col pkc m - {k}" unfolding index_keys_def by blast
next
  fix x assume "x \<in> index_keys col pkc m - {k}"
  then obtain key' r' where x: "x \<noteq> k" "m key' = Some r'" "encode_sec_index_key (r' ! col) (r' ! pkc) = Inr x"
    unfolding index_keys_def by blast
  then have "key' \<noteq> key" using old by auto
  then show "x \<in> index_keys col pkc (m(key := None))" using x unfolding index_keys_def by auto
qed

lemma index_keys_absent: "m key = None \<Longrightarrow> m(key := None) = m"
  by auto

section \<open>The invariant\<close>

definition index_ok :: "nat \<Rightarrow> nat \<Rightarrow> (key \<rightharpoonup> row) \<Rightarrow> secondary_index \<Rightarrow> bool" where
  "index_ok n pkc m x \<longleftrightarrow> si_col x < n \<and> btree_ok (si_tree x) \<and> dom (abs_map (si_tree x)) = index_keys (si_col x) pkc m"

abbreviation width :: "table \<Rightarrow> nat" where
  "width t \<equiv> length (columns (td_schema (t_def t)))"

abbreviation pk_col :: "table \<Rightarrow> nat" where
  "pk_col t \<equiv> pk_idx (td_schema (t_def t))"

definition rows_ok :: "table \<Rightarrow> (locator \<rightharpoonup> bytes) \<Rightarrow> (key \<rightharpoonup> row) \<Rightarrow> bool" where
  "rows_ok t h m \<longleftrightarrow> btree_ok (t_tree t) \<and> dom (abs_map (t_tree t)) = dom m \<and>
     (\<forall>key r. m key = Some r \<longrightarrow> row_ok t r \<and> encode_key (pk_of t r) = Inr key \<and>
        (\<exists>raw. abs_map (t_tree t) key = Some raw \<and> stored_as t h raw (encode_row r))) \<and>
     (\<forall>k k' l. abs_map (t_tree t) k = Some (locator_encode l) \<longrightarrow> abs_map (t_tree t) k' = Some (locator_encode l) \<longrightarrow> k = k')"

definition table_ok :: "table \<Rightarrow> (locator \<rightharpoonup> bytes) \<Rightarrow> (key \<rightharpoonup> row) \<Rightarrow> bool" where
  "table_ok t h m \<longleftrightarrow> rows_ok t h m \<and> (\<forall>x \<in> set (t_indexes t). index_ok (width t) (pk_col t) m x)"

definition owned :: "table \<Rightarrow> locator set" where
  "owned t = {l. \<exists>k. abs_map (t_tree t) k = Some (locator_encode l)}"

text \<open>What other tables see of an operation on \<open>t\<close>: their overflow values are untouched.\<close>

definition frames_others :: "table \<Rightarrow> table \<Rightarrow> (locator \<rightharpoonup> bytes) \<Rightarrow> (locator \<rightharpoonup> bytes) \<Rightarrow> bool" where
  "frames_others t t' h h' \<longleftrightarrow> (\<forall>l \<in> dom h. l \<notin> owned t \<longrightarrow> h' l = h l) \<and> owned t' \<subseteq> owned t \<union> - dom h"

definition same_shape :: "table \<Rightarrow> table \<Rightarrow> bool" where
  "same_shape t t' \<longleftrightarrow> t_def t' = t_def t \<and> t_pool t' = t_pool t \<and> t_auto_inc t' = t_auto_inc t \<and>
     map (\<lambda>x. (si_def x, si_col x)) (t_indexes t') = map (\<lambda>x. (si_def x, si_col x)) (t_indexes t)"

lemma row_ok_shape:
  assumes "same_shape t t'"
  shows "row_ok t' r = row_ok t r"
proof -
  have "map si_col (t_indexes t') = map si_col (t_indexes t)"
    using arg_cong [where f = "map snd", OF conjunct2 [OF conjunct2 [OF conjunct2 [OF assms [unfolded same_shape_def]]]]] by (simp add: o_def)
  then have "si_col ` set (t_indexes t') = si_col ` set (t_indexes t)" by (metis set_map)
  moreover have "(\<forall>x \<in> set (t_indexes u). si_col x < length r \<and> sec_ok (r ! si_col x)) \<longleftrightarrow> (\<forall>c \<in> si_col ` set (t_indexes u). c < length r \<and> sec_ok (r ! c))" for u :: table
    by blast
  ultimately have "(\<forall>x \<in> set (t_indexes t'). si_col x < length r \<and> sec_ok (r ! si_col x)) \<longleftrightarrow>
      (\<forall>x \<in> set (t_indexes t). si_col x < length r \<and> sec_ok (r ! si_col x))" by metis
  then show ?thesis using assms by (simp add: row_ok_def same_shape_def)
qed

lemma rows_keyed:
  assumes "rows_ok t h m" "x \<in> set (t_indexes t)"
  shows "keyed (si_col x) (pk_col t) m"
  using assms unfolding rows_ok_def keyed_def row_ok_def by blast

section \<open>One index\<close>

lemma at_Some: "i < length xs \<Longrightarrow> at xs i = Some (xs ! i)"
  by (simp add: at_def)

lemma index_upsert_law:
  assumes "index_upsert r pk x = Some (x', res)" "btree_ok (si_tree x)" "si_col x < length r" "encode_sec_index_key (r ! si_col x) pk = Inr k"
  shows "res = Inr () \<and> si_def x' = si_def x \<and> si_col x' = si_col x \<and> btree_ok (si_tree x') \<and>
    dom (abs_map (si_tree x')) = insert k (dom (abs_map (si_tree x)))"
  using assms tree_upsert_law [OF assms(2), of k "[]"] by (auto simp: index_upsert_def at_Some)

lemma index_insert_law:
  assumes "index_insert r pk x = Some (x', res)" "btree_ok (si_tree x)" "si_col x < length r" "encode_sec_index_key (r ! si_col x) pk = Inr k"
  shows "res = Inr () \<and> si_def x' = si_def x \<and> si_col x' = si_col x \<and> btree_ok (si_tree x') \<and>
    dom (abs_map (si_tree x')) = insert k (dom (abs_map (si_tree x)))"
  using assms tree_insert_law [OF assms(2), of k "[]"] by (auto simp: index_insert_def at_Some map_insert_def split: if_splits)

lemma index_remove_law:
  assumes "btree_ok (si_tree x)" "si_col x < length r" "encode_sec_index_key (r ! si_col x) pk = Inr k"
  shows "\<exists>x'. index_remove r pk x = Some (x', Inr ()) \<and> si_def x' = si_def x \<and> si_col x' = si_col x \<and> btree_ok (si_tree x') \<and>
    dom (abs_map (si_tree x')) = dom (abs_map (si_tree x)) - {k}"
  using assms bt.rem_law [OF assms(1), of k] by (auto simp: index_remove_def at_Some)

definition carries :: "nat \<Rightarrow> nat \<Rightarrow> (key \<rightharpoonup> row) \<Rightarrow> secondary_index \<Rightarrow> secondary_index \<Rightarrow> bool" where
  "carries n pkc m' x x' \<longleftrightarrow> si_def x' = si_def x \<and> si_col x' = si_col x \<and> index_ok n pkc m' x'"

text \<open>An operation that adds an index entry: an insertion or an upsert.\<close>

locale index_writer =
  fixes ins :: "row \<Rightarrow> datum \<Rightarrow> secondary_index \<Rightarrow> (secondary_index \<times> unit result) option"
  assumes ins_law: "ins r pk x = Some (x', res) \<Longrightarrow> btree_ok (si_tree x) \<Longrightarrow> si_col x < length r \<Longrightarrow>
    encode_sec_index_key (r ! si_col x) pk = Inr k \<Longrightarrow>
    res = Inr () \<and> si_def x' = si_def x \<and> si_col x' = si_col x \<and> btree_ok (si_tree x') \<and>
    dom (abs_map (si_tree x')) = insert k (dom (abs_map (si_tree x)))"
begin

lemma fresh_entry:
  assumes x: "index_ok n pkc m x" and r: "length r = n" "key_ok (r ! pkc)" and none: "m key = None"
    and run: "ins r (r ! pkc) x = Some (x', res)"
  shows "res = Inr () \<and> carries n pkc (m(key \<mapsto> r)) x x'"
proof -
  obtain k where k: "encode_sec_index_key (r ! si_col x) (r ! pkc) = Inr k" using sec_key_total [OF r(2)] by blast
  have col: "si_col x < length r" "btree_ok (si_tree x)" using x r(1) by (simp_all add: index_ok_def)
  from ins_law [OF run col(2,1) k] show ?thesis
    using x index_keys_put [OF k, of m key] index_keys_absent [of m key, OF none] by (simp add: carries_def index_ok_def)
qed

lemma moved_entry:
  assumes x: "index_ok n pkc m x" and m: "keyed (si_col x) pkc m" and w: "m key = Some w" "length w = n"
    and r: "length r = n" "sec_ok (r ! si_col x)" "r ! pkc = w ! pkc"
    and run: "index_move ins w r (r ! pkc) x = Some (x', res)"
  shows "res = Inr () \<and> carries n pkc (m(key \<mapsto> r)) x x'"
proof -
  have wk: "key_ok (w ! pkc)" "sec_ok (w ! si_col x)" using m w(1) by (simp_all add: keyed_def)
  have pk: "key_ok (r ! pkc)" using wk(1) r(3) by simp
  obtain a where a: "encode_sec_index_key (w ! si_col x) (r ! pkc) = Inr a" using sec_key_total [OF pk] by blast
  obtain k where k: "encode_sec_index_key (r ! si_col x) (r ! pkc) = Inr k" using sec_key_total [OF pk] by blast
  have col: "si_col x < length w" "si_col x < length r" "btree_ok (si_tree x)" using x r(1) w(2) by (simp_all add: index_ok_def)
  have keys: "index_keys (si_col x) pkc (m(key \<mapsto> r)) = insert k (index_keys (si_col x) pkc m - {a})"
    unfolding index_keys_put [OF k] index_keys_remove [OF m w(1) a [unfolded r(3)]] ..
  show ?thesis
  proof (cases "datum_eq (w ! si_col x) (r ! si_col x)")
    case True
    then have "w ! si_col x = r ! si_col x" by (rule sec_ok_eq [OF wk(2) r(2)])
    then have ak: "a = k" using a k by simp
    have "encode_sec_index_key (w ! si_col x) (w ! pkc) = Inr a" using a r(3) by simp
    then have "a \<in> index_keys (si_col x) pkc m" unfolding index_keys_def using w(1) by blast
    then have "index_keys (si_col x) pkc (m(key \<mapsto> r)) = index_keys (si_col x) pkc m"
      unfolding keys ak [symmetric] by (rule insert_Diff)
    moreover have "x' = x" "res = Inr ()" using True run col(1,2) by (simp_all add: index_move_def at_Some)
    ultimately show ?thesis using x by (simp add: carries_def index_ok_def)
  next
    case False
    from index_remove_law [OF col(3,1) a] obtain y where y: "index_remove w (r ! pkc) x = Some (y, Inr ())" "si_def y = si_def x"
      "si_col y = si_col x" "btree_ok (si_tree y)" "dom (abs_map (si_tree y)) = dom (abs_map (si_tree x)) - {a}" by blast
    have "ins r (r ! pkc) y = Some (x', res)" using run False y(1) col by (simp add: index_move_def at_Some)
    moreover have "si_col y < length r" "encode_sec_index_key (r ! si_col y) (r ! pkc) = Inr k" using col(2) k y(3) by simp_all
    ultimately have "res = Inr () \<and> si_def x' = si_def y \<and> si_col x' = si_col y \<and> btree_ok (si_tree x') \<and>
      dom (abs_map (si_tree x')) = insert k (dom (abs_map (si_tree y)))" using ins_law y(4) by blast
    then show ?thesis using x y(2,3,5) unfolding carries_def index_ok_def keys [symmetric] by (simp add: keys)
  qed
qed

end

interpretation iu: index_writer index_upsert
  by unfold_locales (rule index_upsert_law; assumption)

interpretation ii: index_writer index_insert
  by unfold_locales (rule index_insert_law; assumption)

text \<open>Ignoring an error that cannot happen changes nothing.\<close>

lemma lenient_move:
  assumes "btree_ok (si_tree x)" "si_col x < length w" "key_ok pk"
    and "index_move_lenient w r pk x = Some (x', res)"
  shows "\<exists>res'. index_move index_upsert w r pk x = Some (x', res') \<and> res = Inr ()"
proof -
  obtain k where "encode_sec_index_key (w ! si_col x) pk = Inr k" using sec_key_total [OF assms(3)] by blast
  from index_remove_law [OF assms(1,2) this] obtain y where "index_remove w pk x = Some (y, Inr ())" by blast
  then show ?thesis using assms(4)
    by (auto simp: index_move_lenient_def index_move_def lenient_def bind_eq_Some_conv split: if_splits)
qed

lemma removed_entry:
  assumes x: "index_ok n pkc m x" and m: "keyed (si_col x) pkc m" and w: "m key = Some w" "length w = n"
  shows "\<exists>x'. index_remove w (w ! pkc) x = Some (x', Inr ()) \<and> carries n pkc (m(key := None)) x x'"
proof -
  have wk: "key_ok (w ! pkc)" using m w(1) by (simp add: keyed_def)
  obtain a where a: "encode_sec_index_key (w ! si_col x) (w ! pkc) = Inr a" using sec_key_total [OF wk] by blast
  have col: "si_col x < length w" "btree_ok (si_tree x)" using x w(2) by (simp_all add: index_ok_def)
  from index_remove_law [OF col(2,1) a] show ?thesis
    using x index_keys_remove [OF m w(1) a] by (auto simp: carries_def index_ok_def)
qed

section \<open>All indexes\<close>

lemma each_index_returned:
  "each_index f xs = Some (xs', res) \<Longrightarrow> \<forall>x \<in> set xs. \<forall>x' r. f x = Some (x', r) \<longrightarrow> r = Inr () \<and> P x x' \<Longrightarrow>
    res = Inr () \<and> list_all2 P xs xs'"
proof (induction xs arbitrary: xs' res)
  case (Cons x xs)
  then obtain y r where y: "f x = Some (y, r)" by (auto split: option.splits)
  then have r: "r = Inr ()" "P x y" using Cons.prems(2) by auto
  obtain ys where "each_index f xs = Some (ys, res)" "xs' = y # ys" using Cons.prems(1) y r by auto
  then show ?case using Cons.IH [of ys res] Cons.prems(2) r by simp
qed simp

lemma each_index_total:
  "\<forall>x \<in> set xs. \<exists>x'. f x = Some (x', Inr ()) \<and> P x x' \<Longrightarrow> \<exists>xs'. each_index f xs = Some (xs', Inr ()) \<and> list_all2 P xs xs'"
proof (induction xs)
  case (Cons x xs)
  then show ?case by fastforce
qed simp

lemma carried_shape:
  assumes "list_all2 (carries n pkc m') (t_indexes t) xs"
  shows "same_shape t (t\<lparr>t_tree := tr, t_indexes := xs\<rparr>)" "\<forall>x \<in> set xs. index_ok n pkc m' x"
proof -
  have "map (\<lambda>x. (si_def x, si_col x)) xs = map (\<lambda>x. (si_def x, si_col x)) ys" if "list_all2 (carries n pkc m') ys xs" for ys
    using that by (induction rule: list_all2_induct) (auto simp: carries_def)
  then show "same_shape t (t\<lparr>t_tree := tr, t_indexes := xs\<rparr>)" using assms by (simp add: same_shape_def)
  show "\<forall>x \<in> set xs. index_ok n pkc m' x"
    using assms by (induction rule: list_all2_induct) (auto simp: carries_def)
qed

section \<open>The rows\<close>

lemma rows_okD:
  assumes "rows_ok t h m"
  shows "btree_ok (t_tree t)" "dom (abs_map (t_tree t)) = dom m"
    "m key = Some r \<Longrightarrow> row_ok t r" "m key = Some r \<Longrightarrow> encode_key (pk_of t r) = Inr key"
    "m key = Some r \<Longrightarrow> \<exists>raw. abs_map (t_tree t) key = Some raw \<and> stored_as t h raw (encode_row r)"
    "abs_map (t_tree t) k = Some (locator_encode l) \<Longrightarrow> abs_map (t_tree t) k' = Some (locator_encode l) \<Longrightarrow> k = k'"
  using assms by (auto simp: rows_ok_def)

lemma rows_ok_treeI:
  assumes "btree_ok tr" "dom (abs_map tr) = dom m"
    "\<And>key r. m key = Some r \<Longrightarrow> row_ok t r" "\<And>key r. m key = Some r \<Longrightarrow> encode_key (pk_of t r) = Inr key"
    "\<And>key r. m key = Some r \<Longrightarrow> \<exists>raw. abs_map tr key = Some raw \<and> stored_as t h raw (encode_row r)"
    "\<And>k k' l. abs_map tr k = Some (locator_encode l) \<Longrightarrow> abs_map tr k' = Some (locator_encode l) \<Longrightarrow> k = k'"
  shows "rows_ok (t\<lparr>t_tree := tr\<rparr>) h m"
  using assms unfolding rows_ok_def value_ops_tree by simp

lemma rows_ok_shape:
  assumes "same_shape t t'" "t_tree t' = t_tree t"
  shows "rows_ok t' h m = rows_ok t h m"
  using assms row_ok_shape [OF assms(1)] by (simp add: rows_ok_def stored_as_def same_shape_def)

text \<open>A locator in the tree is the handle of a stored row.\<close>

lemma owned_holds:
  assumes ok: "rows_ok t h m" and l: "abs_map (t_tree t) k = Some (locator_encode l)"
  shows "\<exists>r. m k = Some r \<and> h l = Some (encode_row r) \<and> t_pool t"
proof -
  from l rows_okD(2) [OF ok] obtain r where r: "m k = Some r" by (metis domD domI)
  from rows_okD(5) [OF ok r] l r show ?thesis by (auto simp: stored_as_def)
qed

lemma stored_elsewhere:
  assumes ok: "rows_ok t h m" and r: "m k = Some r" and ne: "k \<noteq> key"
    and fresh: "\<And>l. h l \<noteq> None \<Longrightarrow> h1 l = h l"
  shows "\<exists>raw. abs_map (t_tree t) k = Some raw \<and> stored_as t (without (abs_map (t_tree t) key) h1) raw (encode_row r)"
proof -
  from rows_okD(5) [OF ok r] obtain raw where raw: "abs_map (t_tree t) k = Some raw" "stored_as t h raw (encode_row r)" by blast
  have "stored_as t (without (abs_map (t_tree t) key) h1) raw (encode_row r)"
  proof (cases "is_locator raw")
    case True
    then obtain l where l: "raw = locator_encode l" "h l = Some (encode_row r)" "t_pool t" using raw(2) by (auto simp: stored_as_def)
    have "abs_map (t_tree t) key \<noteq> Some (locator_encode l)" using rows_okD(6) [OF ok] raw(1) l(1) ne by blast
    then show ?thesis using l fresh [of l] by (simp add: stored_as_def without_def)
  next
    case False
    then show ?thesis using raw(2) by (simp add: stored_as_def)
  qed
  then show ?thesis using raw(1) by blast
qed

text \<open>The value a row is stored as, new in the pool or inline.\<close>

definition placed :: "table \<Rightarrow> (locator \<rightharpoonup> bytes) \<Rightarrow> bytes \<Rightarrow> bytes \<Rightarrow> (locator \<rightharpoonup> bytes) \<Rightarrow> bool" where
  "placed t h full raw h1 \<longleftrightarrow> (raw = full \<and> \<not> is_locator full \<and> h1 = h \<or> (\<exists>l. raw = locator_encode l \<and> t_pool t \<and> h l = None \<and> h1 = h(l \<mapsto> full)))"

lemma alloc_placed:
  assumes "holds p h" "\<not> is_locator full" "alloc_value t full p = Some (p', res)"
  shows "case res of Inl e \<Rightarrow> holds p' h | Inr raw \<Rightarrow> \<exists>h1. placed t h full raw h1 \<and> holds p' h1"
  using alloc_value_law [OF assms(1,2), of t] assms(2,3) by (cases res) (auto simp: placed_def)

lemma placed_mono: "placed t h full raw h1 \<Longrightarrow> h l \<noteq> None \<Longrightarrow> h1 l = h l"
  by (auto simp: placed_def)

lemma rows_put:
  assumes ok: "rows_ok t h m" and r: "row_ok t r" "encode_key (pk_of t r) = Inr key" and pl: "placed t h (encode_row r) raw h1"
    and tr: "btree_ok tr" "abs_map tr = (abs_map (t_tree t))(key \<mapsto> raw)"
  defines "h' \<equiv> without (abs_map (t_tree t) key) h1"
  shows "rows_ok (t\<lparr>t_tree := tr\<rparr>) h' (m(key \<mapsto> r)) \<and> frames_others t (t\<lparr>t_tree := tr\<rparr>) h h'"
proof
  have new: "h l = None" if "raw = locator_encode l" for l
    using pl that locator_facts(1) [of l] unfolding placed_def by (metis locator_encode_inject)
  have held: "h l \<noteq> None" if "abs_map (t_tree t) k = Some (locator_encode l)" for k l using owned_holds [OF ok that] by auto
  show "rows_ok (t\<lparr>t_tree := tr\<rparr>) h' (m(key \<mapsto> r))"
  proof (rule rows_ok_treeI)
    show "btree_ok tr" by (rule tr(1))
    show "dom (abs_map tr) = dom (m(key \<mapsto> r))" using rows_okD(2) [OF ok] tr(2) by simp
    show "row_ok t r'" if "(m(key \<mapsto> r)) k = Some r'" for k r' using that rows_okD(3) [OF ok] r(1) by (auto split: if_splits)
    show "encode_key (pk_of t r') = Inr k" if "(m(key \<mapsto> r)) k = Some r'" for k r'
      using that rows_okD(4) [OF ok] r(2) by (auto split: if_splits)
    show "\<exists>raw. abs_map tr k = Some raw \<and> stored_as t h' raw (encode_row r')" if a: "(m(key \<mapsto> r)) k = Some r'" for k r'
    proof (cases "k = key")
      case True
      have "stored_as t h' raw (encode_row r)"
        using pl held [of key] by (fastforce simp: placed_def stored_as_def h'_def without_def)
      then show ?thesis using True a tr(2) by simp
    next
      case False
      then show ?thesis using stored_elsewhere [OF ok _ False placed_mono [OF pl]] a tr(2) by (simp add: h'_def)
    qed
    show "k = k'" if a: "abs_map tr k = Some (locator_encode l)" "abs_map tr k' = Some (locator_encode l)" for k k' l
      using a new held rows_okD(6) [OF ok] unfolding tr(2) by (metis fun_upd_apply option.inject)
  qed
  show "frames_others t (t\<lparr>t_tree := tr\<rparr>) h h'" unfolding frames_others_def
  proof (intro conjI ballI impI)
    fix l assume l: "l \<in> dom h" "l \<notin> owned t"
    then have "abs_map (t_tree t) key \<noteq> Some (locator_encode l)" by (auto simp: owned_def)
    then show "h' l = h l" using l(1) placed_mono [OF pl, of l] by (auto simp: h'_def without_def)
  next
    show "owned (t\<lparr>t_tree := tr\<rparr>) \<subseteq> owned t \<union> - dom h"
      unfolding owned_def using tr(2) new by (auto split: if_splits)
  qed
qed

lemma rows_remove:
  assumes ok: "rows_ok t h m" and tr: "btree_ok tr" "abs_map tr = (abs_map (t_tree t))(key := None)"
  defines "h' \<equiv> without (abs_map (t_tree t) key) h"
  shows "rows_ok (t\<lparr>t_tree := tr\<rparr>) h' (m(key := None)) \<and> frames_others t (t\<lparr>t_tree := tr\<rparr>) h h'"
proof
  show "rows_ok (t\<lparr>t_tree := tr\<rparr>) h' (m(key := None))"
  proof (rule rows_ok_treeI)
    show "btree_ok tr" by (rule tr(1))
    show "dom (abs_map tr) = dom (m(key := None))" using rows_okD(2) [OF ok] tr(2) by simp
    show "row_ok t r'" if "(m(key := None)) k = Some r'" for k r' using that rows_okD(3) [OF ok] by (auto split: if_splits)
    show "encode_key (pk_of t r') = Inr k" if "(m(key := None)) k = Some r'" for k r'
      using that rows_okD(4) [OF ok] by (auto split: if_splits)
    show "\<exists>raw. abs_map tr k = Some raw \<and> stored_as t h' raw (encode_row r')" if a: "(m(key := None)) k = Some r'" for k r'
      using stored_elsewhere [OF ok, of k r' key h] a tr(2) by (auto simp: h'_def split: if_splits)
    show "k = k'" if a: "abs_map tr k = Some (locator_encode l)" "abs_map tr k' = Some (locator_encode l)" for k k' l
      using a rows_okD(6) [OF ok] unfolding tr(2) by (auto split: if_splits)
  qed
  show "frames_others t (t\<lparr>t_tree := tr\<rparr>) h h'"
    unfolding frames_others_def owned_def h'_def without_def using tr(2) by (auto split: if_splits)
qed

section \<open>Operations\<close>

lemma row_at: "row_ok t r \<Longrightarrow> pk_value t r = Some (pk_of t r)" "row_ok t r \<Longrightarrow> key_of t r = Some (encode_key (pk_of t r))"
  by (simp_all add: row_ok_def pk_value_def key_of_def at_Some)

lemma row_ok_not_locator: "row_ok t r \<Longrightarrow> \<not> is_locator (encode_row r)"
  by (rule row_not_locator) (auto simp: row_ok_def)

lemma old_value:
  assumes ok: "rows_ok t h m" and b: "abs_map (t_tree t) key = Some b"
  shows "\<exists>w. m key = Some w \<and> stored_as t h b (encode_row w)"
proof -
  from rows_okD(2) [OF ok] b obtain w where "m key = Some w" by (metis domD domI)
  with rows_okD(5) [OF ok this] b show ?thesis by auto
qed

lemma stored_as_placed: "placed t h full raw h1 \<Longrightarrow> stored_as t h b x \<Longrightarrow> stored_as t h1 b x"
  using placed_mono by (fastforce simp: stored_as_def split: if_splits)

text \<open>The displaced value, freed and still readable.\<close>

lemma displaced:
  fixes key :: key
  assumes ok: "rows_ok t h m" and pl: "placed t h full raw h1" and p: "holds p h1"
  defines "prev \<equiv> abs_map (t_tree t) key"
  shows "\<exists>p1. free_prev t prev p = Some p1 \<and> holds p1 (without prev h1) \<and>
    (case prev of None \<Rightarrow> m key = None
     | Some b \<Rightarrow> \<exists>w p2. m key = Some w \<and> decode_stored t b p1 = Some (p2, Inr w) \<and> holds p2 (without prev h1))"
proof (cases prev)
  case None
  then have "m key = None" using rows_okD(2) [OF ok] by (metis domIff prev_def)
  then show ?thesis using None p by (simp add: free_prev_def)
next
  case (Some b)
  from old_value [OF ok, of key b] Some obtain w where w: "m key = Some w" "stored_as t h b (encode_row w)" by (auto simp: prev_def)
  from free_then_decode [OF p stored_as_placed [OF pl w(2)] rows_okD(3) [OF ok w(1)]] w(1) Some show ?thesis
    by (auto simp: free_prev_def)
qed

text \<open>After the rows, the indexes: any loop that carries each index along restores the invariant.\<close>

lemma indexes_follow:
  assumes ok: "rows_ok (t\<lparr>t_tree := tr\<rparr>) h' m'" and li: "list_all2 (carries (width t) (pk_col t) m') (t_indexes t) xs"
  shows "table_ok (t\<lparr>t_tree := tr, t_indexes := xs\<rparr>) h' m' \<and> same_shape t (t\<lparr>t_tree := tr, t_indexes := xs\<rparr>)"
proof -
  note c = carried_shape [OF li]
  have "same_shape (t\<lparr>t_tree := tr\<rparr>) (t\<lparr>t_tree := tr, t_indexes := xs\<rparr>)" using c(1) by (simp add: same_shape_def)
  from rows_ok_shape [OF this] ok have "rows_ok (t\<lparr>t_tree := tr, t_indexes := xs\<rparr>) h' m'" by simp
  then show ?thesis using c by (simp add: table_ok_def)
qed

lemma table_okD:
  assumes "table_ok t h m"
  shows "rows_ok t h m" "x \<in> set (t_indexes t) \<Longrightarrow> index_ok (width t) (pk_col t) m x"
    "x \<in> set (t_indexes t) \<Longrightarrow> keyed (si_col x) (pk_col t) m"
  using assms rows_keyed by (auto simp: table_ok_def)

lemma same_key:
  assumes "row_ok t r" "row_ok t w" "encode_key (pk_of t r) = Inr key" "encode_key (pk_of t w) = Inr key"
  shows "pk_of t r = pk_of t w"
  using decode_encode_key [OF _ assms(3)] decode_encode_key [OF _ assms(4)] assms(1,2) by (auto simp: row_ok_def)

lemma fresh_lenient:
  assumes ok: "table_ok t h m" and x: "x \<in> set (t_indexes t)" and r: "length r = width t" "key_ok (pk_of t r)"
    and none: "m key = None" and run: "lenient (index_upsert r (pk_of t r) x) = Some (x', res)"
  shows "res = Inr () \<and> carries (width t) (pk_col t) (m(key \<mapsto> r)) x x'"
proof -
  from run obtain res' where "index_upsert r (pk_of t r) x = Some (x', res')" "res = Inr ()" by (auto simp: lenient_def)
  with iu.fresh_entry [OF table_okD(2) [OF ok x] r none this(1)] show ?thesis by blast
qed

lemma moved_lenient:
  assumes ok: "table_ok t h m" and w: "m key = Some w" and r: "row_ok t r" "encode_key (pk_of t r) = Inr key"
  shows "\<forall>x \<in> set (t_indexes t). \<forall>x' res. index_move_lenient w r (pk_of t r) x = Some (x', res) \<longrightarrow>
    res = Inr () \<and> carries (width t) (pk_col t) (m(key \<mapsto> r)) x x'"
proof (intro ballI allI impI)
  fix x x' res assume x: "x \<in> set (t_indexes t)" and run: "index_move_lenient w r (pk_of t r) x = Some (x', res)"
  note R = table_okD(1) [OF ok]
  have wr: "row_ok t w" "encode_key (pk_of t w) = Inr key" using rows_okD(3,4) [OF R w] .
  have pk: "pk_of t r = pk_of t w" by (rule same_key [OF r(1) wr(1) r(2) wr(2)])
  have len: "length w = width t" "length r = width t" "sec_ok (r ! si_col x)" "si_col x < length w" "key_ok (pk_of t r)"
    using wr(1) r(1) x by (auto simp: row_ok_def)
  have "btree_ok (si_tree x)" using table_okD(2) [OF ok x] by (simp add: index_ok_def)
  from lenient_move [OF this len(4,5) run] obtain res' where
    "index_move index_upsert w r (pk_of t r) x = Some (x', res')" "res = Inr ()" by blast
  with iu.moved_entry [OF table_okD(2) [OF ok x] table_okD(3) [OF ok x] w len(1-3) pk this(1)]
  show "res = Inr () \<and> carries (width t) (pk_col t) (m(key \<mapsto> r)) x x'" by blast
qed

lemma apply_raw_law:
  assumes ok: "table_ok t h m" and p: "holds p h" and r: "row_ok t r" "encode_key (pk_of t r) = Inr key"
    and run: "apply_raw key (encode_row r) t p = Some (t', p', res)"
  shows "\<exists>h'. holds p' h' \<and> frames_others t t' h h' \<and> same_shape t t' \<and>
    (case res of Inl _ \<Rightarrow> t' = t \<and> h' = h | Inr _ \<Rightarrow> table_ok t' h' (m(key \<mapsto> r)))"
proof -
  note R = table_okD(1) [OF ok]
  have nl: "\<not> is_locator (encode_row r)" using r(1) by (rule row_ok_not_locator)
  from alloc_value_law [OF p nl, of t] obtain p0 s where s: "alloc_value t (encode_row r) p = Some (p0, s)" by blast
  note pl = alloc_placed [OF p nl s]
  show ?thesis
  proof (cases s)
    case (Inl e)
    then have "t' = t" "p' = p0" "res = Inl e" using run s by (auto simp: apply_raw_def)
    then show ?thesis using Inl pl by (intro exI [of _ h]) (auto simp: frames_others_def same_shape_def)
  next
    case (Inr raw)
    then obtain h1 where h1: "placed t h (encode_row r) raw h1" "holds p0 h1" using pl by auto
    let ?prev = "abs_map (t_tree t) key"
    let ?h = "without ?prev h1" and ?m = "m(key \<mapsto> r)"
    from run s Inr obtain prev tr where put: "tree_put key raw (t_tree t) = Some (prev, tr)"
      by (auto simp: apply_raw_def bind_eq_Some_conv)
    from tree_put_law [OF rows_okD(1) [OF R] put] have tr: "prev = ?prev" "btree_ok tr" "abs_map tr = (abs_map (t_tree t))(key \<mapsto> raw)" by auto
    note rows = rows_put [OF R r h1(1) tr(2,3)]
    from displaced [OF R h1, of key] obtain p1 where p1: "free_prev t ?prev p0 = Some p1" "holds p1 ?h"
      "case ?prev of None \<Rightarrow> m key = None
       | Some b \<Rightarrow> \<exists>w p2. m key = Some w \<and> decode_stored t b p1 = Some (p2, Inr w) \<and> holds p2 ?h" by blast
    have dec: "decode_key key = Some (Inr (pk_of t r))" "decode_row t (encode_row r) = Inr r" "length r = width t" "key_ok (pk_of t r)"
      using decode_encode_key [OF _ r(2)] decode_encode_row r(1) by (auto simp: row_ok_def)
    obtain xs q where xs: "t' = t\<lparr>t_tree := tr, t_indexes := xs\<rparr>" "p' = q" "res = Inr ()" "holds q ?h"
      "list_all2 (carries (width t) (pk_col t) ?m) (t_indexes t) xs"
    proof (cases "t_indexes t = []")
      case True
      then have "t' = t\<lparr>t_tree := tr, t_indexes := []\<rparr>" "p' = p1" "res = Inr ()"
        using run s Inr put tr(1) p1(1) by (auto simp: apply_raw_def)
      then show ?thesis using True p1(2) that by simp
    next
      case False
      show ?thesis
      proof (cases ?prev)
        case None
        then obtain xs r' where e: "each_index (\<lambda>x. lenient (index_upsert r (pk_of t r) x)) (t_indexes t) = Some (xs, r')"
          "t' = t\<lparr>t_tree := tr, t_indexes := xs\<rparr>" "p' = p1" "res = Inr ()"
          using run s Inr put tr(1) p1(1) dec False by (auto simp: apply_raw_def on_indexes_def bind_eq_Some_conv)
        have "list_all2 (carries (width t) (pk_col t) ?m) (t_indexes t) xs"
          using each_index_returned [OF e(1), of "carries (width t) (pk_col t) ?m"] fresh_lenient [OF ok _ dec(3,4)] None p1(3) by auto
        then show ?thesis using that e p1(2) by blast
      next
        case (Some b)
        then obtain w p2 where w: "m key = Some w" "decode_stored t b p1 = Some (p2, Inr w)" "holds p2 ?h" using p1(3) by auto
        obtain xs r' where e: "each_index (index_move_lenient w r (pk_of t r)) (t_indexes t) = Some (xs, r')"
          "t' = t\<lparr>t_tree := tr, t_indexes := xs\<rparr>" "p' = p2" "res = Inr ()"
          using run s Inr put tr(1) p1(1) dec False Some w(2) by (auto simp: apply_raw_def on_indexes_def bind_eq_Some_conv)
        have "list_all2 (carries (width t) (pk_col t) ?m) (t_indexes t) xs"
          using each_index_returned [OF e(1), of "carries (width t) (pk_col t) ?m"] moved_lenient [OF ok w(1) r] by blast
        then show ?thesis using that e w(3) by blast
      qed
    qed
    from indexes_follow [OF conjunct1 [OF rows] xs(5)] show ?thesis
      using xs(1-4) rows by (intro exI [of _ ?h]) (simp add: frames_others_def owned_def)
  qed
qed

lemma placed_self: "\<not> is_locator b \<Longrightarrow> placed t h b b h"
  by (simp add: placed_def)

text \<open>A removal always comes back.\<close>

lemma removed_indexes:
  assumes ok: "table_ok t h m" and w: "m key = Some w"
  shows "\<exists>xs. each_index (index_remove w (pk_of t w)) (t_indexes t) = Some (xs, Inr ()) \<and>
    list_all2 (carries (width t) (pk_col t) (m(key := None))) (t_indexes t) xs"
proof (rule each_index_total, rule ballI)
  fix x assume x: "x \<in> set (t_indexes t)"
  have "length w = width t" using rows_okD(3) [OF table_okD(1) [OF ok] w] by (simp add: row_ok_def)
  from removed_entry [OF table_okD(2,3) [OF ok x] w this]
  show "\<exists>x'. index_remove w (pk_of t w) x = Some (x', Inr ()) \<and> carries (width t) (pk_col t) (m(key := None)) x x'" .
qed

lemma each_index_lenient:
  "each_index f xs = Some (xs', Inr ()) \<Longrightarrow> each_index (\<lambda>x. lenient (f x)) xs = Some (xs', Inr ())"
  by (induction xs arbitrary: xs') (auto simp: lenient_def split: option.splits sum.splits prod.splits)

lemma freed_value:
  assumes ok: "rows_ok t h m" and p: "holds p h" and b: "abs_map (t_tree t) key = Some b"
  shows "\<exists>w p1 p2. m key = Some w \<and> free_value t b p = Some p1 \<and> holds p1 (without (Some b) h) \<and>
    decode_stored t b p1 = Some (p2, Inr w) \<and> holds p2 (without (Some b) h)"
proof -
  from old_value [OF ok b] obtain w where w: "m key = Some w" "stored_as t h b (encode_row w)" by blast
  from free_then_decode [OF p w(2) rows_okD(3) [OF ok w(1)]] w(1) show ?thesis by blast
qed

lemma remove_raw_law:
  assumes ok: "table_ok t h m" and p: "holds p h"
  shows "\<exists>t' p' h'. remove_raw key t p = Some (t', p') \<and> holds p' h' \<and> frames_others t t' h h' \<and> same_shape t t' \<and>
    table_ok t' h' (m(key := None))"
proof -
  note R = table_okD(1) [OF ok]
  let ?prev = "abs_map (t_tree t) key"
  from bt.rem_law [OF rows_okD(1) [OF R], of key] obtain tr where
    tr: "btree_remove key (t_tree t) = Some (?prev, tr)" "btree_ok tr" "abs_map tr = (abs_map (t_tree t))(key := None)" by blast
  note rows = rows_remove [OF R tr(2,3)]
  show ?thesis
  proof (cases ?prev)
    case None
    then have "m(key := None) = m" using rows_okD(2) [OF R] by (metis domIff fun_upd_triv)
    moreover have "list_all2 (carries (width t) (pk_col t) m) (t_indexes t) (t_indexes t)"
      using table_okD(2) [OF ok] by (simp add: list_all2_same carries_def)
    ultimately have "table_ok (t\<lparr>t_tree := tr\<rparr>) h (m(key := None)) \<and> same_shape t (t\<lparr>t_tree := tr\<rparr>)"
      using indexes_follow [OF conjunct1 [OF rows], of "t_indexes t"] None by simp
    moreover have "remove_raw key t p = Some (t\<lparr>t_tree := tr\<rparr>, p)" using tr(1) None by (simp add: remove_raw_def)
    ultimately show ?thesis using rows p None by auto
  next
    case (Some b)
    from freed_value [OF R p Some] obtain w p1 p2 where w: "m key = Some w" and fr: "free_value t b p = Some p1"
      "holds p1 (without (Some b) h)" "decode_stored t b p1 = Some (p2, Inr w)" "holds p2 (without (Some b) h)" by blast
    have wr: "row_ok t w" "encode_key (pk_of t w) = Inr key" using rows_okD(3,4) [OF R w] .
    then have dec: "decode_key key = Some (Inr (pk_of t w))" using decode_encode_key [OF _ wr(2)] by (simp add: row_ok_def)
    from removed_indexes [OF ok w] obtain xs where xs: "each_index (index_remove w (pk_of t w)) (t_indexes t) = Some (xs, Inr ())"
      "list_all2 (carries (width t) (pk_col t) (m(key := None))) (t_indexes t) xs" by blast
    note fin = indexes_follow [OF conjunct1 [OF rows] xs(2)]
    show ?thesis
    proof (cases "t_indexes t = []")
      case True
      then have "t\<lparr>t_tree := tr, t_indexes := xs\<rparr> = t\<lparr>t_tree := tr\<rparr>" using xs(2) by simp
      moreover have "remove_raw key t p = Some (t\<lparr>t_tree := tr\<rparr>, p1)" using tr(1) Some fr(1) True by (simp add: remove_raw_def)
      ultimately show ?thesis using fin rows fr(2) Some by auto
    next
      case False
      have "remove_raw key t p = Some (t\<lparr>t_tree := tr, t_indexes := xs\<rparr>, p2)"
        using tr(1) Some fr dec each_index_lenient [OF xs(1)] False by (simp add: remove_raw_def on_indexes_def)
      then show ?thesis using fin rows fr(4) Some by (auto simp: frames_others_def owned_def)
    qed
  qed
qed

lemma moved_strict:
  assumes ok: "table_ok t h m" and w: "m key = Some w" and r: "row_ok t r" "encode_key (pk_of t r) = Inr key"
  shows "\<forall>x \<in> set (t_indexes t). \<forall>x' res. index_move index_insert w r (pk_of t r) x = Some (x', res) \<longrightarrow>
    res = Inr () \<and> carries (width t) (pk_col t) (m(key \<mapsto> r)) x x'"
proof (intro ballI allI impI)
  fix x x' res assume x: "x \<in> set (t_indexes t)" and run: "index_move index_insert w r (pk_of t r) x = Some (x', res)"
  note R = table_okD(1) [OF ok]
  have wr: "row_ok t w" "encode_key (pk_of t w) = Inr key" using rows_okD(3,4) [OF R w] .
  have pk: "pk_of t r = pk_of t w" by (rule same_key [OF r(1) wr(1) r(2) wr(2)])
  have len: "length w = width t" "length r = width t" "sec_ok (r ! si_col x)" using wr(1) r(1) x by (auto simp: row_ok_def)
  from ii.moved_entry [OF table_okD(2) [OF ok x] table_okD(3) [OF ok x] w len pk run]
  show "res = Inr () \<and> carries (width t) (pk_col t) (m(key \<mapsto> r)) x x'" .
qed

lemma fresh_strict:
  assumes ok: "table_ok t h m" and r: "row_ok t r" and none: "m key = None"
  shows "\<forall>x \<in> set (t_indexes t). \<forall>x' res. index_insert r (pk_of t r) x = Some (x', res) \<longrightarrow>
    res = Inr () \<and> carries (width t) (pk_col t) (m(key \<mapsto> r)) x x'"
proof (intro ballI allI impI)
  fix x x' res assume x: "x \<in> set (t_indexes t)" and run: "index_insert r (pk_of t r) x = Some (x', res)"
  have "length r = width t" "key_ok (pk_of t r)" using r by (simp_all add: row_ok_def)
  from ii.fresh_entry [OF table_okD(2) [OF ok x] this none run]
  show "res = Inr () \<and> carries (width t) (pk_col t) (m(key \<mapsto> r)) x x'" .
qed

lemma settle_law:
  assumes ok: "table_ok t h m" and r: "row_ok t r" "encode_key (pk_of t r) = Inr key"
    and h1: "placed t h (encode_row r) raw h1" "holds p h1"
    and tr: "btree_ok tr" "abs_map tr = (abs_map (t_tree t))(key \<mapsto> raw)"
    and run: "settle index_insert r (abs_map (t_tree t) key) (t\<lparr>t_tree := tr\<rparr>) p = Some (t', p', res)"
  shows "\<exists>h'. holds p' h' \<and> frames_others t t' h h' \<and> same_shape t t' \<and> table_ok t' h' (m(key \<mapsto> r)) \<and> res = Inr (m key)"
proof -
  note R = table_okD(1) [OF ok]
  let ?prev = "abs_map (t_tree t) key"
  let ?h = "without ?prev h1" and ?m = "m(key \<mapsto> r)"
  note rows = rows_put [OF R r h1(1) tr]
  from displaced [OF R h1, of key] obtain p1 where p1: "free_prev t ?prev p = Some p1" "holds p1 ?h"
    "case ?prev of None \<Rightarrow> m key = None
     | Some b \<Rightarrow> \<exists>w p2. m key = Some w \<and> decode_stored t b p1 = Some (p2, Inr w) \<and> holds p2 ?h" by blast
  define f where "f = (case m key of None \<Rightarrow> index_insert r (pk_of t r) | Some w \<Rightarrow> index_move index_insert w r (pk_of t r))"
  obtain p2 where p2: "holds p2 ?h"
    "settle index_insert r ?prev (t\<lparr>t_tree := tr\<rparr>) p =
      (if t_indexes t = [] then Some (t\<lparr>t_tree := tr\<rparr>, p2, Inr (m key))
       else map_option (\<lambda>(xs, res). (t\<lparr>t_tree := tr, t_indexes := xs\<rparr>, p2, rbind res (\<lambda>_. Inr (m key)))) (each_index f (t_indexes t)))"
  proof (cases ?prev)
    case None
    then have "m key = None" using p1(3) by simp
    then have "settle index_insert r ?prev (t\<lparr>t_tree := tr\<rparr>) p =
      (if t_indexes t = [] then Some (t\<lparr>t_tree := tr\<rparr>, p1, Inr (m key))
       else map_option (\<lambda>(xs, res). (t\<lparr>t_tree := tr, t_indexes := xs\<rparr>, p1, rbind res (\<lambda>_. Inr (m key)))) (each_index f (t_indexes t)))"
      using None p1(1) row_at(1) [OF r(1)]
      by (simp add: settle_def f_def on_indexes_def pk_value_def map_conv_bind_option o_def split_def)
    then show ?thesis using that p1(2) by blast
  next
    case (Some b)
    then obtain w q where w: "m key = Some w" "decode_stored t b p1 = Some (q, Inr w)" "holds q ?h" using p1(3) by auto
    then have "settle index_insert r ?prev (t\<lparr>t_tree := tr\<rparr>) p =
      (if t_indexes t = [] then Some (t\<lparr>t_tree := tr\<rparr>, q, Inr (m key))
       else map_option (\<lambda>(xs, res). (t\<lparr>t_tree := tr, t_indexes := xs\<rparr>, q, rbind res (\<lambda>_. Inr (m key)))) (each_index f (t_indexes t)))"
      using Some p1(1) row_at(1) [OF r(1)]
      by (simp add: settle_def f_def on_indexes_def pk_value_def map_conv_bind_option o_def split_def)
    then show ?thesis using that w(3) by blast
  qed
  have each: "\<forall>x \<in> set (t_indexes t). \<forall>x' res. f x = Some (x', res) \<longrightarrow> res = Inr () \<and> carries (width t) (pk_col t) ?m x x'"
    using fresh_strict [OF ok r(1)] moved_strict [OF ok _ r] by (cases "m key") (simp_all add: f_def)
  obtain xs where xs: "t' = t\<lparr>t_tree := tr, t_indexes := xs\<rparr>" "p' = p2" "res = Inr (m key)"
    "list_all2 (carries (width t) (pk_col t) ?m) (t_indexes t) xs"
  proof (cases "t_indexes t = []")
    case True
    then have "t\<lparr>t_tree := tr, t_indexes := []\<rparr> = t\<lparr>t_tree := tr\<rparr>" by simp
    moreover have "t' = t\<lparr>t_tree := tr\<rparr>" "p' = p2" "res = Inr (m key)" using run p2(2) True by simp_all
    ultimately show ?thesis using that [of "[]"] True by simp
  next
    case False
    then obtain xs res' where "each_index f (t_indexes t) = Some (xs, res')" "t' = t\<lparr>t_tree := tr, t_indexes := xs\<rparr>" "p' = p2"
      "res = rbind res' (\<lambda>_. Inr (m key))" using run p2(2) by auto
    then show ?thesis using that each_index_returned [OF _ each] by force
  qed
  from indexes_follow [OF conjunct1 [OF rows] xs(4)] show ?thesis
    using xs(1-3) rows p2(1) by (intro exI [of _ ?h]) (simp add: frames_others_def owned_def)
qed

text \<open>Insertion, replacement, update and deletion by row.\<close>

lemma upsert_row_law:
  assumes ok: "table_ok t h m" and p: "holds p h" and r: "row_ok t r" "encode_key (pk_of t r) = Inr key"
    and run: "upsert_row r t p = Some (t', p', res)"
  shows "\<exists>h'. holds p' h' \<and> frames_others t t' h h' \<and> same_shape t t' \<and>
    (case res of Inl _ \<Rightarrow> t' = t \<and> h' = h | Inr old \<Rightarrow> old = m key \<and> table_ok t' h' (m(key \<mapsto> r)))"
proof -
  note R = table_okD(1) [OF ok]
  have nl: "\<not> is_locator (encode_row r)" using r(1) by (rule row_ok_not_locator)
  from alloc_value_law [OF p nl, of t] obtain p0 s where s: "alloc_value t (encode_row r) p = Some (p0, s)" by blast
  note pl = alloc_placed [OF p nl s]
  note key = row_at(2) [OF r(1), unfolded r(2)]
  show ?thesis
  proof (cases s)
    case (Inl e)
    then have "t' = t" "p' = p0" "res = Inl e" using run s key by (auto simp: upsert_row_def)
    then show ?thesis using Inl pl by (intro exI [of _ h]) (auto simp: frames_others_def same_shape_def)
  next
    case (Inr raw)
    then obtain h1 where h1: "placed t h (encode_row r) raw h1" "holds p0 h1" using pl by auto
    from run s key Inr obtain prev tr where put: "tree_put key raw (t_tree t) = Some (prev, tr)"
      and st: "settle index_insert r prev (t\<lparr>t_tree := tr\<rparr>) p0 = Some (t', p', res)"
      by (auto simp: upsert_row_def bind_eq_Some_conv)
    from tree_put_law [OF rows_okD(1) [OF R] put] have tr: "prev = abs_map (t_tree t) key" "btree_ok tr"
      "abs_map tr = (abs_map (t_tree t))(key \<mapsto> raw)" by auto
    from settle_law [OF ok r h1 tr(2,3) st [unfolded tr(1)]] show ?thesis by auto
  qed
qed

lemma settle_present: "settle ins r (Some b) t p = settle ins' r (Some b) t p"
proof (cases "free_prev t (Some b) p")
  case (Some p1)
  show ?thesis
  proof (cases "decode_stored t b p1")
    case Some': (Some d)
    obtain q w where d: "decode_stored t b p1 = Some (q, w)" using Some' by (cases d) simp
    show ?thesis using Some d by (cases w) (simp_all add: settle_def)
  qed (simp add: settle_def Some)
qed (simp add: settle_def)

lemma update_row_law:
  assumes ok: "table_ok t h m" and p: "holds p h" and r: "row_ok t r" "encode_key (pk_of t r) = Inr key" "m key \<noteq> None"
    and run: "update_row r t p = Some (t', p', res)"
  shows "\<exists>h'. holds p' h' \<and> frames_others t t' h h' \<and> same_shape t t' \<and>
    (case res of Inl _ \<Rightarrow> t' = t \<and> h' = h | Inr old \<Rightarrow> old = m key \<and> table_ok t' h' (m(key \<mapsto> r)))"
proof -
  note R = table_okD(1) [OF ok]
  have nl: "\<not> is_locator (encode_row r)" using r(1) by (rule row_ok_not_locator)
  from alloc_value_law [OF p nl, of t] obtain p0 s where s: "alloc_value t (encode_row r) p = Some (p0, s)" by blast
  note pl = alloc_placed [OF p nl s]
  note key = row_at(2) [OF r(1), unfolded r(2)]
  show ?thesis
  proof (cases s)
    case (Inl e)
    then have "t' = t" "p' = p0" "res = Inl e" using run s key by (auto simp: update_row_def)
    then show ?thesis using Inl pl by (intro exI [of _ h]) (auto simp: frames_others_def same_shape_def)
  next
    case (Inr raw)
    then obtain h1 where h1: "placed t h (encode_row r) raw h1" "holds p0 h1" using pl by auto
    obtain b where b: "abs_map (t_tree t) key = Some b" using r(3) rows_okD(2) [OF R] by (metis domD domIff)
    from bt.upd_law [OF rows_okD(1) [OF R], of key raw] b obtain tr where tr: "update_in_place key raw (t_tree t) = Some (Some b, tr)"
      "btree_ok tr" "abs_map tr = (abs_map (t_tree t))(key \<mapsto> raw)" by auto
    from run s key Inr tr(1) have "settle index_insert r (Some b) (t\<lparr>t_tree := tr\<rparr>) p0 = Some (t', p', res)"
      unfolding settle_present [of index_insert r b _ _ "\<lambda>_ _ x. Some (x, Inr ())"] by (simp add: update_row_def)
    from settle_law [OF ok r(1,2) h1 tr(2,3), unfolded b, OF this] show ?thesis by auto
  qed
qed

lemma insert_row_law:
  assumes ok: "table_ok t h m" and p: "holds p h" and r: "row_ok t r" "encode_key (pk_of t r) = Inr key"
    and run: "insert_row disp r t p = Some (t', p', res)"
  shows "\<exists>h'. holds p' h' \<and> frames_others t t' h h' \<and> same_shape t t' \<and>
    (case res of Inl e \<Rightarrow> t' = t \<and> h' = h \<and> (m key \<noteq> None \<longrightarrow> e = DuplicateKey (disp (pk_of t r)))
     | Inr _ \<Rightarrow> m key = None \<and> table_ok t' h' (m(key \<mapsto> r)))"
proof -
  note R = table_okD(1) [OF ok]
  note key = row_at(2) [OF r(1), unfolded r(2)]
  have get: "btree_get (t_tree t) key = Some (abs_map (t_tree t) key)" by (rule btree_get_ok [OF rows_okD(1) [OF R]])
  have dup: "(duplicate disp key :: unit result option) = Some (Inl (DuplicateKey (disp (pk_of t r))))"
    using decode_encode_key [OF _ r(2)] r(1) by (simp add: duplicate_def row_ok_def)
  show ?thesis
  proof (cases "abs_map (t_tree t) key")
    case (Some b)
    then have "m key \<noteq> None" using rows_okD(2) [OF R] by (metis domIff option.distinct(1))
    moreover have "t' = t" "p' = p" "res = Inl (DuplicateKey (disp (pk_of t r)))"
      using run key get Some dup by (auto simp: insert_row_def)
    ultimately show ?thesis using p by (intro exI [of _ h]) (auto simp: frames_others_def same_shape_def)
  next
    case None
    then have none: "m key = None" using rows_okD(2) [OF R] by (metis domIff)
    have nl: "\<not> is_locator (encode_row r)" using r(1) by (rule row_ok_not_locator)
    from alloc_value_law [OF p nl, of t] obtain p0 s where s: "alloc_value t (encode_row r) p = Some (p0, s)" by blast
    note pl = alloc_placed [OF p nl s]
    show ?thesis
    proof (cases s)
      case (Inl e)
      then have "t' = t" "p' = p0" "res = Inl e" using run s key get None by (auto simp: insert_row_def)
      then show ?thesis using Inl pl none by (intro exI [of _ h]) (auto simp: frames_others_def same_shape_def)
    next
      case (Inr raw)
      then obtain h1 where h1: "placed t h (encode_row r) raw h1" "holds p0 h1" using pl by auto
      from run s key get None Inr obtain new tr where ins: "tree_insert key raw (t_tree t) = Some (new, tr)"
        by (auto simp: insert_row_def bind_eq_Some_conv)
      from tree_insert_law [OF rows_okD(1) [OF R] ins] None have tr: "new" "btree_ok tr" "abs_map tr = (abs_map (t_tree t))(key \<mapsto> raw)"
        by (auto simp: map_insert_def)
      note rows = rows_put [OF R r h1(1) tr(2,3)]
      obtain xs where xs: "t' = t\<lparr>t_tree := tr, t_indexes := xs\<rparr>" "p' = p0" "res = Inr ()"
        "list_all2 (carries (width t) (pk_col t) (m(key \<mapsto> r))) (t_indexes t) xs"
      proof (cases "t_indexes t = []")
        case True
        then have "t\<lparr>t_tree := tr, t_indexes := []\<rparr> = t\<lparr>t_tree := tr\<rparr>" by simp
        moreover have "t' = t\<lparr>t_tree := tr\<rparr>" "p' = p0" "res = Inr ()" using run s key get None Inr ins tr(1) True by (auto simp: insert_row_def)
        ultimately show ?thesis using that [of "[]"] True by simp
      next
        case False
        then obtain xs where "each_index (index_insert r (pk_of t r)) (t_indexes t) = Some (xs, res)" "t' = t\<lparr>t_tree := tr, t_indexes := xs\<rparr>" "p' = p0"
          using run s key get None Inr ins tr(1) row_at(1) [OF r(1)] by (auto simp: insert_row_def on_indexes_def bind_eq_Some_conv)
        then show ?thesis using that each_index_returned [OF _ fresh_strict [OF ok r(1) none]] by blast
      qed
      from indexes_follow [OF conjunct1 [OF rows] xs(4)] show ?thesis
        using xs(1-3) rows h1(2) none None by (intro exI [of _ h1]) (simp add: frames_others_def owned_def)
    qed
  qed
qed

lemma delete_row_law:
  assumes ok: "table_ok t h m" and p: "holds p h" and d: "encode_key d = Inr key" "key_ok d"
  shows "\<exists>t' p' h'. delete_row d t p = Some (t', p', Inr (m key)) \<and> holds p' h' \<and> frames_others t t' h h' \<and> same_shape t t' \<and>
    table_ok t' h' (m(key := None))"
proof -
  note R = table_okD(1) [OF ok]
  let ?prev = "abs_map (t_tree t) key"
  from bt.rem_law [OF rows_okD(1) [OF R], of key] obtain tr where
    tr: "btree_remove key (t_tree t) = Some (?prev, tr)" "btree_ok tr" "abs_map tr = (abs_map (t_tree t))(key := None)" by blast
  note rows = rows_remove [OF R tr(2,3)]
  show ?thesis
  proof (cases ?prev)
    case None
    then have none: "m key = None" using rows_okD(2) [OF R] by (metis domIff)
    have "list_all2 (carries (width t) (pk_col t) m) (t_indexes t) (t_indexes t)"
      using table_okD(2) [OF ok] by (simp add: list_all2_same carries_def)
    then have "table_ok (t\<lparr>t_tree := tr\<rparr>) h (m(key := None)) \<and> same_shape t (t\<lparr>t_tree := tr\<rparr>)"
      using indexes_follow [OF conjunct1 [OF rows], of "t_indexes t"] None index_keys_absent [of m key, OF none] by simp
    moreover have "delete_row d t p = Some (t\<lparr>t_tree := tr\<rparr>, p, Inr (m key))" using tr(1) None d none by (simp add: delete_row_def)
    ultimately show ?thesis using rows p None by auto
  next
    case (Some b)
    from freed_value [OF R p Some] obtain w p1 p2 where w: "m key = Some w" and fr: "free_value t b p = Some p1"
      "holds p1 (without (Some b) h)" "decode_stored t b p1 = Some (p2, Inr w)" "holds p2 (without (Some b) h)" by blast
    have wr: "row_ok t w" "encode_key (pk_of t w) = Inr key" using rows_okD(3,4) [OF R w] .
    then have "decode_key key = Some (Inr (pk_of t w))" using decode_encode_key [OF _ wr(2)] by (simp add: row_ok_def)
    then have dw: "pk_of t w = d" using decode_encode_key [OF d(2,1)] by simp
    from removed_indexes [OF ok w] obtain xs where xs: "each_index (index_remove w d) (t_indexes t) = Some (xs, Inr ())"
      "list_all2 (carries (width t) (pk_col t) (m(key := None))) (t_indexes t) xs" unfolding dw by blast
    have "delete_row d t p = Some (t\<lparr>t_tree := tr, t_indexes := xs\<rparr>, p2, Inr (m key))"
      using tr(1) Some fr xs(1) d w by (simp add: delete_row_def on_indexes_def)
    then show ?thesis using indexes_follow [OF conjunct1 [OF rows] xs(2)] rows fr(4) Some by (auto simp: frames_others_def owned_def)
  qed
qed

section \<open>Reading\<close>

lemma get_row_law:
  assumes ok: "table_ok t h m" and p: "holds p h" and d: "encode_key d = Inr key"
  shows "\<exists>p'. get_row t d p = Some (p', Inr (m key)) \<and> holds p' h"
proof -
  note R = table_okD(1) [OF ok]
  have get: "btree_get (t_tree t) key = Some (abs_map (t_tree t) key)" by (rule btree_get_ok [OF rows_okD(1) [OF R]])
  show ?thesis
  proof (cases "m key")
    case None
    then have "abs_map (t_tree t) key = None" using rows_okD(2) [OF R] by (metis domIff)
    then show ?thesis using None get d p by (simp add: get_row_def)
  next
    case (Some r)
    from rows_okD(5) [OF R Some] obtain raw where raw: "abs_map (t_tree t) key = Some raw" "stored_as t h raw (encode_row r)" by blast
    from decode_stored_law [OF p raw(2) rows_okD(3) [OF R Some]] show ?thesis using get raw(1) d Some by (auto simp: get_row_def)
  qed
qed

lemma decode_entries_law:
  assumes R: "rows_ok t h m"
  shows "holds p h \<Longrightarrow> \<forall>(k, v) \<in> set es. abs_map (t_tree t) k = Some v \<Longrightarrow>
    \<exists>p'. decode_entries t es p = Some (p', Inr (map (\<lambda>(k, _). (pk_of t (the (m k)), the (m k))) es)) \<and> holds p' h"
proof (induction es arbitrary: p)
  case (Cons e es)
  obtain k v where e: "e = (k, v)" by (cases e)
  then have v: "abs_map (t_tree t) k = Some v" using Cons.prems(2) by simp
  from old_value [OF R v] obtain r where r: "m k = Some r" "stored_as t h v (encode_row r)" by blast
  have rk: "row_ok t r" "encode_key (pk_of t r) = Inr k" using rows_okD(3,4) [OF R r(1)] .
  then have dk: "decode_key k = Some (Inr (pk_of t r))" using decode_encode_key [OF _ rk(2)] by (simp add: row_ok_def)
  from decode_stored_law [OF Cons.prems(1) r(2) rk(1)] obtain p1 where p1: "decode_stored t v p = Some (p1, Inr r)" "holds p1 h" by blast
  from Cons.IH [OF p1(2)] Cons.prems(2) obtain p2 where
    "decode_entries t es p1 = Some (p2, Inr (map (\<lambda>(k, _). (pk_of t (the (m k)), the (m k))) es))" "holds p2 h" by auto
  then show ?case using e dk p1(1) r(1) by simp
qed simp

lemma ent_dom:
  assumes "btree_ok t"
  shows "fst ` set (ent (root t)) = dom (abs_map t)"
proof (intro set_eqI iffI)
  fix k assume "k \<in> fst ` set (ent (root t))"
  then obtain v where "(k, v) \<in> set (ent (root t))" by auto
  then show "k \<in> dom (abs_map t)" using ent_abs_map(2) [OF assms] by blast
next
  fix k assume "k \<in> dom (abs_map t)"
  then obtain v where "(k, v) \<in> set (ent (root t))" using ent_abs_map(2) [OF assms] by blast
  then show "k \<in> fst ` set (ent (root t))" by force
qed

lemma range_rows:
  assumes R: "rows_ok t h m" and p: "holds p h"
  shows "\<exists>ks p'. sorted_wrt (<) ks \<and> set ks = {k \<in> dom m. in_scan a ai b bi k} \<and>
    Option.bind (btree_range (t_tree t) a ai b bi) (\<lambda>es. decode_entries t es p) =
      Some (p', Inr (map (\<lambda>k. (pk_of t (the (m k)), the (m k))) ks)) \<and> holds p' h"
proof -
  let ?es = "filter (\<lambda>e. in_scan a ai b bi (fst e)) (ent (root (t_tree t)))"
  note tok = rows_okD(1) [OF R]
  have es: "btree_range (t_tree t) a ai b bi = Some ?es" by (rule btree_range_step [OF tok])
  have "\<forall>(k, v) \<in> set ?es. abs_map (t_tree t) k = Some v" using ent_abs_map(2) [OF tok] by auto
  from decode_entries_law [OF R p this] obtain p' where
    p': "decode_entries t ?es p = Some (p', Inr (map (\<lambda>(k, _). (pk_of t (the (m k)), the (m k))) ?es))" "holds p' h" by blast
  have "sorted_wrt (<) (map fst ?es)" using ent_abs_map(1) [OF tok] by (simp add: sorted_wrt_map sorted_wrt_filter)
  moreover have "set (map fst ?es) = {k \<in> dom m. in_scan a ai b bi k}"
  proof -
    have "fst ` set (ent (root (t_tree t))) = dom (abs_map (t_tree t))" by (rule ent_dom [OF tok])
    then show ?thesis unfolding rows_okD(2) [OF R] by auto
  qed
  moreover have "map (\<lambda>(k, _). (pk_of t (the (m k)), the (m k))) ?es = map (\<lambda>k. (pk_of t (the (m k)), the (m k))) (map fst ?es)"
    by (simp add: split_def)
  ultimately show ?thesis using es p' by (intro exI [of _ "map fst ?es"] exI [of _ p']) simp
qed

end
