(* ===== verification/Table_Scan.thy ===== *)
theory Table_Scan
  imports Table_Store
begin

text \<open>
  Scans of a table: the whole table, a primary-key range, a range over a secondary index; the creation of an
  index; restoring a snapshot; and the theorems about the table layer.
\<close>

section \<open>The order of indexed values\<close>

text \<open>Values that an index can compare: of one kind, or NULL.\<close>

definition kindred :: "datum \<Rightarrow> datum \<Rightarrow> bool" where
  "kindred a b \<longleftrightarrow> same_kind a b \<or> a = DNull \<or> b = DNull"

lemma kindred_sym: "kindred a b \<Longrightarrow> kindred b a"
  by (cases a; cases b) (simp_all add: kindred_def)

lemma prefix_less:
  assumes "sec_ok a" "sec_ok b" "kindred a b" "datum_lt a b"
  shows "encode_sec_key_prefix a @ x < encode_sec_key_prefix b @ y"
proof (cases "same_kind a b")
  case True
  then show ?thesis using sec_prefix_less assms by blast
next
  case False
  then have "a = DNull \<or> b = DNull" using assms(3) by (simp add: kindred_def)
  then show ?thesis
  proof
    assume "a = DNull"
    then show ?thesis using assms(4) by (cases b) (simp_all add: datum_cmp_def)
  next
    assume "b = DNull"
    then show ?thesis using assms(4) by (cases a) (simp_all add: datum_cmp_def cmp_def)
  qed
qed

lemma cmp_cases: "cmp a b = Greater \<longleftrightarrow> b < a" "cmp a b = Equal \<longleftrightarrow> a = b" for a b :: "'a :: linorder"
  by (auto simp: cmp_def)

lemma datum_cmp_swap:
  assumes "sec_ok a" "sec_ok b" "kindred a b"
  shows "datum_cmp a b = Greater \<longleftrightarrow> datum_lt b a"
  using assms by (cases a; cases b)
    (auto simp: kindred_def datum_cmp_def cmp_cases partial_cmp_f64_def unwrap_or_equal_def float_key_ok_def)

lemma datum_cmp_equal:
  assumes "sec_ok a" "sec_ok b" "kindred a b" "\<not> datum_lt a b" "\<not> datum_lt b a"
  shows "a = b"
proof (cases a; cases b)
  fix u v assume ab: "a = DFloat u" "b = DFloat v"
  then have "f64_eq u v" using assms by (auto simp: datum_cmp_def partial_cmp_Less f64_lt_def f64_eq_def float_key_ok_def)
  then show "a = b" using ab assms(1,2) float_key_eq by simp
qed (use assms in \<open>auto simp: kindred_def datum_cmp_def cmp_def dest: signed_word_eqI split: if_splits\<close>)

text \<open>So the order of the values is the order of their encodings.\<close>

lemma prefix_order:
  assumes "sec_ok a" "sec_ok b" "kindred a b"
  shows "datum_lt a b \<longleftrightarrow> encode_sec_key_prefix a < encode_sec_key_prefix b"
    "datum_cmp a b = Greater \<longleftrightarrow> encode_sec_key_prefix b < encode_sec_key_prefix a"
proof -
  have l: "datum_lt a b \<Longrightarrow> encode_sec_key_prefix a < encode_sec_key_prefix b" if "sec_ok a" "sec_ok b" "kindred a b" for a b
    using prefix_less [OF that, of "[]" "[]"] by simp
  have e: "datum_lt a b \<longleftrightarrow> encode_sec_key_prefix a < encode_sec_key_prefix b" if "sec_ok a" "sec_ok b" "kindred a b" for a b
    using l [OF that] l [OF that(2,1) kindred_sym [OF that(3)]] datum_cmp_equal [OF that] by (metis less_asym less_irrefl)
  show "datum_lt a b \<longleftrightarrow> encode_sec_key_prefix a < encode_sec_key_prefix b" by (rule e [OF assms])
  show "datum_cmp a b = Greater \<longleftrightarrow> encode_sec_key_prefix b < encode_sec_key_prefix a"
    unfolding datum_cmp_swap [OF assms] by (rule e [OF assms(2,1) kindred_sym [OF assms(3)]])
qed

definition in_bounds :: "(datum \<times> bool) option \<Rightarrow> (datum \<times> bool) option \<Rightarrow> datum \<Rightarrow> bool" where
  "in_bounds lo hi d \<longleftrightarrow> \<not> below_lo lo d \<and> \<not> beyond_hi hi d"

definition comparable :: "(datum \<times> bool) option \<Rightarrow> datum \<Rightarrow> bool" where
  "comparable b d \<longleftrightarrow> (case b of None \<Rightarrow> True | Some (v, _) \<Rightarrow> sec_ok v \<and> kindred d v)"

lemma beyond_mono:
  assumes "sec_ok a" "sec_ok b" "comparable hi a" "comparable hi b" "encode_sec_key_prefix a \<le> encode_sec_key_prefix b"
    and "beyond_hi hi a"
  shows "beyond_hi hi b"
proof (cases hi)
  case None
  then show ?thesis using assms(6) by (simp add: beyond_hi_def)
next
  case (Some x)
  obtain v i where hi: "hi = Some (v, i)" using Some by (cases x) simp
  have c: "sec_ok v" "kindred a v" "kindred b v" using assms(3,4) by (simp_all add: hi comparable_def)
  show ?thesis using assms(5,6) by (auto simp: hi beyond_hi_def prefix_order [OF assms(1) c(1,2)] prefix_order [OF assms(2) c(1,3)])
qed

lemma prefix_le_append: "(xs :: 'a :: linorder list) \<le> xs @ ys"
  by (induction xs) auto

lemma above_prefix:
  assumes "sec_ok a" "sec_ok v" "kindred a v" "\<not> below_lo (Some (v, i)) a"
  shows "encode_sec_key_prefix v \<le> encode_sec_key_prefix a @ x"
proof (cases "a = v")
  case True
  then show ?thesis using prefix_le_append by simp
next
  case False
  have "\<not> datum_lt a v" using assms(4) by (auto simp: below_lo_def split: if_splits)
  then have "datum_lt v a" using datum_cmp_equal [OF assms(1-3)] False by blast
  from prefix_less [OF assms(2,1) kindred_sym [OF assms(3)] this, of "[]" x] show ?thesis by simp
qed

section \<open>Scans of a secondary index\<close>

lemma pick_pks_filter:
  assumes "\<forall>k \<in> set ks. decode_sec_index_key k = Some (Inr (f k))"
    and "sorted_wrt (\<lambda>k k'. beyond_hi hi (fst (f k)) \<longrightarrow> beyond_hi hi (fst (f k'))) ks"
  shows "pick_pks lo hi ks = Some (Inr (map (\<lambda>k. snd (f k)) (filter (\<lambda>k. in_bounds lo hi (fst (f k))) ks)))"
  using assms
proof (induction ks)
  case (Cons k ks)
  have ih: "pick_pks lo hi ks = Some (Inr (map (\<lambda>k. snd (f k)) (filter (\<lambda>k. in_bounds lo hi (fst (f k))) ks)))" using Cons by simp
  obtain s pk where sp: "f k = (s, pk)" by (cases "f k")
  have d: "decode_sec_index_key k = Some (Inr (s, pk))" using Cons.prems(1) sp by simp
  show ?case
  proof (cases "beyond_hi hi s")
    case True
    then have "filter (\<lambda>k. in_bounds lo hi (fst (f k))) ks = []" using Cons.prems(2) sp by (auto simp: in_bounds_def)
    then show ?thesis using True ih d sp by (simp add: in_bounds_def)
  next
    case False
    then show ?thesis using ih d sp by (simp add: in_bounds_def)
  qed
qed simp

definition index_key :: "table \<Rightarrow> nat \<Rightarrow> row \<Rightarrow> key" where
  "index_key t col r = (case encode_sec_index_key (r ! col) (pk_of t r) of Inr k \<Rightarrow> k | Inl _ \<Rightarrow> [])"

lemma index_key_eq: "key_ok (pk_of t r) \<Longrightarrow> encode_sec_index_key (r ! col) (pk_of t r) = Inr (index_key t col r)"
  using sec_key_total [of "pk_of t r" "r ! col"] by (auto simp: index_key_def)

lemma index_key_split:
  assumes "key_ok (pk_of t r)"
  shows "\<exists>pk. index_key t col r = encode_sec_key_prefix (r ! col) @ pk"
  using index_key_eq [OF assms, of col] by (auto simp: encode_sec_index_key_def rbind_eq_Inr intro: sym)

lemma scan_secondary_law:
  assumes ok: "table_ok t h m" and x: "find (\<lambda>x. si_col x = col) (t_indexes t) = Some x"
    and kind: "\<And>k k' r r'. m k = Some r \<Longrightarrow> m k' = Some r' \<Longrightarrow> kindred (r ! col) (r' ! col)"
    and lo: "\<And>k r. m k = Some r \<Longrightarrow> comparable lo (r ! col)" and hi: "\<And>k r. m k = Some r \<Longrightarrow> comparable hi (r ! col)"
  shows "\<exists>rs. scan_secondary t col lo hi = Some (Inr (Some (map (pk_of t) rs))) \<and>
    set rs = {r. \<exists>k. m k = Some r \<and> in_bounds lo hi (r ! col)} \<and> sorted_wrt (\<lambda>r r'. index_key t col r < index_key t col r') rs"
proof -
  have xin: "x \<in> set (t_indexes t)" and xc: "si_col x = col" using x by (auto simp: find_Some_iff)
  have io: "btree_ok (si_tree x)" "dom (abs_map (si_tree x)) = index_keys col (pk_col t) m"
    using table_okD(2) [OF ok xin] xc by (simp_all add: index_ok_def)
  have kd: "keyed col (pk_col t) m" using table_okD(3) [OF ok xin] xc by simp
  have row: "key_ok (pk_of t r)" "sec_ok (r ! col)" if "m k = Some r" for k r using kd that by (simp_all add: keyed_def)
  let ?a = "map_option (\<lambda>(d, _). encode_sec_key_prefix d) lo"
  define ks where "ks = map fst (filter (\<lambda>e. in_scan ?a True None True (fst e)) (ent (root (si_tree x))))"
  have range: "btree_range (si_tree x) ?a True None True = Some (filter (\<lambda>e. in_scan ?a True None True (fst e)) (ent (root (si_tree x))))"
    by (rule btree_range_step [OF io(1)])
  have sorted: "sorted_wrt (<) ks" using ent_abs_map(1) [OF io(1)] by (simp add: ks_def sorted_wrt_map sorted_wrt_filter)
  have kset: "set ks = {k \<in> index_keys col (pk_col t) m. in_scan ?a True None True k}"
    using ent_dom [OF io(1)] io(2) by (auto simp: ks_def)
  define f where "f k = (THE sp. decode_sec_index_key k = Some (Inr sp))" for k
  have fk: "decode_sec_index_key (index_key t col r) = Some (Inr (r ! col, pk_of t r))" "f (index_key t col r) = (r ! col, pk_of t r)"
    if "m k = Some r" for k r
    using decode_encode_sec_index_key [OF row(2,1) [OF that] index_key_eq [OF row(1) [OF that], of col]] by (simp_all add: f_def)
  have ik: "k \<in> index_keys col (pk_col t) m \<longleftrightarrow> (\<exists>key r. m key = Some r \<and> k = index_key t col r)" for k
    using index_key_eq row(1) by (fastforce simp: index_keys_def)
  have dec: "\<forall>k \<in> set ks. decode_sec_index_key k = Some (Inr (f k))" using kset ik fk by auto
  have mono: "sorted_wrt (\<lambda>k k'. beyond_hi hi (fst (f k)) \<longrightarrow> beyond_hi hi (fst (f k'))) ks"
  proof (rule sorted_wrt_mono_rel [OF _ sorted], intro impI)
    fix k k' assume k: "k \<in> set ks" "k' \<in> set ks" and less: "k < k'" and b: "beyond_hi hi (fst (f k))"
    from k kset ik obtain a r a' r' where r: "m a = Some r" "k = index_key t col r" "m a' = Some r'" "k' = index_key t col r'" by auto
    note ab = row(2) [OF r(1)] row(2) [OF r(3)]
    from index_key_split [OF row(1) [OF r(1)], of col] index_key_split [OF row(1) [OF r(3)], of col] obtain u v where
      uv: "k = encode_sec_key_prefix (r ! col) @ u" "k' = encode_sec_key_prefix (r' ! col) @ v" using r(2,4) by auto
    have "\<not> datum_lt (r' ! col) (r ! col)" using prefix_less [OF ab(2,1) kind [OF r(3,1)], of v u] less uv by (auto dest: less_asym)
    then have "encode_sec_key_prefix (r ! col) \<le> encode_sec_key_prefix (r' ! col)"
      using prefix_order(1) [OF ab(2,1) kind [OF r(3,1)]] by simp
    from beyond_mono [OF ab hi [OF r(1)] hi [OF r(3)] this] b show "beyond_hi hi (fst (f k'))" using fk(2) r by simp
  qed
  define g where "g k = (THE r. \<exists>a. m a = Some r \<and> k = index_key t col r)" for k
  have gk: "g (index_key t col r) = r" if r: "m a = Some r" for a r
    unfolding g_def
  proof (rule the_equality)
    fix r' assume "\<exists>a. m a = Some r' \<and> index_key t col r = index_key t col r'"
    then obtain a' where r': "m a' = Some r'" "index_key t col r = index_key t col r'" by blast
    then have "a' = a" using index_key_unique [OF kd r index_key_eq [OF row(1) [OF r]] r'(1)] index_key_eq [OF row(1) [OF r'(1)], of col] by simp
    then show "r' = r" using r r'(1) by simp
  qed (use r in blast)
  define sel where "sel = filter (\<lambda>k. in_bounds lo hi (fst (f k))) ks"
  have row_of: "\<exists>a r. m a = Some r \<and> k = index_key t col r \<and> in_bounds lo hi (r ! col)" if "k \<in> set sel" for k
  proof -
    have k: "k \<in> set ks" "in_bounds lo hi (fst (f k))" using that by (simp_all add: sel_def)
    then obtain a r where "m a = Some r" "k = index_key t col r" using kset ik by blast
    then show ?thesis using k(2) fk(2) by force
  qed
  have "scan_secondary t col lo hi = Some (Inr (Some (map (\<lambda>k. snd (f k)) sel)))"
    using x range pick_pks_filter [OF dec mono, of lo] by (simp add: scan_secondary_def sel_def ks_def)
  moreover have "map (\<lambda>k. snd (f k)) sel = map (pk_of t) (map g sel)"
    using row_of fk(2) gk by (fastforce intro: map_cong)
  moreover have "set (map g sel) = {r. \<exists>k. m k = Some r \<and> in_bounds lo hi (r ! col)}"
  proof (intro set_eqI iffI)
    fix r assume "r \<in> set (map g sel)"
    then obtain k where "k \<in> set sel" "r = g k" by auto
    with row_of [OF this(1)] gk show "r \<in> {r. \<exists>k. m k = Some r \<and> in_bounds lo hi (r ! col)}" by auto
  next
    fix r assume "r \<in> {r. \<exists>k. m k = Some r \<and> in_bounds lo hi (r ! col)}"
    then obtain a where a: "m a = Some r" "in_bounds lo hi (r ! col)" by blast
    let ?k = "index_key t col r"
    have "in_scan ?a True None True ?k"
    proof (cases lo)
      case (Some b)
      obtain v i where v: "lo = Some (v, i)" using Some by (cases b) simp
      then have c: "sec_ok v" "kindred (r ! col) v" using lo [OF a(1)] by (simp_all add: comparable_def)
      obtain u where "?k = encode_sec_key_prefix (r ! col) @ u" using index_key_split [OF row(1) [OF a(1)]] by blast
      then have "encode_sec_key_prefix v \<le> ?k" using above_prefix [OF row(2) [OF a(1)] c] a(2) v by (auto simp: in_bounds_def)
      then show ?thesis by (simp add: v in_scan_def before_start_def past_end_def)
    qed (simp add: in_scan_def before_start_def past_end_def)
    then have "?k \<in> set sel" using kset ik a fk(2) [OF a(1)] by (auto simp: sel_def)
    then show "r \<in> set (map g sel)" using gk [OF a(1)] by force
  qed
  moreover have "sorted_wrt (\<lambda>r r'. index_key t col r < index_key t col r') (map g sel)"
  proof -
    have "sorted_wrt (<) sel" using sorted by (simp add: sel_def sorted_wrt_filter)
    then have "sorted_wrt (\<lambda>k k'. index_key t col (g k) < index_key t col (g k')) sel"
    proof (rule sorted_wrt_mono_rel [rotated])
      fix k k' assume "k \<in> set sel" "k' \<in> set sel" "k < k'"
      moreover have "index_key t col (g k) = k" if "k \<in> set sel" for k using row_of [OF that] gk by auto
      ultimately show "index_key t col (g k) < index_key t col (g k')" by simp
    qed
    then show ?thesis by (simp add: sorted_wrt_map)
  qed
  ultimately show ?thesis by (intro exI [of _ "map g sel"]) simp
qed

section \<open>Scans of the rows\<close>

lemma scan_law:
  assumes ok: "table_ok t h m" and p: "holds p h"
  shows "\<exists>ks p'. scan t p = Some (p', Inr (map (\<lambda>k. (pk_of t (the (m k)), the (m k))) ks)) \<and> holds p' h \<and>
    sorted_wrt (<) ks \<and> set ks = dom m"
proof -
  have all: "in_scan None True None True k" for k by (simp add: in_scan_def before_start_def past_end_def)
  from range_rows [OF table_okD(1) [OF ok] p, of None True None True] show ?thesis
    unfolding scan_def scan_all_def by (auto simp: all)
qed

definition key_comparable :: "(datum \<times> bool) option \<Rightarrow> datum \<Rightarrow> bool" where
  "key_comparable b d \<longleftrightarrow> (case b of None \<Rightarrow> True | Some (v, _) \<Rightarrow> key_ok v \<and> same_kind d v)"

lemma same_kind_sym: "same_kind a b \<Longrightarrow> same_kind b a"
  by (cases a; cases b) simp_all

lemma key_order:
  assumes "key_ok a" "key_ok b" "same_kind a b" "encode_key a = Inr k1" "encode_key b = Inr k2"
  shows "datum_lt a b \<longleftrightarrow> k1 < k2" "datum_cmp a b = Greater \<longleftrightarrow> k2 < k1"
proof -
  show "datum_lt a b \<longleftrightarrow> k1 < k2" using encode_key_less_iff [OF assms] by simp
  have "sec_ok a" "sec_ok b" "kindred a b" using assms by (cases a; simp add: kindred_def; cases b; simp)+
  from datum_cmp_swap [OF this] encode_key_less_iff [OF assms(2,1) same_kind_sym [OF assms(3)] assms(5,4)]
  show "datum_cmp a b = Greater \<longleftrightarrow> k2 < k1" by simp
qed

lemma key_bounds:
  assumes "key_ok d" "encode_key d = Inr k" "key_comparable lo d" "key_comparable hi d"
    and "bound_key encode_key lo = Inr a" "bound_key encode_key hi = Inr b"
  shows "in_scan a (bound_incl lo) b (bound_incl hi) k \<longleftrightarrow> in_bounds lo hi d"
proof -
  have "before_start a (bound_incl lo) k \<longleftrightarrow> below_lo lo d"
  proof (cases lo)
    case (Some x)
    obtain v i where lo: "lo = Some (v, i)" using Some by (cases x) simp
    then obtain kv where kv: "encode_key v = Inr kv" "a = Some kv" using assms(5) by (auto simp: bound_key_def rbind_eq_Inr)
    have "key_ok v" "same_kind d v" using assms(3) by (simp_all add: lo key_comparable_def)
    from key_order [OF assms(1) this assms(2) kv(1)] show ?thesis
      by (auto simp: lo kv(2) before_start_def bound_incl_def below_lo_def)
  qed (use assms(5) in \<open>simp add: bound_key_def before_start_def below_lo_def\<close>)
  moreover have "past_end b (bound_incl hi) k \<longleftrightarrow> beyond_hi hi d"
  proof (cases hi)
    case (Some x)
    obtain v i where hi: "hi = Some (v, i)" using Some by (cases x) simp
    then obtain kv where kv: "encode_key v = Inr kv" "b = Some kv" using assms(6) by (auto simp: bound_key_def rbind_eq_Inr)
    have "key_ok v" "same_kind d v" using assms(4) by (simp_all add: hi key_comparable_def)
    from key_order [OF assms(1) this assms(2) kv(1)] show ?thesis
      by (auto simp: hi kv(2) past_end_def bound_incl_def beyond_hi_def)
  qed (use assms(6) in \<open>simp add: bound_key_def past_end_def beyond_hi_def\<close>)
  ultimately show ?thesis by (simp add: in_scan_def in_bounds_def)
qed

lemma scan_range_law:
  assumes ok: "table_ok t h m" and p: "holds p h"
    and lo: "\<And>k r. m k = Some r \<Longrightarrow> key_comparable lo (pk_of t r)" and hi: "\<And>k r. m k = Some r \<Longrightarrow> key_comparable hi (pk_of t r)"
    and e: "bound_key encode_key lo = Inr a" "bound_key encode_key hi = Inr b"
  shows "\<exists>ks p'. scan_range t lo hi p = Some (p', Inr (map (\<lambda>k. (pk_of t (the (m k)), the (m k))) ks)) \<and> holds p' h \<and>
    sorted_wrt (<) ks \<and> set ks = {k. \<exists>r. m k = Some r \<and> in_bounds lo hi (pk_of t r)}"
proof -
  note R = table_okD(1) [OF ok]
  from range_rows [OF R p, of a "bound_incl lo" b "bound_incl hi"] obtain ks p' where
    ks: "sorted_wrt (<) ks" "set ks = {k \<in> dom m. in_scan a (bound_incl lo) b (bound_incl hi) k}"
    and run: "scan_range t lo hi p = Some (p', Inr (map (\<lambda>k. (pk_of t (the (m k)), the (m k))) ks))" "holds p' h"
    unfolding scan_range_def e by auto
  have "in_scan a (bound_incl lo) b (bound_incl hi) k \<longleftrightarrow> in_bounds lo hi (pk_of t r)" if r: "m k = Some r" for k r
    using key_bounds [OF _ rows_okD(4) [OF R r] lo [OF r] hi [OF r] e] rows_okD(3) [OF R r] by (simp add: row_ok_def)
  then have "set ks = {k. \<exists>r. m k = Some r \<and> in_bounds lo hi (pk_of t r)}" unfolding ks(2) by auto
  then show ?thesis using ks(1) run by blast
qed

section \<open>A new index, a new table, a restored entry\<close>

lemma takeWhile_length: "x \<in> set xs \<Longrightarrow> \<not> P x \<Longrightarrow> length (takeWhile P xs) < length xs"
  by (induction xs) auto

lemma index_of_width: "index_of s c = Some i \<Longrightarrow> i < length (columns s)"
  using takeWhile_length [of c "map cd_name (columns s)" "\<lambda>n. n \<noteq> c"] by (auto simp: index_of_def Let_def split: if_splits)

lemma build_index_law:
  "build_index col pkc rs tr = Some (tr', res) \<Longrightarrow> btree_ok tr \<Longrightarrow>
   \<forall>r \<in> set rs. col < length r \<and> pkc < length r \<and> key_ok (r ! pkc) \<Longrightarrow>
   res = Inr () \<and> btree_ok tr' \<and>
   dom (abs_map tr') = dom (abs_map tr) \<union> {k. \<exists>r \<in> set rs. encode_sec_index_key (r ! col) (r ! pkc) = Inr k}"
proof (induction rs arbitrary: tr)
  case (Cons r rs)
  obtain k where k: "encode_sec_index_key (r ! col) (r ! pkc) = Inr k" using sec_key_total [of "r ! pkc" "r ! col"] Cons.prems(3) by auto
  from Cons.prems(1,3) k obtain b tr1 where t1: "tree_insert k [] tr = Some (b, tr1)" "build_index col pkc rs tr1 = Some (tr', res)"
    by (auto simp: at_Some bind_eq_Some_conv)
  from tree_insert_law [OF Cons.prems(2) t1(1)] have ok: "btree_ok tr1" "dom (abs_map tr1) = insert k (dom (abs_map tr))"
    by (auto simp: map_insert_def)
  from Cons.IH [OF t1(2) ok(1)] Cons.prems(3) ok(2) k show ?case by auto
qed simp

lemma rows_ok_more_indexes:
  assumes R: "rows_ok t h m" and x: "\<And>k r. m k = Some r \<Longrightarrow> si_col x < length r \<and> sec_ok (r ! si_col x)"
  shows "rows_ok (t\<lparr>t_indexes := t_indexes t @ [x]\<rparr>) h m" (is "rows_ok ?t h m")
proof -
  have "row_ok ?t r" if "m k = Some r" for k r using rows_okD(3) [OF R that] x [OF that] by (auto simp: row_ok_def)
  moreover have "stored_as ?t = stored_as t" by (simp add: fun_eq_iff stored_as_def)
  ultimately show ?thesis using R by (simp add: rows_ok_def)
qed

lemma the_image_dom: "(\<lambda>k. the (m k)) ` dom m = ran m"
proof (intro set_eqI iffI)
  fix r assume "r \<in> ran m"
  then obtain k where k: "m k = Some r" by (auto simp: ran_def)
  then have "the (m k) \<in> (\<lambda>k. the (m k)) ` dom m" by (intro imageI) blast
  then show "r \<in> (\<lambda>k. the (m k)) ` dom m" using k by simp
qed (auto simp: ran_def)

lemma add_index_law:
  assumes ok: "table_ok t h m" and p: "holds p h" and col: "index_of (td_schema (t_def t)) column = Some col"
    and sec: "\<And>k r. m k = Some r \<Longrightarrow> sec_ok (r ! col)"
    and run: "add_index name column t p = Some (t', p', Inr ())"
  shows "holds p' h \<and> table_ok t' h m \<and> has_index name t'"
proof -
  note R = table_okD(1) [OF ok]
  have c: "col < width t" using col by (rule index_of_width)
  from scan_law [OF ok p] obtain ks q where sc: "scan t p = Some (q, Inr (map (\<lambda>k. (pk_of t (the (m k)), the (m k))) ks))" "holds q h"
    "set ks = dom m" by blast
  let ?rs = "map (\<lambda>k. the (m k)) ks"
  have map_eq: "map (\<lambda>x. snd (case x of k \<Rightarrow> (pk_of t (the (m k)), the (m k)))) ks = ?rs" by simp
  let ?x = "\<lambda>tr. \<lparr>si_def = \<lparr>ix_name = name, ix_column = column\<rparr>, si_col = col, si_tree = tr\<rparr>"
  from run col sc(1) obtain tr r where b': "build_index col (pk_col t) ?rs btree_new = Some (tr, r)"
    and r: "(case r of Inl e \<Rightarrow> Some (t, q, Inl e) | Inr _ \<Rightarrow> Some (t\<lparr>t_indexes := t_indexes t @ [?x tr]\<rparr>, q, Inr ())) = Some (t', p', Inr ())"
    by (auto simp: add_index_def o_def bind_eq_Some_conv split: if_splits)
  have b: "build_index col (pk_col t) ?rs btree_new = Some (tr, Inr ())" using b' r by (cases r) auto
  have t': "t' = t\<lparr>t_indexes := t_indexes t @ [?x tr]\<rparr>" "p' = q" using r by (cases r; simp)+
  have row: "length r = width t" "pk_col t < length r" "key_ok (pk_of t r)" if "m k = Some r" for k r
    using rows_okD(3) [OF R that] by (simp_all add: row_ok_def)
  have rs: "set ?rs = ran m" using the_image_dom [of m] sc(3) by simp
  have "\<forall>r \<in> set ?rs. col < length r \<and> pk_col t < length r \<and> key_ok (pk_of t r)"
    unfolding rs using row c by (auto simp: ran_def)
  from build_index_law [OF b conjunct1 [OF btree_new_ok] this] have "btree_ok tr"
    "dom (abs_map tr) = {k. \<exists>r \<in> ran m. encode_sec_index_key (r ! col) (pk_of t r) = Inr k}" unfolding rs using btree_new_ok by auto
  moreover have "{k. \<exists>r \<in> ran m. encode_sec_index_key (r ! col) (pk_of t r) = Inr k} = index_keys col (pk_col t) m"
    by (auto simp: index_keys_def ran_def)
  ultimately have "index_ok (width t) (pk_col t) m \<lparr>si_def = \<lparr>ix_name = name, ix_column = column\<rparr>, si_col = col, si_tree = tr\<rparr>"
    using c by (simp add: index_ok_def)
  moreover have "rows_ok t' h m" unfolding t'(1) by (rule rows_ok_more_indexes [OF R]) (use row c sec in simp)
  ultimately have "table_ok t' h m" using table_okD(2) [OF ok] t'(1) by (auto simp: table_ok_def)
  then show ?thesis using t' sc(2) by (simp add: has_index_def)
qed

lemma table_new_law:
  "table_ok (set_pool (table_new def)) h Map.empty" "table_ok (table_new def) h Map.empty"
proof -
  have idx: "index_ok (length (columns (td_schema def))) pkc Map.empty x" if "x \<in> set (t_indexes (table_new def))" for x pkc
    using that btree_new_ok
    by (auto simp: table_new_def map_filter_def index_ok_def index_keys_def index_of_width)
  then show "table_ok (table_new def) h Map.empty" "table_ok (set_pool (table_new def)) h Map.empty"
    using btree_new_ok by (auto simp: table_ok_def rows_ok_def set_pool_def) (simp_all add: table_new_def)
qed

section \<open>Validation\<close>

definition cell_ok :: "column_def \<Rightarrow> datum \<Rightarrow> bool" where
  "cell_ok c d \<longleftrightarrow> accepts (cd_type c) d \<and> (d = DNull \<longrightarrow> cd_nullable c \<or> cd_default c = Some DNull)"

lemma accepts_null: "accepts ty DNull"
  by (cases ty) simp_all

lemma coerce_null: "coerce ty d = DNull \<longleftrightarrow> d = DNull"
  by (auto simp: coerce_def split: datum.splits option.splits)

lemma validate_cell_ok: "validate_cell c d = Inr d' \<Longrightarrow> cell_ok c d'"
  by (auto simp: validate_cell_def cell_ok_def Let_def accepts_null coerce_null default_of_def split: if_splits option.splits)

lemma validate_cells_ok:
  "validate_cells cs ds = Inr ds' \<Longrightarrow> length cs = length ds \<Longrightarrow> list_all2 cell_ok cs ds'"
  by (induction cs ds arbitrary: ds' rule: validate_cells.induct) (auto simp: rbind_eq_Inr validate_cell_ok)

section \<open>The auto-increment counter\<close>

definition counter_ok :: "table \<Rightarrow> (key \<rightharpoonup> row) \<Rightarrow> bool" where
  "counter_ok t m \<longleftrightarrow>
     (case t_auto_inc t of
        None \<Rightarrow> True
      | Some st \<Rightarrow> 1 \<le> unat (ai_next st) \<and> unat (ai_next st) \<le> 2 ^ 63 \<and>
          (\<forall>k r v. m k = Some r \<longrightarrow> pk_of t r = DInt v \<longrightarrow> 0 \<le> sint v \<longrightarrow> unat v < unat (ai_next st)))"

lemma sint_nonneg: "0 \<le> sint (v :: u64) \<longleftrightarrow> unat v < 2 ^ 63"
proof (cases "unat v < 2 ^ 63")
  case False
  have "int (unat v) < 2 ^ 64" using unat_u64_less [of v] by (metis of_nat_less_iff of_nat_numeral of_nat_power)
  then show ?thesis using False by (simp add: sint_unat)
qed (simp add: sint_unat)

definition nonneg_key :: "key \<Rightarrow> u64 \<Rightarrow> bool" where
  "nonneg_key k v \<longleftrightarrow> decode_key k = Some (Inr (DInt v)) \<and> 0 \<le> sint v"

lemma max_int_key_law:
  assumes "\<forall>k \<in> set ks. decode_key k \<noteq> None" "\<forall>w. m0 = Some w \<longrightarrow> unat w < 2 ^ 63"
  shows "\<exists>m1. max_int_key ks m0 = Some m1 \<and> (\<forall>w. m1 = Some w \<longrightarrow> unat w < 2 ^ 63) \<and>
    (\<forall>w. m0 = Some w \<longrightarrow> (\<exists>w1. m1 = Some w1 \<and> w \<le> w1)) \<and> (\<forall>k \<in> set ks. \<forall>v. nonneg_key k v \<longrightarrow> (\<exists>w1. m1 = Some w1 \<and> v \<le> w1))"
  using assms
proof (induction ks arbitrary: m0)
  case (Cons k ks)
  define m' where "m' = (case decode_key k of Some (Inr (DInt v)) \<Rightarrow> if 0 \<le> sint v then Some (case m0 of None \<Rightarrow> v | Some m \<Rightarrow> max m v) else m0 | _ \<Rightarrow> m0)"
  have run: "max_int_key (k # ks) m0 = max_int_key ks m'"
    using Cons.prems(1) by (auto simp: m'_def split: option.splits sum.splits datum.splits)
  have m': "\<forall>w. m' = Some w \<longrightarrow> unat w < 2 ^ 63" "\<forall>w. m0 = Some w \<longrightarrow> (\<exists>w1. m' = Some w1 \<and> w \<le> w1)"
    "\<forall>v. nonneg_key k v \<longrightarrow> (\<exists>w1. m' = Some w1 \<and> v \<le> w1)"
    using Cons.prems(2) by (auto simp: m'_def nonneg_key_def sint_nonneg max_def split: option.splits sum.splits datum.splits if_splits)
  have "\<forall>k \<in> set ks. decode_key k \<noteq> None" using Cons.prems(1) by simp
  from Cons.IH [OF this m'(1)] obtain m1 where m1: "max_int_key ks m' = Some m1" "\<forall>w. m1 = Some w \<longrightarrow> unat w < 2 ^ 63"
    "\<forall>w. m' = Some w \<longrightarrow> (\<exists>w1. m1 = Some w1 \<and> w \<le> w1)" "\<forall>k \<in> set ks. \<forall>v. nonneg_key k v \<longrightarrow> (\<exists>w1. m1 = Some w1 \<and> v \<le> w1)" by metis
  have up: "\<exists>w1. m1 = Some w1 \<and> v \<le> w1" if "\<exists>w1. m' = Some w1 \<and> v \<le> w1" for v using that m1(3) order_trans by blast
  show ?case unfolding run using m1(1,2,4) up m'(2,3) by (intro exI [of _ m1]) simp
qed simp

lemma refresh_law:
  assumes ok: "table_ok t h m" and st: "t_auto_inc t = Some st"
  shows "\<exists>n. refresh_auto_inc t = Some (t\<lparr>t_auto_inc := Some (st\<lparr>ai_next := n\<rparr>)\<rparr>) \<and>
    counter_ok (t\<lparr>t_auto_inc := Some (st\<lparr>ai_next := n\<rparr>)\<rparr>) m"
proof -
  note R = table_okD(1) [OF ok]
  let ?ks = "map fst (ent (root (t_tree t)))"
  have "in_scan None True None True = (\<lambda>_. True)" by (simp add: fun_eq_iff in_scan_def before_start_def past_end_def)
  then have sc: "scan_all (t_tree t) = Some (ent (root (t_tree t)))"
    unfolding scan_all_def btree_range_step [OF rows_okD(1) [OF R]] by simp
  have ks: "set ?ks = dom m" using ent_dom [OF rows_okD(1) [OF R]] rows_okD(2) [OF R] by simp
  have dec: "decode_key k = Some (Inr (pk_of t r))" if "m k = Some r" for k r
    using decode_encode_key [OF _ rows_okD(4) [OF R that]] rows_okD(3) [OF R that] by (simp add: row_ok_def)
  have "\<forall>k \<in> set ?ks. decode_key k \<noteq> None" unfolding ks using dec by auto
  from max_int_key_law [OF this, of None] obtain m1 where m1: "max_int_key ?ks None = Some m1" "\<forall>w. m1 = Some w \<longrightarrow> unat w < 2 ^ 63"
    "\<forall>k \<in> set ?ks. \<forall>v. nonneg_key k v \<longrightarrow> (\<exists>w1. m1 = Some w1 \<and> v \<le> w1)" by auto
  define n where "n = (case m1 of None \<Rightarrow> 1 | Some m \<Rightarrow> saturating_add m 1)"
  have n: "unat n = (case m1 of None \<Rightarrow> 1 | Some w \<Rightarrow> unat w + 1)"
    using m1(2) by (cases m1) (simp_all add: n_def saturating_add_def unat_word_ariths)
  have "unat v < unat n" if "m k = Some r" "pk_of t r = DInt v" "0 \<le> sint v" for k r v
  proof -
    have "nonneg_key k v" using dec [OF that(1)] that(2,3) by (simp add: nonneg_key_def)
    moreover have "k \<in> set ?ks" unfolding ks using that(1) by blast
    ultimately obtain w where "m1 = Some w" "v \<le> w" using m1(3) by blast
    then show ?thesis using n by (simp add: word_le_nat_alt)
  qed
  moreover have "1 \<le> unat n" "unat n \<le> 2 ^ 63" using n m1(2) by (cases m1; simp)+
  ultimately have "counter_ok (t\<lparr>t_auto_inc := Some (st\<lparr>ai_next := n\<rparr>)\<rparr>) m" by (simp add: counter_ok_def)
  moreover have "refresh_auto_inc t = Some (t\<lparr>t_auto_inc := Some (st\<lparr>ai_next := n\<rparr>)\<rparr>)"
    using st sc m1(1) by (simp add: refresh_auto_inc_def n_def)
  ultimately show ?thesis by blast
qed

lemma counter_ok_mono:
  assumes c: "counter_ok t m" and st: "t_auto_inc t = Some st" and n: "unat (ai_next st) \<le> unat n" "unat n \<le> 2 ^ 63"
    and new: "\<forall>v. pk_of t r = DInt v \<longrightarrow> 0 \<le> sint v \<longrightarrow> unat v < unat n"
  shows "counter_ok (t\<lparr>t_auto_inc := Some (st\<lparr>ai_next := n\<rparr>)\<rparr>) (m(k \<mapsto> r))"
proof -
  have old: "unat v < unat n" if "m k' = Some w" "pk_of t w = DInt v" "0 \<le> sint v" for k' w v
    using c that n(1) unfolding counter_ok_def st by fastforce
  have "1 \<le> unat n" using c n(1) by (simp add: counter_ok_def st)
  then show ?thesis using n(2) new old by (auto simp: counter_ok_def)
qed

lemma counter_ok_same:
  assumes "counter_ok t m" "t_auto_inc t = Some st" "\<forall>v. pk_of t r = DInt v \<longrightarrow> 0 \<le> sint v \<longrightarrow> unat v < unat (ai_next st)"
  shows "counter_ok t (m(k \<mapsto> r))"
  using assms by (auto simp: counter_ok_def)

lemma assign_law:
  assumes c: "counter_ok t m" and st: "t_auto_inc t = Some st" "ai_col st = pk_col t"
    and run: "assign_auto_inc r t = (t', Inr r')"
  shows "counter_ok t' (m(k \<mapsto> r')) \<and> (pk_of t r = DNull \<longrightarrow> (\<exists>n. pk_of t r' = DInt n \<and> 1 \<le> sint n \<and>
    (\<forall>k' w v. m k' = Some w \<longrightarrow> pk_of t w = DInt v \<longrightarrow> 0 \<le> sint v \<longrightarrow> sint v < sint n)))"
proof -
  have len: "pk_col t < length r" using run st by (auto simp: assign_auto_inc_def split: if_splits)
  have nb: "1 \<le> unat (ai_next st)" "unat (ai_next st) \<le> 2 ^ 63"
    "\<And>k r v. m k = Some r \<Longrightarrow> pk_of t r = DInt v \<Longrightarrow> 0 \<le> sint v \<Longrightarrow> unat v < unat (ai_next st)"
    using c by (auto simp: counter_ok_def st(1))
  have sint_pos: "sint v = int (unat v)" if "unat v < 2 ^ 63" for v :: u64 using that by (simp add: sint_unat)
  show ?thesis
  proof (cases "r ! pk_col t")
    case DNull
    let ?n = "ai_next st"
    have r': "r' = r[pk_col t := DInt ?n]" and t': "t' = t\<lparr>t_auto_inc := Some (st\<lparr>ai_next := ?n + 1\<rparr>)\<rparr>" and lt: "unat ?n < 2 ^ 63"
      using run st len DNull by (auto simp: assign_auto_inc_def split: if_splits)
    have pk': "pk_of t r' = DInt ?n" unfolding r' using len by simp
    have inc: "unat (?n + 1) = unat ?n + 1" using lt by (simp add: unat_word_ariths)
    have "counter_ok t' (m(k \<mapsto> r'))" unfolding t' using counter_ok_mono [OF c st(1)] inc lt pk' by simp
    moreover have "sint v < sint ?n" if "m k' = Some w" "pk_of t w = DInt v" "0 \<le> sint v" for k' w v
      unfolding sint_pos [OF lt] sint_pos [OF less_trans [OF nb(3) [OF that] lt]] using nb(3) [OF that] by (simp only: of_nat_less_iff)
    moreover have "1 \<le> sint ?n" unfolding sint_pos [OF lt] using nb(1) by linarith
    ultimately show ?thesis using pk' by blast
  next
    case (DInt v)
    have [simp]: "r' = r" and pk: "pk_of t r = DInt v"
      using run st len DInt by (auto simp: assign_auto_inc_def split: if_splits)
    show ?thesis
    proof (cases "0 \<le> sint v \<and> v \<ge> ai_next st")
      case True
      have t': "t' = t\<lparr>t_auto_inc := Some (st\<lparr>ai_next := saturating_add v 1\<rparr>)\<rparr>"
        using run st len DInt True by (auto simp: assign_auto_inc_def)
      have "unat v < 2 ^ 63" using True by (simp add: sint_nonneg)
      then have "unat (saturating_add v 1) = unat v + 1" by (simp add: saturating_add_def unat_word_ariths)
      then have "counter_ok t' (m(k \<mapsto> r'))" unfolding t'
        using counter_ok_mono [OF c st(1)] True pk \<open>unat v < 2 ^ 63\<close> by (simp add: word_le_nat_alt)
      then show ?thesis using pk by simp
    next
      case False
      have [simp]: "t' = t" using run st len DInt False by (auto simp: assign_auto_inc_def)
      have "counter_ok t (m(k \<mapsto> r))" using counter_ok_same [OF c st(1)] False pk by (auto simp: word_le_nat_alt)
      then show ?thesis using pk by simp
    qed
  qed (use run st len c in \<open>auto simp: assign_auto_inc_def intro!: counter_ok_same\<close>)
qed

end
