(* ===== verification/Table_Correct.thy ===== *)
theory Table_Correct
  imports Table_Scan
begin

text \<open>
  Histories of a table and the properties of the layer: any sequence of row operations acts on the rows
  like on a finite map from encoded primary keys to rows, and the scans read that map.
\<close>

section \<open>Histories\<close>

datatype tab_op =
  InsertRow row | UpsertRow row | UpdateRow row | DeleteRow datum | ApplyRow row | RemoveKey key

fun tab_exec :: "(datum \<Rightarrow> string) \<Rightarrow> tab_op \<Rightarrow> row option table_op" where
  "tab_exec disp (InsertRow r) t p = map_option (\<lambda>(t, p, res). (t, p, rbind res (\<lambda>_. Inr None))) (insert_row disp r t p)"
| "tab_exec disp (UpsertRow r) t p = upsert_row r t p"
| "tab_exec disp (UpdateRow r) t p = update_row r t p"
| "tab_exec disp (DeleteRow d) t p = delete_row d t p"
| "tab_exec disp (ApplyRow r) t p =
     (case encode_key (pk_of t r) of
        Inl e \<Rightarrow> Some (t, p, Inl e)
      | Inr k \<Rightarrow> map_option (\<lambda>(t, p, res). (t, p, rbind res (\<lambda>_. Inr None))) (apply_raw k (encode_row r) t p))"
| "tab_exec disp (RemoveKey k) t p = map_option (\<lambda>(t, p). (t, p, Inr None)) (remove_raw k t p)"

fun op_key :: "table \<Rightarrow> tab_op \<Rightarrow> key result" where
  "op_key t (DeleteRow d) = encode_key d"
| "op_key t (RemoveKey k) = Inr k"
| "op_key t (InsertRow r) = encode_key (pk_of t r)"
| "op_key t (UpsertRow r) = encode_key (pk_of t r)"
| "op_key t (UpdateRow r) = encode_key (pk_of t r)"
| "op_key t (ApplyRow r) = encode_key (pk_of t r)"

fun op_ok :: "table \<Rightarrow> tab_op \<Rightarrow> bool" where
  "op_ok t (DeleteRow d) \<longleftrightarrow> key_ok d"
| "op_ok t (RemoveKey k) \<longleftrightarrow> True"
| "op_ok t (InsertRow r) \<longleftrightarrow> row_ok t r"
| "op_ok t (UpsertRow r) \<longleftrightarrow> row_ok t r"
| "op_ok t (UpdateRow r) \<longleftrightarrow> row_ok t r"
| "op_ok t (ApplyRow r) \<longleftrightarrow> row_ok t r"

text \<open>The specification: what an operation on key \<open>k\<close> of a finite map of rows answers and leaves.\<close>

fun map_spec :: "key \<Rightarrow> tab_op \<Rightarrow> (key \<rightharpoonup> row) \<Rightarrow> row option result \<Rightarrow> (key \<rightharpoonup> row) \<Rightarrow> bool" where
  "map_spec k (DeleteRow d) m res m' \<longleftrightarrow> res = Inr (m k) \<and> m' = m(k := None)"
| "map_spec k (RemoveKey x) m res m' \<longleftrightarrow> res = Inr None \<and> m' = m(k := None)"
| "map_spec k op m (Inl e) m' \<longleftrightarrow> m' = m"
| "map_spec k (InsertRow r) m (Inr old) m' \<longleftrightarrow> m k = None \<and> old = None \<and> m' = m(k \<mapsto> r)"
| "map_spec k (UpsertRow r) m (Inr old) m' \<longleftrightarrow> old = m k \<and> m' = m(k \<mapsto> r)"
| "map_spec k (UpdateRow r) m (Inr old) m' \<longleftrightarrow> old = m k \<and> m' = (if m k = None then m else m(k \<mapsto> r))"
| "map_spec k (ApplyRow r) m (Inr old) m' \<longleftrightarrow> old = None \<and> m' = m(k \<mapsto> r)"

lemma each_index_skip: "each_index (\<lambda>x. Some (x, Inr ())) xs = Some (xs, Inr ())"
  by (induction xs) simp_all

lemma table_ok_placed:
  assumes ok: "table_ok t h m" and pl: "placed t h full raw h1"
    and tr: "btree_ok tr" "abs_map tr = abs_map (t_tree t)"
  shows "table_ok (t\<lparr>t_tree := tr\<rparr>) h1 m"
proof -
  note R = table_okD(1) [OF ok]
  have st: "stored_as (t\<lparr>t_tree := tr\<rparr>) h1 raw x" if "stored_as t h raw x" for raw x
    using stored_as_placed [OF pl that] by (simp add: stored_as_def)
  have row: "row_ok (t\<lparr>t_tree := tr\<rparr>) = row_ok t" by (intro ext row_ok_shape) (simp add: same_shape_def)
  have "\<exists>raw. abs_map tr key = Some raw \<and> stored_as (t\<lparr>t_tree := tr\<rparr>) h1 raw (encode_row r)" if "m key = Some r" for key r
    using rows_okD(5) [OF R that] st tr(2) by auto
  then have "rows_ok (t\<lparr>t_tree := tr\<rparr>) h1 m"
    using R tr unfolding rows_ok_def row by simp
  then show ?thesis using ok by (simp add: table_ok_def)
qed

text \<open>An update of a row that is not there answers \<open>None\<close> and leaves the rows alone; a wide row it stored
  stays in the pool.\<close>

lemma update_absent_law:
  assumes ok: "table_ok t h m" and p: "holds p h" and r: "row_ok t r" "encode_key (pk_of t r) = Inr key" "m key = None"
    and run: "update_row r t p = Some (t', p', res)"
  shows "\<exists>h'. holds p' h' \<and> frames_others t t' h h' \<and> same_shape t t' \<and> table_ok t' h' m \<and>
    (case res of Inl _ \<Rightarrow> t' = t \<and> h' = h | Inr old \<Rightarrow> old = None)"
proof -
  note R = table_okD(1) [OF ok]
  have nl: "\<not> is_locator (encode_row r)" using r(1) by (rule row_ok_not_locator)
  from alloc_value_law [OF p nl, of t] obtain p0 s where s: "alloc_value t (encode_row r) p = Some (p0, s)" by blast
  note pl = alloc_placed [OF p nl s]
  note key = row_at(2) [OF r(1), unfolded r(2)]
  show ?thesis
  proof (cases s)
    case (Inl e)
    then have "t' = t" "p' = p0" "res = Inl e" using run s key by (auto simp: update_row_def)
    then show ?thesis using Inl pl ok by (intro exI [of _ h]) (auto simp: frames_others_def same_shape_def)
  next
    case (Inr raw)
    then obtain h1 where h1: "placed t h (encode_row r) raw h1" "holds p0 h1" using pl by auto
    have n: "abs_map (t_tree t) key = None" using r(3) rows_okD(2) [OF R] by (metis domIff)
    from bt.upd_law [OF rows_okD(1) [OF R], of key raw] n obtain tr where tr: "update_in_place key raw (t_tree t) = Some (None, tr)"
      "btree_ok tr" "abs_map tr = abs_map (t_tree t)" by (auto simp: fun_upd_idem)
    have e: "t' = t\<lparr>t_tree := tr\<rparr>" "p' = p0" "res = Inr None"
      using run s key Inr tr(1) row_at(1) [OF r(1)] unfolding update_row_def settle_def on_indexes_def
      by (auto simp: free_prev_def each_index_skip pk_value_def split: if_splits)
    have "frames_others t t' h h1" using placed_mono [OF h1(1)] tr(3) unfolding e(1)
      by (auto simp: frames_others_def owned_def)
    then show ?thesis using table_ok_placed [OF ok h1(1) tr(2,3)] h1(2) unfolding e
      by (intro exI [of _ h1]) (simp add: same_shape_def)
  qed
qed

lemma tab_exec_law:
  assumes ok: "table_ok t h m" and p: "holds p h" and op: "op_ok t op" "op_key t op = Inr k"
    and run: "tab_exec disp op t p = Some (t', p', res)"
  shows "\<exists>h' m'. map_spec k op m res m' \<and> holds p' h' \<and> frames_others t t' h h' \<and> same_shape t t' \<and> table_ok t' h' m'"
proof (cases op)
  case (InsertRow r)
  then obtain res0 where 0: "insert_row disp r t p = Some (t', p', res0)" "res = rbind res0 (\<lambda>_. Inr None)" using run by auto
  from insert_row_law [OF ok p _ _ 0(1)] op InsertRow 0(2) ok show ?thesis by (cases res0) (auto; metis)+
next
  case (UpsertRow r)
  from upsert_row_law [OF ok p, of r k t' p' res] run op UpsertRow ok show ?thesis by (cases res) (auto; metis)+
next
  case (UpdateRow r)
  show ?thesis
  proof (cases "m k")
    case None
    from update_absent_law [OF ok p, of r k t' p' res] run op UpdateRow None ok show ?thesis by (cases res) (auto; metis)+
  next
    case (Some w)
    from update_row_law [OF ok p, of r k t' p' res] run op UpdateRow Some ok show ?thesis by (cases res) (auto; metis)+
  qed
next
  case (DeleteRow d)
  from delete_row_law [OF ok p, of d k] run op DeleteRow show ?thesis by auto
next
  case (ApplyRow r)
  then obtain res0 where 0: "apply_raw k (encode_row r) t p = Some (t', p', res0)" "res = rbind res0 (\<lambda>_. Inr None)" using run op by auto
  from apply_raw_law [OF ok p _ _ 0(1)] op ApplyRow 0(2) ok show ?thesis by (cases res0) (auto; metis)+
next
  case (RemoveKey x)
  from remove_raw_law [OF ok p, of x] run op RemoveKey show ?thesis by auto
qed

text \<open>Runs of operations, with the key, the operation and its answer.\<close>

inductive tab_run :: "(datum \<Rightarrow> string) \<Rightarrow> table \<Rightarrow> buffer_pool \<Rightarrow> (key \<times> tab_op \<times> row option result) list \<Rightarrow> table \<Rightarrow> buffer_pool \<Rightarrow> bool"
  for disp where
  tab_done: "tab_run disp t p [] t p"
| tab_step: "op_ok t op \<Longrightarrow> op_key t op = Inr k \<Longrightarrow> tab_exec disp op t p = Some (t1, p1, res) \<Longrightarrow>
    tab_run disp t1 p1 log t' p' \<Longrightarrow> tab_run disp t p ((k, op, res) # log) t' p'"

inductive map_run :: "(key \<rightharpoonup> row) \<Rightarrow> (key \<times> tab_op \<times> row option result) list \<Rightarrow> (key \<rightharpoonup> row) \<Rightarrow> bool" where
  map_done: "map_run m [] m"
| map_step: "map_spec k op m res m1 \<Longrightarrow> map_run m1 log m' \<Longrightarrow> map_run m ((k, op, res) # log) m'"

lemma same_shape_trans: "same_shape a b \<Longrightarrow> same_shape b c \<Longrightarrow> same_shape a c"
  by (simp add: same_shape_def)

lemma tab_run_law:
  assumes "tab_run disp t p log t' p'" "table_ok t h m" "holds p h"
  shows "\<exists>h' m'. map_run m log m' \<and> holds p' h' \<and> same_shape t t' \<and> table_ok t' h' m'"
  using assms
proof (induction arbitrary: h m rule: tab_run.induct)
  case (tab_done t p)
  then show ?case by (auto simp: same_shape_def intro: map_done)
next
  case (tab_step t op k p t1 p1 res log t' p')
  from tab_exec_law [OF tab_step.prems tab_step.hyps(1-3)] obtain h1 m1 where
    1: "map_spec k op m res m1" "holds p1 h1" "same_shape t t1" "table_ok t1 h1 m1" by auto
  from tab_step.IH [OF 1(4,2)] 1(1,3) show ?case by (meson map_step same_shape_trans)
qed

section \<open>A small table\<close>

definition people :: table_def where
  "people =
     \<lparr>td_name = ''people'',
      td_schema = \<lparr>columns = [\<lparr>cd_name = ''id'', cd_type = TInt, cd_nullable = False, cd_auto_increment = True, cd_default = None\<rparr>,
                            \<lparr>cd_name = ''city'', cd_type = TText, cd_nullable = True, cd_auto_increment = False, cd_default = None\<rparr>],
                 pk_idx = 0\<rparr>,
      td_indexes = [\<lparr>ix_name = ''by_city'', ix_column = ''city''\<rparr>], td_foreign_keys = [], td_stats = None\<rparr>"

definition ada :: row where "ada = [DInt 7, DText ''Oslo'']"

lemma fresh_tree: "\<exists>tr. tree_insert k v btree_new = Some (True, tr)" "btree_get btree_new k = Some None"
proof -
  have "\<not> stuck k (root btree_new)" by (simp add: btree_new_def new_leaf_with_def)
  from btree_insert_step [OF conjunct1 [OF btree_new_ok] this, of v] btree_new_ok
  show "\<exists>tr. tree_insert k v btree_new = Some (True, tr)" by (auto simp: tree_insert_def)
  show "btree_get btree_new k = Some None" using btree_get_ok [OF conjunct1 [OF btree_new_ok], of k] btree_new_ok by simp
qed

lemma fresh_indexes:
  "\<forall>x \<in> set xs. si_tree x = btree_new \<and> si_col x < length r \<Longrightarrow> key_ok pk \<Longrightarrow> \<exists>xs'. each_index (index_insert r pk) xs = Some (xs', Inr ())"
proof (induction xs)
  case (Cons x xs)
  obtain k where k: "encode_sec_index_key (r ! si_col x) pk = Inr k" using Cons.prems(2) by (cases pk) (auto simp: encode_sec_index_key_def)
  obtain tr where "tree_insert k [] btree_new = Some (True, tr)" using fresh_tree(1) by blast
  then have "index_insert r pk x = Some (x\<lparr>si_tree := tr\<rparr>, Inr ())" using Cons.prems k by (simp add: index_insert_def at_Some)
  then show ?case using Cons by auto
qed simp

text \<open>A first narrow row goes in.\<close>

lemma first_insert:
  assumes r: "row_ok (set_pool (table_new def)) r" "encode_key (pk_of (set_pool (table_new def)) r) = Inr k"
    and n: "length (encode_row r) \<le> MAX_INLINE_ROW"
  shows "\<exists>t'. insert_row disp r (set_pool (table_new def)) p = Some (t', p, Inr ())"
proof -
  let ?t = "set_pool (table_new def)"
  have tr: "t_tree ?t = btree_new" by (simp add: set_pool_def table_new_def)
  have ix: "\<forall>x \<in> set (t_indexes ?t). si_tree x = btree_new \<and> si_col x < length r"
    using r(1) by (auto simp: row_ok_def set_pool_def table_new_def map_filter_def)
  obtain t1 where t1: "tree_insert k (encode_row r) btree_new = Some (True, t1)" using fresh_tree(1) by blast
  obtain xs where "each_index (index_insert r (pk_of ?t r)) (t_indexes ?t) = Some (xs, Inr ())"
    using fresh_indexes [OF ix] r(1) by (auto simp: row_ok_def)
  then show ?thesis using row_at [OF r(1)] r(2) t1 fresh_tree(2) n
    by (auto simp: insert_row_def tr alloc_value_def on_indexes_def)
qed

lemma oslo: "str_ok ''Oslo''"
proof -
  have "str_bytes ''Oslo'' = [79, 115, 108, 111]" by (simp add: str_bytes_def)
  moreover have "utf8_valid [79, 115, 108, 111]" by (rule ascii_valid) simp
  ultimately show ?thesis by (simp add: short_def)
qed

definition ada_key :: key where "ada_key = 1 # u64_be (7 XOR sign_bit)"

lemma people_row:
  "row_ok (set_pool (table_new people)) ada" "encode_key (pk_of (set_pool (table_new people)) ada) = Inr ada_key"
  "length (encode_row ada) \<le> MAX_INLINE_ROW"
  using oslo
  by (simp_all add: row_ok_def set_pool_def table_new_def people_def ada_def ada_key_def map_filter_def index_of_def encode_row_def MAX_INLINE_ROW_def)

lemma people_run:
  "\<exists>p t h. holds p Map.empty \<and> tab_run disp (set_pool (table_new people)) p [(ada_key, InsertRow ada, Inr None)] t p \<and>
    holds p h \<and> table_ok t h [ada_key \<mapsto> ada] \<and> pk_col t = 0 \<and> map si_col (t_indexes t) = [1]"
proof -
  from new_holds [of 2 epoch_manager_new] obtain p where p: "holds p Map.empty" by auto
  from first_insert [OF people_row] obtain t where
    "insert_row disp ada (set_pool (table_new people)) p = Some (t, p, Inr ())" by blast
  then have run: "tab_run disp (set_pool (table_new people)) p [(ada_key, InsertRow ada, Inr None)] t p"
    using people_row by (intro tab_step [OF _ _ _ tab_done]) auto
  have sh: "pk_col t = 0 \<and> map si_col (t_indexes t) = [1]" if "same_shape (set_pool (table_new people)) t" 
    using that arg_cong [where f = "map snd" and x = "map (\<lambda>x. (si_def x, si_col x)) (t_indexes t)"]
    by (fastforce simp: same_shape_def set_pool_def table_new_def people_def map_filter_def index_of_def o_def)
  from tab_run_law [OF run table_new_law(1) p] obtain h m where
    hm: "map_run Map.empty [(ada_key, InsertRow ada, Inr None)] m" "holds p h" "same_shape (set_pool (table_new people)) t" "table_ok t h m" by blast
  have "m = [ada_key \<mapsto> ada]" using hm(1) by (auto elim!: map_run.cases)
  then show ?thesis using p run hm(2,4) sh [OF hm(3)] by (intro exI [of _ p] exI [of _ t] exI [of _ h]) simp
qed

section \<open>Properties\<close>





text \<open>A range scan over the primary key returns exactly the rows within the bounds, in key order.\<close>
theorem range_scan_exact:
  assumes "table_ok t h m" "holds p h"
    and "\<forall>r \<in> ran m. key_comparable lo (pk_of t r) \<and> key_comparable hi (pk_of t r)"
    and "bound_key encode_key lo = Inr a" "bound_key encode_key hi = Inr b"
  shows "\<exists>ks p'. scan_range t lo hi p = Some (p', Inr (map (\<lambda>k. (pk_of t (the (m k)), the (m k))) ks)) \<and> holds p' h \<and>
    sorted_wrt (<) ks \<and> set ks = {k. \<exists>r. m k = Some r \<and> in_bounds lo hi (pk_of t r)}"
  using scan_range_law [OF assms(1,2) _ _ assms(4,5)] assms(3) by (fastforce simp: ran_def)

theorem range_scan_exact_witness:
  "\<exists>p t p'. tab_run type_name (set_pool (table_new people)) p [(ada_key, InsertRow ada, Inr None)] t p \<and>
     scan_range t (Some (DInt 7, False)) None p = Some (p', Inr [])"
proof -
  from people_run [of type_name] obtain p t h where hp: "holds p h" and
    run: "tab_run type_name (set_pool (table_new people)) p [(ada_key, InsertRow ada, Inr None)] t p" and
    ok: "table_ok t h [ada_key \<mapsto> ada]" and s: "pk_col t = 0" by metis
  have none: "{k. \<exists>r. [ada_key \<mapsto> ada] k = Some r \<and> in_bounds (Some (DInt 7, False)) None (pk_of t r)} = {}"
    by (auto simp: in_bounds_def below_lo_def ada_def s datum_cmp_def cmp_def split: if_splits)
  have "\<forall>r \<in> ran [ada_key \<mapsto> ada]. key_comparable (Some (DInt 7, False)) (pk_of t r) \<and> key_comparable None (pk_of t r)"
    by (simp add: key_comparable_def ada_def s)
  from range_scan_exact [OF ok hp this, of "Some ada_key" None, unfolded none]
  have "\<exists>p'. scan_range t (Some (DInt 7, False)) None p = Some (p', Inr [])"
    by (auto simp: bound_key_def ada_key_def)
  then show ?thesis using run by auto
qed



text \<open>C17. A row that passes validation has as many cells as the table has columns, each of a kind its column
  accepts, and NULL only in a column that is nullable or whose default is NULL.\<close>
theorem validated_row_typed:
  assumes "validate_row t r = Inr r'"
  shows "list_all2 cell_ok (columns (td_schema (t_def t))) r'"
  using assms by (auto simp: validate_row_def Let_def validate_cells_ok split: if_splits)

theorem validated_row_typed_witness:
  "\<exists>r'. validate_row (table_new people) [DBool True] = Inr r' \<and> list_all2 cell_ok (columns (td_schema people)) r'"
proof -
  have "validate_row (table_new people) [DBool True] = Inr [DInt 1, DNull]"
    by (simp add: validate_row_def table_new_def people_def fill_defaults_def validate_cell_def coerce_def default_of_def)
  from validated_row_typed [OF this] show ?thesis using \<open>validate_row _ _ = _\<close> by (simp add: table_new_def)
qed

text \<open>Inserting a key that is present is refused as a duplicate and changes neither table nor pool.\<close>
theorem duplicate_refused:
  assumes "table_ok t h m" "row_ok t r" "encode_key (pk_of t r) = Inr k" "m k \<noteq> None"
  shows "insert_row disp r t p = Some (t, p, Inl (DuplicateKey (disp (pk_of t r))))"
proof -
  note R = table_okD(1) [OF assms(1)]
  obtain b where "abs_map (t_tree t) k = Some b" using assms(4) rows_okD(2) [OF R] by (metis domD domIff)
  then have "btree_get (t_tree t) k = Some (Some b)" using btree_get_ok [OF rows_okD(1) [OF R], of k] by simp
  moreover have "(duplicate disp k :: unit result option) = Some (Inl (DuplicateKey (disp (pk_of t r))))"
    using decode_encode_key [OF _ assms(3)] assms(2) by (simp add: duplicate_def row_ok_def)
  ultimately show ?thesis using row_at(2) [OF assms(2)] assms(3) by (simp add: insert_row_def)
qed

theorem duplicate_refused_witness:
  "\<exists>p t. tab_run type_name (set_pool (table_new people)) p [(ada_key, InsertRow ada, Inr None)] t p \<and>
     insert_row type_name ada t p = Some (t, p, Inl (DuplicateKey (type_name (DInt 7))))"
proof -
  from people_run [of type_name] obtain p t h where
    run: "tab_run type_name (set_pool (table_new people)) p [(ada_key, InsertRow ada, Inr None)] t p" and
    ok: "table_ok t h [ada_key \<mapsto> ada]" and s: "pk_col t = 0" by metis
  have "row_ok t ada" "encode_key (pk_of t ada) = Inr ada_key" using table_okD(1) [OF ok] by (auto dest: rows_okD(3,4))
  from duplicate_refused [OF ok this, of type_name p] s
  have "insert_row type_name ada t p = Some (t, p, Inl (DuplicateKey (type_name (DInt 7))))" by (simp add: ada_def)
  with run show ?thesis by blast
qed

end
