(* ===== verification/Stats.thy ===== *)
theory Stats
  imports Table_Types
begin

text \<open>
  Table statistics (\<open>crates/engine/src/stats.rs\<close>): the collection pass of \<open>ANALYZE TABLE\<close> and the
  codec of the trailing statistics section of a table definition.
\<close>

section \<open>Collecting\<close>

definition MCV_CAP :: nat where "MCV_CAP = 8"

text \<open>\<open>Frozen\<close> is the bit-level identity of a datum; \<open>Frozen::of\<close> and \<open>Frozen::datum\<close> are then the
  identity on the model's datums, whose floats are bit patterns already. \<open>freq\<close> counts values in the
  order they were first seen; the iteration order of the \<open>HashMap\<close> is the parameter \<open>iter\<close>.\<close>

fun freq_add :: "datum \<Rightarrow> (datum \<times> nat) list \<Rightarrow> (datum \<times> nat) list" where
  "freq_add d [] = [(d, 1)]"
| "freq_add d ((e, n) # m) = (if d = e then (e, Suc n) # m else (e, n) # freq_add d m)"

record col_acc =
  ac_nulls :: nat
  ac_freq :: "(datum \<times> nat) list"
  ac_min :: "datum option"
  ac_max :: "datum option"

definition col_get :: "nat \<Rightarrow> datum list \<Rightarrow> datum" where
  "col_get idx row = (if idx < length row then row ! idx else DNull)"

definition col_step :: "datum \<Rightarrow> col_acc \<Rightarrow> col_acc" where
  "col_step v a =
     (if v = DNull then a\<lparr>ac_nulls := Suc (ac_nulls a)\<rparr>
      else a\<lparr>ac_freq := freq_add v (ac_freq a),
             ac_min := (case ac_min a of None \<Rightarrow> Some v | Some m \<Rightarrow> if datum_lt v m then Some v else Some m),
             ac_max := (case ac_max a of None \<Rightarrow> Some v
                        | Some m \<Rightarrow> if datum_cmp v m = Greater then Some v else Some m)\<rparr>)"

definition mcv_before :: "datum \<times> nat \<Rightarrow> datum \<times> nat \<Rightarrow> bool" where
  "mcv_before a b \<longleftrightarrow> snd a > snd b \<or> snd a = snd b \<and> datum_cmp (fst a) (fst b) \<noteq> Greater"

text \<open>A stable sort by count, highest first, then by value: insertion sort has the same result.\<close>

fun mcv_insert :: "datum \<times> nat \<Rightarrow> (datum \<times> nat) list \<Rightarrow> (datum \<times> nat) list" where
  "mcv_insert a [] = [a]"
| "mcv_insert a (b # bs) = (if mcv_before a b then a # b # bs else b # mcv_insert a bs)"

definition mcv_sort :: "(datum \<times> nat) list \<Rightarrow> (datum \<times> nat) list" where
  "mcv_sort xs = foldr mcv_insert xs []"

definition analyze_column ::
  "((datum \<times> nat) list \<Rightarrow> (datum \<times> nat) list) \<Rightarrow> datum list \<Rightarrow> column_stats" where
  "analyze_column iter vs =
     (let a = fold col_step vs \<lparr>ac_nulls = 0, ac_freq = [], ac_min = None, ac_max = None\<rparr>
      in \<lparr>null_count = ac_nulls a, distinct_count = length (ac_freq a), cs_min = ac_min a, cs_max = ac_max a,
          cs_mcv = take MCV_CAP (mcv_sort (iter (ac_freq a))), cs_total = length vs\<rparr>)"

definition analyze_rows ::
  "((datum \<times> nat) list \<Rightarrow> (datum \<times> nat) list) \<Rightarrow> u64 \<Rightarrow> schema \<Rightarrow> datum list list \<Rightarrow> table_stats" where
  "analyze_rows iter now s rows =
     \<lparr>row_count = length rows,
      stat_columns =
        fold (\<lambda>(idx, col). map_put (cd_name col) (analyze_column iter (map (col_get idx) rows)))
          (enumerate 0 (columns s)) [],
      analyzed_at = now\<rparr>"

section \<open>Codec\<close>

definition st_take_u32 :: "bytes \<Rightarrow> nat \<Rightarrow> (u32 \<times> nat) result" where
  "st_take_u32 buf off = rbind (take_n ''stats: EOF'' 4 buf off) (\<lambda>(b, o1). Inr (u32_of_le b, o1))"

definition st_take_u64 :: "bytes \<Rightarrow> nat \<Rightarrow> (u64 \<times> nat) result" where
  "st_take_u64 buf off = rbind (take_n ''stats: EOF'' 8 buf off) (\<lambda>(b, o1). Inr (u64_of_le b, o1))"

definition st_take_str :: "bytes \<Rightarrow> nat \<Rightarrow> (string \<times> nat) result" where
  "st_take_str buf off =
     rbind (st_take_u32 buf off) (\<lambda>(len, o1).
     if unat len > 1024 then Inl (Corrupted ''stats: name too long'')
     else rbind (take_n ''stats: EOF'' (unat len) buf o1) (\<lambda>(b, o2).
     if utf8_valid b then Inr (bytes_str b, o2) else Inl (Corrupted ''stats: utf8'')))"

definition put_opt :: "datum option \<Rightarrow> bytes" where
  "put_opt d = (case d of Some d \<Rightarrow> 1 # encode d | None \<Rightarrow> [0])"

definition take_opt :: "bytes \<Rightarrow> nat \<Rightarrow> (datum option \<times> nat) result" where
  "take_opt buf off =
     rbind (get_byte ''stats: EOF'' buf off) (\<lambda>(b, o1).
     if b = 0 then Inr (None, o1) else rbind (decode buf o1) (\<lambda>(d, o2). Inr (Some d, o2)))"

definition put_mcv :: "datum \<times> nat \<Rightarrow> bytes" where
  "put_mcv e = encode (fst e) @ u64_le (of_nat (snd e))"

definition take_mcv :: "bytes \<Rightarrow> nat \<Rightarrow> ((datum \<times> nat) \<times> nat) result" where
  "take_mcv buf off =
     rbind (decode buf off) (\<lambda>(d, o1). rbind (st_take_u64 buf o1) (\<lambda>(n, o2). Inr ((d, unat n), o2)))"

definition put_col_stats :: "string \<times> column_stats \<Rightarrow> bytes" where
  "put_col_stats e =
     (let c = snd e in
      put_str (fst e) @ u64_le (of_nat (null_count c)) @ u64_le (of_nat (distinct_count c)) @
      u64_le (of_nat (cs_total c)) @ put_opt (cs_min c) @ put_opt (cs_max c) @
      u32_le (of_nat (length (cs_mcv c))) @ concat (map put_mcv (cs_mcv c)))"

definition take_col_stats :: "bytes \<Rightarrow> nat \<Rightarrow> ((string \<times> column_stats) \<times> nat) result" where
  "take_col_stats buf off =
     rbind (st_take_str buf off) (\<lambda>(name, o1).
     rbind (st_take_u64 buf o1) (\<lambda>(nulls, o2).
     rbind (st_take_u64 buf o2) (\<lambda>(distincts, o3).
     rbind (st_take_u64 buf o3) (\<lambda>(tot, o4).
     rbind (take_opt buf o4) (\<lambda>(mn, o5).
     rbind (take_opt buf o5) (\<lambda>(mx, o6).
     rbind (st_take_u32 buf o6) (\<lambda>(nmcv, o7).
     if unat nmcv > MCV_CAP * 128 then Inl (Corrupted ''stats: MCV list too large'')
     else rbind (decode_n take_mcv (unat nmcv) buf o7) (\<lambda>(ms, o8).
     Inr ((name, \<lparr>null_count = unat nulls, distinct_count = unat distincts, cs_min = mn, cs_max = mx,
           cs_mcv = ms, cs_total = unat tot\<rparr>), o8)))))))))"

definition encode_stats :: "table_stats \<Rightarrow> bytes" where
  "encode_stats s =
     u64_le (of_nat (row_count s)) @ u64_le (analyzed_at s) @
     u32_le (of_nat (length (stat_columns s))) @ concat (map put_col_stats (stat_columns s))"

definition decode_stats :: "bytes \<Rightarrow> nat \<Rightarrow> (table_stats \<times> nat) result" where
  "decode_stats buf off =
     rbind (st_take_u64 buf off) (\<lambda>(rows, o1).
     if unat rows > 1000000000 then Inl (Corrupted ''stats: row count too large'')
     else rbind (st_take_u64 buf o1) (\<lambda>(at, o2).
     rbind (st_take_u32 buf o2) (\<lambda>(ncols, o3).
     if unat ncols > 10000 then Inl (Corrupted ''stats: too many columns'')
     else rbind (decode_n take_col_stats (unat ncols) buf o3) (\<lambda>(cols, o4).
     Inr (\<lparr>row_count = unat rows, stat_columns = fold (\<lambda>(k, v). map_put k v) cols [],
           analyzed_at = at\<rparr>, o4)))))"

section \<open>The codec is exact\<close>

interpretation st_u32: cursor_codec u32_le st_take_u32 "\<lambda>_. True"
proof
  fix w :: u32 and buf off r
  assume "at_off buf off (u32_le w @ r)"
  from take_n_at [OF this, of 4] show "st_take_u32 buf off = Inr (w, off + length (u32_le w))"
    by (simp add: st_take_u32_def codec_simps)
qed

interpretation st_u64: cursor_codec u64_le st_take_u64 "\<lambda>_. True"
proof
  fix w :: u64 and buf off r
  assume "at_off buf off (u64_le w @ r)"
  from take_n_at [OF this, of 8] show "st_take_u64 buf off = Inr (w, off + length (u64_le w))"
    by (simp add: st_take_u64_def codec_simps)
qed

definition name_ok :: "string \<Rightarrow> bool" where
  "name_ok s \<longleftrightarrow> length s \<le> 1024 \<and> valid_str s"

lemma unat_of_nat_u32: "n < 2 ^ 32 \<Longrightarrow> unat (of_nat n :: u32) = n"
  by (simp add: unat_of_nat)

lemma unat_of_nat_u64: "n < 2 ^ 64 \<Longrightarrow> unat (of_nat n :: u64) = n"
  by (simp add: unat_of_nat)

interpretation st_str: cursor_codec put_str st_take_str name_ok
proof
  fix x :: string and buf off r
  assume ok: "name_ok x" and a: "at_off buf off (put_str x @ r)"
  have n: "unat (of_nat (length (str_bytes x)) :: u32) = length x"
    using ok by (subst unat_of_nat_u32) (simp_all add: name_ok_def)
  from a have "at_off buf off (u32_le (of_nat (length (str_bytes x))) @ str_bytes x @ r)"
    by (simp only: put_str_def append_assoc)
  then show "st_take_str buf off = Inr (x, off + length (put_str x))"
    unfolding st_take_str_def
  proof (rule st_u32.bind, simp_all only: split_conv n, goal_cases)
    case (1 o1)
    then show ?case using ok take_n_at [OF 1(2), of "length x" "''stats: EOF''"]
      by (simp add: name_ok_def put_str_def)
  qed
qed

definition opt_ok :: "datum option \<Rightarrow> bool" where
  "opt_ok x = (case x of Some d \<Rightarrow> datum_ok d | None \<Rightarrow> True)"

interpretation st_opt: cursor_codec put_opt take_opt opt_ok
proof
  fix x :: "datum option" and buf off r
  assume ok: "opt_ok x" and a: "at_off buf off (put_opt x @ r)"
  show "take_opt buf off = Inr (x, off + length (put_opt x))"
  proof (cases x)
    case None
    with a have "at_off buf off (0 # r)" by (simp add: put_opt_def)
    then show ?thesis by (simp add: take_opt_def get_byte_at None put_opt_def)
  next
    case (Some d)
    with a have "at_off buf off (1 # encode d @ r)" by (simp add: put_opt_def)
    then show ?thesis unfolding take_opt_def
    proof (rule byte_bind, goal_cases)
      case (1 o1)
      from datum_codec.round_at [OF _ 1(2)] ok 1(1) show ?case by (simp add: Some put_opt_def opt_ok_def)
    qed
  qed
qed

definition mcv_ok :: "datum \<times> nat \<Rightarrow> bool" where
  "mcv_ok e \<longleftrightarrow> datum_ok (fst e) \<and> snd e < 2 ^ 64"

interpretation st_mcv: cursor_codec put_mcv take_mcv mcv_ok
proof
  fix x :: "datum \<times> nat" and buf off r
  assume ok: "mcv_ok x" and a: "at_off buf off (put_mcv x @ r)"
  have n: "unat (of_nat (snd x) :: u64) = snd x" using ok by (intro unat_of_nat_u64) (simp add: mcv_ok_def)
  from a have "at_off buf off (encode (fst x) @ u64_le (of_nat (snd x)) @ r)"
    by (simp only: put_mcv_def append_assoc)
  then show "take_mcv buf off = Inr (x, off + length (put_mcv x))"
    unfolding take_mcv_def
  proof (rule datum_codec.bind, goal_cases)
    case (2 o1)
    from st_u64.round_at [OF _ 2(2)] 2(1) n show ?case by (simp add: put_mcv_def)
  qed (use ok in \<open>simp add: mcv_ok_def\<close>)
qed

definition col_stats_ok :: "string \<times> column_stats \<Rightarrow> bool" where
  "col_stats_ok e \<longleftrightarrow>
     (let c = snd e in name_ok (fst e) \<and> null_count c < 2 ^ 64 \<and> distinct_count c < 2 ^ 64 \<and>
      cs_total c < 2 ^ 64 \<and> opt_ok (cs_min c) \<and> opt_ok (cs_max c) \<and> length (cs_mcv c) \<le> MCV_CAP * 128 \<and>
      list_all mcv_ok (cs_mcv c))"

interpretation st_col: cursor_codec put_col_stats take_col_stats col_stats_ok
proof
  fix x :: "string \<times> column_stats" and buf off r
  assume ok: "col_stats_ok x" and a: "at_off buf off (put_col_stats x @ r)"
  obtain name c where x: "x = (name, c)" by force
  have o: "name_ok name" "opt_ok (cs_min c)" "opt_ok (cs_max c)" "list_all mcv_ok (cs_mcv c)"
    and n: "unat (of_nat (null_count c) :: u64) = null_count c" "unat (of_nat (distinct_count c) :: u64) = distinct_count c"
      "unat (of_nat (cs_total c) :: u64) = cs_total c" "unat (of_nat (length (cs_mcv c)) :: u32) = length (cs_mcv c)"
      "(MCV_CAP * 128 < length (cs_mcv c)) = False"
    using ok by (simp_all add: x col_stats_ok_def Let_def MCV_CAP_def unat_of_nat_u32 unat_of_nat_u64)
  have e: "put_col_stats x =
      put_str name @ u64_le (of_nat (null_count c)) @ u64_le (of_nat (distinct_count c)) @
      u64_le (of_nat (cs_total c)) @ put_opt (cs_min c) @ put_opt (cs_max c) @
      u32_le (of_nat (length (cs_mcv c))) @ concat (map put_mcv (cs_mcv c))"
    by (simp only: put_col_stats_def Let_def x fst_conv snd_conv)
  show "take_col_stats buf off = Inr (x, off + length (put_col_stats x))"
    unfolding take_col_stats_def
    apply (rule st_str.bind [OF a [unfolded e append_assoc] o(1)], unfold split_conv)
    apply (rule st_u64.bind, assumption, rule TrueI, unfold split_conv)+
    apply (rule st_opt.bind, assumption, rule o, unfold split_conv)+
    apply (rule st_u32.bind, assumption, rule TrueI, unfold split_conv n if_False)
    apply (rule st_mcv.list_bind, assumption, rule o, rule refl)
    apply (simp add: x e [unfolded x])
    done
qed

definition stats_ok :: "table_stats \<Rightarrow> bool" where
  "stats_ok s \<longleftrightarrow> row_count s \<le> 1000000000 \<and> length (stat_columns s) \<le> 10000 \<and>
     list_all col_stats_ok (stat_columns s) \<and> names_sorted (stat_columns s)"

interpretation stats_codec: cursor_codec encode_stats decode_stats stats_ok
proof
  fix x :: table_stats and buf off r
  assume ok: "stats_ok x" and a: "at_off buf off (encode_stats x @ r)"
  have o: "list_all col_stats_ok (stat_columns x)" and s: "fold (\<lambda>(k, v). map_put k v) (stat_columns x) [] = stat_columns x"
    using ok fold_map_put [of "[]" "stat_columns x"] by (simp_all add: stats_ok_def)
  have n: "unat (of_nat (row_count x) :: u64) = row_count x" "(1000000000 < row_count x) = False"
    and m: "unat (of_nat (length (stat_columns x)) :: u32) = length (stat_columns x)"
      "(10000 < length (stat_columns x)) = False"
    using ok by (simp_all add: stats_ok_def unat_of_nat_u32 unat_of_nat_u64)
  show "decode_stats buf off = Inr (x, off + length (encode_stats x))"
    unfolding decode_stats_def
    apply (rule st_u64.bind [OF a [unfolded encode_stats_def append_assoc] TrueI], unfold split_conv n if_False)
    apply (rule st_u64.bind, assumption, rule TrueI, unfold split_conv)
    apply (rule st_u32.bind, assumption, rule TrueI, unfold split_conv m if_False)
    apply (rule st_col.list_bind, assumption, rule o, rule refl)
    apply (simp add: s encode_stats_def)
    done
qed

section \<open>What is collected\<close>

lemma freq_add_sum: "sum_list (map snd (freq_add d m)) = Suc (sum_list (map snd m))"
  by (induction d m rule: freq_add.induct) auto

lemma freq_add_keys:
  "distinct (map fst m) \<Longrightarrow>
   distinct (map fst (freq_add d m)) \<and> set (map fst (freq_add d m)) = insert d (set (map fst m))"
  by (induction d m rule: freq_add.induct) auto

lemma col_fold_ok:
  assumes "distinct (map fst (ac_freq a))" "DNull \<notin> set (map fst (ac_freq a))"
  shows "distinct (map fst (ac_freq (fold col_step vs a))) \<and>
     set (map fst (ac_freq (fold col_step vs a))) = set (map fst (ac_freq a)) \<union> (set vs - {DNull}) \<and>
     ac_nulls (fold col_step vs a) + sum_list (map snd (ac_freq (fold col_step vs a))) =
       ac_nulls a + sum_list (map snd (ac_freq a)) + length vs \<and>
     ac_nulls (fold col_step vs a) = ac_nulls a + length (filter (\<lambda>v. v = DNull) vs)"
  using assms
proof (induction vs arbitrary: a)
  case (Cons v vs)
  show ?case
  proof (cases "v = DNull")
    case True
    with Cons.IH [of "col_step v a"] Cons.prems show ?thesis by (simp add: col_step_def)
  next
    case False
    with Cons.IH [of "col_step v a"] Cons.prems freq_add_keys [of "ac_freq a" v] freq_add_sum [of v "ac_freq a"]
    show ?thesis by (auto simp: col_step_def)
  qed
qed simp

lemma mcv_insert_length: "length (mcv_insert a xs) = Suc (length xs)"
  by (induction a xs rule: mcv_insert.induct) auto

section \<open>Properties\<close>

text \<open>Statistics survive the codec: a statistics section within the format's limits decodes, at any
  position of any buffer, to the statistics it was written from.\<close>
theorem stats_round_trip:
  assumes "stats_ok s"
  shows "decode_stats (pre @ encode_stats s @ post) (length pre) = Inr (s, length pre + length (encode_stats s))"
  using stats_codec.round_at [OF assms at_off_pre] .

theorem stats_round_trip_witness:
  "\<exists>s. stats_ok s \<and> length (stat_columns s) = 1 \<and>
     decode_stats ([1] @ encode_stats s @ [2]) (length [1 :: u8]) = Inr (s, length [1 :: u8] + length (encode_stats s))"
proof -
  let ?s = "\<lparr>row_count = 3, stat_columns = [(''id'', \<lparr>null_count = 1, distinct_count = 2, cs_min = Some (DInt 1),
    cs_max = None, cs_mcv = [(DInt 1, 2)], cs_total = 3\<rparr>)], analyzed_at = 7\<rparr>"
  have "stats_ok ?s"
    by (simp add: stats_ok_def col_stats_ok_def name_ok_def str_bytes_def in_range_def opt_ok_def mcv_ok_def
        MCV_CAP_def names_sorted_def)
  from this stats_round_trip [OF this, of "[1]" "[2]"] show ?thesis by force
qed

text \<open>What \<open>ANALYZE\<close> counts: for every column, NULLs and counted values add up to the number of
  rows, the distinct count is the number of different non-NULL values, and no more than eight common
  values are kept, whatever order the hash map is iterated in.\<close>
theorem analyze_column_counts:
  assumes "\<forall>m. length (iter m) = length m"
  shows "null_count (analyze_column iter vs) = length (filter (\<lambda>v. v = DNull) vs) \<and>
     distinct_count (analyze_column iter vs) = card (set vs - {DNull}) \<and>
     length (cs_mcv (analyze_column iter vs)) = min 8 (card (set vs - {DNull})) \<and>
     cs_total (analyze_column iter vs) = length vs"
proof -
  let ?a = "fold col_step vs \<lparr>ac_nulls = 0, ac_freq = [], ac_min = None, ac_max = None\<rparr>"
  have f: "distinct (map fst (ac_freq ?a))" "set (map fst (ac_freq ?a)) = set vs - {DNull}"
    "ac_nulls ?a = length (filter (\<lambda>v. v = DNull) vs)"
    using col_fold_ok [of "\<lparr>ac_nulls = 0, ac_freq = [], ac_min = None, ac_max = None\<rparr>" vs] by simp_all
  then have "length (ac_freq ?a) = card (set vs - {DNull})" using distinct_card by fastforce
  moreover have "length (mcv_sort xs) = length xs" for xs
    by (induction xs) (simp_all add: mcv_sort_def mcv_insert_length)
  ultimately show ?thesis using f(3) assms
    by (simp add: analyze_column_def Let_def MCV_CAP_def min.commute)
qed

theorem analyze_column_counts_witness:
  "null_count (analyze_column rev [DInt 1, DNull, DInt 1]) = length (filter (\<lambda>v. v = DNull) [DInt 1, DNull, DInt 1])"
  using analyze_column_counts [of rev "[DInt 1, DNull, DInt 1]"] by simp

end
