(* ===== verification/Wal_Codec.thy ===== *)
theory Wal_Codec
  imports Stats Crc
begin

text \<open>
  Records of the write-ahead log (\<open>crates/engine/src/wal.rs\<close>): their payload codec, the codec of
  table definitions (shared with the catalog snapshot), and the length-and-checksum frame.
\<close>

section \<open>Table definitions\<close>

definition put_column :: "column_def \<Rightarrow> bytes" where
  "put_column col =
     put_str (cd_name col) @ [hd (str_bytes (column_type_name (cd_type col)))] @
     [bool_byte (cd_nullable col)] @ [bool_byte (cd_auto_increment col)] @
     (case cd_default col of Some d \<Rightarrow> 1 # encode d | None \<Rightarrow> [0])"

definition put_index :: "index_def \<Rightarrow> bytes" where
  "put_index i = put_str (ix_name i) @ put_str (ix_column i)"

definition fk_byte :: "fk_action \<Rightarrow> u8" where
  "fk_byte a = (case a of Restrict \<Rightarrow> 0 | Cascade \<Rightarrow> 1 | SetNull \<Rightarrow> 2)"

definition put_fk :: "foreign_key_def \<Rightarrow> bytes" where
  "put_fk f = put_str (fk_name f) @ put_str (fk_column f) @ put_str (fk_ref_table f) @
     put_str (fk_ref_column f) @ [fk_byte (fk_on_delete f)]"

definition encode_table_def_pub :: "table_def \<Rightarrow> bytes" where
  "encode_table_def_pub def =
     put_str (td_name def) @ u32_le (of_nat (length (columns (td_schema def)))) @
     u32_le (of_nat (pk_idx (td_schema def))) @ concat (map put_column (columns (td_schema def))) @
     u32_le (of_nat (length (td_indexes def))) @ concat (map put_index (td_indexes def)) @
     u32_le (of_nat (length (td_foreign_keys def))) @ concat (map put_fk (td_foreign_keys def)) @
     (case td_stats def of Some s \<Rightarrow> 1 # encode_stats s | None \<Rightarrow> [0])"

definition byte_type :: "u8 \<Rightarrow> column_type option" where
  "byte_type b =
     (if b = of_char CHR ''I'' then Some TInt
      else if b = of_char CHR ''B'' then Some TBigInt
      else if b = of_char CHR ''F'' then Some TFloat
      else if b = of_char CHR ''D'' then Some TDouble
      else if b = of_char CHR ''T'' then Some TText
      else if b = of_char CHR ''V'' then Some TVarChar
      else if b = of_char CHR ''L'' then Some TBool
      else if b = of_char CHR ''E'' \<or> b = of_char CHR ''M'' then Some TDateTime
      else if b = of_char CHR ''P'' \<or> b = of_char CHR ''S'' then Some TTimestamp
      else None)"

definition take_default :: "bool \<Rightarrow> bytes \<Rightarrow> nat \<Rightarrow> (datum option \<times> nat) result" where
  "take_default legacy buf off =
     (if legacy then Inr (None, off)
      else if off < length buf then
        if buf ! off \<noteq> 0 then rbind (decode buf (Suc off)) (\<lambda>(d, o1). Inr (Some d, o1))
        else Inr (None, Suc off)
      else Inr (None, off))"

definition take_column :: "bool \<Rightarrow> bytes \<Rightarrow> nat \<Rightarrow> (column_def \<times> nat) result" where
  "take_column legacy buf off =
     rbind (take_str buf off) (\<lambda>(cname, o1).
     rbind (get_byte ''coldef: EOF'' buf o1) (\<lambda>(tbyte, o2).
     rbind (get_byte ''coldef: EOF'' buf o2) (\<lambda>(nul, o3).
     rbind (if legacy then Inr (0, o3) else get_byte ''coldef: EOF'' buf o3) (\<lambda>(auto, o4).
     (case byte_type tbyte of
        None \<Rightarrow> Inl (Corrupted (''unknown col type '' @ dec_string (unat tbyte)))
      | Some t \<Rightarrow>
          rbind (take_default legacy buf o4) (\<lambda>(dflt, o5).
          Inr (\<lparr>cd_name = cname, cd_type = t, cd_nullable = (nul \<noteq> 0), cd_auto_increment = (auto \<noteq> 0),
                cd_default = dflt\<rparr>, o5)))))))"

definition take_index :: "bytes \<Rightarrow> nat \<Rightarrow> (index_def \<times> nat) result" where
  "take_index buf off =
     rbind (take_str buf off) (\<lambda>(n, o1). rbind (take_str buf o1) (\<lambda>(c, o2).
     Inr (\<lparr>ix_name = n, ix_column = c\<rparr>, o2)))"

definition take_fk_action :: "bytes \<Rightarrow> nat \<Rightarrow> (fk_action \<times> nat) result" where
  "take_fk_action buf off =
     rbind (get_byte ''fk: EOF'' buf off) (\<lambda>(b, o1).
     if b = 0 then Inr (Restrict, o1) else if b = 1 then Inr (Cascade, o1)
     else if b = 2 then Inr (SetNull, o1)
     else Inl (Corrupted (''unknown FK action '' @ dec_string (unat b))))"

definition take_fk :: "bytes \<Rightarrow> nat \<Rightarrow> (foreign_key_def \<times> nat) result" where
  "take_fk buf off =
     rbind (take_str buf off) (\<lambda>(n, o1).
     rbind (take_str buf o1) (\<lambda>(c, o2).
     rbind (take_str buf o2) (\<lambda>(rt, o3).
     rbind (take_str buf o3) (\<lambda>(rc, o4).
     rbind (take_fk_action buf o4) (\<lambda>(a, o5).
     Inr (\<lparr>fk_name = n, fk_column = c, fk_ref_table = rt, fk_ref_column = rc, fk_on_delete = a\<rparr>, o5))))))"

text \<open>A counted section that older images end before.\<close>

definition take_section ::
  "string \<Rightarrow> (bytes \<Rightarrow> nat \<Rightarrow> ('a \<times> nat) result) \<Rightarrow> bytes \<Rightarrow> nat \<Rightarrow> ('a list \<times> nat) result" where
  "take_section msg dec buf off =
     (if off < length buf then
        rbind (take_u32 buf off) (\<lambda>(n, o1).
        if unat n > 10000 then Inl (Corrupted msg) else decode_n dec (unat n) buf o1)
      else Inr ([], off))"

definition take_stats_section :: "bytes \<Rightarrow> nat \<Rightarrow> (table_stats option \<times> nat) result" where
  "take_stats_section buf off =
     (if off < length buf then
        rbind (get_byte ''tabledef: EOF'' buf off) (\<lambda>(present, o1).
        if present \<noteq> 0 then rbind (decode_stats buf o1) (\<lambda>(s, o2). Inr (Some s, o2)) else Inr (None, o1))
      else Inr (None, off))"

definition decode_table_def_pub :: "bool \<Rightarrow> bytes \<Rightarrow> nat \<Rightarrow> (table_def \<times> nat) result" where
  "decode_table_def_pub legacy buf off =
     rbind (take_str buf off) (\<lambda>(name, o1).
     rbind (take_u32 buf o1) (\<lambda>(ncols, o2).
     if unat ncols > 10000 then Inl (Corrupted ''too many columns in table def'')
     else rbind (take_u32 buf o2) (\<lambda>(pk, o3).
     rbind (decode_n (take_column legacy) (unat ncols) buf o3) (\<lambda>(cols, o4).
     rbind (take_section ''too many indexes in table def'' take_index buf o4) (\<lambda>(ixs, o5).
     rbind (take_section ''too many FKs in table def'' take_fk buf o5) (\<lambda>(fks, o6).
     rbind (take_stats_section buf o6) (\<lambda>(st, o7).
     Inr (\<lparr>td_name = name, td_schema = \<lparr>columns = cols, pk_idx = unat pk\<rparr>, td_indexes = ixs,
           td_foreign_keys = fks, td_stats = st\<rparr>, o7))))))))"

section \<open>Records\<close>

datatype wal_record =
    Put u64 string bytes bytes
  | Delete u64 string bytes
  | Commit u64 "u64 option"
  | CreateTable u64 table_def
  | DropTable u64 string
  | CreateIndex u64 string string string
  | DropIndex u64 string string
  | CreateDatabase u64 string
  | DropDatabase u64 string

fun payload :: "wal_record \<Rightarrow> bytes" where
  "payload (Put txn table key row) = 1 # u64_le txn @ put_str table @ put_bytes key @ put_bytes row"
| "payload (Delete txn table key) = 2 # u64_le txn @ put_str table @ put_bytes key"
| "payload (Commit txn ts) = 3 # u64_le txn @ (case ts of Some t \<Rightarrow> u64_le t | None \<Rightarrow> [])"
| "payload (CreateTable txn def) = 4 # u64_le txn @ encode_table_def_pub def"
| "payload (DropTable txn name) = 5 # u64_le txn @ put_str name"
| "payload (CreateIndex txn table name column) =
     6 # u64_le txn @ put_str table @ put_str name @ put_str column"
| "payload (DropIndex txn table name) = 7 # u64_le txn @ put_str table @ put_str name"
| "payload (CreateDatabase txn name) = 8 # u64_le txn @ put_str name"
| "payload (DropDatabase txn name) = 9 # u64_le txn @ put_str name"

definition encode_record :: "wal_record \<Rightarrow> bytes" where
  "encode_record rec =
     (let p = payload rec in u32_le (of_nat (length p)) @ u32_le (crc32 p) @ p)"

definition take_txn :: "bytes \<Rightarrow> nat \<Rightarrow> (u64 \<times> nat) result" where
  "take_txn buf off =
     rbind (take_n ''record: truncated txn id'' 8 buf off) (\<lambda>(b, o1). Inr (u64_of_le b, o1))"

definition decode_body :: "bool \<Rightarrow> u8 \<Rightarrow> u64 \<Rightarrow> bytes \<Rightarrow> nat \<Rightarrow> (wal_record \<times> nat) result" where
  "decode_body legacy kind txn buf o2 =
      (if kind = 1 then
         rbind (take_str buf o2) (\<lambda>(table, o3).
         rbind (take_bytes buf o3) (\<lambda>(key, o4).
         rbind (take_bytes buf o4) (\<lambda>(row, o5). Inr (Put txn table key row, o5))))
       else if kind = 2 then
         rbind (take_str buf o2) (\<lambda>(table, o3).
         rbind (take_bytes buf o3) (\<lambda>(key, o4). Inr (Delete txn table key, o4)))
       else if kind = 3 then
         (if length buf - o2 \<ge> 8
          then Inr (Commit txn (Some (u64_of_le (slice buf o2 8))), o2 + 8)
          else Inr (Commit txn None, o2))
       else if kind = 4 then
         rbind (decode_table_def_pub legacy buf o2) (\<lambda>(def, o3). Inr (CreateTable txn def, o3))
       else if kind = 5 then rbind (take_str buf o2) (\<lambda>(name, o3). Inr (DropTable txn name, o3))
       else if kind = 6 then
         rbind (take_str buf o2) (\<lambda>(table, o3).
         rbind (take_str buf o3) (\<lambda>(name, o4).
         rbind (take_str buf o4) (\<lambda>(column, o5). Inr (CreateIndex txn table name column, o5))))
       else if kind = 7 then
         rbind (take_str buf o2) (\<lambda>(table, o3).
         rbind (take_str buf o3) (\<lambda>(name, o4). Inr (DropIndex txn table name, o4)))
       else if kind = 8 then rbind (take_str buf o2) (\<lambda>(name, o3). Inr (CreateDatabase txn name, o3))
       else if kind = 9 then rbind (take_str buf o2) (\<lambda>(name, o3). Inr (DropDatabase txn name, o3))
       else Inl (Corrupted (''unknown record kind '' @ dec_string (unat kind))))"

definition decode_record :: "bool \<Rightarrow> bytes \<Rightarrow> nat \<Rightarrow> (wal_record \<times> nat) result" where
  "decode_record legacy buf off =
     rbind (get_byte ''record: EOF'' buf off) (\<lambda>(kind, o1).
     rbind (take_txn buf o1) (\<lambda>(txn, o2). decode_body legacy kind txn buf o2))"

section \<open>What a table definition becomes when it is read back\<close>

text \<open>The type byte is the first letter of the type's name, which is not what the reader expects for
  \<open>BOOL\<close>, \<open>DATETIME\<close> and \<open>TIMESTAMP\<close>.\<close>

fun reread_type :: "column_type \<Rightarrow> column_type" where
  "reread_type TBool = TBigInt"
| "reread_type TDateTime = TDouble"
| "reread_type TTimestamp = TText"
| "reread_type t = t"

definition reread_column :: "column_def \<Rightarrow> column_def" where
  "reread_column c = c\<lparr>cd_type := reread_type (cd_type c)\<rparr>"

definition reread_def :: "table_def \<Rightarrow> table_def" where
  "reread_def d =
     d\<lparr>td_schema := \<lparr>columns = map reread_column (columns (td_schema d)), pk_idx = pk_idx (td_schema d)\<rparr>\<rparr>"

fun reread_record :: "wal_record \<Rightarrow> wal_record" where
  "reread_record (CreateTable txn def) = CreateTable txn (reread_def def)"
| "reread_record r = r"

lemma type_byte_reread:
  "hd (str_bytes (column_type_name (reread_type t))) = hd (str_bytes (column_type_name t))"
  by (cases t) (simp_all add: str_bytes_def)

lemma put_column_reread: "put_column (reread_column c) = put_column c"
  by (simp add: put_column_def reread_column_def type_byte_reread)

lemma encode_def_reread: "encode_table_def_pub (reread_def d) = encode_table_def_pub d"
  by (simp add: encode_table_def_pub_def reread_def_def comp_def put_column_reread)

lemma payload_reread: "payload (reread_record r) = payload r"
  by (cases r) (simp_all add: encode_def_reread)

lemma reread_type_idem: "reread_type (reread_type t) = reread_type t"
  by (cases t) auto

lemma reread_def_idem: "reread_def (reread_def d) = reread_def d"
  by (simp add: reread_def_def reread_column_def reread_type_idem comp_def)

section \<open>The codec is exact on what it can represent\<close>

lemma bool_byte_test: "(bool_byte b \<noteq> 0) = b"
  by (simp add: bool_byte_def)

definition column_ok :: "column_def \<Rightarrow> bool" where
  "column_ok c \<longleftrightarrow> str_ok (cd_name c) \<and> opt_ok (cd_default c)"

definition stable_column :: "column_def \<Rightarrow> bool" where
  "stable_column c \<longleftrightarrow> column_ok c \<and> reread_type (cd_type c) = cd_type c"

lemma byte_type_stable:
  "reread_type t = t \<Longrightarrow> byte_type (hd (str_bytes (column_type_name t))) = Some t"
  by (cases t) (simp_all add: byte_type_def str_bytes_def)

lemma take_default_at:
  assumes "at_off buf off ((case d of Some d \<Rightarrow> 1 # encode d | None \<Rightarrow> [0]) @ r)" "opt_ok d"
  shows "take_default False buf off =
     Inr (d, off + length (case d of Some d \<Rightarrow> 1 # encode d | None \<Rightarrow> [0 :: u8]))"
proof (cases d)
  case None
  with assms have "at_off buf off (0 # r)" by simp
  from at_off_nth [OF this] show ?thesis by (simp add: take_default_def None)
next
  case (Some x)
  with assms have a: "at_off buf off (1 # encode x @ r)" by simp
  from datum_codec.round_at [OF _ at_off_Cons [OF a]] at_off_nth [OF a] assms(2) Some
  show ?thesis by (simp add: take_default_def opt_ok_def)
qed

interpretation column_codec: cursor_codec put_column "take_column False" stable_column
proof
  fix c buf off r
  assume ok: "stable_column c" and a: "at_off buf off (put_column c @ r)"
  have o: "str_ok (cd_name c)" "opt_ok (cd_default c)"
    and t: "byte_type (hd (str_bytes (column_type_name (cd_type c)))) = Some (cd_type c)"
    using ok by (simp_all add: stable_column_def column_ok_def byte_type_stable)
  from a have a': "at_off buf off (put_str (cd_name c) @ hd (str_bytes (column_type_name (cd_type c))) #
      bool_byte (cd_nullable c) # bool_byte (cd_auto_increment c) #
      (case cd_default c of Some d \<Rightarrow> 1 # encode d | None \<Rightarrow> [0]) @ r)"
    by (simp add: put_column_def)
  show "take_column False buf off = Inr (c, off + length (put_column c))"
    unfolding take_column_def if_False
    apply (rule str_codec.bind [OF a' o(1)], unfold split_conv)
    apply (rule byte_bind, assumption, unfold split_conv)+
    apply (unfold t option.case)
    apply (drule take_default_at [OF _ o(2)])
    apply (simp add: put_column_def bool_byte_test)
    done
qed

definition index_ok :: "index_def \<Rightarrow> bool" where
  "index_ok i \<longleftrightarrow> str_ok (ix_name i) \<and> str_ok (ix_column i)"

interpretation index_codec: cursor_codec put_index take_index index_ok
proof
  fix i buf off r
  assume ok: "index_ok i" and a: "at_off buf off (put_index i @ r)"
  then have o: "str_ok (ix_name i)" "str_ok (ix_column i)" by (simp_all add: index_ok_def)
  show "take_index buf off = Inr (i, off + length (put_index i))"
    unfolding take_index_def
    apply (rule str_codec.bind [OF a [unfolded put_index_def append_assoc] o(1)], unfold split_conv)
    apply (rule str_codec.bind, assumption, rule o, unfold split_conv)
    apply (simp add: put_index_def)
    done
qed

definition fk_ok :: "foreign_key_def \<Rightarrow> bool" where
  "fk_ok f \<longleftrightarrow> str_ok (fk_name f) \<and> str_ok (fk_column f) \<and> str_ok (fk_ref_table f) \<and> str_ok (fk_ref_column f)"

interpretation fk_codec: cursor_codec put_fk take_fk fk_ok
proof
  fix f buf off r
  assume ok: "fk_ok f" and a: "at_off buf off (put_fk f @ r)"
  then have o: "str_ok (fk_name f)" "str_ok (fk_column f)" "str_ok (fk_ref_table f)" "str_ok (fk_ref_column f)"
    by (simp_all add: fk_ok_def)
  have act: "take_fk_action buf p = Inr (fk_on_delete f, Suc p)" if "at_off buf p (fk_byte (fk_on_delete f) # r)" for p
    using get_byte_at [OF that, of "''fk: EOF''"]
    by (cases "fk_on_delete f") (simp_all add: take_fk_action_def fk_byte_def)
  from a have a': "at_off buf off (put_str (fk_name f) @ put_str (fk_column f) @ put_str (fk_ref_table f) @
      put_str (fk_ref_column f) @ fk_byte (fk_on_delete f) # r)" by (simp add: put_fk_def)
  show "take_fk buf off = Inr (f, off + length (put_fk f))"
    unfolding take_fk_def
    apply (rule str_codec.bind [OF a' o(1)], unfold split_conv)
    apply (rule str_codec.bind, assumption, rule o, unfold split_conv)+
    apply (drule act)
    apply (simp add: put_fk_def)
    done
qed

text \<open>A counted section that is present.\<close>

context cursor_codec
begin

lemma section_bind:
  assumes a: "at_off buf off (u32_le (of_nat (length xs)) @ concat (map enc xs) @ r)"
    and ok: "list_all ok xs" "length xs \<le> 10000"
    and f: "\<And>o1. o1 = off + 4 + length (concat (map enc xs)) \<Longrightarrow> at_off buf o1 r \<Longrightarrow> f (xs, o1) = y"
  shows "rbind (take_section msg dec buf off) f = y"
proof -
  have n: "unat (of_nat (length xs) :: u32) = length xs" using ok(2) by (intro unat_of_nat_u32) simp
  have lt: "off < length buf" using at_off_length [OF a] by simp
  have u: "take_u32 buf off = Inr (of_nat (length xs), off + 4)"
    using u32_codec.round_at [OF TrueI a] by simp
  have a2: "at_off buf (off + 4) (concat (map enc xs) @ r)" using at_off_append [OF a] by simp
  have d: "decode_n dec (length xs) buf (off + 4) = Inr (xs, off + 4 + length (concat (map enc xs)))"
    by (rule list_round_at [OF ok(1) a2])
  have "take_section msg dec buf off = Inr (xs, off + 4 + length (concat (map enc xs)))"
    unfolding take_section_def u using lt n ok(2) d by (simp del: of_nat_less_iff)
  with f at_off_append [OF a2] show ?thesis by simp
qed

end

definition def_ok :: "table_def \<Rightarrow> bool" where
  "def_ok d \<longleftrightarrow>
     str_ok (td_name d) \<and> length (columns (td_schema d)) \<le> 10000 \<and> list_all column_ok (columns (td_schema d)) \<and>
     pk_idx (td_schema d) < 2 ^ 32 \<and> length (td_indexes d) \<le> 10000 \<and> list_all index_ok (td_indexes d) \<and>
     length (td_foreign_keys d) \<le> 10000 \<and> list_all fk_ok (td_foreign_keys d) \<and>
     (case td_stats d of Some s \<Rightarrow> stats_ok s | None \<Rightarrow> True)"

lemma stats_section_at:
  assumes "at_off buf off ((case s of Some s \<Rightarrow> 1 # encode_stats s | None \<Rightarrow> [0]) @ r)"
    and "case s of Some s \<Rightarrow> stats_ok s | None \<Rightarrow> True"
  shows "take_stats_section buf off =
     Inr (s, off + length (case s of Some s \<Rightarrow> 1 # encode_stats s | None \<Rightarrow> [0 :: u8]))"
proof (cases s)
  case None
  with assms have a: "at_off buf off (0 # r)" by simp
  from get_byte_at [OF a, of "''tabledef: EOF''"] at_off_nth [OF a] show ?thesis
    by (simp add: take_stats_section_def None)
next
  case (Some x)
  with assms have a: "at_off buf off (1 # encode_stats x @ r)" by simp
  from stats_codec.round_at [OF _ at_off_Cons [OF a]] get_byte_at [OF a, of "''tabledef: EOF''"]
    at_off_nth [OF a] assms(2) Some
  show ?thesis by (simp add: take_stats_section_def)
qed

interpretation def_codec: cursor_codec encode_table_def_pub "decode_table_def_pub False"
  "\<lambda>d. def_ok d \<and> reread_def d = d"
proof
  fix d buf off r
  assume ok: "def_ok d \<and> reread_def d = d" and a: "at_off buf off (encode_table_def_pub d @ r)"
  have st: "list_all stable_column (columns (td_schema d))"
  proof -
    have "map reread_column (columns (td_schema d)) = columns (td_schema d)"
      using ok unfolding reread_def_def by (metis schema.select_convs(1) table_def.select_convs(2)
        table_def.surjective table_def.update_convs(2))
    then have "\<forall>c \<in> set (columns (td_schema d)). reread_column c = c"
      using map_eq_conv [of reread_column "columns (td_schema d)" id] by simp
    then have "\<forall>c \<in> set (columns (td_schema d)). reread_type (cd_type c) = cd_type c"
      by (metis column_def.ext_inject column_def.surjective column_def.update_convs(2) reread_column_def)
    then show ?thesis using ok by (auto simp: list_all_iff stable_column_def def_ok_def)
  qed
  have o: "str_ok (td_name d)" "list_all index_ok (td_indexes d)" "length (td_indexes d) \<le> 10000"
    "list_all fk_ok (td_foreign_keys d)" "length (td_foreign_keys d) \<le> 10000"
    "case td_stats d of Some s \<Rightarrow> stats_ok s | None \<Rightarrow> True"
    using ok by (simp_all add: def_ok_def)
  have n: "unat (of_nat (length (columns (td_schema d))) :: u32) = length (columns (td_schema d))"
    "(10000 < length (columns (td_schema d))) = False"
    and pk: "unat (of_nat (pk_idx (td_schema d)) :: u32) = pk_idx (td_schema d)"
    using ok by (simp_all add: def_ok_def unat_of_nat_u32)
  show "decode_table_def_pub False buf off = Inr (d, off + length (encode_table_def_pub d))"
    unfolding decode_table_def_pub_def
    apply (rule str_codec.bind [OF a [unfolded encode_table_def_pub_def append_assoc] o(1)], unfold split_conv)
    apply (rule u32_codec.bind, assumption, rule TrueI, unfold split_conv)
    apply (subst n(1), subst n(2), unfold if_False)
    apply (rule u32_codec.bind, assumption, rule TrueI, unfold split_conv)
    apply (subst n(1))
    apply (rule column_codec.list_bind, assumption, rule st, rule refl, unfold split_conv)
    apply (rule index_codec.section_bind, assumption, rule o, rule o, unfold split_conv)
    apply (rule fk_codec.section_bind, assumption, rule o, rule o, unfold split_conv)
    apply (drule stats_section_at [OF _ o(6)])
    apply (simp add: encode_table_def_pub_def pk)
    done
qed

section \<open>Records\<close>

interpretation txn_codec: cursor_codec u64_le take_txn "\<lambda>_. True"
proof
  fix w :: u64 and buf off r
  assume "at_off buf off (u64_le w @ r)"
  from take_n_at [OF this, of 8] show "take_txn buf off = Inr (w, off + length (u64_le w))"
    by (simp add: take_txn_def codec_simps)
qed

fun record_ok :: "wal_record \<Rightarrow> bool" where
  "record_ok (Put txn table key row) = (str_ok table \<and> short key \<and> short row)"
| "record_ok (Delete txn table key) = (str_ok table \<and> short key)"
| "record_ok (Commit txn ts) = True"
| "record_ok (CreateTable txn def) = def_ok def"
| "record_ok (DropTable txn name) = str_ok name"
| "record_ok (CreateIndex txn table name column) = (str_ok table \<and> str_ok name \<and> str_ok column)"
| "record_ok (DropIndex txn table name) = (str_ok table \<and> str_ok name)"
| "record_ok (CreateDatabase txn name) = str_ok name"
| "record_ok (DropDatabase txn name) = str_ok name"

fun body_of :: "wal_record \<Rightarrow> bytes" where
  "body_of (Put txn table key row) = put_str table @ put_bytes key @ put_bytes row"
| "body_of (Delete txn table key) = put_str table @ put_bytes key"
| "body_of (Commit txn ts) = (case ts of Some t \<Rightarrow> u64_le t | None \<Rightarrow> [])"
| "body_of (CreateTable txn def) = encode_table_def_pub def"
| "body_of (DropTable txn name) = put_str name"
| "body_of (CreateIndex txn table name column) = put_str table @ put_str name @ put_str column"
| "body_of (DropIndex txn table name) = put_str table @ put_str name"
| "body_of (CreateDatabase txn name) = put_str name"
| "body_of (DropDatabase txn name) = put_str name"

fun kind_of :: "wal_record \<Rightarrow> u8" where
  "kind_of (Put txn table key row) = 1"
| "kind_of (Delete txn table key) = 2"
| "kind_of (Commit txn ts) = 3"
| "kind_of (CreateTable txn def) = 4"
| "kind_of (DropTable txn name) = 5"
| "kind_of (CreateIndex txn table name column) = 6"
| "kind_of (DropIndex txn table name) = 7"
| "kind_of (CreateDatabase txn name) = 8"
| "kind_of (DropDatabase txn name) = 9"

fun txn_of :: "wal_record \<Rightarrow> u64" where
  "txn_of (Put txn table key row) = txn"
| "txn_of (Delete txn table key) = txn"
| "txn_of (Commit txn ts) = txn"
| "txn_of (CreateTable txn def) = txn"
| "txn_of (DropTable txn name) = txn"
| "txn_of (CreateIndex txn table name column) = txn"
| "txn_of (DropIndex txn table name) = txn"
| "txn_of (CreateDatabase txn name) = txn"
| "txn_of (DropDatabase txn name) = txn"

lemma payload_shape: "payload r = kind_of r # u64_le (txn_of r) @ body_of r"
  by (cases r) simp_all

lemma str_end: "str_ok s \<Longrightarrow> at_off buf off (put_str s) \<Longrightarrow> take_str buf off = Inr (s, off + length (put_str s))"
  using str_codec.round_at [of s buf off "[]"] by simp

lemma bytes_end: "short b \<Longrightarrow> at_off buf off (put_bytes b) \<Longrightarrow> take_bytes buf off = Inr (b, off + length (put_bytes b))"
  using bytes_codec.round_at [of b buf off "[]"] by simp

lemma decode_body_at:
  assumes ok: "record_ok rec" and st: "reread_record rec = rec" and a: "at_off buf off (body_of rec)"
  shows "decode_body False (kind_of rec) (txn_of rec) buf off = Inr (rec, off + length (body_of rec))"
proof (cases rec)
  case (Put txn table key row)
  then have o: "str_ok table" "short key" "short row" and a': "at_off buf off (put_str table @ put_bytes key @ put_bytes row)"
    using ok a by simp_all
  have "rbind (take_str buf off) (\<lambda>(table, o3). rbind (take_bytes buf o3) (\<lambda>(key, o4).
      rbind (take_bytes buf o4) (\<lambda>(row, o5). Inr (Put txn table key row, o5)))) = Inr (rec, off + length (body_of rec))"
    apply (rule str_codec.bind [OF a' o(1)], unfold split_conv)
    apply (rule bytes_codec.bind, assumption, rule o, unfold split_conv)
    apply (drule bytes_end [OF o(3)])
    apply (simp add: Put)
    done
  then show ?thesis by (simp add: decode_body_def Put)
next
  case (Delete txn table key)
  then have o: "str_ok table" "short key" and a': "at_off buf off (put_str table @ put_bytes key)"
    using ok a by simp_all
  have "rbind (take_str buf off) (\<lambda>(table, o3). rbind (take_bytes buf o3) (\<lambda>(key, o4).
      Inr (Delete txn table key, o4))) = Inr (rec, off + length (body_of rec))"
    apply (rule str_codec.bind [OF a' o(1)], unfold split_conv)
    apply (drule bytes_end [OF o(2)])
    apply (simp add: Delete)
    done
  then show ?thesis by (simp add: decode_body_def Delete)
next
  case (Commit txn ts)
  show ?thesis
  proof (cases ts)
    case None
    with Commit a have "length buf = off" using at_off_length [of buf off "[]"] by simp
    then show ?thesis by (simp add: decode_body_def Commit None)
  next
    case (Some t)
    with Commit a have a': "at_off buf off (u64_le t @ [])" by simp
    from at_off_slice [OF a', of 8] at_off_length [OF a'] show ?thesis
      by (simp add: decode_body_def Commit Some codec_simps)
  qed
next
  case (CreateTable txn def)
  then have "decode_table_def_pub False buf off = Inr (def, off + length (encode_table_def_pub def))"
    using ok st a def_codec.round_at [of def buf off "[]"] by simp
  then show ?thesis by (simp add: decode_body_def CreateTable)
next
  case (CreateIndex txn table name column)
  then have o: "str_ok table" "str_ok name" "str_ok column"
    and a': "at_off buf off (put_str table @ put_str name @ put_str column)" using ok a by simp_all
  have "rbind (take_str buf off) (\<lambda>(table, o3). rbind (take_str buf o3) (\<lambda>(name, o4).
      rbind (take_str buf o4) (\<lambda>(column, o5). Inr (CreateIndex txn table name column, o5)))) =
      Inr (rec, off + length (body_of rec))"
    apply (rule str_codec.bind [OF a' o(1)], unfold split_conv)
    apply (rule str_codec.bind, assumption, rule o, unfold split_conv)
    apply (drule str_end [OF o(3)])
    apply (simp add: CreateIndex)
    done
  then show ?thesis by (simp add: decode_body_def CreateIndex)
next
  case (DropIndex txn table name)
  then have o: "str_ok table" "str_ok name" and a': "at_off buf off (put_str table @ put_str name)"
    using ok a by simp_all
  have "rbind (take_str buf off) (\<lambda>(table, o3). rbind (take_str buf o3) (\<lambda>(name, o4).
      Inr (DropIndex txn table name, o4))) = Inr (rec, off + length (body_of rec))"
    apply (rule str_codec.bind [OF a' o(1)], unfold split_conv)
    apply (drule str_end [OF o(2)])
    apply (simp add: DropIndex)
    done
  then show ?thesis by (simp add: decode_body_def DropIndex)
qed (use ok a in \<open>simp_all add: decode_body_def str_end\<close>)

lemma decode_record_stable:
  assumes ok: "record_ok rec" and st: "reread_record rec = rec"
  shows "decode_record False (payload rec) 0 = Inr (rec, length (payload rec))"
proof -
  have a: "at_off (payload rec) 0 (kind_of rec # u64_le (txn_of rec) @ body_of rec)"
    using at_off_start [of "payload rec"] by (simp only: payload_shape)
  show ?thesis
    unfolding decode_record_def
    apply (rule byte_bind [OF a], unfold split_conv)
    apply (rule txn_codec.bind, assumption, rule TrueI, unfold split_conv)
    apply (drule decode_body_at [OF ok st])
    apply (simp add: payload_shape)
    done
qed

lemma record_ok_reread: "record_ok rec \<Longrightarrow> record_ok (reread_record rec)"
  by (cases rec) (auto simp: def_ok_def reread_def_def list_all_iff column_ok_def reread_column_def)

lemma reread_record_idem: "reread_record (reread_record rec) = reread_record rec"
  by (cases rec) (simp_all add: reread_def_idem)

lemma decode_record_payload:
  assumes "record_ok rec"
  shows "decode_record False (payload rec) 0 = Inr (reread_record rec, length (payload rec))"
  using decode_record_stable [OF record_ok_reread [OF assms] reread_record_idem] by (simp only: payload_reread)

end
