(* ===== verification/Catalog.thy ===== *)
theory Catalog
  imports Wal_Codec
begin

text \<open>
  The catalog (\<open>crates/engine/src/catalog.rs\<close>): the ordered registry of table definitions and the codec of
  the snapshot file a checkpoint writes. A reader is the bytes it has not delivered yet; \<open>read_exact\<close> fails
  when they are too few. Writes are to a buffer and do not fail.
\<close>

section \<open>The registry\<close>

record catalog =
  cat_tables :: "(string \<times> table_def) list"

definition catalog_get :: "catalog \<Rightarrow> string \<Rightarrow> table_def option" where
  "catalog_get c name = map_of (cat_tables c) name"

definition catalog_create :: "table_def \<Rightarrow> catalog \<Rightarrow> catalog \<times> unit result" where
  "catalog_create def c =
     (if map_of (cat_tables c) (td_name def) \<noteq> None then (c, Inl (TableExists (td_name def)))
      else (c\<lparr>cat_tables := map_put (td_name def) def (cat_tables c)\<rparr>, Inr ()))"

definition catalog_drop :: "string \<Rightarrow> catalog \<Rightarrow> catalog \<times> table_def result" where
  "catalog_drop name c =
     (case map_of (cat_tables c) name of
        None \<Rightarrow> (c, Inl (TableNotFound name))
      | Some d \<Rightarrow> (c\<lparr>cat_tables := filter (\<lambda>e. fst e \<noteq> name) (cat_tables c)\<rparr>, Inr d))"

definition catalog_list :: "catalog \<Rightarrow> string list" where
  "catalog_list c = map fst (cat_tables c)"

section \<open>The snapshot file\<close>

definition SNAPSHOT_MAGIC :: bytes where "SNAPSHOT_MAGIC = str_bytes ''HDBS''"
definition SNAPSHOT_FORMAT_VERSION :: u32 where "SNAPSHOT_FORMAT_VERSION = 4"

record snap_row =
  sr_key :: "bytes option"
  sr_value :: bytes

fun put_rows :: "(bytes \<times> bytes) list \<Rightarrow> bytes result" where
  "put_rows [] = Inr []"
| "put_rows ((key, v) # rows) =
     (if length key > 1024 * 1024 then Inl (Corrupted ''snapshot key too large'')
      else rbind (put_rows rows) (\<lambda>bs.
        Inr (u32_le (of_nat (length key)) @ key @ u32_le (of_nat (length v)) @ v @ bs)))"

fun put_tables :: "(table_def \<times> (bytes \<times> bytes) list) list \<Rightarrow> bytes result" where
  "put_tables [] = Inr []"
| "put_tables ((def, rows) # ts) =
     (let buf = encode_table_def_pub def in
      rbind (put_rows rows) (\<lambda>rs. rbind (put_tables ts) (\<lambda>bs.
        Inr (u32_le (of_nat (length buf)) @ buf @ u64_le (of_nat (length rows)) @ rs @ bs))))"

definition encode_snapshot :: "string list \<Rightarrow> (table_def \<times> (bytes \<times> bytes) list) list \<Rightarrow> bytes result" where
  "encode_snapshot databases tables =
     rbind (put_tables tables) (\<lambda>ts.
       Inr (SNAPSHOT_MAGIC @ u32_le SNAPSHOT_FORMAT_VERSION @ u32_le (of_nat (length databases)) @
         concat (map put_str databases) @ u32_le (of_nat (length tables)) @ ts))"

definition read_exact :: "nat \<Rightarrow> bytes \<Rightarrow> (bytes \<times> bytes) result" where
  "read_exact n bs = (if length bs < n then Inl (Io ''failed to fill whole buffer'') else Inr (take n bs, drop n bs))"

definition le_u32 :: "bytes \<Rightarrow> (nat \<times> bytes) result" where
  "le_u32 bs = rbind (read_exact 4 bs) (\<lambda>(b, r). Inr (unat (u32_of_le b), r))"

definition le_u64 :: "bytes \<Rightarrow> (nat \<times> bytes) result" where
  "le_u64 bs = rbind (read_exact 8 bs) (\<lambda>(b, r). Inr (unat (u64_of_le b), r))"

definition snap_str :: "bytes \<Rightarrow> (string \<times> bytes) result" where
  "snap_str bs =
     rbind (le_u32 bs) (\<lambda>(len, bs).
       if len > 1024 then Inl (Corrupted ''db name too long'')
       else rbind (read_exact len bs) (\<lambda>(b, bs).
         if utf8_valid b then Inr (bytes_str b, bs) else Inl (Corrupted ''utf8 db name'')))"

text \<open>\<open>for _ in 0..n\<close> over a reader.\<close>

fun read_n :: "(bytes \<Rightarrow> ('a \<times> bytes) result) \<Rightarrow> nat \<Rightarrow> bytes \<Rightarrow> ('a list \<times> bytes) result" where
  "read_n rd 0 bs = Inr ([], bs)"
| "read_n rd (Suc n) bs =
     rbind (rd bs) (\<lambda>(x, bs). rbind (read_n rd n bs) (\<lambda>(xs, bs). Inr (x # xs, bs)))"

definition read_row :: "nat \<Rightarrow> bytes \<Rightarrow> (snap_row \<times> bytes) result" where
  "read_row version bs =
     (if version = 1 then
        rbind (le_u32 bs) (\<lambda>(len, bs).
          if len > 64 * 1024 * 1024 then Inl (Corrupted ''snapshot row too large'')
          else rbind (read_exact len bs) (\<lambda>(row, bs). Inr (\<lparr>sr_key = None, sr_value = row\<rparr>, bs)))
      else
        rbind (le_u32 bs) (\<lambda>(klen, bs).
          if klen > 1024 * 1024 then Inl (Corrupted ''snapshot key too large'')
          else rbind (read_exact klen bs) (\<lambda>(key, bs).
            rbind (le_u32 bs) (\<lambda>(vlen, bs).
              if vlen > 64 * 1024 * 1024 then Inl (Corrupted ''snapshot row too large'')
              else rbind (read_exact vlen bs) (\<lambda>(v, bs). Inr (\<lparr>sr_key = Some key, sr_value = v\<rparr>, bs))))))"

definition read_table :: "nat \<Rightarrow> bytes \<Rightarrow> ((table_def \<times> snap_row list) \<times> bytes) result" where
  "read_table version bs =
     rbind (le_u32 bs) (\<lambda>(def_len, bs).
       if def_len > 16 * 1024 * 1024 then Inl (Corrupted ''snapshot table def too large'')
       else rbind (read_exact def_len bs) (\<lambda>(buf, bs).
         rbind (decode_table_def_pub (version \<le> 2) buf 0) (\<lambda>(def, _).
         rbind (le_u64 bs) (\<lambda>(nrows, bs).
         rbind (read_n (read_row version) nrows bs) (\<lambda>(rows, bs). Inr ((def, rows), bs))))))"

definition read_databases :: "nat \<Rightarrow> bytes \<Rightarrow> (string list \<times> bytes) result" where
  "read_databases version bs =
     (if version \<ge> 4 then
        rbind (le_u32 bs) (\<lambda>(ndbs, bs).
          if ndbs > 10000 then Inl (Corrupted ''snapshot db count too large'') else read_n snap_str ndbs bs)
      else Inr ([''default''], bs))"

definition decode_snapshot :: "bytes \<Rightarrow> (string list \<times> (table_def \<times> snap_row list) list) result" where
  "decode_snapshot bs =
     rbind (read_exact 4 bs) (\<lambda>(magic, bs).
       if magic \<noteq> SNAPSHOT_MAGIC then Inl (Corrupted ''bad snapshot magic'')
       else rbind (le_u32 bs) (\<lambda>(version, bs).
         if version \<noteq> 1 \<and> version \<noteq> 2 \<and> version \<noteq> 3 \<and> version \<noteq> unat SNAPSHOT_FORMAT_VERSION
         then Inl (Corrupted ''snapshot version'')
         else rbind (read_databases version bs) (\<lambda>(databases, bs).
           rbind (le_u32 bs) (\<lambda>(ntables, bs).
             if ntables > 100000 then Inl (Corrupted ''snapshot table count too large'')
             else rbind (read_n (read_table version) ntables bs) (\<lambda>(tables, _). Inr (databases, tables))))))"

section \<open>The registry keeps its order\<close>

definition catalog_ok :: "catalog \<Rightarrow> bool" where
  "catalog_ok c \<longleftrightarrow> names_sorted (cat_tables c) \<and> (\<forall>(k, d) \<in> set (cat_tables c). td_name d = k)"

lemma catalog_create_ok:
  assumes "catalog_ok c"
  shows "catalog_ok (fst (catalog_create d c))"
    "catalog_get (fst (catalog_create d c)) =
       (if catalog_get c (td_name d) = None then (catalog_get c)(td_name d \<mapsto> d) else catalog_get c)"
  using assms map_put_sorted [of "cat_tables c" "td_name d" d] map_put_set [of "td_name d" d "cat_tables c"]
  by (auto simp: catalog_create_def catalog_ok_def catalog_get_def map_put_lookup fun_eq_iff)

lemma map_of_filter_fst: "map_of (filter (\<lambda>e. fst e \<noteq> a) m) = (map_of m)(a := None)"
  by (induction m) (auto simp: fun_eq_iff)

lemma catalog_drop_ok:
  assumes "catalog_ok c"
  shows "catalog_ok (fst (catalog_drop a c))" "catalog_get (fst (catalog_drop a c)) = (catalog_get c)(a := None)"
  using assms
  by (auto simp: catalog_drop_def catalog_ok_def catalog_get_def names_sorted_def sorted_wrt_filter map_of_filter_fst fun_eq_iff
      split: option.splits)

section \<open>Readers that undo a writer\<close>

locale stream_codec =
  fixes enc :: "'a \<Rightarrow> bytes" and rd :: "bytes \<Rightarrow> ('b \<times> bytes) result" and out :: "'a \<Rightarrow> 'b" and ok :: "'a \<Rightarrow> bool"
  assumes rd_enc: "ok x \<Longrightarrow> rd (enc x @ r) = Inr (out x, r)"
begin

lemma list_rd: "list_all ok xs \<Longrightarrow> read_n rd (length xs) (concat (map enc xs) @ r) = Inr (map out xs, r)"
  by (induction xs) (simp_all add: rd_enc)

end

lemma read_exact_append [codec_simps]: "n = length a \<Longrightarrow> read_exact n (a @ r) = Inr (a, r)"
  by (simp add: read_exact_def)

lemma le_u32_append [codec_simps]: "n < 2 ^ 32 \<Longrightarrow> le_u32 (u32_le (of_nat n) @ r) = Inr (n, r)"
  using read_exact_append [of 4 "u32_le (of_nat n)" r] by (simp add: le_u32_def nat_le_le_nat unat_of_nat)

lemma le_u64_append [codec_simps]: "n < 2 ^ 64 \<Longrightarrow> le_u64 (u64_le (of_nat n) @ r) = Inr (n, r)"
  using read_exact_append [of 8 "u64_le (of_nat n)" r] by (simp add: le_u64_def nat_le_le_nat unat_of_nat)

lemma le_u32_le [codec_simps]: "n < 2 ^ 32 \<Longrightarrow> le_u32 (le_nat 4 n @ r) = Inr (n, r)"
  using le_u32_append [of n r] by (simp add: unat_of_nat)

definition db_name_ok :: "string \<Rightarrow> bool" where
  "db_name_ok s \<longleftrightarrow> length s \<le> 1024 \<and> valid_str s"

interpretation name_stream: stream_codec put_str snap_str id db_name_ok
  by unfold_locales (simp add: put_str_def db_name_ok_def snap_str_def codec_simps)

definition put_row :: "bytes \<times> bytes \<Rightarrow> bytes" where
  "put_row e = u32_le (of_nat (length (fst e))) @ fst e @ u32_le (of_nat (length (snd e))) @ snd e"

definition row_fits :: "bytes \<times> bytes \<Rightarrow> bool" where
  "row_fits e \<longleftrightarrow> length (fst e) \<le> 1024 * 1024 \<and> length (snd e) \<le> 64 * 1024 * 1024"

definition snap_of :: "bytes \<times> bytes \<Rightarrow> snap_row" where
  "snap_of e = \<lparr>sr_key = Some (fst e), sr_value = snd e\<rparr>"

interpretation row_stream: stream_codec put_row "read_row 4" snap_of row_fits
  by unfold_locales (simp add: put_row_def row_fits_def snap_of_def read_row_def codec_simps)

lemma put_rows_eq: "list_all row_fits rows \<Longrightarrow> put_rows rows = Inr (concat (map put_row rows))"
  by (induction rows) (auto simp: row_fits_def put_row_def)

definition put_table :: "table_def \<times> (bytes \<times> bytes) list \<Rightarrow> bytes" where
  "put_table e = u32_le (of_nat (length (encode_table_def_pub (fst e)))) @ encode_table_def_pub (fst e) @
     u64_le (of_nat (length (snd e))) @ concat (map put_row (snd e))"

definition table_fits :: "table_def \<times> (bytes \<times> bytes) list \<Rightarrow> bool" where
  "table_fits e \<longleftrightarrow> def_ok (fst e) \<and> length (encode_table_def_pub (fst e)) \<le> 16 * 1024 * 1024 \<and>
     length (snd e) < 2 ^ 64 \<and> list_all row_fits (snd e)"

definition snap_table :: "table_def \<times> (bytes \<times> bytes) list \<Rightarrow> table_def \<times> snap_row list" where
  "snap_table e = (reread_def (fst e), map snap_of (snd e))"

lemma def_ok_reread: "def_ok d \<Longrightarrow> def_ok (reread_def d)"
  using record_ok_reread [of "CreateTable 0 d"] by simp

lemma decode_def_reread:
  assumes "def_ok d"
  shows "decode_table_def_pub False (encode_table_def_pub d) 0 = Inr (reread_def d, length (encode_table_def_pub d))"
  using def_codec.round_trip [of "reread_def d"] def_ok_reread [OF assms] by (simp add: reread_def_idem encode_def_reread)

interpretation table_stream: stream_codec put_table "read_table 4" snap_table table_fits
proof
  fix e r assume "table_fits e"
  then show "read_table 4 (put_table e @ r) = Inr (snap_table e, r)"
    using row_stream.list_rd [of "snd e" r]
    by (simp add: put_table_def table_fits_def snap_table_def read_table_def codec_simps decode_def_reread)
qed

lemma put_tables_eq: "list_all table_fits ts \<Longrightarrow> put_tables ts = Inr (concat (map put_table ts))"
  by (induction ts) (auto simp: put_table_def table_fits_def put_rows_eq Let_def)

definition snapshot_fits :: "string list \<Rightarrow> (table_def \<times> (bytes \<times> bytes) list) list \<Rightarrow> bool" where
  "snapshot_fits dbs ts \<longleftrightarrow> length dbs \<le> 10000 \<and> list_all db_name_ok dbs \<and> length ts \<le> 100000 \<and> list_all table_fits ts"

lemma snapshot_law:
  assumes "snapshot_fits dbs ts"
  shows "\<exists>bs. encode_snapshot dbs ts = Inr bs \<and> decode_snapshot bs = Inr (dbs, map snap_table ts)"
proof -
  have n: "length dbs < 2 ^ 32" "length ts < 2 ^ 32" using assms by (simp_all add: snapshot_fits_def)
  let ?bs = "SNAPSHOT_MAGIC @ u32_le SNAPSHOT_FORMAT_VERSION @ u32_le (of_nat (length dbs)) @
         concat (map put_str dbs) @ u32_le (of_nat (length ts)) @ concat (map put_table ts)"
  have v: "le_u32 (le_nat 4 4 @ r) = Inr (4, r)" "unat SNAPSHOT_FORMAT_VERSION = 4" for r
    using le_u32_append [of 4 r] by (simp_all add: SNAPSHOT_FORMAT_VERSION_def)
  have m: "read_exact 4 (SNAPSHOT_MAGIC @ r) = Inr (SNAPSHOT_MAGIC, r)" for r
    by (simp add: SNAPSHOT_MAGIC_def codec_simps)
  have "encode_snapshot dbs ts = Inr ?bs"
    using assms by (simp add: encode_snapshot_def snapshot_fits_def put_tables_eq)
  moreover have "decode_snapshot ?bs = Inr (dbs, map snap_table ts)"
    using assms n name_stream.list_rd [of dbs] table_stream.list_rd [of ts "[]"]
    by (simp add: decode_snapshot_def read_databases_def snapshot_fits_def v m codec_simps)
  ultimately show ?thesis by blast
qed

text \<open>A database name beyond the reader's limit stops the reader.\<close>

lemma read_long_name:
  assumes "list_all db_name_ok pre" "1024 < length n" "short n"
  shows "read_n snap_str (length (pre @ n # post)) (concat (map put_str (pre @ n # post)) @ r) =
    Inl (Corrupted ''db name too long'')"
  using assms
proof (induction pre)
  case Nil
  then show ?case by (simp add: put_str_def snap_str_def short_def codec_simps)
next
  case (Cons p pre)
  then show ?case using name_stream.rd_enc [of p] by simp
qed

section \<open>Properties\<close>



text \<open>A database with a name of more than 1024 bytes goes into the snapshot without complaint, and the snapshot
  cannot be read any more.\<close>
theorem long_database_name_unreadable:
  assumes "list_all db_name_ok pre" "1024 < length n" "short n" "length (pre @ n # post) \<le> 10000" "list_all table_fits ts"
  shows "\<exists>bs. encode_snapshot (pre @ n # post) ts = Inr bs \<and> decode_snapshot bs = Inl (Corrupted ''db name too long'')"
proof -
  have v: "le_u32 (le_nat 4 4 @ r) = Inr (4, r)" "unat SNAPSHOT_FORMAT_VERSION = 4" for r
    using le_u32_append [of 4 r] by (simp_all add: SNAPSHOT_FORMAT_VERSION_def)
  have m: "read_exact 4 (SNAPSHOT_MAGIC @ r) = Inr (SNAPSHOT_MAGIC, r)" for r
    by (simp add: SNAPSHOT_MAGIC_def codec_simps)
  have l: "length (pre @ n # post) < 2 ^ 32" using assms(4) by simp
  show ?thesis
    using assms(4) read_long_name [OF assms(1-3), of post] put_tables_eq [OF assms(5)] le_u32_append [OF l]
    unfolding encode_snapshot_def decode_snapshot_def read_databases_def by (simp add: v m del: map_append of_nat_Suc)
qed

theorem long_database_name_unreadable_witness:
  "\<exists>bs. encode_snapshot [replicate 1025 CHR ''x''] [] = Inr bs \<and> decode_snapshot bs = Inl (Corrupted ''db name too long'')"
  using long_database_name_unreadable [of "[]" "replicate 1025 CHR ''x''" "[]" "[]"] by (simp add: short_def)

end
