(* ===== verification/Wal_Log.thy ===== *)
theory Wal_Log
  imports Wal_Codec
begin

text \<open>
  Reading the write-ahead log (\<open>Wal::decode_wal_range\<close> and \<open>Wal::read_all\<close> in
  \<open>crates/engine/src/wal.rs\<close>): complete frames are returned, a torn tail is left alone, damage is an
  error. \<open>len > 1 << 30\<close> is refused before the payload is looked at.
\<close>

section \<open>Frames\<close>

function decode_frames ::
  "bool \<Rightarrow> bytes \<Rightarrow> nat \<Rightarrow> wal_record list \<Rightarrow> (wal_record list \<times> nat) result" where
  "decode_frames legacy data off out =
     (if length data \<le> off then Inr (out, off)
      else if length data - off < 8 then Inr (out, off)
      else
        let len = unat (u32_of_le (slice data off 4)); crc = u32_of_le (slice data (off + 4) 4) in
        if len > 2 ^ 30 then Inl (Corrupted ''WAL record too large'')
        else if length data - off - 8 < len then Inr (out, off)
        else
          let payload = slice data (off + 8) len in
          if crc32 payload \<noteq> crc then Inl (Corrupted ''WAL crc mismatch'')
          else (case decode_record legacy payload 0 of
                  Inl e \<Rightarrow> Inl e
                | Inr (rec, _) \<Rightarrow> decode_frames legacy data (off + (8 + len)) (out @ [rec])))"
  by pat_completeness auto
termination
  by (relation "measure (\<lambda>(_, data, off, _). length data - off)") auto

declare decode_frames.simps [simp del]

definition decode_wal_range :: "bytes \<Rightarrow> bool \<Rightarrow> (wal_record list \<times> nat) result" where
  "decode_wal_range data legacy = decode_frames legacy data 0 []"

section \<open>The whole file\<close>

definition WAL_MAGIC :: bytes where "WAL_MAGIC = str_bytes ''HDBW''"
definition WAL_FORMAT_VERSION :: u32 where "WAL_FORMAT_VERSION = 4"

definition wal_header :: bytes where
  "wal_header = WAL_MAGIC @ u32_le WAL_FORMAT_VERSION"

text \<open>The loop of \<open>read_all\<close>: \<open>rest\<close> is what the reader has not consumed, and \<open>read_exact\<close> fails when
  fewer bytes remain than it needs.\<close>

function read_loop :: "bool \<Rightarrow> bytes \<Rightarrow> wal_record list \<Rightarrow> wal_record list result" where
  "read_loop legacy rest out =
     (if length rest < 8 then Inr out
      else
        let len = unat (u32_of_le (take 4 rest)); crc = u32_of_le (take 4 (drop 4 rest)) in
        if len > 2 ^ 30 then Inl (Corrupted ''WAL record too large'')
        else if length (drop 8 rest) < len then Inr out
        else
          let payload = take len (drop 8 rest) in
          if crc32 payload \<noteq> crc then Inl (Corrupted ''WAL crc mismatch'')
          else (case decode_record legacy payload 0 of
                  Inl e \<Rightarrow> Inl e
                | Inr (rec, _) \<Rightarrow> read_loop legacy (drop (8 + len) rest) (out @ [rec])))"
  by pat_completeness auto
termination
  by (relation "measure (\<lambda>(_, rest, _). length rest)") auto

declare read_loop.simps [simp del]

definition read_all :: "bytes \<Rightarrow> wal_record list result" where
  "read_all file =
     (if length file < 4 then Inl (Io ''failed to fill whole buffer'')
      else if take 4 file \<noteq> WAL_MAGIC then Inl (Corrupted ''bad WAL magic'')
      else if length file < 8 then Inl (Io ''failed to fill whole buffer'')
      else
        let version = unat (u32_of_le (take 4 (drop 4 file))) in
        if version < 1 \<or> version > unat WAL_FORMAT_VERSION
        then Inl (Corrupted (''WAL version '' @ dec_string version))
        else read_loop (version < 3) (drop 8 file) [])"

lemma read_loop_frames:
  "off \<le> length data \<Longrightarrow>
   read_loop legacy (drop off data) out = map_sum id fst (decode_frames legacy data off out)"
proof (induction legacy data off out rule: decode_frames.induct)
  case (1 legacy data off out)
  show ?case
  proof (cases "length data - off < 8")
    case True
    then show ?thesis
      by (subst read_loop.simps, subst decode_frames.simps) auto
  next
    case False
    let ?len = "unat (u32_of_le (slice data off 4))"
    note sl = slice_def add.commute
    show ?thesis
    proof (cases "2 ^ 30 < ?len \<or> length data - off - 8 < ?len \<or>
        crc32 (slice data (off + 8) ?len) \<noteq> u32_of_le (slice data (off + 4) 4)")
      case True
      then show ?thesis using False
        by (subst read_loop.simps, subst decode_frames.simps) (auto simp: Let_def sl)
    next
      case f: False
      show ?thesis
      proof (cases "decode_record legacy (slice data (off + 8) ?len) 0")
        case (Inl e)
        then show ?thesis using False f
          by (subst read_loop.simps, subst decode_frames.simps) (auto simp: Let_def sl)
      next
        case (Inr p)
        obtain rec o1 where p: "p = (rec, o1)" by force
        have "read_loop legacy (drop (off + (8 + ?len)) data) (out @ [rec]) =
            map_sum id fst (decode_frames legacy data (off + (8 + ?len)) (out @ [rec]))"
          by (rule 1(1)) (use False f Inr p in auto)
        moreover have "drop (8 + ?len) (drop off data) = drop (off + (8 + ?len)) data"
          by (simp add: add.commute)
        ultimately show ?thesis using False f Inr p
          by (subst read_loop.simps, subst decode_frames.simps) (auto simp: Let_def sl)
      qed
    qed
  qed
qed

section \<open>Complete frames, torn frames, damaged frames\<close>

definition frame :: "bytes \<Rightarrow> u32 \<Rightarrow> bytes" where
  "frame p crc = u32_le (of_nat (length p)) @ u32_le crc @ p"

lemma encode_record_frame: "encode_record rec = frame (payload rec) (crc32 (payload rec))"
  by (simp only: encode_record_def frame_def Let_def)

definition frame_ok :: "wal_record \<Rightarrow> bool" where
  "frame_ok rec \<longleftrightarrow> record_ok rec \<and> length (payload rec) \<le> 2 ^ 30"

lemma length_frame: "length (frame p crc) = 8 + length p"
  by (simp add: frame_def)

lemma length_word: "n \<le> 2 ^ 30 \<Longrightarrow> unat (of_nat n :: u32) = n"
  by (simp add: unat_of_nat)

lemma u32_le_inv: "u32_of_le (u32_le w) = w"
  by (simp add: codec_simps)

lemma frame_fields:
  assumes a: "at_off data off (frame p crc @ r)" and l: "length p \<le> 2 ^ 30"
  shows "slice data (off + 8) (length p) = p" "length data = off + 8 + length p + length r"
    "unat (u32_of_le (slice data off 4)) = length p" "u32_of_le (slice data (off + 4) 4) = crc"
proof -
  from a have a1: "at_off data off (u32_le (of_nat (length p)) @ u32_le crc @ p @ r)"
    by (simp only: frame_def append_assoc)
  from at_off_append [OF a1] have a2: "at_off data (off + 4) (u32_le crc @ p @ r)" by (simp only: length_le_nat)
  from at_off_append [OF a2] have a3: "at_off data (off + 8) (p @ r)" by (simp add: add.assoc)
  have s: "slice data off 4 = u32_le (of_nat (length p))" "slice data (off + 4) 4 = u32_le crc"
    using at_off_slice [OF a1, of 4] at_off_slice [OF a2, of 4] by simp_all
  show "slice data (off + 8) (length p) = p" using at_off_slice [OF a3, of "length p"] by simp
  show "length data = off + 8 + length p + length r" using at_off_length [OF a3] by simp
  show "u32_of_le (slice data (off + 4) 4) = crc" unfolding s(2) by (rule u32_le_inv)
  show "unat (u32_of_le (slice data off 4)) = length p"
    unfolding s(1) u32_le_inv using l by (rule length_word)
qed

lemma decode_frames_step:
  assumes a: "at_off data off (encode_record rec @ r)" and ok: "frame_ok rec"
  shows "decode_frames False data off out =
     decode_frames False data (off + length (encode_record rec)) (out @ [reread_record rec])"
proof -
  have l: "length (payload rec) \<le> 2 ^ 30" using ok by (simp add: frame_ok_def)
  note f = frame_fields [OF a [unfolded encode_record_frame] l]
  have d: "decode_record False (payload rec) 0 = Inr (reread_record rec, length (payload rec))"
    using ok by (intro decode_record_payload) (simp add: frame_ok_def)
  show ?thesis
    by (subst decode_frames.simps) (use l in \<open>simp add: Let_def f d encode_record_frame length_frame\<close>)
qed

lemma decode_frames_all:
  "at_off data off (concat (map encode_record recs) @ r) \<Longrightarrow> list_all frame_ok recs \<Longrightarrow>
   decode_frames False data off out =
     decode_frames False data (off + length (concat (map encode_record recs))) (out @ map reread_record recs)"
proof (induction recs arbitrary: off out)
  case (Cons rec recs)
  then have a: "at_off data off (encode_record rec @ concat (map encode_record recs) @ r)" by simp
  from decode_frames_step [OF a] Cons.IH [OF at_off_append [OF a]] Cons.prems show ?case
    by (simp add: add.assoc)
qed simp

text \<open>A torn tail: a record of which only a proper prefix reached the file.\<close>

definition torn :: "bytes \<Rightarrow> bool" where
  "torn t \<longleftrightarrow> (\<exists>rec n. frame_ok rec \<and> n < length (encode_record rec) \<and> t = take n (encode_record rec))"

lemma decode_frames_torn:
  assumes a: "at_off data off t" and t: "torn t"
  shows "decode_frames legacy data off out = Inr (out, off)"
proof -
  have len: "length data = off + length t" using at_off_length [OF a] .
  show ?thesis
  proof (cases "length t < 8")
    case True
    then show ?thesis using len by (subst decode_frames.simps) auto
  next
    case False
    from t obtain rec n where ok: "frame_ok rec" and n: "n < length (encode_record rec)"
      and t': "t = take n (encode_record rec)" by (auto simp: torn_def)
    let ?p = "payload rec"
    have l: "length ?p \<le> 2 ^ 30" using ok by (simp add: frame_ok_def)
    have n8: "8 \<le> n" "n < 8 + length ?p" using False n t' by (simp_all add: encode_record_frame length_frame)
    have t'': "t = u32_le (of_nat (length ?p)) @ u32_le (crc32 ?p) @ take (n - 8) ?p"
      unfolding t' encode_record_frame frame_def using n8 by (simp add: take_append)
    have sl: "slice data off 4 = u32_le (of_nat (length ?p))"
      using at_off_slice [OF a [unfolded t''], of 4] by simp
    have "unat (u32_of_le (slice data off 4)) = length ?p"
      unfolding sl u32_le_inv using l by (rule length_word)
    moreover have "length t = n" using n t' by simp
    ultimately show ?thesis using len n8 l by (subst decode_frames.simps) (auto simp: Let_def)
  qed
qed

lemma decode_frames_damaged:
  assumes a: "at_off data off (frame p crc @ r)" and l: "length p \<le> 2 ^ 30" and c: "crc32 p \<noteq> crc"
  shows "decode_frames legacy data off out = Inl (Corrupted ''WAL crc mismatch'')"
  using frame_fields [OF a l] l c by (subst decode_frames.simps) (simp add: Let_def)

lemma read_all_header: "read_all (wal_header @ data) = read_loop False data []"
proof -
  have "take 4 (wal_header @ data) = WAL_MAGIC" "take 4 (drop 4 (wal_header @ data)) = u32_le WAL_FORMAT_VERSION"
    "drop 8 (wal_header @ data) = data" "length (wal_header @ data) = 8 + length data"
    by (simp_all add: wal_header_def WAL_MAGIC_def str_bytes_def)
  then show ?thesis unfolding read_all_def by (simp only: u32_le_inv) (simp add: WAL_FORMAT_VERSION_def)
qed

lemma read_torn_tail:
  assumes "list_all frame_ok recs" "torn t"
  shows "decode_wal_range (concat (map encode_record recs) @ t) False =
           Inr (map reread_record recs, length (concat (map encode_record recs)))"
    "read_all (wal_header @ concat (map encode_record recs) @ t) = Inr (map reread_record recs)"
proof -
  let ?data = "concat (map encode_record recs) @ t"
  note a = at_off_start [of ?data]
  have f: "decode_frames False ?data 0 [] = Inr (map reread_record recs, length (concat (map encode_record recs)))"
    using decode_frames_all [OF a assms(1), of "[]"] decode_frames_torn [OF at_off_append [OF a] assms(2), of False]
    by simp
  then show "decode_wal_range ?data False = Inr (map reread_record recs, length (concat (map encode_record recs)))"
    by (simp add: decode_wal_range_def)
  show "read_all (wal_header @ ?data) = Inr (map reread_record recs)"
    using f read_loop_frames [of 0 ?data False "[]"] by (simp add: read_all_header)
qed

text \<open>Only the length a header announces decides whether the payload is complete.\<close>

lemma read_announced:
  assumes "frame_ok rec" "8 \<le> n" "n + length add < length (encode_record rec)"
  shows "read_all (wal_header @ take n (encode_record rec) @ add) = Inr []"
proof -
  let ?p = "payload rec"
  let ?t = "take n (encode_record rec)"
  have l: "length ?p \<le> 2 ^ 30" using assms(1) by (simp add: frame_ok_def)
  have n8: "n + length add < 8 + length ?p" using assms(3) by (simp add: encode_record_frame length_frame)
  have t: "?t = u32_le (of_nat (length ?p)) @ u32_le (crc32 ?p) @ take (n - 8) ?p"
    unfolding encode_record_frame frame_def using assms(2) by (simp add: take_append)
  have tk: "take 4 (?t @ add) = u32_le (of_nat (length ?p))" unfolding t by simp
  have "unat (u32_of_le (take 4 (?t @ add))) = length ?p"
    unfolding tk u32_le_inv using l by (rule length_word)
  moreover have len: "length (?t @ add) = n + length add" using assms(3) by simp
  moreover have "length (drop 8 (?t @ add)) < length ?p" using len n8 assms(2) by (simp only: length_drop)
  ultimately have "read_loop False (?t @ add) [] = Inr []"
    using assms(2) l by (subst read_loop.simps) (simp only: Let_def if_True if_False if_cancel, simp)
  then show ?thesis by (simp add: read_all_header)
qed

section \<open>Properties\<close>

text \<open>Record round trip: the payload of every record within the format's limits decodes to the
  record it was made from, up to the column types of a created table (see the next property).\<close>
theorem wal_record_round_trip:
  assumes "record_ok rec"
  shows "decode_record False (payload rec) 0 = Inr (reread_record rec, length (payload rec))"
  using assms by (rule decode_record_payload)

theorem wal_record_round_trip_witness:
  "decode_record False (payload (Put 7 ''t'' [1] [2, 3])) 0 =
     Inr (Put 7 ''t'' [1] [2, 3], length (payload (Put 7 ''t'' [1] [2, 3])))"
  using wal_record_round_trip [of "Put 7 ''t'' [1] [2, 3]"] by (simp add: short_def str_bytes_def in_range_def)

text \<open>Column types are not preserved: a \<open>BOOL\<close> column comes back as \<open>BIGINT\<close>, a \<open>DATETIME\<close> column as
  \<open>DOUBLE\<close> and a \<open>TIMESTAMP\<close> column as \<open>TEXT\<close> from the log and from the catalog snapshot, because the
  writer stores the first letter of the type name and the reader expects other letters.\<close>
theorem column_type_not_preserved:
  assumes "column_ok c"
  shows "take_column False (put_column c) 0 = Inr (c\<lparr>cd_type := reread_type (cd_type c)\<rparr>, length (put_column c)) \<and>
     reread_type TBool = TBigInt \<and> reread_type TDateTime = TDouble \<and> reread_type TTimestamp = TText"
proof -
  have "stable_column (reread_column c)"
    using assms by (simp add: stable_column_def column_ok_def reread_column_def reread_type_idem)
  from column_codec.round_trip [OF this] show ?thesis
    unfolding put_column_reread by (simp add: reread_column_def)
qed

theorem column_type_not_preserved_witness:
  "\<exists>c n. cd_type c = TBool \<and> take_column False (put_column c) 0 = Inr (c\<lparr>cd_type := TBigInt\<rparr>, n)"
proof -
  let ?c = "\<lparr>cd_name = ''x'', cd_type = TBool, cd_nullable = True, cd_auto_increment = False, cd_default = None\<rparr>"
  have "column_ok ?c" by (simp add: column_ok_def short_def str_bytes_def in_range_def opt_ok_def)
  from column_type_not_preserved [OF this] show ?thesis by (intro exI [of _ ?c]) auto
qed



text \<open>C6. Fail closed: if one byte of the payload of a record is damaged, reading the log reports
  corruption instead of any records, whatever follows.\<close>
theorem wal_damage_detected:
  assumes "list_all frame_ok recs" "payload rec = xs @ b # ys" "length (payload rec) \<le> 2 ^ 30" "b' \<noteq> b"
  shows "decode_wal_range (concat (map encode_record recs) @
      frame (xs @ b' # ys) (crc32 (payload rec)) @ rest) False = Inl (Corrupted ''WAL crc mismatch'')"
proof -
  let ?data = "concat (map encode_record recs) @ frame (xs @ b' # ys) (crc32 (payload rec)) @ rest"
  note a = at_off_start [of ?data]
  have l: "length (xs @ b' # ys) \<le> 2 ^ 30" using assms(2,3) by simp
  have c: "crc32 (xs @ b' # ys) \<noteq> crc32 (payload rec)" unfolding assms(2) by (rule crc32_byte_differs [OF assms(4)])
  show ?thesis unfolding decode_wal_range_def
    using decode_frames_all [OF a assms(1), of "[]"] decode_frames_damaged [OF at_off_append [OF a] l c, of False] by simp
qed

theorem wal_damage_detected_witness:
  "decode_wal_range (frame (9 # u64_le 1) (crc32 (payload (Commit 1 None)))) False = Inl (Corrupted ''WAL crc mismatch'')"
  using wal_damage_detected [of "[]" "Commit 1 None" "[]" 3 "u64_le 1" 9 "[]"] by simp

end
