(* ===== verification/Wal_Writer.thy ===== *)
theory Wal_Writer
  imports Wal_Log "HOL-Library.Sublist"
begin

text \<open>
  The group-commit writer of the log (\<open>crates/engine/src/wal.rs\<close> and \<open>wal/shard.rs\<close>). Appenders
  reserve an offset range and push their encoded bytes into a staging shard; one syncer thread drains
  the shards in offset order, writes one coalesced batch and syncs the file. The atomic actions of the
  threads are separate operations here, so that they can interleave: \<open>reserve\<close> and \<open>push_staged\<close> are the
  two halves of an append (the \<open>stage_lock\<close> is held between them), \<open>drain\<close> and \<open>flush\<close> the two halves of
  a syncer round (the \<open>flush_lock\<close> is held between them).

  The file is the content the operating system shows (\<open>w_file\<close>) and the content known to be on disk
  (\<open>w_disk\<close>). What a write or a sync does is an input (\<open>flush_io\<close>): a failing write may have added any
  prefix of the batch. After a crash the file is some prefix of \<open>w_file\<close> that contains \<open>w_disk\<close>.
  Offsets are natural numbers: the code's 64-bit offsets do not wrap below 16 exabytes.
\<close>

section \<open>Staging shards\<close>

record segment =
  seg_start :: nat
  seg_data :: bytes

type_synonym shard = "segment list"

fun pop_at :: "nat \<Rightarrow> shard \<Rightarrow> (bytes \<times> shard) option" where
  "pop_at frontier [] = None"
| "pop_at frontier (s # q) = (if seg_start s = frontier then Some (seg_data s, q) else None)"

definition push_seg :: "nat \<Rightarrow> bytes \<Rightarrow> shard \<Rightarrow> shard" where
  "push_seg start data q = q @ [\<lparr>seg_start = start, seg_data = data\<rparr>]"

definition push_front :: "nat \<Rightarrow> bytes \<Rightarrow> shard \<Rightarrow> shard" where
  "push_front start data q = \<lparr>seg_start = start, seg_data = data\<rparr> # q"

text \<open>The pool with its shards, the sticky choice of each thread (\<open>SHARD_CURSOR\<close>, \<open>usize::MAX\<close> before
  the first pick) and the round-robin counter (\<open>NEXT_SHARD\<close>).\<close>

definition USIZE_MAX :: nat where "USIZE_MAX = 2 ^ 64 - 1"

record shard_pool =
  sp_shards :: "shard list"
  sp_cursor :: "nat \<Rightarrow> nat"
  sp_next :: nat

definition shard_pool_new :: "nat option \<Rightarrow> shard_pool" where
  "shard_pool_new parallelism =
     \<lparr>sp_shards = replicate (max 1 (min 32 (case parallelism of Some n \<Rightarrow> n | None \<Rightarrow> 4))) [],
      sp_cursor = (\<lambda>_. USIZE_MAX), sp_next = 0\<rparr>"

definition on_shard :: "nat \<Rightarrow> (shard \<Rightarrow> shard) \<Rightarrow> shard list \<Rightarrow> shard list" where
  "on_shard idx f qs = (let i = idx mod length qs in qs[i := f (qs ! i)])"

definition pick :: "nat \<Rightarrow> shard_pool \<Rightarrow> nat \<times> shard_pool" where
  "pick thread p =
     (let cur = sp_cursor p thread; n = length (sp_shards p) in
      if cur = USIZE_MAX \<or> cur \<ge> n then
        let s = sp_next p mod n in
        (s, p\<lparr>sp_cursor := (sp_cursor p)(thread := s), sp_next := (sp_next p + 1) mod 2 ^ 64\<rparr>)
      else (cur, p))"

definition clear_all :: "shard list \<Rightarrow> shard list" where
  "clear_all qs = map (\<lambda>_. []) qs"

section \<open>The log\<close>

text \<open>\<open>w_stage\<close> is the reservation whose bytes are not pushed yet, with the thread that holds the
  \<open>stage_lock\<close>; \<open>w_inflight\<close> the batch popped by the round that holds the \<open>flush_lock\<close>, with its new
  frontier. \<open>w_alive\<close> says that the syncer thread has not returned.\<close>

type_synonym batch = "(nat \<times> nat \<times> bytes) list"

record wal =
  w_file :: bytes
  w_disk :: bytes
  w_gen_file :: "bytes option"
  w_written :: nat
  w_file_written :: nat
  w_durable :: nat
  w_stop :: bool
  w_alive :: bool
  w_syncs :: nat
  w_synced_bytes :: nat
  w_sync_us :: nat
  w_generation :: u64
  w_pool :: shard_pool
  w_stage :: "(nat \<times> nat \<times> bytes) option"
  w_inflight :: "(batch \<times> nat) option"

definition read_generation :: "bytes option \<Rightarrow> u64" where
  "read_generation file =
     (case file of None \<Rightarrow> 0 | Some bytes \<Rightarrow> if length bytes \<noteq> 8 then 0 else u64_of_le bytes)"

text \<open>\<open>Wal::open\<close>: a missing or empty log gets its header; nothing else of an existing log is looked
  at.\<close>

definition wal_open :: "bytes option \<Rightarrow> bytes option \<Rightarrow> nat option \<Rightarrow> wal" where
  "wal_open file gen_file parallelism =
     (let content = (case file of None \<Rightarrow> [] | Some b \<Rightarrow> b);
          content = (if content = [] then wal_header else content);
          len = length content in
      \<lparr>w_file = content, w_disk = content, w_gen_file = gen_file,
       w_written = len, w_file_written = len, w_durable = len, w_stop = False, w_alive = True,
       w_syncs = 0, w_synced_bytes = 0, w_sync_us = 0, w_generation = read_generation gen_file,
       w_pool = shard_pool_new parallelism, w_stage = None, w_inflight = None\<rparr>)"

section \<open>Appending\<close>

definition encode_all :: "wal_record list \<Rightarrow> bytes" where
  "encode_all recs = concat (map encode_record recs)"

text \<open>\<open>append_records\<close> up to the reservation: an empty batch reserves nothing; otherwise the
  \<open>stage_lock\<close> is taken and the range reserved. The lock is free only when nothing is staged.\<close>

definition reserve :: "nat \<Rightarrow> wal_record list \<Rightarrow> wal \<Rightarrow> (wal \<times> nat \<times> nat) option" where
  "reserve thread recs w =
     (let buf = encode_all recs; len = length buf; start = w_written w in
      if len = 0 then Some (w, start, start)
      else if w_stage w \<noteq> None then None
      else Some (w\<lparr>w_written := start + len, w_stage := Some (thread, start, buf)\<rparr>, start, start + len))"

text \<open>The second half: pick a shard, push, release the lock.\<close>

definition push_staged :: "wal \<Rightarrow> wal" where
  "push_staged w =
     (case w_stage w of
        None \<Rightarrow> w
      | Some (thread, start, buf) \<Rightarrow>
          let (idx, p) = pick thread (w_pool w) in
          w\<lparr>w_pool := p\<lparr>sp_shards := on_shard idx (push_seg start buf) (sp_shards p)\<rparr>, w_stage := None\<rparr>)"

definition append_records :: "nat \<Rightarrow> wal_record list \<Rightarrow> wal \<Rightarrow> (wal \<times> nat \<times> nat) option" where
  "append_records thread recs w =
     map_option (\<lambda>(w', start, fin). (push_staged w', start, fin)) (reserve thread recs w)"

text \<open>\<open>wait_durable\<close>: the answer a waiter gets in a state, \<open>None\<close> while it waits.\<close>

definition wait_durable :: "nat \<Rightarrow> wal \<Rightarrow> unit result option" where
  "wait_durable fin w =
     (if w_durable w \<ge> fin then Some (Inr ())
      else if w_stop w then Some (Inl (Io ''wal syncer stopped''))
      else None)"

section \<open>Draining\<close>

definition DRAIN_BATCH_CAP :: nat where "DRAIN_BATCH_CAP = 4 * 2 ^ 20"

text \<open>The \<open>for\<close> loop over the shards: the first one whose front segment starts at the frontier.\<close>

fun pop_scan :: "nat \<Rightarrow> nat \<Rightarrow> shard list \<Rightarrow> (nat \<times> bytes \<times> shard list) option" where
  "pop_scan frontier i [] = None"
| "pop_scan frontier i (q # qs) =
     (case pop_at frontier q of
        Some (data, q') \<Rightarrow> Some (i, data, q' # qs)
      | None \<Rightarrow> map_option (\<lambda>(j, data, qs'). (j, data, q # qs')) (pop_scan frontier (Suc i) qs))"

lemma pop_at_size: "pop_at f q = Some (d, q') \<Longrightarrow> length q = Suc (length q')"
  by (cases q) (auto split: if_splits)

lemma pop_scan_size:
  "pop_scan f i qs = Some (j, d, qs') \<Longrightarrow> sum_list (map length qs) = Suc (sum_list (map length qs'))"
  by (induction f i qs arbitrary: j d qs' rule: pop_scan.induct)
    (auto split: option.splits dest: pop_at_size)

text \<open>The \<open>while\<close> loop of \<open>drain_available\<close>; the flag of the result says that it stopped at a gap
  (the \<open>debug_assert\<close>).\<close>

function drain_loop ::
  "nat \<Rightarrow> nat \<Rightarrow> nat \<Rightarrow> nat \<Rightarrow> shard list \<Rightarrow> batch \<Rightarrow> shard list \<times> batch \<times> nat \<times> bool" where
  "drain_loop cap reserved frontier bytes qs batch =
     (if frontier < reserved \<and> bytes < cap then
        (case pop_scan frontier 0 qs of
           None \<Rightarrow> (qs, batch, frontier, True)
         | Some (idx, data, qs') \<Rightarrow>
             drain_loop cap reserved (frontier + length data) (bytes + length data) qs'
               (batch @ [(idx, frontier, data)]))
      else (qs, batch, frontier, False))"
  by pat_completeness auto
termination
  by (relation "measure (\<lambda>(_, _, _, _, qs, _). sum_list (map length qs))") (auto dest: pop_scan_size)

declare drain_loop.simps [simp del]

definition drain_available :: "nat \<Rightarrow> wal \<Rightarrow> wal \<times> batch \<times> nat \<times> bool" where
  "drain_available cap w =
     (let (qs, batch, frontier, gap) = drain_loop cap (w_written w) (w_durable w) 0 (sp_shards (w_pool w)) [] in
      (w\<lparr>w_pool := (w_pool w)\<lparr>sp_shards := qs\<rparr>\<rparr>, batch, frontier, gap))"

section \<open>Writing and syncing\<close>

datatype flush_io = FlushOk nat | WriteFails nat | SyncFails

fun requeue :: "batch \<Rightarrow> shard list \<Rightarrow> shard list" where
  "requeue [] qs = qs"
| "requeue ((idx, start, data) # batch) qs = on_shard idx (push_front start data) (requeue batch qs)"

definition coalesce :: "batch \<Rightarrow> bytes" where
  "coalesce batch = concat (map (\<lambda>(_, _, data). data) batch)"

definition write_and_sync :: "flush_io \<Rightarrow> batch \<Rightarrow> nat \<Rightarrow> wal \<Rightarrow> wal \<times> unit result" where
  "write_and_sync io batch frontier w =
     (case io of
        WriteFails n \<Rightarrow>
          (w\<lparr>w_file := w_file w @ take n (coalesce batch),
             w_pool := (w_pool w)\<lparr>sp_shards := requeue batch (sp_shards (w_pool w))\<rparr>\<rparr>,
           Inl (Io ''wal file write failed''))
      | SyncFails \<Rightarrow>
          (w\<lparr>w_file := w_file w @ coalesce batch, w_file_written := frontier\<rparr>, Inl (Io ''wal sync failed''))
      | FlushOk us \<Rightarrow>
          (w\<lparr>w_file := w_file w @ coalesce batch, w_file_written := frontier,
             w_disk := w_file w @ coalesce batch, w_sync_us := w_sync_us w + us,
             w_durable := max (w_durable w) frontier, w_syncs := w_syncs w + 1,
             w_synced_bytes := w_synced_bytes w + frontier\<rparr>, Inr ()))"

section \<open>The syncer thread\<close>

text \<open>One pass of \<open>syncer_loop\<close> up to the drain: it waits while there is nothing to do, returns when
  told to stop, and otherwise takes the \<open>flush_lock\<close> and drains. An empty batch ends the round.\<close>

definition drain :: "wal \<Rightarrow> wal" where
  "drain w =
     (if \<not> w_alive w \<or> w_inflight w \<noteq> None then w
      else if w_written w = w_durable w then (if w_stop w then w\<lparr>w_alive := False\<rparr> else w)
      else if w_stop w then w\<lparr>w_alive := False\<rparr>
      else
        let (w', batch, frontier, _) = drain_available DRAIN_BATCH_CAP w in
        if batch = [] then w' else w'\<lparr>w_inflight := Some (batch, frontier)\<rparr>)"

text \<open>The rest of the round: write, sync, publish. On an error the thread returns.\<close>

definition flush :: "flush_io \<Rightarrow> wal \<Rightarrow> wal" where
  "flush io w =
     (case w_inflight w of
        None \<Rightarrow> w
      | Some (batch, frontier) \<Rightarrow>
          (case write_and_sync io batch frontier (w\<lparr>w_inflight := None\<rparr>) of
             (w', Inr _) \<Rightarrow> w'
           | (w', Inl _) \<Rightarrow> w'\<lparr>w_alive := False\<rparr>))"

definition wal_drop :: "wal \<Rightarrow> wal" where
  "wal_drop w = w\<lparr>w_stop := True\<rparr>"

text \<open>The steps the threads can take, each labelled with the records it reserves space for.\<close>

inductive wal_step :: "wal \<Rightarrow> wal_record list \<Rightarrow> wal \<Rightarrow> bool" where
  Reserve: "reserve thread recs w = Some (w', start, fin) \<Longrightarrow> wal_step w recs w'"
| Push: "wal_step w [] (push_staged w)"
| Drain: "wal_step w [] (drain w)"
| Flush: "wal_step w [] (flush io w)"
| Drop: "wal_step w [] (wal_drop w)"

inductive wal_run :: "wal \<Rightarrow> wal_record list \<Rightarrow> wal \<Rightarrow> bool" where
  Done: "wal_run w [] w"
| Step: "wal_run w recs w' \<Longrightarrow> wal_step w' recs' w'' \<Longrightarrow> wal_run w (recs @ recs') w''"

section \<open>Checkpoint truncation and reading back\<close>

text \<open>\<open>Wal::reset\<close>, with the outcome of each of its file operations: writing the generation sidecar,
  flushing what is staged, and truncating and rewriting the header (\<open>Some n\<close>: it failed after \<open>n\<close>
  bytes).\<close>

definition wal_reset :: "bool \<Rightarrow> flush_io \<Rightarrow> nat option \<Rightarrow> wal \<Rightarrow> wal \<times> unit result" where
  "wal_reset gen_ok io trunc w =
     (let g = w_generation w + 1; w = w\<lparr>w_generation := g\<rparr> in
      if \<not> gen_ok then (w, Inl (Io ''generation sidecar''))
      else
        let w = w\<lparr>w_gen_file := Some (u64_le g)\<rparr>;
            (w1, batch, frontier, _) = drain_available (2 ^ 64 - 1) w;
            (w2, r) = (if batch = [] then (w1, Inr ()) else write_and_sync io batch frontier w1) in
        case r of
          Inl e \<Rightarrow> (w2, Inl e)
        | Inr _ \<Rightarrow>
            (case trunc of
               Some n \<Rightarrow> (w2\<lparr>w_file := take n wal_header, w_disk := []\<rparr>, Inl (Io ''truncate''))
             | None \<Rightarrow>
                 (w2\<lparr>w_file := wal_header, w_disk := wal_header, w_written := 8, w_file_written := 8,
                     w_durable := 8,
                     w_pool := (w_pool w2)\<lparr>sp_shards := clear_all (sp_shards (w_pool w2))\<rparr>\<rparr>, Inr ())))"

definition read_range :: "nat \<Rightarrow> nat \<Rightarrow> wal \<Rightarrow> (bytes \<times> nat) result" where
  "read_range from max_len w =
     (if from < 8 then Inl (Corrupted ''wal range below header'')
      else if from > w_written w then Inl (Corrupted ''wal range beyond written'')
      else
        let avail = min (w_file_written w - from) max_len;
            buf = slice (w_file w) from avail in
        Inr (buf, from + length buf))"

end
