(* ===== verification/Wal_Durability.thy ===== *)
theory Wal_Durability
  imports Wal_Writer
begin

text \<open>
  Why the group-commit writer is correct: the staging shards always hold the reserved bytes in offset
  order, a drain takes a prefix of them, a failed write puts them back where they were, and what
  \<open>wait_durable\<close> has acknowledged is in every file a crash can leave.
\<close>

section \<open>What the shards hold\<close>

text \<open>The staged segments in reservation order, each with its shard: consecutive from an offset, none
  empty, and every shard queue is the subsequence of its own.\<close>

type_synonym staged = "(nat \<times> segment) list"

fun chained :: "nat \<Rightarrow> staged \<Rightarrow> bool" where
  "chained a [] \<longleftrightarrow> True"
| "chained a ((_, s) # m) \<longleftrightarrow> seg_start s = a \<and> seg_data s \<noteq> [] \<and> chained (a + length (seg_data s)) m"

definition seg_bytes :: "staged \<Rightarrow> bytes" where
  "seg_bytes m = concat (map (\<lambda>(_, s). seg_data s) m)"

definition own :: "staged \<Rightarrow> nat \<Rightarrow> shard" where
  "own m i = map snd (filter (\<lambda>(j, _). j = i) m)"

definition queued :: "staged \<Rightarrow> shard list \<Rightarrow> bool" where
  "queued m qs \<longleftrightarrow> (\<forall>(i, _) \<in> set m. i < length qs) \<and> qs = map (own m) [0..<length qs]"

lemma seg_bytes_simps [simp]:
  "seg_bytes [] = []" "seg_bytes (x # m) = seg_data (snd x) @ seg_bytes m"
  "seg_bytes (m @ m') = seg_bytes m @ seg_bytes m'"
  by (auto simp: seg_bytes_def split: prod.splits)

lemma own_simps [simp]:
  "own [] i = []" "own ((j, s) # m) i = (if j = i then s # own m i else own m i)"
  "own (m @ m') i = own m i @ own m' i"
  by (auto simp: own_def)

lemma chained_append [simp]:
  "chained a (m @ m') \<longleftrightarrow> chained a m \<and> chained (a + length (seg_bytes m)) m'"
  by (induction a m rule: chained.induct) (auto simp: add.assoc)

lemma chained_start: "chained a m \<Longrightarrow> (i, s) \<in> set m \<Longrightarrow> a \<le> seg_start s"
  by (induction a m rule: chained.induct) auto

lemma chained_later:
  assumes "chained a ((i, s) # m)" "(j, t) \<in> set m" shows "seg_start t \<noteq> a"
  using assms chained_start [of "a + length (seg_data s)" m j t] by (cases "seg_data s") auto

lemma queued_nth: "queued m qs \<Longrightarrow> i < length qs \<Longrightarrow> qs ! i = own m i"
  unfolding queued_def by (metis add_0 diff_zero nth_map_upt)

lemma queuedI:
  "length qs = n \<Longrightarrow> (\<And>i. i < n \<Longrightarrow> qs ! i = own m i) \<Longrightarrow> (\<And>i s. (i, s) \<in> set m \<Longrightarrow> i < n) \<Longrightarrow> queued m qs"
  unfolding queued_def by (auto intro!: nth_equalityI)

section \<open>Popping and pushing back\<close>

lemma pop_scan_shift:
  "pop_scan f i qs = map_option (\<lambda>(j, d, qs'). (i + j, d, qs')) (pop_scan f 0 qs)"
proof (induction qs arbitrary: i)
  case (Cons q qs)
  show ?case
  proof (cases "pop_at f q")
    case None
    then show ?thesis
      using Cons.IH [of "Suc i"] Cons.IH [of "Suc 0"] by (cases "pop_scan f 0 qs") auto
  qed auto
qed simp

lemma pop_scan_nth:
  "pop_scan f 0 qs = Some (j, d, qs') \<Longrightarrow>
   j < length qs \<and> (\<exists>q. qs ! j = \<lparr>seg_start = f, seg_data = d\<rparr> # q \<and> qs' = qs[j := q])"
proof (induction qs arbitrary: j d qs')
  case (Cons q qs)
  show ?case
  proof (cases "pop_at f q")
    case None
    with Cons.prems obtain j' qs'' where p: "pop_scan f 0 qs = Some (j', d, qs'')" "j = Suc j'" "qs' = q # qs''"
      by (auto simp: pop_scan_shift [of f "Suc 0"])
    from Cons.IH [OF p(1)] p(2,3) show ?thesis by auto
  next
    case (Some x)
    then show ?thesis using Cons.prems
      by (cases q; cases "hd q") (auto split: if_splits)
  qed
qed simp

lemma pop_scan_front:
  assumes "k < length qs" "qs ! k = s # q" "seg_start s = f"
    and "\<And>i s' q'. i < length qs \<Longrightarrow> i \<noteq> k \<Longrightarrow> qs ! i = s' # q' \<Longrightarrow> seg_start s' \<noteq> f"
  shows "pop_scan f 0 qs = Some (k, seg_data s, qs[k := q])"
  using assms
proof (induction qs arbitrary: k)
  case (Cons q0 qs)
  show ?case
  proof (cases k)
    case 0
    then show ?thesis using Cons.prems by simp
  next
    case (Suc k')
    have "pop_at f q0 = None"
      using Cons.prems(4) [of 0] Suc by (cases q0) auto
    moreover have "pop_scan f 0 qs = Some (k', seg_data s, qs[k' := q])"
      using Cons.prems Suc by (intro Cons.IH) (auto, metis Suc_less_eq Suc_inject nth_Cons_Suc)
    ultimately show ?thesis using Suc by (simp add: pop_scan_shift [of f "Suc 0"])
  qed
qed simp

lemma pop_scan_queued:
  assumes q: "queued ((k, s) # m) qs" and c: "chained f ((k, s) # m)"
  obtains qs' where "pop_scan f 0 qs = Some (k, seg_data s, qs')" "queued m qs'" "length qs' = length qs"
proof
  have k: "k < length qs" using q by (auto simp: queued_def)
  have other: "seg_start s' \<noteq> f" if i: "i < length qs" "i \<noteq> k" and n: "qs ! i = s' # q'" for i s' q'
  proof -
    have "own m i = s' # q'" using queued_nth [OF q i(1)] i(2) n by auto
    then have "s' \<in> set (own m i)" by simp
    then show ?thesis using chained_later [OF c, of i s'] by (auto simp: own_def)
  qed
  show "pop_scan f 0 qs = Some (k, seg_data s, qs[k := own m k])"
    using k queued_nth [OF q k] c other by (intro pop_scan_front) auto
  show "queued m (qs[k := own m k])"
    using q queued_nth [OF q] k by (intro queuedI [OF refl]) (auto simp: nth_list_update queued_def)
qed simp

lemma on_shard_id: "j < length qs \<Longrightarrow> on_shard j f qs = qs[j := f (qs ! j)]"
  by (simp add: on_shard_def)

text \<open>Putting a drained batch back restores the queues, whatever they held.\<close>

lemma drain_loop_requeue:
  "drain_loop cap reserved f bytes qs batch = (qs', batch', f', gap) \<Longrightarrow>
   \<exists>popped. batch' = batch @ popped \<and> requeue popped qs' = qs \<and> length qs' = length qs \<and>
     f' = f + length (coalesce popped)"
proof (induction cap reserved f bytes qs batch arbitrary: qs' batch' f' gap rule: drain_loop.induct)
  case (1 cap reserved f bytes qs batch)
  show ?case
  proof (cases "f < reserved \<and> bytes < cap \<and> pop_scan f 0 qs \<noteq> None")
    case False
    then show ?thesis using "1.prems"
      by (subst (asm) drain_loop.simps) (auto simp: coalesce_def split: if_splits option.splits)
  next
    case True
    then obtain j d qs1 where p: "pop_scan f 0 qs = Some (j, d, qs1)" by auto
    from pop_scan_nth [OF p] obtain q where j: "j < length qs"
      "qs ! j = \<lparr>seg_start = f, seg_data = d\<rparr> # q" "qs1 = qs[j := q]" by auto
    have "drain_loop cap reserved (f + length d) (bytes + length d) qs1 (batch @ [(j, f, d)]) = (qs', batch', f', gap)"
      using "1.prems" True p by (subst (asm) drain_loop.simps) simp
    from "1.IH" [OF _ p refl refl this] True obtain popped where pp: "batch' = batch @ (j, f, d) # popped"
      "requeue popped qs' = qs1" "length qs' = length qs1" "f' = f + length d + length (coalesce popped)"
      by (auto simp: coalesce_def)
    moreover have "requeue ((j, f, d) # popped) qs' = qs"
      using pp(2) j list_update_id [of qs j] by (simp add: on_shard_id push_front_def)
    ultimately show ?thesis using j by (intro exI [of _ "(j, f, d) # popped"]) (auto simp: coalesce_def)
  qed
qed

text \<open>A drain of consecutive staged segments takes a prefix of them, in order, and stops only at the
  cap, at the frontier it was given, or because the next reservation is not pushed yet.\<close>

definition as_batch :: "staged \<Rightarrow> batch" where
  "as_batch m = map (\<lambda>(i, s). (i, seg_start s, seg_data s)) m"

lemma as_batch_simps [simp]:
  "as_batch [] = []" "as_batch ((i, s) # m) = (i, seg_start s, seg_data s) # as_batch m"
  by (simp_all add: as_batch_def)

lemma coalesce_as_batch [simp]: "coalesce (as_batch m) = seg_bytes m"
  by (induction m) (auto simp: coalesce_def)

text \<open>How far a drain gets: \<open>k\<close> segments, with or without meeting a gap.\<close>

definition took :: "nat \<Rightarrow> nat \<Rightarrow> nat \<Rightarrow> nat \<Rightarrow> staged \<Rightarrow> nat \<Rightarrow> bool \<Rightarrow> bool" where
  "took cap reserved f bytes m k gap \<longleftrightarrow> k \<le> length m \<and>
     (gap \<longleftrightarrow> k = length m \<and> f + length (seg_bytes m) < reserved \<and> bytes + length (seg_bytes m) < cap) \<and>
     (gap \<or> reserved \<le> f + length (seg_bytes (take k m)) \<or> cap \<le> bytes + length (seg_bytes (take k m)))"

lemma took_Suc:
  "took cap reserved (f + length (seg_data s)) (bytes + length (seg_data s)) m k gap \<Longrightarrow>
   took cap reserved f bytes ((i, s) # m) (Suc k) gap"
  unfolding took_def by (auto simp: add.assoc)

lemma drain_loop_prefix:
  assumes "queued m qs" "chained f m"
  shows "\<exists>k qs' gap. drain_loop cap reserved f bytes qs batch =
       (qs', batch @ as_batch (take k m), f + length (seg_bytes (take k m)), gap) \<and>
     queued (drop k m) qs' \<and> length qs' = length qs \<and> took cap reserved f bytes m k gap"
  using assms
proof (induction m arbitrary: f bytes qs batch)
  case Nil
  have "pop_scan f 0 qs = None"
  proof (rule ccontr)
    assume "pop_scan f 0 qs \<noteq> None"
    then obtain j d qs' where "pop_scan f 0 qs = Some (j, d, qs')" by auto
    from pop_scan_nth [OF this] queued_nth [OF Nil(1)] show False by auto
  qed
  then show ?case using Nil by (subst drain_loop.simps) (auto simp: took_def)
next
  case (Cons x m)
  obtain i s where x: "x = (i, s)" by force
  show ?case
  proof (cases "f < reserved \<and> bytes < cap")
    case False
    then have "took cap reserved f bytes (x # m) 0 False" by (auto simp: took_def)
    then show ?thesis using False Cons.prems
      by (subst drain_loop.simps) (intro exI [of _ 0] exI [of _ qs] exI [of _ False], auto)
  next
    case True
    from Cons.prems obtain qs1 where p: "pop_scan f 0 qs = Some (i, seg_data s, qs1)" "queued m qs1"
      "length qs1 = length qs" unfolding x by (rule pop_scan_queued)
    have c: "chained (f + length (seg_data s)) m" "seg_start s = f" using Cons.prems x by auto
    let ?b = "batch @ [(i, f, seg_data s)]"
    from Cons.IH [OF p(2) c(1), of "bytes + length (seg_data s)" ?b]
    obtain k qs' gap where k: "drain_loop cap reserved (f + length (seg_data s)) (bytes + length (seg_data s)) qs1 ?b =
        (qs', ?b @ as_batch (take k m), f + length (seg_data s) + length (seg_bytes (take k m)), gap)"
      "queued (drop k m) qs'" "length qs' = length qs1"
      "took cap reserved (f + length (seg_data s)) (bytes + length (seg_data s)) m k gap"
      by (elim exE conjE)
    have "drain_loop cap reserved f bytes qs batch =
        (qs', batch @ as_batch (take (Suc k) (x # m)), f + length (seg_bytes (take (Suc k) (x # m))), gap)"
      using True p(1) k(1) x c(2) by (subst drain_loop.simps) (simp add: add.assoc)
    with k p(3) show ?thesis unfolding x
      by (intro exI [of _ "Suc k"] exI [of _ qs'] exI [of _ gap]) (simp add: took_Suc)
  qed
qed

section \<open>The invariant\<close>

text \<open>\<open>log\<close> is every byte that was ever reserved, in reservation order. Whatever the syncer does, the
  file and the disk hold prefixes of it that contain the acknowledged part. While the syncer lives,
  both end exactly at \<open>durable\<close>, and what follows is in flight, staged, or reserved and about to be
  pushed.\<close>

definition log_ok :: "bytes \<Rightarrow> wal \<Rightarrow> bool" where
  "log_ok log w \<longleftrightarrow> w_written w = length log \<and>
     prefix (take (w_durable w) log) (w_disk w) \<and> prefix (w_disk w) (w_file w) \<and> prefix (w_file w) log \<and>
     w_durable w \<le> length log \<and> (\<not> w_alive w \<longrightarrow> w_inflight w = None)"

definition reserved_bytes :: "wal \<Rightarrow> bytes" where
  "reserved_bytes w = (case w_stage w of None \<Rightarrow> [] | Some (_, _, buf) \<Rightarrow> buf)"

definition stage_ok :: "wal \<Rightarrow> bool" where
  "stage_ok w \<longleftrightarrow> (\<forall>t start buf. w_stage w = Some (t, start, buf) \<longrightarrow>
     buf \<noteq> [] \<and> w_written w = start + length buf)"

definition inflight_ok :: "staged \<Rightarrow> wal \<Rightarrow> bool" where
  "inflight_ok b w \<longleftrightarrow> (case w_inflight w of
     None \<Rightarrow> b = []
   | Some (batch, frontier) \<Rightarrow> batch = as_batch b \<and> frontier = w_durable w + length (seg_bytes b))"

abbreviation shards :: "wal \<Rightarrow> shard list" where "shards w \<equiv> sp_shards (w_pool w)"

definition live_ok :: "bytes \<Rightarrow> staged \<Rightarrow> staged \<Rightarrow> wal \<Rightarrow> bool" where
  "live_ok log b m w \<longleftrightarrow> inflight_ok b w \<and> chained (w_durable w) (b @ m) \<and> queued m (shards w) \<and>
     log = w_file w @ seg_bytes b @ seg_bytes m @ reserved_bytes w \<and>
     length (w_file w) = w_durable w \<and> w_file_written w = w_durable w \<and> w_disk w = w_file w"

definition wal_inv :: "bytes \<Rightarrow> wal \<Rightarrow> bool" where
  "wal_inv log w \<longleftrightarrow> log_ok log w \<and> stage_ok w \<and> shards w \<noteq> [] \<and> (w_alive w \<longrightarrow> (\<exists>b m. live_ok log b m w))"

lemma wal_invE:
  assumes "wal_inv log w" "w_alive w"
  obtains b m where "live_ok log b m w"
  using assms by (auto simp: wal_inv_def)

lemma live_log_ok:
  assumes "live_ok log b m w" "w_written w = length log" "w_alive w"
  shows "log_ok log w"
proof -
  have "take (w_durable w) log = w_file w" using assms by (auto simp: live_ok_def)
  then show ?thesis using assms by (auto simp: log_ok_def live_ok_def prefix_def)
qed

lemma queued_empty: "queued [] (replicate n [])"
  by (auto intro: queuedI)

lemma wal_open_inv:
  assumes "content = (case file of Some b \<Rightarrow> if b = [] then wal_header else b | None \<Rightarrow> wal_header)"
  shows "wal_inv content (wal_open file g par)"
proof -
  have f: "w_file (wal_open file g par) = content"
    using assms by (auto simp: wal_open_def Let_def split: option.splits)
  have "live_ok content [] [] (wal_open file g par)"
    using queued_empty assms unfolding live_ok_def
    by (auto simp: f wal_open_def Let_def inflight_ok_def shard_pool_new_def reserved_bytes_def split: option.splits)
  moreover have "w_written (wal_open file g par) = length content"
    using assms by (auto simp: wal_open_def Let_def split: option.splits)
  moreover have "w_alive (wal_open file g par)" "stage_ok (wal_open file g par)" "shards (wal_open file g par) \<noteq> []"
    by (simp_all add: wal_open_def Let_def stage_ok_def shard_pool_new_def)
  ultimately show ?thesis unfolding wal_inv_def by (blast intro: live_log_ok)
qed

section \<open>Every step keeps it\<close>

lemma reserve_inv:
  assumes inv: "wal_inv log w" and r: "reserve t recs w = Some (w', start, fin)"
  shows "wal_inv (log @ encode_all recs) w' \<and> start = length log \<and> fin = length log + length (encode_all recs) \<and>
    w_durable w' = w_durable w"
proof (cases "encode_all recs = []")
  case True
  then show ?thesis using r inv by (auto simp: reserve_def Let_def wal_inv_def log_ok_def)
next
  case False
  let ?buf = "encode_all recs"
  have st: "w_stage w = None" and w': "w' = w\<lparr>w_written := w_written w + length ?buf, w_stage := Some (t, w_written w, ?buf)\<rparr>"
    and off: "start = w_written w" "fin = w_written w + length ?buf"
    using r False by (cases "w_stage w"; simp add: reserve_def Let_def)+
  have len: "w_written w = length log" using inv by (simp add: wal_inv_def log_ok_def)
  have "live_ok (log @ ?buf) b m w'" if "live_ok log b m w" for b m
    using that st unfolding w' live_ok_def inflight_ok_def reserved_bytes_def by (auto split: option.splits)
  moreover have "log_ok (log @ ?buf) w'"
    using inv len unfolding w' wal_inv_def log_ok_def by (auto simp: prefix_append)
  ultimately show ?thesis using inv False len off unfolding wal_inv_def w' by (auto simp: stage_ok_def)
qed

lemma pick_shard: "sp_shards p \<noteq> [] \<Longrightarrow> pick t p = (i, p') \<Longrightarrow> i < length (sp_shards p) \<and> sp_shards p' = sp_shards p"
  by (auto simp: pick_def Let_def split: if_splits)

lemma queued_push:
  assumes "queued m qs" "i < length qs"
  shows "queued (m @ [(i, \<lparr>seg_start = st, seg_data = d\<rparr>)]) (on_shard i (push_seg st d) qs)"
  using assms queued_nth [OF assms(1)]
  by (intro queuedI [OF refl]) (auto simp: on_shard_id push_seg_def nth_list_update queued_def)

lemma push_inv:
  assumes inv: "wal_inv log w"
  shows "wal_inv log (push_staged w)"
proof (cases "w_stage w")
  case None
  then show ?thesis using inv by (simp add: push_staged_def)
next
  case (Some x)
  obtain t start buf where x: "x = (t, start, buf)" using prod_cases3 by blast
  obtain i p where p: "pick t (w_pool w) = (i, p)" by force
  have ne: "shards w \<noteq> []" using inv by (simp add: wal_inv_def)
  note ps = pick_shard [OF ne p]
  let ?w = "push_staged w"
  have w: "?w = w\<lparr>w_pool := p\<lparr>sp_shards := on_shard i (push_seg start buf) (shards w)\<rparr>, w_stage := None\<rparr>"
    using Some x p ps by (simp add: push_staged_def)
  have buf: "buf \<noteq> []" "w_written w = start + length buf" using inv Some x by (auto simp: wal_inv_def stage_ok_def)
  have "live_ok log b (m @ [(i, \<lparr>seg_start = start, seg_data = buf\<rparr>)]) ?w" if l: "live_ok log b m w" for b m
  proof -
    have "length log = start + length buf" using inv buf by (simp add: wal_inv_def log_ok_def)
    moreover have "log = w_file w @ seg_bytes b @ seg_bytes m @ buf"
      using l Some x by (auto simp: live_ok_def reserved_bytes_def)
    ultimately have "start = w_durable w + length (seg_bytes b) + length (seg_bytes m)"
      using l by (auto simp: live_ok_def)
    then show ?thesis using l buf ps Some x queued_push [of m "shards w" i start buf]
      unfolding w live_ok_def by (auto simp: inflight_ok_def reserved_bytes_def add.assoc split: option.splits)
  qed
  then show ?thesis using inv ps ne unfolding wal_inv_def
    by (auto simp: w log_ok_def stage_ok_def on_shard_def Let_def)
qed

lemma drain_available_live:
  assumes "live_ok log [] m w"
  shows "\<exists>k qs gap. drain_available cap w = (w\<lparr>w_pool := (w_pool w)\<lparr>sp_shards := qs\<rparr>\<rparr>, as_batch (take k m),
       w_durable w + length (seg_bytes (take k m)), gap) \<and>
     queued (drop k m) qs \<and> length qs = length (shards w) \<and> took cap (w_written w) (w_durable w) 0 m k gap"
proof -
  have "queued m (shards w)" "chained (w_durable w) m" using assms by (auto simp: live_ok_def)
  from drain_loop_prefix [OF this, of cap "w_written w" 0 "[]"] show ?thesis
    unfolding drain_available_def by (elim exE conjE) auto
qed

lemma as_batch_empty [simp]: "as_batch m = [] \<longleftrightarrow> m = []"
  by (cases m) (auto simp: as_batch_def)

lemma drain_live:
  assumes l: "live_ok log [] m w" and q: "queued (drop k m) qs" and k: "k \<le> length m"
  shows "live_ok log (take k m) (drop k m) (w\<lparr>w_pool := (w_pool w)\<lparr>sp_shards := qs\<rparr>,
      w_inflight := (if take k m = [] then None else Some (as_batch (take k m), w_durable w + length (seg_bytes (take k m))))\<rparr>)"
proof -
  have "seg_bytes m = seg_bytes (take k m) @ seg_bytes (drop k m)"
    using seg_bytes_simps(3) [of "take k m" "drop k m"] by simp
  then show ?thesis using l q unfolding live_ok_def by (auto simp: inflight_ok_def reserved_bytes_def)
qed

lemma drain_inv:
  assumes inv: "wal_inv log w"
  shows "wal_inv log (drain w)"
proof (cases "w_alive w \<and> w_inflight w = None \<and> w_written w \<noteq> w_durable w \<and> \<not> w_stop w")
  case False
  then show ?thesis using inv
    by (cases "w_inflight w") (auto simp: drain_def wal_inv_def log_ok_def stage_ok_def)
next
  case True
  then obtain b m where l: "live_ok log b m w" using inv by (auto elim: wal_invE)
  then have b: "b = []" using True by (auto simp: live_ok_def inflight_ok_def)
  from drain_available_live [OF l [unfolded b], of DRAIN_BATCH_CAP] obtain k qs gap where
    d: "drain_available DRAIN_BATCH_CAP w = (w\<lparr>w_pool := (w_pool w)\<lparr>sp_shards := qs\<rparr>\<rparr>, as_batch (take k m),
       w_durable w + length (seg_bytes (take k m)), gap)" "queued (drop k m) qs" "length qs = length (shards w)"
    "k \<le> length m" by (auto simp: took_def)
  have eq: "drain w = w\<lparr>w_pool := (w_pool w)\<lparr>sp_shards := qs\<rparr>,
      w_inflight := (if take k m = [] then None else Some (as_batch (take k m), w_durable w + length (seg_bytes (take k m))))\<rparr>"
    using True d(1) by (simp add: drain_def)
  have "live_ok log (take k m) (drop k m) (drain w)" unfolding eq by (rule drain_live [OF l [unfolded b] d(2,4)])
  moreover have "log_ok log (drain w)" "stage_ok (drain w)" "shards (drain w) \<noteq> []"
    using inv True d(3) unfolding wal_inv_def eq by (auto simp: log_ok_def stage_ok_def)
  ultimately show ?thesis unfolding wal_inv_def by blast
qed


lemma flush_inv:
  assumes inv: "wal_inv log w"
  shows "wal_inv log (flush io w)"
proof (cases "w_inflight w")
  case None
  then show ?thesis using inv by (simp add: flush_def)
next
  case (Some x)
  obtain batch fr where x: "x = (batch, fr)" by force
  have alive: "w_alive w" using inv Some by (auto simp: wal_inv_def log_ok_def)
  with inv obtain b m where l: "live_ok log b m w" by (auto elim: wal_invE)
  have b: "batch = as_batch b" "fr = w_durable w + length (seg_bytes b)"
    using l Some x by (auto simp: live_ok_def inflight_ok_def)
  have log: "log = w_file w @ seg_bytes b @ seg_bytes m @ reserved_bytes w"
    and dur: "take (w_durable w) log = w_file w" "w_disk w = w_file w" using l by (auto simp: live_ok_def)
  have len: "w_written w = length log" "stage_ok w" "shards w \<noteq> []"
    using inv by (auto simp: wal_inv_def log_ok_def)
  show ?thesis
  proof (cases io)
    case (FlushOk us)
    have "live_ok log [] m (flush io w)"
      using l Some x b FlushOk unfolding live_ok_def
      by (auto simp: flush_def write_and_sync_def inflight_ok_def reserved_bytes_def)
    moreover have "w_written (flush io w) = length log" "stage_ok (flush io w)" "shards (flush io w) \<noteq> []"
      "w_alive (flush io w)"
      using len Some x FlushOk alive by (simp_all add: flush_def write_and_sync_def stage_ok_def)
    ultimately show ?thesis unfolding wal_inv_def by (blast intro: live_log_ok)
  next
    case (WriteFails n)
    have "prefix (w_file w @ take n (seg_bytes b)) log"
      unfolding log by (simp add: take_is_prefix prefix_order.trans [OF take_is_prefix])
    moreover have "requeue (as_batch b) (shards w) \<noteq> []" using len(3)
      by (induction b) (auto simp: on_shard_def Let_def)
    ultimately show ?thesis using len Some x b dur WriteFails inv unfolding wal_inv_def
      by (simp add: flush_def write_and_sync_def stage_ok_def log_ok_def)
  next
    case SyncFails
    have "prefix (w_file w @ seg_bytes b) log" unfolding log by simp
    then show ?thesis using len Some x b dur SyncFails inv unfolding wal_inv_def
      by (simp add: flush_def write_and_sync_def stage_ok_def log_ok_def)
  qed
qed

lemma drop_inv: "wal_inv log w \<Longrightarrow> wal_inv log (wal_drop w)"
  by (auto simp: wal_inv_def wal_drop_def log_ok_def stage_ok_def live_ok_def inflight_ok_def reserved_bytes_def
      cong: option.case_cong)

lemmas wal_invs = push_inv drain_inv flush_inv drop_inv

lemma encode_all_simps [simp]:
  "encode_all [] = []" "encode_all (r # rs) = encode_record r @ encode_all rs"
  "encode_all (rs @ rs') = encode_all rs @ encode_all rs'"
  by (simp_all add: encode_all_def)

lemma wal_step_inv: "wal_step w recs w' \<Longrightarrow> wal_inv log w \<Longrightarrow> wal_inv (log @ encode_all recs) w'"
  by (induction rule: wal_step.induct) (auto simp: wal_invs dest: reserve_inv)

lemma wal_run_inv: "wal_run w recs w' \<Longrightarrow> wal_inv log w \<Longrightarrow> wal_inv (log @ encode_all recs) w'"
proof (induction rule: wal_run.induct)
  case (Step w recs w' recs' w'')
  from wal_step_inv [OF Step.hyps(2) Step.IH [OF Step.prems]] show ?case by simp
qed simp

section \<open>What a crash leaves\<close>

definition survives :: "wal \<Rightarrow> bytes \<Rightarrow> bool" where
  "survives w f \<longleftrightarrow> prefix (w_disk w) f \<and> prefix f (w_file w)"

lemma torn_Nil: "torn []"
  unfolding torn_def by (intro exI [of _ "Commit 0 None"] exI [of _ 0]) (simp add: frame_ok_def encode_record_frame length_frame)

lemma prefix_of_log:
  "list_all frame_ok recs \<Longrightarrow> prefix p (encode_all recs) \<Longrightarrow>
   \<exists>k t. k \<le> length recs \<and> p = encode_all (take k recs) @ t \<and> torn t \<and>
     (\<forall>j \<le> length recs. length (encode_all (take j recs)) \<le> length p \<longrightarrow> j \<le> k)"
proof (induction recs arbitrary: p)
  case Nil
  then show ?case using torn_Nil by auto
next
  case (Cons r rs)
  show ?case
  proof (cases "length (encode_record r) \<le> length p")
    case True
    then have "prefix (encode_record r) p"
      using prefix_length_prefix [of "encode_record r" "encode_all (r # rs)" p] Cons.prems(2) by simp
    then obtain q where q: "p = encode_record r @ q" "prefix q (encode_all rs)"
      using Cons.prems(2) by (auto simp: prefix_def)
    from Cons.IH [OF _ q(2)] Cons.prems(1) obtain k t where k: "k \<le> length rs" "q = encode_all (take k rs) @ t" "torn t"
      "\<forall>j \<le> length rs. length (encode_all (take j rs)) \<le> length q \<longrightarrow> j \<le> k" by auto
    have "j \<le> Suc k" if "j \<le> length (r # rs)" "length (encode_all (take j (r # rs))) \<le> length p" for j
      using that k(4) q(1) by (cases j) auto
    then show ?thesis using k q(1) by (intro exI [of _ "Suc k"] exI [of _ t]) auto
  next
    case False
    have "p = take (length p) (encode_record r)"
      using Cons.prems(2) False by (auto simp: prefix_def append_eq_append_conv_if)
    then have "torn p" using False Cons.prems(1) unfolding torn_def
      by (intro exI [of _ r] exI [of _ "length p"]) simp
    moreover have "j = 0" if "length (encode_all (take j (r # rs))) \<le> length p" for j
      using that False by (cases j) auto
    ultimately show ?thesis by (intro exI [of _ 0] exI [of _ p]) auto
  qed
qed


lemma read_survivor:
  assumes ok: "list_all frame_ok recs" and f: "prefix f (wal_header @ encode_all recs)"
    and len: "length (wal_header @ encode_all (take n recs)) \<le> length f" "n \<le> length recs"
  shows "\<exists>k \<ge> n. read_all f = Inr (map reread_record (take k recs))"
proof -
  have "prefix wal_header f"
    using prefix_length_prefix [of wal_header "wal_header @ encode_all recs" f] f len(1) by simp
  then obtain p where p: "f = wal_header @ p" "prefix p (encode_all recs)"
    using f by (auto simp: prefix_def)
  from prefix_of_log [OF ok p(2)] obtain k t where k: "p = encode_all (take k recs) @ t" "torn t"
    "\<forall>j \<le> length recs. length (encode_all (take j recs)) \<le> length p \<longrightarrow> j \<le> k" by blast
  have "list_all frame_ok (take k recs)" using ok by (auto simp: list_all_iff dest: in_set_takeD)
  from read_torn_tail(2) [OF this k(2)] have "read_all f = Inr (map reread_record (take k recs))"
    by (simp add: p(1) k(1) encode_all_def)
  moreover have "n \<le> k" using k(3) len p(1) by simp
  ultimately show ?thesis by blast
qed

section \<open>Progress\<close>

definition syncer_round :: "wal \<Rightarrow> wal" where
  "syncer_round w = flush (FlushOk 0) (drain w)"

definition idle :: "wal \<Rightarrow> bool" where
  "idle w \<longleftrightarrow> w_alive w \<and> \<not> w_stop w \<and> w_stage w = None \<and> w_inflight w = None"

lemma syncer_round_live:
  assumes l: "live_ok log [] m w" and i: "idle w" and w: "w_written w = length log" and m: "m \<noteq> []"
  shows "\<exists>m'. length m' < length m \<and> live_ok log [] m' (syncer_round w) \<and> idle (syncer_round w) \<and>
     w_written (syncer_round w) = length log"
proof -
  have "log = w_file w @ seg_bytes m" "length (w_file w) = w_durable w" "chained (w_durable w) m"
    using l i by (auto simp: live_ok_def idle_def reserved_bytes_def)
  moreover have "seg_bytes m \<noteq> []" using m calculation(3) by (cases m) auto
  ultimately have ne: "w_durable w < length log" by simp
  from drain_available_live [OF l, of DRAIN_BATCH_CAP] obtain k qs gap where
    d: "drain_available DRAIN_BATCH_CAP w = (w\<lparr>w_pool := (w_pool w)\<lparr>sp_shards := qs\<rparr>\<rparr>, as_batch (take k m),
       w_durable w + length (seg_bytes (take k m)), gap)" "queued (drop k m) qs"
    "took DRAIN_BATCH_CAP (w_written w) (w_durable w) 0 m k gap" by (elim exE conjE)
  have k: "k \<le> length m" "k \<noteq> 0"
    using d(3) ne w m by (auto simp: took_def DRAIN_BATCH_CAP_def)
  have eq: "drain w = w\<lparr>w_pool := (w_pool w)\<lparr>sp_shards := qs\<rparr>,
      w_inflight := Some (as_batch (take k m), w_durable w + length (seg_bytes (take k m)))\<rparr>"
    using i d(1) ne w k m by (simp add: drain_def idle_def)
  have "live_ok log (take k m) (drop k m) (drain w)"
    using drain_live [OF l d(2) k(1)] k(2) m unfolding eq by simp
  moreover have "chained (w_durable w + length (seg_bytes (take k m))) (drop k m)"
    using l chained_append [of "w_durable w" "take k m" "drop k m"] by (simp add: live_ok_def)
  ultimately have "live_ok log [] (drop k m) (syncer_round w)"
    unfolding live_ok_def by (auto simp: eq syncer_round_def flush_def write_and_sync_def inflight_ok_def reserved_bytes_def)
  moreover have "idle (syncer_round w)" "w_written (syncer_round w) = length log"
    using i w by (simp_all add: eq syncer_round_def flush_def write_and_sync_def idle_def)
  moreover have "length (drop k m) < length m" using k by simp
  ultimately show ?thesis by blast
qed

lemma syncer_catches_up:
  assumes "live_ok log [] m w" "idle w" "w_written w = length log"
  shows "\<exists>n \<le> length m. live_ok log [] [] ((syncer_round ^^ n) w) \<and> idle ((syncer_round ^^ n) w)"
  using assms
proof (induction "length m" arbitrary: m w rule: less_induct)
  case less
  show ?case
  proof (cases "m = []")
    case True
    then show ?thesis using less.prems by (intro exI [of _ 0]) simp
  next
    case False
    from syncer_round_live [OF less.prems False] obtain m' where m': "length m' < length m"
      "live_ok log [] m' (syncer_round w)" "idle (syncer_round w)" "w_written (syncer_round w) = length log" by blast
    from less.hyps [OF m'] obtain n where n: "n \<le> length m'"
      "live_ok log [] [] ((syncer_round ^^ n) (syncer_round w)) \<and> idle ((syncer_round ^^ n) (syncer_round w))" by blast
    then show ?thesis using m'(1) by (intro exI [of _ "Suc n"]) (simp add: funpow_swap1)
  qed
qed

section \<open>After a failure\<close>

lemma dead_step: "wal_step w recs w' \<Longrightarrow> \<not> w_alive w \<and> w_inflight w = None \<Longrightarrow>
    \<not> w_alive w' \<and> w_inflight w' = None \<and> w_durable w' = w_durable w"
proof (induction rule: wal_step.induct)
  case (Reserve t recs w w' s e)
  then show ?case by (auto simp: reserve_def Let_def split: if_splits)
next
  case (Push w)
  then show ?case by (auto simp: push_staged_def Let_def split: option.splits prod.splits)
qed (auto simp: drain_def flush_def wal_drop_def)

lemma dead_run: "wal_run w recs w' \<Longrightarrow> \<not> w_alive w \<and> w_inflight w = None \<Longrightarrow>
    \<not> w_alive w' \<and> w_inflight w' = None \<and> w_durable w' = w_durable w"
proof (induction rule: wal_run.induct)
  case (Step w recs w' recs' w'')
  then show ?case using dead_step [OF Step.hyps(2)] by simp
qed simp

lemma failed_flush_dead:
  "w_inflight w \<noteq> None \<Longrightarrow> (\<And>us. io \<noteq> FlushOk us) \<Longrightarrow>
   \<not> w_alive (flush io w) \<and> w_inflight (flush io w) = None \<and> w_durable (flush io w) = w_durable w"
  by (cases io) (auto simp: flush_def write_and_sync_def)

lemma caught_up:
  assumes "wal_inv log w" "idle w"
  shows "\<exists>n. w_durable ((syncer_round ^^ n) w) = length log \<and> w_disk ((syncer_round ^^ n) w) = log"
proof -
  from assms obtain b m where l: "live_ok log b m w" by (auto simp: idle_def elim: wal_invE)
  then have "b = []" using assms(2) by (simp add: live_ok_def inflight_ok_def idle_def)
  with l assms syncer_catches_up [of log m w] obtain n where
    n: "live_ok log [] [] ((syncer_round ^^ n) w)" "idle ((syncer_round ^^ n) w)"
    by (auto simp: wal_inv_def log_ok_def)
  then have "reserved_bytes ((syncer_round ^^ n) w) = []" by (simp add: idle_def reserved_bytes_def)
  with n(1) show ?thesis by (intro exI [of _ n]) (simp add: live_ok_def)
qed

lemma append_idle: "idle w \<Longrightarrow> append_records t recs w = Some (w1, start, fin) \<Longrightarrow> idle w1"
  by (auto simp: append_records_def idle_def reserve_def push_staged_def Let_def
      split: if_splits prod.splits option.splits)

lemma append_inv:
  "wal_inv log w \<Longrightarrow> append_records t recs w = Some (w1, start, fin) \<Longrightarrow>
   wal_inv (log @ encode_all recs) w1 \<and> start = length log \<and> fin = length log + length (encode_all recs)"
  using push_inv by (auto simp: append_records_def dest: reserve_inv)

section \<open>Properties\<close>

text \<open>The state of a log opened on a file of complete records, after any interleaving of steps.\<close>

abbreviation opened :: "wal_record list \<Rightarrow> wal" where
  "opened recs0 \<equiv> wal_open (Some (wal_header @ encode_all recs0)) None None"

lemma header_nonempty: "wal_header \<noteq> []"
  by (simp add: wal_header_def WAL_MAGIC_def str_bytes_def)

lemma opened_inv:
  "wal_run (wal_open (Some (wal_header @ encode_all recs0)) g par) recs w \<Longrightarrow>
   wal_inv (wal_header @ encode_all (recs0 @ recs)) w"
  using wal_run_inv [OF _ wal_open_inv [OF refl]] header_nonempty by fastforce

section \<open>A sample commit\<close>

lemma wal_run_append: "wal_run w' recs' w'' \<Longrightarrow> wal_run w recs w' \<Longrightarrow> wal_run w (recs @ recs') w''"
proof (induction rule: wal_run.induct)
  case (Step w1 r1 w2 r2 w3)
  from wal_run.Step [OF Step.IH [OF Step.prems] Step.hyps(2)] show ?case by simp
qed simp

lemma rounds_run: "wal_run w [] ((syncer_round ^^ n) w)"
proof (induction n)
  case 0
  show ?case by (simp add: wal_run.Done)
next
  case (Suc n)
  from wal_run.Step [OF wal_run.Step [OF Suc wal_step.Drain] wal_step.Flush] show ?case
    by (simp add: syncer_round_def)
qed

lemma header_size: "length wal_header = 8"
  by (simp add: wal_header_def WAL_MAGIC_def str_bytes_def)

lemma commit_size: "length (encode_record (Commit t None)) = 17" "frame_ok (Commit t None)"
  by (simp_all add: encode_record_frame length_frame frame_ok_def)

definition sample_log :: wal where
  "sample_log = wal_open (Some (wal_header @ encode_all [])) None None"

definition sample_reserved :: wal where
  "sample_reserved = sample_log\<lparr>w_written := 25, w_stage := Some (0, 8, encode_record (Commit 1 None))\<rparr>"

definition sample_staged :: wal where
  "sample_staged = push_staged sample_reserved"

lemma sample_inv: "wal_inv wal_header sample_log"
  unfolding sample_log_def by (rule wal_open_inv) (simp add: header_nonempty)

lemma sample_log_fields:
  "w_durable sample_log = 8" "w_alive sample_log" "\<not> w_stop sample_log" "w_inflight sample_log = None"
  "w_written sample_log = 8" "w_stage sample_log = None" "w_pool sample_log = shard_pool_new None"
  by (simp_all add: sample_log_def wal_open_def Let_def header_size header_nonempty)

lemma sample_reserve: "reserve 0 [Commit 1 None] sample_log = Some (sample_reserved, 8, 25)"
proof -
  have "encode_record (Commit 1 None) \<noteq> []" using commit_size(1) [of 1] by (metis list.size(3) zero_neq_numeral)
  then show ?thesis by (simp add: sample_reserved_def reserve_def sample_log_fields Let_def commit_size)
qed

lemma four_shards: "replicate 4 x = [x, x, x, x]"
  by (simp add: numeral_eq_Suc)

lemmas sample_fields = four_shards sample_reserved_def sample_log_fields shard_pool_new_def

lemma sample_run: "wal_run sample_log [Commit 1 None] sample_reserved" "wal_run sample_log [Commit 1 None] sample_staged"
proof -
  show r: "wal_run sample_log [Commit 1 None] sample_reserved"
    using wal_run.Step [OF wal_run.Done wal_step.Reserve [OF sample_reserve]] by simp
  show "wal_run sample_log [Commit 1 None] sample_staged"
    using wal_run.Step [OF r wal_step.Push] by (simp add: sample_staged_def)
qed

lemma sample_staged_eq:
  "sample_staged = sample_log\<lparr>w_written := 25, w_pool := \<lparr>
     sp_shards = [[\<lparr>seg_start = 8, seg_data = encode_record (Commit 1 None)\<rparr>], [], [], []],
     sp_cursor = (\<lambda>_. USIZE_MAX)(0 := 0), sp_next = 1\<rparr>\<rparr>"
  by (simp add: sample_staged_def push_staged_def sample_fields pick_def Let_def on_shard_def push_seg_def USIZE_MAX_def)

lemma sample_idle: "idle sample_staged"
  by (simp add: idle_def sample_staged_eq sample_fields)



text \<open>The syncer catches up: once appenders pause, finitely many successful rounds make every
  reserved byte durable, so every waiter is acknowledged, and the file is exactly the records in
  reservation order.\<close>
theorem syncer_makes_durable:
  assumes "wal_run (wal_open (Some (wal_header @ encode_all recs0)) g par) recs w"
    and "w_alive w" "\<not> w_stop w" "w_stage w = None" "w_inflight w = None"
  shows "\<exists>n. wait_durable (w_written w) ((syncer_round ^^ n) w) = Some (Inr ()) \<and>
     w_disk ((syncer_round ^^ n) w) = wal_header @ encode_all (recs0 @ recs)"
proof -
  note inv = opened_inv [OF assms(1)]
  have "idle w" using assms by (simp add: idle_def)
  from caught_up [OF inv this] inv show ?thesis by (auto simp: wait_durable_def wal_inv_def log_ok_def)
qed

theorem syncer_makes_durable_witness:
  "\<exists>n. wait_durable 25 ((syncer_round ^^ n) sample_staged) = Some (Inr ())"
  using syncer_makes_durable [OF sample_run(2) [unfolded sample_log_def]] by (auto simp: sample_staged_eq sample_fields)

text \<open>A drain takes the staged bytes in reservation order without a hole: what it pops is exactly
  the log from \<open>durable\<close> on, and it ends before the reserved frontier only when the batch is full or
  when an appender has reserved its range and not pushed its bytes yet.\<close>
theorem drain_in_order:
  assumes "wal_run (wal_open (Some (wal_header @ encode_all recs0)) g par) recs w"
    and "w_alive w" "w_inflight w = None" "drain_available cap w = (w', batch, frontier, gap)"
  shows "coalesce batch = take (frontier - w_durable w) (drop (w_durable w) (wal_header @ encode_all (recs0 @ recs))) \<and>
     (gap \<longrightarrow> w_stage w \<noteq> None) \<and> (\<not> gap \<longrightarrow> frontier = w_written w \<or> cap \<le> length (coalesce batch))"
proof -
  let ?log = "wal_header @ encode_all (recs0 @ recs)"
  note inv = opened_inv [OF assms(1)]
  from inv assms(2) obtain b m where l: "live_ok ?log b m w" by (rule wal_invE)
  have b: "b = []" using l assms(3) by (simp add: live_ok_def inflight_ok_def)
  from drain_available_live [OF l [unfolded b], of cap] obtain k qs gap' where
    "drain_available cap w = (w\<lparr>w_pool := (w_pool w)\<lparr>sp_shards := qs\<rparr>\<rparr>, as_batch (take k m),
       w_durable w + length (seg_bytes (take k m)), gap')" and t: "took cap (w_written w) (w_durable w) 0 m k gap'"
    by (elim exE conjE)
  then have k: "batch = as_batch (take k m)" "frontier = w_durable w + length (seg_bytes (take k m))" "gap = gap'"
    using assms(4) by simp_all
  have log: "?log = w_file w @ seg_bytes m @ reserved_bytes w" "length (w_file w) = w_durable w"
    using l b by (auto simp: live_ok_def)
  have m: "seg_bytes m = seg_bytes (take k m) @ seg_bytes (drop k m)"
    using seg_bytes_simps(3) [of "take k m" "drop k m"] by simp
  have "w_written w = length ?log" using inv unfolding wal_inv_def log_ok_def by (elim conjE)
  then have wr: "w_written w = w_durable w + length (seg_bytes m) + length (reserved_bytes w)"
    unfolding log(1) using log(2) by simp
  have "reserved_bytes w \<noteq> [] \<longrightarrow> w_stage w \<noteq> None"
    by (cases "w_stage w") (simp_all add: reserved_bytes_def)
  moreover have "gap \<longrightarrow> reserved_bytes w \<noteq> []" using t wr unfolding k(3) took_def by fastforce
  ultimately have "gap \<longrightarrow> w_stage w \<noteq> None" by blast
  moreover have le: "length (seg_bytes (take k m)) \<le> length (seg_bytes m)" unfolding m by simp
  have "\<not> gap \<longrightarrow> frontier = w_written w \<or> cap \<le> length (coalesce batch)"
    using t wr le unfolding k took_def coalesce_as_batch by linarith
  moreover have "drop (w_durable w) ?log = seg_bytes m @ reserved_bytes w"
    unfolding log(1) log(2) [symmetric] by (rule append_eq_conv_conj [THEN iffD1, THEN conjunct2, symmetric]) (rule refl)
  then have "coalesce batch = take (frontier - w_durable w) (drop (w_durable w) ?log)"
    unfolding k coalesce_as_batch m by simp
  ultimately show ?thesis by (intro conjI)
qed

theorem drain_in_order_witness:
  "\<exists>w' batch frontier. drain_available 4096 sample_reserved = (w', batch, frontier, True) \<and> coalesce batch = [] \<and>
     w_stage sample_reserved \<noteq> None"
proof -
  have d: "drain_available 4096 sample_reserved = (sample_reserved, [], 8, True)"
    by (simp add: drain_available_def sample_fields drain_loop.simps)
  have "w_alive sample_reserved" "w_inflight sample_reserved = None" by (simp_all add: sample_fields)
  from drain_in_order [OF sample_run(1) [unfolded sample_log_def] this d] show ?thesis
    using d by (simp add: coalesce_def)
qed

text \<open>A failed write puts every popped segment back: the staging shards are exactly what they were
  before the drain, so a later round retries the same bytes in the same order.\<close>
theorem failed_write_restores_shards:
  "case drain_available cap w of (w', batch, frontier, gap) \<Rightarrow>
     fst (write_and_sync (WriteFails n) batch frontier w') = w\<lparr>w_file := w_file w @ take n (coalesce batch)\<rparr>"
proof -
  obtain qs batch fr gap where d: "drain_loop cap (w_written w) (w_durable w) 0 (shards w) [] = (qs, batch, fr, gap)"
    using prod_cases4 by blast
  from drain_loop_requeue [OF d] have "requeue batch qs = shards w" by auto
  then show ?thesis by (simp add: drain_available_def d write_and_sync_def)
qed

text \<open>After a failed write or sync nothing more is acknowledged: the syncer thread is gone, so a
  waiter whose bytes were not durable yet is never told \<open>Ok\<close>, and waits for ever unless the log is
  dropped.\<close>
theorem failed_flush_never_acknowledges:
  assumes "w_inflight w \<noteq> None" "\<forall>us. io \<noteq> FlushOk us" "wal_run (flush io w) recs w'" "w_durable w < fin"
  shows "wait_durable fin w' = (if w_stop w' then Some (Inl (Io ''wal syncer stopped'')) else None)"
  using dead_run [OF assms(3)] failed_flush_dead [OF assms(1)] assms(2,4) by (simp add: wait_durable_def)

theorem failed_flush_never_acknowledges_witness:
  "wait_durable 25 (flush SyncFails (drain sample_staged)) = None"
proof -
  have d: "drain sample_staged = sample_staged\<lparr>w_pool := (w_pool sample_staged)\<lparr>sp_shards := [[], [], [], []]\<rparr>,
      w_inflight := Some ([(0, 8, encode_record (Commit 1 None))], 25)\<rparr>"
    by (simp add: drain_def sample_staged_eq sample_fields drain_available_def drain_loop.simps commit_size DRAIN_BATCH_CAP_def)
  have "w_inflight (drain sample_staged) \<noteq> None" "w_durable (drain sample_staged) < 25"
    unfolding d by (simp_all add: sample_staged_eq sample_fields)
  from failed_flush_never_acknowledges [OF this(1) _ wal_run.Done this(2), of SyncFails]
  have "wait_durable 25 (flush SyncFails (drain sample_staged)) =
      (if w_stop (flush SyncFails (drain sample_staged)) then Some (Inl (Io ''wal syncer stopped'')) else None)" by simp
  moreover have "\<not> w_stop (flush SyncFails (drain sample_staged))"
    unfolding d by (simp add: flush_def write_and_sync_def sample_staged_eq sample_fields)
  ultimately show ?thesis by simp
qed

text \<open>C9. A torn tail swallows later commits: \<open>Wal::open\<close> keeps a torn last record and new records are
  appended behind it. When the torn record announces more bytes than follow, the next recovery reads
  the new, acknowledged records as its payload and returns none of them.\<close>
theorem torn_tail_swallows_commits:
  assumes "frame_ok big" "8 \<le> n" "n + length (encode_all recs) < length (encode_record big)"
    and "append_records t recs (wal_open (Some (wal_header @ take n (encode_record big))) g par) = Some (w, start, fin)"
  shows "\<exists>k. wait_durable fin ((syncer_round ^^ k) w) = Some (Inr ()) \<and> read_all (w_disk ((syncer_round ^^ k) w)) = Inr []"
proof -
  let ?f = "wal_header @ take n (encode_record big)"
  have o1: "wal_inv ?f (wal_open (Some ?f) g par)"
    using header_nonempty by (intro wal_open_inv) simp
  have o2: "idle (wal_open (Some ?f) g par)" by (simp add: wal_open_def idle_def Let_def)
  note a = append_inv [OF o1 assms(4)] append_idle [OF o2 assms(4)]
  from caught_up [OF conjunct1 [OF a(1)] a(2)] obtain k where
    k: "w_durable ((syncer_round ^^ k) w) = length (?f @ encode_all recs)"
      "w_disk ((syncer_round ^^ k) w) = ?f @ encode_all recs" by blast
  have "read_all (?f @ encode_all recs) = Inr []" using assms(1-3) by (simp add: read_announced)
  then show ?thesis using k a(1) by (intro exI [of _ k]) (simp add: wait_durable_def)
qed

theorem torn_tail_swallows_commits_witness:
  "\<exists>w fin. wait_durable fin w = Some (Inr ()) \<and> 25 < fin \<and> read_all (w_disk w) = Inr []"
proof -
  let ?big = "Put 1 ''t'' [] (replicate 100 0)"
  let ?o = "wal_open (Some (wal_header @ take 8 (encode_record ?big))) None None"
  have big: "frame_ok ?big" "100 < length (encode_record ?big)"
    by (simp_all add: frame_ok_def encode_record_frame length_frame short_def str_bytes_def in_range_def length_put_bytes put_str_bytes)
  have "encode_record (Commit 2 None) \<noteq> []" using commit_size(1) [of 2] by (metis list.size(3) zero_neq_numeral)
  then obtain w where a: "append_records 0 [Commit 2 None] ?o = Some (w, 16, 33)"
    using big(2) by (auto simp: append_records_def reserve_def Let_def wal_open_def header_size header_nonempty commit_size min_def)
  from torn_tail_swallows_commits [OF big(1) _ _ a] big(2) obtain k where
    "wait_durable 33 ((syncer_round ^^ k) w) = Some (Inr ())" "read_all (w_disk ((syncer_round ^^ k) w)) = Inr []"
    by (auto simp: commit_size)
  then show ?thesis by (intro exI [of _ "(syncer_round ^^ k) w"] exI [of _ 33]) simp
qed

section \<open>Truncation\<close>

lemma drain_available_fields:
  "drain_available cap w = (w1, batch, fr, gap) \<Longrightarrow>
   \<exists>qs. w1 = w\<lparr>w_pool := (w_pool w)\<lparr>sp_shards := qs\<rparr>\<rparr> \<and> length qs = length (shards w)"
proof -
  assume a: "drain_available cap w = (w1, batch, fr, gap)"
  obtain qs b f g where d: "drain_loop cap (w_written w) (w_durable w) 0 (shards w) [] = (qs, b, f, g)"
    using prod_cases4 by blast
  with drain_loop_requeue [OF d] a show ?thesis by (auto simp: drain_available_def)
qed

lemma reset_cases:
  assumes "wal_reset gen_ok io trunc w = (w', r)" "w_stage w = None" "w_inflight w = None"
  shows "if r = Inr () then w_file w' = wal_header \<and> w_disk w' = wal_header \<and> w_written w' = 8 \<and> w_file_written w' = 8 \<and>
       w_durable w' = 8 \<and> shards w' = replicate (length (shards w)) [] \<and> w_stage w' = None \<and> w_inflight w' = None \<and>
       w_gen_file w' = Some (u64_le (w_generation w + 1)) \<and> w_generation w' = w_generation w + 1 \<and> w_alive w' = w_alive w
     else trunc = None \<longrightarrow> prefix (w_file w) (w_file w') \<and> w_durable w' = w_durable w \<and> w_written w' = w_written w"
proof (cases gen_ok)
  case False
  then show ?thesis using assms by (auto simp: wal_reset_def Let_def)
next
  case True
  let ?w = "w\<lparr>w_generation := w_generation w + 1, w_gen_file := Some (u64_le (w_generation w + 1))\<rparr>"
  obtain w1 batch fr gap where d: "drain_available (2 ^ 64 - 1) ?w = (w1, batch, fr, gap)"
    using prod_cases4 by blast
  from drain_available_fields [OF this] obtain qs where
    w1: "w1 = ?w\<lparr>w_pool := (w_pool ?w)\<lparr>sp_shards := qs\<rparr>\<rparr>" "length qs = length (shards w)" by auto
  have c: "clear_all qs = replicate (length (shards w)) []"
    using w1(2) by (simp add: clear_all_def map_replicate_const)
  show ?thesis
  proof (cases "batch = []")
    case True
    then show ?thesis using assms \<open>gen_ok\<close> d c unfolding wal_reset_def w1(1)
      by (cases trunc) (auto simp: Let_def)
  next
    case False
    then show ?thesis using assms \<open>gen_ok\<close> d c unfolding wal_reset_def w1(1)
      by (cases io; cases trunc) (auto simp: Let_def write_and_sync_def)
  qed
qed

text \<open>Truncation: a successful \<open>reset\<close> leaves an empty log of the next generation that keeps every
  guarantee of a fresh one, and the sidecar names that generation; when it fails before truncating,
  everything in the file is still there and no offset has moved.\<close>
theorem reset_starts_generation:
  assumes "wal_run (wal_open (Some (wal_header @ encode_all recs0)) g par) recs w"
    and "w_stage w = None" "w_inflight w = None" "wal_reset gen_ok io trunc w = (w', r)"
  shows "if r = Inr () then wal_inv wal_header w' \<and> read_all (w_disk w') = Inr [] \<and>
       w_generation w' = w_generation w + 1 \<and> read_generation (w_gen_file w') = w_generation w'
     else trunc = None \<longrightarrow> prefix (w_file w) (w_file w') \<and> w_durable w' = w_durable w \<and> w_written w' = w_written w"
proof (cases "r = Inr ()")
  case True
  note c = reset_cases [OF assms(4,2,3)]
  have ne: "shards w \<noteq> []" using opened_inv [OF assms(1)] by (simp add: wal_inv_def)
  have "live_ok wal_header [] [] w'"
    using c True queued_empty by (auto simp: live_ok_def inflight_ok_def reserved_bytes_def header_size)
  then have "wal_inv wal_header w'" using c True ne
    by (auto simp: wal_inv_def log_ok_def stage_ok_def header_size)
  moreover have "read_all wal_header = Inr []" using read_torn_tail(2) [of "[]" "[]"] torn_Nil by simp
  moreover have "read_generation (w_gen_file w') = w_generation w'"
    using c True by (simp add: read_generation_def codec_simps)
  ultimately show ?thesis using c True by simp
next
  case False
  with reset_cases [OF assms(4,2,3)] show ?thesis by simp
qed

theorem reset_starts_generation_witness:
  "read_all (w_disk (fst (wal_reset True (FlushOk 0) None sample_log))) = Inr []"
proof -
  have d: "drain_loop (2 ^ 64 - 1) 8 8 0 [[], [], [], []] [] = ([[], [], [], []], [], 8, False)"
    by (simp add: drain_loop.simps)
  obtain w' where r: "wal_reset True (FlushOk 0) None sample_log = (w', Inr ())"
    using d by (simp add: wal_reset_def Let_def drain_available_def sample_fields)
  have "w_stage sample_log = None" "w_inflight sample_log = None" by (simp_all add: sample_fields)
  from reset_starts_generation [OF wal_run.Done [of sample_log, unfolded sample_log_def]
      this [unfolded sample_log_def] r [unfolded sample_log_def]] show ?thesis by (simp add: r)
qed

text \<open>Streaming reads only real log bytes: a range read returns exactly the log from the requested
  offset on, never more than asked for, never past what is in the file, and an offset outside the log
  is an error.\<close>
theorem read_range_exact:
  assumes "wal_run (wal_open (Some (wal_header @ encode_all recs0)) g par) recs w" "w_alive w"
  shows "read_range from max_len w =
     (if from < 8 then Inl (Corrupted ''wal range below header'')
      else if from > length (wal_header @ encode_all (recs0 @ recs)) then Inl (Corrupted ''wal range beyond written'')
      else let buf = slice (wal_header @ encode_all (recs0 @ recs)) from (min (w_durable w - from) max_len)
           in Inr (buf, from + length buf))"
proof -
  let ?log = "wal_header @ encode_all (recs0 @ recs)"
  note inv = opened_inv [OF assms(1)]
  from inv assms(2) obtain b m where l: "live_ok ?log b m w" by (rule wal_invE)
  have wr: "w_written w = length ?log" using inv unfolding wal_inv_def log_ok_def by (elim conjE)
  have fl: "?log = w_file w @ seg_bytes b @ seg_bytes m @ reserved_bytes w" "length (w_file w) = w_durable w"
    "w_file_written w = w_durable w" using l by (auto simp: live_ok_def)
  have "slice ?log from n = slice (w_file w) from n" if "n \<le> w_durable w - from" for n
  proof (cases "from \<le> w_durable w")
    case True
    then show ?thesis using that unfolding fl(1) by (simp add: slice_def fl(2))
  next
    case False
    then show ?thesis using that by (simp add: slice_def)
  qed
  then show ?thesis unfolding read_range_def wr fl(3) by (simp add: Let_def)
qed

theorem read_range_exact_witness:
  "read_range 8 100 sample_log = Inr ([], 8) \<and> read_range 9 100 sample_log = Inl (Corrupted ''wal range beyond written'')"
  using read_range_exact [OF wal_run.Done [of sample_log, unfolded sample_log_def] sample_log_fields(2) [unfolded sample_log_def]]
  by (simp add: sample_log_fields [unfolded sample_log_def] header_size slice_def sample_log_def)

end
