(* ===== verification/Recovery.thy ===== *)
theory Recovery
  imports Table_Correct Catalog Wal_Durability Mvcc
begin

text \<open>
  Opening a database and committing to it (\<open>crates/engine/src/db/mod.rs\<close>): loading the snapshot, redoing the
  committed records of the log, the two phases of a commit that touch the database, and the snapshot a
  checkpoint takes.

  \<^item> \<open>tables\<close> is the hash map of tables, kept in name order; the pool is shared by them.
  \<^item> \<open>None\<close> is a call that does not come back, as in the table layer.
  \<^item> The staged writes of a transaction are a list of distinct keys: the iteration order of the hash map,
    which is the same for the log records and for the installation.
\<close>

record dbase =
  d_databases :: "string set"
  d_tables :: "(string \<times> table) list"
  d_pool :: buffer_pool

abbreviation db_table :: "dbase \<Rightarrow> string \<Rightarrow> table option" where
  "db_table D n \<equiv> map_of (d_tables D) n"

definition set_table :: "string \<Rightarrow> table \<Rightarrow> buffer_pool \<Rightarrow> dbase \<Rightarrow> dbase" where
  "set_table n t p D = D\<lparr>d_tables := map_put n t (d_tables D), d_pool := p\<rparr>"

section \<open>Redo\<close>

definition apply_record :: "wal_record \<Rightarrow> dbase \<Rightarrow> (dbase \<times> unit result) option" where
  "apply_record rec D =
     (case rec of
        CreateDatabase _ name \<Rightarrow> Some (D\<lparr>d_databases := insert name (d_databases D)\<rparr>, Inr ())
      | DropDatabase _ name \<Rightarrow>
          Some (D\<lparr>d_databases := d_databases D - {name},
                  d_tables := filter (\<lambda>e. \<not> prefix (name @ ''.'') (fst e)) (d_tables D)\<rparr>, Inr ())
      | CreateTable _ def \<Rightarrow>
          Some (if db_table D (td_name def) \<noteq> None then D
                else D\<lparr>d_tables := map_put (td_name def) (set_pool (table_new def)) (d_tables D)\<rparr>, Inr ())
      | DropTable _ name \<Rightarrow> Some (D\<lparr>d_tables := filter (\<lambda>e. fst e \<noteq> name) (d_tables D)\<rparr>, Inr ())
      | Put _ table key row \<Rightarrow>
          (case db_table D table of
             None \<Rightarrow> Some (D, Inr ())
           | Some t \<Rightarrow> map_option (\<lambda>(t, p, r). (set_table table t p D, r)) (apply_raw key row t (d_pool D)))
      | Delete _ table key \<Rightarrow>
          (case db_table D table of
             None \<Rightarrow> Some (D, Inr ())
           | Some t \<Rightarrow> map_option (\<lambda>(t, p). (set_table table t p D, Inr ())) (remove_raw key t (d_pool D)))
      | CreateIndex _ table name column \<Rightarrow>
          (case db_table D table of
             None \<Rightarrow> Some (D, Inr ())
           | Some t \<Rightarrow> map_option (\<lambda>(t, p, _). (set_table table t p D, Inr ())) (add_index name column t (d_pool D)))
      | DropIndex _ table name \<Rightarrow>
          (case db_table D table of
             None \<Rightarrow> Some (D, Inr ())
           | Some t \<Rightarrow> Some (set_table table (fst (drop_index name t)) (d_pool D) D, Inr ()))
      | Commit _ _ \<Rightarrow> Some (D, Inr ()))"

fun apply_records :: "wal_record list \<Rightarrow> dbase \<Rightarrow> (dbase \<times> unit result) option" where
  "apply_records [] D = Some (D, Inr ())"
| "apply_records (rec # rl) D =
     (case apply_record rec D of
        None \<Rightarrow> None
      | Some (D, Inl e) \<Rightarrow> Some (D, Inl e)
      | Some (D, Inr _) \<Rightarrow> apply_records rl D)"

text \<open>The redo loop of \<open>open\<close>: records are buffered by transaction and installed at its commit record.\<close>

definition buffer_record :: "wal_record \<Rightarrow> (u64 \<rightharpoonup> wal_record list) \<Rightarrow> (u64 \<rightharpoonup> wal_record list)" where
  "buffer_record rec pending =
     pending(txn_of rec \<mapsto> (case pending (txn_of rec) of None \<Rightarrow> [] | Some b \<Rightarrow> b) @ [rec])"

fun redo :: "(u64 \<rightharpoonup> wal_record list) \<Rightarrow> wal_record list \<Rightarrow> dbase \<Rightarrow> (dbase \<times> unit result) option" where
  "redo pending [] D = Some (D, Inr ())"
| "redo pending (rec # rl) D =
     (case rec of
        Commit txn _ \<Rightarrow>
          (case pending txn of
             None \<Rightarrow> redo pending rl D
           | Some batch \<Rightarrow>
               (case apply_records batch D of
                  None \<Rightarrow> None
                | Some (D, Inl e) \<Rightarrow> Some (D, Inl e)
                | Some (D, Inr _) \<Rightarrow> redo (pending(txn := None)) rl D))
      | _ \<Rightarrow> redo (buffer_record rec pending) rl D)"

section \<open>Loading the snapshot\<close>

fun restore_rows :: "snap_row list \<Rightarrow> unit table_op" where
  "restore_rows [] t p = Some (t, p, Inr ())"
| "restore_rows (r # rs) t p =
     (case (case sr_key r of
              Some key \<Rightarrow> restore_kv key (sr_value r) t p
            | None \<Rightarrow> map_option (\<lambda>(t, res). (t, p, res)) (restore_raw (sr_value r) t)) of
        None \<Rightarrow> None
      | Some (t, p, Inl e) \<Rightarrow> Some (t, p, Inl e)
      | Some (t, p, Inr _) \<Rightarrow> restore_rows rs t p)"

definition db_prefix :: "string \<Rightarrow> string option" where
  "db_prefix name = (if CHR ''.'' \<in> set name then Some (takeWhile (\<lambda>c. c \<noteq> CHR ''.'') name) else None)"

fun restore_tables :: "(table_def \<times> snap_row list) list \<Rightarrow> dbase \<Rightarrow> (dbase \<times> unit result) option" where
  "restore_tables [] D = Some (D, Inr ())"
| "restore_tables ((def, rows) # ts) D =
     (let D = D\<lparr>d_databases := (case db_prefix (td_name def) of None \<Rightarrow> d_databases D | Some n \<Rightarrow> insert n (d_databases D))\<rparr> in
      case restore_rows rows (set_pool (table_new def)) (d_pool D) of
        None \<Rightarrow> None
      | Some (t, p, Inl e) \<Rightarrow> Some (D\<lparr>d_pool := p\<rparr>, Inl e)
      | Some (t, p, Inr _) \<Rightarrow> restore_tables ts (set_table (td_name def) t p D))"

definition load_snapshot :: "bytes option \<Rightarrow> buffer_pool \<Rightarrow> (dbase \<times> unit result) option" where
  "load_snapshot snap p =
     (let D = \<lparr>d_databases = {''default''}, d_tables = [], d_pool = p\<rparr> in
      case snap of
        None \<Rightarrow> Some (D, Inr ())
      | Some bs \<Rightarrow>
          (case decode_snapshot bs of
             Inl e \<Rightarrow> Some (D, Inl e)
           | Inr (dbs, ts) \<Rightarrow> restore_tables ts (D\<lparr>d_databases := d_databases D \<union> set dbs\<rparr>)))"

section \<open>After the redo\<close>

fun refresh_tables :: "(string \<times> table) list \<Rightarrow> (string \<times> table) list option" where
  "refresh_tables [] = Some []"
| "refresh_tables ((n, t) # ts) = do { t \<leftarrow> refresh_auto_inc t; ts \<leftarrow> refresh_tables ts; Some ((n, t) # ts) }"

text \<open>\<open>while secondary_indexes().any(name == auto)\<close>, counting from 2; one more round than there are indexes
  is always enough.\<close>

fun auto_name :: "nat \<Rightarrow> string list \<Rightarrow> string \<Rightarrow> nat \<Rightarrow> string \<Rightarrow> string option" where
  "auto_name 0 names col n auto = None"
| "auto_name (Suc fuel) names col n auto =
     (if auto \<in> set names then auto_name fuel names col (Suc n) (''fk_'' @ col @ ''_'' @ dec_string n) else Some auto)"

fun ensure_indexes :: "foreign_key_def list \<Rightarrow> unit table_op" where
  "ensure_indexes [] t p = Some (t, p, Inr ())"
| "ensure_indexes (fk # fks) t p =
     (if index_of (td_schema (t_def t)) (fk_column fk) = Some (pk_idx (td_schema (t_def t))) \<or>
         (\<exists>d \<in> set (secondary_indexes t). ix_column d = fk_column fk)
      then ensure_indexes fks t p
      else
        case auto_name (Suc (length (t_indexes t))) (map ix_name (secondary_indexes t)) (fk_column fk) 2 (''fk_'' @ fk_column fk) of
          None \<Rightarrow> None
        | Some auto \<Rightarrow>
            (case add_index auto (fk_column fk) t p of
               None \<Rightarrow> None
             | Some (t, p, Inl e) \<Rightarrow> Some (t, p, Inl e)
             | Some (t, p, Inr _) \<Rightarrow> ensure_indexes fks t p))"

definition fk_ensure_auto_indexes :: "unit table_op" where
  "fk_ensure_auto_indexes t p = ensure_indexes (td_foreign_keys (t_def t)) t p"

fun ensure_all :: "string list \<Rightarrow> dbase \<Rightarrow> (dbase \<times> unit result) option" where
  "ensure_all [] D = Some (D, Inr ())"
| "ensure_all (n # ns) D =
     (case db_table D n of
        None \<Rightarrow> ensure_all ns D
      | Some t \<Rightarrow>
          (case fk_ensure_auto_indexes t (d_pool D) of
             None \<Rightarrow> None
           | Some (t, p, Inl e) \<Rightarrow> Some (set_table n t p D, Inl e)
           | Some (t, p, Inr _) \<Rightarrow> ensure_all ns (set_table n t p D)))"

text \<open>\<open>Database::open\<close>, given what the files hold.\<close>

definition database_open :: "bytes option \<Rightarrow> bytes \<Rightarrow> buffer_pool \<Rightarrow> (dbase \<times> unit result) option" where
  "database_open snap log p =
     (case load_snapshot snap p of
        None \<Rightarrow> None
      | Some (D, Inl e) \<Rightarrow> Some (D, Inl e)
      | Some (D, Inr _) \<Rightarrow>
          (case read_all log of
             Inl e \<Rightarrow> Some (D, Inl e)
           | Inr rl \<Rightarrow>
               (case redo Map.empty rl D of
                  None \<Rightarrow> None
                | Some (D, Inl e) \<Rightarrow> Some (D, Inl e)
                | Some (D, Inr _) \<Rightarrow>
                    (case refresh_tables (d_tables D) of
                       None \<Rightarrow> None
                     | Some ts \<Rightarrow> ensure_all (map fst ts) (D\<lparr>d_tables := ts\<rparr>)))))"

section \<open>Commit\<close>

type_synonym staged = "((string \<times> key) \<times> staged_write) list"

text \<open>The records of a transaction; every row must fit into the overflow pool.\<close>

fun txn_records :: "u64 \<Rightarrow> staged \<Rightarrow> wal_record list result" where
  "txn_records txn [] = Inr []"
| "txn_records txn (((table, key), w) # ws) =
     (case w_row w of
        Some r \<Rightarrow>
          if length (encode_row r) > MAX_VALUE_LEN then Inl (NotSupported ''row too large'')
          else rbind (txn_records txn ws) (\<lambda>rs. Inr (Put txn table key (encode_row r) # rs))
      | None \<Rightarrow> rbind (txn_records txn ws) (\<lambda>rs. Inr (Delete txn table key # rs)))"

definition missing_table :: "staged \<Rightarrow> dbase \<Rightarrow> string option" where
  "missing_table ws D = map_option (\<lambda>e. fst (fst e)) (find (\<lambda>e. db_table D (fst (fst e)) = None) ws)"

text \<open>The duplicate-key check under the commit lock: the installed rows and the keys in flight.\<close>

fun check_inserts :: "(datum \<Rightarrow> string) \<Rightarrow> (string \<times> key) set \<Rightarrow> dbase \<Rightarrow> staged \<Rightarrow> unit result option" where
  "check_inserts disp fly D [] = Some (Inr ())"
| "check_inserts disp fly D (((table, key), w) # ws) =
     (if \<not> is_insert w then check_inserts disp fly D ws
      else
        case db_table D table of
          None \<Rightarrow> None
        | Some t \<Rightarrow>
            (case btree_get (t_tree t) key of
               None \<Rightarrow> None
             | Some cur \<Rightarrow>
                 if cur \<noteq> None \<or> (table, key) \<in> fly then
                   (case decode_key key of
                      None \<Rightarrow> None
                    | Some (Inl e) \<Rightarrow> Some (Inl e)
                    | Some (Inr pk) \<Rightarrow> Some (Inl (DuplicateKey (disp pk))))
                 else check_inserts disp fly D ws))"

text \<open>Phase A: the records to append, with their commit record, and the keys in flight afterwards. A
  transaction without writes logs nothing.\<close>

definition commit_prepare ::
  "(datum \<Rightarrow> string) \<Rightarrow> u64 \<Rightarrow> u64 \<Rightarrow> staged \<Rightarrow> (string \<times> key) set \<Rightarrow> dbase \<Rightarrow>
    (wal_record list \<times> (string \<times> key) set) result option" where
  "commit_prepare disp txn now ws fly D =
     (if ws = [] then Some (Inr ([], fly))
      else case missing_table ws D of
        Some t \<Rightarrow> Some (Inl (TableNotFound t))
      | None \<Rightarrow>
          (case txn_records txn ws of
             Inl e \<Rightarrow> Some (Inl e)
           | Inr rl \<Rightarrow>
               (case check_inserts disp fly D ws of
                  None \<Rightarrow> None
                | Some (Inl e) \<Rightarrow> Some (Inl e)
                | Some (Inr _) \<Rightarrow>
                    Some (Inr (rl @ [Commit txn (Some now)], fly \<union> fst ` {w \<in> set ws. is_insert (snd w)})))))"

text \<open>Phase C: the writes go into the trees.\<close>

fun commit_install :: "staged \<Rightarrow> dbase \<Rightarrow> (dbase \<times> unit result) option" where
  "commit_install [] D = Some (D, Inr ())"
| "commit_install (((table, key), w) # ws) D =
     (case db_table D table of
        None \<Rightarrow> None
      | Some t \<Rightarrow>
          (case w_row w of
             Some r \<Rightarrow>
               (case apply_raw key (encode_row r) t (d_pool D) of
                  None \<Rightarrow> None
                | Some (t, p, Inl e) \<Rightarrow> Some (set_table table t p D, Inl e)
                | Some (t, p, Inr _) \<Rightarrow> commit_install ws (set_table table t p D))
           | None \<Rightarrow>
               (case remove_raw key t (d_pool D) of
                  None \<Rightarrow> None
                | Some (t, p) \<Rightarrow> commit_install ws (set_table table t p D))))"

section \<open>Checkpoint\<close>

text \<open>What a checkpoint writes: the databases in order and every table with the entries of its tree.\<close>

fun table_images :: "(string \<times> table) list \<Rightarrow> (table_def \<times> (bytes \<times> bytes) list) list option" where
  "table_images [] = Some []"
| "table_images ((n, t) # ts) = do {
     es \<leftarrow> scan_all (t_tree t);
     r \<leftarrow> table_images ts;
     Some ((table_def_of t, es) # r) }"

definition checkpoint_image :: "string list \<Rightarrow> dbase \<Rightarrow> bytes result option" where
  "checkpoint_image dbs D = map_option (encode_snapshot dbs) (table_images (d_tables D))"

end
