(* ===== verification/Recovery_Redo.thy ===== *)
theory Recovery_Redo
  imports Recovery
begin

text \<open>
  What redo computes. \<open>contents\<close> is a database as its users see it: the databases, and for every table its
  definition and its rows. \<open>db_ok D h A\<close> says that the database \<open>D\<close>, over the overflow values \<open>h\<close>, has the
  contents \<open>A\<close>; no two tables share an overflow value.
\<close>

section \<open>Contents\<close>

record contents =
  c_databases :: "string set"
  c_tables :: "string \<rightharpoonup> table_def \<times> (key \<rightharpoonup> row)"

definition good_row :: "table_def \<Rightarrow> row \<Rightarrow> bool" where
  "good_row d r \<longleftrightarrow> length r = length (columns (td_schema d)) \<and> pk_idx (td_schema d) < length r \<and> list_all datum_ok r \<and>
     key_ok (r ! pk_idx (td_schema d)) \<and> list_all sec_ok r"

definition with_rows :: "string \<Rightarrow> ((key \<rightharpoonup> row) \<Rightarrow> (key \<rightharpoonup> row)) \<Rightarrow> contents \<Rightarrow> contents" where
  "with_rows n f A =
     (case c_tables A n of None \<Rightarrow> A | Some (d, m) \<Rightarrow> A\<lparr>c_tables := (c_tables A)(n \<mapsto> (d, f m))\<rparr>)"

definition row_from :: "table_def \<Rightarrow> bytes \<Rightarrow> row option" where
  "row_from d bs =
     (case decode_row (table_new d) bs of
        Inl _ \<Rightarrow> None
      | Inr r \<Rightarrow> if encode_row r = bs \<and> good_row d r then Some r else None)"

definition put_row_in :: "string \<Rightarrow> key \<Rightarrow> bytes \<Rightarrow> contents \<Rightarrow> contents" where
  "put_row_in n key bs A =
     (case c_tables A n of
        None \<Rightarrow> A
      | Some (d, m) \<Rightarrow> (case row_from d bs of None \<Rightarrow> A | Some r \<Rightarrow> A\<lparr>c_tables := (c_tables A)(n \<mapsto> (d, m(key \<mapsto> r)))\<rparr>))"

text \<open>What a log record does to the contents.\<close>

fun spec_record :: "wal_record \<Rightarrow> contents \<Rightarrow> contents" where
  "spec_record (CreateDatabase _ name) A = A\<lparr>c_databases := insert name (c_databases A)\<rparr>"
| "spec_record (DropDatabase _ name) A =
     A\<lparr>c_databases := c_databases A - {name},
       c_tables := (\<lambda>n. if prefix (name @ ''.'') n then None else c_tables A n)\<rparr>"
| "spec_record (CreateTable _ def) A =
     (if c_tables A (td_name def) \<noteq> None then A else A\<lparr>c_tables := (c_tables A)(td_name def \<mapsto> (def, Map.empty))\<rparr>)"
| "spec_record (DropTable _ name) A = A\<lparr>c_tables := (c_tables A)(name := None)\<rparr>"
| "spec_record (Put _ n key bs) A = put_row_in n key bs A"
| "spec_record (Delete _ n key) A = with_rows n (\<lambda>m. m(key := None)) A"
| "spec_record _ A = A"

text \<open>A record that fits the table it is for.\<close>

fun fits :: "contents \<Rightarrow> wal_record \<Rightarrow> bool" where
  "fits A (Put _ n key bs) \<longleftrightarrow>
     (case c_tables A n of
        None \<Rightarrow> True
      | Some (d, m) \<Rightarrow>
          (case row_from d bs of None \<Rightarrow> False | Some r \<Rightarrow> encode_key (r ! pk_idx (td_schema d)) = Inr key))"
| "fits A _ \<longleftrightarrow> True"

fun all_fit :: "contents \<Rightarrow> wal_record list \<Rightarrow> bool" where
  "all_fit A [] \<longleftrightarrow> True"
| "all_fit A (rec # rl) \<longleftrightarrow> fits A rec \<and> all_fit (spec_record rec A) rl"

lemma all_fit_append: "all_fit A (xs @ ys) \<longleftrightarrow> all_fit A xs \<and> all_fit (fold spec_record xs A) ys"
  by (induction xs arbitrary: A) auto

definition plain_rows :: "(key \<rightharpoonup> row) \<Rightarrow> bool" where
  "plain_rows m \<longleftrightarrow> (\<forall>r \<in> ran m. list_all sec_ok r)"

definition db_ok :: "dbase \<Rightarrow> (locator \<rightharpoonup> bytes) \<Rightarrow> contents \<Rightarrow> bool" where
  "db_ok D h A \<longleftrightarrow> holds (d_pool D) h \<and> d_databases D = c_databases A \<and> names_sorted (d_tables D) \<and>
     (\<forall>n. db_table D n = None \<longleftrightarrow> c_tables A n = None) \<and>
     (\<forall>n t. db_table D n = Some t \<longrightarrow> 
        td_name (t_def t) = n \<and> (\<exists>m. c_tables A n = Some (t_def t, m) \<and> table_ok t h m \<and> plain_rows m)) \<and>
     (\<forall>n n' t t'. db_table D n = Some t \<longrightarrow> db_table D n' = Some t' \<longrightarrow> n \<noteq> n' \<longrightarrow> owned t \<inter> owned t' = {})"

lemma db_okD:
  assumes "db_ok D h A"
  shows "holds (d_pool D) h" "d_databases D = c_databases A" "db_table D n = None \<longleftrightarrow> c_tables A n = None"
    "db_table D n = Some t \<Longrightarrow> \<exists>m. c_tables A n = Some (t_def t, m) \<and> table_ok t h m \<and> plain_rows m"
    "db_table D n = Some t \<Longrightarrow> db_table D n' = Some t' \<Longrightarrow> n \<noteq> n' \<Longrightarrow> owned t \<inter> owned t' = {}"
    "names_sorted (d_tables D)" "db_table D n = Some t \<Longrightarrow> td_name (t_def t) = n"
  using assms unfolding db_ok_def by blast+

lemma db_okI:
  assumes "holds (d_pool D) h" "d_databases D = c_databases A" "names_sorted (d_tables D)"
    "\<And>n. db_table D n = None \<longleftrightarrow> c_tables A n = None"
    "\<And>n t. db_table D n = Some t \<Longrightarrow> td_name (t_def t) = n \<and> (\<exists>m. c_tables A n = Some (t_def t, m) \<and> table_ok t h m \<and> plain_rows m)"
    "\<And>n n' t t'. db_table D n = Some t \<Longrightarrow> db_table D n' = Some t' \<Longrightarrow> n \<noteq> n' \<Longrightarrow> owned t \<inter> owned t' = {}"
  shows "db_ok D h A"
  using assms unfolding db_ok_def by blast

section \<open>What one table's operations leave to the others\<close>

lemma table_ok_frame:
  assumes ok: "table_ok t h m" and h: "\<And>l. l \<in> owned t \<Longrightarrow> h' l = h l"
  shows "table_ok t h' m"
proof -
  note R = table_okD(1) [OF ok]
  have "stored_as t h' raw x" if ab: "abs_map (t_tree t) key = Some raw" and st: "stored_as t h raw x" for key raw x
  proof (cases "is_locator raw")
    case True
    then obtain l where l: "raw = locator_encode l" "h l = Some x" "t_pool t" using st by (auto simp: stored_as_def)
    then have "h' l = Some x" using h [of l] ab by (auto simp: owned_def)
    then show ?thesis using l by (simp add: stored_as_def)
  qed (use st in \<open>simp add: stored_as_def\<close>)
  then have "\<exists>raw. abs_map (t_tree t) key = Some raw \<and> stored_as t h' raw (encode_row r)" if "m key = Some r" for key r
    using rows_okD(5) [OF R that] by blast
  then have "rows_ok t h' m" using R unfolding rows_ok_def by simp
  then show ?thesis using ok by (simp add: table_ok_def)
qed

lemma owned_dom: "table_ok t h m \<Longrightarrow> owned t \<subseteq> dom h"
  using owned_holds [OF table_okD(1)] by (fastforce simp: owned_def)

lemma row_ok_fewer: "row_ok t r \<Longrightarrow> set xs \<subseteq> set (t_indexes t) \<Longrightarrow> row_ok (t\<lparr>t_indexes := xs\<rparr>) r"
  by (auto simp: row_ok_def)

lemma stored_as_indexes [simp]: "stored_as (t\<lparr>t_indexes := xs\<rparr>) = stored_as t"
  by (simp add: fun_eq_iff stored_as_def)

lemma table_ok_fewer:
  assumes "table_ok t h m" "set xs \<subseteq> set (t_indexes t)"
  shows "table_ok (t\<lparr>t_indexes := xs\<rparr>) h m"
  using assms row_ok_fewer [OF _ assms(2)] unfolding table_ok_def rows_ok_def
  by auto

lemma owned_indexes [simp]: "owned (t\<lparr>t_indexes := xs\<rparr>) = owned t"
  by (simp add: owned_def)

lemma db_ok_set:
  assumes ok: "db_ok D h A" and t: "db_table D n = Some t"
    and h': "holds p' h'" "frames_others t t' h h'" and t': "t_def t' = t_def t" "table_ok t' h' m'" "plain_rows m'"
  shows "db_ok (set_table n t' p' D) h' (A\<lparr>c_tables := (c_tables A)(n \<mapsto> (t_def t, m'))\<rparr>)"
proof -
  let ?D = "set_table n t' p' D"
  have tab: "map_of (d_tables ?D) = (map_of (d_tables D))(n \<mapsto> t')" by (simp add: set_table_def map_put_lookup)
  from db_okD(4) [OF ok t] obtain m where m: "table_ok t h m" by blast
  have other: "table_ok u h' mu" "owned t' \<inter> owned u = {}" if "db_table D k = Some u" "k \<noteq> n" "table_ok u h mu" for k u mu
  proof -
    have d: "owned t \<inter> owned u = {}" using db_okD(5) [OF ok t that(1)] that(2) by blast
    have "h' l = h l" if "l \<in> owned u" for l
      using h'(2) d that owned_dom [OF \<open>table_ok u h mu\<close>] unfolding frames_others_def by blast
    from table_ok_frame [OF that(3) this] show "table_ok u h' mu" .
    show "owned t' \<inter> owned u = {}" using h'(2) d owned_dom [OF \<open>table_ok u h mu\<close>] unfolding frames_others_def by blast
  qed
  have sorted: "names_sorted (d_tables ?D)" using map_put_sorted [OF db_okD(6) [OF ok]] by (simp add: set_table_def)
  have names: "td_name (t_def u) = k" if "map_of (d_tables ?D) k = Some u" for k u
    using that db_okD(7) [OF ok] t t'(1) by (auto simp: tab split: if_splits)
  have 1: "\<exists>m. (if k = n then Some (t_def t, m') else c_tables A k) = Some (t_def u, m) \<and> table_ok u h' m \<and> plain_rows m"
    if u: "map_of (d_tables ?D) k = Some u" for k u
  proof (cases "k = n")
    case True
    then show ?thesis using u t' by (simp add: tab)
  next
    case False
    then have "db_table D k = Some u" using u by (simp add: tab)
    from db_okD(4) [OF ok this] other(1) [OF this False] False show ?thesis by auto
  qed
  have 2: "owned u \<inter> owned u' = {}" if u: "map_of (d_tables ?D) k = Some u" "map_of (d_tables ?D) k' = Some u'" "k \<noteq> k'" for k k' u u'
  proof -
    consider "k = n" | "k' = n" | "k \<noteq> n" "k' \<noteq> n" by blast
    then show ?thesis
    proof cases
      case 1
      then have "db_table D k' = Some u'" "u = t'" using u unfolding tab by simp_all
      then show ?thesis using other(2) [of k' u'] 1 u(3) db_okD(4) [OF ok, of k' u'] by blast
    next
      case 2
      then have "db_table D k = Some u" "u' = t'" using u unfolding tab by simp_all
      then show ?thesis using other(2) [of k u] 2 u(3) db_okD(4) [OF ok, of k u] by blast
    next
      case 3
      then show ?thesis using u db_okD(5) [OF ok, of k u k' u'] by (simp add: tab)
    qed
  qed
  have 3: "(map_of (d_tables ?D) k = None) = ((if k = n then Some (t_def t, m') else c_tables A k) = None)" for k
    using db_okD(3) [OF ok, of k] by (simp add: tab)
  have 4: "d_databases ?D = c_databases A" "d_pool ?D = p'" using db_okD(2) [OF ok] by (simp_all add: set_table_def)
  show ?thesis unfolding db_ok_def contents.simps fun_upd_apply 4 using h'(1) 1 2 3 sorted names by simp
qed

lemma map_of_filter_key: "map_of (filter (\<lambda>e. P (fst e)) xs) k = (if P k then map_of xs k else None)"
  by (induction xs) auto

lemma db_ok_restrict:
  assumes "db_ok D h A"
  shows "db_ok (D\<lparr>d_databases := S, d_tables := filter (\<lambda>e. P (fst e)) (d_tables D)\<rparr>) h
    (A\<lparr>c_databases := S, c_tables := (\<lambda>n. if P n then c_tables A n else None)\<rparr>)"
  using assms unfolding db_ok_def by (simp add: map_of_filter_key names_sorted_def sorted_wrt_filter)

lemma db_ok_new:
  assumes ok: "db_ok D h A" and n: "db_table D n = None"
    and t: "t_def t = d" "td_name d = n" "table_ok t h m" "plain_rows m" and fr: "\<And>k u. db_table D k = Some u \<Longrightarrow> owned t \<inter> owned u = {}"
  shows "db_ok (D\<lparr>d_tables := map_put n t (d_tables D)\<rparr>) h (A\<lparr>c_tables := (c_tables A)(n \<mapsto> (d, m))\<rparr>)"
proof -
  have tab: "map_of (map_put n t (d_tables D)) = (map_of (d_tables D))(n \<mapsto> t)" by (rule map_put_lookup)
  show ?thesis using ok t fr map_put_sorted [OF db_okD(6) [OF ok]] unfolding db_ok_def
    by (simp add: tab) (auto simp: Int_commute)
qed

lemma plain_upd: "plain_rows m \<Longrightarrow> list_all sec_ok r \<Longrightarrow> plain_rows (m(k \<mapsto> r))" "plain_rows m \<Longrightarrow> plain_rows (m(k := None))" "plain_rows Map.empty"
  by (auto simp: plain_rows_def ran_def)

lemma good_row_ok:
  assumes "table_ok t h m" "good_row (t_def t) r"
  shows "row_ok t r"
proof -
  have "si_col x < length r \<and> sec_ok (r ! si_col x)" if "x \<in> set (t_indexes t)" for x
  proof -
    have "si_col x < length r" using table_okD(2) [OF assms(1) that] assms(2) by (simp add: Table_Store.index_ok_def good_row_def)
    then show ?thesis using assms(2) by (simp add: good_row_def list_all_length)
  qed
  then show ?thesis using assms(2) by (simp add: row_ok_def good_row_def)
qed

lemma row_from_Some: "row_from d bs = Some r \<Longrightarrow> bs = encode_row r \<and> good_row d r"
  by (auto simp: row_from_def split: sum.splits if_splits)

lemma frames_same: "owned t' = owned t \<Longrightarrow> frames_others t t' h h"
  by (simp add: frames_others_def)

text \<open>Building an index, whether it succeeds or not, keeps the rows.\<close>

lemma add_index_any:
  assumes ok: "table_ok t h m" "plain_rows m" and p: "holds p h" and run: "add_index name column t p = Some (t', p', res)"
  shows "holds p' h \<and> table_ok t' h m \<and> owned t' = owned t \<and> t_def t' = t_def t \<and> t_auto_inc t' = t_auto_inc t"
proof (cases res)
  case (Inl e)
  from scan_law [OF ok(1) p] obtain ks p1 where
    sc: "scan t p = Some (p1, Inr (map (\<lambda>k. (pk_of t (the (m k)), the (m k))) ks))" "holds p1 h" by blast
  have "t' = t \<and> (p' = p \<or> p' = p1)" using run sc(1) unfolding add_index_def Inl
    by (auto simp: bind_eq_Some_conv split: option.splits if_splits sum.splits) (metis (full_types) old.sum.exhaust old.unit.exhaust)+
  then show ?thesis using ok p sc(2) by auto
next
  case (Inr u)
  obtain col where col: "index_of (td_schema (t_def t)) column = Some col"
    using run unfolding add_index_def Inr by (auto split: option.splits)
  have "sec_ok (r ! col)" if "m k = Some r" for k r
  proof -
    have "col < length r" using rows_okD(3) [OF table_okD(1) [OF ok(1)] that] index_of_width [OF col] by (simp add: row_ok_def)
    then show ?thesis using ok(2) ranI [of m k r] that by (simp add: plain_rows_def list_all_length)
  qed
  moreover have "t_tree t' = t_tree t" "t_def t' = t_def t" "t_auto_inc t' = t_auto_inc t"
    using run unfolding add_index_def Inr by (auto simp: bind_eq_Some_conv sum.case_eq_if split: option.splits if_splits)
  ultimately show ?thesis using add_index_law [OF ok(1) p col, of name t' p'] run by (simp add: owned_def Inr)
qed

section \<open>Redo of one record\<close>

lemma apply_record_law:
  assumes ok: "db_ok D h A" and f: "fits A rec" and run: "apply_record rec D = Some (D', Inr ())"
  shows "\<exists>h'. db_ok D' h' (spec_record rec A)"
proof (cases rec)
  case (Put x n key bs)
  show ?thesis
  proof (cases "db_table D n")
    case None
    then show ?thesis using ok run Put db_okD(3) [OF ok, of n] by (auto simp: apply_record_def put_row_in_def)
  next
    case (Some t)
    from db_okD(4) [OF ok Some] obtain m where m: "c_tables A n = Some (t_def t, m)" "table_ok t h m" "plain_rows m" by blast
    from f Put m(1) obtain r where r: "row_from (t_def t) bs = Some r" "encode_key (pk_of t r) = Inr key" by (auto split: option.splits)
    note g = row_from_Some [OF r(1)]
    from run Put Some obtain t' p' where a: "apply_raw key bs t (d_pool D) = Some (t', p', Inr ())" "D' = set_table n t' p' D"
      by (auto simp: apply_record_def)
    from apply_raw_law [OF m(2) db_okD(1) [OF ok] good_row_ok [OF m(2)] r(2), of t' p' "Inr ()"] g a(1) obtain h' where
      h': "holds p' h'" "frames_others t t' h h'" "same_shape t t'" "table_ok t' h' (m(key \<mapsto> r))" by auto
    have "plain_rows (m(key \<mapsto> r))" using plain_upd(1) m(3) g by (simp add: good_row_def)
    from db_ok_set [OF ok Some h'(1,2) _ h'(4) this] h'(3) show ?thesis
      using Put m(1) r(1) a(2) by (auto simp: put_row_in_def same_shape_def)
  qed
next
  case (Delete x n key)
  show ?thesis
  proof (cases "db_table D n")
    case None
    then show ?thesis using ok run Delete db_okD(3) [OF ok, of n] by (auto simp: apply_record_def with_rows_def)
  next
    case (Some t)
    from db_okD(4) [OF ok Some] obtain m where m: "c_tables A n = Some (t_def t, m)" "table_ok t h m" "plain_rows m" by blast
    from remove_raw_law [OF m(2) db_okD(1) [OF ok], of key] obtain t' p' h' where
      a: "remove_raw key t (d_pool D) = Some (t', p')" and
      h': "holds p' h'" "frames_others t t' h h'" "same_shape t t'" "table_ok t' h' (m(key := None))" by blast
    have "D' = set_table n t' p' D" using run Delete Some a by (auto simp: apply_record_def)
    with db_ok_set [OF ok Some h'(1,2) _ h'(4) plain_upd(2) [OF m(3)]] h'(3) show ?thesis
      using Delete m(1) by (auto simp: with_rows_def same_shape_def)
  qed
next
  case (CreateIndex x n name column)
  show ?thesis
  proof (cases "db_table D n")
    case None
    then show ?thesis using ok run CreateIndex by (auto simp: apply_record_def)
  next
    case (Some t)
    from db_okD(4) [OF ok Some] obtain m where m: "c_tables A n = Some (t_def t, m)" "table_ok t h m" "plain_rows m" by blast
    from run CreateIndex Some obtain t' p' res where
      a: "add_index name column t (d_pool D) = Some (t', p', res)" "D' = set_table n t' p' D" by (auto simp: apply_record_def)
    note i = add_index_any [OF m(2,3) db_okD(1) [OF ok] a(1)]
    have "(c_tables A)(n \<mapsto> (t_def t, m)) = c_tables A" using m(1) by (simp add: fun_upd_idem)
    with db_ok_set [OF ok Some _ frames_same [of t' t h] _ _ m(3), of p'] i show ?thesis using CreateIndex a(2) by auto
  qed
next
  case (DropIndex x n name)
  show ?thesis
  proof (cases "db_table D n")
    case None
    then show ?thesis using ok run DropIndex by (auto simp: apply_record_def)
  next
    case (Some t)
    from db_okD(4) [OF ok Some] obtain m where m: "c_tables A n = Some (t_def t, m)" "table_ok t h m" "plain_rows m" by blast
    obtain xs where xs: "fst (drop_index name t) = t\<lparr>t_indexes := xs\<rparr>" "set xs \<subseteq> set (t_indexes t)"
    proof (cases "position (\<lambda>x. ix_name (si_def x) = name) (t_indexes t)")
      case None
      then show ?thesis using that [of "t_indexes t"] by (simp add: drop_index_def)
    next
      case (Some i)
      then show ?thesis using that [of "take i (t_indexes t) @ drop (Suc i) (t_indexes t)"]
        by (auto simp: drop_index_def dest: in_set_takeD in_set_dropD)
    qed
    have "(c_tables A)(n \<mapsto> (t_def t, m)) = c_tables A" using m(1) by (simp add: fun_upd_idem)
    with db_ok_set [OF ok Some db_okD(1) [OF ok] frames_same [of "t\<lparr>t_indexes := xs\<rparr>" t h] _ table_ok_fewer [OF m(2) xs(2)] m(3)]
    show ?thesis using run DropIndex Some xs(1) by (auto simp: apply_record_def)
  qed
next
  case (CreateTable x d)
  show ?thesis
  proof (cases "db_table D (td_name d)")
    case None
    have o: "owned (set_pool (table_new d)) = {}" using btree_new_ok by (simp add: owned_def set_pool_def table_new_def)
    have "t_def (set_pool (table_new d)) = d" by (simp add: set_pool_def table_new_def)
    from db_ok_new [OF ok None this refl table_new_law(1) plain_upd(3)] o show ?thesis
      using run CreateTable None db_okD(3) [OF ok, of "td_name d"] by (auto simp: apply_record_def)
  next
    case (Some t)
    then show ?thesis using run CreateTable ok db_okD(3) [OF ok, of "td_name d"] by (auto simp: apply_record_def)
  qed
next
  case (DropDatabase x name)
  have "(\<lambda>n. if \<not> prefix (name @ ''.'') n then c_tables A n else None) = (\<lambda>n. if prefix (name @ ''.'') n then None else c_tables A n)" by auto
  then show ?thesis
    using DropDatabase run db_ok_restrict [OF ok, of "\<lambda>n. \<not> prefix (name @ ''.'') n" "d_databases D - {name}"] db_okD(2) [OF ok]
    by (auto simp: apply_record_def)
next
  case (DropTable x name)
  have "A\<lparr>c_databases := d_databases D, c_tables := (\<lambda>n. if n \<noteq> name then c_tables A n else None)\<rparr> = A\<lparr>c_tables := (c_tables A)(name := None)\<rparr>"
    using db_okD(2) [OF ok] by (simp add: fun_upd_def if_distrib [of Not] cong: if_cong) (auto simp: fun_eq_iff)
  moreover have "D' = D\<lparr>d_databases := d_databases D, d_tables := filter (\<lambda>e. fst e \<noteq> name) (d_tables D)\<rparr>"
    using DropTable run by (simp add: apply_record_def)
  ultimately show ?thesis using DropTable db_ok_restrict [OF ok, of "\<lambda>n. n \<noteq> name" "d_databases D"] by auto
next
  case (CreateDatabase x name)
  then show ?thesis
    using run db_ok_restrict [OF ok, of "\<lambda>_. True" "insert name (d_databases D)"] db_okD(2) [OF ok]
    by (auto simp: apply_record_def)
next
  case (Commit x ts)
  then show ?thesis using run ok by (auto simp: apply_record_def)
qed

lemma apply_records_law:
  "db_ok D h A \<Longrightarrow> all_fit A rl \<Longrightarrow> apply_records rl D = Some (D', Inr ()) \<Longrightarrow> \<exists>h'. db_ok D' h' (fold spec_record rl A)"
proof (induction rl arbitrary: D h A)
  case (Cons rec rl)
  from Cons.prems(3) obtain D1 where D1: "apply_record rec D = Some (D1, Inr ())" "apply_records rl D1 = Some (D', Inr ())"
    by (auto split: option.splits sum.splits)
  from apply_record_law [OF Cons.prems(1) _ D1(1)] Cons.prems(2) obtain h1 where "db_ok D1 h1 (spec_record rec A)" by auto
  from Cons.IH [OF this _ D1(2)] Cons.prems(2) show ?case by simp
qed auto

section \<open>The redo loop\<close>

text \<open>The batches that redo installs, in the order of their commit records.\<close>

fun commits :: "(u64 \<rightharpoonup> wal_record list) \<Rightarrow> wal_record list \<Rightarrow> wal_record list list" where
  "commits pending [] = []"
| "commits pending (rec # rl) =
     (case rec of
        Commit x _ \<Rightarrow> (case pending x of None \<Rightarrow> commits pending rl | Some b \<Rightarrow> b # commits (pending(x := None)) rl)
      | _ \<Rightarrow> commits (buffer_record rec pending) rl)"

lemma apply_records_append:
  "apply_records (xs @ ys) D =
     (case apply_records xs D of None \<Rightarrow> None | Some (D, Inl e) \<Rightarrow> Some (D, Inl e) | Some (D, Inr _) \<Rightarrow> apply_records ys D)"
  by (induction xs arbitrary: D) (auto split: option.splits sum.splits)

lemma redo_commits: "redo pending rl D = apply_records (concat (commits pending rl)) D"
proof (induction rl arbitrary: pending D)
  case (Cons rec rl)
  show ?case
  proof (cases rec)
    case (Commit x ts)
    show ?thesis
    proof (cases "pending x")
      case None
      then show ?thesis using Cons.IH [of pending D] Commit by simp
    next
      case (Some b)
      then show ?thesis unfolding Commit by (simp add: apply_records_append Cons.IH fun_upd_def split: option.split sum.split)
    qed
  qed (simp_all add: Cons.IH)
qed simp

text \<open>A transaction in the log: its records, then its commit record.\<close>

type_synonym txn = "u64 \<times> u64 option \<times> wal_record list"

definition txn_log :: "txn \<Rightarrow> wal_record list" where
  "txn_log x = snd (snd x) @ [Commit (fst x) (fst (snd x))]"

definition is_commit :: "wal_record \<Rightarrow> bool" where
  "is_commit rec = (case rec of Commit _ _ \<Rightarrow> True | _ \<Rightarrow> False)"

definition txn_ok :: "txn \<Rightarrow> bool" where
  "txn_ok x \<longleftrightarrow> (\<forall>rec \<in> set (snd (snd x)). txn_of rec = fst x \<and> \<not> is_commit rec)"

abbreviation writes_of :: "txn list \<Rightarrow> wal_record list" where
  "writes_of xs \<equiv> concat (map (\<lambda>x. snd (snd x)) xs)"

lemma commits_buffer: "\<not> is_commit rec \<Longrightarrow> commits pending (rec # rl) = commits (buffer_record rec pending) rl"
  by (cases rec) (simp_all add: is_commit_def)

lemma commits_commit:
  "commits pending (Commit x ts # rl) = (case pending x of None \<Rightarrow> commits pending rl | Some b \<Rightarrow> b # commits (pending(x := None)) rl)"
  by simp

declare commits.simps(2) [simp del]

lemma commits_body:
  assumes "\<forall>rec \<in> set body. txn_of rec = x \<and> \<not> is_commit rec" "body \<noteq> []"
  shows "commits pending (body @ rl) = commits (pending(x \<mapsto> (case pending x of None \<Rightarrow> [] | Some b \<Rightarrow> b) @ body)) rl"
  using assms
proof (induction body arbitrary: pending)
  case (Cons rec body)
  have 1: "commits pending ((rec # body) @ rl) = commits (buffer_record rec pending) (body @ rl)"
    using Cons.prems by (simp add: commits_buffer)
  show ?case
  proof (cases "body = []")
    case True
    then show ?thesis using 1 Cons.prems by (simp add: buffer_record_def fun_upd_def)
  next
    case False
    have e: "(buffer_record rec pending)(x \<mapsto> (case buffer_record rec pending x of None \<Rightarrow> [] | Some b \<Rightarrow> b) @ body) =
      pending(x \<mapsto> (case pending x of None \<Rightarrow> [] | Some b \<Rightarrow> b) @ rec # body)"
      using Cons.prems(1) by (simp add: buffer_record_def fun_eq_iff)
    from Cons.IH [OF _ False, of "buffer_record rec pending"] Cons.prems(1) show ?thesis unfolding 1 e by simp
  qed
qed simp

lemma commits_open: "\<forall>rec \<in> set rl. \<not> is_commit rec \<Longrightarrow> commits pending rl = []"
  by (induction rl arbitrary: pending) (simp_all add: commits_buffer)

lemma commits_txns:
  "list_all txn_ok xs \<Longrightarrow> concat (commits Map.empty (concat (map txn_log xs) @ rl)) = writes_of xs @ concat (commits Map.empty rl)"
proof (induction xs)
  case (Cons x xs)
  let ?rest = "concat (map txn_log xs) @ rl"
  have "concat (commits Map.empty (txn_log x @ ?rest)) = snd (snd x) @ concat (commits Map.empty ?rest)"
  proof (cases "snd (snd x) = []")
    case False
    have ok: "\<forall>rec \<in> set (snd (snd x)). txn_of rec = fst x \<and> \<not> is_commit rec" using Cons.prems by (simp add: txn_ok_def)
    show ?thesis using commits_body [OF ok False, of Map.empty "Commit (fst x) (fst (snd x)) # ?rest"] by (simp add: txn_log_def commits_commit)
  qed (simp add: txn_log_def commits_commit)
  with Cons show ?case by simp
qed simp

text \<open>Cutting a log of transactions leaves whole transactions and writes without their commit.\<close>

lemma cut_txns:
  assumes "list_all txn_ok xs"
  shows "\<exists>n t. n \<le> length xs \<and> take k (concat (map txn_log xs)) = concat (map txn_log (take n xs)) @ t \<and>
    (\<forall>rec \<in> set t. \<not> is_commit rec) \<and> (\<forall>j \<le> length xs. length (concat (map txn_log (take j xs))) \<le> k \<longrightarrow> j \<le> n)"
  using assms
proof (induction xs arbitrary: k)
  case (Cons x xs)
  show ?case
  proof (cases "length (txn_log x) \<le> k")
    case True
    from Cons.IH [of "k - length (txn_log x)"] Cons.prems obtain n t where n: "n \<le> length xs"
      "take (k - length (txn_log x)) (concat (map txn_log xs)) = concat (map txn_log (take n xs)) @ t" "\<forall>rec \<in> set t. \<not> is_commit rec"
      "\<forall>j \<le> length xs. length (concat (map txn_log (take j xs))) \<le> k - length (txn_log x) \<longrightarrow> j \<le> n" by auto
    have "j \<le> Suc n" if "j \<le> length (x # xs)" "length (concat (map txn_log (take j (x # xs)))) \<le> k" for j
      using that n(4) by (cases j) auto
    then show ?thesis using n True by (intro exI [of _ "Suc n"] exI [of _ t]) auto
  next
    case False
    then have t: "take k (concat (map txn_log (x # xs))) = take k (snd (snd x))" by (simp add: txn_log_def)
    have "\<forall>rec \<in> set (take k (snd (snd x))). \<not> is_commit rec" using Cons.prems by (auto simp: txn_ok_def dest: in_set_takeD)
    moreover have "j = 0" if "length (concat (map txn_log (take j (x # xs)))) \<le> k" for j using that False by (cases j) auto
    ultimately show ?thesis using t by (intro exI [of _ 0] exI [of _ "take k (snd (snd x))"]) auto
  qed
qed simp

definition reread_txn :: "txn \<Rightarrow> txn" where
  "reread_txn x = (fst x, fst (snd x), map reread_record (snd (snd x)))"

lemma reread_txn_log: "map reread_record (concat (map txn_log xs)) = concat (map txn_log (map reread_txn xs))"
  by (induction xs) (simp_all add: txn_log_def reread_txn_def)

lemma reread_keeps: "txn_of (reread_record rec) = txn_of rec" "is_commit (reread_record rec) = is_commit rec"
  by (cases rec; simp add: is_commit_def)+

lemma reread_txn_ok: "txn_ok x \<Longrightarrow> txn_ok (reread_txn x)"
  by (simp add: txn_ok_def reread_txn_def reread_keeps)

lemma reread_writes: "writes_of (map reread_txn xs) = map reread_record (writes_of xs)"
  by (induction xs) (simp_all add: reread_txn_def)

lemma take_writes: "all_fit A (map f (writes_of xs)) \<Longrightarrow> all_fit A (map f (writes_of (take n xs)))"
  using all_fit_append [of A "map f (writes_of (take n xs))" "map f (writes_of (drop n xs))"]
  by (metis append_take_drop_id concat_append map_append)

lemma redo_cut:
  assumes xs: "list_all txn_ok xs" and fr: "list_all frame_ok (concat (map txn_log xs))"
    and f: "prefix f (wal_header @ encode_all (concat (map txn_log xs)))"
    and n: "n \<le> length xs" "length (wal_header @ encode_all (concat (map txn_log (take n xs)))) \<le> length f"
  shows "\<exists>k rl. n \<le> k \<and> k \<le> length xs \<and> read_all f = Inr rl \<and>
    (\<forall>D. redo Map.empty rl D = apply_records (map reread_record (writes_of (take k xs))) D)"
proof -
  let ?all = "concat (map txn_log xs)" and ?j = "length (concat (map txn_log (take n xs)))"
  have pre: "take ?j ?all = concat (map txn_log (take n xs))" "?j \<le> length ?all"
    using arg_cong [where f = "\<lambda>ys. concat (map txn_log ys)", OF append_take_drop_id [of n xs]]
    by (metis append_eq_conv_conj concat_append map_append, metis concat_append length_append le_add1 map_append)
  from read_survivor [OF fr f _ pre(2)] n(2) pre(1) obtain q where
    q: "?j \<le> q" "read_all f = Inr (map reread_record (take q ?all))" by auto
  from cut_txns [OF xs, of q] obtain k t where k: "k \<le> length xs" "take q ?all = concat (map txn_log (take k xs)) @ t"
    "\<forall>rec \<in> set t. \<not> is_commit rec" "\<forall>j \<le> length xs. length (concat (map txn_log (take j xs))) \<le> q \<longrightarrow> j \<le> k" by blast
  have "list_all txn_ok (map reread_txn (take k xs))" using xs reread_txn_ok by (auto simp: list_all_iff dest: in_set_takeD)
  moreover have "\<forall>rec \<in> set (map reread_record t). \<not> is_commit rec" using k(3) reread_keeps(2) by simp
  ultimately have "concat (commits Map.empty (map reread_record (take q ?all))) = map reread_record (writes_of (take k xs))"
    unfolding k(2) map_append reread_txn_log using commits_txns [of "map reread_txn (take k xs)" "map reread_record t"]
    by (simp only: commits_open reread_writes concat.simps append_Nil2)
  then show ?thesis using q k(1,4) n(1) by (intro exI [of _ k] exI [of _ "map reread_record (take q ?all)"]) (simp add: redo_commits)
qed

end
