(* ===== verification/Recovery_Open.thy ===== *)
theory Recovery_Open
  imports Recovery_Redo
begin

text \<open>
  Loading a snapshot and finishing \<open>open\<close>: a table restored from its image holds the rows it was taken from,
  provided the overflow values that the image refers to are still in the pool; the counters and the indexes of
  foreign keys are rebuilt over the same rows.
\<close>

section \<open>Restoring one row\<close>

lemma rows_restore:
  assumes ok: "rows_ok t h m" and r: "row_ok t r" "encode_key (pk_of t r) = Inr key" and none: "m key = None"
    and v: "stored_as t h v (encode_row r)" "\<And>l. v = locator_encode l \<Longrightarrow> l \<notin> owned t"
    and tr: "btree_ok tr" "abs_map tr = (abs_map (t_tree t))(key \<mapsto> v)"
  shows "rows_ok (t\<lparr>t_tree := tr\<rparr>) h (m(key \<mapsto> r))"
proof (rule rows_ok_treeI)
  show "btree_ok tr" by (rule tr(1))
  show "dom (abs_map tr) = dom (m(key \<mapsto> r))" using rows_okD(2) [OF ok] tr(2) by simp
  show "row_ok t r'" if "(m(key \<mapsto> r)) k = Some r'" for k r' using that rows_okD(3) [OF ok] r(1) by (auto split: if_splits)
  show "encode_key (pk_of t r') = Inr k" if "(m(key \<mapsto> r)) k = Some r'" for k r'
    using that rows_okD(4) [OF ok] r(2) by (auto split: if_splits)
  show "\<exists>raw. abs_map tr k = Some raw \<and> stored_as t h raw (encode_row r')" if "(m(key \<mapsto> r)) k = Some r'" for k r'
    using that rows_okD(5) [OF ok] v(1) tr(2) by (auto split: if_splits)
  show "k = k'" if a: "abs_map tr k = Some (locator_encode l)" "abs_map tr k' = Some (locator_encode l)" for k k' l
    using a v(2) [of l] rows_okD(6) [OF ok, of k l k'] unfolding tr(2) owned_def by (auto split: if_splits)
qed

lemma restore_kv_law:
  assumes ok: "table_ok t h m" and p: "holds p h" and r: "row_ok t r" "encode_key (pk_of t r) = Inr key" and none: "m key = None"
    and v: "stored_as t h v (encode_row r)" "\<And>l. v = locator_encode l \<Longrightarrow> l \<notin> owned t"
    and run: "restore_kv key v t p = Some (t', p', res)"
  shows "res = Inr () \<and> holds p' h \<and> table_ok t' h (m(key \<mapsto> r)) \<and> same_shape t t' \<and>
    owned t' = owned t \<union> {l. v = locator_encode l}"
proof -
  note R = table_okD(1) [OF ok]
  from decode_stored_law [OF p v(1) r(1)] obtain p1 where p1: "decode_stored t v p = Some (p1, Inr r)" "holds p1 h" by blast
  note key = row_at(2) [OF r(1), unfolded r(2)]
  from run p1(1) key obtain prev tr where up: "tree_upsert key v (t_tree t) = Some (prev, tr)"
    by (auto simp: restore_kv_def bind_eq_Some_conv)
  from tree_upsert_law [OF rows_okD(1) [OF R] up] have tr: "btree_ok tr" "abs_map tr = (abs_map (t_tree t))(key \<mapsto> v)" by auto
  note rows = rows_restore [OF R r none v tr]
  have dec: "decode_key key = Some (Inr (pk_of t r))" "length r = width t" "key_ok (pk_of t r)"
    using decode_encode_key [OF _ r(2)] r(1) by (auto simp: row_ok_def)
  obtain xs where xs: "t' = t\<lparr>t_tree := tr, t_indexes := xs\<rparr>" "p' = p1" "res = Inr ()"
    "list_all2 (carries (width t) (pk_col t) (m(key \<mapsto> r))) (t_indexes t) xs"
  proof (cases "t_indexes t = []")
    case True
    then have "t' = t\<lparr>t_tree := tr, t_indexes := []\<rparr>" "p' = p1" "res = Inr ()"
      using run p1(1) key up by (auto simp: restore_kv_def)
    then show ?thesis using True that by simp
  next
    case False
    obtain xs where e: "each_index (index_upsert r (pk_of t r)) (t_indexes t) = Some (xs, res)"
      "t' = t\<lparr>t_tree := tr, t_indexes := xs\<rparr>" "p' = p1"
      using run p1(1) key up dec(1) False by (auto simp: restore_kv_def on_indexes_def bind_eq_Some_conv)
    from each_index_returned [OF e(1), of "carries (width t) (pk_col t) (m(key \<mapsto> r))"]
      iu.fresh_entry [OF table_okD(2) [OF ok] dec(2,3) none]
    have "res = Inr ()" "list_all2 (carries (width t) (pk_col t) (m(key \<mapsto> r))) (t_indexes t) xs" by blast+
    then show ?thesis using that e by blast
  qed
  have none': "abs_map (t_tree t) key = None" using none rows_okD(2) [OF R] by (metis domIff)
  have "owned t' = owned t \<union> {l. v = locator_encode l}"
  proof (intro set_eqI iffI)
    fix l assume "l \<in> owned t'"
    then show "l \<in> owned t \<union> {l. v = locator_encode l}" unfolding owned_def xs(1) using tr(2) by (auto split: if_splits)
  next
    fix l assume "l \<in> owned t \<union> {l. v = locator_encode l}"
    then consider k where "abs_map (t_tree t) k = Some (locator_encode l)" | "v = locator_encode l" unfolding owned_def by blast
    then show "l \<in> owned t'"
    proof cases
      case 1
      then have "k \<noteq> key" using none' by auto
      then show ?thesis unfolding owned_def xs(1) using tr(2) 1 by auto
    next
      case 2
      then show ?thesis unfolding owned_def xs(1) using tr(2) by auto
    qed
  qed
  then show ?thesis using indexes_follow [OF rows xs(4)] xs(1-3) p1(2) by simp
qed

section \<open>Restoring a table\<close>

text \<open>The entries \<open>es\<close> are an image of the rows \<open>m0\<close> over the overflow values \<open>h\<close>.\<close>

definition image_of :: "table_def \<Rightarrow> (locator \<rightharpoonup> bytes) \<Rightarrow> (key \<rightharpoonup> row) \<Rightarrow> (bytes \<times> bytes) list \<Rightarrow> bool" where
  "image_of d h m0 es \<longleftrightarrow> distinct (map fst es) \<and>
     (\<forall>(k, v) \<in> set es. \<exists>r. m0 k = Some r \<and> good_row d r \<and> encode_key (r ! pk_idx (td_schema d)) = Inr k \<and>
        (if is_locator v then \<exists>l. v = locator_encode l \<and> h l = Some (encode_row r) else v = encode_row r)) \<and>
     (\<forall>(k, v) \<in> set es. \<forall>(k', v') \<in> set es. is_locator v \<longrightarrow> v = v' \<longrightarrow> k = k')"

definition locators :: "(bytes \<times> bytes) list \<Rightarrow> locator set" where
  "locators es = {l. \<exists>k. (k, locator_encode l) \<in> set es}"

lemma image_of_Cons:
  assumes "image_of d h m0 ((k, v) # es)"
  shows "image_of d h m0 es" "k \<notin> fst ` set es" "\<And>l. v = locator_encode l \<Longrightarrow> l \<notin> locators es"
    "\<exists>r. m0 k = Some r \<and> good_row d r \<and> encode_key (r ! pk_idx (td_schema d)) = Inr k \<and>
        (if is_locator v then \<exists>l. v = locator_encode l \<and> h l = Some (encode_row r) else v = encode_row r)"
proof -
  show "image_of d h m0 es" using assms by (auto simp: image_of_def)
  show k: "k \<notin> fst ` set es" using assms by (auto simp: image_of_def)
  show "l \<notin> locators es" if "v = locator_encode l" for l
  proof
    assume "l \<in> locators es"
    then obtain k' where k': "(k', locator_encode l) \<in> set es" by (auto simp: locators_def)
    have "is_locator v" "v = locator_encode l" using that by simp_all
    with assms k' have "k = k'" unfolding image_of_def by fastforce
    then show False using k k' by force
  qed
  show "\<exists>r. m0 k = Some r \<and> good_row d r \<and> encode_key (r ! pk_idx (td_schema d)) = Inr k \<and>
        (if is_locator v then \<exists>l. v = locator_encode l \<and> h l = Some (encode_row r) else v = encode_row r)"
    using assms by (simp add: image_of_def)
qed

lemma snap_of_pair: "snap_of (k, v) = \<lparr>sr_key = Some k, sr_value = v\<rparr>"
  by (simp add: snap_of_def)

lemma restore_rows_law:
  assumes "table_ok t h m" "holds p h" "t_pool t" "image_of (t_def t) h m0 es"
    and "\<forall>k \<in> fst ` set es. m k = None" "locators es \<inter> owned t = {}"
    and "restore_rows (map snap_of es) t p = Some (t', p', res)"
  shows "res = Inr () \<and> holds p' h \<and> same_shape t t' \<and> owned t' = owned t \<union> locators es \<and>
    table_ok t' h (\<lambda>k. if k \<in> fst ` set es then m0 k else m k)"
  using assms
proof (induction es arbitrary: t m p)
  case Nil
  then show ?case by (simp add: same_shape_def locators_def)
next
  case (Cons e es)
  obtain k v where e: "e = (k, v)" by (cases e)
  note im = image_of_Cons [OF Cons.prems(4) [unfolded e]]
  from im(4) obtain r where r: "m0 k = Some r" "good_row (t_def t) r" "encode_key (pk_of t r) = Inr k"
    "if is_locator v then \<exists>l. v = locator_encode l \<and> h l = Some (encode_row r) else v = encode_row r" by blast
  have st: "stored_as t h v (encode_row r)" using r(4) Cons.prems(3) by (auto simp: stored_as_def)
  have fresh: "l \<notin> owned t" if "v = locator_encode l" for l
    using Cons.prems(6) that by (auto simp: locators_def e)
  have none: "m k = None" using Cons.prems(5) by (simp add: e)
  obtain t1 p1 res1 where kv: "restore_kv k v t p = Some (t1, p1, res1)"
    using Cons.prems(7) by (auto simp: e snap_of_pair split: option.splits)
  note l = restore_kv_law [OF Cons.prems(1,2) good_row_ok [OF Cons.prems(1) r(2)] r(3) none st fresh kv]
  have rest: "restore_rows (map snap_of es) t1 p1 = Some (t', p', res)" using Cons.prems(7) kv l by (simp add: e snap_of_pair)
  have t1: "t_pool t1" "t_def t1 = t_def t" using l Cons.prems(3) by (simp_all add: same_shape_def)
  have dis: "locators es \<inter> owned t1 = {}" using l im(3) Cons.prems(6) by (auto simp: e locators_def)
  have absent: "\<forall>k' \<in> fst ` set es. (m(k \<mapsto> r)) k' = None" using im(2) Cons.prems(5) by (auto simp: e)
  have im1: "image_of (t_def t1) h m0 es" using im(1) t1(2) by simp
  have tk: "table_ok t1 h (m(k \<mapsto> r))" "holds p1 h" using l by simp_all
  from Cons.IH [OF tk t1(1) im1 absent dis rest]
  have i: "res = Inr ()" "holds p' h" "same_shape t1 t'" "owned t' = owned t1 \<union> locators es"
    "table_ok t' h (\<lambda>k'. if k' \<in> fst ` set es then m0 k' else (m(k \<mapsto> r)) k')" by simp_all
  have "(\<lambda>k'. if k' \<in> fst ` set es then m0 k' else (m(k \<mapsto> r)) k') = (\<lambda>k'. if k' \<in> fst ` set (e # es) then m0 k' else m k')"
    using r(1) by (auto simp: fun_eq_iff e)
  moreover have "owned t' = owned t \<union> locators (e # es)" using i(4) l by (auto simp: e locators_def)
  ultimately show ?case using i same_shape_trans l by metis
qed


section \<open>Restoring the tables\<close>

lemma entries_image:
  assumes ok: "table_ok t h m" "plain_rows m" and es: "scan_all (t_tree t) = Some es"
    and d: "length (columns (td_schema d)) = width t" "pk_idx (td_schema d) = pk_col t"
  shows "image_of d h m es" "fst ` set es = dom m" "locators es = owned t"
proof -
  note R = table_okD(1) [OF ok(1)]
  have "in_scan None True None True = (\<lambda>_. True)" by (simp add: fun_eq_iff in_scan_def before_start_def past_end_def)
  then have e: "es = ent (root (t_tree t))"
    using es unfolding scan_all_def btree_range_step [OF rows_okD(1) [OF R]] by simp
  have ent: "(k, v) \<in> set es \<longleftrightarrow> abs_map (t_tree t) k = Some v" for k v
    using ent_abs_map [OF rows_okD(1) [OF R]] e by auto
  have dist: "distinct (map fst es)" using ent_abs_map(1) [OF rows_okD(1) [OF R]] e by (simp add: strict_sorted_iff)
  have row: "\<exists>r. m k = Some r \<and> good_row d r \<and> encode_key (r ! pk_idx (td_schema d)) = Inr k \<and>
      (if is_locator v then \<exists>l. v = locator_encode l \<and> h l = Some (encode_row r) else v = encode_row r)" if kv: "(k, v) \<in> set es" for k v
  proof -
    from old_value [OF R, of k v] kv obtain r where r: "m k = Some r" "stored_as t h v (encode_row r)" by (auto simp: ent)
    have "good_row d r" using rows_okD(3) [OF R r(1)] ok(2) ranI [of m k r] r(1) d by (simp add: good_row_def row_ok_def plain_rows_def)
    moreover have "encode_key (r ! pk_idx (td_schema d)) = Inr k" using rows_okD(4) [OF R r(1)] d(2) by simp
    ultimately show ?thesis using r by (auto simp: stored_as_def split: if_splits)
  qed
  have "k = k'" if a: "(k, v) \<in> set es" and b: "(k', v') \<in> set es" and c: "is_locator v" "v = v'" for k v k' v'
  proof -
    obtain l where "v = locator_encode l" using row [OF a] c(1) by auto
    then show ?thesis using a b c rows_okD(6) [OF R, of k l k'] by (auto simp: ent)
  qed
  moreover have "\<forall>(k, v) \<in> set es. \<exists>r. m k = Some r \<and> good_row d r \<and> encode_key (r ! pk_idx (td_schema d)) = Inr k \<and>
      (if is_locator v then \<exists>l. v = locator_encode l \<and> h l = Some (encode_row r) else v = encode_row r)"
    by (rule ballI, simp only: split_paired_all prod.case, rule row)
  ultimately show "image_of d h m es" using dist unfolding image_of_def by blast
  show "fst ` set es = dom m" using ent_dom [OF rows_okD(1) [OF R]] rows_okD(2) [OF R] e by simp
  show "locators es = owned t" by (simp add: locators_def owned_def ent)
qed

text \<open>The contents a snapshot of \<open>D\<close> gives back: the same rows, the definitions as the codec rereads them.\<close>

definition reloaded :: "string list \<Rightarrow> dbase \<Rightarrow> contents \<Rightarrow> contents" where
  "reloaded dbs D A =
     \<lparr>c_databases = {''default''} \<union> set dbs \<union> {n. \<exists>k \<in> fst ` set (d_tables D). db_prefix k = Some n},
      c_tables = (\<lambda>k. case (db_table D k, c_tables A k) of
        (Some t, Some (d, m)) \<Rightarrow> Some (reread_def (table_def_of t), m) | _ \<Rightarrow> None)\<rparr>"

lemma reread_shape:
  "length (columns (td_schema (reread_def (table_def_of t)))) = width t" "pk_idx (td_schema (reread_def (table_def_of t))) = pk_col t"
  "td_name (reread_def (table_def_of t)) = td_name (t_def t)"
  by (simp_all add: reread_def_def table_def_of_def)


lemma db_ok_pool: "db_ok D h A \<Longrightarrow> holds p h \<Longrightarrow> db_ok (D\<lparr>d_pool := p\<rparr>) h A"
  by (simp add: db_ok_def)

lemma db_ok_databases: "db_ok D h A \<Longrightarrow> db_ok (D\<lparr>d_databases := S\<rparr>) h (A\<lparr>c_databases := S\<rparr>)"
  by (simp add: db_ok_def)

lemma snap_table_pair: "snap_table (d, es) = (reread_def d, map snap_of es)"
  by (simp add: snap_table_def)

definition prefixes :: "string set \<Rightarrow> string set" where
  "prefixes K = {n. \<exists>k \<in> K. db_prefix k = Some n}"

text \<open>The tables \<open>ts\<close> with the rows \<open>M\<close>, none of which is in \<open>D\<close> yet.\<close>

definition sources :: "(string \<times> table) list \<Rightarrow> (locator \<rightharpoonup> bytes) \<Rightarrow> (string \<Rightarrow> key \<rightharpoonup> row) \<Rightarrow> dbase \<Rightarrow> bool" where
  "sources ts h M D \<longleftrightarrow> distinct (map fst ts) \<and>
     (\<forall>n t. (n, t) \<in> set ts \<longrightarrow> td_name (t_def t) = n \<and> table_ok t h (M n) \<and> plain_rows (M n) \<and> db_table D n = None \<and>
        (\<forall>k u. db_table D k = Some u \<longrightarrow> owned t \<inter> owned u = {})) \<and>
     (\<forall>n t n' t'. (n, t) \<in> set ts \<longrightarrow> (n', t') \<in> set ts \<longrightarrow> n \<noteq> n' \<longrightarrow> owned t \<inter> owned t' = {})"

lemma sourcesD:
  assumes "sources ts h M D"
  shows "distinct (map fst ts)" "(n, t) \<in> set ts \<Longrightarrow> td_name (t_def t) = n" "(n, t) \<in> set ts \<Longrightarrow> table_ok t h (M n)"
    "(n, t) \<in> set ts \<Longrightarrow> plain_rows (M n)" "(n, t) \<in> set ts \<Longrightarrow> db_table D n = None"
    "(n, t) \<in> set ts \<Longrightarrow> db_table D k = Some u \<Longrightarrow> owned t \<inter> owned u = {}"
    "(n, t) \<in> set ts \<Longrightarrow> (n', t') \<in> set ts \<Longrightarrow> n \<noteq> n' \<Longrightarrow> owned t \<inter> owned t' = {}"
  using assms unfolding sources_def by blast+

lemma sources_step:
  assumes src: "sources ((n, t) # ts) h M D" and D': "\<And>k. db_table D' k = (if k = n then Some t' else db_table D k)"
    and o: "owned t' = owned t"
  shows "sources ts h M D'"
proof -
  have ne: "n' \<noteq> n" if "(n', u) \<in> set ts" for n' u using sourcesD(1) [OF src] that by force
  have "db_table D' n' = None" if "(n', u) \<in> set ts" for n' u
    using sourcesD(5) [OF src, of n' u] ne [OF that] that by (simp add: D')
  moreover have "owned u \<inter> owned v = {}" if "(n', u) \<in> set ts" "db_table D' k = Some v" for n' u k v
    using sourcesD(6) [OF src, of n' u k v] sourcesD(7) [OF src, of n' u n t] ne [OF that(1)] that o by (auto simp: D' split: if_splits)
  moreover have "distinct (map fst ts)" using sourcesD(1) [OF src] by simp
  ultimately show ?thesis using sourcesD(2,3,4,7) [OF src] unfolding sources_def by (metis list.set_intros(2))
qed

lemma restore_table_law:
  assumes p: "holds p h" and t: "table_ok t h m" "plain_rows m" and es: "scan_all (t_tree t) = Some es"
    and run: "restore_rows (map snap_of es) (set_pool (table_new (reread_def (table_def_of t)))) p = Some (t', p', res)"
  shows "res = Inr () \<and> holds p' h \<and> table_ok t' h m \<and> t_def t' = reread_def (table_def_of t) \<and> owned t' = owned t"
proof -
  let ?d = "reread_def (table_def_of t)"
  let ?t = "set_pool (table_new ?d)"
  have d: "t_def ?t = ?d" "t_pool ?t" by (simp_all add: set_pool_def table_new_def)
  have o: "owned ?t = {}" using btree_new_ok by (simp add: owned_def set_pool_def table_new_def)
  note im = entries_image [OF t es reread_shape(1,2)]
  have "image_of (t_def ?t) h m es" using im(1) d(1) by simp
  from restore_rows_law [OF table_new_law(1) p d(2) this _ _ run] o im(2,3)
  have r: "res = Inr ()" "holds p' h" "same_shape ?t t'" "owned t' = owned t" "table_ok t' h (\<lambda>k. if k \<in> dom m then m k else None)"
    by simp_all
  moreover have "(\<lambda>k. if k \<in> dom m then m k else None) = m" by (auto simp: fun_eq_iff domIff)
  ultimately show ?thesis using d(1) by (simp add: same_shape_def)
qed

lemma restore_tables_law:
  "db_ok D h \<lparr>c_databases = S, c_tables = T\<rparr> \<Longrightarrow> sources ts h M D \<Longrightarrow> table_images ts = Some imgs \<Longrightarrow> restore_tables (map snap_table imgs) D = Some (R, res) \<Longrightarrow>
   res = Inr () \<and> db_ok R h \<lparr>c_databases = S \<union> prefixes (fst ` set ts),
     c_tables = (\<lambda>k. case map_of ts k of Some t \<Rightarrow> Some (reread_def (table_def_of t), M k) | None \<Rightarrow> T k)\<rparr>"
proof (induction ts arbitrary: D S T imgs)
  case Nil
  then show ?case by (simp add: prefixes_def)
next
  case (Cons e ts)
  obtain n t where e: "e = (n, t)" by (cases e)
  let ?d = "reread_def (table_def_of t)"
  from Cons.prems(3) obtain es rest where im: "scan_all (t_tree t) = Some es" "table_images ts = Some rest" "imgs = (table_def_of t, es) # rest"
    by (auto simp: e bind_eq_Some_conv)
  have t: "td_name (t_def t) = n" "table_ok t h (M n)" "plain_rows (M n)" "db_table D n = None" and dis: "\<And>k u. db_table D k = Some u \<Longrightarrow> owned t \<inter> owned u = {}"
    using sourcesD(2-6) [OF Cons.prems(2), of n t] by (simp_all add: e)
  have name: "td_name ?d = n" using t(1) by (simp add: reread_shape)
  let ?S = "case db_prefix n of None \<Rightarrow> d_databases D | Some x \<Rightarrow> insert x (d_databases D)"
  have S: "?S = S \<union> prefixes {n}" using db_okD(2) [OF Cons.prems(1)] by (auto simp: prefixes_def split: option.splits)
  obtain t' p' r0 where rr: "restore_rows (map snap_of es) (set_pool (table_new ?d)) (d_pool D) = Some (t', p', r0)"
    using Cons.prems(4) by (auto simp: im(3) snap_table_pair Let_def split: option.splits)
  note rt = restore_table_law [OF db_okD(1) [OF Cons.prems(1)] t(2,3) im(1) rr]
  let ?D1 = "D\<lparr>d_databases := ?S\<rparr>"
  let ?D2 = "set_table n t' p' ?D1"
  have run: "restore_tables (map snap_table rest) ?D2 = Some (R, res)"
    using Cons.prems(4) rr rt name by (simp add: im(3) snap_table_pair Let_def)
  have ok1: "db_ok ?D1 h \<lparr>c_databases = ?S, c_tables = T\<rparr>" using db_ok_databases [OF Cons.prems(1), of ?S] by simp
  have n1: "db_table ?D1 n = None" and n2: "\<And>k u. db_table ?D1 k = Some u \<Longrightarrow> owned t' \<inter> owned u = {}" using t(4) dis rt by simp_all
  have "db_ok (?D1\<lparr>d_tables := map_put n t' (d_tables ?D1)\<rparr>) h
    (\<lparr>c_databases = ?S, c_tables = T\<rparr>\<lparr>c_tables := (c_tables \<lparr>c_databases = ?S, c_tables = T\<rparr>)(n \<mapsto> (?d, M n))\<rparr>)"
    by (rule db_ok_new [OF ok1 n1 _ name _ t(3) n2]) (use rt in simp_all)
  from db_ok_pool [OF this, of p'] rt
  have ok2: "db_ok ?D2 h \<lparr>c_databases = ?S, c_tables = T(n \<mapsto> (?d, M n))\<rparr>" by (simp add: set_table_def)
  have src: "sources ts h M ?D2"
    by (rule sources_step [OF Cons.prems(2) [unfolded e], of _ t']) (use rt in \<open>simp_all add: set_table_def map_put_lookup\<close>)
  have "(\<lambda>k. case map_of ts k of Some t \<Rightarrow> Some (reread_def (table_def_of t), M k) | None \<Rightarrow> (T(n \<mapsto> (?d, M n))) k) =
      (\<lambda>k. case map_of (e # ts) k of Some t \<Rightarrow> Some (reread_def (table_def_of t), M k) | None \<Rightarrow> T k)"
  proof -
    have "map_of ts n = None" using sourcesD(1) [OF Cons.prems(2)] by (simp add: e map_of_eq_None_iff)
    then show ?thesis by (auto simp: fun_eq_iff e split: option.split)
  qed
  moreover have "?S \<union> prefixes (fst ` set ts) = S \<union> prefixes (fst ` set (e # ts))" unfolding S by (auto simp: prefixes_def e)
  ultimately show ?case using Cons.IH [OF ok2 src im(2) run] by (simp only: simp_thms)
qed

lemma sorted_distinct: "names_sorted m \<Longrightarrow> distinct (map fst m)"
proof (induction m)
  case (Cons e m)
  then show ?case by (force simp: names_sorted_def)
qed simp

lemma load_snapshot_law:
  assumes ok: "db_ok D h A" and p: "holds p h" and im: "table_images (d_tables D) = Some imgs"
    and fit: "snapshot_fits dbs imgs" and bs: "encode_snapshot dbs imgs = Inr bs" and run: "load_snapshot (Some bs) p = Some (R, res)"
  shows "res = Inr () \<and> db_ok R h (reloaded dbs D A)"
proof -
  let ?D = "\<lparr>d_databases = {''default''} \<union> set dbs, d_tables = [], d_pool = p\<rparr>"
  let ?M = "\<lambda>n. snd (the (c_tables A n))"
  have dis: "distinct (map fst (d_tables D))" using db_okD(6) [OF ok] by (rule sorted_distinct)
  have mem: "(n, t) \<in> set (d_tables D) \<longleftrightarrow> db_table D n = Some t" for n t using dis by (simp add: map_of_eq_Some_iff)
  have D: "db_ok ?D h \<lparr>c_databases = {''default''} \<union> set dbs, c_tables = Map.empty\<rparr>" using p by (simp add: db_ok_def names_sorted_def)
  have tab: "table_ok t h (?M n) \<and> plain_rows (?M n) \<and> c_tables A n = Some (t_def t, ?M n)" if "db_table D n = Some t" for n t
    using db_okD(4) [OF ok that] by auto
  have src: "sources (d_tables D) h ?M ?D" unfolding sources_def mem using dis tab db_okD(5,7) [OF ok] by simp
  have "decode_snapshot bs = Inr (dbs, map snap_table imgs)" using snapshot_law [OF fit] bs by auto
  then have "restore_tables (map snap_table imgs) ?D = Some (R, res)" using run by (simp add: load_snapshot_def)
  from restore_tables_law [OF D src im this] have r: "res = Inr ()"
    "db_ok R h \<lparr>c_databases = {''default''} \<union> set dbs \<union> prefixes (fst ` set (d_tables D)),
      c_tables = (\<lambda>k. case db_table D k of Some t \<Rightarrow> Some (reread_def (table_def_of t), ?M k) | None \<Rightarrow> None)\<rparr>" by simp_all
  have "(\<lambda>k. case db_table D k of Some t \<Rightarrow> Some (reread_def (table_def_of t), ?M k) | None \<Rightarrow> None) = c_tables (reloaded dbs D A)"
    (is "?f = ?g")
  proof
    fix k show "?f k = ?g k" using tab [of k] by (cases "db_table D k") (auto simp: reloaded_def split: option.split)
  qed
  then show ?thesis using r by (simp add: reloaded_def prefixes_def)
qed

section \<open>Counters and indexes\<close>

lemma table_ok_auto_inc [simp]: "table_ok (t\<lparr>t_auto_inc := x\<rparr>) h m = table_ok t h m" "owned (t\<lparr>t_auto_inc := x\<rparr>) = owned t"
  by (auto simp: table_ok_def rows_ok_def row_ok_def stored_as_def owned_def)

lemma refresh_any:
  assumes "table_ok t h m" "refresh_auto_inc t = Some t'"
  shows "table_ok t' h m \<and> owned t' = owned t \<and> t_def t' = t_def t \<and> counter_ok t' m"
proof (cases "t_auto_inc t")
  case None
  then show ?thesis using assms by (auto simp: refresh_auto_inc_def counter_ok_def)
next
  case (Some st)
  from refresh_law [OF assms(1) Some] assms show ?thesis by auto
qed

lemma refresh_tables_law:
  "refresh_tables ts = Some ts' \<Longrightarrow> map fst ts' = map fst ts \<and>
    (\<forall>k. rel_option (\<lambda>t t'. refresh_auto_inc t = Some t') (map_of ts k) (map_of ts' k))"
  by (induction ts arbitrary: ts' rule: refresh_tables.induct) (auto simp: bind_eq_Some_conv)

lemma names_sorted_fst:
  fixes a b :: "(string \<times> table) list"
  assumes "map fst a = map fst b"
  shows "names_sorted a = names_sorted b"
proof -
  have "names_sorted m = sorted_wrt (\<lambda>x y. str_bytes x < str_bytes y) (map fst m)" for m :: "(string \<times> table) list"
    by (simp add: names_sorted_def sorted_wrt_map)
  then show ?thesis using assms by simp
qed

definition counters_ok :: "dbase \<Rightarrow> contents \<Rightarrow> bool" where
  "counters_ok D A \<longleftrightarrow> (\<forall>n t d m. db_table D n = Some t \<longrightarrow> c_tables A n = Some (d, m) \<longrightarrow> counter_ok t m)"

lemma db_ok_refresh:
  assumes ok: "db_ok D h A" and run: "refresh_tables (d_tables D) = Some ts"
  shows "db_ok (D\<lparr>d_tables := ts\<rparr>) h A \<and> counters_ok (D\<lparr>d_tables := ts\<rparr>) A"
proof -
  note r = refresh_tables_law [OF run]
  have rel: "rel_option (\<lambda>t t'. refresh_auto_inc t = Some t') (db_table D n) (map_of ts n)" for n using r by blast
  have src: "\<exists>u. db_table D n = Some u \<and> refresh_auto_inc u = Some t" if "map_of ts n = Some t" for n t
    using rel [of n] that by (cases "db_table D n") auto
  have none: "map_of ts n = None \<longleftrightarrow> db_table D n = None" for n using rel [of n] by (cases "db_table D n"; cases "map_of ts n") auto
  have tab: "td_name (t_def t) = n \<and> (\<exists>m. c_tables A n = Some (t_def t, m) \<and> table_ok t h m \<and> plain_rows m \<and> counter_ok t m)"
    if "map_of ts n = Some t" for n t
  proof -
    from src [OF that] obtain u where u: "db_table D n = Some u" "refresh_auto_inc u = Some t" by blast
    from db_okD(4) [OF ok u(1)] refresh_any [OF _ u(2)] db_okD(7) [OF ok u(1)] show ?thesis by auto
  qed
  have own: "\<exists>u. db_table D n = Some u \<and> owned t = owned u" if t: "map_of ts n = Some t" for n t
  proof -
    from src [OF t] obtain u where u: "db_table D n = Some u" "refresh_auto_inc u = Some t" by blast
    from db_okD(4) [OF ok u(1)] refresh_any [OF _ u(2)] u(1) show ?thesis by blast
  qed
  have "owned t \<inter> owned t' = {}" if "map_of ts n = Some t" "map_of ts n' = Some t'" "n \<noteq> n'" for n n' t t'
    using own [OF that(1)] own [OF that(2)] db_okD(5) [OF ok] that(3) by metis
  moreover have "names_sorted ts" using r db_okD(6) [OF ok] names_sorted_fst [of ts "d_tables D"] by simp
  ultimately have "db_ok (D\<lparr>d_tables := ts\<rparr>) h A"
    using tab none db_okD(1-3) [OF ok] by (intro db_okI) (simp_all, blast+)
  moreover have "counters_ok (D\<lparr>d_tables := ts\<rparr>) A" using tab by (fastforce simp: counters_ok_def)
  ultimately show ?thesis ..
qed

text \<open>The search for the name of a foreign key's index ends within its fuel, at a name that is not in use.\<close>

definition index_name :: "string \<Rightarrow> nat \<Rightarrow> string" where
  "index_name col n = ''fk_'' @ col @ ''_'' @ dec_string n"

lemma dec_string_inject: "dec_string a = dec_string b \<Longrightarrow> a = b"
  by (metis dec_string_digits)

lemma auto_name_stuck:
  "auto_name (Suc f) names col n auto = None \<Longrightarrow> insert auto (index_name col ` {n..<n + f}) \<subseteq> set names"
proof (induction f arbitrary: n auto)
  case 0
  then show ?case by (simp split: if_splits)
next
  case (Suc f)
  from Suc.prems have a: "auto \<in> set names" "auto_name (Suc f) names col (Suc n) (index_name col n) = None"
    by (auto simp: index_name_def split: if_splits)
  have "{n..<n + Suc f} = insert n {Suc n..<Suc n + f}" by auto
  then show ?case using a(1) Suc.IH [OF a(2)] by auto
qed

lemma auto_name_found: "auto_name fuel names col n auto = Some s \<Longrightarrow> s \<notin> set names"
  by (induction fuel names col n auto rule: auto_name.induct) (auto split: if_splits)

lemma auto_name_total:
  assumes "length names \<le> f" 
  shows "\<exists>s. auto_name (Suc f) names col n (''fk_'' @ col) = Some s \<and> s \<notin> set names"
proof (cases "auto_name (Suc f) names col n (''fk_'' @ col)")
  case None
  let ?c = "insert (''fk_'' @ col) (index_name col ` {n..<n + f})"
  have "inj (index_name col)" by (rule injI) (simp add: index_name_def dec_string_inject)
  then have "card (index_name col ` {n..<n + f}) = f" by (simp add: card_image inj_on_subset)
  moreover have "''fk_'' @ col \<notin> index_name col ` {n..<n + f}" by (auto simp: index_name_def)
  ultimately have "card ?c = Suc f" by simp
  moreover have "card ?c \<le> card (set names)" by (rule card_mono [OF _ auto_name_stuck [OF None]]) simp
  ultimately show ?thesis using card_length [of names] assms by simp
next
  case (Some s)
  then show ?thesis using auto_name_found by blast
qed

lemma ensure_indexes_law:
  "table_ok t h m \<Longrightarrow> plain_rows m \<Longrightarrow> holds p h \<Longrightarrow> ensure_indexes fks t p = Some (t', p', res) \<Longrightarrow>
   holds p' h \<and> table_ok t' h m \<and> owned t' = owned t \<and> t_def t' = t_def t \<and> t_auto_inc t' = t_auto_inc t"
proof (induction fks t p rule: ensure_indexes.induct)
  case (2 fk fks t p)
  let ?c = "index_of (td_schema (t_def t)) (fk_column fk) = Some (pk_col t) \<or> (\<exists>d \<in> set (secondary_indexes t). ix_column d = fk_column fk)"
  show ?case
  proof (cases ?c)
    case True
    then show ?thesis using 2(1) [OF True] 2(3-6) by simp
  next
    case False
    then obtain auto where auto: "auto_name (Suc (length (t_indexes t))) (map ix_name (secondary_indexes t)) (fk_column fk) 2 (''fk_'' @ fk_column fk) = Some auto"
      using 2(6) by (auto split: option.splits)
    then obtain t1 p1 r1 where a: "add_index auto (fk_column fk) t p = Some (t1, p1, r1)"
      using False 2(6) by (auto split: option.splits)
    note i = add_index_any [OF 2(3-5) a]
    show ?thesis
    proof (cases r1)
      case (Inl e)
      then show ?thesis using 2(6) False auto a i by auto
    next
      case (Inr u)
      have "ensure_indexes fks t1 p1 = Some (t', p', res)" using 2(6) False auto a Inr by auto
      from 2(2) [OF False auto a refl refl Inr _ 2(4) _ this] i show ?thesis by simp
    qed
  qed
qed simp

lemma ensure_all_law:
  "db_ok D h A \<Longrightarrow> counters_ok D A \<Longrightarrow> ensure_all ns D = Some (D', res) \<Longrightarrow> db_ok D' h A \<and> counters_ok D' A"
proof (induction ns arbitrary: D)
  case (Cons n ns)
  show ?case
  proof (cases "db_table D n")
    case None
    then show ?thesis using Cons by simp
  next
    case (Some t)
    from db_okD(4) [OF Cons.prems(1) Some] obtain m where m: "c_tables A n = Some (t_def t, m)" "table_ok t h m" "plain_rows m" by blast
    from Cons.prems(3) Some obtain t1 p1 r1 where f: "fk_ensure_auto_indexes t (d_pool D) = Some (t1, p1, r1)"
      by (auto split: option.splits)
    note l = ensure_indexes_law [OF m(2,3) db_okD(1) [OF Cons.prems(1)] f [unfolded fk_ensure_auto_indexes_def]]
    have "A\<lparr>c_tables := (c_tables A)(n \<mapsto> (t_def t, m))\<rparr> = A" using m(1) by (simp add: fun_upd_idem)
    then have ok: "db_ok (set_table n t1 p1 D) h A"
      using db_ok_set [OF Cons.prems(1) Some _ frames_same [of t1 t h] _ _ m(3), of p1] l by simp
    have "counter_ok t1 m = counter_ok t m" using l by (simp add: counter_ok_def split: option.split)
    then have "counter_ok t1 m" using Cons.prems(2) Some m(1) by (auto simp: counters_ok_def)
    then have c: "counters_ok (set_table n t1 p1 D) A" using Cons.prems(2) m(1)
      by (auto simp: counters_ok_def set_table_def map_put_lookup)
    show ?thesis using Cons.IH [OF ok c] Cons.prems(3) Some f ok c by (cases r1) auto
  qed
qed simp

section \<open>Opening\<close>

lemma database_open_law:
  assumes ok: "db_ok D h A" and p: "holds p h" and im: "table_images (d_tables D) = Some imgs"
    and fit: "snapshot_fits dbs imgs" and bs: "encode_snapshot dbs imgs = Inr bs"
    and log: "read_all f = Inr rl" "\<And>R. redo Map.empty rl R = apply_records ws R" "all_fit (reloaded dbs D A) ws"
    and run: "database_open (Some bs) f p = Some (R, Inr ())"
  shows "\<exists>g. db_ok R g (fold spec_record ws (reloaded dbs D A)) \<and> counters_ok R (fold spec_record ws (reloaded dbs D A))"
proof -
  obtain L r where L: "load_snapshot (Some bs) p = Some (L, r)" using run by (auto simp: database_open_def split: option.splits)
  note l = load_snapshot_law [OF ok p im fit bs L]
  obtain D1 where D1: "apply_records ws L = Some (D1, Inr ())"
    using run L l log(1,2) by (auto simp: database_open_def split: option.splits sum.splits)
  from apply_records_law [OF _ log(3) D1] l obtain g where g: "db_ok D1 g (fold spec_record ws (reloaded dbs D A))" by blast
  obtain ts where ts: "refresh_tables (d_tables D1) = Some ts" "ensure_all (map fst ts) (D1\<lparr>d_tables := ts\<rparr>) = Some (R, Inr ())"
    using run L l log(1,2) D1 by (auto simp: database_open_def split: option.splits)
  from ensure_all_law [OF _ _ ts(2)] db_ok_refresh [OF g ts(1)] show ?thesis by blast
qed

text \<open>A fresh database: no snapshot yet.\<close>

definition fresh_contents :: contents where
  "fresh_contents = \<lparr>c_databases = {''default''}, c_tables = Map.empty\<rparr>"

lemma fresh_open_law:
  assumes p: "holds p h" and log: "read_all f = Inr rl" "\<And>R. redo Map.empty rl R = apply_records ws R" "all_fit fresh_contents ws"
    and run: "database_open None f p = Some (R, Inr ())"
  shows "\<exists>g. db_ok R g (fold spec_record ws fresh_contents) \<and> counters_ok R (fold spec_record ws fresh_contents)"
proof -
  let ?D = "\<lparr>d_databases = {''default''}, d_tables = [], d_pool = p\<rparr>"
  have ok: "db_ok ?D h fresh_contents" using p by (simp add: db_ok_def names_sorted_def fresh_contents_def)
  obtain D1 where D1: "apply_records ws ?D = Some (D1, Inr ())"
    using run log(1,2) by (auto simp: database_open_def load_snapshot_def split: option.splits sum.splits)
  from apply_records_law [OF ok log(3) D1] obtain g where g: "db_ok D1 g (fold spec_record ws fresh_contents)" by blast
  obtain ts where ts: "refresh_tables (d_tables D1) = Some ts" "ensure_all (map fst ts) (D1\<lparr>d_tables := ts\<rparr>) = Some (R, Inr ())"
    using run log(1,2) D1 by (auto simp: database_open_def load_snapshot_def split: option.splits)
  from ensure_all_law [OF _ _ ts(2)] db_ok_refresh [OF g ts(1)] show ?thesis by blast
qed

end
