(* ===== verification/Recovery_Correct.thy ===== *)
theory Recovery_Correct
  imports Recovery_Open
begin

text \<open>
  Crash recovery as a whole: what a commit installs is what redo replays, a crash leaves whole transactions
  and no acknowledged one is missing, and where the code falls short of that.
\<close>

section \<open>Commit and redo\<close>

definition write_record :: "u64 \<Rightarrow> (string \<times> key) \<times> staged_write \<Rightarrow> wal_record" where
  "write_record x e =
     (case w_row (snd e) of
        Some r \<Rightarrow> Put x (fst (fst e)) (snd (fst e)) (encode_row r)
      | None \<Rightarrow> Delete x (fst (fst e)) (snd (fst e)))"

lemma txn_records_shape: "txn_records x ws = Inr rl \<Longrightarrow> rl = map (write_record x) ws"
  by (induction x ws arbitrary: rl rule: txn_records.induct)
     (auto simp: write_record_def rbind_eq_Inr split: option.splits if_splits)

lemma missing_table_None: "missing_table ws D = None \<longleftrightarrow> (\<forall>e \<in> set ws. db_table D (fst (fst e)) \<noteq> None)"
  unfolding missing_table_def option.map_disc_iff find_None_iff by metis

lemma missing_table_set: "missing_table ws D = None \<Longrightarrow> missing_table ws (set_table n t p D) = None"
  by (simp add: missing_table_None set_table_def map_put_lookup)

lemma install_redo:
  "missing_table ws D = None \<Longrightarrow> commit_install ws D = apply_records (map (write_record x) ws) D"
proof (induction ws arbitrary: D)
  case (Cons e ws)
  obtain n k w where e: "e = ((n, k), w)" by (metis prod.exhaust)
  obtain t where t: "db_table D n = Some t" using Cons.prems by (auto simp: missing_table_None e)
  have m: "missing_table ws (set_table n t' p D) = None" for t' p
    using missing_table_set [of ws D] Cons.prems by (simp add: missing_table_None)
  note ih = Cons.IH [OF m]
  show ?case
  proof (cases "w_row w")
    case None
    then show ?thesis using t ih by (auto simp: e write_record_def apply_record_def split: option.split)
  next
    case (Some r)
    then show ?thesis using t ih by (auto simp: e write_record_def apply_record_def split: option.split sum.split)
  qed
qed simp

section \<open>Contents with the same rows\<close>

definition alike :: "contents \<Rightarrow> contents \<Rightarrow> bool" where
  "alike A B \<longleftrightarrow> (\<forall>n. rel_option (\<lambda>(d, m) (d', m'). m' = m \<and> length (columns (td_schema d')) = length (columns (td_schema d)) \<and>
     pk_idx (td_schema d') = pk_idx (td_schema d)) (c_tables A n) (c_tables B n))"

definition rows_of :: "contents \<Rightarrow> string \<Rightarrow> (key \<rightharpoonup> row) option" where
  "rows_of A n = map_option snd (c_tables A n)"

lemma alike_cases:
  assumes "alike A B"
  obtains "c_tables A n = None" "c_tables B n = None"
  | d d' m where "c_tables A n = Some (d, m)" "c_tables B n = Some (d', m)"
      "length (columns (td_schema d')) = length (columns (td_schema d))" "pk_idx (td_schema d') = pk_idx (td_schema d)"
  using assms unfolding alike_def by (cases "c_tables A n"; cases "c_tables B n") (auto dest!: spec [of _ n])

lemma alike_rows: "alike A B \<Longrightarrow> rows_of B n = rows_of A n"
  by (rule alike_cases [of A B n]) (auto simp: rows_of_def)

lemma row_from_alike:
  assumes "length (columns (td_schema d')) = length (columns (td_schema d))" "pk_idx (td_schema d') = pk_idx (td_schema d)"
  shows "row_from d' bs = row_from d bs"
proof -
  have "decode_row (table_new d') bs = decode_row (table_new d) bs" using assms(1) by (simp add: decode_row_def table_new_def)
  moreover have "good_row d' r = good_row d r" for r using assms by (simp add: good_row_def)
  ultimately show ?thesis by (simp add: row_from_def split: sum.split)
qed

lemma alike_upd:
  assumes "alike A B" "length (columns (td_schema d')) = length (columns (td_schema d))" "pk_idx (td_schema d') = pk_idx (td_schema d)"
  shows "alike (A\<lparr>c_tables := (c_tables A)(n \<mapsto> (d, m))\<rparr>) (B\<lparr>c_tables := (c_tables B)(n \<mapsto> (d', m))\<rparr>)"
  using assms by (simp add: alike_def)

lemma alike_put:
  assumes "alike A B"
  shows "alike (put_row_in n k bs A) (put_row_in n k bs B) \<and> (fits A (Put x n k bs) \<longleftrightarrow> fits B (Put x n k bs))"
proof (rule alike_cases [OF assms, of n])
  fix d d' m assume t: "c_tables A n = Some (d, m)" "c_tables B n = Some (d', m)" and
    s: "length (columns (td_schema d')) = length (columns (td_schema d))" "pk_idx (td_schema d') = pk_idx (td_schema d)"
  note r = row_from_alike [OF s, of bs]
  have "alike (put_row_in n k bs A) (put_row_in n k bs B)"
    using alike_upd [OF assms s] assms unfolding put_row_in_def t option.case prod.case r by (cases "row_from d bs") simp_all
  then show ?thesis unfolding fits.simps t option.case prod.case r s by simp
next
  assume "c_tables A n = None" "c_tables B n = None"
  then show ?thesis using assms by (simp add: put_row_in_def)
qed

lemma alike_with_rows:
  assumes "alike A B"
  shows "alike (with_rows n f A) (with_rows n f B)"
  by (rule alike_cases [OF assms, of n]) (use assms alike_upd [OF assms] in \<open>simp_all add: with_rows_def\<close>)

definition is_write :: "wal_record \<Rightarrow> bool" where
  "is_write rec = (case rec of Put _ _ _ _ \<Rightarrow> True | Delete _ _ _ \<Rightarrow> True | _ \<Rightarrow> False)"

lemma alike_record:
  assumes "alike A B" "is_write rec"
  shows "alike (spec_record rec A) (spec_record rec B)" "fits A rec \<longleftrightarrow> fits B rec"
  using assms alike_put [OF assms(1)] alike_with_rows [OF assms(1)] by (cases rec; simp add: is_write_def)+

lemma alike_writes:
  "alike A B \<Longrightarrow> list_all is_write rl \<Longrightarrow> alike (fold spec_record rl A) (fold spec_record rl B) \<and> (all_fit A rl \<longleftrightarrow> all_fit B rl)"
proof (induction rl arbitrary: A B)
  case (Cons rec rl)
  then show ?case using alike_record [of A B rec] Cons.IH [of "spec_record rec A" "spec_record rec B"] by simp
qed simp

lemma write_facts: "is_write (write_record x e)" "txn_of (write_record x e) = x" "\<not> is_commit (write_record x e)"
  "is_write rec \<Longrightarrow> reread_record rec = rec"
  by (auto simp: write_record_def is_write_def is_commit_def split: option.split wal_record.splits)

lemma alike_reloaded:
  assumes "db_ok D h A"
  shows "alike A (reloaded dbs D A)"
  unfolding alike_def
proof
  fix n
  show "rel_option (\<lambda>(d, m) (d', m'). m' = m \<and> length (columns (td_schema d')) = length (columns (td_schema d)) \<and>
     pk_idx (td_schema d') = pk_idx (td_schema d)) (c_tables A n) (c_tables (reloaded dbs D A) n)"
  proof (cases "db_table D n")
    case None
    then show ?thesis using db_okD(3) [OF assms, of n] by (simp add: reloaded_def)
  next
    case (Some t)
    then show ?thesis using db_okD(4) [OF assms Some] by (auto simp: reloaded_def reread_shape)
  qed
qed

section \<open>Runs of commits\<close>

definition txn_of_commit :: "u64 \<times> u64 \<times> staged \<Rightarrow> txn" where
  "txn_of_commit c = (fst c, Some (fst (snd c)), map (write_record (fst c)) (snd (snd c)))"

fun install_run :: "(u64 \<times> u64 \<times> staged) list \<Rightarrow> dbase \<Rightarrow> (dbase \<times> unit result) option" where
  "install_run [] D = Some (D, Inr ())"
| "install_run ((x, now, ws) # cs) D =
     (case commit_install ws D of
        None \<Rightarrow> None
      | Some (D, Inl e) \<Rightarrow> Some (D, Inl e)
      | Some (D, Inr _) \<Rightarrow> install_run cs D)"

lemma set_table_keeps: "db_table D n \<noteq> None \<Longrightarrow> db_table (set_table table t p D) n \<noteq> None"
  by (simp add: set_table_def map_put_lookup)

lemma install_keeps_tables: "commit_install ws D = Some (D', r) \<Longrightarrow> db_table D n \<noteq> None \<Longrightarrow> db_table D' n \<noteq> None"
proof (induction ws arbitrary: D)
  case (Cons tw ws)
  obtain table key w where tw: "tw = ((table, key), w)" by (metis prod.exhaust)
  have "db_table D' n \<noteq> None" if "commit_install ws (set_table table t p D) = Some (D', r)" for t p
    using Cons.IH [OF that set_table_keeps [OF Cons.prems(2)]] .
  then show ?case using Cons.prems set_table_keeps [OF Cons.prems(2)] by (auto simp: tw split: option.splits sum.splits)
qed simp

lemma install_run_redo:
  "\<forall>c \<in> set cs. missing_table (snd (snd c)) D = None \<Longrightarrow> install_run cs D = apply_records (writes_of (map txn_of_commit cs)) D"
proof (induction cs arbitrary: D)
  case (Cons c cs)
  obtain x now ws where c: "c = (x, now, ws)" by (metis prod.exhaust)
  have i: "commit_install ws D = apply_records (map (write_record x) ws) D" using Cons.prems by (intro install_redo) (simp add: c)
  have "install_run cs D1 = apply_records (writes_of (map txn_of_commit cs)) D1" if "commit_install ws D = Some (D1, Inr u)" for D1 u
    using Cons.IH [of D1] Cons.prems install_keeps_tables [OF that] by (auto simp: missing_table_None)
  moreover have "writes_of (map txn_of_commit (c # cs)) = map (write_record x) ws @ writes_of (map txn_of_commit cs)"
    by (simp add: c txn_of_commit_def)
  ultimately show ?case by (auto simp: c apply_records_append i [symmetric] simp del: list.map split: option.split sum.split)
qed simp

lemma writes_are_writes: "list_all is_write (writes_of (map txn_of_commit cs))" "list_all txn_ok (map txn_of_commit cs)"
  by (auto simp: list_all_iff txn_of_commit_def txn_ok_def write_facts)

lemma reread_same: "list_all is_write rl \<Longrightarrow> map reread_record rl = rl"
  by (induction rl) (simp_all add: write_facts(4))

section \<open>What a checkpoint leaves\<close>

text \<open>The pool \<open>p\<close>, over the values \<open>g\<close>, still has every overflow value that the tables of \<open>D\<close> refer to.\<close>

definition keeps_values :: "dbase \<Rightarrow> (locator \<rightharpoonup> bytes) \<Rightarrow> (locator \<rightharpoonup> bytes) \<Rightarrow> bool" where
  "keeps_values D h g \<longleftrightarrow> (\<forall>n t. db_table D n = Some t \<longrightarrow> (\<forall>l \<in> owned t. g l = h l))"

lemma db_ok_rebase:
  assumes ok: "db_ok D h A" and p: "holds p g" and k: "keeps_values D h g"
  shows "db_ok (D\<lparr>d_pool := p\<rparr>) g A"
proof (rule db_okI)
  show "td_name (t_def t) = n \<and> (\<exists>m. c_tables A n = Some (t_def t, m) \<and> table_ok t g m \<and> plain_rows m)"
    if t: "db_table (D\<lparr>d_pool := p\<rparr>) n = Some t" for n t
  proof -
    have t': "db_table D n = Some t" using t by simp
    from db_okD(4) [OF ok t'] obtain m where "c_tables A n = Some (t_def t, m)" "table_ok t h m" "plain_rows m" by blast
    with table_ok_frame [of t h m g] k t' db_okD(7) [OF ok t'] show ?thesis by (auto simp: keeps_values_def)
  qed
qed (use p db_okD(2,3,5,6) [OF ok] in simp_all)

definition checkpointed :: "string list \<Rightarrow> dbase \<Rightarrow> bytes \<Rightarrow> bool" where
  "checkpointed dbs D bs \<longleftrightarrow> (\<exists>imgs. table_images (d_tables D) = Some imgs \<and> snapshot_fits dbs imgs) \<and>
     checkpoint_image dbs D = Some (Inr bs)"

lemma open_checkpoint:
  assumes ok: "db_ok D h A" and c: "checkpointed dbs D bs" and p: "holds p g" "keeps_values D h g"
    and log: "read_all f = Inr rl" "\<And>R. redo Map.empty rl R = apply_records ws R" "all_fit (reloaded dbs D A) ws"
    and run: "database_open (Some bs) f p = Some (R, Inr ())"
  shows "\<exists>g. db_ok R g (fold spec_record ws (reloaded dbs D A)) \<and> counters_ok R (fold spec_record ws (reloaded dbs D A))"
proof -
  from c obtain imgs where i: "table_images (d_tables D) = Some imgs" "snapshot_fits dbs imgs" "encode_snapshot dbs imgs = Inr bs"
    by (auto simp: checkpointed_def checkpoint_image_def)
  have e: "reloaded dbs (D\<lparr>d_pool := p\<rparr>) A = reloaded dbs D A" by (simp add: reloaded_def)
  show ?thesis
    using database_open_law [OF db_ok_rebase [OF ok p] p(1) _ i(2,3) log(1,2) _ run] i(1) log(3) unfolding e by simp
qed

section \<open>A small database\<close>

definition people_db :: "buffer_pool \<Rightarrow> dbase" where
  "people_db p = \<lparr>d_databases = {''default''}, d_tables = [(''people'', set_pool (table_new people))], d_pool = p\<rparr>"

definition people_contents :: contents where
  "people_contents = \<lparr>c_databases = {''default''}, c_tables = [''people'' \<mapsto> (people, Map.empty)]\<rparr>"

lemma people_table: "t_tree (set_pool (table_new people)) = btree_new" "t_def (set_pool (table_new people)) = people"
  "td_name people = ''people''" "td_foreign_keys people = []" "t_pool (set_pool (table_new people))"
  by (simp_all add: set_pool_def table_new_def people_def)

lemma people_db_ok: "holds p h \<Longrightarrow> db_ok (people_db p) h people_contents"
  by (rule db_okI)
     (auto simp: people_db_def people_contents_def names_sorted_def people_table plain_upd intro: table_new_law split: if_splits)

lemma empty_scan: "scan_all btree_new = Some []"
proof -
  have "in_scan None True None True = (\<lambda>_. True)" by (simp add: fun_eq_iff in_scan_def before_start_def past_end_def)
  moreover have "ent (root btree_new) = []" using ent_dom [OF conjunct1 [OF btree_new_ok]] btree_new_ok by simp
  ultimately show ?thesis using btree_range_step [OF conjunct1 [OF btree_new_ok]] by (simp add: scan_all_def)
qed

lemma small_names: "str_ok ''people''" "str_ok ''id''" "str_ok ''city''" "str_ok ''by_city''" "str_ok ''shop''" "db_name_ok ''default''"
  by (simp_all add: short_def db_name_ok_def str_bytes_def utf8_valid.simps in_range_def)

lemma people_image: "\<exists>bs. checkpointed [''default''] (people_db p) bs"
proof -
  let ?d = "table_def_of (set_pool (table_new people))"
  have im: "table_images (d_tables (people_db p)) = Some [(?d, [])]" by (simp add: people_db_def people_table empty_scan)
  have "def_ok ?d" using small_names
    by (simp add: def_ok_def table_def_of_def people_def set_pool_def table_new_def secondary_indexes_def map_filter_def index_of_def
        column_ok_def Wal_Codec.index_ok_def opt_ok_def)
  moreover have "length (encode_table_def_pub ?d) \<le> 16 * 1024 * 1024"
    by (simp add: encode_table_def_pub_def table_def_of_def people_def set_pool_def table_new_def secondary_indexes_def map_filter_def index_of_def
        put_column_def put_index_def put_str_def)
  ultimately have "snapshot_fits [''default''] [(?d, [])]" using small_names by (simp add: snapshot_fits_def table_fits_def)
  moreover from snapshot_law [OF this] obtain bs where "encode_snapshot [''default''] [(?d, [])] = Inr bs" by blast
  ultimately show ?thesis using im by (auto simp: checkpointed_def checkpoint_image_def)
qed

lemma fresh_refresh: "\<exists>t. refresh_auto_inc (set_pool (table_new d)) = Some t \<and> t_def t = d"
  by (cases "t_auto_inc (set_pool (table_new d))") (auto simp: refresh_auto_inc_def set_pool_def table_new_def empty_scan)

lemma people_open:
  assumes c: "checkpointed [''default''] (people_db p) bs" and log: "read_all f = Inr rl"
    "\<And>R. redo Map.empty rl R = Some (R\<lparr>d_databases := S \<union> d_databases R\<rparr>, Inr ())"
  shows "\<exists>R. database_open (Some bs) f p = Some (R, Inr ()) \<and> S \<subseteq> d_databases R"
proof -
  let ?d = "reread_def (table_def_of (set_pool (table_new people)))"
  have im: "table_images (d_tables (people_db p)) = Some [(table_def_of (set_pool (table_new people)), [])]"
    by (simp add: people_db_def people_table empty_scan)
  from c im obtain "snapshot_fits [''default''] [(table_def_of (set_pool (table_new people)), [])]"
    "encode_snapshot [''default''] [(table_def_of (set_pool (table_new people)), [])] = Inr bs"
    by (auto simp: checkpointed_def checkpoint_image_def)
  then have dec: "decode_snapshot bs = Inr ([''default''], [(?d, [])])" using snapshot_law by (fastforce simp: snap_table_def)
  have d: "td_name ?d = ''people''" "td_foreign_keys ?d = []" "db_prefix ''people'' = None"
    by (simp_all add: reread_def_def table_def_of_def people_table db_prefix_def)
  obtain t where t: "refresh_auto_inc (set_pool (table_new ?d)) = Some t" "t_def t = ?d" using fresh_refresh by blast
  have "fk_ensure_auto_indexes t q = Some (t, q, Inr ())" for q using t(2) d(2) by (simp add: fk_ensure_auto_indexes_def)
  then show ?thesis using t(1) d log
    by (simp add: database_open_def load_snapshot_def dec set_table_def Let_def subset_insertI)
qed

lemma read_shop:
  "read_all (wal_header @ encode_all [CreateDatabase 1 ''shop'', Commit 1 None]) = Inr [CreateDatabase 1 ''shop'', Commit 1 None]"
  "list_all frame_ok [CreateDatabase 1 ''shop'', Commit 1 None]"
proof -
  show f: "list_all frame_ok [CreateDatabase 1 ''shop'', Commit 1 None]" using small_names by (simp add: frame_ok_def put_str_def)
  from read_torn_tail(2) [OF f torn_Nil]
  show "read_all (wal_header @ encode_all [CreateDatabase 1 ''shop'', Commit 1 None]) = Inr [CreateDatabase 1 ''shop'', Commit 1 None]"
    by (simp add: encode_all_def)
qed

lemma fresh_upsert: "\<exists>b t. tree_upsert k v btree_new = Some (b, t)" "\<exists>t. tree_put k v btree_new = Some (None, t)"
proof -
  have new: "btree_ok btree_new" "abs_map btree_new = Map.empty" using btree_new_ok by simp_all
  have "\<not> stuck k (root btree_new)" by (simp add: btree_new_def new_leaf_with_def)
  from btree_upsert_step [OF new(1) this, of v] obtain t where t: "tree_upsert k v btree_new = Some (None, t)"
    using new(2) by (auto simp: tree_upsert_def)
  then show "\<exists>b t. tree_upsert k v btree_new = Some (b, t)" by blast
  have "update_in_place k v btree_new = Some (None, btree_new)" by (simp add: update_in_place_def btree_new_def new_leaf_with_def)
  then show "\<exists>t. tree_put k v btree_new = Some (None, t)" using t by (simp add: tree_put_def)
qed

lemma fresh_upserts:
  "\<forall>x \<in> set xs. si_tree x = btree_new \<and> si_col x < length r \<Longrightarrow> key_ok pk \<Longrightarrow>
    \<exists>xs'. each_index (\<lambda>x. lenient (index_upsert r pk x)) xs = Some (xs', Inr ())"
proof (induction xs)
  case (Cons x xs)
  obtain k where k: "encode_sec_index_key (r ! si_col x) pk = Inr k" using sec_key_total [OF Cons.prems(2)] by blast
  obtain b tr where "tree_upsert k [] btree_new = Some (b, tr)" using fresh_upsert(1) by blast
  then have "index_upsert r pk x = Some (x\<lparr>si_tree := tr\<rparr>, Inr ())" using Cons.prems k by (simp add: index_upsert_def at_Some)
  then show ?case using Cons by (auto simp: lenient_def)
qed simp

lemma first_apply:
  assumes r: "row_ok (set_pool (table_new d)) r" "encode_key (pk_of (set_pool (table_new d)) r) = Inr k"
    and n: "length (encode_row r) \<le> MAX_INLINE_ROW"
  shows "\<exists>t'. apply_raw k (encode_row r) (set_pool (table_new d)) p = Some (t', p, Inr ())"
proof -
  let ?t = "set_pool (table_new d)"
  have tr: "t_tree ?t = btree_new" by (simp add: set_pool_def table_new_def)
  have ix: "\<forall>x \<in> set (t_indexes ?t). si_tree x = btree_new \<and> si_col x < length r"
    using r(1) by (auto simp: row_ok_def set_pool_def table_new_def map_filter_def)
  obtain t1 where t1: "tree_put k (encode_row r) btree_new = Some (None, t1)" using fresh_upsert(2) by blast
  obtain xs where xs: "each_index (\<lambda>x. lenient (index_upsert r (pk_of ?t r) x)) (t_indexes ?t) = Some (xs, Inr ())"
    using fresh_upserts [OF ix] r(1) by (auto simp: row_ok_def)
  have dec: "decode_key k = Some (Inr (pk_of ?t r))" "decode_row ?t (encode_row r) = Inr r"
    using decode_encode_key [OF _ r(2)] decode_encode_row [of r ?t] r(1) by (auto simp: row_ok_def)
  show ?thesis using t1 xs dec n
    by (simp add: apply_raw_def tr alloc_value_def free_prev_def on_indexes_def Let_def)
qed

section \<open>Properties\<close>



lemma commit_prepareD:
  assumes "commit_prepare disp x now ws fly D = Some (Inr (rl, fly'))"
  shows "missing_table ws D = None" "check_inserts disp fly D ws = Some (Inr ())"
    "fly' = fly \<union> fst ` {w \<in> set ws. is_insert (snd w)}"
    "\<exists>rs. txn_records x ws = Inr rs \<and> rl = (if ws = [] then [] else rs @ [Commit x (Some now)])"
  using assms by (auto simp: commit_prepare_def missing_table_def split: if_splits option.splits sum.splits)

text \<open>C20. What a commit installs in the trees is exactly what redo does with the records it logged.\<close>
theorem commit_installs_its_log:
  assumes "commit_prepare disp x now ws fly D = Some (Inr (rl, fly'))"
  shows "redo Map.empty rl D = commit_install ws D"
proof -
  note m = commit_prepareD(1) [OF assms]
  from commit_prepareD(4) [OF assms] obtain rs where
    rs: "txn_records x ws = Inr rs" "rl = (if ws = [] then [] else rs @ [Commit x (Some now)])" by blast
  note sh = txn_records_shape [OF rs(1)]
  have "txn_ok (x, Some now, rs)" using sh write_facts(2,3) by (auto simp: txn_ok_def)
  then have "concat (commits Map.empty rl) = rs"
    using commits_txns [of "[(x, Some now, rs)]" "[]"] rs sh by (cases "ws = []") (auto simp: txn_log_def)
  then show ?thesis using install_redo [OF m, of x] sh by (simp add: redo_commits)
qed

lemma ada_staged:
  "commit_prepare type_name 1 9 [((''people'', ada_key), \<lparr>w_row = Some ada, is_insert = True\<rparr>)] {} (people_db p) =
     Some (Inr ([Put 1 ''people'' ada_key (encode_row ada), Commit 1 (Some 9)], {(''people'', ada_key)}))"
proof -
  have "length (encode_row ada) \<le> MAX_VALUE_LEN" using people_row(3) by (simp add: MAX_INLINE_ROW_def MAX_VALUE_LEN_def)
  then show ?thesis
    by (simp add: commit_prepare_def missing_table_def people_db_def people_table fresh_tree(2)) auto
qed

theorem commit_installs_its_log_witness:
  "\<forall>p. redo Map.empty [Put 1 ''people'' ada_key (encode_row ada), Commit 1 (Some 9)] (people_db p) =
     commit_install [((''people'', ada_key), \<lparr>w_row = Some ada, is_insert = True\<rparr>)] (people_db p)"
  using commit_installs_its_log [OF ada_staged] by blast





text \<open>C22. Writes of a transaction that never committed come back: transaction numbers start at 1 again after
  every restart and redo collects records by that number. After a crash that left the writes \<open>t\<close> of
  transaction 1 without a commit record, recovery ignores them; once transaction 1 of the next session has
  committed other writes, the next recovery applies \<open>t\<close> as well.\<close>
theorem uncommitted_writes_return:
  assumes "txn_ok (1, ts, t)" "t \<noteq> []" "txn_ok (1, ts, body)"
  shows "redo Map.empty t D = Some (D, Inr ()) \<and>
    redo Map.empty (t @ txn_log (1, ts, body)) D = apply_records (t @ body) D"
proof
  have "commits Map.empty t = []" using assms(1) by (intro commits_open) (simp add: txn_ok_def)
  then show "redo Map.empty t D = Some (D, Inr ())" by (simp add: redo_commits)
  have "txn_ok (1, ts, t @ body)" using assms by (auto simp: txn_ok_def)
  then show "redo Map.empty (t @ txn_log (1, ts, body)) D = apply_records (t @ body) D"
    using commits_txns [of "[(1, ts, t @ body)]" "[]"] by (simp add: txn_log_def redo_commits)
qed

theorem uncommitted_writes_return_witness:
  "\<forall>D. redo Map.empty [Delete 1 ''t'' [1], Delete 1 ''t'' [2], Commit 1 None] D = apply_records [Delete 1 ''t'' [1], Delete 1 ''t'' [2]] D"
proof
  fix D
  have "txn_ok (1, None, [Delete 1 ''t'' [1]])" "txn_ok (1, None, [Delete 1 ''t'' [2]])" by (simp_all add: txn_ok_def is_commit_def)
  from uncommitted_writes_return [OF this(1) _ this(2), of D]
  show "redo Map.empty [Delete 1 ''t'' [1], Delete 1 ''t'' [2], Commit 1 None] D = apply_records [Delete 1 ''t'' [1], Delete 1 ''t'' [2]] D"
    by (simp add: txn_log_def del: redo.simps apply_records.simps)
qed

text \<open>An insertion that passes the check of the commit lock is of a key that is neither installed nor in
  flight, and its key is in flight afterwards: no two concurrent commits insert the same key.\<close>
theorem prepared_inserts_fresh:
  assumes "commit_prepare disp x now ws fly D = Some (Inr (rl, fly'))" "((n, k), w) \<in> set ws" "is_insert w"
  shows "(n, k) \<notin> fly \<and> (n, k) \<in> fly' \<and> (\<exists>t. db_table D n = Some t \<and> btree_get (t_tree t) k = Some None)"
proof -
  note c = commit_prepareD(2,3) [OF assms(1)]
  have "(n, k) \<notin> fly \<and> (\<exists>t. db_table D n = Some t \<and> btree_get (t_tree t) k = Some None)"
    using c(1) assms(2,3)
    by (induction disp fly D ws rule: check_inserts.induct) (auto split: if_splits option.splits sum.splits)
  moreover have "(n, k) \<in> fly'" unfolding c(2) using assms(2,3) by force
  ultimately show ?thesis by blast
qed

theorem prepared_inserts_fresh_witness:
  "\<forall>p. \<exists>t. db_table (people_db p) ''people'' = Some t \<and> btree_get (t_tree t) ada_key = Some None"
proof
  fix p show "\<exists>t. db_table (people_db p) ''people'' = Some t \<and> btree_get (t_tree t) ada_key = Some None"
    using prepared_inserts_fresh [OF ada_staged [of p], of "''people''" ada_key "\<lparr>w_row = Some ada, is_insert = True\<rparr>"] by simp
qed

text \<open>The name of an index for a foreign key is found after at most one round more than the table has
  indexes, and is not in use.\<close>
theorem auto_index_name_found:
  "\<exists>s. auto_name (Suc (length (t_indexes t))) (map ix_name (secondary_indexes t)) col 2 (''fk_'' @ col) = Some s \<and>
     \<not> has_index s t"
  using auto_name_total [of "map ix_name (secondary_indexes t)" "length (t_indexes t)" col 2]
  by (force simp: secondary_indexes_def has_index_def)

end
