(* ===== verification/Sql_Ast.thy ===== *)
theory Sql_Ast
  imports Table_Types
begin

text \<open>
  The abstract syntax of SQL (\<open>crates/engine/src/sql/ast.rs\<close>): expressions, SELECT statements (which nest in
  expressions as subqueries and in FROM as derived tables), statements, privileges and their scopes. The
  constructors carry the fields of the source's variants in their order; a \<open>Box\<close> is the value in it.
\<close>

section \<open>Expressions and SELECT\<close>

record column_spec =
  cs_name :: string
  cs_ctype :: string
  cs_not_null :: bool
  cs_primary_key :: bool
  cs_auto_increment :: bool
  cs_default :: "datum option"

datatype agg_func = Sum | Avg | Min | Max

fun agg_name :: "agg_func \<Rightarrow> string" where
  "agg_name Sum = ''SUM''"
| "agg_name Avg = ''AVG''"
| "agg_name Min = ''MIN''"
| "agg_name Max = ''MAX''"

datatype join_kind = Inner | Left

datatype cmp_op = Eq | Ne | Lt | Le | Gt | Ge

datatype expr =
    EColumn string
  | ELiteral datum
  | ECmp expr cmp_op expr
  | EAnd expr expr
  | EOr expr expr
  | ENot expr
  | EIn expr "datum list" bool
  | EBetween expr datum datum bool
  | ELike expr string bool
  | EInSubquery expr select_stmt bool
  | EScalarSubquery select_stmt
  | EExists select_stmt bool
and select_stmt =
    SelectStmt (s_items: "select_item list") (s_from: table_ref) (s_joins: "join_clause list") (s_selection: "expr option")
      (s_order_by: "(string \<times> bool) list") (s_limit: "nat option") (s_group_by: "string list")
and select_item =
    Star
  | IColumn string
  | CountStar
  | Aggregate agg_func string
  | ISubquery select_stmt "string option"
  | ILiteral datum
  | SysFunc string "string option"
and table_ref =
    RTable string
  | Derived select_stmt string
  | REmpty
and join_clause =
    JoinClause (j_kind: join_kind) (j_table: table_ref) (j_on: expr)

fun ref_name :: "table_ref \<Rightarrow> string" where
  "ref_name (RTable n) = n"
| "ref_name (Derived _ alias) = alias"
| "ref_name REmpty = ''DUAL''"

text \<open>\<open>==\<close> and \<open>!=\<close> are the derived equality of \<open>Datum\<close>; the order comparisons go through its \<open>Ord\<close>.\<close>

fun cmp_apply :: "cmp_op \<Rightarrow> datum \<Rightarrow> datum \<Rightarrow> bool result" where
  "cmp_apply Eq a b = Inr (datum_eq a b)"
| "cmp_apply Ne a b = Inr (\<not> datum_eq a b)"
| "cmp_apply Lt a b = Inr (datum_cmp a b = Less)"
| "cmp_apply Le a b = Inr (datum_cmp a b \<noteq> Greater)"
| "cmp_apply Gt a b = Inr (datum_cmp a b = Greater)"
| "cmp_apply Ge a b = Inr (datum_cmp a b \<noteq> Less)"

fun cmp_flipped :: "cmp_op \<Rightarrow> cmp_op" where
  "cmp_flipped Eq = Eq"
| "cmp_flipped Ne = Ne"
| "cmp_flipped Lt = Gt"
| "cmp_flipped Le = Ge"
| "cmp_flipped Gt = Lt"
| "cmp_flipped Ge = Le"

section \<open>Privileges\<close>

record foreign_key_spec =
  fs_name :: "string option"
  fs_column :: string
  fs_ref_table :: string
  fs_ref_column :: string
  fs_on_delete :: fk_action

datatype privilege = PSelect | PInsert | PUpdate | PDelete | PCreate | PDrop | PAll

definition ascii_lower :: "char \<Rightarrow> char" where
  "ascii_lower c = (if 65 \<le> (of_char c :: nat) \<and> (of_char c :: nat) \<le> 90 then char_of ((of_char c :: nat) + 32) else c)"

definition privilege_parse :: "string \<Rightarrow> privilege option" where
  "privilege_parse s =
     (let u = map ascii_upper s in
      if u = ''SELECT'' then Some PSelect
      else if u = ''INSERT'' then Some PInsert
      else if u = ''UPDATE'' then Some PUpdate
      else if u = ''DELETE'' then Some PDelete
      else if u = ''CREATE'' then Some PCreate
      else if u = ''DROP'' then Some PDrop
      else if u = ''ALL'' \<or> u = ''ALL PRIVILEGES'' then Some PAll
      else None)"

fun privilege_name :: "privilege \<Rightarrow> string" where
  "privilege_name PSelect = ''SELECT''"
| "privilege_name PInsert = ''INSERT''"
| "privilege_name PUpdate = ''UPDATE''"
| "privilege_name PDelete = ''DELETE''"
| "privilege_name PCreate = ''CREATE''"
| "privilege_name PDrop = ''DROP''"
| "privilege_name PAll = ''ALL PRIVILEGES''"

fun codec_byte :: "privilege \<Rightarrow> u8" where
  "codec_byte PSelect = 1"
| "codec_byte PInsert = 2"
| "codec_byte PUpdate = 3"
| "codec_byte PDelete = 4"
| "codec_byte PCreate = 5"
| "codec_byte PDrop = 6"
| "codec_byte PAll = 7"

definition from_codec_byte :: "u8 \<Rightarrow> privilege option" where
  "from_codec_byte b =
     (if b = 1 then Some PSelect else if b = 2 then Some PInsert else if b = 3 then Some PUpdate
      else if b = 4 then Some PDelete else if b = 5 then Some PCreate else if b = 6 then Some PDrop
      else if b = 7 then Some PAll else None)"

datatype grant_scope = Global | DatabaseScope string | TableScope "string option" string

fun scope_display :: "grant_scope \<Rightarrow> string" where
  "scope_display Global = ''*.*''"
| "scope_display (DatabaseScope db) = db @ ''.*''"
| "scope_display (TableScope (Some db) tbl) = db @ ''.'' @ tbl"
| "scope_display (TableScope None tbl) = tbl"

section \<open>Statements\<close>

datatype isolation_level = ReadCommitted | RepeatableRead | Serializable

datatype statement =
    SCreateDatabase string bool
  | SDropDatabase string bool
  | SUseDatabase string
  | SShowDatabases
  | SCreateTable string "column_spec list" "foreign_key_spec list" bool
  | SDropTable string bool
  | SInsert string "string list option" "expr list list"
  | SSelect "select_item list" table_ref "join_clause list" "expr option" "(string \<times> bool) list" "nat option" "string list"
  | SUpdate string "(string \<times> expr) list" "expr option"
  | SDelete string "expr option"
  | SBegin "isolation_level option" bool
  | SCommit
  | SRollback
  | SStartTransaction bool "isolation_level option" bool
  | SSetTransaction isolation_level bool
  | SShowTables
  | SShowStatus "string option"
  | SShowEngineStatus
  | SShowProcesslist
  | SCheckpoint
  | SPromote
  | SBackup string
  | SArchive "string option"
  | SCreateIndex string string string bool
  | SDropIndex string string bool
  | SSetVariable string datum
  | SAnalyzeTable string
  | SExplain bool statement
  | SExplainMemo statement
  | SCreateUser string bool string
  | SDropUser string bool
  | SAlterUser string string
  | SGrant "privilege list" grant_scope string
  | SRevoke "privilege list" grant_scope string
  | SShowGrants "string option"
  | SCheckTable string
  | SCheckDatabase "string option"

section \<open>Facts\<close>

lemma cmp_flipped_twice [simp]: "cmp_flipped (cmp_flipped c) = c"
  by (cases c) simp_all

lemma privilege_parse_name: "privilege_parse (privilege_name p) = Some p"
  by (cases p) (simp_all add: privilege_parse_def ascii_upper_def)

lemma privilege_codec: "from_codec_byte (codec_byte p) = Some p"
  by (cases p) (simp_all add: from_codec_byte_def)

lemma from_codec_byte_Some: "from_codec_byte b = Some p \<Longrightarrow> b = codec_byte p"
  by (auto simp: from_codec_byte_def split: if_splits)

end
