(* ===== verification/Sql_Eval.thy ===== *)
theory Sql_Eval
  imports Sql_Ast Date_Time
begin

text \<open>
  Predicate evaluation (\<open>crates/engine/src/sql/eval.rs\<close>): comparison with coercion, IN, BETWEEN, LIKE and the
  columns an expression mentions.

  \<^item> \<open>disp\<close> is the \<open>Display\<close> text of a datum (floats as the standard library prints them) and \<open>dbg\<close> the
    derived \<open>Debug\<close> text of an expression, which only occurs in error messages.
  \<^item> \<open>resolve\<close> is the closure that looks up a column of the current row; a row has a cell for every column of
    its schema, which the table layer keeps.
  \<^item> \<open>like_match\<close> works on the characters of its arguments: \<open>chars\<close> splits a UTF-8 string into them.
\<close>

section \<open>Characters of a string\<close>

definition char_len :: "char \<Rightarrow> nat" where
  "char_len c = (let n = of_char c :: nat in if n < 0xC0 then 1 else if n < 0xE0 then 2 else if n < 0xF0 then 3 else 4)"

lemma char_len_pos [simp]: "0 < char_len c"
  by (simp add: char_len_def Let_def)

function chars :: "string \<Rightarrow> string list" where
  "chars [] = []"
| "chars (c # s) = take (char_len c) (c # s) # chars (drop (char_len c) (c # s))"
  by pat_completeness auto
termination
  by (relation "measure length") (auto simp: char_len_def Let_def)

section \<open>Display\<close>

text \<open>The \<open>Display\<close> of a datum; \<open>fl\<close> is the standard library's text of a double.\<close>

definition datum_display :: "(f64 \<Rightarrow> string) \<Rightarrow> datum \<Rightarrow> string" where
  "datum_display fl d =
     (case d of
        DNull \<Rightarrow> ''NULL''
      | DInt v \<Rightarrow> (if sint v < 0 then CHR ''-'' # dec_string (nat (- sint v)) else dec_string (nat (sint v)))
      | DFloat v \<Rightarrow> fl v
      | DText v \<Rightarrow> v
      | DBool v \<Rightarrow> (if v then ''true'' else ''false'')
      | DDateTime v \<Rightarrow> format_datetime_micros v)"

section \<open>Coercion\<close>

definition f64_one :: f64 where "f64_one = 0x3FF0000000000000"

definition bool_int :: "bool \<Rightarrow> i64" where "bool_int b = (if b then 1 else 0)"

definition bool_f64 :: "bool \<Rightarrow> f64" where "bool_f64 b = (if b then f64_one else 0)"

fun coerce_pair :: "datum \<Rightarrow> datum \<Rightarrow> datum \<times> datum" where
  "coerce_pair (DBool b) (DInt i) = (DInt (bool_int b), DInt i)"
| "coerce_pair (DInt i) (DBool b) = (DInt i, DInt (bool_int b))"
| "coerce_pair (DBool b) (DFloat f) = (DFloat (bool_f64 b), DFloat f)"
| "coerce_pair (DFloat f) (DBool b) = (DFloat f, DFloat (bool_f64 b))"
| "coerce_pair (DInt a) (DFloat b) = (DFloat (f64_of_i64 a), DFloat b)"
| "coerce_pair (DFloat a) (DInt b) = (DFloat a, DFloat (f64_of_i64 b))"
| "coerce_pair (DDateTime a) (DText b) =
     (case parse_datetime_str b of Some m \<Rightarrow> (DDateTime a, DDateTime m) | None \<Rightarrow> (DDateTime a, DText b))"
| "coerce_pair (DText a) (DDateTime b) =
     (case parse_datetime_str a of Some m \<Rightarrow> (DDateTime m, DDateTime b) | None \<Rightarrow> (DText a, DDateTime b))"
| "coerce_pair a b = (a, b)"

section \<open>LIKE\<close>

abbreviation percent :: string where "percent \<equiv> ''%''"
abbreviation underscore :: string where "underscore \<equiv> ''_''"

type_synonym like_memo = "nat \<times> nat \<rightharpoonup> bool"

definition skip_percent :: "string list \<Rightarrow> nat \<Rightarrow> nat" where
  "skip_percent p pi = pi + length (takeWhile (\<lambda>c. c = percent) (drop pi p))"

lemma skip_percent_more: "pi < length p \<Longrightarrow> p ! pi = percent \<Longrightarrow> pi < skip_percent p pi"
  by (simp add: skip_percent_def Cons_nth_drop_Suc [symmetric])

text \<open>\<open>like_go\<close> is the inner \<open>go\<close> with its memo table; \<open>like_any\<close> the search \<open>(ti..=t.len()).any(...)\<close>.
  The pattern index never exceeds the length of the pattern.\<close>

function (sequential) like_go :: "string list \<Rightarrow> string list \<Rightarrow> like_memo \<Rightarrow> nat \<Rightarrow> nat \<Rightarrow> bool \<times> like_memo"
  and like_any :: "string list \<Rightarrow> string list \<Rightarrow> like_memo \<Rightarrow> nat \<Rightarrow> nat \<Rightarrow> bool \<times> like_memo" where
  "like_go t p memo ti pi =
     (case memo (ti, pi) of
        Some r \<Rightarrow> (r, memo)
      | None \<Rightarrow>
          (let (r, memo) =
             (if length p \<le> pi then (ti = length t, memo)
              else if p ! pi = percent then like_any t p memo ti (skip_percent p pi)
              else if ti < length t \<and> (p ! pi = underscore \<or> p ! pi = t ! ti) then like_go t p memo (Suc ti) (Suc pi)
              else (False, memo))
           in (r, memo((ti, pi) \<mapsto> r))))"
| "like_any t p memo k pj =
     (if length t < k then (False, memo)
      else case like_go t p memo k pj of
        (True, memo) \<Rightarrow> (True, memo)
      | (False, memo) \<Rightarrow> like_any t p memo (Suc k) pj)"
  by pat_completeness auto
termination
  by (relation "inv_image (less_than <*lex*> less_than <*lex*> less_than)
       (\<lambda>x. case x of Inl (t, p, memo, ti, pi) \<Rightarrow> (length p - pi, 0, 0)
                    | Inr (t, p, memo, k, pj) \<Rightarrow> (length p - pj, 1, Suc (length t) - k))")
     (auto simp: skip_percent_more diff_less_mono2)

declare like_go.simps [simp del] like_any.simps [simp del]

definition like_match :: "string \<Rightarrow> string \<Rightarrow> bool" where
  "like_match text pattern = fst (like_go (chars text) (chars pattern) Map.empty 0 0)"

section \<open>Evaluation\<close>

definition squote :: "string \<Rightarrow> string" where "squote s = CHR 0x27 # s @ [CHR 0x27]"

definition truthy :: "datum \<Rightarrow> bool" where
  "truthy d = (case d of DBool b \<Rightarrow> b | DInt i \<Rightarrow> i \<noteq> 0 | DFloat f \<Rightarrow> \<not> f64_eq f 0 | _ \<Rightarrow> False)"

fun eval_operand :: "(expr \<Rightarrow> string) \<Rightarrow> (string \<Rightarrow> datum result) \<Rightarrow> expr \<Rightarrow> datum result" where
  "eval_operand dbg resolve (ELiteral d) = Inr d"
| "eval_operand dbg resolve (EColumn name) = resolve name"
| "eval_operand dbg resolve e = Inl (NotSupported (''cannot evaluate '' @ dbg e @ '' as a scalar''))"

definition negate_if :: "bool \<Rightarrow> bool \<Rightarrow> bool" where "negate_if negated b = (if negated then \<not> b else b)"

fun eval_with :: "(expr \<Rightarrow> string) \<Rightarrow> (datum \<Rightarrow> string) \<Rightarrow> (string \<Rightarrow> datum result) \<Rightarrow> expr \<Rightarrow> bool result" where
  "eval_with dbg disp resolve (EAnd a b) =
     rbind (eval_with dbg disp resolve a) (\<lambda>x. if x then eval_with dbg disp resolve b else Inr False)"
| "eval_with dbg disp resolve (EOr a b) =
     rbind (eval_with dbg disp resolve a) (\<lambda>x. if x then Inr True else eval_with dbg disp resolve b)"
| "eval_with dbg disp resolve (ENot e) = rbind (eval_with dbg disp resolve e) (\<lambda>x. Inr (\<not> x))"
| "eval_with dbg disp resolve (ECmp left op right) =
     rbind (eval_operand dbg resolve left) (\<lambda>l.
     rbind (eval_operand dbg resolve right) (\<lambda>r.
       if l = DNull \<or> r = DNull then Inr False
       else (case coerce_pair l r of (l, r) \<Rightarrow> cmp_apply op l r)))"
| "eval_with dbg disp resolve (EIn e values negated) =
     rbind (eval_operand dbg resolve e) (\<lambda>target.
       if target = DNull then Inr False
       else Inr (negate_if negated
         (\<exists>v \<in> set values. v \<noteq> DNull \<and> (case coerce_pair target v of (t, e) \<Rightarrow> datum_eq t e))))"
| "eval_with dbg disp resolve (EBetween e lo hi negated) =
     rbind (eval_operand dbg resolve e) (\<lambda>target.
       if target = DNull then Inr False
       else (case coerce_pair target lo of (t, l) \<Rightarrow>
             case coerce_pair t hi of (t, h) \<Rightarrow>
               Inr (negate_if negated (datum_cmp t l \<noteq> Less \<and> datum_cmp t h \<noteq> Greater))))"
| "eval_with dbg disp resolve (ELike e pattern negated) =
     rbind (eval_operand dbg resolve e) (\<lambda>target.
       if target = DNull then Inr False
       else Inr (negate_if negated (like_match (disp target) pattern)))"
| "eval_with dbg disp resolve (EColumn name) = rbind (resolve name) (\<lambda>d. Inr (truthy d))"
| "eval_with dbg disp resolve (ELiteral d) = Inr (truthy d)"
| "eval_with dbg disp resolve e = Inl (NotSupported (''cannot evaluate '' @ dbg e @ '' as a predicate''))"

definition row_lookup :: "schema \<Rightarrow> datum list \<Rightarrow> string \<Rightarrow> datum result" where
  "row_lookup sch row name =
     (case index_of sch name of None \<Rightarrow> Inl (ColumnNotFound name) | Some idx \<Rightarrow> Inr (row ! idx))"

definition eval_expr :: "(expr \<Rightarrow> string) \<Rightarrow> (datum \<Rightarrow> string) \<Rightarrow> expr \<Rightarrow> schema \<Rightarrow> datum list \<Rightarrow> bool result" where
  "eval_expr dbg disp e sch row = eval_with dbg disp (row_lookup sch row) e"

fun collect_columns :: "expr \<Rightarrow> string list" where
  "collect_columns (EColumn name) = [name]"
| "collect_columns (ELiteral _) = []"
| "collect_columns (ECmp left _ right) = collect_columns left @ collect_columns right"
| "collect_columns (EAnd a b) = collect_columns a @ collect_columns b"
| "collect_columns (EOr a b) = collect_columns a @ collect_columns b"
| "collect_columns (ENot e) = collect_columns e"
| "collect_columns (EIn e _ _) = collect_columns e"
| "collect_columns (EBetween e _ _ _) = collect_columns e"
| "collect_columns (ELike e _ _) = collect_columns e"
| "collect_columns (EInSubquery e _ _) = collect_columns e"
| "collect_columns (EScalarSubquery _) = []"
| "collect_columns (EExists _ _) = []"

section \<open>LIKE, declaratively\<close>

text \<open>A pattern matches: \<open>%\<close> stands for any sequence of characters, \<open>_\<close> for one, any other character for itself.\<close>

inductive like :: "string list \<Rightarrow> string list \<Rightarrow> bool" where
  like_empty: "like [] []"
| like_percent: "like t p \<Longrightarrow> like (s @ t) (percent # p)"
| like_underscore: "like t p \<Longrightarrow> like (c # t) (underscore # p)"
| like_char: "like t p \<Longrightarrow> c \<noteq> percent \<Longrightarrow> like (c # t) (c # p)"

inductive_cases like_NilE: "like t []"
inductive_cases like_ConsE: "like t (c # p)"

lemma like_Nil_iff: "like t [] \<longleftrightarrow> t = []"
  by (auto elim: like_NilE intro: like.intros)

lemma like_percent_iff: "like t (percent # p) \<longleftrightarrow> (\<exists>k \<le> length t. like (drop k t) p)"
proof
  assume "like t (percent # p)"
  then obtain s u where "t = s @ u" "like u p" by (rule like_ConsE) auto
  then show "\<exists>k \<le> length t. like (drop k t) p" by (intro exI [of _ "length s"]) simp
next
  assume "\<exists>k \<le> length t. like (drop k t) p"
  then show "like t (percent # p)" by (metis append_take_drop_id like_percent)
qed

lemma like_other_iff: "c \<noteq> percent \<Longrightarrow> like t (c # p) \<longleftrightarrow> t \<noteq> [] \<and> (c = underscore \<or> c = hd t) \<and> like (tl t) p"
  by (cases t) (auto elim: like_ConsE intro: like.intros)

lemma ex_drop_shift:
  assumes "i \<le> length t"
  shows "(\<exists>j. i \<le> j \<and> j \<le> length t \<and> P (drop j t)) \<longleftrightarrow> (\<exists>k \<le> length (drop i t). P (drop k (drop i t)))"
proof
  assume "\<exists>j. i \<le> j \<and> j \<le> length t \<and> P (drop j t)"
  then obtain j where "i \<le> j" "j \<le> length t" "P (drop j t)" by blast
  then show "\<exists>k \<le> length (drop i t). P (drop k (drop i t))" by (intro exI [of _ "j - i"]) simp
next
  assume "\<exists>k \<le> length (drop i t). P (drop k (drop i t))"
  then obtain k where "k \<le> length t - i" "P (drop (k + i) t)" by auto
  then show "\<exists>j. i \<le> j \<and> j \<le> length t \<and> P (drop j t)" using assms by (intro exI [of _ "k + i"]) simp
qed

lemma like_percents: "like t (percent # p) \<longleftrightarrow> (\<exists>k \<le> length t. like (drop k t) (dropWhile (\<lambda>c. c = percent) p))"
proof (induction p arbitrary: t)
  case (Cons c p)
  show ?case
  proof (cases "c = percent")
    case True
    have "like t (percent # percent # p) \<longleftrightarrow> (\<exists>k \<le> length t. \<exists>j \<le> length (drop k t). like (drop j (drop k t)) (dropWhile (\<lambda>c. c = percent) p))"
      by (subst like_percent_iff) (simp only: Cons.IH)
    also have "\<dots> \<longleftrightarrow> (\<exists>k \<le> length t. like (drop k t) (dropWhile (\<lambda>c. c = percent) p))"
      by (auto simp: add.commute) (metis add_leD1 le_add_diff_inverse le_diff_conv2 add.commute drop0 diff_zero zero_le)+
    finally show ?thesis using True by simp
  qed (simp add: like_percent_iff)
qed (simp add: like_percent_iff)

text \<open>The memo table only holds true answers.\<close>

definition memo_ok :: "string list \<Rightarrow> string list \<Rightarrow> like_memo \<Rightarrow> bool" where
  "memo_ok t p memo \<longleftrightarrow> (\<forall>ti pi r. memo (ti, pi) = Some r \<longrightarrow> r = like (drop ti t) (drop pi p))"

lemma drop_skip_percent: "drop (skip_percent p pi) p = dropWhile (\<lambda>c. c = percent) (drop pi p)"
  unfolding skip_percent_def by (metis add.commute drop_drop dropWhile_eq_drop)

lemma like_go_any:
  "memo_ok t p memo \<Longrightarrow> ti \<le> length t \<Longrightarrow> pi \<le> length p \<Longrightarrow>
     fst (like_go t p memo ti pi) = like (drop ti t) (drop pi p) \<and> memo_ok t p (snd (like_go t p memo ti pi))"
  "memo_ok t p memo \<Longrightarrow> pj \<le> length p \<Longrightarrow>
     fst (like_any t p memo k pj) = (\<exists>j. k \<le> j \<and> j \<le> length t \<and> like (drop j t) (drop pj p)) \<and> memo_ok t p (snd (like_any t p memo k pj))"
proof (induction t p memo ti pi and t p memo k pj rule: like_go_like_any.induct)
  case (1 t p memo ti pi)
  show ?case
  proof (cases "memo (ti, pi)")
    case (Some r)
    then show ?thesis using 1(3) by (auto simp: like_go.simps memo_ok_def)
  next
    case None
    have upd: "fst x = like (drop ti t) (drop pi p) \<Longrightarrow> memo_ok t p (snd x) \<Longrightarrow> memo_ok t p ((snd x)((ti, pi) \<mapsto> fst x))" for x
      by (auto simp: memo_ok_def)
    define body where "body = (if length p \<le> pi then (ti = length t, memo)
              else if p ! pi = percent then like_any t p memo ti (skip_percent p pi)
              else if ti < length t \<and> (p ! pi = underscore \<or> p ! pi = t ! ti) then like_go t p memo (Suc ti) (Suc pi)
              else (False, memo))"
    have run: "like_go t p memo ti pi = (fst body, (snd body)((ti, pi) \<mapsto> fst body))"
      by (subst like_go.simps) (simp add: None body_def Let_def case_prod_beta)
    have "fst body = like (drop ti t) (drop pi p) \<and> memo_ok t p (snd body)"
    proof (cases "length p \<le> pi")
      case True
      then show ?thesis using 1(3,4) by (auto simp: body_def like_Nil_iff)
    next
      case False
      then have d: "drop pi p = p ! pi # drop (Suc pi) p" by (simp add: Cons_nth_drop_Suc)
      show ?thesis
      proof (cases "p ! pi = percent")
        case True
        have "skip_percent p pi \<le> length p"
          using length_takeWhile_le [of "\<lambda>c. c = percent" "drop pi p"] False by (simp add: skip_percent_def)
        from 1(1) [OF None False True 1(3) this] False True
        have "fst body = (\<exists>j. ti \<le> j \<and> j \<le> length t \<and> like (drop j t) (drop (skip_percent p pi) p))" "memo_ok t p (snd body)"
          by (simp_all add: body_def)
        moreover have "drop (skip_percent p pi) p = dropWhile (\<lambda>c. c = percent) (drop (Suc pi) p)"
          by (simp add: drop_skip_percent d True)
        ultimately show ?thesis using ex_drop_shift [OF 1(4), of "\<lambda>u. like u (dropWhile (\<lambda>c. c = percent) (drop (Suc pi) p))"]
          by (simp add: d True like_percents)
      next
        case np: False
        show ?thesis
        proof (cases "ti < length t \<and> (p ! pi = underscore \<or> p ! pi = t ! ti)")
          case True
          then have "drop ti t = t ! ti # drop (Suc ti) t" by (simp add: Cons_nth_drop_Suc)
          with 1(2) [OF None False np True 1(3)] True False np show ?thesis by (auto simp: body_def d like_other_iff)
        next
          case nm: False
          then have "\<not> (drop ti t \<noteq> [] \<and> (p ! pi = underscore \<or> p ! pi = hd (drop ti t)))" by (auto simp: hd_drop_conv_nth)
          with nm False np 1(3) show ?thesis by (auto simp: body_def d like_other_iff)
        qed
      qed
    qed
    with upd [of body] show ?thesis by (simp add: run fun_upd_def)
  qed
next
  case (2 t p memo k pj)
  show ?case
  proof (cases "length t < k")
    case False
    obtain r m where g: "like_go t p memo k pj = (r, m)" by fastforce
    with 2(1) [OF False 2(3) _ 2(4)] False have r: "r = like (drop k t) (drop pj p)" "memo_ok t p m" by simp_all
    show ?thesis
    proof (cases r)
      case True
      then show ?thesis using g r False by (auto simp: like_any.simps [of t p memo k])
    next
      case nr: False
      then have "r = False" by simp
      note n = 2(2) [OF False g [symmetric] this r(2) 2(4)]
      have "like_any t p memo k pj = like_any t p m (Suc k) pj" using False g nr by (simp add: like_any.simps [of t p memo k])
      moreover have "(\<exists>j. k \<le> j \<and> Q j) \<longleftrightarrow> Q k \<or> (\<exists>j. Suc k \<le> j \<and> Q j)" for Q by (metis Suc_leD Suc_leI le_neq_implies_less le_refl)
      from this [of "\<lambda>j. j \<le> length t \<and> like (drop j t) (drop pj p)"]
      have "(\<exists>j. k \<le> j \<and> j \<le> length t \<and> like (drop j t) (drop pj p)) \<longleftrightarrow> (\<exists>j. Suc k \<le> j \<and> j \<le> length t \<and> like (drop j t) (drop pj p))"
        using r(1) nr by simp
      ultimately show ?thesis using n by simp
    qed
  qed (use 2(3) in \<open>auto simp: like_any.simps [of t p memo k]\<close>)
qed

lemma like_match_like: "like_match text pattern \<longleftrightarrow> like (chars text) (chars pattern)"
  using like_go_any(1) [of "chars text" "chars pattern" Map.empty 0 0] by (simp add: like_match_def memo_ok_def)

section \<open>What an evaluation depends on\<close>

lemma eval_operand_cong:
  "(\<And>n. n \<in> set (collect_columns e) \<Longrightarrow> r n = r' n) \<Longrightarrow> eval_operand dbg r e = eval_operand dbg r' e"
  by (cases e) simp_all

lemma eval_with_cong:
  "(\<And>n. n \<in> set (collect_columns e) \<Longrightarrow> r n = r' n) \<Longrightarrow> eval_with dbg disp r e = eval_with dbg disp r' e"
proof (induction e)
  case (EAnd a b)
  then have "eval_with dbg disp r a = eval_with dbg disp r' a" "eval_with dbg disp r b = eval_with dbg disp r' b" by simp_all
  then show ?case by (simp cong: if_cong)
next
  case (EOr a b)
  then have "eval_with dbg disp r a = eval_with dbg disp r' a" "eval_with dbg disp r b = eval_with dbg disp r' b" by simp_all
  then show ?case by (simp cong: if_cong)
next
  case (ECmp left op right)
  then show ?case using eval_operand_cong [of left r r'] eval_operand_cong [of right r r'] by simp
next
  case (EIn e vs neg)
  then show ?case using eval_operand_cong [of e r r'] by simp
next
  case (EBetween e lo hi neg)
  then show ?case using eval_operand_cong [of e r r'] by simp
next
  case (ELike e p neg)
  then show ?case using eval_operand_cong [of e r r'] by simp
qed simp_all

text \<open>Operands and predicates the evaluator handles: subqueries are folded away before.\<close>

fun operand :: "expr \<Rightarrow> bool" where
  "operand (EColumn _) = True"
| "operand (ELiteral _) = True"
| "operand _ = False"

fun predicate :: "expr \<Rightarrow> bool" where
  "predicate (EColumn _) = True"
| "predicate (ELiteral _) = True"
| "predicate (ECmp a _ b) = (operand a \<and> operand b)"
| "predicate (EAnd a b) = (predicate a \<and> predicate b)"
| "predicate (EOr a b) = (predicate a \<and> predicate b)"
| "predicate (ENot e) = predicate e"
| "predicate (EIn e _ _) = operand e"
| "predicate (EBetween e _ _ _) = operand e"
| "predicate (ELike e _ _) = operand e"
| "predicate _ = False"

lemma eval_operand_ok:
  "operand e \<Longrightarrow> \<forall>n \<in> set (collect_columns e). \<exists>d. r n = Inr d \<Longrightarrow> \<exists>d. eval_operand dbg r e = Inr d"
  by (cases e) auto

lemma cmp_apply_ok: "\<exists>b. cmp_apply op x y = Inr b"
  by (cases op) auto

lemma eval_with_ok:
  "predicate e \<Longrightarrow> \<forall>n \<in> set (collect_columns e). \<exists>d. r n = Inr d \<Longrightarrow> \<exists>b. eval_with dbg disp r e = Inr b"
proof (induction e)
  case (ECmp a op b)
  then obtain x y where "eval_operand dbg r a = Inr x" "eval_operand dbg r b = Inr y"
    using eval_operand_ok [of a r dbg] eval_operand_ok [of b r dbg] by auto
  then show ?case using cmp_apply_ok by (auto simp: case_prod_beta intro: exI [of _ False])
next
  case (EBetween e lo hi neg)
  then show ?case using eval_operand_ok [of e r dbg] by (auto split: prod.split)
next
  case (EIn e vs neg)
  then show ?case using eval_operand_ok [of e r dbg] by auto
next
  case (ELike e pat neg)
  then show ?case using eval_operand_ok [of e r dbg] by auto
qed auto

section \<open>Comparison is symmetric\<close>

fun mirror :: "ordering \<Rightarrow> ordering" where
  "mirror Less = Greater"
| "mirror Greater = Less"
| "mirror Equal = Equal"

lemma mirror_eq [simp]: "mirror x = Less \<longleftrightarrow> x = Greater" "mirror x = Greater \<longleftrightarrow> x = Less" "mirror x = Equal \<longleftrightarrow> x = Equal"
  by (cases x, simp_all)+

lemma cmp_mirror: "cmp b a = mirror (cmp a b)"
  by (auto simp: cmp_def)

lemma partial_cmp_mirror: "unwrap_or_equal (partial_cmp_f64 b a) = mirror (unwrap_or_equal (partial_cmp_f64 a b))"
  by (auto simp: partial_cmp_f64_def unwrap_or_equal_def cmp_mirror [of "f64_key b"])

lemma datum_cmp_mirror: "datum_cmp b a = mirror (datum_cmp a b)"
proof (cases "type_rank a = type_rank b")
  case False
  then show ?thesis by (simp add: datum_cmp_def Let_def cmp_mirror [of "type_rank b"])
next
  case True
  then show ?thesis
    by (cases a; cases b)
       (simp_all add: datum_cmp_def Let_def cmp_mirror [symmetric] partial_cmp_mirror [symmetric])
qed

lemma datum_eq_sym: "datum_eq a b = datum_eq b a"
  by (cases a; cases b) (auto simp: f64_eq_def)

lemma cmp_apply_swap: "cmp_apply (cmp_flipped op) b a = cmp_apply op a b"
  by (cases op) (auto simp: datum_cmp_mirror [of b a] datum_eq_sym [of b a])

lemma coerce_pair_swap: "coerce_pair b a = prod.swap (coerce_pair a b)"
  by (cases a; cases b) (simp_all split: option.split)

section \<open>Properties\<close>

text \<open>C31. LIKE is decided correctly: the memoised matcher agrees with the declarative meaning of patterns on the
  characters of both strings, for every text and pattern.\<close>
theorem like_match_correct: "like_match text pattern \<longleftrightarrow> like (chars text) (chars pattern)"
  by (rule like_match_like)

text \<open>A predicate without subqueries evaluates without error whenever the columns it mentions resolve, and
  its value depends on these columns only.\<close>
theorem predicate_evaluates:
  assumes "predicate e" "\<forall>n \<in> set (collect_columns e). \<exists>d. r n = Inr d"
  shows "\<exists>b. eval_with dbg disp r e = Inr b \<and>
    (\<forall>r'. (\<forall>n \<in> set (collect_columns e). r' n = r n) \<longrightarrow> eval_with dbg disp r' e = Inr b)"
  using eval_with_ok [OF assms] eval_with_cong [of e _ r dbg disp] by metis

theorem predicate_evaluates_witness:
  "\<exists>b. \<forall>r'. r' ''age'' = Inr (DInt 41) \<longrightarrow>
     eval_with (\<lambda>_. ''?'') type_name r' (EAnd (ECmp (EColumn ''age'') Ge (ELiteral (DInt 18))) (ENot (EColumn ''age''))) = Inr b"
proof -
  let ?e = "EAnd (ECmp (EColumn ''age'') Ge (ELiteral (DInt 18))) (ENot (EColumn ''age''))"
  have "predicate ?e" "set (collect_columns ?e) = {''age''}" by simp_all
  with predicate_evaluates [of ?e "\<lambda>_. Inr (DInt 41)" "\<lambda>_. ''?''" type_name] show ?thesis by auto
qed

text \<open>Turning a comparison round does not change it: \<open>literal op column\<close> has the value of
  \<open>column (cmp_flipped op) literal\<close>, which is what the parser makes of it, for every pair of operands that evaluate.\<close>
theorem flipped_comparison:
  assumes "eval_operand dbg r a = Inr x" "eval_operand dbg r b = Inr y"
  shows "eval_with dbg disp r (ECmp b (cmp_flipped op) a) = eval_with dbg disp r (ECmp a op b)"
  using assms cmp_apply_swap by (auto simp: coerce_pair_swap [of y x] split: prod.split)

theorem flipped_comparison_witness:
  "\<forall>disp. eval_with (\<lambda>_. ''?'') disp (\<lambda>_. Inr (DInt 3)) (ECmp (EColumn ''a'') Gt (ELiteral (DBool True))) =
     eval_with (\<lambda>_. ''?'') disp (\<lambda>_. Inr (DInt 3)) (ECmp (ELiteral (DBool True)) Lt (EColumn ''a''))"
  using flipped_comparison [of "\<lambda>_. ''?''" "\<lambda>_. Inr (DInt 3)" "ELiteral (DBool True)" "DBool True" "EColumn ''a''" "DInt 3" _ Lt] by simp



end
