(* ===== verification/Access_Path.thy ===== *)
theory Access_Path
  imports Table_Scan Sql_Eval
begin

text \<open>
  Access-path selection (\<open>crates/engine/src/db/plan.rs\<close>): the bounds on the primary key or on an indexed column
  that follow from a WHERE clause. The executor filters the fetched rows with the whole clause again, so a path
  may fetch too much; it must never fetch too little.

  \<^item> \<open>collect_col_bounds\<close> updates its out-parameters, here the record \<open>bounds\<close>.
  \<^item> The conversion of a double to an integer follows the language: \<open>fract() == 0.0\<close> is \<open>f64_integral\<close> and
    \<open>as i64\<close> is \<open>f64_as_i64\<close>, which saturates.
\<close>

section \<open>Integers in doubles\<close>

definition f64_expo :: "f64 \<Rightarrow> nat" where "f64_expo v = f64_mag v div 2 ^ 52"

definition f64_frac :: "f64 \<Rightarrow> nat" where "f64_frac v = f64_mag v mod 2 ^ 52"

definition f64_integral :: "f64 \<Rightarrow> bool" where
  "f64_integral v \<longleftrightarrow>
     (if f64_expo v = 2047 then False
      else if f64_expo v = 0 then f64_frac v = 0
      else 1075 \<le> f64_expo v \<or> (2 ^ 52 + f64_frac v) mod 2 ^ (1075 - f64_expo v) = 0)"

definition f64_trunc :: "f64 \<Rightarrow> int" where
  "f64_trunc v =
     (let m = (if f64_expo v = 0 then 0
               else if 1075 \<le> f64_expo v then (2 ^ 52 + f64_frac v) * 2 ^ (f64_expo v - 1075)
               else (2 ^ 52 + f64_frac v) div 2 ^ (1075 - f64_expo v))
      in if f64_neg v then - int m else int m)"

definition f64_as_i64 :: "f64 \<Rightarrow> i64" where
  "f64_as_i64 v =
     (if f64_nan v then 0
      else word_of_int (max (- (2 ^ 63)) (min (2 ^ 63 - 1) (f64_trunc v))))"

section \<open>Access paths\<close>

type_synonym bound = "(datum \<times> bool) option"

datatype access_path =
    Point datum
  | PkIn "datum list"
  | RangePath bound bound
  | SecondaryPath nat bound bound
  | SecIn nat "datum list"
  | FullScan

fun coerce_for_col :: "column_type \<Rightarrow> datum \<Rightarrow> datum option" where
  "coerce_for_col TInt (DInt v) = Some (DInt v)"
| "coerce_for_col TBigInt (DInt v) = Some (DInt v)"
| "coerce_for_col TFloat (DInt v) = Some (DFloat (f64_of_i64 v))"
| "coerce_for_col TDouble (DInt v) = Some (DFloat (f64_of_i64 v))"
| "coerce_for_col TFloat (DFloat v) = Some (DFloat v)"
| "coerce_for_col TDouble (DFloat v) = Some (DFloat v)"
| "coerce_for_col TText (DText v) = Some (DText v)"
| "coerce_for_col TVarChar (DText v) = Some (DText v)"
| "coerce_for_col TBool (DBool v) = Some (DBool v)"
| "coerce_for_col TBool (DInt v) = Some (DBool (v \<noteq> 0))"
| "coerce_for_col TInt (DBool v) = Some (DInt (bool_int v))"
| "coerce_for_col TBigInt (DBool v) = Some (DInt (bool_int v))"
| "coerce_for_col TInt (DFloat v) = (if f64_integral v then Some (DInt (f64_as_i64 v)) else None)"
| "coerce_for_col TBigInt (DFloat v) = (if f64_integral v then Some (DInt (f64_as_i64 v)) else None)"
| "coerce_for_col _ _ = None"

fun or_eq_list :: "string \<Rightarrow> column_type \<Rightarrow> expr \<Rightarrow> datum list option" where
  "or_eq_list target ct (EOr a b) =
     (case or_eq_list target ct a of
        None \<Rightarrow> None
      | Some l \<Rightarrow> (case or_eq_list target ct b of None \<Rightarrow> None | Some r \<Rightarrow> Some (l @ r)))"
| "or_eq_list target ct (ECmp (EColumn col) op (ELiteral lit)) =
     (if col \<noteq> target \<or> op \<noteq> Eq \<or> lit = DNull then None
      else map_option (\<lambda>v. [v]) (coerce_for_col ct lit))"
| "or_eq_list target ct e = None"

text \<open>Code points of characters, for \<open>char::from_u32(c as u32 + 1)\<close>.\<close>

definition code_point :: "string \<Rightarrow> nat" where
  "code_point s =
     (case map of_char s of
        [a] \<Rightarrow> a
      | [a, b] \<Rightarrow> (a - 0xC0) * 64 + (b - 0x80)
      | [a, b, c] \<Rightarrow> (a - 0xE0) * 4096 + (b - 0x80) * 64 + (c - 0x80)
      | [a, b, c, d] \<Rightarrow> (a - 0xF0) * 262144 + (b - 0x80) * 4096 + (c - 0x80) * 64 + (d - 0x80)
      | _ \<Rightarrow> 0)"

definition utf8_char :: "nat \<Rightarrow> string" where
  "utf8_char n = map char_of
     (if n < 0x80 then [n]
      else if n < 0x800 then [0xC0 + n div 64, 0x80 + n mod 64]
      else if n < 0x10000 then [0xE0 + n div 4096, 0x80 + n div 64 mod 64, 0x80 + n mod 64]
      else [0xF0 + n div 262144, 0x80 + n div 4096 mod 64, 0x80 + n div 64 mod 64, 0x80 + n mod 64])"

definition char_from_u32 :: "nat \<Rightarrow> string option" where
  "char_from_u32 n = (if n \<le> 0x10FFFF \<and> \<not> (0xD800 \<le> n \<and> n \<le> 0xDFFF) then Some (utf8_char n) else None)"

fun upper_loop :: "string list \<Rightarrow> string option" where
  "upper_loop [] = None"
| "upper_loop (c # cs) =
     (if code_point c = 0x10FFFF then upper_loop cs
      else map_option (\<lambda>d. concat (rev cs) @ d) (char_from_u32 (code_point c + 1)))"

definition prefix_upper :: "string \<Rightarrow> string option" where
  "prefix_upper prefix = upper_loop (rev (chars prefix))"

section \<open>Collecting bounds\<close>

record bounds =
  b_eq :: "datum option"
  b_lo :: bound
  b_hi :: bound
  b_in :: "datum list"
  b_saw_in :: bool
  b_has_pred :: bool

definition no_bounds :: bounds where
  "no_bounds = \<lparr>b_eq = None, b_lo = None, b_hi = None, b_in = [], b_saw_in = False, b_has_pred = False\<rparr>"

definition update_bound :: "bound \<Rightarrow> datum \<Rightarrow> bool \<Rightarrow> bool \<Rightarrow> bound" where
  "update_bound slot lit inclusive is_lower =
     (let better = (case slot of
         None \<Rightarrow> True
       | Some (cur, cur_inc) \<Rightarrow>
           (if is_lower then datum_cmp lit cur = Greater else datum_cmp lit cur = Less) \<or>
           datum_eq lit cur \<and> inclusive \<and> \<not> cur_inc)
      in if better then Some (lit, inclusive) else slot)"

fun collect_col_bounds :: "string \<Rightarrow> column_type \<Rightarrow> expr \<Rightarrow> bounds \<Rightarrow> bounds \<times> bool" where
  "collect_col_bounds target ct (EAnd a b) st =
     (case collect_col_bounds target ct a st of (st, ok_a) \<Rightarrow>
      case collect_col_bounds target ct b st of (st, ok_b) \<Rightarrow> (st, ok_a \<and> ok_b))"
| "collect_col_bounds target ct (EOr a b) st =
     (case or_eq_list target ct (EOr a b) of
        Some vals \<Rightarrow>
          (if b_eq st = None then st\<lparr>b_has_pred := True, b_saw_in := True, b_in := b_in st @ vals\<rparr> else st, True)
      | None \<Rightarrow> (st, True))"
| "collect_col_bounds target ct (ECmp (EColumn col) op (ELiteral lit)) st =
     (if col \<noteq> target \<or> lit = DNull then (st, True)
      else case coerce_for_col ct lit of
        None \<Rightarrow> (st, False)
      | Some c \<Rightarrow>
          (let st = st\<lparr>b_has_pred := True\<rparr> in
           (case op of
              Eq \<Rightarrow> st\<lparr>b_eq := Some c\<rparr>
            | Ge \<Rightarrow> st\<lparr>b_lo := update_bound (b_lo st) c True True\<rparr>
            | Gt \<Rightarrow> st\<lparr>b_lo := update_bound (b_lo st) c False True\<rparr>
            | Le \<Rightarrow> st\<lparr>b_hi := update_bound (b_hi st) c True False\<rparr>
            | Lt \<Rightarrow> st\<lparr>b_hi := update_bound (b_hi st) c False False\<rparr>
            | Ne \<Rightarrow> st, True)))"
| "collect_col_bounds target ct (EIn (EColumn col) vals False) st =
     (if col \<noteq> target \<or> b_eq st \<noteq> None then (st, True)
      else (st\<lparr>b_has_pred := True, b_saw_in := True,
               b_in := b_in st @ List.map_filter (coerce_for_col ct) (filter (\<lambda>v. v \<noteq> DNull) vals)\<rparr>, True))"
| "collect_col_bounds target ct (EBetween (EColumn col) lo hi False) st =
     (if col \<noteq> target then (st, True)
      else case (coerce_for_col ct lo, coerce_for_col ct hi) of
        (Some l, Some h) \<Rightarrow>
          (st\<lparr>b_has_pred := True, b_lo := update_bound (b_lo st) l True True,
              b_hi := update_bound (b_hi st) h True False\<rparr>, True)
      | _ \<Rightarrow> (st, False))"
| "collect_col_bounds target ct (ELike (EColumn col) pattern False) st =
     (if col \<noteq> target \<or> ct \<noteq> TText \<and> ct \<noteq> TVarChar then (st, True)
      else let prefix = concat (takeWhile (\<lambda>c. c \<noteq> percent \<and> c \<noteq> underscore) (chars pattern)) in
        if length prefix = length pattern then
          (case coerce_for_col ct (DText prefix) of
             Some c \<Rightarrow> (st\<lparr>b_has_pred := True, b_eq := Some c\<rparr>, True)
           | None \<Rightarrow> (st, True))
        else if prefix = [] then (st, True)
        else
          (st\<lparr>b_has_pred := True, b_lo := update_bound (b_lo st) (DText prefix) True True,
              b_hi := (case prefix_upper prefix of
                         Some upper \<Rightarrow> update_bound (b_hi st) (DText upper) False False
                       | None \<Rightarrow> b_hi st)\<rparr>, True))"
| "collect_col_bounds target ct e st = (st, True)"

text \<open>The path that the bounds on an indexed column give, and the search over the indexes.\<close>

fun sec_path :: "schema \<Rightarrow> expr \<Rightarrow> index_def list \<Rightarrow> access_path" where
  "sec_path sch sel [] = FullScan"
| "sec_path sch sel (d # ds) =
     (case index_of sch (ix_column d) of
        None \<Rightarrow> sec_path sch sel ds
      | Some col_idx \<Rightarrow>
          (case collect_col_bounds (ix_column d) (cd_type (columns sch ! col_idx)) sel no_bounds of (st, ok) \<Rightarrow>
             if ok \<and> b_eq st \<noteq> None then SecondaryPath col_idx (Some (the (b_eq st), True)) (Some (the (b_eq st), True))
             else if ok \<and> b_saw_in st then SecIn col_idx (b_in st)
             else if ok \<and> b_has_pred st then SecondaryPath col_idx (b_lo st) (b_hi st)
             else sec_path sch sel ds))"

definition access_path :: "table \<Rightarrow> expr option \<Rightarrow> access_path" where
  "access_path t selection =
     (if t_ephemeral t then FullScan
      else case selection of
        None \<Rightarrow> FullScan
      | Some sel \<Rightarrow>
          (let sch = td_schema (t_def t); pk = columns sch ! pk_idx sch in
           case collect_col_bounds (cd_name pk) (cd_type pk) sel no_bounds of (st, ok) \<Rightarrow>
             if ok \<and> b_eq st \<noteq> None then Point (the (b_eq st))
             else if ok \<and> b_saw_in st then PkIn (b_in st)
             else if ok \<and> b_has_pred st then RangePath (b_lo st) (b_hi st)
             else sec_path sch sel (secondary_indexes t)))"

end
