(* ===== verification/Utf8.thy ===== *)
theory Utf8
  imports Access_Path
begin

text \<open>
  Characters of valid UTF-8 strings: splitting and joining, and that the successor of a character sorts above
  every string that starts with the character, which is what the upper bound of a LIKE prefix relies on.
\<close>

section \<open>Splitting into characters\<close>

lemma concat_chars [simp]: "concat (chars s) = s"
  by (induction s rule: chars.induct) simp_all

definition wf_char :: "string \<Rightarrow> bool" where
  "wf_char c \<longleftrightarrow> c \<noteq> [] \<and> valid_str c \<and> length c = char_len (hd c)"

lemma chars_char: "c \<noteq> [] \<Longrightarrow> length c = char_len (hd c) \<Longrightarrow> chars (c @ s) = c # chars s"
proof (cases c)
  case (Cons a t)
  assume l: "length c = char_len (hd c)"
  have "take (length c) (c @ s) = c" "drop (length c) (c @ s) = s" by simp_all
  then show ?thesis using l Cons by (simp only: append_Cons chars.simps list.sel)
qed simp

lemma chars_concat: "list_all wf_char cs \<Longrightarrow> chars (concat cs) = cs"
  by (induction cs) (simp_all add: wf_char_def chars_char)

lemma str_bytes_simps [simp]:
  "str_bytes [] = []" "str_bytes (c # s) = of_nat (of_char c) # str_bytes s" "str_bytes (s @ t) = str_bytes s @ str_bytes t"
  by (simp_all add: str_bytes_def)

lemma in_range_char: "in_range (of_nat (of_char c)) lo hi \<longleftrightarrow> lo \<le> (of_char c :: nat) \<and> (of_char c :: nat) \<le> hi"
  by (simp add: in_range_def)

text \<open>The shape of a valid string that is not empty.\<close>

lemma valid_cases:
  assumes "valid_str (a # s)"
  obtains c r where "a # s = c @ r" "wf_char c" "valid_str r"
proof -
  let ?n = "of_char a :: nat"
  consider "?n \<le> 0x7F" | "0xC2 \<le> ?n" "?n \<le> 0xDF" | "0xE0 \<le> ?n" "?n \<le> 0xEF" | "0xF0 \<le> ?n" "?n \<le> 0xF4"
    using assms by (auto simp: in_range_char split: if_splits)
  then show thesis
  proof cases
    case 1
    then show thesis using assms by (intro that [of "[a]" s]) (auto simp: wf_char_def in_range_char char_len_def split: if_splits)
  next
    case 2
    then obtain b r where "s = b # r" using assms by (cases s) (auto simp: in_range_char split: if_splits)
    then show thesis using assms 2 by (intro that [of "[a, b]" r]) (auto simp: wf_char_def in_range_char char_len_def split: if_splits)
  next
    case 3
    then obtain b c r where "s = b # c # r" using assms by (cases s; cases "tl s") (auto simp: in_range_char split: if_splits)
    then show thesis using assms 3 by (intro that [of "[a, b, c]" r]) (auto simp: wf_char_def in_range_char char_len_def split: if_splits)
  next
    case 4
    then obtain b c d r where "s = b # c # d # r"
      using assms by (cases s; cases "tl s"; cases "tl (tl s)") (auto simp: in_range_char split: if_splits)
    then show thesis using assms 4 by (intro that [of "[a, b, c, d]" r]) (auto simp: wf_char_def in_range_char char_len_def split: if_splits)
  qed
qed

lemma chars_valid: "valid_str s \<Longrightarrow> list_all wf_char (chars s)"
proof (induction s rule: length_induct)
  case (1 s)
  show ?case
  proof (cases s)
    case (Cons a t)
    with 1(2) obtain c r where c: "s = c @ r" "wf_char c" "valid_str r" by (metis valid_cases)
    then have "length r < length s" by (auto simp: wf_char_def)
    with 1(1) c show ?thesis by (simp add: wf_char_def chars_char)
  qed simp
qed

section \<open>The next character\<close>

lemma div_mod_Suc:
  fixes q r m :: nat
  assumes "r < m"
  shows "Suc (q * m + r) div m = (if Suc r = m then Suc q else q)" "Suc (q * m + r) mod m = (if Suc r = m then 0 else Suc r)"
proof -
  have e: "Suc (q * m + r) = Suc r + q * m" by simp
  show "Suc (q * m + r) div m = (if Suc r = m then Suc q else q)" "Suc (q * m + r) mod m = (if Suc r = m then 0 else Suc r)"
    unfolding e using assms by (auto simp del: add_Suc)
qed

definition nat_less :: "nat list \<Rightarrow> nat list \<Rightarrow> bool" where
  "nat_less xs ys \<longleftrightarrow> (map of_nat xs :: u8 list) < map of_nat ys"

lemma nat_less_Cons:
  "x < 256 \<Longrightarrow> y < 256 \<Longrightarrow> nat_less (x # xs) (y # ys) \<longleftrightarrow> x < y \<or> x = y \<and> nat_less xs ys"
  by (simp add: nat_less_def word_less_nat_alt unat_of_nat word_unat_eq_iff)

lemma str_bytes_nat: "str_bytes s = map of_nat (map of_char s)"
  by (simp add: str_bytes_def)

lemma str_bytes_char_of: "list_all (\<lambda>n. n < 256) ns \<Longrightarrow> str_bytes (map char_of ns) = map of_nat ns"
  by (induction ns) simp_all

lemma nat_less_chars: "list_all (\<lambda>n. n < 256) ns \<Longrightarrow> nat_less (map of_char s) ns \<Longrightarrow> str_bytes s < str_bytes (map char_of ns)"
  by (simp add: str_bytes_char_of str_bytes_nat [of s] nat_less_def)

lemma next_char_less:
  assumes "wf_char c" "char_from_u32 (code_point c + 1) = Some d"
  shows "str_bytes (c @ x) < str_bytes d"
proof -
  define n where "n = Suc (code_point c)"
  have n: "d = utf8_char n" "n \<le> 0x10FFFF" using assms(2) by (auto simp: n_def char_from_u32_def split: if_splits)
  have len: "length c \<in> {1, 2, 3, 4}" using assms(1) by (auto simp: wf_char_def char_len_def Let_def)
  consider (1) a where "c = [a]" | (2) a b where "c = [a, b]" | (3) a b e where "c = [a, b, e]" | (4) a b e f where "c = [a, b, e, f]"
    using len by (auto simp: length_Suc_conv numeral_eq_Suc)
  then show ?thesis
    unfolding n(1) utf8_char_def
  proof (cases, goal_cases)
    case (1 a)
    then have "of_char a < (0x80 :: nat)" using assms(1) by (auto simp: wf_char_def in_range_char char_len_def split: if_splits)
    then show ?case by (intro nat_less_chars) (auto simp: 1 n_def code_point_def nat_less_Cons)
  next
    case (2 a b)
    define q r where "q = of_char a - (0xC0 :: nat)" and "r = of_char b - (0x80 :: nat)"
    have ab: "of_char a = 0xC0 + q" "of_char b = 0x80 + r" "q < 32" "r < 64" "2 \<le> q"
      using assms(1) by (auto simp: 2 wf_char_def in_range_char q_def r_def char_len_def split: if_splits)
    then have "n = Suc (q * 64 + r)" by (simp add: n_def 2 code_point_def)
    then show ?case using ab div_mod_Suc [of r 64 q] by (intro nat_less_chars) (auto simp: 2 nat_less_Cons split: if_splits)
  next
    case (3 a b e)
    define q r s where "q = of_char a - (0xE0 :: nat)" and "r = of_char b - (0x80 :: nat)" and "s = of_char e - (0x80 :: nat)"
    have ab: "of_char a = 0xE0 + q" "of_char b = 0x80 + r" "of_char e = 0x80 + s" "q < 16" "r < 64" "s < 64"
      using assms(1) by (auto simp: 3 wf_char_def in_range_char q_def r_def s_def char_len_def split: if_splits)
    have lo: "q = 0 \<Longrightarrow> 32 \<le> r" using assms(1) by (auto simp: 3 wf_char_def in_range_char q_def r_def char_len_def split: if_splits)
    have n3: "n = Suc ((q * 64 + r) * 64 + s)" using ab by (simp add: n_def 3 code_point_def)
    then have dm: "n mod 64 = (if s = 63 then 0 else Suc s)" "n div 64 = (if s = 63 then Suc (q * 64 + r) else q * 64 + r)"
      using div_mod_Suc [of s 64 "q * 64 + r"] ab by auto
    have dd: "n div 4096 = n div 64 div 64" by (simp add: div_mult2_eq [symmetric])
    have "0x800 \<le> n" using lo by (cases "q = 0") (auto simp: n3)
    then show ?case using ab dm dd div_mod_Suc [of r 64 q]
      by (intro nat_less_chars) (auto simp: 3 nat_less_Cons split: if_splits)
  next
    case (4 a b e f)
    define q r s u where "q = of_char a - (0xF0 :: nat)" and "r = of_char b - (0x80 :: nat)"
      and "s = of_char e - (0x80 :: nat)" and "u = of_char f - (0x80 :: nat)"
    have ab: "of_char a = 0xF0 + q" "of_char b = 0x80 + r" "of_char e = 0x80 + s" "of_char f = 0x80 + u" "q < 5" "r < 64" "s < 64" "u < 64"
      using assms(1) by (auto simp: 4 wf_char_def in_range_char q_def r_def s_def u_def char_len_def split: if_splits)
    have lo: "q = 0 \<Longrightarrow> 16 \<le> r" using assms(1) by (auto simp: 4 wf_char_def in_range_char q_def r_def char_len_def split: if_splits)
    have n4: "n = Suc (((q * 64 + r) * 64 + s) * 64 + u)" using ab by (simp add: n_def 4 code_point_def)
    then have dm: "n mod 64 = (if u = 63 then 0 else Suc u)" "n div 64 = (if u = 63 then Suc ((q * 64 + r) * 64 + s) else (q * 64 + r) * 64 + s)"
      using div_mod_Suc [of u 64 "(q * 64 + r) * 64 + s"] ab by auto
    have m: "n div 4096 = n div 64 div 64" "n div 262144 = n div 64 div 64 div 64" by (simp_all add: div_mult2_eq [symmetric])
    have m2: "n div 64 mod 64 = (if u = 63 then if s = 63 then 0 else Suc s else s)"
      "n div 4096 = (if u = 63 \<and> s = 63 then Suc (q * 64 + r) else q * 64 + r)"
      using div_mod_Suc [of s 64 "q * 64 + r"] mod_mult_self3 [of "q * 64 + r" 64 s] ab by (auto simp: dm m add.commute)
    have m3: "n div 4096 mod 64 = (if u = 63 \<and> s = 63 then if r = 63 then 0 else Suc r else r)"
      "n div 262144 = (if u = 63 \<and> s = 63 \<and> r = 63 then Suc q else q)"
      using div_mod_Suc [of r 64 q] ab unfolding m(2) m(1) [symmetric] by (auto simp: m2(2))
    have "0x10000 \<le> n" using lo by (cases "q = 0") (auto simp: n4)
    then show ?case using ab dm(1) m2(1) m3 by (intro nat_less_chars) (auto simp: 4 nat_less_Cons split: if_splits)
  qed
qed

lemma upper_loop_less:
  "list_all wf_char cs \<Longrightarrow> upper_loop cs = Some u \<Longrightarrow> str_bytes (concat (rev cs) @ x) < str_bytes u"
proof (induction cs arbitrary: x)
  case (Cons c cs)
  show ?case
  proof (cases "code_point c = 0x10FFFF")
    case True
    then show ?thesis using Cons.IH [of "c @ x"] Cons.prems by simp
  next
    case False
    with Cons.prems obtain d where d: "char_from_u32 (code_point c + 1) = Some d" "u = concat (rev cs) @ d" by auto
    with next_char_less [of c d x] Cons.prems(1) show ?thesis by simp
  qed
qed simp

lemma prefix_upper_less:
  assumes "list_all wf_char cs" "prefix_upper (concat cs) = Some u"
  shows "str_bytes (concat cs @ x) < str_bytes u"
  using upper_loop_less [of "rev cs" u x] assms by (simp add: prefix_upper_def chars_concat)

end
