(* ===== verification/Access_Path_Correct.thy ===== *)
theory Access_Path_Correct
  imports Utf8
begin

text \<open>
  An access path fetches every row that satisfies the WHERE clause it was chosen for: the bounds collected from a
  clause hold of every value of the column for which the clause is true.
\<close>

section \<open>Cells and literals\<close>

text \<open>The kind of value that a column of a type holds when it is not NULL.\<close>

fun kinded :: "column_type \<Rightarrow> datum \<Rightarrow> bool" where
  "kinded TInt v = (\<exists>i. v = DInt i)"
| "kinded TBigInt v = (\<exists>i. v = DInt i)"
| "kinded TFloat v = (\<exists>f. v = DFloat f)"
| "kinded TDouble v = (\<exists>f. v = DFloat f)"
| "kinded TText v = (\<exists>s. v = DText s)"
| "kinded TVarChar v = (\<exists>s. v = DText s)"
| "kinded TBool v = (\<exists>b. v = DBool b)"
| "kinded TDateTime v = (\<exists>m. v = DDateTime m)"
| "kinded TTimestamp v = (\<exists>m. v = DDateTime m)"

text \<open>Literals whose conversion to the column's type keeps the meaning of a comparison: not a double against an
  integer column, and against a BOOL column no integer but 0 and 1.\<close>

fun tame :: "column_type \<Rightarrow> datum \<Rightarrow> bool" where
  "tame TInt (DFloat _) = False"
| "tame TBigInt (DFloat _) = False"
| "tame TBool (DInt i) = (i = 0 \<or> i = 1)"
| "tame _ _ = True"

text \<open>In an IN list, a member that cannot be converted is dropped; it must not be one the evaluator would convert.\<close>

fun tame_in :: "column_type \<Rightarrow> datum \<Rightarrow> bool" where
  "tame_in TFloat (DBool _) = False"
| "tame_in TDouble (DBool _) = False"
| "tame_in TBool (DFloat _) = False"
| "tame_in TDateTime (DText _) = False"
| "tame_in TTimestamp (DText _) = False"
| "tame_in TDateTime (DDateTime _) = False"
| "tame_in TTimestamp (DDateTime _) = False"
| "tame_in TText (DDateTime _) = False"
| "tame_in TVarChar (DDateTime _) = False"
| "tame_in ct v = tame ct v"

fun tame_expr :: "string \<Rightarrow> column_type \<Rightarrow> expr \<Rightarrow> bool" where
  "tame_expr target ct (EAnd a b) = (tame_expr target ct a \<and> tame_expr target ct b)"
| "tame_expr target ct (EOr a b) = (tame_expr target ct a \<and> tame_expr target ct b)"
| "tame_expr target ct (ECmp (EColumn col) op (ELiteral lit)) = (col = target \<longrightarrow> tame ct lit)"
| "tame_expr target ct (EIn (EColumn col) vals False) = (col = target \<longrightarrow> list_all (tame_in ct) vals)"
| "tame_expr target ct (EBetween (EColumn col) lo hi False) = 
     (col = target \<longrightarrow> tame ct lo \<and> tame ct hi \<and> (ct = TBool \<longrightarrow> type_rank lo = type_rank hi))"
| "tame_expr target ct (ELike (EColumn col) pattern False) = (col = target \<longrightarrow> valid_str pattern)"
| "tame_expr target ct e = True"

lemma datum_eq_cmp: "datum_eq a b \<Longrightarrow> datum_cmp a b = Equal"
  by (cases a; cases b) (simp_all add: datum_cmp_def cmp_def f64_eq_def partial_cmp_f64_def unwrap_or_equal_def)

lemma bool_ints: "sint (bool_int b) = (if b then 1 else 0)"
  by (simp add: bool_int_def)

text \<open>Comparing the cell with the converted literal is comparing what the evaluator compares.\<close>

lemma coerce_cmp:
  assumes "kinded ct v" "tame ct lit" "coerce_for_col ct lit = Some c" "coerce_pair v lit = (l, r)"
  shows "datum_cmp l r = datum_cmp v c" "datum_eq l r \<Longrightarrow> datum_cmp v c = Equal"
proof -
  show e: "datum_cmp l r = datum_cmp v c"
    using assms by (cases ct; cases lit) (auto simp: datum_cmp_def cmp_def bool_ints)
  show "datum_cmp v c = Equal" if "datum_eq l r" using datum_eq_cmp [OF that] e by simp
qed

lemma coerce_in:
  assumes "kinded ct v" "tame_in ct x" "x \<noteq> DNull" "coerce_pair v x = (l, r)" "datum_eq l r"
  shows "\<exists>c. coerce_for_col ct x = Some c \<and> datum_cmp v c = Equal"
proof -
  have t: "tame ct x" using assms(2) by (cases ct; cases x) auto
  have "\<exists>c. coerce_for_col ct x = Some c" using assms by (cases ct; cases x) (auto split: option.splits)
  then show ?thesis using coerce_cmp(2) [OF assms(1) t _ assms(4,5)] by blast
qed

text \<open>The second bound of a BETWEEN is compared with the cell as the first comparison left it.\<close>

lemma coerce_twice:
  assumes "kinded ct v" "tame ct lo" "coerce_for_col ct lo = Some l" "coerce_pair v lo = (t, lo')"
    and "tame ct hi" "coerce_for_col ct hi = Some h" "coerce_pair t hi = (t', hi')"
    and "ct = TBool \<longrightarrow> type_rank lo = type_rank hi"
  shows "datum_cmp t' lo' = datum_cmp v l \<and> datum_cmp t' hi' = datum_cmp v h"
proof (cases "ct = TBool")
  case True
  then show ?thesis using assms by (cases lo; cases hi) (auto simp: datum_cmp_def cmp_def bool_ints)
next
  case False
  then have "t = v" using assms(1-4) by (cases ct; cases lo) auto
  moreover have "t' = v" using False assms(1,5,6,7) \<open>t = v\<close> by (cases ct; cases hi) auto
  ultimately show ?thesis using coerce_cmp(1) [OF assms(1-4)] coerce_cmp(1) [OF assms(1,5,6)] assms(7) by simp
qed

section \<open>Bounds that hold\<close>

definition bounds_ok :: "bounds \<Rightarrow> datum \<Rightarrow> bool" where
  "bounds_ok st v \<longleftrightarrow> (\<forall>x. b_eq st = Some x \<longrightarrow> datum_cmp v x = Equal) \<and> \<not> below_lo (b_lo st) v \<and> \<not> beyond_hi (b_hi st) v \<and>
     (b_saw_in st \<longrightarrow> (\<exists>x \<in> set (b_in st). datum_cmp v x = Equal))"

lemma bound_Some:
  "below_lo (Some (c, True)) v \<longleftrightarrow> datum_lt v c" "below_lo (Some (c, False)) v \<longleftrightarrow> datum_le v c"
  "beyond_hi (Some (c, True)) v \<longleftrightarrow> datum_cmp v c = Greater" "beyond_hi (Some (c, False)) v \<longleftrightarrow> datum_cmp v c \<noteq> Less"
  by (simp_all add: below_lo_def beyond_hi_def)

lemma update_bound_ok:
  "\<not> below_lo slot v \<Longrightarrow> \<not> below_lo (Some (c, incl)) v \<Longrightarrow> \<not> below_lo (update_bound slot c incl True) v"
  "\<not> beyond_hi slot v \<Longrightarrow> \<not> beyond_hi (Some (c, incl)) v \<Longrightarrow> \<not> beyond_hi (update_bound slot c incl False) v"
  by (simp_all add: update_bound_def Let_def)

lemma kinded_not_Null: "kinded ct v \<Longrightarrow> v \<noteq> DNull"
  by (cases ct) auto

lemma or_eq_list_ok:
  "or_eq_list target ct e = Some vals \<Longrightarrow> kinded ct v \<Longrightarrow> r target = Inr v \<Longrightarrow> tame_expr target ct e \<Longrightarrow>
     eval_with dbg disp r e = Inr True \<Longrightarrow> \<exists>x \<in> set vals. datum_cmp v x = Equal"
proof (induction target ct e arbitrary: vals rule: or_eq_list.induct)
  case (1 target ct a b)
  then show ?case by (fastforce simp: rbind_eq_Inr split: option.splits if_splits)
next
  case (2 target ct col op lit)
  obtain l x where c: "coerce_pair v lit = (l, x)" by fastforce
  with 2 have "datum_eq l x" using kinded_not_Null [OF 2(2)] by (auto split: if_splits)
  with 2 c coerce_cmp(2) [OF 2(2) _ _ c] show ?case by (auto split: if_splits)
qed simp_all

lemma or_eq_list_not_Null:
  "or_eq_list target ct e = Some vals \<Longrightarrow> r target = Inr v \<Longrightarrow> eval_with dbg disp r e = Inr True \<Longrightarrow> v \<noteq> DNull"
proof (induction target ct e arbitrary: vals rule: or_eq_list.induct)
  case (1 target ct a b)
  then show ?case by (fastforce simp: rbind_eq_Inr split: option.splits if_splits)
qed (auto split: if_splits)

text \<open>A pattern that starts with characters that are not wildcards only matches texts that start with them.\<close>

lemma like_prefix:
  "like t (ps @ p) \<Longrightarrow> list_all (\<lambda>c. c \<noteq> percent \<and> c \<noteq> underscore) ps \<Longrightarrow> \<exists>u. t = ps @ u \<and> like u p"
proof (induction ps arbitrary: t)
  case (Cons c ps)
  then have "t \<noteq> []" "hd t = c" "like (tl t) (ps @ p)" by (auto simp: like_other_iff)
  moreover from this Cons.IH [of "tl t"] Cons.prems(2) obtain u where "tl t = ps @ u" "like u p" by auto
  ultimately show ?case by (cases t) auto
qed simp

lemma append_less_eq: "(xs :: u8 list) \<le> xs @ ys"
  by (induction xs) simp_all

lemma like_bounds:
  assumes "like_match text pattern" "valid_str pattern"
  defines "prefix \<equiv> concat (takeWhile (\<lambda>c. c \<noteq> percent \<and> c \<noteq> underscore) (chars pattern))"
  shows "length prefix = length pattern \<Longrightarrow> text = prefix"
    and "str_bytes prefix \<le> str_bytes text" and "prefix_upper prefix = Some u \<Longrightarrow> str_bytes text < str_bytes u"
proof -
  let ?P = "\<lambda>c. c \<noteq> percent \<and> c \<noteq> underscore" and ?cs = "chars pattern"
  have l: "like (chars text) (takeWhile ?P ?cs @ dropWhile ?P ?cs)"
    using assms(1) by (simp add: like_match_like)
  have all: "list_all ?P (takeWhile ?P ?cs)" by (auto simp: list_all_iff dest: set_takeWhileD)
  from like_prefix [OF l all] obtain w where w: "chars text = takeWhile ?P ?cs @ w" "like w (dropWhile ?P ?cs)" by blast
  have t: "text = prefix @ concat w" using arg_cong [OF w(1), of concat] by (simp add: prefix_def)
  show "str_bytes prefix \<le> str_bytes text" by (simp add: t append_less_eq)
  have wf: "list_all wf_char ?cs" using chars_valid [OF assms(2)] .
  show "str_bytes text < str_bytes u" if "prefix_upper prefix = Some u"
    using prefix_upper_less [of "takeWhile ?P ?cs" u "concat w"] that wf
    by (auto simp: t prefix_def list_all_iff dest: set_takeWhileD)
  assume "length prefix = length pattern"
  moreover have "prefix @ concat (dropWhile ?P ?cs) = pattern"
    by (simp only: prefix_def concat_append [symmetric] takeWhile_dropWhile_id concat_chars)
  then have "length prefix + length (concat (dropWhile ?P ?cs)) = length pattern" by (metis length_append)
  ultimately have "concat (dropWhile ?P ?cs) = []" by simp
  moreover have "\<forall>c \<in> set (dropWhile ?P ?cs). c \<noteq> []" using wf by (auto simp: list_all_iff wf_char_def dest: set_dropWhileD)
  ultimately have "dropWhile ?P ?cs = []" by (cases "dropWhile ?P ?cs") auto
  with w(2) t show "text = prefix" by (simp add: like_Nil_iff)
qed

lemma collect_ok:
  "kinded ct v \<or> v = DNull \<Longrightarrow> r target = Inr v \<Longrightarrow> eval_with dbg (datum_display fl) r e = Inr True \<Longrightarrow> tame_expr target ct e \<Longrightarrow>
     bounds_ok st v \<Longrightarrow> bounds_ok (fst (collect_col_bounds target ct e st)) v"
proof (induction target ct e st rule: collect_col_bounds.induct)
  case (1 target ct a b st)
  obtain st1 ok1 where a: "collect_col_bounds target ct a st = (st1, ok1)" by fastforce
  obtain st2 ok2 where b: "collect_col_bounds target ct b st1 = (st2, ok2)" by fastforce
  from 1 a b show ?case by (auto simp: rbind_eq_Inr split: if_splits)
next
  case (2 target ct a b st)
  show ?case
  proof (cases "or_eq_list target ct (EOr a b)")
    case (Some vals)
    have "v \<noteq> DNull \<Longrightarrow> \<exists>x \<in> set vals. datum_cmp v x = Equal" using or_eq_list_ok [OF Some _ 2(2,4,3)] 2(1) by blast
    moreover have "v \<noteq> DNull" using or_eq_list_not_Null [OF Some _ 2(3)] 2(2) by blast
    ultimately show ?thesis using 2(5) Some by (auto simp: bounds_ok_def)
  qed (use 2(5) in simp)
next
  case (3 target ct col op lit st)
  show ?case
  proof (cases "col = target \<and> lit \<noteq> DNull \<and> coerce_for_col ct lit \<noteq> None")
    case True
    then obtain c l x where c: "coerce_for_col ct lit = Some c" and p: "coerce_pair v lit = (l, x)" by fastforce
    have ev: "v \<noteq> DNull" "cmp_apply op l x = Inr True" using 3(2,3) True p by (auto split: if_splits)
    note cc = coerce_cmp [OF _ _ c p]
    have "kinded ct v" "tame ct lit" using 3(1,4) True ev by auto
    with cc ev(2) 3(5) c True show ?thesis
      by (cases op) (auto simp: bounds_ok_def Let_def update_bound_ok bound_Some)
  qed (use 3(5) in auto)
next
  case (4 target ct col vals st)
  show ?case
  proof (cases "col = target \<and> b_eq st = None")
    case True
    from 4(2,3) True have "v \<noteq> DNull" and "\<exists>x \<in> set vals. x \<noteq> DNull \<and> (case coerce_pair v x of (t, e) \<Rightarrow> datum_eq t e)"
      by (auto simp: negate_if_def split: if_splits)
    then obtain x l y where x: "x \<in> set vals" "x \<noteq> DNull" "coerce_pair v x = (l, y)" "datum_eq l y" by fastforce
    have "kinded ct v" "tame_in ct x" using 4(1,4) True x(1) \<open>v \<noteq> DNull\<close> by (auto simp: list_all_iff)
    from coerce_in [OF this x(2-4)] obtain c where "coerce_for_col ct x = Some c" "datum_cmp v c = Equal" by blast
    moreover from this(1) x have "c \<in> set (List.map_filter (coerce_for_col ct) (filter (\<lambda>v. v \<noteq> DNull) vals))"
      by (force simp: map_filter_def)
    ultimately show ?thesis using True 4(5) by (auto simp: bounds_ok_def)
  qed (use 4(5) in auto)
next
  case (5 target ct col lo hi st)
  show ?case
  proof (cases "col = target \<and> coerce_for_col ct lo \<noteq> None \<and> coerce_for_col ct hi \<noteq> None")
    case True
    then obtain l h where c: "coerce_for_col ct lo = Some l" "coerce_for_col ct hi = Some h" by blast
    obtain t lo' where p: "coerce_pair v lo = (t, lo')" by fastforce
    obtain t' hi' where q: "coerce_pair t hi = (t', hi')" by fastforce
    from 5(2,3) True p q have ev: "v \<noteq> DNull" "datum_cmp t' lo' \<noteq> Less" "datum_cmp t' hi' \<noteq> Greater"
      by (auto simp: negate_if_def split: if_splits)
    have "kinded ct v" "tame ct lo" "tame ct hi" "ct = TBool \<longrightarrow> type_rank lo = type_rank hi" using 5(1,4) True ev(1) by auto
    from coerce_twice [OF this(1,2) c(1) p this(3) c(2) q this(4)] ev(2,3) 5(5) c True show ?thesis
      by (auto simp: bounds_ok_def update_bound_ok bound_Some)
  qed (use 5(5) in \<open>auto split: option.split\<close>)
next
  case (6 target ct col pattern st)
  let ?p = "concat (takeWhile (\<lambda>c. c \<noteq> percent \<and> c \<noteq> underscore) (chars pattern))"
  show ?case
  proof (cases "col = target \<and> (ct = TText \<or> ct = TVarChar)")
    case True
    from 6(2,3) True have ev: "v \<noteq> DNull" "like_match (datum_display fl v) pattern" by (auto simp: negate_if_def split: if_splits)
    then obtain s where s: "v = DText s" using 6(1) True by auto
    have lb: "length ?p = length pattern \<Longrightarrow> s = ?p" "str_bytes ?p \<le> str_bytes s"
      "\<And>u. prefix_upper ?p = Some u \<Longrightarrow> str_bytes s < str_bytes u"
      using like_bounds [of s pattern] ev(2) 6(4) True s by (auto simp: datum_display_def)
    have "datum_cmp v (DText ?p) = Equal" if "length ?p = length pattern" using lb(1) [OF that] s by (simp add: datum_cmp_def cmp_def)
    moreover have "datum_cmp v (DText ?p) \<noteq> Less" using lb(2) by (simp add: s datum_cmp_def cmp_def not_less)
    moreover have "datum_cmp v (DText u) = Less" if "prefix_upper ?p = Some u" for u using lb(3) [OF that] by (simp add: s datum_cmp_def cmp_def)
    ultimately show ?thesis using True 6(5)
      by (auto simp: bounds_ok_def Let_def update_bound_ok bound_Some split: option.split)
  qed (use 6(5) in auto)
qed simp_all

section \<open>What a path fetches\<close>

text \<open>The rows that the executor fetches over a path, by the value of the primary key or of the indexed column.\<close>

fun covers :: "access_path \<Rightarrow> nat \<Rightarrow> row \<Rightarrow> bool" where
  "covers (Point x) pk r = (datum_cmp (r ! pk) x = Equal)"
| "covers (PkIn xs) pk r = (\<exists>x \<in> set xs. datum_cmp (r ! pk) x = Equal)"
| "covers (RangePath lo hi) pk r = in_bounds lo hi (r ! pk)"
| "covers (SecondaryPath col lo hi) pk r = in_bounds lo hi (r ! col)"
| "covers (SecIn col xs) pk r = (\<exists>x \<in> set xs. in_bounds (Some (x, True)) (Some (x, True)) (r ! col))"
| "covers FullScan pk r = True"

text \<open>The cells of a row have the kinds of their columns, and the literals of a clause are tame for every column.\<close>

definition row_kinded :: "schema \<Rightarrow> row \<Rightarrow> bool" where
  "row_kinded sch r \<longleftrightarrow> (\<forall>i < length (columns sch). kinded (cd_type (columns sch ! i)) (r ! i) \<or> r ! i = DNull)"

definition tame_where :: "schema \<Rightarrow> expr \<Rightarrow> bool" where
  "tame_where sch e \<longleftrightarrow> (\<forall>c \<in> set (columns sch). tame_expr (cd_name c) (cd_type c) e)"

lemma no_bounds_ok: "bounds_ok no_bounds v"
  by (simp add: bounds_ok_def no_bounds_def below_lo_def beyond_hi_def)

lemma index_of_Some: "index_of sch n = Some i \<Longrightarrow> i < length (columns sch) \<and> cd_name (columns sch ! i) = n"
proof -
  assume a: "index_of sch n = Some i"
  let ?ns = "map cd_name (columns sch)"
  have n: "n \<in> set ?ns" "i = length (takeWhile (\<lambda>m. m \<noteq> n) ?ns)" using a by (auto simp: index_of_def Let_def split: if_splits)
  have "dropWhile (\<lambda>m. m \<noteq> n) ?ns \<noteq> []" using n(1) by (auto simp: dropWhile_eq_Nil_conv)
  moreover have "length (takeWhile (\<lambda>m. m \<noteq> n) ?ns) + length (dropWhile (\<lambda>m. m \<noteq> n) ?ns) = length ?ns"
    by (metis length_append takeWhile_dropWhile_id)
  ultimately have "i < length ?ns" using n(2) by (cases "dropWhile (\<lambda>m. m \<noteq> n) ?ns") auto
  moreover have "?ns ! i = n" using nth_length_takeWhile [of "\<lambda>m. m \<noteq> n" ?ns] n(2) calculation by auto
  ultimately show ?thesis by simp
qed

lemma column_bounds:
  assumes "eval_expr dbg (datum_display fl) e sch r = Inr True" "row_kinded sch r" "tame_where sch e" "index_of sch n = Some i"
  shows "bounds_ok (fst (collect_col_bounds n (cd_type (columns sch ! i)) e no_bounds)) (r ! i)"
proof -
  note i = index_of_Some [OF assms(4)]
  show ?thesis
  proof (rule collect_ok [where dbg = dbg and fl = fl])
    show "eval_with dbg (datum_display fl) (row_lookup sch r) e = Inr True" using assms(1) by (simp add: eval_expr_def)
    show "row_lookup sch r n = Inr (r ! i)" using assms(4) by (simp add: row_lookup_def)
    show "kinded (cd_type (columns sch ! i)) (r ! i) \<or> r ! i = DNull" using assms(2) i by (simp add: row_kinded_def)
    show "tame_expr n (cd_type (columns sch ! i)) e" using assms(3) i by (auto simp: tame_where_def)
  qed (rule no_bounds_ok)
qed

lemma sec_path_covers:
  assumes "eval_expr dbg (datum_display fl) e sch r = Inr True" "row_kinded sch r" "tame_where sch e"
  shows "covers (sec_path sch e ds) pk r"
proof (induction ds)
  case (Cons d ds)
  show ?case
  proof (cases "index_of sch (ix_column d)")
    case (Some i)
    obtain st ok where c: "collect_col_bounds (ix_column d) (cd_type (columns sch ! i)) e no_bounds = (st, ok)" by fastforce
    with column_bounds [OF assms Some] have "bounds_ok st (r ! i)" by simp
    moreover from this have "b_saw_in st \<Longrightarrow> \<exists>x \<in> set (b_in st). datum_cmp (r ! i) x \<noteq> Less \<and> datum_le (r ! i) x"
      by (force simp: bounds_ok_def)
    ultimately show ?thesis using Some c Cons by (auto simp: bounds_ok_def in_bounds_def bound_Some)
  qed (use Cons in simp)
qed simp

section \<open>Properties\<close>


definition city_schema :: schema where
  "city_schema = \<lparr>columns =
     [\<lparr>cd_name = ''id'', cd_type = TInt, cd_nullable = False, cd_auto_increment = False, cd_default = None\<rparr>,
      \<lparr>cd_name = ''name'', cd_type = TText, cd_nullable = False, cd_auto_increment = False, cd_default = None\<rparr>], pk_idx = 0\<rparr>"

definition city_table :: table where
  "city_table = table_new \<lparr>td_name = ''city'', td_schema = city_schema, td_indexes = [\<lparr>ix_name = ''by_name'', ix_column = ''name''\<rparr>],
     td_foreign_keys = [], td_stats = None\<rparr>"

lemma city_like: "like_match ''Oslo'' ''Os%''"
proof -
  have c: "chars ''Oslo'' = [''O'', ''s'', ''l'', ''o'']" "chars ''Os%'' = [''O'', ''s'', ''%'']"
    by (simp_all add: char_len_def numeral_eq_Suc)
  have "like [''O'', ''s'', ''l'', ''o''] [''O'', ''s'', ''%'']"
    using like_percent [OF like_empty, of "[''l'', ''o'']"] by (intro like_char) simp_all
  then show ?thesis unfolding like_match_like c .
qed


text \<open>C38. An IN list of date literals finds nothing through an index: the members are text, cannot be converted to the
  DATETIME column's type and are dropped, so the path fetches no row, although the clause is true for a row that
  holds the date. The same holds of a primary key of type TIMESTAMP.\<close>
theorem datetime_in_list_finds_nothing:
  assumes "\<not> t_ephemeral t" "td_schema (t_def t) = sch" "index_of sch n = Some (pk_idx sch)"
    and "cd_type (columns sch ! pk_idx sch) \<in> {TDateTime, TTimestamp}" "r ! pk_idx sch = DDateTime m" "parse_datetime_str s = Some m"
  shows "eval_expr dbg disp (EIn (EColumn n) [DText s] False) sch r = Inr True \<and>
    access_path t (Some (EIn (EColumn n) [DText s] False)) = PkIn []"
proof -
  have "cd_name (columns sch ! pk_idx sch) = n" using index_of_Some [OF assms(3)] by simp
  then show ?thesis using assms
    by (auto simp: eval_expr_def row_lookup_def negate_if_def access_path_def Let_def no_bounds_def map_filter_def)
qed

definition event_table :: table where
  "event_table = table_new \<lparr>td_name = ''event'',
     td_schema = \<lparr>columns = [\<lparr>cd_name = ''at'', cd_type = TDateTime, cd_nullable = False, cd_auto_increment = False, cd_default = None\<rparr>], pk_idx = 0\<rparr>,
     td_indexes = [], td_foreign_keys = [], td_stats = None\<rparr>"

theorem datetime_in_list_finds_nothing_witness:
  "\<exists>s m. eval_expr (\<lambda>_. ''?'') (\<lambda>_. ''?'') (EIn (EColumn ''at'') [DText s] False) (td_schema (t_def event_table)) [DDateTime m] = Inr True \<and>
     access_path event_table (Some (EIn (EColumn ''at'') [DText s] False)) = PkIn []"
proof -
  let ?sch = "td_schema (t_def event_table)"
  have f: "\<not> t_ephemeral event_table" "index_of ?sch ''at'' = Some (pk_idx ?sch)" "cd_type (columns ?sch ! pk_idx ?sch) = TDateTime" "pk_idx ?sch = 0"
    by (simp_all add: event_table_def table_new_def index_of_def)
  obtain s m where "parse_datetime_str s = Some m" using parse_format [of 0] by auto
  with datetime_in_list_finds_nothing [OF f(1) refl f(2), of "[DDateTime m]" m s] f show ?thesis by auto
qed

text \<open>A bound on a BOOL column by an integer other than 0 and 1 misses rows: \<open>c < 2\<close> is true of every row with a
  value, but the path stops below TRUE.\<close>
theorem bool_bound_misses:
  assumes "\<not> t_ephemeral t" "td_schema (t_def t) = sch" "index_of sch n = Some (pk_idx sch)"
    and "cd_type (columns sch ! pk_idx sch) = TBool" "r ! pk_idx sch = DBool True"
  shows "eval_expr dbg disp (ECmp (EColumn n) Lt (ELiteral (DInt 2))) sch r = Inr True \<and>
    \<not> covers (access_path t (Some (ECmp (EColumn n) Lt (ELiteral (DInt 2))))) (pk_idx sch) r"
proof -
  have "cd_name (columns sch ! pk_idx sch) = n" using index_of_Some [OF assms(3)] by simp
  then show ?thesis using assms
    by (auto simp: eval_expr_def row_lookup_def access_path_def Let_def no_bounds_def update_bound_def in_bounds_def bound_Some
        datum_cmp_def cmp_def bool_int_def)
qed

end
