(* ===== verification/Join_Plan.thy ===== *)
theory Join_Plan
  imports Access_Path Key_Codec
begin

text \<open>
  Planning of joins (\<open>crates/engine/src/db/plan.rs\<close>): the hashable key of a join column, the detection of an
  equi-join, and the greedy order of the joined tables. A \<open>resolve\<close> function gives the position of a column in
  the combined row, or of its table in the list of tables.
\<close>

section \<open>Hash keys\<close>

datatype hash_key = JInt i64 | JFloat f64 | JText string | JBool bool | JDateTime i64

definition f64_i64_min :: f64 where "f64_i64_min = 0xC3E0000000000000"
definition f64_i64_max :: f64 where "f64_i64_max = 0x43E0000000000000"

fun join_key :: "datum \<Rightarrow> hash_key option" where
  "join_key DNull = None"
| "join_key (DInt v) = Some (JInt v)"
| "join_key (DFloat v) =
     (if f64_nan v then None
      else if f64_integral v \<and> f64_le f64_i64_min v \<and> f64_le v f64_i64_max then Some (JInt (f64_as_i64 v))
      else Some (JFloat v))"
| "join_key (DText s) = (case parse_datetime_str s of Some m \<Rightarrow> Some (JDateTime m) | None \<Rightarrow> Some (JText s))"
| "join_key (DBool b) = Some (JBool b)"
| "join_key (DDateTime m) = Some (JDateTime m)"

fun equi_join :: "(string \<Rightarrow> nat result) \<Rightarrow> nat \<Rightarrow> expr \<Rightarrow> (nat \<times> nat) option" where
  "equi_join resolve left_width (EAnd a b) =
     (case equi_join resolve left_width a of Some p \<Rightarrow> Some p | None \<Rightarrow> equi_join resolve left_width b)"
| "equi_join resolve left_width (ECmp (EColumn x) op (EColumn y)) =
     (if op \<noteq> Eq then None
      else case (resolve x, resolve y) of
        (Inr i, Inr k) \<Rightarrow>
          (if i < left_width \<and> \<not> k < left_width then Some (i, k)
           else if \<not> i < left_width \<and> k < left_width then Some (k, i)
           else None)
      | _ \<Rightarrow> None)"
| "equi_join resolve left_width e = None"

section \<open>Join order\<close>

fun resolve_all :: "(string \<Rightarrow> nat result) \<Rightarrow> string list \<Rightarrow> nat list option" where
  "resolve_all resolve [] = Some []"
| "resolve_all resolve (c # cs) =
     (case resolve c of
        Inl _ \<Rightarrow> None
      | Inr i \<Rightarrow> map_option (\<lambda>r. i # r) (resolve_all resolve cs))"

definition on_tables :: "(string \<Rightarrow> nat result) \<Rightarrow> expr \<Rightarrow> nat list option" where
  "on_tables resolve on = map_option (\<lambda>l. remdups (sort l)) (resolve_all resolve (collect_columns on))"

definition size_of :: "nat list \<Rightarrow> nat \<Rightarrow> nat" where
  "size_of sizes ti = (if ti < length sizes then sizes ! ti else 2 ^ 64 - 1)"

definition ready :: "(string \<Rightarrow> nat result) \<Rightarrow> join_clause list \<Rightarrow> nat set \<Rightarrow> nat \<Rightarrow> bool" where
  "ready resolve joins done_set ti \<longleftrightarrow>
     j_kind (joins ! (ti - 1)) \<noteq> Left \<and>
     (case on_tables resolve (j_on (joins ! (ti - 1))) of
        None \<Rightarrow> False
      | Some deps \<Rightarrow> \<forall>d \<in> set deps. d \<in> done_set \<or> d = ti)"

text \<open>The loop over the remaining tables: the ready one with the smallest input wins, the first of equals.\<close>

fun pick_join ::
  "(string \<Rightarrow> nat result) \<Rightarrow> join_clause list \<Rightarrow> nat list \<Rightarrow> nat set \<Rightarrow> nat list \<Rightarrow> nat option \<Rightarrow> nat option" where
  "pick_join resolve joins sizes done_set [] best = best"
| "pick_join resolve joins sizes done_set (ti # rest) best =
     pick_join resolve joins sizes done_set rest
       (if \<not> ready resolve joins done_set ti then best
        else case best of
          None \<Rightarrow> Some ti
        | Some b \<Rightarrow> if size_of sizes ti < size_of sizes b then Some ti else best)"

text \<open>\<open>remaining.remove(pos)\<close> takes the first occurrence away; the tables are distinct.\<close>

lemma pick_join_mem: "pick_join resolve joins sizes done_set rem best = Some ti \<Longrightarrow> ti \<in> set rem \<or> best = Some ti"
  by (induction rem arbitrary: best) (fastforce split: if_splits option.splits)+

function order_loop ::
  "(string \<Rightarrow> nat result) \<Rightarrow> join_clause list \<Rightarrow> nat list \<Rightarrow> nat set \<Rightarrow> nat list \<Rightarrow> nat list \<Rightarrow> nat list" where
  "order_loop resolve joins sizes done_set remaining order =
     (case remaining of
        [] \<Rightarrow> order
      | t0 # rest \<Rightarrow>
          if j_kind (joins ! (t0 - 1)) = Left
          then order_loop resolve joins sizes (insert t0 done_set) rest (order @ [t0])
          else case pick_join resolve joins sizes done_set remaining None of
            Some ti \<Rightarrow> order_loop resolve joins sizes (insert ti done_set) (remove1 ti remaining) (order @ [ti])
          | None \<Rightarrow> order @ remaining)"
  by pat_completeness auto
termination
  by (relation "measure (\<lambda>(resolve, joins, sizes, done_set, remaining, order). length remaining)")
     (auto dest!: pick_join_mem dest: length_pos_if_in_set simp: length_remove1 split: if_splits)

declare order_loop.simps [simp del]

definition order_joins :: "join_clause list \<Rightarrow> nat list \<Rightarrow> (string \<Rightarrow> nat result) \<Rightarrow> nat list" where
  "order_joins joins sizes resolve = order_loop resolve joins sizes {0} [1..<length joins + 1] [0]"

lemma pick_join_ready:
  "pick_join resolve joins sizes done_set rem best = Some ti \<Longrightarrow> (\<forall>b. best = Some b \<longrightarrow> ready resolve joins done_set b) \<Longrightarrow>
     ready resolve joins done_set ti"
  by (induction rem arbitrary: best) (fastforce split: if_splits option.splits)+

section \<open>The order is a permutation\<close>

text \<open>Each table comes after the tables that must precede it: a LEFT join after every table written before it.\<close>

definition left_after :: "join_clause list \<Rightarrow> nat list \<Rightarrow> bool" where
  "left_after joins ord \<longleftrightarrow>
     (\<forall>k < length ord. 0 < ord ! k \<and> j_kind (joins ! (ord ! k - 1)) = Left \<longrightarrow> {..< ord ! k} \<subseteq> set (take k ord))"

lemma left_after_append1:
  "left_after joins ord \<Longrightarrow> (0 < t \<and> j_kind (joins ! (t - 1)) = Left \<longrightarrow> {..< t} \<subseteq> set ord) \<Longrightarrow> left_after joins (ord @ [t])"
  by (auto simp: left_after_def nth_append less_Suc_eq)

lemma first_remaining:
  fixes t :: nat
  assumes "sorted_wrt (<) (t # rem)" "{..< t} \<subseteq> set ord \<union> set (t # rem)"
  shows "{..< t} \<subseteq> set ord"
proof
  fix x assume x: "x \<in> {..< t}"
  then have "x \<notin> set (t # rem)" using assms(1) by force
  with x assms(2) show "x \<in> set ord" by blast
qed

lemma left_after_rest:
  assumes "left_after joins ord" "sorted_wrt (<) rem" "\<forall>t \<in> set rem. {..< t} \<subseteq> set ord \<union> set rem"
  shows "left_after joins (ord @ rem)"
  using assms
proof (induction rem arbitrary: ord)
  case (Cons t rem)
  have sub: "{..< t} \<subseteq> set ord" using first_remaining Cons.prems(2,3) by (metis list.set_intros(1))
  have "left_after joins ((ord @ [t]) @ rem)"
    using Cons.prems left_after_append1 [of joins ord t] sub by (intro Cons.IH) auto
  then show ?case by simp
qed simp

lemma order_loop_ok:
  assumes "sorted_wrt (<) remaining" "distinct (order @ remaining)" "left_after joins order"
    and "\<forall>t \<in> set remaining. {..< t} \<subseteq> set order \<union> set remaining"
  shows "distinct (order_loop resolve joins sizes done_set remaining order) \<and>
    set (order_loop resolve joins sizes done_set remaining order) = set order \<union> set remaining \<and>
    left_after joins (order_loop resolve joins sizes done_set remaining order) \<and>
    (\<exists>rest. order_loop resolve joins sizes done_set remaining order = order @ rest)"
  using assms
proof (induction resolve joins sizes done_set remaining order rule: order_loop.induct)
  case (1 resolve joins sizes done_set remaining order)
  show ?case
  proof (cases remaining)
    case Nil
    then show ?thesis using 1(4,5) by (simp add: order_loop.simps [of resolve joins sizes done_set "[]"])
  next
    case (Cons t0 rest)
    show ?thesis
    proof (cases "j_kind (joins ! (t0 - 1)) = Left")
      case True
      have "{..< t0} \<subseteq> set order"
        using first_remaining [of t0 rest order] 1(3,6) Cons by simp
      then have "left_after joins (order @ [t0])" using left_after_append1 1(5) by blast
      moreover have "\<forall>t \<in> set rest. {..< t} \<subseteq> set (order @ [t0]) \<union> set rest" using 1(6) Cons by auto
      ultimately show ?thesis using 1(1) [OF Cons True] 1(3,4) Cons True
        by (auto simp: order_loop.simps [of resolve joins sizes done_set "t0 # rest"])
    next
      case False
      show ?thesis
      proof (cases "pick_join resolve joins sizes done_set remaining None")
        case None
        then show ?thesis using 1(3-6) Cons False left_after_rest [OF 1(5,3,6)]
          by (simp add: order_loop.simps [of resolve joins sizes done_set "t0 # rest"])
      next
        case (Some ti)
        from pick_join_mem [OF Some] have m: "ti \<in> set remaining" by simp
        have nl: "j_kind (joins ! (ti - 1)) \<noteq> Left" using pick_join_ready [OF Some] by (simp add: ready_def)
        have sr: "set (remove1 ti remaining) = set remaining - {ti}" "distinct (remove1 ti remaining)" "sorted_wrt (<) (remove1 ti remaining)"
          using 1(3,4) by (simp_all add: sorted_wrt_remove1)
        have "left_after joins (order @ [ti])" using left_after_append1 [OF 1(5)] nl by blast
        moreover have "\<forall>t \<in> set (remove1 ti remaining). {..< t} \<subseteq> set (order @ [ti]) \<union> set (remove1 ti remaining)" using 1(6) sr(1) by auto
        moreover have "distinct ((order @ [ti]) @ remove1 ti remaining)" using 1(4) sr m by auto
        ultimately show ?thesis using 1(2) [OF Cons False Some sr(3)] Cons False Some m sr(1)
          by (auto simp: order_loop.simps [of resolve joins sizes done_set "t0 # rest"])
      qed
    qed
  qed
qed

section \<open>Small integers as doubles\<close>

lemma bit_length_bounds: "0 < m \<Longrightarrow> 2 ^ (bit_length m - 1) \<le> m \<and> m < 2 ^ bit_length m \<and> 0 < bit_length m"
proof (induction m rule: bit_length.induct)
  case (1 n)
  show ?case
  proof (cases "n div 2 = 0")
    case True
    then have "n = 1" using 1(2) by auto
    then show ?thesis by (simp add: bit_length.simps)
  next
    case False
    define l where "l = bit_length (n div 2)"
    have "2 ^ (l - 1) \<le> n div 2" "n div 2 < 2 ^ l" "0 < l" using 1 False by (simp_all add: l_def)
    moreover have "bit_length n = Suc l" using 1(2) by (simp add: bit_length.simps [of n] l_def)
    moreover have "(2 :: nat) ^ l = 2 * 2 ^ (l - 1)" using \<open>0 < l\<close> by (cases l) simp_all
    ultimately show ?thesis by auto
  qed
qed

lemma f64_of_mag_small:
  assumes "0 < m" "m < 2 ^ 53"
  obtains l where "0 < l" "l \<le> 53" "2 ^ 52 \<le> m * 2 ^ (53 - l)" "m * 2 ^ (53 - l) < 2 ^ 53"
    "f64_of_mag m = (1022 + l) * 2 ^ 52 + (m * 2 ^ (53 - l) - 2 ^ 52)"
proof -
  define l where "l = bit_length m"
  note b = bit_length_bounds [OF assms(1), folded l_def]
  have "(2 :: nat) ^ (l - 1) < 2 ^ 53" using b assms(2) by linarith
  then have l53: "l \<le> 53" using power_less_imp_less_exp [of "2 :: nat" "l - 1" 53] by simp
  have "2 ^ (l - 1) * 2 ^ (53 - l) \<le> m * 2 ^ (53 - l)" "m * 2 ^ (53 - l) < 2 ^ l * 2 ^ (53 - l)" using b by simp_all
  moreover have "(2 :: nat) ^ (l - 1) * 2 ^ (53 - l) = 2 ^ 52" "(2 :: nat) ^ l * 2 ^ (53 - l) = 2 ^ 53"
    using b l53 by (simp_all only: power_add [symmetric]) (simp_all add: algebra_simps)
  ultimately have r: "2 ^ 52 \<le> m * 2 ^ (53 - l)" "m * 2 ^ (53 - l) < 2 ^ 53" by linarith+
  have "f64_of_mag m = (1022 + l) * 2 ^ 52 + (m * 2 ^ (53 - l) - 2 ^ 52)"
    using l53 assms(1) by (simp only: f64_of_mag_def Let_def l_def [symmetric]) simp
  with that [of l] b l53 r show thesis by blast
qed

lemma f64_exact:
  assumes "f64_mag v = f64_of_mag m" "0 < m" "m < 2 ^ 53"
  shows "f64_integral v" "f64_trunc v = (if f64_neg v then - int m else int m)" "f64_mag v < 1076 * 2 ^ 52"
proof -
  from f64_of_mag_small [OF assms(2,3)] obtain l where
    l: "0 < l" "l \<le> 53" "2 ^ 52 \<le> m * 2 ^ (53 - l)" "m * 2 ^ (53 - l) < 2 ^ 53"
      "f64_of_mag m = (1022 + l) * 2 ^ 52 + (m * 2 ^ (53 - l) - 2 ^ 52)" by metis
  define f where "f = m * 2 ^ (53 - l) - 2 ^ 52"
  have f: "f < 2 ^ 52" "2 ^ 52 + f = m * 2 ^ (53 - l)" using l by (simp_all add: f_def)
  have dm: "(a * k + f) div k = a" "(a * k + f) mod k = f" if "f < k" for a k f :: nat using that by simp_all
  have e: "f64_expo v = 1022 + l" "f64_frac v = f"
    using dm [OF f(1), of "1022 + l"] unfolding f64_expo_def f64_frac_def assms(1) l(5) f_def [symmetric] by blast+
  have d: "1075 - (1022 + l) = 53 - l" using l by simp
  show "f64_integral v" using l f(2) by (simp add: f64_integral_def e d)
  show "f64_trunc v = (if f64_neg v then - int m else int m)" using l f(2) by (auto simp: f64_trunc_def e d Let_def)
  have "f64_mag v = (1022 + l) * 2 ^ 52 + f" unfolding assms(1) l(5) f_def ..
  moreover have "(1022 + l) * 2 ^ 52 \<le> 1075 * (2 :: nat) ^ 52" using l(2) by simp
  ultimately show "f64_mag v < 1076 * 2 ^ 52" using f(1) by linarith
qed

lemma f64_of_i64_bits:
  assumes "\<bar>sint i\<bar> < 2 ^ 53"
  shows "f64_mag (f64_of_i64 i) = f64_of_mag (nat \<bar>sint i\<bar>)" "f64_neg (f64_of_i64 i) \<longleftrightarrow> sint i < 0"
proof -
  have small: "f64_of_mag m < 2 ^ 63" if lt: "m < 2 ^ 53" for m :: nat
  proof (cases "m = 0")
    case False
    then obtain l where "f64_of_mag m = (1022 + l) * 2 ^ 52 + (m * 2 ^ (53 - l) - 2 ^ 52)" "l \<le> 53" "m * 2 ^ (53 - l) < 2 ^ 53"
      using f64_of_mag_small [of m] lt by (metis gr0I)
    moreover from this have "(1022 + l) * 2 ^ 52 \<le> 1075 * (2 :: nat) ^ 52" by simp
    ultimately show ?thesis by simp
  qed (simp add: f64_of_mag_def)
  have b: "unat (of_nat (f64_of_mag m) :: f64) = f64_of_mag m" "unat (of_nat (f64_of_mag m) OR 0x8000000000000000 :: f64) = f64_of_mag m + 2 ^ 63"
    if "m < 2 ^ 53" for m :: nat
  proof -
    define w where "w = (of_nat (f64_of_mag m) :: f64)"
    show u: "unat (of_nat (f64_of_mag m) :: f64) = f64_of_mag m" using small [OF that] by (simp add: unat_of_nat)
    then have "unat w < 2 ^ 63" using small [OF that] by (simp add: w_def)
    then have "w AND 0x8000000000000000 = 0" using and_sign_bit [of w] by simp
    then have "w OR 0x8000000000000000 = w + 0x8000000000000000" using word_plus_and_or [of w "0x8000000000000000"] by simp
    then show "unat (of_nat (f64_of_mag m) OR 0x8000000000000000 :: f64) = f64_of_mag m + 2 ^ 63"
      using u small [OF that] by (simp add: w_def [symmetric] unat_word_ariths)
  qed
  have lt: "nat \<bar>sint i\<bar> < 2 ^ 53" using assms by simp
  show "f64_mag (f64_of_i64 i) = f64_of_mag (nat \<bar>sint i\<bar>)" "f64_neg (f64_of_i64 i) \<longleftrightarrow> sint i < 0"
    using b [OF lt] small [OF lt]
    by (auto simp: f64_of_i64_def f64_mag_unat f64_neg_unat abs_if split: if_splits)
qed

lemma i64_range_bits:
  "f64_mag f64_i64_max = 1086 * 2 ^ 52" "\<not> f64_neg f64_i64_max" "f64_mag f64_i64_min = 1086 * 2 ^ 52" "f64_neg f64_i64_min"
  "\<not> f64_nan f64_i64_max" "\<not> f64_nan f64_i64_min"
  by (simp_all add: f64_mag_def f64_neg_def f64_nan_def f64_i64_max_def f64_i64_min_def)

text \<open>A double equal to a small integer converts back to it.\<close>

lemma f64_small_int:
  assumes "\<bar>sint i\<bar> < 2 ^ 53" "f64_eq (f64_of_i64 i) v"
  shows "join_key (DFloat v) = Some (JInt i)"
proof -
  let ?m = "nat \<bar>sint i\<bar>"
  note bits = f64_of_i64_bits [OF assms(1)]
  have lt: "?m < 2 ^ 53" using assms(1) by simp
  have nan: "\<not> f64_nan v" and key: "f64_key v = f64_key (f64_of_i64 i)" using assms(2) by (simp_all add: f64_eq_def)
  have mag: "f64_mag v = f64_of_mag ?m" using key bits by (auto simp: f64_key_def split: if_splits)
  have tr: "f64_integral v \<and> f64_trunc v = sint i \<and> f64_mag v < 1076 * 2 ^ 52"
  proof (cases "?m = 0")
    case True
    then have "f64_mag v = 0" "sint i = 0" using mag by (simp_all add: f64_of_mag_def)
    then show ?thesis by (simp add: f64_integral_def f64_trunc_def f64_expo_def f64_frac_def Let_def)
  next
    case False
    then have "0 < ?m" by simp
    note ex = f64_exact [OF mag this lt]
    have "f64_of_mag ?m \<noteq> 0" using f64_of_mag_small [OF \<open>0 < ?m\<close> lt] by (metis add_is_0 mult_is_0 add_eq_0_iff_both_eq_0 power_not_zero zero_neq_numeral)
    then have "f64_neg v \<longleftrightarrow> sint i < 0" using key bits mag by (auto simp: f64_key_def split: if_splits)
    then show ?thesis using ex by auto
  qed
  have "f64_le f64_i64_min v" "f64_le v f64_i64_max"
    using tr nan i64_range_bits by (auto simp: f64_le_def f64_key_def)
  moreover have "f64_as_i64 v = i" using tr nan assms(1) by (auto simp: f64_as_i64_def max_def min_def)
  ultimately show ?thesis using tr nan by simp
qed

text \<open>Doubles that compare equal have one key.\<close>

lemma f64_eq_key:
  assumes "f64_eq a b"
  shows "join_key (DFloat a) = join_key (DFloat b)"
proof (cases "a = b")
  case False
  have k: "f64_key a = f64_key b" "\<not> f64_nan a" "\<not> f64_nan b" using assms by (simp_all add: f64_eq_def)
  have "f64_mag a = f64_mag b" using k(1) by (auto simp: f64_key_def split: if_splits)
  moreover have "f64_mag a = 0 \<or> f64_neg a = f64_neg b" using k(1) by (auto simp: f64_key_def split: if_splits)
  moreover have "f64_neg a = f64_neg b \<Longrightarrow> a = b" using calculation(1) unat_u64_less [of a] unat_u64_less [of b]
    by (auto simp: f64_mag_unat f64_neg_unat word_unat_eq_iff split: if_splits)
  ultimately have z: "f64_mag a = 0" "f64_mag b = 0" using False by auto
  have "f64_integral x \<and> f64_trunc x = 0 \<and> f64_key x = 0" if "f64_mag x = 0" for x
    using that by (simp add: f64_integral_def f64_trunc_def f64_expo_def f64_frac_def f64_key_def Let_def)
  with z k show ?thesis using i64_range_bits by (simp add: f64_as_i64_def f64_le_def f64_key_def)
qed simp

section \<open>Properties\<close>

text \<open>C29. The order of the joins is a permutation of the tables that starts with the FROM table, and every LEFT join
  comes after all the tables written before it, whatever the sizes and the conditions are.\<close>
theorem order_joins_permutation:
  "\<exists>rest. order_joins joins sizes resolve = 0 # rest \<and> distinct (0 # rest) \<and> set (0 # rest) = {..length joins} \<and>
     left_after joins (0 # rest)"
proof -
  define rem where "rem = [1..<length joins + 1]"
  have rem: "sorted_wrt (<) rem" "distinct ([0] @ rem)" "set rem = {1..length joins}" by (auto simp: rem_def simp del: upt_Suc)
  have "left_after joins [0]" by (simp add: left_after_def)
  moreover have "\<forall>t \<in> set rem. {..<t} \<subseteq> set [0] \<union> set rem" using rem(3) by auto
  ultimately have "distinct (order_joins joins sizes resolve) \<and> set (order_joins joins sizes resolve) = {0} \<union> {1..length joins} \<and>
      left_after joins (order_joins joins sizes resolve) \<and> (\<exists>rest. order_joins joins sizes resolve = [0] @ rest)"
    using order_loop_ok [OF rem(1,2), of joins resolve sizes "{0}"] rem(3) unfolding order_joins_def rem_def [symmetric] by simp
  moreover have "{0} \<union> {1..length joins} = {..length joins}" by auto
  ultimately show ?thesis by fastforce
qed

text \<open>C30. The hash join finds every match: two values that the evaluator considers equal have the same hash key,
  except a BOOL against a number and an integer of 2^53 or more against a double.\<close>
theorem hash_keys_complete:
  assumes "a \<noteq> DNull" "b \<noteq> DNull" "coerce_pair a b = (l, r)" "datum_eq l r"
    and "\<forall>x. a = DBool x \<longrightarrow> (\<exists>y. b = DBool y)" "\<forall>y. b = DBool y \<longrightarrow> (\<exists>x. a = DBool x)"
    and "\<forall>i f. a = DInt i \<and> b = DFloat f \<or> a = DFloat f \<and> b = DInt i \<longrightarrow> \<bar>sint i\<bar> < 2 ^ 53"
  shows "\<exists>k. join_key a = Some k \<and> join_key b = Some k"
proof -
  consider (nf) i f where "a = DInt i" "b = DFloat f" | (fn) f i where "a = DFloat f" "b = DInt i" | (ff) x y where "a = DFloat x" "b = DFloat y"
    | (rest) "(\<forall>f. a \<noteq> DFloat f) \<and> (\<forall>f. b \<noteq> DFloat f)"
    | (alien) "\<not> datum_eq l r"
    using assms(1-3,5,6) by (cases a; cases b) auto
  then show ?thesis
  proof cases
    case (nf i f)
    then show ?thesis using f64_small_int [of i f] assms by auto
  next
    case (fn f i)
    then have "f64_eq (f64_of_i64 i) f" using assms(3,4) by (auto simp: f64_eq_def)
    then show ?thesis using f64_small_int [of i f] assms(7) fn by auto
  next
    case (ff x y)
    then have "f64_eq x y" using assms(3,4) by auto
    then show ?thesis using f64_eq_key [of x y] ff by (auto simp: f64_eq_def)
  next
    case rest
    then show ?thesis using assms(1-6) by (cases a; cases b) (auto split: option.splits)
  qed (use assms(4) in simp)
qed

theorem hash_keys_complete_witness:
  "\<exists>k. join_key (DDateTime 0) = Some k \<and> join_key (DText (format_datetime_micros 0)) = Some k"
  using hash_keys_complete [of "DDateTime 0" "DText (format_datetime_micros 0)"] parse_format [of 0] by simp

text \<open>A BOOL and a number that compare equal have different hash keys: a hash join over such columns loses rows
  that the ON clause, evaluated row by row, would join.\<close>
theorem hash_join_misses_bool:
  "eval_with dbg disp (\<lambda>c. if c = ''a'' then Inr (DBool True) else Inr (DInt 1)) (ECmp (EColumn ''a'') Eq (EColumn ''b'')) = Inr True \<and>
   join_key (DBool True) \<noteq> join_key (DInt 1)"
  by (simp add: bool_int_def)

end
