(* ===== verification/Lock_Rank.thy ===== *)
theory Lock_Rank
  imports Prelude
begin

text \<open>
  The run-time check of the lock order (\<open>crates/engine/src/lock_rank.rs\<close>): every thread keeps the ranks of the
  locks it holds, in the order of acquisition; acquiring a lock below the last one held panics. A thread's guards
  are dropped in any order.
\<close>

section \<open>Ranks\<close>

datatype lock_rank =
  CommitLock | InstallFrontier | WalStage | WalFlush | BTreeRank | BufferPoolRank | VersionStateRank | CatalogAuth | Ebr

fun rank_value :: "lock_rank \<Rightarrow> nat" where
  "rank_value CommitLock = 1"
| "rank_value InstallFrontier = 2"
| "rank_value WalStage = 3"
| "rank_value WalFlush = 4"
| "rank_value BTreeRank = 5"
| "rank_value BufferPoolRank = 6"
| "rank_value VersionStateRank = 7"
| "rank_value CatalogAuth = 8"
| "rank_value Ebr = 9"

lemma rank_value_inject [simp]: "rank_value a = rank_value b \<longleftrightarrow> a = b"
  by (cases a; cases b) simp_all

text \<open>The derived \<open>Ord\<close> is the order of the discriminants.\<close>

instantiation lock_rank :: linorder
begin

definition less_eq_lock_rank :: "lock_rank \<Rightarrow> lock_rank \<Rightarrow> bool" where
  "less_eq_lock_rank a b \<longleftrightarrow> rank_value a \<le> rank_value b"

definition less_lock_rank :: "lock_rank \<Rightarrow> lock_rank \<Rightarrow> bool" where
  "less_lock_rank a b \<longleftrightarrow> rank_value a < rank_value b"

instance
  by standard (auto simp: less_eq_lock_rank_def less_lock_rank_def)

end

section \<open>Guards\<close>

text \<open>\<open>HELD_RANKS\<close> of one thread; \<open>None\<close> is the panic of the assertion.\<close>

type_synonym held = "lock_rank list"

definition acquire :: "lock_rank \<Rightarrow> held \<Rightarrow> held option" where
  "acquire rank h = (if h \<noteq> [] \<and> \<not> last h \<le> rank then None else Some (h @ [rank]))"

definition is_held :: "lock_rank \<Rightarrow> held \<Rightarrow> bool" where
  "is_held rank h \<longleftrightarrow> rank \<in> set h"

definition max_held :: "held \<Rightarrow> lock_rank option" where
  "max_held h = (if h = [] then None else Some (last h))"

text \<open>\<open>rposition\<close> and \<open>remove\<close>: the last guard of that rank goes.\<close>

definition release :: "lock_rank \<Rightarrow> held \<Rightarrow> held" where
  "release rank h = rev (remove1 rank (rev h))"

section \<open>Threads and their locks\<close>

text \<open>Every rank stands for a lock or for a class of locks; a thread takes the rank before it takes a lock of the
  class, so a thread that waits for a lock of rank \<open>r\<close> has \<open>r\<close> as the last of its held ranks, above every rank it
  holds a lock of. \<open>waits t = Some l\<close>: thread \<open>t\<close> waits for the lock \<open>l\<close>.\<close>

record 'l lock_state =
  ranks :: "nat \<Rightarrow> held"
  owner :: "'l \<Rightarrow> nat option"
  waits :: "nat \<Rightarrow> 'l option"

inductive lock_step :: "('l \<Rightarrow> lock_rank) \<Rightarrow> 'l lock_state \<Rightarrow> 'l lock_state \<Rightarrow> bool" for rk where
  request: "waits s t = None \<Longrightarrow> acquire (rk l) (ranks s t) = Some h \<Longrightarrow> owner s l \<noteq> Some t \<Longrightarrow>
     lock_step rk s (s\<lparr>ranks := (ranks s)(t := h), waits := (waits s)(t := Some l)\<rparr>)"
| grant: "waits s t = Some l \<Longrightarrow> owner s l = None \<Longrightarrow>
     lock_step rk s (s\<lparr>owner := (owner s)(l := Some t), waits := (waits s)(t := None)\<rparr>)"
| unlock: "waits s t = None \<Longrightarrow> owner s l = Some t \<Longrightarrow>
     lock_step rk s (s\<lparr>ranks := (ranks s)(t := release (rk l) (ranks s t)), owner := (owner s)(l := None)\<rparr>)"

inductive_cases lock_stepE: "lock_step rk s s'"

inductive lock_run :: "('l \<Rightarrow> lock_rank) \<Rightarrow> 'l lock_state \<Rightarrow> bool" for rk where
  start: "lock_run rk \<lparr>ranks = \<lambda>_. [], owner = \<lambda>_. None, waits = \<lambda>_. None\<rparr>"
| step: "lock_run rk s \<Longrightarrow> lock_step rk s s' \<Longrightarrow> lock_run rk s'"

section \<open>The held ranks are sorted\<close>

lemma sorted_le_last: "sorted h \<Longrightarrow> x \<in> set h \<Longrightarrow> x \<le> last h"
  by (induction h) auto

lemma acquire_sorted: "sorted h \<Longrightarrow> acquire r h = Some h' \<Longrightarrow> sorted h' \<and> h' = h @ [r]"
  using sorted_le_last by (fastforce simp: acquire_def sorted_append split: if_splits)

lemma release_sorted: "sorted h \<Longrightarrow> sorted (release r h)"
  using sorted_wrt_remove1 [of "\<lambda>x y. y \<le> x" "rev h" r] by (simp add: release_def sorted_wrt_rev)

lemma set_release: "distinct h \<Longrightarrow> set (release r h) = set h - {r} \<and> distinct (release r h)"
  by (simp add: release_def)

section \<open>The invariant\<close>

text \<open>A thread's ranks are those of the locks it owns, then that of the lock it waits for.\<close>

definition ranks_ok :: "('l \<Rightarrow> lock_rank) \<Rightarrow> 'l lock_state \<Rightarrow> nat \<Rightarrow> bool" where
  "ranks_ok rk s t \<longleftrightarrow> sorted (ranks s t) \<and> distinct (ranks s t) \<and>
     (case waits s t of
        None \<Rightarrow> set (ranks s t) = rk ` {l. owner s l = Some t}
      | Some l \<Rightarrow> (\<exists>h. ranks s t = h @ [rk l] \<and> set h = rk ` {l. owner s l = Some t}))"

lemma lock_step_ranks:
  assumes "inj rk" "\<forall>t. ranks_ok rk s t" "lock_step rk s s'"
  shows "ranks_ok rk s' u"
  using assms(3)
proof cases
  case (request t l h)
  show ?thesis
  proof (cases "u = t")
    case True
    have "sorted (ranks s t)" "distinct (ranks s t)" and own: "set (ranks s t) = rk ` {l. owner s l = Some t}"
      using assms(2) request(2) by (auto simp: ranks_ok_def split: option.splits dest: spec [of _ t])
    moreover have "rk l \<notin> set (ranks s t)" using own request(4) assms(1) by (auto dest: injD)
    ultimately show ?thesis using acquire_sorted [OF _ request(3)] request True by (auto simp: ranks_ok_def)
  next
    case False
    then show ?thesis using spec [OF assms(2), of u] request(1) by (auto simp: ranks_ok_def split: option.splits)
  qed
next
  case (grant t l)
  have "ranks_ok rk s u" using assms(2) by blast
  moreover have "{k. ((owner s)(l := Some t)) k = Some t} = insert l {k. owner s k = Some t}"
    "u \<noteq> t \<Longrightarrow> {k. ((owner s)(l := Some t)) k = Some u} = {k. owner s k = Some u}" using grant(3) by auto
  ultimately show ?thesis using grant by (cases "u = t") (auto simp: ranks_ok_def split: option.splits)
next
  case (unlock t l)
  have ok: "ranks_ok rk s u" using assms(2) by blast
  have o: "{k. ((owner s)(l := None)) k = Some t} = {k. owner s k = Some t} - {l}"
    "u \<noteq> t \<Longrightarrow> {k. ((owner s)(l := None)) k = Some u} = {k. owner s k = Some u}" using unlock(3) by auto
  show ?thesis
  proof (cases "u = t")
    case True
    have "rk ` ({k. owner s k = Some t} - {l}) = rk ` {k. owner s k = Some t} - {rk l}" using assms(1) by (auto dest: injD)
    then show ?thesis using ok unlock True o(1) release_sorted [of "ranks s t" "rk l"] set_release [of "ranks s t" "rk l"]
      by (simp add: ranks_ok_def)
  next
    case False
    then show ?thesis using ok unlock o(2) by (auto simp: ranks_ok_def split: option.splits)
  qed
qed

lemma lock_run_ranks: "lock_run rk s \<Longrightarrow> inj rk \<Longrightarrow> ranks_ok rk s t"
proof (induction arbitrary: t rule: lock_run.induct)
  case start
  show ?case by (simp add: ranks_ok_def)
next
  case (step s s')
  then show ?case using lock_step_ranks by blast
qed

text \<open>A thread that waits for a lock of another thread that waits itself waits for a lock of lower rank.\<close>

definition blocked :: "'l lock_state \<Rightarrow> (nat \<times> nat) set" where
  "blocked s = {(t, u). \<exists>l. waits s t = Some l \<and> owner s l = Some u}"

definition wait_rank :: "('l \<Rightarrow> lock_rank) \<Rightarrow> 'l lock_state \<Rightarrow> nat \<Rightarrow> lock_rank" where
  "wait_rank rk s t = rk (the (waits s t))"

lemma blocked_rank:
  assumes "lock_run rk s" "inj rk" "(t, u) \<in> blocked s" "waits s u \<noteq> None"
  shows "wait_rank rk s t < wait_rank rk s u"
proof -
  from assms(3) obtain l where l: "waits s t = Some l" "owner s l = Some u" by (auto simp: blocked_def)
  from assms(4) obtain k where k: "waits s u = Some k" by blast
  from lock_run_ranks [OF assms(1,2), of u] k obtain h where
    h: "ranks s u = h @ [rk k]" "set h = rk ` {l. owner s l = Some u}" "sorted (ranks s u)" "distinct (ranks s u)"
    by (auto simp: ranks_ok_def)
  then have "rk l \<in> set h" using l(2) by blast
  with h have "rk l \<le> rk k" "rk l \<noteq> rk k" by (auto simp: sorted_append)
  then show ?thesis by (simp add: wait_rank_def l k)
qed

section \<open>Properties\<close>



text \<open>The check does not stop a thread from taking a second lock of a rank it already holds: two threads that each
  hold one of two locks of one rank and want the other pass it and wait for each other for ever.\<close>
theorem equal_ranks_deadlock:
  "\<exists>s :: bool lock_state. lock_run (\<lambda>_. BTreeRank) s \<and> (1, 2) \<in> blocked s \<and> (2, 1) \<in> blocked s"
proof -
  let ?rk = "\<lambda>_ :: bool. BTreeRank"
  let ?s0 = "\<lparr>ranks = \<lambda>_. [], owner = \<lambda>_. None, waits = \<lambda>_. None\<rparr> :: bool lock_state"
  let ?s1 = "?s0\<lparr>ranks := (ranks ?s0)(1 := [BTreeRank]), waits := (waits ?s0)(1 := Some True)\<rparr>"
  let ?s2 = "?s1\<lparr>owner := (owner ?s1)(True := Some 1), waits := (waits ?s1)(1 := None)\<rparr>"
  let ?s3 = "?s2\<lparr>ranks := (ranks ?s2)(2 := [BTreeRank]), waits := (waits ?s2)(2 := Some False)\<rparr>"
  let ?s4 = "?s3\<lparr>owner := (owner ?s3)(False := Some 2), waits := (waits ?s3)(2 := None)\<rparr>"
  let ?s5 = "?s4\<lparr>ranks := (ranks ?s4)(1 := [BTreeRank, BTreeRank]), waits := (waits ?s4)(1 := Some False)\<rparr>"
  let ?s6 = "?s5\<lparr>ranks := (ranks ?s5)(2 := [BTreeRank, BTreeRank]), waits := (waits ?s5)(2 := Some True)\<rparr>"
  have "lock_run ?rk ?s1" by (rule lock_run.step [OF lock_run.start], rule lock_step.request) (simp_all add: acquire_def)
  then have "lock_run ?rk ?s2" by (rule lock_run.step, intro lock_step.grant) simp_all
  then have "lock_run ?rk ?s3" by (rule lock_run.step, intro lock_step.request) (simp_all add: acquire_def)
  then have "lock_run ?rk ?s4" by (rule lock_run.step, intro lock_step.grant) simp_all
  then have "lock_run ?rk ?s5" by (rule lock_run.step, intro lock_step.request) (simp_all add: acquire_def)
  then have "lock_run ?rk ?s6" by (rule lock_run.step, intro lock_step.request) (simp_all add: acquire_def)
  moreover have "(1, 2) \<in> blocked ?s6" "(2, 1) \<in> blocked ?s6" by (auto simp: blocked_def)
  ultimately show ?thesis by blast
qed

end
