(* ===== verification/Latch.thy ===== *)
theory Latch
  imports Prelude
begin

unbundle bit_operations_syntax

text \<open>
  The latch of optimistic lock coupling (\<open>crates/engine/src/latch.rs\<close>): one 64-bit word, whose lowest bit is the
  exclusive lock and whose other bits count the releases. Threads interleave between any two accesses to the word
  or to the payload it guards.

  \<^item> \<open>lock_attempt\<close> is one round of the loop of \<open>lock_exclusive\<close>: \<open>s\<close> is its local variable, \<open>weak\<close> a spurious
    failure of \<open>compare_exchange_weak\<close>; it gives the new word and \<open>None\<close> when the lock is taken, else the new \<open>s\<close>.
  \<^item> \<open>wait_and_version\<close> polls \<open>optimistic\<close>; one poll is the function itself.
\<close>

section \<open>The word\<close>

definition LOCK_BIT :: u64 where "LOCK_BIT = 1"

definition latch_new :: u64 where "latch_new = 0"

definition optimistic :: "u64 \<Rightarrow> u64 option" where
  "optimistic s = (if s AND LOCK_BIT \<noteq> 0 then None else Some s)"

definition validate :: "u64 \<Rightarrow> u64 \<Rightarrow> bool" where
  "validate version s \<longleftrightarrow> s = version"

definition lock_attempt :: "bool \<Rightarrow> u64 \<Rightarrow> u64 \<Rightarrow> u64 \<times> u64 option" where
  "lock_attempt weak s state =
     (if s AND LOCK_BIT = 0 then
        (if state = s \<and> \<not> weak then (s OR LOCK_BIT, None) else (state, Some state))
      else (state, Some state))"

definition unlock_exclusive :: "u64 \<Rightarrow> u64" where
  "unlock_exclusive state = state + 1"

section \<open>Threads at a latch\<close>

record 'd latch_state =
  word :: u64
  guarded :: 'd
  holder :: "nat option"
  seen :: "nat \<Rightarrow> u64 option"

text \<open>\<open>seen t\<close> is the local variable of a thread inside \<open>lock_exclusive\<close>. The number counts the releases.\<close>

inductive latch_step :: "nat \<Rightarrow> 'd latch_state \<Rightarrow> 'd latch_state \<Rightarrow> bool" where
  enter: "seen s t = None \<Longrightarrow> holder s \<noteq> Some t \<Longrightarrow> latch_step 0 s (s\<lparr>seen := (seen s)(t \<mapsto> word s)\<rparr>)"
| retry: "seen s t = Some v \<Longrightarrow> lock_attempt weak v (word s) = (w, Some v') \<Longrightarrow>
     latch_step 0 s (s\<lparr>word := w, seen := (seen s)(t \<mapsto> v')\<rparr>)"
| taken: "seen s t = Some v \<Longrightarrow> lock_attempt weak v (word s) = (w, None) \<Longrightarrow>
     latch_step 0 s (s\<lparr>word := w, holder := Some t, seen := (seen s)(t := None)\<rparr>)"
| change: "holder s = Some t \<Longrightarrow> latch_step 0 s (s\<lparr>guarded := d\<rparr>)"
| leave: "holder s = Some t \<Longrightarrow> latch_step 1 s (s\<lparr>word := unlock_exclusive (word s), holder := None\<rparr>)"

inductive_cases latch_stepE: "latch_step n s s'"

text \<open>A run lists the payloads that readers can see on the way and adds up the releases.\<close>

inductive latch_run :: "'d latch_state \<Rightarrow> 'd list \<Rightarrow> nat \<Rightarrow> 'd latch_state \<Rightarrow> bool" where
  stop: "latch_run s [guarded s] 0 s"
| more: "latch_run s ds n s' \<Longrightarrow> latch_step m s' s'' \<Longrightarrow> latch_run s (ds @ [guarded s'']) (n + m) s''"

section \<open>The invariant\<close>

text \<open>The lock bit is set exactly while a thread holds the latch.\<close>

definition latch_ok :: "'d latch_state \<Rightarrow> bool" where
  "latch_ok s \<longleftrightarrow> (holder s \<noteq> None \<longleftrightarrow> odd (unat (word s)))"

lemma lock_bit_odd: "s AND LOCK_BIT \<noteq> 0 \<longleftrightarrow> odd (unat s)"
proof -
  have "unat (s AND LOCK_BIT) = unat s mod 2"
    by (simp only: LOCK_BIT_def unsigned_and_eq) (simp add: and_one_eq)
  then show ?thesis by (metis odd_iff_mod_2_eq_one unat_eq_zero mod2_eq_if zero_neq_one)
qed

lemma set_lock_bit: "even (unat s) \<Longrightarrow> s OR LOCK_BIT = s + 1 \<and> unat (s + 1) = unat s + 1"
proof -
  assume e: "even (unat s)"
  then have "s AND 1 = 0" using lock_bit_odd [of s] by (simp add: LOCK_BIT_def)
  then have "s OR LOCK_BIT = s + 1" using word_plus_and_or [of s 1] by (simp add: LOCK_BIT_def)
  moreover have "unat s < 2 ^ 64" using unsigned_less [where ?'a = nat, of s] by simp
  moreover have "unat s \<noteq> 2 ^ 64 - 1" using e by auto
  ultimately show ?thesis by (simp add: unat_word_ariths)
qed

lemma unlock_even: "odd (unat s) \<Longrightarrow> even (unat (unlock_exclusive s))"
proof -
  assume "odd (unat s)"
  then have "even (Suc (unat s) mod 2 ^ 64)" by (intro dvd_mod) simp_all
  then show ?thesis by (simp add: unlock_exclusive_def unat_word_ariths)
qed

lemma lock_attempt_cases:
  "lock_attempt weak v w = (w', Some v') \<Longrightarrow> w' = w"
  "lock_attempt weak v w = (w', None) \<Longrightarrow> v = w \<and> even (unat w) \<and> w' = w + 1"
  using lock_bit_odd [of v] set_lock_bit [of v] by (auto simp: lock_attempt_def split: if_splits)

lemma latch_step_ok: "latch_step n s s' \<Longrightarrow> latch_ok s \<Longrightarrow> latch_ok s'"
proof (induction rule: latch_step.induct)
  case (retry s t v weak w v')
  then show ?case using lock_attempt_cases(1) [OF retry(2)] by (auto simp: latch_ok_def)
next
  case (taken s t v weak w)
  then show ?case using lock_attempt_cases(2) [OF taken(2)] set_lock_bit [of "word s"] by (auto simp: latch_ok_def)
next
  case (leave s t)
  then show ?case using unlock_even by (auto simp: latch_ok_def)
qed (auto simp: latch_ok_def)

text \<open>Ownership is exclusive: the latch is taken only when nobody holds it.\<close>

lemma taken_free: "lock_attempt weak v (word s) = (w, None) \<Longrightarrow> latch_ok s \<Longrightarrow> holder s = None"
  using lock_attempt_cases(2) by (auto simp: latch_ok_def)

text \<open>Since a state without holder, the word has moved by two for each release, and by one if the latch is held;
  nothing was written as long as the latch was never taken.\<close>

lemma latch_run_word:
  assumes "latch_run s ds n s'" "latch_ok s" "holder s = None"
  shows "latch_ok s' \<and> word s' = word s + of_nat (2 * n) + (if holder s' = None then 0 else 1) \<and>
    (n = 0 \<and> holder s' = None \<longrightarrow> set ds = {guarded s})"
  using assms
proof (induction rule: latch_run.induct)
  case (more s ds n s' m s'')
  then have ih: "latch_ok s'" "word s' = word s + of_nat (2 * n) + (if holder s' = None then 0 else 1)"
    "n = 0 \<and> holder s' = None \<longrightarrow> set ds = {guarded s}" by simp_all
  have p: "guarded s' \<in> set ds" using more(1) by (rule latch_run.cases) auto
  note ok = latch_step_ok [OF more(2) ih(1)]
  from more(2) show ?case
  proof cases
    case (enter t)
    then show ?thesis using ih p ok by auto
  next
    case (retry t v weak w v')
    then have "word s'' = word s'" "guarded s'' = guarded s'" "holder s'' = holder s'" "m = 0"
      using lock_attempt_cases(1) [OF retry(4)] by simp_all
    then show ?thesis using ih p ok by auto
  next
    case (taken t v weak w)
    then have "word s'' = word s' + 1" "holder s'' = Some t" "holder s' = None" "m = 0"
      using taken_free [OF taken(4) ih(1)] lock_attempt_cases(2) [OF taken(4)] by simp_all
    then show ?thesis using ih(2) ok by simp
  next
    case (change t d)
    then have "word s'' = word s'" "holder s'' = Some t" "holder s' = Some t" "m = 0" by simp_all
    then show ?thesis using ih(2) ok by simp
  next
    case (leave t)
    then show ?thesis using ih(2) ok by (simp add: unlock_exclusive_def)
  qed
qed simp

section \<open>Properties\<close>

text \<open>C36. An optimistic read that validates saw one version: if a reader takes a version, reads the payload at any
  moments while other threads lock, write and unlock, and the version is still the same afterwards, then every
  payload it could have seen is the one at the start, as long as fewer than 2^63 releases happened meanwhile.\<close>
theorem optimistic_read_consistent:
  assumes "latch_ok s" "optimistic (word s) = Some v" "latch_run s ds n s'" "validate v (word s')" "n < 2 ^ 63"
  shows "set ds = {guarded s} \<and> holder s' = None"
proof -
  have v: "v = word s" "holder s = None"
    using assms(1,2) lock_bit_odd [of "word s"] by (auto simp: optimistic_def latch_ok_def split: if_splits)
  from latch_run_word [OF assms(3,1) v(2)] have r: "latch_ok s'" "word s' = word s + of_nat (2 * n) + (if holder s' = None then 0 else 1)"
    "n = 0 \<and> holder s' = None \<longrightarrow> set ds = {guarded s}" by blast+
  have same: "word s' = word s" using assms(4) v(1) by (simp add: validate_def)
  then have h: "holder s' = None" using r(1) assms(1) v(2) by (auto simp: latch_ok_def)
  with r(2) same have "(of_nat (2 * n) :: u64) = 0" by simp
  then have "unat (of_nat (2 * n) :: u64) = 0" by (simp only: unat_0)
  then have "2 * n mod 2 ^ 64 = 0" using unat_of_nat [where ?'a = 64, of "2 * n"] by (simp del: of_nat_mult)
  then have "n = 0" using assms(5) by simp
  with r(3) h show ?thesis by blast
qed

definition idle_latch :: "nat latch_state" where
  "idle_latch = \<lparr>word = latch_new, guarded = 7, holder = None, seen = \<lambda>_. None\<rparr>"

theorem optimistic_read_consistent_witness:
  "latch_run idle_latch [7, 7] 0 (idle_latch\<lparr>seen := [3 \<mapsto> 0]\<rparr>) \<and> set [7, 7] = {guarded idle_latch}"
proof -
  have ok: "latch_ok idle_latch" "optimistic (word idle_latch) = Some 0"
    by (simp_all add: idle_latch_def latch_new_def latch_ok_def optimistic_def)
  have "latch_step 0 idle_latch (idle_latch\<lparr>seen := (seen idle_latch)(3 \<mapsto> word idle_latch)\<rparr>)"
    by (rule latch_step.enter) (simp_all add: idle_latch_def)
  from latch_run.more [OF latch_run.stop this]
  have r: "latch_run idle_latch [7, 7] 0 (idle_latch\<lparr>seen := [3 \<mapsto> 0]\<rparr>)" by (simp add: idle_latch_def latch_new_def)
  have "validate 0 (word (idle_latch\<lparr>seen := [3 \<mapsto> 0]\<rparr>))" by (simp add: validate_def idle_latch_def latch_new_def)
  with optimistic_read_consistent [OF ok r] r show ?thesis by simp
qed

end
