(* ===== verification/Privilege.thy ===== *)
theory Privilege
  imports Sql_Ast "HOL-Library.AList"
begin

text \<open>
  Privileges (\<open>crates/engine/src/db/privilege.rs\<close>): the grants of the users, the gate that every statement passes
  before it runs, and the statements that manage users and grants.

  \<^item> The state is \<open>PrivilegeStore\<close>; its hash maps and hash sets are association lists with distinct keys and sets.
  \<^item> \<open>tabs\<close> are the names of the existing tables, which \<open>resolve_table_key\<close> looks up; of a session the user and the
    current database matter.
  \<^item> \<open>select_tables\<close> collects into a vector; here the functions return the list, in the order of the pushes.
\<close>

section \<open>The store\<close>

definition SUPERUSER :: string where "SUPERUSER = ''root''"

record grant_rule =
  g_priv :: privilege
  g_db :: string
  g_tbl :: string

record privilege_store =
  p_users :: "string set"
  p_grants :: "(string \<times> grant_rule list) list"
  p_pending :: "(string \<times> string) list"
  p_tombstones :: "string set"
  p_version :: u64

record priv_session =
  ps_user :: string
  ps_current_db :: string

record query_output =
  o_columns :: "string list"
  o_rows :: "datum list list"
  o_message :: string

definition output_ok :: "string \<Rightarrow> query_output" where
  "output_ok msg = \<lparr>o_columns = [], o_rows = [], o_message = msg\<rparr>"

definition star :: string where "star = ''*''"

definition has_priv :: "privilege_store \<Rightarrow> string \<Rightarrow> privilege \<Rightarrow> string \<Rightarrow> string \<Rightarrow> bool" where
  "has_priv st user p db tbl =
     (case map_of (p_grants st) user of
        None \<Rightarrow> False
      | Some rules \<Rightarrow>
          (\<exists>r \<in> set rules. (g_priv r = p \<or> g_priv r = PAll) \<and> (g_db r = star \<or> g_db r = db) \<and> (g_tbl r = star \<or> g_tbl r = tbl)))"

definition is_admin :: "privilege_store \<Rightarrow> string \<Rightarrow> bool" where
  "is_admin st user \<longleftrightarrow> user = SUPERUSER \<or> has_priv st user PAll star star"

definition bump :: "privilege_store \<Rightarrow> privilege_store" where
  "bump st = st\<lparr>p_version := p_version st + 1\<rparr>"

definition import_privileges :: "(string \<times> grant_rule list) list \<Rightarrow> privilege_store \<Rightarrow> privilege_store" where
  "import_privileges users st =
     bump (st\<lparr>p_users := fst ` set users, p_grants := foldl (\<lambda>m (n, rules). AList.update n rules m) [] users,
              p_pending := [], p_tombstones := {}\<rparr>)"

definition import_missing_users :: "string list \<Rightarrow> privilege_store \<Rightarrow> privilege_store" where
  "import_missing_users names st = st\<lparr>p_users := p_users st \<union> set names\<rparr>"

text \<open>\<open>us\<close> lists the users in order, \<open>ts\<close> the tombstones in the iteration order of the hash set.\<close>

definition export_privileges ::
  "string list \<Rightarrow> string list \<Rightarrow> privilege_store \<Rightarrow>
    privilege_store \<times> (string \<times> grant_rule list) list \<times> string list \<times> (string \<times> string) list" where
  "export_privileges us ts st =
     (st\<lparr>p_tombstones := {}, p_pending := []\<rparr>,
      map (\<lambda>u. (u, case map_of (p_grants st) u of Some rules \<Rightarrow> rules | None \<Rightarrow> [])) us, ts, p_pending st)"

section \<open>The gate\<close>

definition resolve_table_key :: "string set \<Rightarrow> priv_session \<Rightarrow> string \<Rightarrow> string" where
  "resolve_table_key tabs s name =
     (if CHR ''.'' \<in> set name then name
      else let qual = ps_current_db s @ ''.'' @ name in
        if qual \<in> tabs then qual else if name \<in> tabs then name else qual)"

definition resolve_scope :: "string set \<Rightarrow> priv_session \<Rightarrow> string \<Rightarrow> string \<times> string" where
  "resolve_scope tabs s name =
     (let key = resolve_table_key tabs s name in
      if CHR ''.'' \<in> set key then (takeWhile (\<lambda>c. c \<noteq> CHR ''.'') key, tl (dropWhile (\<lambda>c. c \<noteq> CHR ''.'') key))
      else ([], key))"

definition check_table :: "string set \<Rightarrow> privilege_store \<Rightarrow> priv_session \<Rightarrow> string \<Rightarrow> privilege \<Rightarrow> unit result" where
  "check_table tabs st s name p =
     (if ps_user s = SUPERUSER then Inr ()
      else case resolve_scope tabs s name of (d, t) \<Rightarrow>
        if has_priv st (ps_user s) p d t then Inr ()
        else Inl (AccessDenied (ps_user s) (privilege_name p) (d @ ''.'' @ t)))"

definition is_system_schema :: "string \<Rightarrow> bool" where
  "is_system_schema name =
     (let l = map ascii_lower (takeWhile (\<lambda>c. c \<noteq> CHR ''.'') name) in l = ''pg_catalog'' \<or> l = ''information_schema'')"

fun expr_tables :: "expr \<Rightarrow> string list"
  and stmt_tables :: "select_stmt \<Rightarrow> string list"
  and item_tables :: "select_item \<Rightarrow> string list"
  and ref_tables :: "table_ref \<Rightarrow> string list"
  and join_tables :: "join_clause \<Rightarrow> string list" where
  "expr_tables (EColumn _) = []"
| "expr_tables (ELiteral _) = []"
| "expr_tables (ECmp left _ right) = expr_tables left @ expr_tables right"
| "expr_tables (EAnd a b) = expr_tables a @ expr_tables b"
| "expr_tables (EOr a b) = expr_tables a @ expr_tables b"
| "expr_tables (ENot x) = expr_tables x"
| "expr_tables (EIn e _ _) = expr_tables e"
| "expr_tables (EBetween e _ _ _) = expr_tables e"
| "expr_tables (ELike e _ _) = expr_tables e"
| "expr_tables (EInSubquery e q _) = expr_tables e @ stmt_tables q"
| "expr_tables (EScalarSubquery q) = stmt_tables q"
| "expr_tables (EExists q _) = stmt_tables q"
| "stmt_tables (SelectStmt items from joins selection _ _ _) =
     ref_tables from @ concat (map join_tables joins) @
     (case selection of None \<Rightarrow> [] | Some e \<Rightarrow> expr_tables e) @ concat (map item_tables items)"
| "item_tables (ISubquery q _) = stmt_tables q"
| "item_tables _ = []"
| "ref_tables (RTable n) = (if is_system_schema n then [] else [n])"
| "ref_tables (Derived q _) = stmt_tables q"
| "ref_tables REmpty = []"
| "join_tables (JoinClause _ r on) = ref_tables r @ expr_tables on"

fun check_tables :: "string set \<Rightarrow> privilege_store \<Rightarrow> priv_session \<Rightarrow> string list \<Rightarrow> unit result" where
  "check_tables tabs st s [] = Inr ()"
| "check_tables tabs st s (t # ts) = rbind (check_table tabs st s t PSelect) (\<lambda>_. check_tables tabs st s ts)"

definition opt_tables :: "expr option \<Rightarrow> string list" where
  "opt_tables selection = (case selection of None \<Rightarrow> [] | Some e \<Rightarrow> expr_tables e)"

definition require_db_or_table :: "string set \<Rightarrow> privilege_store \<Rightarrow> priv_session \<Rightarrow> string \<Rightarrow> privilege \<Rightarrow> unit result" where
  "require_db_or_table tabs st s name p =
     (if ps_user s = SUPERUSER then Inr ()
      else case resolve_scope tabs s name of (d, t) \<Rightarrow>
        if has_priv st (ps_user s) p d star \<or> has_priv st (ps_user s) p d t then Inr ()
        else Inl (AccessDenied (ps_user s) (privilege_name p) (d @ ''.'' @ t)))"

definition require_global :: "privilege_store \<Rightarrow> priv_session \<Rightarrow> privilege \<Rightarrow> string \<Rightarrow> unit result" where
  "require_global st s p command =
     (if ps_user s = SUPERUSER \<or> has_priv st (ps_user s) p star star then Inr ()
      else Inl (AccessDenied (ps_user s) command ''*.*''))"

definition require_admin :: "privilege_store \<Rightarrow> priv_session \<Rightarrow> string \<Rightarrow> unit result" where
  "require_admin st s command =
     (if ps_user s = SUPERUSER \<or> is_admin st (ps_user s) then Inr () else Inl (AccessDenied (ps_user s) command ''*.*''))"

fun stmt_admin_command :: "statement \<Rightarrow> string" where
  "stmt_admin_command (SCreateUser _ _ _) = ''CREATE USER''"
| "stmt_admin_command (SDropUser _ _) = ''DROP USER''"
| "stmt_admin_command (SAlterUser _ _) = ''ALTER USER''"
| "stmt_admin_command (SGrant _ _ _) = ''GRANT''"
| "stmt_admin_command (SRevoke _ _ _) = ''REVOKE''"
| "stmt_admin_command SPromote = ''PROMOTE''"
| "stmt_admin_command (SBackup _) = ''BACKUP''"
| "stmt_admin_command (SArchive _) = ''ARCHIVE''"
| "stmt_admin_command SCheckpoint = ''CHECKPOINT''"
| "stmt_admin_command _ = ''ADMIN''"

fun admin_statement :: "statement \<Rightarrow> bool" where
  "admin_statement (SCreateUser _ _ _) = True"
| "admin_statement (SDropUser _ _) = True"
| "admin_statement (SAlterUser _ _) = True"
| "admin_statement (SGrant _ _ _) = True"
| "admin_statement (SRevoke _ _ _) = True"
| "admin_statement SPromote = True"
| "admin_statement (SBackup _) = True"
| "admin_statement (SArchive _) = True"
| "admin_statement SCheckpoint = True"
| "admin_statement _ = False"

fun enforce :: "string set \<Rightarrow> privilege_store \<Rightarrow> priv_session \<Rightarrow> statement \<Rightarrow> unit result" where
  "enforce tabs st s (SSelect items from joins selection ob lim gb) =
     check_tables tabs st s (stmt_tables (SelectStmt items from joins selection ob lim gb))"
| "enforce tabs st s (SInsert table _ _) = check_table tabs st s table PInsert"
| "enforce tabs st s (SUpdate table assignments selection) =
     rbind (check_table tabs st s table PUpdate) (\<lambda>_.
       check_tables tabs st s (opt_tables selection @ concat (map (\<lambda>(_, v). expr_tables v) assignments)))"
| "enforce tabs st s (SDelete table selection) =
     rbind (check_table tabs st s table PDelete) (\<lambda>_. check_tables tabs st s (opt_tables selection))"
| "enforce tabs st s (SCreateTable name _ _ _) = require_db_or_table tabs st s name PCreate"
| "enforce tabs st s (SDropTable name _) = require_db_or_table tabs st s name PDrop"
| "enforce tabs st s (SCreateIndex _ table _ _) = require_db_or_table tabs st s table PCreate"
| "enforce tabs st s (SDropIndex _ table _) = require_db_or_table tabs st s table PDrop"
| "enforce tabs st s (SCreateDatabase _ _) = require_global st s PCreate ''CREATE DATABASE''"
| "enforce tabs st s (SDropDatabase _ _) = require_global st s PDrop ''DROP DATABASE''"
| "enforce tabs st s (SShowGrants for_user) =
     (if ps_user s = SUPERUSER then Inr ()
      else case for_user of
        None \<Rightarrow> Inr ()
      | Some u \<Rightarrow>
          if u = ps_user s then Inr ()
          else if is_admin st (ps_user s) then Inr ()
          else Inl (AccessDenied (ps_user s) ''SHOW GRANTS'' u))"
| "enforce tabs st s (SAnalyzeTable table) = check_table tabs st s table PSelect"
| "enforce tabs st s (SCheckTable table) = check_table tabs st s table PSelect"
| "enforce tabs st s (SCheckDatabase database) =
     (if ps_user s = SUPERUSER then Inr ()
      else let db_name = (case database of Some d \<Rightarrow> d | None \<Rightarrow> ps_current_db s) in
        if has_priv st (ps_user s) PSelect star star \<or> has_priv st (ps_user s) PSelect db_name star then Inr ()
        else Inl (AccessDenied (ps_user s) ''SELECT'' (db_name @ ''.*'')))"
| "enforce tabs st s (SExplain _ statement) = enforce tabs st s statement"
| "enforce tabs st s (SExplainMemo statement) = enforce tabs st s statement"
| "enforce tabs st s stmt =
     (if admin_statement stmt then require_admin st s (stmt_admin_command stmt) else Inr ())"

section \<open>User management\<close>

definition quoted :: "string \<Rightarrow> string" where "quoted n = CHR 0x27 # n @ [CHR 0x27]"

definition concrete_scope :: "priv_session \<Rightarrow> grant_scope \<Rightarrow> string \<times> string" where
  "concrete_scope s scope =
     (case scope of
        Global \<Rightarrow> (star, star)
      | DatabaseScope db \<Rightarrow> (db, star)
      | TableScope (Some db) tbl \<Rightarrow> (db, tbl)
      | TableScope None tbl \<Rightarrow> (ps_current_db s, tbl))"

definition add_rules :: "string \<Rightarrow> string \<Rightarrow> privilege list \<Rightarrow> grant_rule list \<Rightarrow> grant_rule list" where
  "add_rules d t privs rules =
     foldl (\<lambda>rs p. let rule = \<lparr>g_priv = p, g_db = d, g_tbl = t\<rparr> in if rule \<in> set rs then rs else rs @ [rule]) rules privs"

definition revoke_rules :: "string \<Rightarrow> string \<Rightarrow> privilege list \<Rightarrow> grant_rule list \<Rightarrow> grant_rule list" where
  "revoke_rules d t privs rules =
     filter (\<lambda>r. \<not> (g_priv r \<in> set privs \<and> (g_db r = d \<or> d = star) \<and> (g_tbl r = t \<or> t = star))) rules"

definition rule_scope :: "grant_rule \<Rightarrow> string" where
  "rule_scope r = g_db r @ ''.'' @ g_tbl r"

definition grant_text :: "string \<Rightarrow> grant_rule \<Rightarrow> string" where
  "grant_text user r = ''GRANT '' @ privilege_name (g_priv r) @ '' ON '' @ rule_scope r @ '' TO '' @ quoted user @ ''@'' @ quoted ''%''"

definition show_grants :: "privilege_store \<Rightarrow> string \<Rightarrow> query_output result" where
  "show_grants st target =
     (if target \<notin> p_users st \<and> target \<noteq> SUPERUSER then Inl (InvalidQuery (''no such user '' @ quoted target))
      else
        let rules = (case map_of (p_grants st) target of Some rs \<Rightarrow> rs | None \<Rightarrow> []);
            rows = map (\<lambda>r. [DText (grant_text target r)]) (sort_key (\<lambda>r. str_bytes (rule_scope r)) rules);
            rows = (if target = SUPERUSER
                    then [DText (''GRANT ALL PRIVILEGES ON *.* TO '' @ quoted target @ ''@'' @ quoted ''%'')] # rows else rows)
        in Inr \<lparr>o_columns = [''Grants''], o_rows = rows, o_message = ''OK''\<rparr>)"

fun exec_user_mgmt :: "priv_session \<Rightarrow> statement \<Rightarrow> privilege_store \<Rightarrow> privilege_store \<times> query_output result" where
  "exec_user_mgmt s (SCreateUser name if_not_exists password) st =
     (if name = SUPERUSER then (st, Inl (InvalidQuery (''user '' @ quoted SUPERUSER @ '' already exists'')))
      else if name \<in> p_users st then
        (st, if if_not_exists then Inr (output_ok ''user exists, skipped'')
             else Inl (InvalidQuery (''user '' @ quoted name @ '' already exists'')))
      else (bump (st\<lparr>p_users := insert name (p_users st), p_pending := AList.update name password (p_pending st),
                    p_tombstones := p_tombstones st - {name}\<rparr>),
            Inr (output_ok (''user '' @ quoted name @ '' created''))))"
| "exec_user_mgmt s (SDropUser name if_exists) st =
     (if name = SUPERUSER then (st, Inl (InvalidQuery (''cannot drop user '' @ quoted SUPERUSER)))
      else if name \<notin> p_users st then
        (st, if if_exists then Inr (output_ok ''no such user, skipped'') else Inl (InvalidQuery (''no such user '' @ quoted name)))
      else (bump (st\<lparr>p_users := p_users st - {name}, p_grants := AList.delete name (p_grants st),
                    p_pending := AList.delete name (p_pending st), p_tombstones := insert name (p_tombstones st)\<rparr>),
            Inr (output_ok (''user '' @ quoted name @ '' dropped''))))"
| "exec_user_mgmt s (SAlterUser name password) st =
     (if name \<notin> p_users st then (st, Inl (InvalidQuery (''no such user '' @ quoted name)))
      else (bump (st\<lparr>p_pending := AList.update name password (p_pending st)\<rparr>),
            Inr (output_ok (''user '' @ quoted name @ '' altered''))))"
| "exec_user_mgmt s (SGrant privs scope user) st =
     (case concrete_scope s scope of (d, t) \<Rightarrow>
        if user \<notin> p_users st then (st, Inl (InvalidQuery (''no such user '' @ quoted user)))
        else if user = SUPERUSER then (st, Inl (InvalidQuery (''cannot grant to '' @ quoted SUPERUSER)))
        else
          let rules = (case map_of (p_grants st) user of Some rs \<Rightarrow> rs | None \<Rightarrow> []);
              rules' = add_rules d t privs rules;
              st' = st\<lparr>p_grants := AList.update user rules' (p_grants st)\<rparr>
          in (if rules' = rules then st' else bump st', Inr (output_ok (''grants updated for '' @ quoted user))))"
| "exec_user_mgmt s (SRevoke privs scope user) st =
     (case concrete_scope s scope of (d, t) \<Rightarrow>
        if user \<notin> p_users st then (st, Inl (InvalidQuery (''no such user '' @ quoted user)))
        else if user = SUPERUSER then (st, Inl (InvalidQuery (''cannot revoke from '' @ quoted SUPERUSER)))
        else
          case map_of (p_grants st) user of
            None \<Rightarrow> (st, Inl (InvalidQuery (''no such grant for '' @ quoted user)))
          | Some rules \<Rightarrow>
              (let rules' = revoke_rules d t privs rules;
                   st' = st\<lparr>p_grants := AList.update user rules' (p_grants st)\<rparr>
               in if length rules' = length rules then (st', Inl (InvalidQuery (''no such grant for '' @ quoted user)))
                  else (bump st', Inr (output_ok (''grants updated for '' @ quoted user)))))"
| "exec_user_mgmt s (SShowGrants for_user) st =
     (st, show_grants st (case for_user of Some u \<Rightarrow> u | None \<Rightarrow> ps_user s))"
| "exec_user_mgmt s stmt st = (st, Inl (NotSupported ''not a user-management statement''))"

section \<open>What a statement reads\<close>

text \<open>The declarative reading of \<open>select_tables\<close>: a name occurs as a table anywhere in a statement.\<close>

inductive expr_reads :: "expr \<Rightarrow> string \<Rightarrow> bool"
  and stmt_reads :: "select_stmt \<Rightarrow> string \<Rightarrow> bool"
  and ref_reads :: "table_ref \<Rightarrow> string \<Rightarrow> bool" where
  cmp_left: "expr_reads l n \<Longrightarrow> expr_reads (ECmp l c r) n"
| cmp_right: "expr_reads r n \<Longrightarrow> expr_reads (ECmp l c r) n"
| and_left: "expr_reads l n \<Longrightarrow> expr_reads (EAnd l r) n"
| and_right: "expr_reads r n \<Longrightarrow> expr_reads (EAnd l r) n"
| or_left: "expr_reads l n \<Longrightarrow> expr_reads (EOr l r) n"
| or_right: "expr_reads r n \<Longrightarrow> expr_reads (EOr l r) n"
| in_not: "expr_reads e n \<Longrightarrow> expr_reads (ENot e) n"
| in_list: "expr_reads e n \<Longrightarrow> expr_reads (EIn e vs neg) n"
| in_between: "expr_reads e n \<Longrightarrow> expr_reads (EBetween e lo hi neg) n"
| in_like: "expr_reads e n \<Longrightarrow> expr_reads (ELike e pat neg) n"
| in_sub_expr: "expr_reads e n \<Longrightarrow> expr_reads (EInSubquery e q neg) n"
| in_sub_query: "stmt_reads q n \<Longrightarrow> expr_reads (EInSubquery e q neg) n"
| in_scalar: "stmt_reads q n \<Longrightarrow> expr_reads (EScalarSubquery q) n"
| in_exists: "stmt_reads q n \<Longrightarrow> expr_reads (EExists q neg) n"
| from_ref: "ref_reads from n \<Longrightarrow> stmt_reads (SelectStmt items from joins sel ob lim gb) n"
| join_ref: "JoinClause k r on \<in> set joins \<Longrightarrow> ref_reads r n \<Longrightarrow> stmt_reads (SelectStmt items from joins sel ob lim gb) n"
| join_on: "JoinClause k r on \<in> set joins \<Longrightarrow> expr_reads on n \<Longrightarrow> stmt_reads (SelectStmt items from joins sel ob lim gb) n"
| where_clause: "expr_reads e n \<Longrightarrow> stmt_reads (SelectStmt items from joins (Some e) ob lim gb) n"
| item_query: "ISubquery q alias \<in> set items \<Longrightarrow> stmt_reads q n \<Longrightarrow> stmt_reads (SelectStmt items from joins sel ob lim gb) n"
| base_table: "ref_reads (RTable n) n"
| derived: "stmt_reads q n \<Longrightarrow> ref_reads (Derived q alias) n"

inductive_cases expr_readsE: "expr_reads e n"
inductive_cases stmt_readsE: "stmt_reads q n"
inductive_cases ref_readsE: "ref_reads r n"

lemma tables_complete:
  "expr_reads e n \<Longrightarrow> \<not> is_system_schema n \<Longrightarrow> n \<in> set (expr_tables e)"
  "stmt_reads q n \<Longrightarrow> \<not> is_system_schema n \<Longrightarrow> n \<in> set (stmt_tables q)"
  "ref_reads r n \<Longrightarrow> \<not> is_system_schema n \<Longrightarrow> n \<in> set (ref_tables r)"
proof (induction rule: expr_reads_stmt_reads_ref_reads.inducts)
  case (join_ref k r c joins n items f sel ob lim gb)
  then show ?case by (auto intro!: bexI [of _ "JoinClause k r c"])
next
  case (join_on k r c joins n items f sel ob lim gb)
  then show ?case by (auto intro!: bexI [of _ "JoinClause k r c"])
next
  case (item_query q al items n f joins sel ob lim gb)
  then show ?case by (auto intro!: bexI [of _ "ISubquery q al"])
qed auto

lemma tables_sound:
  "n \<in> set (expr_tables e) \<Longrightarrow> expr_reads e n \<and> \<not> is_system_schema n"
  "n \<in> set (stmt_tables q) \<Longrightarrow> stmt_reads q n \<and> \<not> is_system_schema n"
  "n \<in> set (item_tables i) \<Longrightarrow> (\<exists>q alias. i = ISubquery q alias \<and> stmt_reads q n) \<and> \<not> is_system_schema n"
  "n \<in> set (ref_tables r) \<Longrightarrow> ref_reads r n \<and> \<not> is_system_schema n"
  "n \<in> set (join_tables j) \<Longrightarrow>
     (\<exists>k r on. j = JoinClause k r on \<and> (ref_reads r n \<or> expr_reads on n)) \<and> \<not> is_system_schema n"
proof (induction e and q and i and r and j rule: expr_tables_stmt_tables_item_tables_ref_tables_join_tables.induct)
  case (13 items f joins selection uu uv uw)
  then show ?case
    by (fastforce split: option.splits intro: from_ref join_ref join_on where_clause item_query)
qed (auto intro: expr_reads_stmt_reads_ref_reads.intros split: if_splits)

lemma expr_tables_iff: "n \<in> set (expr_tables e) \<longleftrightarrow> expr_reads e n \<and> \<not> is_system_schema n"
  using tables_complete(1) tables_sound(1) by blast

lemma stmt_tables_iff: "n \<in> set (stmt_tables q) \<longleftrightarrow> stmt_reads q n \<and> \<not> is_system_schema n"
  using tables_complete(2) tables_sound(2) by blast

section \<open>What the gate lets through\<close>

definition may_access :: "string set \<Rightarrow> privilege_store \<Rightarrow> priv_session \<Rightarrow> privilege \<Rightarrow> string \<Rightarrow> bool" where
  "may_access tabs st s p n \<longleftrightarrow>
     ps_user s = SUPERUSER \<or>
     (\<exists>rules r. map_of (p_grants st) (ps_user s) = Some rules \<and> r \<in> set rules \<and> g_priv r \<in> {p, PAll} \<and>
        g_db r \<in> {star, fst (resolve_scope tabs s n)} \<and> g_tbl r \<in> {star, snd (resolve_scope tabs s n)})"

lemma check_table_iff: "check_table tabs st s n p = Inr () \<longleftrightarrow> may_access tabs st s p n"
  by (auto simp: check_table_def may_access_def has_priv_def split: prod.splits option.splits)

lemma check_table_denies:
  "\<not> may_access tabs st s p n \<Longrightarrow>
   check_table tabs st s n p =
     Inl (AccessDenied (ps_user s) (privilege_name p) (fst (resolve_scope tabs s n) @ ''.'' @ snd (resolve_scope tabs s n)))"
  by (auto simp: check_table_def may_access_def has_priv_def split: prod.splits option.splits)

lemma check_tables_iff: "check_tables tabs st s ts = Inr () \<longleftrightarrow> (\<forall>t \<in> set ts. may_access tabs st s PSelect t)"
proof (induction ts)
  case (Cons t ts)
  then show ?case
    by (cases "may_access tabs st s PSelect t") (auto simp: check_table_iff [THEN iffD2] check_table_denies)
qed simp

text \<open>What a statement reads, and what it changes with which privilege.\<close>

fun statement_reads :: "statement \<Rightarrow> string \<Rightarrow> bool" where
  "statement_reads (SSelect items from joins selection ob lim gb) n = stmt_reads (SelectStmt items from joins selection ob lim gb) n"
| "statement_reads (SUpdate table assignments selection) n =
     ((\<exists>e. selection = Some e \<and> expr_reads e n) \<or> (\<exists>c v. (c, v) \<in> set assignments \<and> expr_reads v n))"
| "statement_reads (SDelete table selection) n = (\<exists>e. selection = Some e \<and> expr_reads e n)"
| "statement_reads (SExplain a stmt) n = statement_reads stmt n"
| "statement_reads (SExplainMemo stmt) n = statement_reads stmt n"
| "statement_reads _ n = False"

fun statement_writes :: "statement \<Rightarrow> privilege \<Rightarrow> string \<Rightarrow> bool" where
  "statement_writes (SInsert table cs rows) p n = (p = PInsert \<and> n = table)"
| "statement_writes (SUpdate table assignments selection) p n = (p = PUpdate \<and> n = table)"
| "statement_writes (SDelete table selection) p n = (p = PDelete \<and> n = table)"
| "statement_writes (SExplain a stmt) p n = statement_writes stmt p n"
| "statement_writes (SExplainMemo stmt) p n = statement_writes stmt p n"
| "statement_writes _ p n = False"

fun data_statement :: "statement \<Rightarrow> bool" where
  "data_statement (SSelect _ _ _ _ _ _ _) = True"
| "data_statement (SInsert _ _ _) = True"
| "data_statement (SUpdate _ _ _) = True"
| "data_statement (SDelete _ _) = True"
| "data_statement (SExplain _ stmt) = data_statement stmt"
| "data_statement (SExplainMemo stmt) = data_statement stmt"
| "data_statement _ = False"

lemma opt_tables_iff:
  "n \<in> set (opt_tables sel) \<longleftrightarrow> (\<exists>e. sel = Some e \<and> expr_reads e n) \<and> \<not> is_system_schema n"
  by (auto simp: opt_tables_def expr_tables_iff split: option.splits)

lemma check_then_iff:
  "rbind (check_table tabs st s n p) (\<lambda>_. r) = Inr () \<longleftrightarrow> may_access tabs st s p n \<and> r = Inr ()"
  by (cases "may_access tabs st s p n") (auto simp: check_table_iff [THEN iffD2] check_table_denies)


text \<open>The analyst may read \<open>app.users\<close> and nothing else: a subquery over \<open>app.cards\<close> hidden in IN is refused.\<close>

definition analyst_store :: privilege_store where
  "analyst_store = \<lparr>p_users = {''ann''}, p_grants = [(''ann'', [\<lparr>g_priv = PSelect, g_db = ''app'', g_tbl = ''users''\<rparr>])],
     p_pending = [], p_tombstones = {}, p_version = 0\<rparr>"

definition nested_select :: statement where
  "nested_select = SSelect [Star] (RTable ''users'') []
     (Some (EInSubquery (EColumn ''id'') (SelectStmt [IColumn ''id''] (RTable ''cards'') [] None [] None []) False)) [] None []"

lemma nested_reads: "statement_reads nested_select ''cards''"
  unfolding nested_select_def statement_reads.simps by (intro where_clause in_sub_query from_ref base_table)


section \<open>Histories of user management\<close>

datatype priv_op =
    ImportOp "(string \<times> grant_rule list) list"
  | MissingOp "string list"
  | ExportOp "string list" "string list"
  | ExecOp priv_session statement

fun apply_op :: "priv_op \<Rightarrow> privilege_store \<Rightarrow> privilege_store" where
  "apply_op (ImportOp users) st = import_privileges users st"
| "apply_op (MissingOp names) st = import_missing_users names st"
| "apply_op (ExportOp us ts) st = fst (export_privileges us ts st)"
| "apply_op (ExecOp s stmt) st = fst (exec_user_mgmt s stmt st)"

definition empty_store :: privilege_store where
  "empty_store = \<lparr>p_users = {}, p_grants = [], p_pending = [], p_tombstones = {}, p_version = 0\<rparr>"

text \<open>Only users hold grants and staged passwords, a tombstone is no user, and the superuser can be dropped never.\<close>

definition store_ok :: "privilege_store \<Rightarrow> bool" where
  "store_ok st \<longleftrightarrow> distinct (map fst (p_grants st)) \<and> fst ` set (p_grants st) \<subseteq> p_users st \<and>
     fst ` set (p_pending st) \<subseteq> p_users st"

lemma keys_delete: "fst ` set (AList.delete k al) = fst ` set al - {k}"
  by (auto simp: AList.delete_eq)

lemma import_fold_ok:
  "distinct (map fst m) \<Longrightarrow>
   distinct (map fst (foldl (\<lambda>m (n, rules). AList.update n rules m) m users)) \<and>
   fst ` set (foldl (\<lambda>m (n, rules). AList.update n rules m) m users) = fst ` set m \<union> fst ` set users"
proof (induction users arbitrary: m)
  case (Cons u users)
  then show ?case
    by (cases u) (auto simp: distinct_update dom_update)
qed simp

lemma bump_sel [simp]:
  "p_users (bump st) = p_users st" "p_grants (bump st) = p_grants st" "p_pending (bump st) = p_pending st"
  "p_tombstones (bump st) = p_tombstones st"
  by (simp_all add: bump_def)

lemma store_ok_bump [simp]: "store_ok (bump st) = store_ok st"
  by (simp add: store_ok_def)

lemma store_ok_import: "store_ok (import_privileges users st)"
  using import_fold_ok [of "[]" users] by (simp add: import_privileges_def store_ok_def)

lemma store_ok_exec: "store_ok st \<Longrightarrow> store_ok (fst (exec_user_mgmt s stmt st))"
  by (cases "(s, stmt, st)" rule: exec_user_mgmt.cases)
    (auto simp: store_ok_def dom_update distinct_update keys_delete distinct_delete Let_def map_of_eq_None_iff
      dest: map_of_SomeD split: prod.splits option.splits if_splits)

lemma store_ok_missing: "store_ok st \<Longrightarrow> store_ok (import_missing_users names st)"
  by (auto simp: store_ok_def import_missing_users_def)

lemma store_ok_export: "store_ok st \<Longrightarrow> store_ok (fst (export_privileges us ts st))"
  by (simp add: store_ok_def export_privileges_def)

lemma store_ok_apply: "store_ok st \<Longrightarrow> store_ok (apply_op op st)"
  by (cases op) (simp_all add: store_ok_import store_ok_missing store_ok_export store_ok_exec)

lemma store_ok_history: "store_ok st \<Longrightarrow> store_ok (foldl (\<lambda>st op. apply_op op st) st ops)"
  by (induction ops arbitrary: st) (simp_all add: store_ok_apply)

lemma no_rules_no_access: "map_of (p_grants st) (ps_user s) = None \<Longrightarrow> ps_user s \<noteq> SUPERUSER \<Longrightarrow> \<not> may_access tabs st s p n"
  by (simp add: may_access_def)

lemma unknown_no_access: "store_ok st \<Longrightarrow> ps_user s \<notin> p_users st \<Longrightarrow> ps_user s \<noteq> SUPERUSER \<Longrightarrow> \<not> may_access tabs st s p n"
  by (rule no_rules_no_access) (auto simp: store_ok_def map_of_eq_None_iff)

lemma unknown_no_priv: "store_ok st \<Longrightarrow> u \<notin> p_users st \<Longrightarrow> \<not> has_priv st u p d t"
  by (auto simp: store_ok_def has_priv_def split: option.splits dest: map_of_SomeD)

lemma reads_data: "statement_reads stmt n \<Longrightarrow> data_statement stmt"
  by (induction stmt) auto

lemma writes_data: "statement_writes stmt p n \<Longrightarrow> data_statement stmt"
  by (induction stmt) auto

fun schema_statement :: "statement \<Rightarrow> bool" where
  "schema_statement (SCreateTable _ _ _ _) = True"
| "schema_statement (SDropTable _ _) = True"
| "schema_statement (SCreateIndex _ _ _ _) = True"
| "schema_statement (SDropIndex _ _ _) = True"
| "schema_statement (SCreateDatabase _ _) = True"
| "schema_statement (SDropDatabase _ _) = True"
| "schema_statement _ = False"

lemma gate_data:
  assumes "enforce tabs st s stmt = Inr ()"
  shows "statement_reads stmt n \<Longrightarrow> \<not> is_system_schema n \<Longrightarrow> may_access tabs st s PSelect n"
    and "statement_writes stmt p n \<Longrightarrow> may_access tabs st s p n"
  using assms
proof (induction stmt)
  case (SUpdate table assignments selection)
  { case 1
    then show ?case
      by (fastforce simp: check_then_iff check_tables_iff opt_tables_iff expr_tables_iff)
  next
    case 2
    then show ?case by (simp add: check_then_iff) }
qed (auto simp: check_tables_iff stmt_tables_iff check_then_iff check_table_iff opt_tables_iff simp del: stmt_tables.simps)

lemma gate_admin: "enforce tabs st s stmt = Inr () \<Longrightarrow> admin_statement stmt \<Longrightarrow> is_admin st (ps_user s)"
  by (cases stmt) (auto simp: require_admin_def is_admin_def split: if_splits)

lemma gate_schema:
  assumes "enforce tabs st s stmt = Inr ()" "schema_statement stmt"
  shows "ps_user s = SUPERUSER \<or> (\<exists>p d t. has_priv st (ps_user s) p d t)"
  using assms by (cases stmt) (auto simp: require_db_or_table_def require_global_def split: if_splits prod.splits)


text \<open>The example user creates, grants to and drops \<open>ann\<close>; her SELECT is refused then.\<close>

definition drop_history :: "priv_op list" where
  "drop_history = (let s = \<lparr>ps_user = SUPERUSER, ps_current_db = ''app''\<rparr> in
     [ExecOp s (SCreateUser ''ann'' False ''pw''), ExecOp s (SGrant [PAll] Global ''ann''), ExecOp s (SDropUser ''ann'' False)])"

lemma system_schema_cards: "\<not> is_system_schema ''cards''"
  by (simp add: is_system_schema_def Let_def ascii_lower_def)


section \<open>GRANT and REVOKE\<close>

lemma set_add_rules:
  "set (add_rules d t privs rules) = set rules \<union> (\<lambda>p. \<lparr>g_priv = p, g_db = d, g_tbl = t\<rparr>) ` set privs"
  unfolding add_rules_def by (induction privs arbitrary: rules) (auto simp: Let_def)

text \<open>C33. A GRANT that returns OK gives its user the privileges on its scope, everything else stays as it is: afterwards a
  user holds a privilege on a table if he held it before, or if he is the grantee, the privilege or ALL is in the
  list, and the scope (with the session's database for a bare table name) covers the table.
\<close>

theorem grant_exact:
  assumes "exec_user_mgmt s (SGrant privs scope user) st = (st', Inr out)"
  shows "has_priv st' u p db tbl \<longleftrightarrow>
    has_priv st u p db tbl \<or>
    (u = user \<and> (p \<in> set privs \<or> PAll \<in> set privs) \<and> fst (concrete_scope s scope) \<in> {star, db} \<and>
     snd (concrete_scope s scope) \<in> {star, tbl})"
proof (cases "u = user")
  case True
  obtain d t where c: "concrete_scope s scope = (d, t)" by (cases "concrete_scope s scope")
  let ?rules = "case map_of (p_grants st) user of Some rs \<Rightarrow> rs | None \<Rightarrow> []"
  have "map_of (p_grants st') user = Some (add_rules d t privs ?rules)"
    using assms by (auto simp: c Let_def update_conv' split: if_splits)
  with True c show ?thesis
    by (cases "map_of (p_grants st) user") (auto simp: has_priv_def set_add_rules bex_Un)
next
  case False
  then have "map_of (p_grants st') u = map_of (p_grants st) u"
    using assms by (auto simp: Let_def update_conv' split: if_splits prod.splits)
  with False show ?thesis by (simp add: has_priv_def)
qed

definition two_users :: privilege_store where
  "two_users = \<lparr>p_users = {''ann'', ''bob''}, p_grants = [], p_pending = [], p_tombstones = {}, p_version = 0\<rparr>"

lemma no_grants: "p_grants two_users = []"
  by (simp add: two_users_def)

theorem grant_exact_witness:
  "\<exists>st'. fst (exec_user_mgmt \<lparr>ps_user = SUPERUSER, ps_current_db = ''app''\<rparr> (SGrant [PSelect] (TableScope None ''users'') ''ann'') two_users) = st' \<and>
     has_priv st' ''ann'' PSelect ''app'' ''users'' \<and> \<not> has_priv st' ''ann'' PInsert ''app'' ''users'' \<and>
     \<not> has_priv st' ''bob'' PSelect ''app'' ''users'' \<and> \<not> has_priv st' ''ann'' PSelect ''app'' ''cards''"
proof -
  let ?s = "\<lparr>ps_user = SUPERUSER, ps_current_db = ''app''\<rparr>"
  let ?r = "exec_user_mgmt ?s (SGrant [PSelect] (TableScope None ''users'') ''ann'') two_users"
  have "?r = (fst ?r, Inr (output_ok (''grants updated for '' @ quoted ''ann'')))"
    by (simp add: two_users_def concrete_scope_def SUPERUSER_def Let_def)
  then obtain st' where st': "?r = (st', Inr (output_ok (''grants updated for '' @ quoted ''ann'')))" by metis
  from grant_exact [OF st'] st' show ?thesis
    by (simp add: concrete_scope_def has_priv_def [of two_users] star_def no_grants)
qed

text \<open>C34. A REVOKE that returns OK removes exactly the rules of its user whose privilege is listed and whose scope it
  names (or covers with a wildcard). It follows that revoking SELECT leaves it to a user who holds ALL, and that
  revoking ALL on every table leaves every privilege that was granted by name.
\<close>

theorem revoke_exact:
  assumes "exec_user_mgmt s (SRevoke privs scope user) st = (st', Inr out)"
  shows "has_priv st' u p db tbl \<longleftrightarrow>
    (\<exists>rules r. map_of (p_grants st) u = Some rules \<and> r \<in> set rules \<and> g_priv r \<in> {p, PAll} \<and> g_db r \<in> {star, db} \<and>
       g_tbl r \<in> {star, tbl} \<and>
       \<not> (u = user \<and> g_priv r \<in> set privs \<and> fst (concrete_scope s scope) \<in> {star, g_db r} \<and>
          snd (concrete_scope s scope) \<in> {star, g_tbl r}))"
proof (cases "u = user")
  case True
  obtain d t where c: "concrete_scope s scope = (d, t)" by (cases "concrete_scope s scope")
  obtain rules where r: "map_of (p_grants st) user = Some rules" "map_of (p_grants st') user = Some (revoke_rules d t privs rules)"
    using assms by (auto simp: c Let_def update_conv' split: if_splits option.splits)
  with True c show ?thesis
    by (auto simp: has_priv_def revoke_rules_def)
next
  case False
  then have "map_of (p_grants st') u = map_of (p_grants st) u"
    using assms by (auto simp: Let_def update_conv' split: if_splits prod.splits option.splits)
  with False show ?thesis by (auto simp: has_priv_def split: option.splits)
qed

definition all_and_select :: privilege_store where
  "all_and_select = \<lparr>p_users = {''ann''},
     p_grants = [(''ann'', [\<lparr>g_priv = PAll, g_db = star, g_tbl = star\<rparr>, \<lparr>g_priv = PSelect, g_db = ''app'', g_tbl = ''users''\<rparr>])],
     p_pending = [], p_tombstones = {}, p_version = 0\<rparr>"

lemma grants_ann: "map_of (p_grants all_and_select) ''ann'' =
    Some [\<lparr>g_priv = PAll, g_db = star, g_tbl = star\<rparr>, \<lparr>g_priv = PSelect, g_db = ''app'', g_tbl = ''users''\<rparr>]"
  by (simp add: all_and_select_def)

theorem revoke_exact_witness:
  "\<exists>st'. fst (exec_user_mgmt \<lparr>ps_user = SUPERUSER, ps_current_db = ''app''\<rparr> (SRevoke [PAll] Global ''ann'') all_and_select) = st' \<and>
     \<not> has_priv st' ''ann'' PInsert ''app'' ''users'' \<and> has_priv st' ''ann'' PSelect ''app'' ''users''"
proof -
  let ?s = "\<lparr>ps_user = SUPERUSER, ps_current_db = ''app''\<rparr>"
  let ?r = "exec_user_mgmt ?s (SRevoke [PAll] Global ''ann'') all_and_select"
  have "?r = (fst ?r, Inr (output_ok (''grants updated for '' @ quoted ''ann'')))"
    by (simp add: all_and_select_def concrete_scope_def SUPERUSER_def Let_def revoke_rules_def)
  then obtain st' where st': "?r = (st', Inr (output_ok (''grants updated for '' @ quoted ''ann'')))" by metis
  from revoke_exact [OF st'] st' show ?thesis
    by (simp add: concrete_scope_def star_def grants_ann) auto
qed

section \<open>Export and import\<close>

lemma import_fold_map_of:
  "distinct (map fst users) \<Longrightarrow>
   map_of (foldl (\<lambda>m (n, rules). AList.update n rules m) m users) = map_of m ++ map_of users"
proof (induction users arbitrary: m)
  case (Cons u users)
  obtain n rules where u: "u = (n, rules)" by (cases u)
  have "map_of users n = None" using Cons.prems u by (simp add: map_of_eq_None_iff)
  then have "map_of (AList.update n rules m) ++ map_of users = map_of m ++ map_of (u # users)"
    by (intro ext) (auto simp: u update_conv' map_add_def split: option.splits)
  then show ?case using Cons by (simp add: u del: map_of.simps)
qed simp

text \<open>What a server persists on one run and imports on the next decides every check the same way.\<close>

lemma export_import_privs:
  assumes "store_ok st" "set us = p_users st" "distinct us"
    and "export_privileges us ts st = (st1, users, tomb, pend)"
  shows "has_priv (import_privileges users st2) u p d t = has_priv st u p d t"
    and "p_users (import_privileges users st2) = p_users st"
proof -
  let ?g = "\<lambda>u. case map_of (p_grants st) u of Some rules \<Rightarrow> rules | None \<Rightarrow> []"
  have users: "users = map (\<lambda>u. (u, ?g u)) us"
    using assms(4) by (simp add: export_privileges_def)
  then have d: "map fst users = us" by (simp add: comp_def)
  have "map_of (p_grants (import_privileges users st2)) = map_of users"
    using import_fold_map_of [of users "[]"] d assms(3) by (simp add: import_privileges_def)
  moreover have "map_of users u = (if u \<in> p_users st then Some (?g u) else None)"
    unfolding users assms(2) [symmetric] by (induction us) auto
  moreover have "u \<notin> p_users st \<Longrightarrow> map_of (p_grants st) u = None"
    using assms(1) by (auto simp: store_ok_def map_of_eq_None_iff)
  ultimately show "has_priv (import_privileges users st2) u p d t = has_priv st u p d t"
    by (auto simp: has_priv_def split: option.splits)
  show "p_users (import_privileges users st2) = p_users st"
    using d assms(2) by (simp add: import_privileges_def image_set)
qed

end
