(* ===== verification/Sql_Lexer.thy ===== *)
theory Sql_Lexer
  imports Utf8
begin

text \<open>
  The SQL lexer (\<open>crates/engine/src/sql/lexer.rs\<close>) and its correctness.

  \<^item> \<open>Vec<char>\<close> with a position is the list of the characters that are left; a character is its UTF-8 text. The
    symbols that the lexer makes of two characters are single characters in the source, too.
  \<^item> \<open>tokenize\<close> is total: every round of its loop consumes a character.
\<close>

section \<open>Tokens and characters\<close>

datatype token = Ident string | Number string | Str string | Sym string | Eof

definition sym_le :: string where "sym_le = map char_of [0xE2, 0x89, 0xA4 :: nat]"
definition sym_ne :: string where "sym_ne = map char_of [0xE2, 0x89, 0xA0 :: nat]"
definition sym_ge :: string where "sym_ge = map char_of [0xE2, 0x89, 0xA5 :: nat]"

definition squote_char :: string where "squote_char = [CHR 0x27]"
definition dquote_char :: string where "dquote_char = [CHR 0x22]"

definition is_whitespace :: "string \<Rightarrow> bool" where
  "is_whitespace c \<longleftrightarrow> 0 < ws_len c"

definition is_ascii_digit :: "string \<Rightarrow> bool" where
  "is_ascii_digit c \<longleftrightarrow> (case c of [x] \<Rightarrow> is_digit x | _ \<Rightarrow> False)"

definition is_ascii_alphabetic :: "string \<Rightarrow> bool" where
  "is_ascii_alphabetic c \<longleftrightarrow>
     (case c of [x] \<Rightarrow> (let n = of_char x :: nat in 65 \<le> n \<and> n \<le> 90 \<or> 97 \<le> n \<and> n \<le> 122) | _ \<Rightarrow> False)"

section \<open>The lexer\<close>

function skip_ws :: "string list \<Rightarrow> string list" where
  "skip_ws [] = []"
| "skip_ws (c # cs) =
     (if is_whitespace c then skip_ws cs
      else if c = ''-'' \<and> (cs \<noteq> [] \<and> hd cs = ''-'') then skip_ws (dropWhile (\<lambda>d. d \<noteq> [CHR 0x0A]) cs)
      else c # cs)"
  by pat_completeness auto
termination
  by (relation "measure length") (auto simp: le_imp_less_Suc length_dropWhile_le)

definition peek_digit :: "string list \<Rightarrow> bool" where
  "peek_digit cs \<longleftrightarrow> (case cs of d # _ \<Rightarrow> is_ascii_digit d | [] \<Rightarrow> False)"

fun read_string :: "string \<Rightarrow> string \<Rightarrow> string list \<Rightarrow> (token \<times> string list) result" where
  "read_string quote s [] = Inl (ParseError ''unterminated string'')"
| "read_string quote s (c # cs) =
     (if c = quote then
        (case cs of
           d # ds \<Rightarrow> if d = quote then read_string quote (s @ quote) ds else Inr (Str s, cs)
         | [] \<Rightarrow> Inr (Str s, []))
      else read_string quote (s @ c) cs)"

fun read_digits :: "bool \<Rightarrow> string list \<Rightarrow> string \<times> string list" where
  "read_digits is_float [] = ([], [])"
| "read_digits is_float (c # cs) =
     (if is_ascii_digit c then (case read_digits is_float cs of (s, r) \<Rightarrow> (c @ s, r))
      else if c = ''.'' \<and> \<not> is_float then (case read_digits True cs of (s, r) \<Rightarrow> (c @ s, r))
      else ([], c # cs))"

fun read_number :: "string list \<Rightarrow> token \<times> string list" where
  "read_number [] = (Number [], [])"
| "read_number (c # cs) =
     (if c = ''-'' then (case read_digits False cs of (s, r) \<Rightarrow> (Number (c @ s), r))
      else (case read_digits False (c # cs) of (s, r) \<Rightarrow> (Number s, r)))"

definition ident_char :: "string \<Rightarrow> bool" where
  "ident_char c \<longleftrightarrow> is_ascii_alphabetic c \<or> is_ascii_digit c \<or> c = ''_''"

definition read_ident :: "string list \<Rightarrow> string \<times> string list" where
  "read_ident cs = (concat (takeWhile ident_char cs), dropWhile ident_char cs)"

definition single_syms :: "string list" where
  "single_syms = ['','', ''('', '')'', ''*'', '';'', ''='', ''.'', '':'', ''@'']"

text \<open>One round of the loop, after the white space: the next character and those behind it.\<close>

definition next_token :: "string \<Rightarrow> string list \<Rightarrow> (token \<times> string list) result" where
  "next_token c cs =
     (if c = squote_char \<or> c = dquote_char then read_string c [] cs
      else if is_ascii_digit c then Inr (read_number (c # cs))
      else if is_ascii_alphabetic c \<or> c = ''_'' then
        (case read_ident (c # cs) of (s, r) \<Rightarrow> Inr (Ident s, r))
      else if c = ''-'' \<and> peek_digit cs then Inr (read_number (c # cs))
      else if c \<in> set single_syms then Inr (Sym c, cs)
      else if c = ''<'' then
        (if cs \<noteq> [] \<and> hd cs = ''='' then Inr (Sym sym_le, tl cs)
         else if cs \<noteq> [] \<and> hd cs = ''>'' then Inr (Sym sym_ne, tl cs)
         else Inr (Sym ''<'', cs))
      else if c = ''>'' then
        (if cs \<noteq> [] \<and> hd cs = ''='' then Inr (Sym sym_ge, tl cs) else Inr (Sym ''>'', cs))
      else if c = ''!'' then
        (if cs \<noteq> [] \<and> hd cs = ''='' then Inr (Sym sym_ne, tl cs)
         else Inl (ParseError (''expected '' @ CHR 0x27 # ''!='' @ [CHR 0x27])))
      else Inl (ParseError (''unexpected character '' @ CHR 0x27 # c @ [CHR 0x27])))"

lemma skip_ws_length: "length (skip_ws cs) \<le> length cs"
proof (induction cs rule: skip_ws.induct)
  case (2 c cs)
  then show ?case
    using length_dropWhile_le [of "\<lambda>d. d \<noteq> [CHR 0x0A]" cs] by (auto intro: le_trans)
qed simp

lemma read_string_length: "read_string q s cs = Inr (t, r) \<Longrightarrow> length r < length cs"
  by (induction q s cs rule: read_string.induct) (auto split: if_splits list.splits)

lemma read_digits_length: "length (snd (read_digits f cs)) \<le> length cs"
  by (induction f cs rule: read_digits.induct) (auto split: prod.splits)

lemma read_number_length:
  assumes "is_ascii_digit c \<or> c = ''-''"
  shows "length (snd (read_number (c # cs))) < Suc (length cs)"
  using assms read_digits_length [of False cs] by (auto split: prod.splits)

lemma read_ident_length: "ident_char c \<Longrightarrow> length (snd (read_ident (c # cs))) < Suc (length cs)"
  by (simp add: read_ident_def le_imp_less_Suc length_dropWhile_le)

lemma next_token_length: "next_token c cs = Inr (t, r) \<Longrightarrow> length r < Suc (length cs)"
  using read_string_length [of c "[]" cs t r] read_number_length [of c cs] read_ident_length [of c cs]
  by (auto simp: next_token_def ident_char_def split: if_splits prod.splits)

function tokenize_chars :: "string list \<Rightarrow> token list result" where
  "tokenize_chars cs =
     (case skip_ws cs of
        [] \<Rightarrow> Inr [Eof]
      | c # r \<Rightarrow>
          (case next_token c r of
             Inl e \<Rightarrow> Inl e
           | Inr (t, rest) \<Rightarrow> rbind (tokenize_chars rest) (\<lambda>ts. Inr (t # ts))))"
  by pat_completeness auto
termination
proof (relation "measure length")
  fix cs c r tr t rest
  assume "skip_ws cs = c # r" "next_token c r = Inr tr" "(t, rest) = tr"
  then show "(rest, cs) \<in> measure length"
    using skip_ws_length [of cs] next_token_length [of c r t rest] by simp
qed simp

definition tokenize :: "string \<Rightarrow> token list result" where
  "tokenize src = tokenize_chars (chars src)"

declare tokenize_chars.simps [simp del]

section \<open>Rendering tokens\<close>

text \<open>The text of a token, as characters: a string literal in single quotes with its quotes doubled.\<close>

definition escape_quotes :: "string list \<Rightarrow> string list" where
  "escape_quotes cs = concat (map (\<lambda>c. if c = squote_char then [c, c] else [c]) cs)"

fun token_chars :: "token \<Rightarrow> string list" where
  "token_chars (Ident s) = map (\<lambda>x. [x]) s"
| "token_chars (Number s) = map (\<lambda>x. [x]) s"
| "token_chars (Str s) = squote_char # escape_quotes (chars s) @ [squote_char]"
| "token_chars (Sym c) =
     (if c = sym_le then [''<'', ''='']
      else if c = sym_ne then [''<'', ''>'']
      else if c = sym_ge then [''>'', ''='']
      else [c])"
| "token_chars Eof = []"

definition render :: "token list \<Rightarrow> string" where
  "render ts = concat (concat (map (\<lambda>t. token_chars t @ ['' '']) ts))"

definition wf_ident :: "string \<Rightarrow> bool" where
  "wf_ident s \<longleftrightarrow> s \<noteq> [] \<and> \<not> is_digit (hd s) \<and> list_all (\<lambda>x. ident_char [x]) s"

definition wf_digits :: "string \<Rightarrow> bool" where
  "wf_digits s \<longleftrightarrow> s \<noteq> [] \<and> is_digit (hd s) \<and> list_all (\<lambda>x. is_digit x \<or> x = CHR ''.'') s \<and> count_list s (CHR ''.'') \<le> 1"

definition wf_number :: "string \<Rightarrow> bool" where
  "wf_number s \<longleftrightarrow> wf_digits s \<or> (\<exists>d. s = CHR ''-'' # d \<and> wf_digits d)"

fun wf_token :: "token \<Rightarrow> bool" where
  "wf_token (Ident s) = wf_ident s"
| "wf_token (Number s) = wf_number s"
| "wf_token (Str s) = valid_str s"
| "wf_token (Sym c) = (c \<in> set single_syms \<or> c \<in> {''<'', ''>'', sym_le, sym_ne, sym_ge})"
| "wf_token Eof = False"

lemma valid_ascii: "list_all (\<lambda>x. (of_char x :: nat) < 128) s \<Longrightarrow> valid_str s"
  by (induction s) (auto simp: in_range_char)

lemma wf_char_ascii: "(of_char x :: nat) < 128 \<Longrightarrow> wf_char [x]"
  by (simp add: wf_char_def char_len_def Let_def in_range_char)

lemma wf_char_marks [simp]: "wf_char ''-''" "wf_char '' ''" "wf_char ''<''" "wf_char ''>''" "wf_char ''=''" "list_all wf_char single_syms"
  by (simp_all add: wf_char_ascii single_syms_def)

lemma ident_char_ascii: "ident_char [x] \<Longrightarrow> (of_char x :: nat) < 128"
  by (auto simp: ident_char_def is_ascii_alphabetic_def is_ascii_digit_def is_digit_def Let_def)

lemma digit_ascii: "is_digit x \<or> x = CHR ''.'' \<Longrightarrow> (of_char x :: nat) < 128"
  by (auto simp: is_digit_def)

lemma wf_chars_ascii: "list_all (\<lambda>x. (of_char x :: nat) < 128) s \<Longrightarrow> list_all wf_char (map (\<lambda>x. [x]) s)"
  by (auto simp: list_all_iff wf_char_ascii)

lemma concat_singles [simp]: "concat (map (\<lambda>x. [x]) s) = s"
  by (induction s) auto

lemma wf_chars_digits: "wf_digits s \<Longrightarrow> list_all wf_char (map (\<lambda>x. [x]) s)"
  by (rule wf_chars_ascii) (auto simp: wf_digits_def list_all_iff dest!: bspec intro: digit_ascii)

lemma wf_chars_escape: "list_all wf_char cs \<Longrightarrow> list_all wf_char (escape_quotes cs)"
  by (induction cs) (auto simp: escape_quotes_def)

lemma wf_chars_sym: "wf_token (Sym c) \<Longrightarrow> list_all wf_char (token_chars (Sym c))"
  by (auto simp: list_all_iff [of wf_char single_syms, symmetric] dest: bspec [OF wf_char_marks(6) [unfolded list_all_iff]])

lemma wf_token_chars: "wf_token t \<Longrightarrow> list_all wf_char (token_chars t)"
proof (cases t)
  case (Ident s)
  assume "wf_token t"
  then show ?thesis
    using Ident by (auto simp: wf_ident_def list_all_iff dest!: bspec intro!: wf_char_ascii intro: ident_char_ascii)
next
  case (Number s)
  assume "wf_token t"
  then show ?thesis
    using Number wf_chars_digits by (auto simp: wf_number_def)
next
  case (Str s)
  assume "wf_token t"
  then show ?thesis
    using Str wf_chars_escape [OF chars_valid [of s]] by (auto simp: squote_char_def intro: wf_char_ascii)
next
  case (Sym c)
  assume "wf_token t"
  then show ?thesis using Sym wf_chars_sym by blast
qed simp

lemma chars_render:
  assumes "list_all wf_token ts"
  shows "chars (render ts) = concat (map (\<lambda>t. token_chars t @ ['' '']) ts)"
proof -
  have "list_all wf_char (concat (map (\<lambda>t. token_chars t @ ['' '']) ts))"
    using assms by (induction ts) (auto simp: wf_token_chars wf_char_ascii)
  then show ?thesis unfolding render_def by (rule chars_concat)
qed

section \<open>Reading a rendered token\<close>

lemma read_string_escaped:
  "read_string squote_char s (escape_quotes cs @ squote_char # '' '' # rest) = Inr (Str (s @ concat cs), '' '' # rest)"
  by (induction cs arbitrary: s) (auto simp: escape_quotes_def squote_char_def)

lemma read_digits_all:
  assumes "list_all (\<lambda>x. is_digit x \<or> x = CHR ''.'') s" "count_list s (CHR ''.'') + (if f then 1 else 0) \<le> 1"
  shows "read_digits f (map (\<lambda>x. [x]) s @ '' '' # rest) = (s, '' '' # rest)"
  using assms
proof (induction s arbitrary: f)
  case Nil
  then show ?case by (simp add: is_ascii_digit_def is_digit_def)
next
  case (Cons x s)
  then show ?case
    by (cases "x = CHR ''.''") (auto simp: is_ascii_digit_def is_digit_def split: if_splits)
qed

lemma read_number_digits:
  assumes "wf_digits s"
  shows "read_number (map (\<lambda>x. [x]) s @ '' '' # rest) = (Number s, '' '' # rest)"
    and "read_number (''-'' # map (\<lambda>x. [x]) s @ '' '' # rest) = (Number (CHR ''-'' # s), '' '' # rest)"
proof -
  have r: "read_digits False (map (\<lambda>x. [x]) s @ '' '' # rest) = (s, '' '' # rest)"
    using assms by (intro read_digits_all) (auto simp: wf_digits_def)
  then show "read_number (''-'' # map (\<lambda>x. [x]) s @ '' '' # rest) = (Number (CHR ''-'' # s), '' '' # rest)"
    by simp
  obtain x d where "s = x # d" "is_digit x" using assms by (cases s) (auto simp: wf_digits_def)
  with r show "read_number (map (\<lambda>x. [x]) s @ '' '' # rest) = (Number s, '' '' # rest)"
    by (auto simp: is_digit_def)
qed

lemma read_ident_all: "list_all (\<lambda>x. ident_char [x]) s \<Longrightarrow> read_ident (map (\<lambda>x. [x]) s @ '' '' # rest) = (s, '' '' # rest)"
proof -
  assume all: "list_all (\<lambda>x. ident_char [x]) s"
  have space: "\<not> ident_char '' ''"
    by (simp add: ident_char_def is_ascii_alphabetic_def is_ascii_digit_def is_digit_def)
  have "\<forall>c \<in> set (map (\<lambda>x. [x]) s). ident_char c" using all by (simp add: list_all_iff)
  then show ?thesis
    using space by (simp add: read_ident_def takeWhile_append dropWhile_append)
qed

lemma not_space: "ident_char [x] \<Longrightarrow> \<not> is_whitespace [x]"
  by (auto simp: ident_char_def is_ascii_alphabetic_def is_ascii_digit_def is_digit_def is_whitespace_def ws_len_def Let_def)

lemma digit_not_space: "is_digit x \<Longrightarrow> \<not> is_whitespace [x]"
  by (rule not_space) (simp add: ident_char_def is_ascii_digit_def)

lemma ascii_not_space: "32 < (of_char x :: nat) \<Longrightarrow> (of_char x :: nat) < 128 \<Longrightarrow> \<not> is_whitespace [x]"
  by (simp add: is_whitespace_def ws_len_def Let_def)

lemma mark_not_space:
  "\<not> is_whitespace squote_char" "\<not> is_whitespace ''-''" "\<not> is_whitespace ''<''" "\<not> is_whitespace ''>''"
  by (simp_all add: ascii_not_space squote_char_def)

lemma single_not_space: "c \<in> set single_syms \<Longrightarrow> \<not> is_whitespace c"
  unfolding single_syms_def list.set by (elim insertE; simp add: ascii_not_space)

text \<open>What holds of the text of a token: it starts with a character that is no white space and no comment, and the lexer
  reads it back when a space follows.\<close>

definition reads_back :: "token \<Rightarrow> bool" where
  "reads_back t \<longleftrightarrow>
     (\<exists>c cs. token_chars t = c # cs \<and> \<not> is_whitespace c \<and> (c = ''-'' \<longrightarrow> cs \<noteq> [] \<and> hd cs \<noteq> ''-'') \<and>
        (\<forall>rest. next_token c (cs @ '' '' # rest) = Inr (t, '' '' # rest)))"

lemma reads_back_ident: "wf_ident s \<Longrightarrow> reads_back (Ident s)"
proof -
  assume wf: "wf_ident s"
  then obtain x d where s: "s = x # d" "ident_char [x]" "\<not> is_digit x" by (cases s) (auto simp: wf_ident_def)
  then have c: "[x] \<noteq> squote_char" "[x] \<noteq> dquote_char" "\<not> is_ascii_digit [x]" "is_ascii_alphabetic [x] \<or> [x] = ''_''" "[x] \<noteq> ''-''"
    by (auto simp: ident_char_def is_ascii_alphabetic_def is_ascii_digit_def squote_char_def dquote_char_def)
  have "next_token [x] (map (\<lambda>x. [x]) d @ '' '' # rest) = Inr (Ident s, '' '' # rest)" for rest
    using wf c read_ident_all [of s rest] by (auto simp: next_token_def wf_ident_def s(1))
  then show ?thesis
    using s(1) not_space [OF s(2)] c(5) by (simp add: reads_back_def)
qed

lemma reads_back_digits: "wf_digits s \<Longrightarrow> reads_back (Number s)"
proof -
  assume wf: "wf_digits s"
  then obtain x d where s: "s = x # d" "is_digit x" by (cases s) (auto simp: wf_digits_def)
  then have c: "[x] \<noteq> squote_char" "[x] \<noteq> dquote_char" "is_ascii_digit [x]" "[x] \<noteq> ''-''"
    by (auto simp: is_ascii_digit_def squote_char_def dquote_char_def is_digit_def)
  have "next_token [x] (map (\<lambda>x. [x]) d @ '' '' # rest) = Inr (Number s, '' '' # rest)" for rest
    using c read_number_digits(1) [OF wf, of rest] by (simp add: next_token_def s(1) del: read_number.simps)
  then show ?thesis
    using s(1) digit_not_space [OF s(2)] c(4) by (simp add: reads_back_def)
qed

lemma reads_back_negative: "wf_digits s \<Longrightarrow> reads_back (Number (CHR ''-'' # s))"
proof -
  assume wf: "wf_digits s"
  then obtain x d where s: "s = x # d" "is_digit x" by (cases s) (auto simp: wf_digits_def)
  have c: "peek_digit (map (\<lambda>x. [x]) s @ '' '' # rest)" for rest
    using s by (simp add: peek_digit_def is_ascii_digit_def)
  have "next_token ''-'' (map (\<lambda>x. [x]) s @ '' '' # rest) = Inr (Number (CHR ''-'' # s), '' '' # rest)" for rest
    using c read_number_digits(2) [OF wf, of rest]
    by (simp add: next_token_def squote_char_def dquote_char_def is_ascii_digit_def is_digit_def is_ascii_alphabetic_def del: read_number.simps)
  moreover have "[x] \<noteq> ''-''" using s(2) by (auto simp: is_digit_def)
  ultimately show ?thesis
    using s(1) mark_not_space(2) by (simp add: reads_back_def)
qed

lemma reads_back_str: "reads_back (Str s)"
  using read_string_escaped [of "[]" "chars s"] mark_not_space(1)
  by (simp add: reads_back_def next_token_def) (simp add: squote_char_def)

lemma sym_distinct [simp]: "sym_le \<noteq> sym_ne" "sym_le \<noteq> sym_ge" "sym_ne \<noteq> sym_ge" "[c] \<noteq> sym_le" "[c] \<noteq> sym_ne" "[c] \<noteq> sym_ge"
  by (simp_all add: sym_le_def sym_ne_def sym_ge_def)

lemma single_sym:
  assumes "c \<in> set single_syms"
  shows "c \<noteq> squote_char \<and> c \<noteq> dquote_char \<and> \<not> is_ascii_digit c \<and> \<not> is_ascii_alphabetic c \<and> c \<noteq> ''_'' \<and> c \<noteq> ''-'' \<and>
    c \<noteq> sym_le \<and> c \<noteq> sym_ne \<and> c \<noteq> sym_ge"
  using assms unfolding single_syms_def list.set
  by (elim insertE; simp add: squote_char_def dquote_char_def is_ascii_digit_def is_digit_def is_ascii_alphabetic_def Let_def)

lemma compare_sym:
  "c = ''<'' \<or> c = ''>'' \<Longrightarrow>
     c \<noteq> squote_char \<and> c \<noteq> dquote_char \<and> \<not> is_ascii_digit c \<and> \<not> is_ascii_alphabetic c \<and> c \<noteq> ''_'' \<and> c \<noteq> ''-'' \<and> c \<notin> set single_syms"
  by (elim disjE; simp add: squote_char_def dquote_char_def is_ascii_digit_def is_digit_def is_ascii_alphabetic_def Let_def single_syms_def)

lemma reads_back_single: "c \<in> set single_syms \<Longrightarrow> reads_back (Sym c)"
  using single_sym [of c] single_not_space [of c] by (simp add: reads_back_def next_token_def)

lemma next_compare:
  "next_token ''<'' ('' '' # rest) = Inr (Sym ''<'', '' '' # rest)" "next_token ''>'' ('' '' # rest) = Inr (Sym ''>'', '' '' # rest)"
  "next_token ''<'' (''='' # rest) = Inr (Sym sym_le, rest)" "next_token ''<'' (''>'' # rest) = Inr (Sym sym_ne, rest)"
  "next_token ''>'' (''='' # rest) = Inr (Sym sym_ge, rest)"
  using compare_sym [of "''<''"] compare_sym [of "''>''"] by (simp_all add: next_token_def)

lemma reads_back_compare: "c \<in> {''<'', ''>'', sym_le, sym_ne, sym_ge} \<Longrightarrow> reads_back (Sym c)"
  by (elim insertE emptyE) (simp_all add: reads_back_def next_compare mark_not_space(3,4) sym_distinct(1-3) [symmetric])

lemma reads_back_sym: "wf_token (Sym c) \<Longrightarrow> reads_back (Sym c)"
  using reads_back_single reads_back_compare by auto

lemma reads_back: "wf_token t \<Longrightarrow> reads_back t"
  by (cases t) (auto simp: reads_back_ident reads_back_digits reads_back_negative reads_back_str reads_back_sym wf_number_def simp del: wf_token.simps(4) split: if_splits)

lemma space_is_whitespace: "is_whitespace '' ''"
  by (simp add: is_whitespace_def ws_len_def)

lemma skip_space [simp]: "skip_ws ('' '' # cs) = skip_ws cs"
  by (simp add: space_is_whitespace)

lemma tokenize_space: "tokenize_chars ('' '' # cs) = tokenize_chars cs"
  by (subst (1 2) tokenize_chars.simps) (simp add: space_is_whitespace)

lemma tokenize_rendered:
  "list_all wf_token ts \<Longrightarrow> tokenize_chars (concat (map (\<lambda>t. token_chars t @ ['' '']) ts)) = Inr (ts @ [Eof])"
proof (induction ts)
  case Nil
  then show ?case by (simp add: tokenize_chars.simps)
next
  case (Cons t ts)
  let ?rest = "concat (map (\<lambda>t. token_chars t @ ['' '']) ts)"
  obtain c cs where t: "token_chars t = c # cs" "\<not> is_whitespace c" "c = ''-'' \<longrightarrow> cs \<noteq> [] \<and> hd cs \<noteq> ''-''"
    "next_token c (cs @ '' '' # ?rest) = Inr (t, '' '' # ?rest)"
    using reads_back [of t] Cons.prems by (auto simp: reads_back_def)
  then have "skip_ws (c # cs @ '' '' # ?rest) = c # cs @ '' '' # ?rest" by auto
  then have "tokenize_chars (c # cs @ '' '' # ?rest) = rbind (tokenize_chars ('' '' # ?rest)) (\<lambda>ts. Inr (t # ts))"
    using t(4) by (subst tokenize_chars.simps) simp
  then show ?case using Cons t(1) by (simp add: tokenize_space)
qed

text \<open>The lexer reads back what is written: the text of any sequence of identifiers, numbers, symbols and string
  literals, separated by spaces, gives exactly these tokens and the end mark. A string literal may hold any text; with
  its quotes doubled it never ends early and never swallows what follows.\<close>
theorem tokenize_render: "list_all wf_token ts \<Longrightarrow> tokenize (render ts) = Inr (ts @ [Eof])"
  by (simp add: tokenize_def chars_render tokenize_rendered)

theorem tokenize_render_witness:
  "tokenize (render [Ident ''name'', Sym ''='', Str (''x'' @ [CHR 0x27] @ '' OR 1=1 --''), Sym sym_ne, Number ''-1.5'']) =
     Inr [Ident ''name'', Sym ''='', Str (''x'' @ [CHR 0x27] @ '' OR 1=1 --''), Sym sym_ne, Number ''-1.5'', Eof]"
proof -
  let ?s = "''x'' @ [CHR 0x27] @ '' OR 1=1 --''"
  have "wf_token (Ident ''name'')"
    by (simp add: wf_ident_def ident_char_def is_ascii_alphabetic_def is_digit_def)
  moreover have "wf_token (Number ''-1.5'')"
    by (simp add: wf_number_def wf_digits_def is_digit_def)
  moreover have "wf_token (Str ?s)"
    unfolding wf_token.simps by (rule valid_ascii) simp
  moreover have "wf_token (Sym ''='')" "wf_token (Sym sym_ne)"
    by (simp_all add: single_syms_def)
  ultimately have "list_all wf_token [Ident ''name'', Sym ''='', Str ?s, Sym sym_ne, Number ''-1.5'']"
    by (simp del: wf_token.simps)
  from tokenize_render [OF this] show ?thesis by simp
qed

end
