(* ===== verification/Sql_Parser.thy ===== *)
theory Sql_Parser
  imports Sql_Lexer
begin

text \<open>
  The SQL parser (\<open>crates/engine/src/sql/parser.rs\<close>), function by function.

  \<^item> The tokens from the current position on are the state. \<open>peek\<close> gives \<open>Eof\<close> behind the last token and \<open>next\<close> stays
    there, as in the source.
  \<^item> A parser gives \<open>None\<close> when it does not return, else an error or a value with the tokens that are left: every
    error of the source leaves the whole parse through \<open>?\<close>, so no tokens go with it.
  \<^item> \<open>loop\<close> is a \<open>loop\<close> or \<open>while\<close> of the source whose body says how it goes on; it gives up after one round more than
    there are tokens. The mutual recursion of statements and expressions counts its depth down from a bound. That
    neither is ever reached is a theorem (theory \<open>Sql_Parser_Total\<close>).
  \<^item> \<open>std\<close> holds what the parser takes from the standard library without its effect mattering here: the \<open>Debug\<close> text of
    tokens, values and expressions (in messages), the text of a double, and the reading of one.
\<close>

section \<open>Parsers\<close>

record std_text =
  dbg_token :: "token \<Rightarrow> string"
  dbg_datum :: "datum \<Rightarrow> string"
  dbg_expr :: "expr \<Rightarrow> string"
  f64_text :: "f64 \<Rightarrow> string"
  f64_parse :: "string \<Rightarrow> f64 option"

type_synonym 'a parser = "token list \<Rightarrow> ('a \<times> token list) result option"

definition pret :: "'a \<Rightarrow> 'a parser" where "pret x = (\<lambda>ts. Some (Inr (x, ts)))"

definition perr :: "error \<Rightarrow> 'a parser" where "perr e = (\<lambda>ts. Some (Inl e))"

definition pbind :: "'a parser \<Rightarrow> ('a \<Rightarrow> 'b parser) \<Rightarrow> 'b parser" where
  "pbind p f = (\<lambda>ts. case p ts of None \<Rightarrow> None | Some (Inl e) \<Rightarrow> Some (Inl e) | Some (Inr (x, r)) \<Rightarrow> f x r)"

definition pthen :: "'a parser \<Rightarrow> 'b parser \<Rightarrow> 'b parser" where "pthen p q = pbind p (\<lambda>_. q)"

definition lift_result :: "'a result \<Rightarrow> 'a parser" where
  "lift_result r = (case r of Inl e \<Rightarrow> perr e | Inr x \<Rightarrow> pret x)"

definition peek :: "token list \<Rightarrow> token" where "peek ts = (case ts of t # _ \<Rightarrow> t | [] \<Rightarrow> Eof)"

definition pnext :: "token parser" where "pnext = (\<lambda>ts. Some (Inr (peek ts, tl ts)))"

definition advance :: "unit parser" where "advance = (\<lambda>ts. Some (Inr ((), tl ts)))"

definition kw :: "token \<Rightarrow> string option" where
  "kw t = (case t of Ident s \<Rightarrow> Some (map ascii_upper s) | _ \<Rightarrow> None)"

definition at_sym :: "string \<Rightarrow> token list \<Rightarrow> bool" where "at_sym c ts \<longleftrightarrow> peek ts = Sym c"

definition at_kw :: "string \<Rightarrow> token list \<Rightarrow> bool" where "at_kw k ts \<longleftrightarrow> kw (peek ts) = Some k"

definition peek_kw_at :: "nat \<Rightarrow> token list \<Rightarrow> string option" where
  "peek_kw_at off ts = kw (if off < length ts then ts ! off else Eof)"

definition at_subquery :: "token list \<Rightarrow> bool" where
  "at_subquery ts \<longleftrightarrow> at_sym ''('' ts \<and> peek_kw_at 1 ts = Some ''SELECT''"

definition pif :: "(token list \<Rightarrow> bool) \<Rightarrow> 'a parser \<Rightarrow> 'a parser \<Rightarrow> 'a parser" where
  "pif b p q = (\<lambda>ts. if b ts then p ts else q ts)"

text \<open>\<open>if self.eat_sym(c) { p } else { q }\<close>, and the same for a keyword.\<close>

definition eat_sym :: "string \<Rightarrow> 'a parser \<Rightarrow> 'a parser \<Rightarrow> 'a parser" where
  "eat_sym c p q = (\<lambda>ts. if at_sym c ts then p (tl ts) else q ts)"

definition eat_kw :: "string \<Rightarrow> 'a parser \<Rightarrow> 'a parser \<Rightarrow> 'a parser" where
  "eat_kw k p q = (\<lambda>ts. if at_kw k ts then p (tl ts) else q ts)"

definition has_sym :: "string \<Rightarrow> bool parser" where "has_sym c = eat_sym c (pret True) (pret False)"

definition has_kw :: "string \<Rightarrow> bool parser" where "has_kw k = eat_kw k (pret True) (pret False)"

definition fail_at :: "std_text \<Rightarrow> string \<Rightarrow> 'a parser" where
  "fail_at std msg = (\<lambda>ts. Some (Inl (ParseError (msg @ dbg_token std (peek ts)))))"

definition expect_sym :: "std_text \<Rightarrow> string \<Rightarrow> unit parser" where
  "expect_sym std c = eat_sym c (pret ()) (fail_at std (''expected '' @ squote c @ '', got ''))"

definition expect_kw :: "std_text \<Rightarrow> string \<Rightarrow> unit parser" where
  "expect_kw std k = eat_kw k (pret ()) (fail_at std (''expected '' @ k @ '', got ''))"

definition expect_ident :: "std_text \<Rightarrow> string parser" where
  "expect_ident std = pbind pnext (\<lambda>t. case t of
     Ident s \<Rightarrow> pret s
   | _ \<Rightarrow> perr (ParseError (''expected identifier, got '' @ dbg_token std t)))"

fun ploop :: "nat \<Rightarrow> ('s \<Rightarrow> ('s + 'a) parser) \<Rightarrow> 's \<Rightarrow> 'a parser" where
  "ploop 0 body s = (\<lambda>ts. None)"
| "ploop (Suc k) body s = pbind (body s) (\<lambda>r. case r of Inl s' \<Rightarrow> ploop k body s' | Inr x \<Rightarrow> pret x)"

definition loop :: "('s \<Rightarrow> ('s + 'a) parser) \<Rightarrow> 's \<Rightarrow> 'a parser" where
  "loop body s = (\<lambda>ts. ploop (Suc (length ts)) body s ts)"

abbreviation continue_with :: "'s \<Rightarrow> ('s + 'a) parser" where "continue_with s \<equiv> pret (Inl s)"
abbreviation break_with :: "'a \<Rightarrow> ('s + 'a) parser" where "break_with x \<equiv> pret (Inr x)"

text \<open>\<open>item (, item)*\<close>: the loops that push an item and go on after a comma.\<close>

definition comma_list :: "'a parser \<Rightarrow> 'a list parser" where
  "comma_list item = loop (\<lambda>xs. pbind item (\<lambda>x. eat_sym '','' (continue_with (xs @ [x])) (break_with (xs @ [x])))) []"

definition pif_some :: "string \<Rightarrow> 'a parser \<Rightarrow> 'a option parser" where
  "pif_some k p = eat_kw k (pbind p (\<lambda>x. pret (Some x))) (pret None)"

section \<open>Literals and operands\<close>

definition parse_i64 :: "string \<Rightarrow> i64 option" where
  "parse_i64 s =
     (if s \<noteq> [] \<and> hd s = CHR ''-'' then
        (case parse_digits (tl s) of
           Some n \<Rightarrow> if n \<le> 2 ^ 63 then Some (- of_nat n) else None | None \<Rightarrow> None)
      else
        (case parse_digits (if s \<noteq> [] \<and> hd s = CHR ''+'' then tl s else s) of
           Some n \<Rightarrow> if n < 2 ^ 63 then Some (of_nat n) else None | None \<Rightarrow> None))"

definition parse_usize :: "string \<Rightarrow> nat option" where
  "parse_usize s =
     (case parse_digits (if s \<noteq> [] \<and> hd s = CHR ''+'' then tl s else s) of
        Some n \<Rightarrow> if n < 2 ^ 64 then Some n else None
      | None \<Rightarrow> None)"

definition trim :: "string \<Rightarrow> string" where
  "trim s = concat (rev (dropWhile is_whitespace (rev (dropWhile is_whitespace (chars s)))))"

definition text_casts :: "string list" where
  "text_casts = [''TEXT'', ''VARCHAR'', ''CHAR'', ''BPCHAR'', ''NAME'', ''REGCLASS'']"

definition int_casts :: "string list" where
  "int_casts = [''OID'', ''INT2'', ''INT4'', ''INT8'']"

definition is_known_cast :: "string \<Rightarrow> bool" where
  "is_known_cast target \<longleftrightarrow>
     map ascii_upper target \<in> set text_casts \<union> set int_casts \<union> {''BOOL'', ''BOOLEAN'', ''FLOAT4'', ''FLOAT8''}"

definition cast_error :: "string \<Rightarrow> string \<Rightarrow> 'a result" where
  "cast_error what target = Inl (ParseError (''cannot cast '' @ what @ '' to '' @ squote (''::'' @ target)))"

definition coerce_literal :: "std_text \<Rightarrow> datum \<Rightarrow> string \<Rightarrow> string \<Rightarrow> datum result" where
  "coerce_literal std d t target =
     (if d = DNull then Inr DNull
      else if t \<in> set text_casts then Inr (DText (datum_display (f64_text std) d))
      else if t \<in> set int_casts then
        (case d of
           DInt i \<Rightarrow> Inr (DInt i)
         | DFloat f \<Rightarrow> Inr (DInt (f64_as_i64 f))
         | DBool b \<Rightarrow> Inr (DInt (bool_int b))
         | DText s \<Rightarrow> (case parse_i64 (trim s) of Some i \<Rightarrow> Inr (DInt i) | None \<Rightarrow> cast_error (squote s) target)
         | DNull \<Rightarrow> Inr DNull
         | DDateTime _ \<Rightarrow> cast_error (dbg_datum std d) target)
      else if t = ''BOOL'' \<or> t = ''BOOLEAN'' then
        (case d of
           DBool b \<Rightarrow> Inr (DBool b)
         | DInt i \<Rightarrow> Inr (DBool (i \<noteq> 0))
         | DText s \<Rightarrow>
             (let l = map ascii_lower (trim s) in
              if l \<in> {''true'', ''t'', ''1''} then Inr (DBool True)
              else if l \<in> {''false'', ''f'', ''0''} then Inr (DBool False)
              else cast_error (squote s) target)
         | DNull \<Rightarrow> Inr DNull
         | _ \<Rightarrow> cast_error (dbg_datum std d) target)
      else
        (case d of
           DFloat f \<Rightarrow> Inr (DFloat f)
         | DInt i \<Rightarrow> Inr (DFloat (f64_of_i64 i))
         | DText s \<Rightarrow> (case f64_parse std (trim s) of Some v \<Rightarrow> Inr (DFloat v) | None \<Rightarrow> cast_error (squote s) target)
         | DNull \<Rightarrow> Inr DNull
         | _ \<Rightarrow> cast_error (dbg_datum std d) target))"

definition apply_cast :: "std_text \<Rightarrow> expr \<Rightarrow> string \<Rightarrow> expr result" where
  "apply_cast std base target =
     (let t = map ascii_upper target in
      if \<not> is_known_cast t then Inl (ParseError (''unknown cast '' @ squote (''::'' @ target)))
      else case base of
        EColumn c \<Rightarrow> Inr base
      | ELiteral d \<Rightarrow> rbind (coerce_literal std d t target) (\<lambda>v. Inr (ELiteral v))
      | _ \<Rightarrow> Inl (ParseError (''cannot cast '' @ dbg_expr std base @ '' with '' @ squote (''::'' @ target))))"

definition number_literal :: "std_text \<Rightarrow> string \<Rightarrow> expr result" where
  "number_literal std n =
     (if CHR ''.'' \<in> set n then
        (case f64_parse std n of
           Some v \<Rightarrow> Inr (ELiteral (DFloat v)) | None \<Rightarrow> Inl (ParseError (''bad number '' @ squote n)))
      else
        (case parse_i64 n of
           Some v \<Rightarrow> Inr (ELiteral (DInt v)) | None \<Rightarrow> Inl (ParseError (''bad integer '' @ squote n))))"

definition base_operand :: "std_text \<Rightarrow> token \<Rightarrow> expr parser" where
  "base_operand std t =
     (case t of
        Str s \<Rightarrow> pret (ELiteral (DText s))
      | Number n \<Rightarrow> lift_result (number_literal std n)
      | Sym c \<Rightarrow>
          (if c = ''-'' then pbind pnext (\<lambda>u. case u of
             Number n \<Rightarrow> lift_result (number_literal std n)
           | _ \<Rightarrow> perr (ParseError (''expected number after '' @ squote ''-'' @ '', got '' @ dbg_token std u)))
           else perr (ParseError (''expected operand, got '' @ dbg_token std t)))
      | Ident s \<Rightarrow>
          (let up = map ascii_upper s in
           if up = ''TRUE'' then pret (ELiteral (DBool True))
           else if up = ''FALSE'' then pret (ELiteral (DBool False))
           else if up = ''NULL'' then pret (ELiteral DNull)
           else eat_sym ''.'' (pbind (expect_ident std) (\<lambda>col. pret (EColumn (s @ ''.'' @ col)))) (pret (EColumn s)))
      | Eof \<Rightarrow> perr (ParseError (''expected operand, got '' @ dbg_token std t)))"

definition cast_loop :: "std_text \<Rightarrow> expr \<Rightarrow> expr parser" where
  "cast_loop std = loop (\<lambda>e. eat_sym '':''
     (pthen (expect_sym std '':'') (pbind (expect_ident std) (\<lambda>target.
        pbind (lift_result (apply_cast std e target)) (\<lambda>e'. continue_with e'))))
     (break_with e))"

text \<open>\<open>sel\<close> parses a SELECT statement from its keyword on, \<open>pex\<close> an expression.\<close>

definition paren_query :: "std_text \<Rightarrow> select_stmt parser \<Rightarrow> select_stmt parser" where
  "paren_query std sel = pthen advance (pbind sel (\<lambda>q. pthen (expect_sym std '')'') (pret q)))"

definition parse_operand :: "std_text \<Rightarrow> select_stmt parser \<Rightarrow> expr parser" where
  "parse_operand std sel =
     pif at_subquery (pbind (paren_query std sel) (\<lambda>q. pret (EScalarSubquery q)))
       (pbind pnext (\<lambda>t. pbind (base_operand std t) (cast_loop std)))"

definition parse_literal_operand :: "std_text \<Rightarrow> select_stmt parser \<Rightarrow> datum parser" where
  "parse_literal_operand std sel = pbind (parse_operand std sel) (\<lambda>e. case e of
     ELiteral d \<Rightarrow> pret d
   | _ \<Rightarrow> perr (ParseError (''expected a literal, got '' @ dbg_expr std e)))"

definition parse_col_ref :: "std_text \<Rightarrow> string parser" where
  "parse_col_ref std = pbind (expect_ident std) (\<lambda>f.
     eat_sym ''.'' (pbind (expect_ident std) (\<lambda>s. pret (f @ ''.'' @ s))) (pret f))"

fun cmp_of_sym :: "token \<Rightarrow> cmp_op option" where
  "cmp_of_sym (Sym c) =
     (if c = ''='' then Some Eq else if c = sym_ne then Some Ne else if c = ''<'' then Some Lt
      else if c = sym_le then Some Le else if c = ''>'' then Some Gt else if c = sym_ge then Some Ge else None)"
| "cmp_of_sym _ = None"

text \<open>\<open>if let Some(op) = self.parse_cmp_op() { p op } else { q }\<close>.\<close>

definition parse_cmp_op :: "(cmp_op \<Rightarrow> 'a parser) \<Rightarrow> 'a parser \<Rightarrow> 'a parser" where
  "parse_cmp_op p q = (\<lambda>ts. case cmp_of_sym (peek ts) of Some c \<Rightarrow> p c (tl ts) | None \<Rightarrow> q ts)"

section \<open>Expressions\<close>

definition parse_between_bounds :: "std_text \<Rightarrow> select_stmt parser \<Rightarrow> (datum \<times> datum) parser" where
  "parse_between_bounds std sel = pbind (parse_literal_operand std sel) (\<lambda>lo.
     pthen (expect_kw std ''AND'') (pbind (parse_literal_operand std sel) (\<lambda>hi. pret (lo, hi))))"

definition parse_in_list :: "std_text \<Rightarrow> select_stmt parser \<Rightarrow> datum list parser" where
  "parse_in_list std sel = pthen (expect_sym std ''('') (pbind (parse_literal_operand std sel) (\<lambda>v.
     pbind (loop (\<lambda>vs. eat_sym '',''
              (pbind (parse_literal_operand std sel) (\<lambda>x. continue_with (vs @ [x]))) (break_with vs)) [v]) (\<lambda>vs.
       pthen (expect_sym std '')'') (pret vs))))"

definition parse_like_pattern :: "std_text \<Rightarrow> string parser" where
  "parse_like_pattern std = pbind pnext (\<lambda>t. case t of
     Str s \<Rightarrow> pret s
   | _ \<Rightarrow> perr (ParseError (''LIKE needs a string pattern, got '' @ dbg_token std t)))"

definition parse_in_tail :: "std_text \<Rightarrow> select_stmt parser \<Rightarrow> expr \<Rightarrow> bool \<Rightarrow> expr parser" where
  "parse_in_tail std sel f negated =
     pif at_subquery (pbind (paren_query std sel) (\<lambda>q. pret (EInSubquery f q negated)))
       (pbind (parse_in_list std sel) (\<lambda>vs. pret (EIn f vs negated)))"

definition compare_operands :: "expr \<Rightarrow> cmp_op \<Rightarrow> expr \<Rightarrow> expr result" where
  "compare_operands first c second =
     (case (first, second) of
        (EColumn _, ELiteral _) \<Rightarrow> Inr (ECmp first c second)
      | (ELiteral _, EColumn _) \<Rightarrow> Inr (ECmp second (cmp_flipped c) first)
      | (EColumn _, EScalarSubquery _) \<Rightarrow> Inr (ECmp first c second)
      | (EScalarSubquery _, EColumn _) \<Rightarrow> Inr (ECmp first c second)
      | (EScalarSubquery _, ELiteral _) \<Rightarrow> Inr (ECmp first c second)
      | (EScalarSubquery _, EScalarSubquery _) \<Rightarrow> Inr (ECmp first c second)
      | (ELiteral _, EScalarSubquery _) \<Rightarrow> Inr (ECmp second (cmp_flipped c) first)
      | (EColumn _, EColumn _) \<Rightarrow> Inr (ECmp first c second)
      | _ \<Rightarrow> Inl (NotSupported ''WHERE comparisons must be column vs literal''))"

definition parse_cmp_tail :: "std_text \<Rightarrow> select_stmt parser \<Rightarrow> expr parser" where
  "parse_cmp_tail std sel = pbind (parse_operand std sel) (\<lambda>first.
     parse_cmp_op (\<lambda>c. pbind (parse_operand std sel) (\<lambda>second. lift_result (compare_operands first c second)))
      (eat_kw ''BETWEEN'' (pbind (parse_between_bounds std sel) (\<lambda>(lo, hi). pret (EBetween first lo hi False)))
      (eat_kw ''NOT''
         (eat_kw ''IN'' (parse_in_tail std sel first True)
         (eat_kw ''LIKE'' (pbind (parse_like_pattern std) (\<lambda>p. pret (ELike first p True)))
         (eat_kw ''BETWEEN'' (pbind (parse_between_bounds std sel) (\<lambda>(lo, hi). pret (EBetween first lo hi True)))
            (fail_at std ''expected IN, LIKE or BETWEEN after NOT, got ''))))
      (eat_kw ''IN'' (parse_in_tail std sel first False)
      (eat_kw ''LIKE'' (pbind (parse_like_pattern std) (\<lambda>p. pret (ELike first p False)))
         (pret first))))))"

definition parse_exists_body :: "std_text \<Rightarrow> select_stmt parser \<Rightarrow> select_stmt parser" where
  "parse_exists_body std sel = pthen (expect_sym std ''('')
     (pif (at_kw ''SELECT'') (pbind sel (\<lambda>q. pthen (expect_sym std '')'') (pret q)))
        (fail_at std ''expected SELECT after EXISTS (, got ''))"

definition compare_scalar :: "std_text \<Rightarrow> select_stmt \<Rightarrow> cmp_op \<Rightarrow> expr \<Rightarrow> expr result" where
  "compare_scalar std q c second =
     (case second of
        EColumn _ \<Rightarrow> Inr (ECmp (EScalarSubquery q) c second)
      | ELiteral _ \<Rightarrow> Inr (ECmp (EScalarSubquery q) c second)
      | EScalarSubquery _ \<Rightarrow> Inr (ECmp (EScalarSubquery q) c second)
      | _ \<Rightarrow> Inl (NotSupported (''cannot compare a subquery with '' @ dbg_expr std second)))"

definition parse_predicate :: "std_text \<Rightarrow> select_stmt parser \<Rightarrow> expr parser \<Rightarrow> expr parser" where
  "parse_predicate std sel pex =
     eat_kw ''EXISTS'' (pbind (parse_exists_body std sel) (\<lambda>q. pret (EExists q False)))
      (pif at_subquery
         (pbind (paren_query std sel) (\<lambda>q.
            parse_cmp_op (\<lambda>c. pbind (parse_operand std sel) (\<lambda>second. lift_result (compare_scalar std q c second)))
              (pret (EScalarSubquery q))))
      (eat_sym ''('' (pbind pex (\<lambda>e. pthen (expect_sym std '')'') (pret e)))
         (parse_cmp_tail std sel)))"

fun parse_not :: "std_text \<Rightarrow> select_stmt parser \<Rightarrow> expr parser \<Rightarrow> expr parser" where
  "parse_not std sel pex [] = parse_predicate std sel pex []"
| "parse_not std sel pex (t # ts) =
     (if kw t = Some ''NOT'' then
        (if at_kw ''EXISTS'' ts then pbind (parse_exists_body std sel) (\<lambda>q. pret (EExists q True)) (tl ts)
         else (case parse_not std sel pex ts of
                 None \<Rightarrow> None
               | Some (Inl e) \<Rightarrow> Some (Inl e)
               | Some (Inr (x, r)) \<Rightarrow> Some (Inr (ENot x, r))))
      else parse_predicate std sel pex (t # ts))"

definition parse_and :: "std_text \<Rightarrow> select_stmt parser \<Rightarrow> expr parser \<Rightarrow> expr parser" where
  "parse_and std sel pex = pbind (parse_not std sel pex) (loop (\<lambda>left.
     eat_kw ''AND'' (pbind (parse_not std sel pex) (\<lambda>right. continue_with (EAnd left right))) (break_with left)))"

definition parse_or :: "std_text \<Rightarrow> select_stmt parser \<Rightarrow> expr parser \<Rightarrow> expr parser" where
  "parse_or std sel pex = pbind (parse_and std sel pex) (loop (\<lambda>left.
     eat_kw ''OR'' (pbind (parse_and std sel pex) (\<lambda>right. continue_with (EOr left right))) (break_with left)))"

section \<open>SELECT\<close>

definition compare_join :: "expr \<Rightarrow> cmp_op \<Rightarrow> expr \<Rightarrow> expr result" where
  "compare_join first c second =
     (case (first, second) of
        (EColumn _, ELiteral _) \<Rightarrow> Inr (ECmp first c second)
      | (ELiteral _, EColumn _) \<Rightarrow> Inr (ECmp second (cmp_flipped c) first)
      | (EColumn _, EColumn _) \<Rightarrow> Inr (ECmp first c second)
      | _ \<Rightarrow> Inl (NotSupported ''JOIN conditions must compare columns and/or literals''))"

definition parse_join_cmp :: "std_text \<Rightarrow> select_stmt parser \<Rightarrow> expr parser" where
  "parse_join_cmp std sel = pbind (parse_operand std sel) (\<lambda>first.
     parse_cmp_op (\<lambda>c. pbind (parse_operand std sel) (\<lambda>second. lift_result (compare_join first c second)))
       (pret first))"

definition parse_join_cond :: "std_text \<Rightarrow> select_stmt parser \<Rightarrow> expr parser" where
  "parse_join_cond std sel = pbind (parse_join_cmp std sel) (loop (\<lambda>left.
     eat_kw ''AND'' (pbind (parse_join_cmp std sel) (\<lambda>right. continue_with (EAnd left right))) (break_with left)))"

definition parse_derived :: "std_text \<Rightarrow> select_stmt parser \<Rightarrow> table_ref parser" where
  "parse_derived std sel = pthen (expect_sym std ''('')
     (pif (at_kw ''SELECT'')
        (pbind sel (\<lambda>q. pthen (expect_sym std '')'') (pthen (has_kw ''AS'') (pbind (expect_ident std) (\<lambda>al. pret (Derived q al))))))
        (fail_at std (''expected SELECT after '' @ squote ''('' @ '' in FROM, got '')))"

definition parse_table_ref :: "std_text \<Rightarrow> select_stmt parser \<Rightarrow> table_ref parser" where
  "parse_table_ref std sel = pif (at_sym ''('') (parse_derived std sel)
     (pbind (expect_ident std) (\<lambda>f.
        eat_sym ''.''
          (pbind (expect_ident std) (\<lambda>s.
             eat_sym ''.'' (perr (ParseError ''three-part table names are not supported'')) (pret (RTable (f @ ''.'' @ s)))))
          (pret (RTable f))))"

fun parse_agg_func :: "string option \<Rightarrow> agg_func option" where
  "parse_agg_func (Some k) =
     (if k = ''SUM'' then Some Sum else if k = ''AVG'' then Some Avg else if k = ''MIN'' then Some Min
      else if k = ''MAX'' then Some Max else None)"
| "parse_agg_func None = None"

definition literal_of :: "std_text \<Rightarrow> string \<Rightarrow> expr \<Rightarrow> datum result" where
  "literal_of std what e =
     (case e of ELiteral d \<Rightarrow> Inr d | _ \<Rightarrow> Inl (ParseError (''expected literal '' @ what @ '', got '' @ dbg_expr std e)))"

definition literal_item :: "std_text \<Rightarrow> select_stmt parser \<Rightarrow> select_item parser" where
  "literal_item std sel =
     pbind (parse_operand std sel) (\<lambda>e. pbind (lift_result (literal_of std ''in projection'' e)) (\<lambda>left.
       eat_sym ''=''
         (pbind (parse_operand std sel) (\<lambda>f. pbind (lift_result (literal_of std (''after '' @ squote ''='') f)) (\<lambda>right.
            case coerce_pair left right of (l, r) \<Rightarrow> pret (ILiteral (DInt (if datum_eq l r then 1 else 0))))))
         (eat_sym sym_ne
            (pbind (parse_operand std sel) (\<lambda>f. pbind (lift_result (literal_of std (''after '' @ squote ''!='') f)) (\<lambda>right.
               case coerce_pair left right of (l, r) \<Rightarrow> pret (ILiteral (DInt (if \<not> datum_eq l r then 1 else 0))))))
            (pret (ILiteral left)))))"

definition ignored_casts :: "std_text \<Rightarrow> unit parser" where
  "ignored_casts std = loop (\<lambda>u. eat_sym '':''
     (pthen (expect_sym std '':'') (pbind (expect_ident std) (\<lambda>target.
        if is_known_cast target then continue_with () else perr (ParseError (''unknown cast '' @ squote (''::'' @ target))))))
     (break_with ())) ()"

definition at_call :: "token list \<Rightarrow> bool" where
  "at_call ts \<longleftrightarrow> (case ts of Ident _ # u # _ \<Rightarrow> u = Sym ''('' | _ \<Rightarrow> False)"

definition at_literal :: "token list \<Rightarrow> bool" where
  "at_literal ts \<longleftrightarrow>
     (case ts of
        Number _ # _ \<Rightarrow> True
      | Str _ # _ \<Rightarrow> True
      | Sym c # Number _ # _ \<Rightarrow> c = ''-''
      | _ \<Rightarrow> False)"

definition parse_item :: "std_text \<Rightarrow> select_stmt parser \<Rightarrow> select_item parser" where
  "parse_item std sel =
     pif (at_sym ''*'') (pthen advance (pret Star))
    (pif at_subquery
       (pbind (paren_query std sel) (\<lambda>q. pbind (pif_some ''AS'' (expect_ident std)) (\<lambda>al. pret (ISubquery q al))))
    (pif (at_kw ''COUNT'')
       (pthen advance (pthen (expect_sym std ''('') (pthen (expect_sym std ''*'') (pthen (expect_sym std '')'') (pret CountStar)))))
    (\<lambda>ts. case parse_agg_func (kw (peek ts)) of
       Some f \<Rightarrow>
         pthen advance (pthen (expect_sym std ''('') (pbind (parse_col_ref std) (\<lambda>c.
           pthen (expect_sym std '')'') (pret (Aggregate f c))))) ts
     | None \<Rightarrow>
         pif at_call
           (pbind (expect_ident std) (\<lambda>name. pthen (expect_sym std ''('') (pthen (expect_sym std '')'')
              (pbind (pif_some ''AS'' (expect_ident std)) (\<lambda>al. pthen (ignored_casts std) (pret (SysFunc name al)))))))
        (pif at_literal (literal_item std sel)
           (pbind (parse_col_ref std) (\<lambda>c. pret (IColumn c)))) ts)))"

definition parse_join_kind :: "std_text \<Rightarrow> join_kind option parser" where
  "parse_join_kind std =
     eat_kw ''INNER'' (pthen (has_kw ''JOIN'') (pret (Some Inner)))
    (eat_kw ''LEFT'' (pthen (has_kw ''OUTER'') (pthen (expect_kw std ''JOIN'') (pret (Some Left))))
    (eat_kw ''JOIN'' (pret (Some Inner)) (pret None)))"

definition parse_joins :: "std_text \<Rightarrow> select_stmt parser \<Rightarrow> join_clause list parser" where
  "parse_joins std sel = loop (\<lambda>js. pbind (parse_join_kind std) (\<lambda>kind. case kind of
     None \<Rightarrow> break_with js
   | Some k \<Rightarrow>
       pbind (parse_table_ref std sel) (\<lambda>r. pthen (expect_kw std ''ON'') (pbind (parse_join_cond std sel) (\<lambda>cond.
         continue_with (js @ [JoinClause k r cond])))))) []"

definition parse_group_by :: "std_text \<Rightarrow> string list parser" where
  "parse_group_by std = eat_kw ''GROUP'' (pthen (expect_kw std ''BY'') (comma_list (parse_col_ref std))) (pret [])"

definition parse_order_by :: "std_text \<Rightarrow> (string \<times> bool) list parser" where
  "parse_order_by std = eat_kw ''ORDER''
     (pthen (expect_kw std ''BY'') (comma_list (pbind (parse_col_ref std) (\<lambda>c.
        eat_kw ''DESC'' (pret (c, True)) (pthen (has_kw ''ASC'') (pret (c, False)))))))
     (pret [])"

definition parse_limit :: "std_text \<Rightarrow> nat option parser" where
  "parse_limit std = pif_some ''LIMIT'' (pbind pnext (\<lambda>t. case t of
     Number n \<Rightarrow> (case parse_usize n of Some v \<Rightarrow> pret v | None \<Rightarrow> perr (ParseError (''invalid LIMIT value '' @ squote n)))
   | _ \<Rightarrow> perr (ParseError (''expected LIMIT number, got '' @ dbg_token std t))))"

definition parse_where :: "expr parser \<Rightarrow> expr option parser" where
  "parse_where pex = pif_some ''WHERE'' pex"

definition parse_select_body :: "std_text \<Rightarrow> select_stmt parser \<Rightarrow> expr parser \<Rightarrow> select_stmt parser" where
  "parse_select_body std sel pex =
     pbind (comma_list (parse_item std sel)) (\<lambda>items.
     pbind (eat_kw ''FROM'' (parse_table_ref std sel) (pret REmpty)) (\<lambda>from.
     pbind (parse_joins std sel) (\<lambda>joins.
     pbind (parse_where pex) (\<lambda>selection.
     pbind (parse_group_by std) (\<lambda>group_by.
     pbind (parse_order_by std) (\<lambda>order_by.
     pbind (parse_limit std) (\<lambda>limit.
     pret (SelectStmt items from joins selection order_by limit group_by))))))))"

fun parse_select_stmt :: "std_text \<Rightarrow> nat \<Rightarrow> select_stmt parser"
  and parse_expr :: "std_text \<Rightarrow> nat \<Rightarrow> expr parser" where
  "parse_select_stmt std 0 = (\<lambda>ts. None)"
| "parse_select_stmt std (Suc n) =
     pthen (expect_kw std ''SELECT'') (parse_select_body std (parse_select_stmt std n) (parse_expr std n))"
| "parse_expr std 0 = (\<lambda>ts. None)"
| "parse_expr std (Suc n) = parse_or std (parse_select_stmt std n) (parse_expr std n)"

section \<open>Data statements\<close>

definition parse_select :: "std_text \<Rightarrow> select_stmt parser \<Rightarrow> statement parser" where
  "parse_select std sel = pbind sel (\<lambda>q. case q of
     SelectStmt items from joins selection order_by limit group_by \<Rightarrow>
       pret (SSelect items from joins selection order_by limit group_by))"

text \<open>\<open>item (, item)* )\<close>: the loops that end with the closing parenthesis.\<close>

definition closed_list :: "std_text \<Rightarrow> 'a parser \<Rightarrow> 'a list parser" where
  "closed_list std item = pbind (comma_list item) (\<lambda>xs. pthen (expect_sym std '')'') (pret xs))"

definition parse_insert :: "std_text \<Rightarrow> expr parser \<Rightarrow> statement parser" where
  "parse_insert std pex = pthen advance (pthen (expect_kw std ''INTO'') (pbind (expect_ident std) (\<lambda>table.
     pbind (eat_sym ''('' (pbind (closed_list std (expect_ident std)) (\<lambda>cols. pret (Some cols))) (pret None)) (\<lambda>columns.
     pthen (expect_kw std ''VALUES'')
       (pbind (comma_list (pthen (expect_sym std ''('') (closed_list std pex))) (\<lambda>rows.
          pret (SInsert table columns rows)))))))"

definition parse_update :: "std_text \<Rightarrow> expr parser \<Rightarrow> statement parser" where
  "parse_update std pex = pthen advance (pbind (expect_ident std) (\<lambda>table. pthen (expect_kw std ''SET'')
     (pbind (comma_list (pbind (expect_ident std) (\<lambda>c. pthen (expect_sym std ''='') (pbind pex (\<lambda>v. pret (c, v)))))) (\<lambda>assignments.
        pbind (parse_where pex) (\<lambda>selection. pret (SUpdate table assignments selection))))))"

definition parse_delete :: "std_text \<Rightarrow> expr parser \<Rightarrow> statement parser" where
  "parse_delete std pex = pthen advance (pthen (expect_kw std ''FROM'') (pbind (expect_ident std) (\<lambda>table.
     pbind (parse_where pex) (\<lambda>selection. pret (SDelete table selection)))))"

section \<open>Users and grants\<close>

definition parse_user_name :: "std_text \<Rightarrow> string parser" where
  "parse_user_name std = pbind pnext (\<lambda>t.
     pbind (case t of
              Str s \<Rightarrow> pret s
            | Ident s \<Rightarrow> pret s
            | _ \<Rightarrow> perr (ParseError (''expected user name, got '' @ dbg_token std t))) (\<lambda>name.
     pthen (eat_sym ''@'' (pbind pnext (\<lambda>u. case u of
              Str _ \<Rightarrow> pret ()
            | Ident _ \<Rightarrow> pret ()
            | _ \<Rightarrow> perr (ParseError (''expected host after '' @ squote ''@'' @ '', got '' @ dbg_token std u)))) (pret ()))
       (if name = [] \<or> 256 < length name then perr (ParseError ''bad user name'') else pret name)))"

definition text_literal :: "std_text \<Rightarrow> select_stmt parser \<Rightarrow> string \<Rightarrow> string parser" where
  "text_literal std sel msg = pbind (parse_literal_operand std sel) (\<lambda>d. case d of
     DText p \<Rightarrow> pret p
   | _ \<Rightarrow> perr (ParseError (msg @ dbg_datum std d)))"

definition parse_password :: "std_text \<Rightarrow> select_stmt parser \<Rightarrow> string parser" where
  "parse_password std sel = text_literal std sel ''password must be a string literal, got ''"

definition parse_priv_list :: "std_text \<Rightarrow> privilege list parser" where
  "parse_priv_list std = comma_list (pbind (expect_ident std) (\<lambda>word. case privilege_parse word of
     None \<Rightarrow> perr (ParseError (''unknown privilege '' @ squote word))
   | Some p \<Rightarrow> if p = PAll then pthen (has_kw ''PRIVILEGES'') (pret PAll) else pret p))"

definition parse_grant_scope :: "std_text \<Rightarrow> grant_scope parser" where
  "parse_grant_scope std = eat_sym ''*'' (pthen (eat_sym ''.'' (expect_sym std ''*'') (pret ())) (pret Global))
     (pbind pnext (\<lambda>t.
        pbind (case t of
                 Str s \<Rightarrow> pret s
               | Ident s \<Rightarrow> pret s
               | _ \<Rightarrow> perr (ParseError (''expected grant scope, got '' @ dbg_token std t))) (\<lambda>f.
        eat_sym ''.''
          (eat_sym ''*'' (pret (DatabaseScope f)) (pbind (expect_ident std) (\<lambda>tbl. pret (TableScope (Some f) tbl))))
          (pret (TableScope None f)))))"

definition parse_grant :: "std_text \<Rightarrow> bool \<Rightarrow> statement parser" where
  "parse_grant std revoke = pthen advance (pbind (parse_priv_list std) (\<lambda>privs. pthen (expect_kw std ''ON'')
     (pbind (parse_grant_scope std) (\<lambda>scope. pthen (expect_kw std (if revoke then ''FROM'' else ''TO''))
       (pbind (parse_user_name std) (\<lambda>user. pret (if revoke then SRevoke privs scope user else SGrant privs scope user)))))))"

section \<open>CREATE and DROP\<close>

definition parse_fk_action :: "std_text \<Rightarrow> fk_action parser" where
  "parse_fk_action std =
     eat_kw ''RESTRICT'' (pret Restrict)
    (eat_kw ''CASCADE'' (pret Cascade)
    (eat_kw ''SET'' (pthen (expect_kw std ''NULL'') (pret SetNull))
       (fail_at std ''expected RESTRICT, CASCADE, or SET NULL, got '')))"

definition if_not_exists :: "std_text \<Rightarrow> bool parser" where
  "if_not_exists std = eat_kw ''IF'' (pthen (expect_kw std ''NOT'') (pthen (expect_kw std ''EXISTS'') (pret True))) (pret False)"

definition if_exists :: "std_text \<Rightarrow> bool parser" where
  "if_exists std = eat_kw ''IF'' (pthen (expect_kw std ''EXISTS'') (pret True)) (pret False)"

definition paren_ident :: "std_text \<Rightarrow> string parser" where
  "paren_ident std = pthen (expect_sym std ''('') (pbind (expect_ident std) (\<lambda>c. pthen (expect_sym std '')'') (pret c)))"

definition eq_ignore_case :: "string \<Rightarrow> string \<Rightarrow> bool" where
  "eq_ignore_case a b \<longleftrightarrow> map ascii_lower a = map ascii_lower b"

text \<open>The loop over the columns that sets the first one with the name of the key.\<close>

fun mark_primary :: "string \<Rightarrow> column_spec list \<Rightarrow> column_spec list option" where
  "mark_primary pk [] = None"
| "mark_primary pk (c # cs) =
     (if eq_ignore_case (cs_name c) pk then Some (c\<lparr>cs_primary_key := True, cs_not_null := True\<rparr> # cs)
      else map_option (\<lambda>cs'. c # cs') (mark_primary pk cs))"

definition on_actions :: "std_text \<Rightarrow> fk_action parser" where
  "on_actions std = loop (\<lambda>on_delete. eat_kw ''ON''
     (eat_kw ''DELETE'' (pbind (parse_fk_action std) (\<lambda>a. continue_with a))
     (eat_kw ''UPDATE''
        (pbind (parse_fk_action std) (\<lambda>a.
           if a = Restrict then continue_with on_delete else perr (NotSupported ''ON UPDATE CASCADE/SET NULL is not supported'')))
        (fail_at std ''expected DELETE or UPDATE after ON, got '')))
     (break_with on_delete)) Restrict"

definition foreign_key :: "std_text \<Rightarrow> string option \<Rightarrow> foreign_key_spec parser" where
  "foreign_key std name = pthen (expect_kw std ''KEY'') (pbind (paren_ident std) (\<lambda>column.
     pthen (expect_kw std ''REFERENCES'') (pbind (expect_ident std) (\<lambda>ref_table. pbind (paren_ident std) (\<lambda>ref_column.
     pbind (on_actions std) (\<lambda>on_delete.
       pret \<lparr>fs_name = name, fs_column = column, fs_ref_table = ref_table, fs_ref_column = ref_column, fs_on_delete = on_delete\<rparr>))))))"

definition column_options :: "std_text \<Rightarrow> select_stmt parser \<Rightarrow> column_spec \<Rightarrow> column_spec parser" where
  "column_options std sel = loop (\<lambda>c.
     eat_kw ''PRIMARY'' (pthen (expect_kw std ''KEY'') (continue_with (c\<lparr>cs_primary_key := True, cs_not_null := True\<rparr>)))
    (eat_kw ''NOT'' (pthen (expect_kw std ''NULL'') (continue_with (c\<lparr>cs_not_null := True\<rparr>)))
    (eat_kw ''AUTO_INCREMENT'' (continue_with (c\<lparr>cs_auto_increment := True\<rparr>))
    (eat_kw ''DEFAULT'' (pbind (parse_literal_operand std sel) (\<lambda>d. continue_with (c\<lparr>cs_default := Some d\<rparr>)))
       (break_with c)))))"

definition type_length :: "std_text \<Rightarrow> unit parser" where
  "type_length std = eat_sym ''(''
     (pbind pnext (\<lambda>t. case t of
        Number _ \<Rightarrow> expect_sym std '')''
      | _ \<Rightarrow> perr (ParseError (''expected type length, got '' @ dbg_token std t))))
     (pret ())"

definition column_def_spec :: "std_text \<Rightarrow> select_stmt parser \<Rightarrow> column_spec parser" where
  "column_def_spec std sel = pbind (expect_ident std) (\<lambda>cname. pbind (expect_ident std) (\<lambda>ctype.
     pthen (type_length std) (column_options std sel
       \<lparr>cs_name = cname, cs_ctype = ctype, cs_not_null = False, cs_primary_key = False, cs_auto_increment = False, cs_default = None\<rparr>)))"

definition constraint_name :: "std_text \<Rightarrow> string option parser" where
  "constraint_name std = eat_kw ''CONSTRAINT''
     (pif (\<lambda>ts. at_kw ''FOREIGN'' ts \<or> at_kw ''PRIMARY'' ts) (pret None) (pbind (expect_ident std) (\<lambda>n. pret (Some n))))
     (pret None)"

type_synonym table_parts = "column_spec list \<times> foreign_key_spec list"

definition table_part :: "std_text \<Rightarrow> select_stmt parser \<Rightarrow> table_parts \<Rightarrow> table_parts parser" where
  "table_part std sel = (\<lambda>(columns, fks). pbind (constraint_name std) (\<lambda>name.
     eat_kw ''PRIMARY''
       (pthen (expect_kw std ''KEY'') (pbind (paren_ident std) (\<lambda>pk. case mark_primary pk columns of
          Some columns' \<Rightarrow> pret (columns', fks)
        | None \<Rightarrow> perr (ParseError (''PRIMARY KEY column '' @ squote pk @ '' not found in table definition'')))))
    (eat_kw ''FOREIGN'' (pbind (foreign_key std name) (\<lambda>fk. pret (columns, fks @ [fk])))
    (if name \<noteq> None then perr (ParseError ''CONSTRAINT must precede FOREIGN KEY or PRIMARY KEY'')
     else pbind (column_def_spec std sel) (\<lambda>c. pret (columns @ [c], fks))))))"

definition parse_create_table :: "std_text \<Rightarrow> select_stmt parser \<Rightarrow> statement parser" where
  "parse_create_table std sel = pbind (if_not_exists std) (\<lambda>ine. pbind (expect_ident std) (\<lambda>name. pthen (expect_sym std ''('')
     (pbind (loop (\<lambda>parts. pbind (table_part std sel parts) (\<lambda>p. eat_sym '','' (continue_with p) (break_with p))) ([], [])) (\<lambda>(columns, fks).
        pthen (expect_sym std '')'') (pret (SCreateTable name columns fks ine))))))"

definition parse_create :: "std_text \<Rightarrow> select_stmt parser \<Rightarrow> statement parser" where
  "parse_create std sel = pthen advance
     (let database = pbind (if_not_exists std) (\<lambda>ine. pbind (expect_ident std) (\<lambda>name. pret (SCreateDatabase name ine))) in
      eat_kw ''DATABASE'' database
     (eat_kw ''SCHEMA'' database
     (eat_kw ''USER'' (pbind (if_not_exists std) (\<lambda>ine. pbind (parse_user_name std) (\<lambda>name.
        pthen (expect_kw std ''IDENTIFIED'') (pthen (expect_kw std ''BY'') (pbind (parse_password std sel) (\<lambda>password.
          pret (SCreateUser name ine password)))))))
     (eat_kw ''TABLE'' (parse_create_table std sel)
     (eat_kw ''INDEX'' (pbind (if_not_exists std) (\<lambda>ine. pbind (expect_ident std) (\<lambda>name. pthen (expect_kw std ''ON'')
        (pbind (expect_ident std) (\<lambda>table. pbind (paren_ident std) (\<lambda>column. pret (SCreateIndex name table column ine)))))))
        (fail_at std ''expected DATABASE, TABLE, or INDEX after CREATE, got ''))))))"

definition parse_drop :: "std_text \<Rightarrow> statement parser" where
  "parse_drop std = pthen advance
     (let database = pbind (if_exists std) (\<lambda>ie. pbind (expect_ident std) (\<lambda>name. pret (SDropDatabase name ie))) in
      eat_kw ''DATABASE'' database
     (eat_kw ''SCHEMA'' database
     (eat_kw ''TABLE'' (pbind (if_exists std) (\<lambda>ie. pbind (expect_ident std) (\<lambda>name. pret (SDropTable name ie))))
     (eat_kw ''USER'' (pbind (if_exists std) (\<lambda>ie. pbind (parse_user_name std) (\<lambda>name. pret (SDropUser name ie))))
     (eat_kw ''INDEX'' (pbind (if_exists std) (\<lambda>ie. pbind (expect_ident std) (\<lambda>name. pthen (expect_kw std ''ON'')
        (pbind (expect_ident std) (\<lambda>table. pret (SDropIndex name table ie))))))
        (fail_at std ''expected DATABASE, TABLE, USER, or INDEX after DROP, got ''))))))"

section \<open>Statements\<close>

definition parse_isolation_level :: "std_text \<Rightarrow> isolation_level parser" where
  "parse_isolation_level std =
     eat_kw ''REPEATABLE'' (pthen (expect_kw std ''READ'') (pret RepeatableRead))
    (eat_kw ''READ''
       (eat_kw ''COMMITTED'' (pret ReadCommitted)
       (eat_kw ''UNCOMMITTED'' (pret ReadCommitted)
          (perr (ParseError ''expected COMMITTED or UNCOMMITTED after READ''))))
    (eat_kw ''SERIALIZABLE'' (pret Serializable) (fail_at std ''unknown isolation level: '')))"

definition read_mode :: "bool \<Rightarrow> bool parser" where
  "read_mode before = eat_kw ''ONLY'' (pret True) (pthen (has_kw ''WRITE'') (pret before))"

definition isolation_clause :: "std_text \<Rightarrow> isolation_level parser" where
  "isolation_clause std = pthen (expect_kw std ''LEVEL'') (parse_isolation_level std)"

definition parse_begin :: "std_text \<Rightarrow> statement parser" where
  "parse_begin std = pthen advance (pthen (has_kw ''TRANSACTION'')
     (pbind (pif_some ''ISOLATION'' (isolation_clause std)) (\<lambda>iso.
        pbind (eat_kw ''READ'' (read_mode False) (pret False)) (\<lambda>ro. pret (SBegin iso ro)))))"

definition parse_start :: "std_text \<Rightarrow> statement parser" where
  "parse_start std = pthen advance (pthen (expect_kw std ''TRANSACTION'')
     (loop (\<lambda>(snapshot, iso, ro).
        pif (\<lambda>ts. peek ts = Eof) (break_with (SStartTransaction snapshot iso ro))
       (eat_kw ''WITH'' (pthen (expect_kw std ''CONSISTENT'') (pthen (expect_kw std ''SNAPSHOT'') (continue_with (True, iso, ro))))
       (eat_kw ''ISOLATION'' (pbind (isolation_clause std) (\<lambda>l. continue_with (snapshot, Some l, ro)))
       (eat_kw ''READ'' (pbind (read_mode ro) (\<lambda>r. continue_with (snapshot, iso, r)))
          (break_with (SStartTransaction snapshot iso ro)))))) (False, None, False)))"

definition parse_show :: "std_text \<Rightarrow> select_stmt parser \<Rightarrow> statement parser" where
  "parse_show std sel = pthen advance
     (let engine = pthen (has_kw ''INNODB'') (pthen (has_kw ''STATUS'') (pret SShowEngineStatus)) in
      eat_kw ''TABLES'' (pret SShowTables)
     (eat_kw ''DATABASES'' (pret SShowDatabases)
     (eat_kw ''SCHEMAS'' (pret SShowDatabases)
     (eat_kw ''STATUS''
        (pbind (pif_some ''LIKE'' (text_literal std sel ''SHOW STATUS LIKE needs a string pattern, got '')) (\<lambda>like. pret (SShowStatus like)))
     (eat_kw ''ENGINE'' engine
     (eat_kw ''ENGINES'' engine
     (eat_kw ''PROCESSLIST'' (pret SShowProcesslist)
     (eat_kw ''GRANTS'' (pbind (pif_some ''FOR'' (parse_user_name std)) (\<lambda>u. pret (SShowGrants u)))
        (fail_at std ''expected TABLES, DATABASES, STATUS, ENGINE STATUS, PROCESSLIST or GRANTS after SHOW, got '')))))))))"

definition at_str :: "token list \<Rightarrow> bool" where
  "at_str ts \<longleftrightarrow> (case ts of Str _ # _ \<Rightarrow> True | _ \<Rightarrow> False)"

definition parse_archive :: "std_text \<Rightarrow> select_stmt parser \<Rightarrow> statement parser" where
  "parse_archive std sel = pthen advance
     (let path = pbind (text_literal std sel ''ARCHIVE path must be string, got '') (\<lambda>p. pret (SArchive (Some p))) in
      eat_kw ''TO'' path (pif at_str path (pret (SArchive None))))"

definition variable_name :: "std_text \<Rightarrow> string parser" where
  "variable_name std = pbind (eat_sym ''@'' (pthen (has_sym ''@'') (expect_ident std)) (expect_ident std)) (\<lambda>name.
     eat_sym ''.'' (pbind (expect_ident std) (\<lambda>f. pret (name @ ''.'' @ f))) (pret name))"

definition parse_set :: "std_text \<Rightarrow> select_stmt parser \<Rightarrow> statement parser" where
  "parse_set std sel = pthen advance (pbind (has_kw ''SESSION'') (\<lambda>is_session.
     pbind (if is_session then pret False else has_kw ''GLOBAL'') (\<lambda>is_global.
       eat_kw ''TRANSACTION''
         (pthen (expect_kw std ''ISOLATION'') (pbind (isolation_clause std) (\<lambda>level. pret (SSetTransaction level is_global))))
      (eat_kw ''NAMES'' (pbind (parse_literal_operand std sel) (\<lambda>v. pret (SSetVariable ''names'' v)))
         (pbind (variable_name std) (\<lambda>name. pthen (expect_sym std ''='')
            (pbind (eat_kw ''ON'' (pret (DText ''ON'')) (eat_kw ''OFF'' (pret (DText ''OFF'')) (parse_literal_operand std sel)))
               (\<lambda>v. pret (SSetVariable name v)))))))))"

definition at_ident :: "token list \<Rightarrow> bool" where
  "at_ident ts \<longleftrightarrow> (case ts of Ident _ # _ \<Rightarrow> True | _ \<Rightarrow> False)"

definition parse_check :: "std_text \<Rightarrow> statement parser" where
  "parse_check std = pthen advance
     (eat_kw ''DATABASE''
        (pif at_ident (pbind (expect_ident std) (\<lambda>d. pret (SCheckDatabase (Some d)))) (pret (SCheckDatabase None)))
        (pthen (expect_kw std ''TABLE'') (pbind (expect_ident std) (\<lambda>table. pret (SCheckTable table)))))"

definition parse_explain :: "std_text \<Rightarrow> select_stmt parser \<Rightarrow> statement parser" where
  "parse_explain std sel = pthen advance (pbind (has_kw ''ANALYZE'') (\<lambda>analyze.
     pbind (if analyze then pret False else has_kw ''MEMO'') (\<lambda>memo.
       pif (at_kw ''SELECT'')
         (pbind (parse_select std sel) (\<lambda>stmt. pret (if memo then SExplainMemo stmt else SExplain analyze stmt)))
         (fail_at std ''EXPLAIN supports SELECT only, got ''))))"

definition parse_describe :: "std_text \<Rightarrow> select_stmt parser \<Rightarrow> statement parser" where
  "parse_describe std sel = pthen advance (pif (at_kw ''SELECT'')
     (pbind (parse_select std sel) (\<lambda>stmt. pret (SExplain False stmt)))
     (fail_at std ''DESCRIBE supports SELECT only, got ''))"

definition parse_alter :: "std_text \<Rightarrow> select_stmt parser \<Rightarrow> statement parser" where
  "parse_alter std sel = pthen advance (pthen (expect_kw std ''USER'') (pbind (parse_user_name std) (\<lambda>name.
     pthen (expect_kw std ''IDENTIFIED'') (pthen (expect_kw std ''BY'') (pbind (parse_password std sel) (\<lambda>password.
       pret (SAlterUser name password)))))))"

definition parse_backup :: "std_text \<Rightarrow> select_stmt parser \<Rightarrow> statement parser" where
  "parse_backup std sel = pthen advance (pthen (expect_kw std ''DATABASE'') (pthen (expect_kw std ''TO'')
     (pbind (text_literal std sel ''BACKUP path must be a string literal, got '') (\<lambda>path. pret (SBackup path)))))"

text \<open>The arms of \<open>parse_statement\<close>, by keyword.\<close>

definition statement_arms :: "std_text \<Rightarrow> select_stmt parser \<Rightarrow> expr parser \<Rightarrow> (string \<times> statement parser) list" where
  "statement_arms std sel pex =
     [(''CREATE'', parse_create std sel),
      (''DROP'', parse_drop std),
      (''USE'', pthen advance (pbind (expect_ident std) (\<lambda>name. pret (SUseDatabase name)))),
      (''INSERT'', parse_insert std pex),
      (''SELECT'', parse_select std sel),
      (''UPDATE'', parse_update std pex),
      (''DELETE'', parse_delete std pex),
      (''BEGIN'', parse_begin std),
      (''START'', parse_start std),
      (''COMMIT'', pthen advance (pret SCommit)),
      (''ROLLBACK'', pthen advance (pret SRollback)),
      (''SHOW'', parse_show std sel),
      (''CHECKPOINT'', pthen advance (pret SCheckpoint)),
      (''PROMOTE'', pthen advance (pret SPromote)),
      (''BACKUP'', parse_backup std sel),
      (''ARCHIVE'', parse_archive std sel),
      (''SET'', parse_set std sel),
      (''ANALYZE'', pthen advance (pthen (expect_kw std ''TABLE'') (pbind (expect_ident std) (\<lambda>table. pret (SAnalyzeTable table))))),
      (''CHECK'', parse_check std),
      (''EXPLAIN'', parse_explain std sel),
      (''DESCRIBE'', parse_describe std sel),
      (''GRANT'', parse_grant std False),
      (''REVOKE'', parse_grant std True),
      (''ALTER'', parse_alter std sel)]"

definition parse_statement :: "std_text \<Rightarrow> select_stmt parser \<Rightarrow> expr parser \<Rightarrow> statement parser" where
  "parse_statement std sel pex = (\<lambda>ts.
     case kw (peek ts) of
       None \<Rightarrow> fail_at std ''expected statement, got '' ts
     | Some k \<Rightarrow>
         (case map_of (statement_arms std sel pex) k of
            Some p \<Rightarrow> p ts
          | None \<Rightarrow> fail_at std ''expected statement, got '' ts))"

definition parse_tokens :: "std_text \<Rightarrow> nat \<Rightarrow> token list \<Rightarrow> statement result option" where
  "parse_tokens std n ts =
     (case parse_statement std (parse_select_stmt std n) (parse_expr std n) ts of
        None \<Rightarrow> None
      | Some (Inl e) \<Rightarrow> Some (Inl e)
      | Some (Inr (stmt, r)) \<Rightarrow>
          (let r = (if at_sym '';'' r then tl r else r) in
           if peek r \<noteq> Eof then Some (Inl (ParseError (''unexpected trailing input: '' @ dbg_token std (peek r))))
           else Some (Inr stmt)))"

definition parse_sql :: "std_text \<Rightarrow> string \<Rightarrow> statement result option" where
  "parse_sql std src =
     (case tokenize src of Inl e \<Rightarrow> Some (Inl e) | Inr ts \<Rightarrow> parse_tokens std (Suc (length ts)) ts)"

end
