(* ===== verification/Sql_Parser_Total.thy ===== *)
theory Sql_Parser_Total
  imports Sql_Parser
begin

text \<open>
  The SQL parser always returns: the bounds of the loops and of the recursion in \<open>Sql_Parser\<close> are never reached.

  \<^item> \<open>parses P n p\<close>: on at most \<open>n\<close> tokens \<open>p\<close> returns, never with more tokens than it got, and with fewer whenever
    its value satisfies \<open>P\<close>. The rules for the combinators are collected in \<open>parse_rules\<close> and carry the proofs.
  \<^item> A loop whose body consumes a token whenever it goes on returns (\<open>parses_loop\<close>).
\<close>

named_theorems parse_rules \<open>a parser returns and does not add tokens\<close>

definition parses :: "('a \<Rightarrow> bool) \<Rightarrow> nat \<Rightarrow> 'a parser \<Rightarrow> bool" where
  "parses P n p \<longleftrightarrow> (\<forall>ts. length ts \<le> n \<longrightarrow>
     (\<exists>e. p ts = Some (Inl e)) \<or>
     (\<exists>x r. p ts = Some (Inr (x, r)) \<and> length r \<le> length ts \<and> (P x \<longrightarrow> length r < length ts)))"

abbreviation total :: "nat \<Rightarrow> 'a parser \<Rightarrow> bool" where "total \<equiv> parses (\<lambda>_. False)"

section \<open>Rules for the combinators\<close>

lemma parses_mono: "parses P n p \<Longrightarrow> m \<le> n \<Longrightarrow> parses P m p"
  unfolding parses_def by (meson le_trans)

lemma parses_weaken: "parses P n p \<Longrightarrow> total n p"
  unfolding parses_def by blast

lemma parses_pret [parse_rules]: "\<not> P x \<Longrightarrow> parses P n (pret x)"
  by (simp add: parses_def pret_def)

lemma parses_perr [parse_rules]: "parses P n (perr e)"
  by (simp add: parses_def perr_def)

lemma parses_fail [parse_rules]: "parses P n (fail_at std msg)"
  by (simp add: parses_def fail_at_def)

lemma parses_bind [parse_rules]:
  assumes "total n p" "\<And>x. parses P n (f x)"
  shows "parses P n (pbind p f)"
  unfolding parses_def
proof (intro allI impI)
  fix ts :: "token list"
  assume len: "length ts \<le> n"
  consider e where "p ts = Some (Inl e)" | x r where "p ts = Some (Inr (x, r))" "length r \<le> length ts"
    using assms(1) len unfolding parses_def by blast
  then show "(\<exists>e. pbind p f ts = Some (Inl e)) \<or>
    (\<exists>x r. pbind p f ts = Some (Inr (x, r)) \<and> length r \<le> length ts \<and> (P x \<longrightarrow> length r < length ts))"
  proof cases
    case (2 x r)
    then have "length r \<le> n" using len by simp
    with assms(2) [of x] have "(\<exists>e. f x r = Some (Inl e)) \<or>
        (\<exists>y r'. f x r = Some (Inr (y, r')) \<and> length r' \<le> length r \<and> (P y \<longrightarrow> length r' < length r))"
      unfolding parses_def by blast
    with 2 show ?thesis by (auto simp: pbind_def)
  qed (simp add: pbind_def)
qed

lemma parses_then [parse_rules]: "total n p \<Longrightarrow> parses P n q \<Longrightarrow> parses P n (pthen p q)"
  unfolding pthen_def by (rule parses_bind)

lemma parses_lift [parse_rules]: "total n (lift_result r)"
  by (cases r) (auto simp: lift_result_def intro: parse_rules)

lemma peek_ne [simp]: "peek ts = t \<Longrightarrow> t \<noteq> Eof \<Longrightarrow> ts \<noteq> []"
  by (auto simp: peek_def)

lemma at_sym_ne: "at_sym c ts \<Longrightarrow> ts \<noteq> []"
  by (auto simp: at_sym_def peek_def)

lemma at_kw_ne: "at_kw k ts \<Longrightarrow> ts \<noteq> []"
  by (auto simp: at_kw_def peek_def kw_def)

lemma tl_shorter: "ts \<noteq> [] \<Longrightarrow> length (tl ts) < length ts"
  by (cases ts) simp_all

lemma parses_tl:
  assumes "0 < n \<Longrightarrow> total (n - 1) p" "ts \<noteq> []" "length ts \<le> n"
  shows "(\<exists>e. p (tl ts) = Some (Inl e)) \<or> (\<exists>x r. p (tl ts) = Some (Inr (x, r)) \<and> length r < length ts)"
proof -
  have "length (tl ts) \<le> n - 1" using assms(2,3) by (cases ts) auto
  then have "(\<exists>e. p (tl ts) = Some (Inl e)) \<or> (\<exists>x r. p (tl ts) = Some (Inr (x, r)) \<and> length r \<le> length (tl ts))"
    using assms unfolding parses_def by (metis length_greater_0_conv less_le_trans)
  then show ?thesis using tl_shorter [OF assms(2)] by auto
qed

lemma parses_step:
  assumes "\<And>ts. b ts \<Longrightarrow> ts \<noteq> []" "0 < n \<Longrightarrow> total (n - 1) p" "parses P n q"
  shows "parses P n (\<lambda>ts. if b ts then p (tl ts) else q ts)"
  unfolding parses_def [of P]
proof (intro allI impI)
  fix ts :: "token list"
  assume len: "length ts \<le> n"
  show "(\<exists>e. (if b ts then p (tl ts) else q ts) = Some (Inl e)) \<or>
    (\<exists>x r. (if b ts then p (tl ts) else q ts) = Some (Inr (x, r)) \<and> length r \<le> length ts \<and> (P x \<longrightarrow> length r < length ts))"
  proof (cases "b ts")
    case True
    then have "(\<exists>e. p (tl ts) = Some (Inl e)) \<or> (\<exists>x r. p (tl ts) = Some (Inr (x, r)) \<and> length r < length ts)"
      using parses_tl [OF assms(2) assms(1) len] by blast
    then show ?thesis using True by (auto simp: less_imp_le)
  next
    case False
    then show ?thesis using assms(3) len by (auto simp: parses_def)
  qed
qed

lemma parses_eat_sym [parse_rules]: "(0 < n \<Longrightarrow> total (n - 1) p) \<Longrightarrow> parses P n q \<Longrightarrow> parses P n (eat_sym c p q)"
  unfolding eat_sym_def by (rule parses_step) (auto dest: at_sym_ne)

lemma parses_eat_kw [parse_rules]: "(0 < n \<Longrightarrow> total (n - 1) p) \<Longrightarrow> parses P n q \<Longrightarrow> parses P n (eat_kw k p q)"
  unfolding eat_kw_def by (rule parses_step) (auto dest: at_kw_ne)

lemma parses_pif: "parses P n p \<Longrightarrow> parses P n q \<Longrightarrow> parses P n (pif b p q)"
  by (simp add: parses_def pif_def)

lemma parses_next [parse_rules]: "total n pnext"
  by (simp add: parses_def pnext_def)

lemma parses_advance [parse_rules]: "total n advance"
  by (simp add: parses_def advance_def)

text \<open>A parser that consumed a token leaves one less.\<close>

lemma parses_bind_strict:
  assumes "parses Q n p" "\<And>x. Q x \<Longrightarrow> 0 < n \<Longrightarrow> total (n - 1) (f x)" "\<And>x. \<not> Q x \<Longrightarrow> parses P n (f x)"
  shows "parses P n (pbind p f)"
  unfolding parses_def [of P]
proof (intro allI impI)
  fix ts :: "token list"
  assume len: "length ts \<le> n"
  consider e where "p ts = Some (Inl e)" | x r where "p ts = Some (Inr (x, r))" "length r \<le> length ts" "Q x \<longrightarrow> length r < length ts"
    using assms(1) len unfolding parses_def by blast
  then show "(\<exists>e. pbind p f ts = Some (Inl e)) \<or>
    (\<exists>x r. pbind p f ts = Some (Inr (x, r)) \<and> length r \<le> length ts \<and> (P x \<longrightarrow> length r < length ts))"
  proof cases
    case (2 x r)
    have "(\<exists>e. f x r = Some (Inl e)) \<or>
        (\<exists>y r'. f x r = Some (Inr (y, r')) \<and> length r' \<le> length r \<and> (P y \<longrightarrow> length r' < length ts))"
    proof (cases "Q x")
      case True
      then have "length r \<le> n - 1" "0 < n" "length r < length ts" using 2 len by auto
      then show ?thesis using assms(2) [OF True] unfolding parses_def by fastforce
    next
      case False
      then have "length r \<le> n" using 2 len by auto
      then show ?thesis using assms(3) [OF False] 2(2) unfolding parses_def by fastforce
    qed
    with 2 show ?thesis by (auto simp: pbind_def)
  qed (simp add: pbind_def)
qed

lemma parses_cmp_op [parse_rules]: "(\<And>c. 0 < n \<Longrightarrow> total (n - 1) (p c)) \<Longrightarrow> parses P n q \<Longrightarrow> parses P n (parse_cmp_op p q)"
proof -
  assume a: "\<And>c. 0 < n \<Longrightarrow> total (n - 1) (p c)" "parses P n q"
  have ne: "ts \<noteq> []" if "cmp_of_sym (peek ts) = Some c" for ts c
    using that by (auto simp: peek_def)
  show ?thesis
    unfolding parses_def [of P] parse_cmp_op_def
  proof (intro allI impI)
    fix ts :: "token list"
    assume len: "length ts \<le> n"
    show "(\<exists>e. (case cmp_of_sym (peek ts) of None \<Rightarrow> q ts | Some c \<Rightarrow> p c (tl ts)) = Some (Inl e)) \<or>
      (\<exists>x r. (case cmp_of_sym (peek ts) of None \<Rightarrow> q ts | Some c \<Rightarrow> p c (tl ts)) = Some (Inr (x, r)) \<and> length r \<le> length ts \<and> (P x \<longrightarrow> length r < length ts))"
    proof (cases "cmp_of_sym (peek ts)")
      case None
      then show ?thesis using a(2) len by (auto simp: parses_def)
    next
      case (Some c)
      have "(\<exists>e. p c (tl ts) = Some (Inl e)) \<or> (\<exists>x r. p c (tl ts) = Some (Inr (x, r)) \<and> length r < length ts)"
        by (rule parses_tl [OF a(1) ne [OF Some] len])
      then show ?thesis using Some by (auto simp: less_imp_le)
    qed
  qed
qed

lemma parses_if [parse_rules]: "(b \<Longrightarrow> parses P n p) \<Longrightarrow> (\<not> b \<Longrightarrow> parses P n q) \<Longrightarrow> parses P n (if b then p else q)"
  by simp

lemma parses_let [parse_rules]: "parses P n (f v) \<Longrightarrow> parses P n (Let v f)"
  by (simp add: Let_def)

section \<open>Loops\<close>

lemma ploop_total:
  assumes "\<And>s. parses isl n (body s)" "length ts \<le> n" "length ts < k"
  shows "(\<exists>e. ploop k body s ts = Some (Inl e)) \<or> (\<exists>x r. ploop k body s ts = Some (Inr (x, r)) \<and> length r \<le> length ts)"
  using assms(2,3)
proof (induction k arbitrary: s ts)
  case (Suc k)
  consider e where "body s ts = Some (Inl e)" | s' r where "body s ts = Some (Inr (Inl s', r))" "length r < length ts"
    | x r where "body s ts = Some (Inr (Inr x, r))" "length r \<le> length ts"
    using assms(1) [of s] Suc.prems unfolding parses_def by (metis isl_def sum.exhaust)
  then show ?case
  proof cases
    case (2 s' r)
    then have "length r \<le> n" "length r < k" using Suc.prems by simp_all
    from Suc.IH [OF this, of s'] 2 show ?thesis by (auto simp: pbind_def)
  qed (auto simp: pbind_def pret_def)
qed simp

lemma parses_loop [parse_rules]: "(\<And>s. parses isl n (body s)) \<Longrightarrow> total n (loop body s)"
  unfolding parses_def [of "\<lambda>_. False"] loop_def by (intro allI impI) (simp only: HOL.simp_thms, rule ploop_total, auto)

lemma parses_comma_list [parse_rules]: "total n item \<Longrightarrow> total n (comma_list item)"
  unfolding comma_list_def by (intro parse_rules) simp_all

lemma parses_pif_some [parse_rules]: "(0 < n \<Longrightarrow> total (n - 1) p) \<Longrightarrow> total n (pif_some k p)"
  unfolding pif_some_def by (intro parse_rules) simp_all

section \<open>Case distinctions\<close>

lemma parses_case_token [parse_rules]:
  "(\<And>s. t = Ident s \<Longrightarrow> parses P n (f s)) \<Longrightarrow> (\<And>s. t = Number s \<Longrightarrow> parses P n (g s)) \<Longrightarrow> (\<And>s. t = Str s \<Longrightarrow> parses P n (h s)) \<Longrightarrow>
   (\<And>s. t = Sym s \<Longrightarrow> parses P n (i s)) \<Longrightarrow> (t = Eof \<Longrightarrow> parses P n j) \<Longrightarrow> parses P n (case_token f g h i j t)"
  by (cases t) simp_all

lemma parses_case_option [parse_rules]:
  "(t = None \<Longrightarrow> parses P n f) \<Longrightarrow> (\<And>x. t = Some x \<Longrightarrow> parses P n (g x)) \<Longrightarrow> parses P n (case_option f g t)"
  by (cases t) simp_all

lemma parses_case_prod [parse_rules]: "(\<And>a b. parses P n (f a b)) \<Longrightarrow> parses P n (case_prod f s)"
  by (cases s) simp

lemma parses_literal_case:
  "(\<And>d. parses P n (f d)) \<Longrightarrow> (\<And>e. parses P n (g e)) \<Longrightarrow> parses P n (case e of ELiteral d \<Rightarrow> f d | _ \<Rightarrow> g e)"
  by (cases e) simp_all

lemma parses_text_case:
  "(\<And>d. parses P n (f d)) \<Longrightarrow> parses P n g \<Longrightarrow> parses P n (case e of DText d \<Rightarrow> f d | _ \<Rightarrow> g)"
  by (cases e) simp_all

section \<open>The parsers of the grammar\<close>

text \<open>\<open>p\<close> returns on fewer than \<open>n\<close> tokens: what the parser of a nested statement is used for.\<close>

definition within :: "nat \<Rightarrow> 'a parser \<Rightarrow> bool" where
  "within n p \<longleftrightarrow> (\<forall>k < n. total k p)"

lemma within_mono: "within n p \<Longrightarrow> m \<le> n \<Longrightarrow> within m p"
  by (simp add: within_def)

lemma within_pred: "within n p \<Longrightarrow> within (n - k) p"
  by (simp add: within_def)

lemma within_total: "within n p \<Longrightarrow> k < n \<Longrightarrow> total k p"
  by (simp add: within_def)

lemma expect_sym_strict: "parses (\<lambda>_. True) n (expect_sym std c)"
  unfolding expect_sym_def by (intro parse_rules) simp_all

lemma expect_kw_strict: "parses (\<lambda>_. True) n (expect_kw std c)"
  unfolding expect_kw_def by (intro parse_rules) simp_all

lemmas expect_total [parse_rules] = expect_sym_strict [THEN parses_weaken] expect_kw_strict [THEN parses_weaken]

lemma has_total [parse_rules]: "total n (has_kw k)" "total n (has_sym c)"
  unfolding has_kw_def has_sym_def by (intro parse_rules; simp)+

lemma expect_ident_total [parse_rules]: "total n (expect_ident std)"
  unfolding expect_ident_def by (intro parse_rules; simp)

lemma col_ref_total [parse_rules]: "total n (parse_col_ref std)"
  unfolding parse_col_ref_def by (intro parse_rules; simp)

lemma base_operand_total [parse_rules]: "total n (base_operand std t)"
  unfolding base_operand_def by (intro parse_rules; simp)

lemma cast_loop_total [parse_rules]: "total n (cast_loop std e)"
  unfolding cast_loop_def by (intro parse_rules; simp)

text \<open>Expressions and SELECT: a nested statement or expression is parsed only behind a consumed token.\<close>

lemma at_subquery_ne: "at_subquery ts \<Longrightarrow> ts \<noteq> []"
  by (auto simp: at_subquery_def dest: at_sym_ne)

lemma paren_query_bind: "pbind (paren_query std sel) f = pthen advance (pbind (pbind sel (\<lambda>q. pthen (expect_sym std '')'') (pret q))) f)"
  by (auto simp: paren_query_def pthen_def pbind_def advance_def fun_eq_iff split: option.splits sum.splits)

lemma parses_subquery [parse_rules]:
  assumes "within n sel" "\<And>q. 0 < n \<Longrightarrow> total (n - 1) (f q)" "parses P n other"
  shows "parses P n (pif at_subquery (pbind (paren_query std sel) f) other)"
proof -
  let ?p = "pbind (pbind sel (\<lambda>q. pthen (expect_sym std '')'') (pret q))) f"
  have "0 < n \<Longrightarrow> total (n - 1) ?p"
    using assms(2) by (intro parse_rules within_total [OF assms(1)]) simp_all
  moreover have "pif at_subquery (pthen advance ?p) other = (\<lambda>ts. if at_subquery ts then ?p (tl ts) else other ts)"
    by (auto simp: pif_def pthen_def pbind_def advance_def)
  ultimately show ?thesis
    using parses_step [of at_subquery n ?p P other] at_subquery_ne assms(3) by (simp add: paren_query_bind)
qed

lemma operand_total [parse_rules]: "within n sel \<Longrightarrow> total n (parse_operand std sel)"
  unfolding parse_operand_def by (intro parse_rules; simp)

lemma literal_operand_total [parse_rules]: "within n sel \<Longrightarrow> total n (parse_literal_operand std sel)"
  unfolding parse_literal_operand_def by (intro parse_rules parses_literal_case; simp)

lemma between_total [parse_rules]: "within n sel \<Longrightarrow> total n (parse_between_bounds std sel)"
  unfolding parse_between_bounds_def by (intro parse_rules; simp)

lemma in_list_total [parse_rules]: "within n sel \<Longrightarrow> total n (parse_in_list std sel)"
  unfolding parse_in_list_def by (intro parse_rules; simp add: within_pred)

lemma like_pattern_total [parse_rules]: "total n (parse_like_pattern std)"
  unfolding parse_like_pattern_def by (intro parse_rules; simp)

lemma in_tail_total [parse_rules]: "within n sel \<Longrightarrow> total n (parse_in_tail std sel f neg)"
  unfolding parse_in_tail_def by (intro parse_rules; simp)

lemma cmp_tail_total [parse_rules]: "within n sel \<Longrightarrow> total n (parse_cmp_tail std sel)"
  unfolding parse_cmp_tail_def by (intro parse_rules; simp add: within_pred)

lemma exists_body_total [parse_rules]:
  assumes "within n sel"
  shows "total n (parse_exists_body std sel)"
  unfolding parse_exists_body_def pthen_def [of "expect_sym std ''(''"]
  by (rule parses_bind_strict [OF expect_sym_strict]; (intro parse_rules parses_pif within_total [OF assms])?; simp)

lemma predicate_total [parse_rules]: "within n sel \<Longrightarrow> within n pex \<Longrightarrow> total n (parse_predicate std sel pex)"
  unfolding parse_predicate_def by (intro parse_rules; simp add: within_pred within_total)

lemma not_total [parse_rules]:
  assumes "within n sel" "within n pex"
  shows "total n (parse_not std sel pex)"
proof -
  have "(\<exists>e. parse_not std sel pex ts = Some (Inl e)) \<or> (\<exists>x r. parse_not std sel pex ts = Some (Inr (x, r)) \<and> length r \<le> length ts)"
    if "length ts \<le> n" for ts
    using that
  proof (induction ts)
    case Nil
    then show ?case using predicate_total [OF assms, of std] unfolding parses_def parse_not.simps by blast
  next
    case (Cons t ts)
    have pred: "(\<exists>e. parse_predicate std sel pex (t # ts) = Some (Inl e)) \<or>
      (\<exists>x r. parse_predicate std sel pex (t # ts) = Some (Inr (x, r)) \<and> length r \<le> length (t # ts))"
      using predicate_total [OF assms, of std] Cons.prems unfolding parses_def by blast
    have len: "length (tl ts) \<le> n" using Cons.prems by simp
    have "total n (pbind (parse_exists_body std sel) (\<lambda>q. pret (EExists q True)))"
      using assms(1) by (intro parse_rules) simp_all
    then have "(\<exists>e. pbind (parse_exists_body std sel) (\<lambda>q. pret (EExists q True)) (tl ts) = Some (Inl e)) \<or>
      (\<exists>x r. pbind (parse_exists_body std sel) (\<lambda>q. pret (EExists q True)) (tl ts) = Some (Inr (x, r)) \<and> length r \<le> length (tl ts))"
      using len unfolding parses_def by blast
    with pred Cons show ?case by (auto simp: le_diff_conv split: if_splits)
  qed
  then show ?thesis by (simp add: parses_def)
qed

lemma and_total [parse_rules]: "within n sel \<Longrightarrow> within n pex \<Longrightarrow> total n (parse_and std sel pex)"
  unfolding parse_and_def by (intro parse_rules; simp add: within_pred)

lemma or_total [parse_rules]: "within n sel \<Longrightarrow> within n pex \<Longrightarrow> total n (parse_or std sel pex)"
  unfolding parse_or_def by (intro parse_rules; simp add: within_pred)

lemma join_cmp_total [parse_rules]: "within n sel \<Longrightarrow> total n (parse_join_cmp std sel)"
  unfolding parse_join_cmp_def by (intro parse_rules; simp add: within_pred)

lemma join_cond_total [parse_rules]: "within n sel \<Longrightarrow> total n (parse_join_cond std sel)"
  unfolding parse_join_cond_def by (intro parse_rules; simp add: within_pred)

lemma derived_total [parse_rules]:
  assumes "within n sel"
  shows "total n (parse_derived std sel)"
  unfolding parse_derived_def pthen_def [of "expect_sym std ''(''"]
  by (rule parses_bind_strict [OF expect_sym_strict]; (intro parse_rules parses_pif within_total [OF assms])?; simp)

lemma table_ref_total [parse_rules]: "within n sel \<Longrightarrow> total n (parse_table_ref std sel)"
  unfolding parse_table_ref_def by (intro parse_rules parses_pif; simp)

lemma literal_item_total [parse_rules]: "within n sel \<Longrightarrow> total n (literal_item std sel)"
  unfolding literal_item_def by (intro parse_rules; simp add: within_pred)

lemma ignored_casts_total [parse_rules]: "total n (ignored_casts std)"
  unfolding ignored_casts_def by (intro parse_rules; simp)

lemma parses_by_peek: "(\<And>v. parses P n (f v)) \<Longrightarrow> parses P n (\<lambda>ts. f (g ts) ts)"
  unfolding parses_def by blast

lemma parses_case_peek:
  "(\<And>x. parses P n (f x)) \<Longrightarrow> parses P n q \<Longrightarrow> parses P n (\<lambda>ts. case g ts of Some x \<Rightarrow> f x ts | None \<Rightarrow> q ts)"
  using parses_by_peek [of P n "\<lambda>v. case v of Some x \<Rightarrow> f x | None \<Rightarrow> q" g]
  by (simp add: option.case_distrib [of "\<lambda>h. h _"] split: option.split)

lemma item_total [parse_rules]: "within n sel \<Longrightarrow> total n (parse_item std sel)"
  unfolding parse_item_def
  by (rule parses_pif, intro parse_rules, simp, rule parses_subquery, assumption, (intro parse_rules; simp),
      rule parses_pif, (intro parse_rules; simp), rule parses_case_peek)
    (intro parse_rules parses_pif; simp)+

lemma join_kind_strict: "parses (\<lambda>k. k \<noteq> None) n (parse_join_kind std)"
  unfolding parse_join_kind_def by (intro parse_rules; simp)

lemma joins_total [parse_rules]:
  assumes "within n sel"
  shows "total n (parse_joins std sel)"
  unfolding parse_joins_def
proof (rule parses_loop, rule parses_bind_strict [OF join_kind_strict])
  fix js :: "join_clause list" and kind :: "join_kind option"
  assume "kind \<noteq> None" "0 < n"
  then show "total (n - 1) (case kind of None \<Rightarrow> break_with js
     | Some k \<Rightarrow> pbind (parse_table_ref std sel) (\<lambda>r. pthen (expect_kw std ''ON'') (pbind (parse_join_cond std sel) (\<lambda>cond.
         continue_with (js @ [JoinClause k r cond])))))"
    using within_pred [OF assms] by (intro parse_rules) simp_all
qed (simp add: parses_pret)

lemma clause_total [parse_rules]:
  "total n (parse_group_by std)" "total n (parse_order_by std)" "total n (parse_limit std)" "within n pex \<Longrightarrow> total n (parse_where pex)"
  unfolding parse_group_by_def parse_order_by_def parse_limit_def parse_where_def
  by (intro parse_rules; simp add: within_total)+

lemma select_body_total:
  "within n sel \<Longrightarrow> within n pex \<Longrightarrow> total n (parse_select_body std sel pex)"
  unfolding parse_select_body_def by (intro parse_rules; simp add: within_pred)

lemma nested_total: "m < k \<Longrightarrow> total m (parse_select_stmt std k) \<and> total m (parse_expr std k)"
proof (induction k arbitrary: m)
  case (Suc k)
  have w: "within m (parse_select_stmt std k)" "within m (parse_expr std k)"
    using Suc by (auto simp: within_def)
  then have "total m (parse_select_body std (parse_select_stmt std k) (parse_expr std k))"
    by (rule select_body_total)
  then have "total m (parse_select_stmt std (Suc k))"
    unfolding parse_select_stmt.simps by (intro parse_rules)
  moreover have "total m (parse_expr std (Suc k))"
    unfolding parse_expr.simps using w by (rule or_total)
  ultimately show ?case by blast
qed simp

text \<open>Statements.\<close>

lemma select_total [parse_rules]: "total n sel \<Longrightarrow> total n (parse_select std sel)"
  unfolding parse_select_def by (intro parse_rules) (simp_all add: parses_pret split: select_stmt.split)

lemma closed_list_total [parse_rules]: "total n item \<Longrightarrow> total n (closed_list std item)"
  unfolding closed_list_def by (intro parse_rules; simp)

lemma user_name_total [parse_rules]: "total n (parse_user_name std)"
  unfolding parse_user_name_def by (intro parse_rules; simp)

lemma text_literal_total [parse_rules]: "within n sel \<Longrightarrow> total n (text_literal std sel msg)"
  unfolding text_literal_def by (intro parse_rules parses_text_case; simp)

lemma password_total [parse_rules]: "within n sel \<Longrightarrow> total n (parse_password std sel)"
  unfolding parse_password_def by (rule text_literal_total)

lemma grant_total [parse_rules]: "total n (parse_grant std revoke)"
  unfolding parse_grant_def parse_priv_list_def parse_grant_scope_def by (intro parse_rules; simp)

lemma create_parts_total [parse_rules]:
  "total n (if_not_exists std)" "total n (if_exists std)" "total n (paren_ident std)" "total n (parse_fk_action std)"
  "total n (type_length std)" "total n (constraint_name std)" "total n (parse_isolation_level std)" "total n (read_mode b)"
  unfolding if_not_exists_def if_exists_def paren_ident_def parse_fk_action_def type_length_def constraint_name_def parse_isolation_level_def
    read_mode_def
  by (intro parse_rules parses_pif; simp)+

lemma on_actions_total [parse_rules]: "total n (on_actions std)"
  unfolding on_actions_def by (intro parse_rules; simp)

lemma foreign_key_total [parse_rules]: "total n (foreign_key std name)"
  unfolding foreign_key_def by (intro parse_rules; simp)

lemma column_spec_total [parse_rules]: "within n sel \<Longrightarrow> total n (column_def_spec std sel)"
  unfolding column_def_spec_def column_options_def by (intro parse_rules; simp add: within_pred)

lemma table_part_total [parse_rules]: "within n sel \<Longrightarrow> total n (table_part std sel parts)"
  unfolding table_part_def by (intro parse_rules; simp add: within_pred)

lemma create_table_total [parse_rules]: "within n sel \<Longrightarrow> total n (parse_create_table std sel)"
  unfolding parse_create_table_def by (intro parse_rules; simp add: within_pred)

lemma ddl_total:
  "within n sel \<Longrightarrow> total n (parse_create std sel)" "total n (parse_drop std)"
  unfolding parse_create_def parse_drop_def by (intro parse_rules; simp add: within_pred)+

lemma isolation_total [parse_rules]: "total n (isolation_clause std)"
  unfolding isolation_clause_def by (intro parse_rules)

lemma txn_total: "total n (parse_begin std)" "total n (parse_start std)"
  unfolding parse_begin_def parse_start_def by (intro parse_rules parses_pif; simp)+

lemma variable_name_total [parse_rules]: "total n (variable_name std)"
  unfolding variable_name_def by (intro parse_rules; simp)

lemma admin_total:
  assumes "within n sel"
  shows "total n (parse_show std sel)" "total n (parse_archive std sel)" "total n (parse_set std sel)"
    "total n (parse_alter std sel)" "total n (parse_backup std sel)" "total n (parse_check std)"
  unfolding parse_show_def parse_archive_def parse_set_def parse_alter_def parse_backup_def parse_check_def
  using assms by (intro parse_rules parses_pif; simp add: within_pred)+

text \<open>The top level runs \<open>sel\<close> and \<open>pex\<close> on all tokens.\<close>

lemma explain_total:
  assumes "total n sel"
  shows "total n (parse_explain std sel)" "total n (parse_describe std sel)"
  unfolding parse_explain_def parse_describe_def using assms by (intro parse_rules parses_pif; simp)+

lemma data_total:
  assumes "within (Suc n) pex"
  shows "total n (parse_insert std pex)" "total n (parse_update std pex)" "total n (parse_delete std pex)"
proof -
  have "total n pex" "total (n - 1) pex" "within n pex" using assms by (simp_all add: within_def)
  then show "total n (parse_insert std pex)" "total n (parse_update std pex)" "total n (parse_delete std pex)"
    unfolding parse_insert_def parse_update_def parse_delete_def by (intro parse_rules; simp)+
qed

lemma statement_total:
  assumes "within (Suc n) sel" "within (Suc n) pex"
  shows "total n (parse_statement std sel pex)"
proof -
  have w: "within n sel" "total n sel" using assms(1) by (simp_all add: within_def)
  have arms: "total n p" if "(k, p) \<in> set (statement_arms std sel pex)" for k p
    using that ddl_total(1) [OF w(1)] ddl_total(2) data_total [OF assms(2)] txn_total admin_total [OF w(1)] explain_total [OF w(2)]
      select_total [OF w(2)] grant_total
    unfolding statement_arms_def by (auto intro!: parse_rules w(2))
  have "total n (\<lambda>ts. case map_of (statement_arms std sel pex) k of Some p \<Rightarrow> p ts | None \<Rightarrow> fail_at std ''expected statement, got '' ts)" for k
    using arms by (cases "map_of (statement_arms std sel pex) k") (auto simp: parses_fail dest: map_of_SomeD)
  then show ?thesis
    unfolding parse_statement_def by (rule parses_case_peek) (rule parses_fail)
qed

text \<open>C40. The parser always returns: for every text it gives a statement or an error, and never more than the bounds of its
  loops and its recursion allow.\<close>
theorem parse_sql_returns: "\<exists>r. parse_sql std src = Some r"
proof (cases "tokenize src")
  case (Inr ts)
  let ?n = "Suc (length ts)"
  have "within ?n (parse_select_stmt std ?n)" "within ?n (parse_expr std ?n)"
    unfolding within_def using nested_total by blast+
  then have "total (length ts) (parse_statement std (parse_select_stmt std ?n) (parse_expr std ?n))"
    by (rule statement_total)
  then show ?thesis
    using Inr unfolding parse_sql_def parse_tokens_def parses_def by (fastforce simp: Let_def)
qed (simp add: parse_sql_def)

end
