(* ===== verification/Sql_Round_Trip.thy ===== *)
theory Sql_Round_Trip
  imports Sql_Parser
begin

text \<open>
  Printing and parsing: a SELECT statement printed as tokens, with its conjunctions, disjunctions and negations in
  parentheses, parses to itself.

  \<^item> \<open>print_stmt\<close> and its companions give the tokens; \<open>wf_stmt\<close> says which statements the grammar can express: names of one
    or two parts that are no keywords, operands where the grammar wants operands, literals it can write.
  \<^item> The parsers are run on the printed tokens with what follows them; \<open>follow\<close> describes the tokens that may.
\<close>

section \<open>The printer\<close>

fun op_sym :: "cmp_op \<Rightarrow> string" where
  "op_sym Eq = ''=''"
| "op_sym Ne = sym_ne"
| "op_sym Lt = ''<''"
| "op_sym Le = sym_le"
| "op_sym Gt = ''>''"
| "op_sym Ge = sym_ge"

definition name_tokens :: "string \<Rightarrow> token list" where
  "name_tokens c =
     (if CHR ''.'' \<in> set c
      then [Ident (takeWhile (\<lambda>x. x \<noteq> CHR ''.'') c), Sym ''.'', Ident (tl (dropWhile (\<lambda>x. x \<noteq> CHR ''.'') c))]
      else [Ident c])"

definition int_text :: "i64 \<Rightarrow> string" where
  "int_text v = (if sint v < 0 then CHR ''-'' # dec_string (nat (- sint v)) else dec_string (nat (sint v)))"

fun lit_tokens :: "datum \<Rightarrow> token list" where
  "lit_tokens DNull = [Ident ''NULL'']"
| "lit_tokens (DInt v) = [Number (int_text v)]"
| "lit_tokens (DText s) = [Str s]"
| "lit_tokens (DBool b) = [Ident (if b then ''TRUE'' else ''FALSE'')]"
| "lit_tokens _ = []"

fun commas :: "token list list \<Rightarrow> token list" where
  "commas [] = []"
| "commas [x] = x"
| "commas (x # y # ys) = x @ Sym '','' # commas (y # ys)"

definition negation :: "bool \<Rightarrow> token list" where "negation neg = (if neg then [Ident ''NOT''] else [])"

definition alias_tokens :: "string option \<Rightarrow> token list" where
  "alias_tokens al = (case al of None \<Rightarrow> [] | Some a \<Rightarrow> [Ident ''AS'', Ident a])"

definition group_tokens :: "string list \<Rightarrow> token list" where
  "group_tokens gb = (if gb = [] then [] else Ident ''GROUP'' # Ident ''BY'' # commas (map name_tokens gb))"

definition order_key :: "string \<times> bool \<Rightarrow> token list" where
  "order_key k = name_tokens (fst k) @ (if snd k then [Ident ''DESC''] else [])"

definition order_tokens :: "(string \<times> bool) list \<Rightarrow> token list" where
  "order_tokens ob = (if ob = [] then [] else Ident ''ORDER'' # Ident ''BY'' # commas (map order_key ob))"

definition limit_tokens :: "nat option \<Rightarrow> token list" where
  "limit_tokens lim = (case lim of None \<Rightarrow> [] | Some n \<Rightarrow> [Ident ''LIMIT'', Number (dec_string n)])"

fun print_expr :: "expr \<Rightarrow> token list"
  and print_cond :: "expr \<Rightarrow> token list"
  and print_stmt :: "select_stmt \<Rightarrow> token list"
  and print_item :: "select_item \<Rightarrow> token list"
  and print_ref :: "table_ref \<Rightarrow> token list"
  and print_join :: "join_clause \<Rightarrow> token list" where
  "print_expr (EColumn c) = name_tokens c"
| "print_expr (ELiteral d) = lit_tokens d"
| "print_expr (ECmp l c r) = print_expr l @ Sym (op_sym c) # print_expr r"
| "print_expr (EAnd a b) = Sym ''('' # print_expr a @ Ident ''AND'' # print_expr b @ [Sym '')'']"
| "print_expr (EOr a b) = Sym ''('' # print_expr a @ Ident ''OR'' # print_expr b @ [Sym '')'']"
| "print_expr (ENot e) = Ident ''NOT'' # Sym ''('' # print_expr e @ [Sym '')'']"
| "print_expr (EIn e vs neg) = print_expr e @ negation neg @ Ident ''IN'' # Sym ''('' # commas (map lit_tokens vs) @ [Sym '')'']"
| "print_expr (EBetween e lo hi neg) = print_expr e @ negation neg @ Ident ''BETWEEN'' # lit_tokens lo @ Ident ''AND'' # lit_tokens hi"
| "print_expr (ELike e p neg) = print_expr e @ negation neg @ [Ident ''LIKE'', Str p]"
| "print_expr (EInSubquery e q neg) = print_expr e @ negation neg @ Ident ''IN'' # Sym ''('' # print_stmt q @ [Sym '')'']"
| "print_expr (EScalarSubquery q) = Sym ''('' # print_stmt q @ [Sym '')'']"
| "print_expr (EExists q neg) = negation neg @ Ident ''EXISTS'' # Sym ''('' # print_stmt q @ [Sym '')'']"
| "print_cond (EAnd l r) = print_cond l @ Ident ''AND'' # print_expr r"
| "print_cond e = print_expr e"
| "print_stmt (SelectStmt items from joins selection ob lim gb) =
     Ident ''SELECT'' # commas (map print_item items) @ print_ref from @ concat (map print_join joins) @
     (case selection of None \<Rightarrow> [] | Some e \<Rightarrow> Ident ''WHERE'' # print_expr e) @ group_tokens gb @ order_tokens ob @ limit_tokens lim"
| "print_item Star = [Sym ''*'']"
| "print_item (IColumn c) = name_tokens c"
| "print_item CountStar = [Ident ''COUNT'', Sym ''('', Sym ''*'', Sym '')'']"
| "print_item (Aggregate f c) = Ident (agg_name f) # Sym ''('' # name_tokens c @ [Sym '')'']"
| "print_item (ISubquery q al) = Sym ''('' # print_stmt q @ Sym '')'' # alias_tokens al"
| "print_item (ILiteral d) = lit_tokens d"
| "print_item (SysFunc f al) = Ident f # Sym ''('' # Sym '')'' # alias_tokens al"
| "print_ref REmpty = []"
| "print_ref (RTable n) = Ident ''FROM'' # name_tokens n"
| "print_ref (Derived q al) = Ident ''FROM'' # Sym ''('' # print_stmt q @ [Sym '')'', Ident al]"
| "print_join (JoinClause k r cond) =
     (case k of Inner \<Rightarrow> [Ident ''JOIN''] | Left \<Rightarrow> [Ident ''LEFT'', Ident ''JOIN'']) @ tl (print_ref r) @ Ident ''ON'' # print_cond cond"

section \<open>What the grammar can express\<close>

definition reserved :: "string list" where
  "reserved = [''SELECT'', ''FROM'', ''WHERE'', ''GROUP'', ''ORDER'', ''BY'', ''LIMIT'', ''JOIN'', ''INNER'', ''LEFT'', ''OUTER'', ''ON'', ''AS'',
     ''AND'', ''OR'', ''NOT'', ''EXISTS'', ''IN'', ''LIKE'', ''BETWEEN'', ''TRUE'', ''FALSE'', ''NULL'', ''COUNT'', ''SUM'', ''AVG'', ''MIN'', ''MAX'',
     ''DESC'', ''ASC'']"

definition plain_ident :: "string \<Rightarrow> bool" where
  "plain_ident s \<longleftrightarrow> map ascii_upper s \<notin> set reserved \<and> CHR ''.'' \<notin> set s"

definition wf_name :: "string \<Rightarrow> bool" where
  "wf_name c \<longleftrightarrow> (plain_ident c \<or> (\<exists>a b. c = a @ ''.'' @ b \<and> plain_ident a \<and> plain_ident b))"

fun wf_lit :: "datum \<Rightarrow> bool" where
  "wf_lit (DFloat _) = False"
| "wf_lit (DDateTime _) = False"
| "wf_lit _ = True"

fun value_operand :: "expr \<Rightarrow> bool" where
  "value_operand (EColumn c) = wf_name c"
| "value_operand (ELiteral d) = wf_lit d"
| "value_operand _ = False"

fun comparable :: "expr \<Rightarrow> expr \<Rightarrow> bool" where
  "comparable (EColumn _) (EColumn _) = True"
| "comparable (EColumn _) (ELiteral _) = True"
| "comparable (EColumn _) (EScalarSubquery _) = True"
| "comparable (EScalarSubquery _) (EColumn _) = True"
| "comparable (EScalarSubquery _) (ELiteral _) = True"
| "comparable (EScalarSubquery _) (EScalarSubquery _) = True"
| "comparable _ _ = False"

fun wf_join_cmp :: "expr \<Rightarrow> bool" where
  "wf_join_cmp (EColumn c) = wf_name c"
| "wf_join_cmp (ECmp (EColumn c) c' (EColumn d)) = (wf_name c \<and> wf_name d)"
| "wf_join_cmp (ECmp (EColumn c) c' (ELiteral d)) = (wf_name c \<and> wf_lit d)"
| "wf_join_cmp _ = False"

fun wf_join_cond :: "expr \<Rightarrow> bool" where
  "wf_join_cond (EAnd l r) = (wf_join_cond l \<and> wf_join_cmp r)"
| "wf_join_cond e = wf_join_cmp e"

fun wf_expr :: "expr \<Rightarrow> bool"
  and wf_stmt :: "select_stmt \<Rightarrow> bool"
  and wf_item :: "select_item \<Rightarrow> bool"
  and wf_ref :: "table_ref \<Rightarrow> bool"
  and wf_join :: "join_clause \<Rightarrow> bool" where
  "wf_expr (EColumn c) = wf_name c"
| "wf_expr (ELiteral d) = wf_lit d"
| "wf_expr (ECmp l c r) = (comparable l r \<and> wf_expr l \<and> wf_expr r)"
| "wf_expr (EAnd a b) = (wf_expr a \<and> wf_expr b)"
| "wf_expr (EOr a b) = (wf_expr a \<and> wf_expr b)"
| "wf_expr (ENot e) = wf_expr e"
| "wf_expr (EIn e vs neg) = (value_operand e \<and> vs \<noteq> [] \<and> list_all wf_lit vs)"
| "wf_expr (EBetween e lo hi neg) = (value_operand e \<and> wf_lit lo \<and> wf_lit hi)"
| "wf_expr (ELike e p neg) = value_operand e"
| "wf_expr (EInSubquery e q neg) = (value_operand e \<and> wf_stmt q)"
| "wf_expr (EScalarSubquery q) = wf_stmt q"
| "wf_expr (EExists q neg) = wf_stmt q"
| "wf_stmt (SelectStmt items from joins selection ob lim gb) =
     (items \<noteq> [] \<and> list_all wf_item items \<and> wf_ref from \<and> list_all wf_join joins \<and>
      (case selection of None \<Rightarrow> True | Some e \<Rightarrow> wf_expr e) \<and> list_all wf_name gb \<and> list_all (\<lambda>k. wf_name (fst k)) ob \<and>
      (case lim of None \<Rightarrow> True | Some n \<Rightarrow> n < 2 ^ 64))"
| "wf_item (IColumn c) = wf_name c"
| "wf_item (Aggregate f c) = wf_name c"
| "wf_item (ISubquery q al) = (wf_stmt q \<and> (case al of None \<Rightarrow> True | Some a \<Rightarrow> plain_ident a))"
| "wf_item (ILiteral d) = (case d of DInt _ \<Rightarrow> True | DText _ \<Rightarrow> True | _ \<Rightarrow> False)"
| "wf_item (SysFunc f al) = (plain_ident f \<and> (case al of None \<Rightarrow> True | Some a \<Rightarrow> plain_ident a))"
| "wf_item Star = True"
| "wf_item CountStar = True"
| "wf_ref REmpty = True"
| "wf_ref (RTable n) = wf_name n"
| "wf_ref (Derived q al) = (wf_stmt q \<and> plain_ident al)"
| "wf_join (JoinClause k r cond) = (r \<noteq> REmpty \<and> wf_ref r \<and> wf_join_cond cond)"

section \<open>Running parsers\<close>

text \<open>\<open>runs p ts x r\<close>: \<open>p\<close> reads \<open>x\<close> from \<open>ts\<close> and leaves \<open>r\<close>.\<close>

definition runs :: "'a parser \<Rightarrow> token list \<Rightarrow> 'a \<Rightarrow> token list \<Rightarrow> bool" where
  "runs p ts x r \<longleftrightarrow> p ts = Some (Inr (x, r))"

named_theorems run_rules \<open>what a combinator reads\<close>

lemma runs_pret [run_rules]: "runs (pret x) ts x ts"
  by (simp add: runs_def pret_def)

lemma runs_bind [run_rules]: "runs p ts x r \<Longrightarrow> runs (f x) r y r' \<Longrightarrow> runs (pbind p f) ts y r'"
  by (simp add: runs_def pbind_def)

lemma runs_then [run_rules]: "runs p ts x r \<Longrightarrow> runs q r y r' \<Longrightarrow> runs (pthen p q) ts y r'"
  by (simp add: pthen_def runs_bind)

lemma runs_pif_yes: "b ts \<Longrightarrow> runs p ts x r \<Longrightarrow> runs (pif b p q) ts x r"
  by (simp add: runs_def pif_def)

lemma runs_pif_no: "\<not> b ts \<Longrightarrow> runs q ts x r \<Longrightarrow> runs (pif b p q) ts x r"
  by (simp add: runs_def pif_def)

lemma runs_next [run_rules]: "runs pnext (t # ts) t ts"
  by (simp add: runs_def pnext_def peek_def)

lemma runs_advance [run_rules]: "runs advance (t # ts) () ts"
  by (simp add: runs_def advance_def)

lemma at_sym_Cons [simp]: "at_sym c (t # ts) \<longleftrightarrow> t = Sym c"
  by (simp add: at_sym_def peek_def)

lemma at_kw_Cons [simp]: "at_kw k (t # ts) \<longleftrightarrow> kw t = Some k"
  by (simp add: at_kw_def peek_def)

lemma kw_Sym [simp]: "kw (Sym c) = None" and kw_Str [simp]: "kw (Str s) = None" and kw_Number [simp]: "kw (Number n) = None"
  by (simp_all add: kw_def)

lemma runs_eat_sym_yes: "runs p ts x r \<Longrightarrow> runs (eat_sym c p q) (Sym c # ts) x r"
  by (simp add: runs_def eat_sym_def)

lemma runs_eat_sym_no: "\<not> at_sym c ts \<Longrightarrow> runs q ts x r \<Longrightarrow> runs (eat_sym c p q) ts x r"
  by (simp add: runs_def eat_sym_def)

lemma runs_eat_kw_yes: "kw t = Some k \<Longrightarrow> runs p ts x r \<Longrightarrow> runs (eat_kw k p q) (t # ts) x r"
  by (simp add: runs_def eat_kw_def)

lemma runs_eat_kw_no: "\<not> at_kw k ts \<Longrightarrow> runs q ts x r \<Longrightarrow> runs (eat_kw k p q) ts x r"
  by (simp add: runs_def eat_kw_def)

lemma runs_expect_sym [run_rules]: "runs (expect_sym std c) (Sym c # ts) () ts"
  unfolding expect_sym_def by (rule runs_eat_sym_yes [OF runs_pret])

lemma runs_expect_kw: "kw t = Some k \<Longrightarrow> runs (expect_kw std k) (t # ts) () ts"
  unfolding expect_kw_def by (rule runs_eat_kw_yes [OF _ runs_pret])

lemma runs_expect_ident [run_rules]: "runs (expect_ident std) (Ident s # ts) s ts"
  by (simp add: runs_def expect_ident_def pbind_def pnext_def peek_def pret_def)

lemma runs_cmp_op_yes: "cmp_of_sym (Sym c) = Some cop \<Longrightarrow> runs (p cop) ts x r \<Longrightarrow> runs (parse_cmp_op p q) (Sym c # ts) x r"
  by (simp add: runs_def parse_cmp_op_def peek_def)

lemma runs_cmp_op_no: "cmp_of_sym (peek ts) = None \<Longrightarrow> runs q ts x r \<Longrightarrow> runs (parse_cmp_op p q) ts x r"
  by (simp add: runs_def parse_cmp_op_def)

lemma runs_lift [run_rules]: "v = Inr x \<Longrightarrow> runs (lift_result v) ts x ts"
  by (simp add: runs_def lift_result_def pret_def)

text \<open>The same as rewriting: a parser is computed on the tokens at hand.\<close>

named_theorems run_simps \<open>a parser computed on given tokens\<close>

lemma run_eat [run_simps]:
  "eat_sym c p q ts = (if at_sym c ts then p (tl ts) else q ts)" "eat_kw k p q ts = (if at_kw k ts then p (tl ts) else q ts)"
  "pif b p q ts = (if b ts then p ts else q ts)"
  by (simp_all add: eat_sym_def eat_kw_def pif_def)

lemma run_simple [run_simps]:
  "pret x ts = Some (Inr (x, ts))" "pnext (t # ts) = Some (Inr (t, ts))" "advance (t # ts) = Some (Inr ((), ts))" "peek (t # ts) = t"
  "expect_ident std (Ident s # ts) = Some (Inr (s, ts))" "expect_sym std c (Sym c # ts) = Some (Inr ((), ts))"
  "lift_result (Inr x) ts = Some (Inr (x, ts))"
  by (simp_all add: pret_def pnext_def advance_def peek_def expect_ident_def expect_sym_def pbind_def eat_sym_def lift_result_def)

lemma run_expect_kw [run_simps]: "kw t = Some k \<Longrightarrow> expect_kw std k (t # ts) = Some (Inr ((), ts))"
  using runs_expect_kw by (simp add: runs_def)

lemma run_bind [run_simps]: "p ts = Some (Inr (x, r)) \<Longrightarrow> pbind p f ts = f x r" "p ts = Some (Inr (x, r)) \<Longrightarrow> pthen p q ts = q r"
  by (simp_all add: pbind_def pthen_def)

lemma run_has [run_simps]:
  "pthen (has_kw k) q ts = q (if at_kw k ts then tl ts else ts)"
  by (simp add: has_kw_def eat_kw_def pret_def pthen_def pbind_def)

lemma run_cmp_op [run_simps]: "parse_cmp_op p q ts = (case cmp_of_sym (peek ts) of Some c \<Rightarrow> p c (tl ts) | None \<Rightarrow> q ts)"
  by (simp add: parse_cmp_op_def)

text \<open>Loops: a round more in the bound does no harm.\<close>

lemma ploop_mono: "runs (ploop k body s) ts x r \<Longrightarrow> k \<le> k' \<Longrightarrow> runs (ploop k' body s) ts x r"
proof (induction k arbitrary: k' s ts)
  case (Suc k)
  then obtain m where k': "k' = Suc m" "k \<le> m" by (cases k') auto
  show ?case
  proof (cases "body s ts")
    case (Some v)
    then show ?thesis
      using Suc.prems(1) Suc.IH [of _ _ m] k' by (auto simp: runs_def pbind_def split: sum.splits prod.splits)
  qed (use Suc.prems(1) in \<open>simp add: runs_def pbind_def\<close>)
qed (simp add: runs_def)

lemma loop_break: "runs (body s) ts (Inr x) r \<Longrightarrow> runs (loop body s) ts x r"
  by (simp add: runs_def loop_def pbind_def pret_def)

lemma loop_continue:
  assumes "runs (body s) ts (Inl s') r" "length r < length ts" "runs (loop body s') r x r'"
  shows "runs (loop body s) ts x r'"
proof -
  have "runs (ploop (length ts) body s') r x r'"
    by (rule ploop_mono [of "Suc (length r)"]) (use assms in \<open>simp_all add: runs_def loop_def\<close>)
  then show ?thesis using assms(1) by (simp add: runs_def loop_def pbind_def)
qed

lemma commas_Cons: "commas (x # xs) = x @ (if xs = [] then [] else Sym '','' # commas xs)"
  by (cases xs) simp_all

lemma comma_loop:
  assumes "\<And>x rest. x \<in> set xs \<Longrightarrow> F rest \<Longrightarrow> runs item (tok x @ rest) x rest"
    and "\<And>ts. F (Sym '','' # ts)" "F rest" "\<not> at_sym '','' rest" "xs \<noteq> []"
  shows "runs (loop (\<lambda>xs. pbind item (\<lambda>x. eat_sym '','' (continue_with (xs @ [x])) (break_with (xs @ [x])))) acc)
    (commas (map tok xs) @ rest) (acc @ xs) rest"
  using assms(1,5)
proof (induction xs arbitrary: acc)
  case (Cons x xs)
  show ?case
  proof (cases "xs = []")
    case True
    then show ?thesis
      using Cons.prems(1) [of x rest] assms(3,4) by (auto intro!: loop_break runs_bind runs_eat_sym_no runs_pret)
  next
    case False
    let ?rest = "commas (map tok xs) @ rest"
    have x: "runs item (tok x @ Sym '','' # ?rest) x (Sym '','' # ?rest)"
      using Cons.prems(1) [of x] assms(2) by simp
    have "runs (loop (\<lambda>xs. pbind item (\<lambda>x. eat_sym '','' (continue_with (xs @ [x])) (break_with (xs @ [x])))) (acc @ [x])) ?rest ((acc @ [x]) @ xs) rest"
      by (rule Cons.IH) (use Cons.prems False in auto)
    moreover have "runs (pbind item (\<lambda>x. eat_sym '','' (continue_with (acc @ [x])) (break_with (acc @ [x])))) (tok x @ Sym '','' # ?rest)
       (Inl (acc @ [x])) ?rest"
      by (rule runs_bind [OF x]) (rule runs_eat_sym_yes [OF runs_pret])
    ultimately show ?thesis using False by (auto simp: commas_Cons intro: loop_continue)
  qed
qed simp

lemma runs_comma_list:
  assumes "\<And>x rest. x \<in> set xs \<Longrightarrow> F rest \<Longrightarrow> runs item (tok x @ rest) x rest"
    and "\<And>ts. F (Sym '','' # ts)" "F rest" "\<not> at_sym '','' rest" "xs \<noteq> []"
  shows "runs (comma_list item) (commas (map tok xs) @ rest) xs rest"
  using comma_loop [of xs F item tok rest "[]", OF assms] by (simp add: comma_list_def)

section \<open>Keywords, names and literals\<close>

lemma kw_lits [simp]:
  "kw (Ident ''SELECT'') = Some ''SELECT''" "kw (Ident ''FROM'') = Some ''FROM''" "kw (Ident ''WHERE'') = Some ''WHERE''"
  "kw (Ident ''GROUP'') = Some ''GROUP''" "kw (Ident ''ORDER'') = Some ''ORDER''" "kw (Ident ''BY'') = Some ''BY''"
  "kw (Ident ''LIMIT'') = Some ''LIMIT''" "kw (Ident ''JOIN'') = Some ''JOIN''" "kw (Ident ''LEFT'') = Some ''LEFT''"
  "kw (Ident ''ON'') = Some ''ON''" "kw (Ident ''AS'') = Some ''AS''" "kw (Ident ''AND'') = Some ''AND''" "kw (Ident ''OR'') = Some ''OR''"
  "kw (Ident ''NOT'') = Some ''NOT''" "kw (Ident ''EXISTS'') = Some ''EXISTS''" "kw (Ident ''IN'') = Some ''IN''"
  "kw (Ident ''LIKE'') = Some ''LIKE''" "kw (Ident ''BETWEEN'') = Some ''BETWEEN''" "kw (Ident ''TRUE'') = Some ''TRUE''"
  "kw (Ident ''FALSE'') = Some ''FALSE''" "kw (Ident ''NULL'') = Some ''NULL''" "kw (Ident ''COUNT'') = Some ''COUNT''"
  "kw (Ident ''DESC'') = Some ''DESC''" "kw (Ident (agg_name f)) = Some (agg_name f)"
  by (simp_all add: kw_def ascii_upper_def) (cases f; simp add: ascii_upper_def)

lemma plain_kw:
  assumes "plain_ident s" "k \<in> set reserved"
  shows "kw (Ident s) \<noteq> Some k"
  using assms by (auto simp: plain_ident_def kw_def)

text \<open>What may come behind an operand, and behind a clause of a statement.\<close>

definition closes :: "token list \<Rightarrow> bool" where
  "closes ts \<longleftrightarrow> peek ts \<in> {Eof, Sym '')'', Sym '';''}"

definition follow :: "token list \<Rightarrow> bool" where
  "follow ts \<longleftrightarrow> closes ts \<or> at_sym '','' ts \<or>
     (\<exists>k \<in> {''FROM'', ''INNER'', ''LEFT'', ''JOIN'', ''WHERE'', ''GROUP'', ''ORDER'', ''LIMIT'', ''ON'', ''AND'', ''OR''}. at_kw k ts)"

lemma followD:
  assumes "follow ts"
  shows "\<not> at_sym ''.'' ts" "\<not> at_sym '':'' ts" "\<not> at_sym ''('' ts" "cmp_of_sym (peek ts) = None" "\<not> at_sym ''='' ts" "\<not> at_sym sym_ne ts"
    "\<not> at_kw ''BETWEEN'' ts" "\<not> at_kw ''NOT'' ts" "\<not> at_kw ''IN'' ts" "\<not> at_kw ''LIKE'' ts" "\<not> at_kw ''AS'' ts" "\<not> at_kw ''DESC'' ts" "\<not> at_kw ''ASC'' ts"
  using assms
  by (auto simp: follow_def closes_def at_sym_def at_kw_def kw_def sym_ne_def sym_le_def sym_ge_def split: token.splits)

lemma follow_tokens [simp]:
  "follow (Sym '')'' # ts)" "follow (Sym '','' # ts)" "follow (Ident ''AND'' # ts)" "follow (Ident ''OR'' # ts)" "follow (Ident ''ON'' # ts)"
  by (simp_all add: follow_def closes_def peek_def)

lemma wf_name_cases:
  assumes "wf_name c"
  obtains "plain_ident c" "name_tokens c = [Ident c]"
  | a b where "c = a @ ''.'' @ b" "plain_ident a" "plain_ident b" "name_tokens c = [Ident a, Sym ''.'', Ident b]"
proof -
  have dotted: "name_tokens (a @ ''.'' @ b) = [Ident a, Sym ''.'', Ident b]" if "plain_ident a" for a b
    using that by (auto simp: name_tokens_def plain_ident_def takeWhile_append dropWhile_append)
  show ?thesis
    using assms that dotted unfolding wf_name_def by (auto simp: name_tokens_def plain_ident_def)
qed

lemma name_tokens_head:
  assumes "wf_name c"
  obtains s ts where "name_tokens c = Ident s # ts" "plain_ident s"
  using assms by (cases rule: wf_name_cases) auto

lemma runs_col_ref: "wf_name c \<Longrightarrow> \<not> at_sym ''.'' rest \<Longrightarrow> runs (parse_col_ref std) (name_tokens c @ rest) c rest"
  by (erule wf_name_cases) (simp_all add: runs_def parse_col_ref_def run_simps)

lemma parse_int_text: "parse_i64 (int_text v) = Some v"
proof -
  have b: "- (2 ^ 63) \<le> sint v" "sint v < 2 ^ 63" using sint_greater_eq [of v] sint_less [of v] by simp_all
  have d: "parse_digits (dec_string n) = Some n" for n using dec_string_digits [of n] by (simp add: parse_digits_def)
  have nd: "dec_string n \<noteq> []" "hd (dec_string n) \<noteq> CHR ''-''" "hd (dec_string n) \<noteq> CHR ''+''" for n
    using dec_string_digits [of n] digit_not [of "hd (dec_string n)"] by (auto simp: list_all_iff)
  show ?thesis
  proof (cases "sint v < 0")
    case True
    have "- word_of_nat (nat (- sint v)) = v"
    proof -
      have "(of_nat (nat (- sint v)) :: i64) = of_int (- sint v)" using True by (simp add: of_nat_nat)
      then show ?thesis by simp
    qed
    then show ?thesis using True b by (simp add: parse_i64_def int_text_def d nat_le_iff)
  next
    case False
    have "word_of_nat (nat (sint v)) = v" using False by (simp add: of_nat_nat)
    then show ?thesis using False b nd [of "nat (sint v)"] by (simp add: parse_i64_def int_text_def d nat_less_iff)
  qed
qed

lemma int_text_no_dot: "CHR ''.'' \<notin> set (int_text v)"
  using dec_string_digits digits_free [of "dec_string n" "CHR ''.''" for n] not_digits(3) by (auto simp: int_text_def)

section \<open>Operands\<close>

lemma runs_no_cast: "\<not> at_sym '':'' rest \<Longrightarrow> runs (cast_loop std e) rest e rest"
  unfolding cast_loop_def by (rule loop_break) (simp add: runs_def run_simps)

definition starts_value :: "token list \<Rightarrow> bool" where
  "starts_value ts \<longleftrightarrow> (\<exists>t r. ts = t # r \<and> (\<forall>c. t \<noteq> Sym c) \<and> t \<noteq> Eof \<and> kw t \<notin> {Some ''NOT'', Some ''EXISTS'', Some ''SELECT''})"

lemma starts_name: "wf_name c \<Longrightarrow> starts_value (name_tokens c @ rest)"
proof (erule name_tokens_head)
  fix s ts
  assume "name_tokens c = Ident s # ts" "plain_ident s"
  then show ?thesis
    using plain_kw [of s] by (auto simp: starts_value_def reserved_def)
qed

lemma starts_lit: "wf_lit d \<Longrightarrow> starts_value (lit_tokens d @ rest)"
  by (cases d) (auto simp: starts_value_def)

lemma starts_operand: "value_operand e \<Longrightarrow> starts_value (print_expr e @ rest)"
  by (cases e) (simp_all add: starts_name starts_lit)

lemma not_at_starts:
  assumes "starts_value ts"
  shows "\<not> at_sym c ts" "\<not> at_subquery ts" "\<not> at_kw ''NOT'' ts" "\<not> at_kw ''EXISTS'' ts" "\<not> at_kw ''SELECT'' ts"
  using assms by (auto simp: starts_value_def at_subquery_def)

lemma base_column: "wf_name c \<Longrightarrow> \<not> at_sym ''.'' rest \<Longrightarrow> \<exists>t r. name_tokens c @ rest = t # r \<and> base_operand std t r = Some (Inr (EColumn c, rest))"
proof (erule wf_name_cases)
  assume c: "plain_ident c" "name_tokens c = [Ident c]" "\<not> at_sym ''.'' rest"
  then show ?thesis
    using plain_kw [of c] by (simp add: base_operand_def Let_def run_simps reserved_def kw_def)
next
  fix a b
  assume c: "c = a @ ''.'' @ b" "plain_ident a" "name_tokens c = [Ident a, Sym ''.'', Ident b]"
  then show ?thesis
    using plain_kw [of a] by (simp add: base_operand_def Let_def run_simps reserved_def kw_def)
qed

lemma base_literal: "wf_lit d \<Longrightarrow> \<exists>t r. lit_tokens d @ rest = t # r \<and> base_operand std t r = Some (Inr (ELiteral d, rest))"
  by (cases d) (auto simp: base_operand_def Let_def run_simps number_literal_def int_text_no_dot parse_int_text ascii_upper_def)

lemma runs_operand:
  assumes "value_operand e" "\<not> at_sym ''.'' rest" "\<not> at_sym '':'' rest"
  shows "runs (parse_operand std sel) (print_expr e @ rest) e rest"
proof -
  have "\<exists>t r. print_expr e @ rest = t # r \<and> base_operand std t r = Some (Inr (e, rest))"
    using assms base_column [of _ rest std] base_literal [of _ rest std] by (cases e) simp_all
  then obtain t r where t: "print_expr e @ rest = t # r" "base_operand std t r = Some (Inr (e, rest))" by blast
  then show ?thesis
    using not_at_starts(2) [OF starts_operand [OF assms(1), of rest]] runs_no_cast [OF assms(3), of std e]
    by (simp add: runs_def parse_operand_def run_simps)
qed

lemma runs_literal:
  assumes "wf_lit d" "\<not> at_sym '':'' rest"
  shows "runs (parse_literal_operand std sel) (lit_tokens d @ rest) d rest"
proof -
  obtain t r where t: "lit_tokens d @ rest = t # r" "base_operand std t r = Some (Inr (ELiteral d, rest))"
    using base_literal [OF assms(1), of rest std] by blast
  have "runs (parse_operand std sel) (lit_tokens d @ rest) (ELiteral d) rest"
    using t not_at_starts(2) [OF starts_lit [OF assms(1), of rest]] runs_no_cast [OF assms(2), of std "ELiteral d"]
    by (simp add: runs_def parse_operand_def run_simps)
  then show ?thesis by (simp add: runs_def parse_literal_operand_def run_simps)
qed

text \<open>The parser of nested statements reads \<open>q\<close> up to the closing parenthesis.\<close>

definition reads_stmt :: "select_stmt parser \<Rightarrow> select_stmt \<Rightarrow> bool" where
  "reads_stmt sel q \<longleftrightarrow> (\<forall>rest. runs sel (print_stmt q @ Sym '')'' # rest) q (Sym '')'' # rest))"

lemma print_stmt_head: "\<exists>ts. print_stmt q = Ident ''SELECT'' # ts"
  by (cases q) simp

lemma at_subquery_print: "at_subquery (Sym ''('' # print_stmt q @ rest)"
  using print_stmt_head [of q] by (auto simp: at_subquery_def peek_kw_at_def)

lemma run_paren_query: "reads_stmt sel q \<Longrightarrow> paren_query std sel (Sym ''('' # print_stmt q @ Sym '')'' # rest) = Some (Inr (q, rest))"
  by (simp add: paren_query_def reads_stmt_def runs_def run_simps)

lemma runs_scalar: "reads_stmt sel q \<Longrightarrow> runs (parse_operand std sel) (Sym ''('' # print_stmt q @ Sym '')'' # rest) (EScalarSubquery q) rest"
  by (simp add: runs_def parse_operand_def run_simps at_subquery_print run_paren_query)

lemma run_exists_body: "reads_stmt sel q \<Longrightarrow> parse_exists_body std sel (Sym ''('' # print_stmt q @ Sym '')'' # rest) = Some (Inr (q, rest))"
  using print_stmt_head [of q] by (auto simp: parse_exists_body_def reads_stmt_def runs_def run_simps)

section \<open>Predicates\<close>

lemma cmp_of_op_sym [simp]: "cmp_of_sym (Sym (op_sym c)) = Some c"
  by (cases c) (simp_all add: sym_ne_def sym_le_def sym_ge_def)

lemma op_sym_no_mark [simp]: "op_sym c \<noteq> ''.''" "op_sym c \<noteq> '':''"
  by (cases c; simp add: sym_ne_def sym_le_def sym_ge_def)+

lemma cmp_of_other [simp]: "cmp_of_sym (Ident s) = None" "cmp_of_sym Eof = None" "cmp_of_sym (Sym '')'') = None" "cmp_of_sym (Sym '','') = None"
  by (simp_all add: sym_ne_def sym_le_def sym_ge_def)

declare cmp_of_sym.simps [simp del]

lemma predicate_value:
  assumes "starts_value ts"
  shows "parse_predicate std sel pex ts = parse_cmp_tail std sel ts"
  using not_at_starts [OF assms] by (simp add: parse_predicate_def run_simps)

lemma comparable_operands: "comparable l r \<Longrightarrow> compare_operands l c r = Inr (ECmp l c r)"
  by (cases "(l, r)" rule: comparable.cases) (simp_all add: compare_operands_def)

definition operand_reads :: "select_stmt parser \<Rightarrow> expr \<Rightarrow> bool" where
  "operand_reads sel e \<longleftrightarrow> value_operand e \<or> (\<exists>q. e = EScalarSubquery q \<and> reads_stmt sel q)"

lemma run_operand:
  assumes "operand_reads sel e" "\<not> at_sym ''.'' rest" "\<not> at_sym '':'' rest"
  shows "parse_operand std sel (print_expr e @ rest) = Some (Inr (e, rest))"
  using assms runs_operand [of e rest std sel] runs_scalar [of sel _ std rest] by (auto simp: operand_reads_def runs_def)

lemma run_compare:
  assumes "comparable l r" "operand_reads sel l" "operand_reads sel r" "follow rest"
  shows "parse_predicate std sel pex (print_expr (ECmp l c r) @ rest) = Some (Inr (ECmp l c r, rest))"
proof -
  have r: "parse_operand std sel (print_expr r @ rest) = Some (Inr (r, rest))"
    using run_operand [OF assms(3)] followD [OF assms(4)] by blast
  show ?thesis
  proof (cases "value_operand l")
    case True
    have "parse_operand std sel (print_expr l @ Sym (op_sym c) # print_expr r @ rest) = Some (Inr (l, Sym (op_sym c) # print_expr r @ rest))"
      by (rule run_operand [OF assms(2)]) simp_all
    then show ?thesis
      using predicate_value [OF starts_operand [OF True]] r comparable_operands [OF assms(1)] by (simp add: parse_cmp_tail_def run_simps)
  next
    case False
    then obtain q where q: "l = EScalarSubquery q" "reads_stmt sel q" using assms(2) by (auto simp: operand_reads_def)
    have "compare_scalar std q c r = Inr (ECmp l c r)"
      using assms(1) q(1) by (cases r) (simp_all add: compare_scalar_def)
    then show ?thesis
      using r run_paren_query [OF q(2), of std "Sym (op_sym c) # print_expr r @ rest"]
      by (simp add: parse_predicate_def run_simps at_subquery_print q(1))
  qed
qed

lemma run_value:
  assumes "value_operand e" "follow rest"
  shows "parse_predicate std sel pex (print_expr e @ rest) = Some (Inr (e, rest))"
  using run_operand [of sel e rest std] assms followD [OF assms(2)] predicate_value [OF starts_operand [OF assms(1)]]
  by (simp add: parse_cmp_tail_def run_simps operand_reads_def)

lemma run_scalar_predicate:
  assumes "reads_stmt sel q" "follow rest"
  shows "parse_predicate std sel pex (print_expr (EScalarSubquery q) @ rest) = Some (Inr (EScalarSubquery q, rest))"
  using assms followD [OF assms(2)] by (simp add: parse_predicate_def run_simps at_subquery_print run_paren_query)

lemma run_exists: "reads_stmt sel q \<Longrightarrow> parse_predicate std sel pex (print_expr (EExists q False) @ rest) = Some (Inr (EExists q False, rest))"
  by (simp add: parse_predicate_def run_simps negation_def run_exists_body)

lemma run_paren:
  assumes "\<not> at_kw ''SELECT'' (ts @ Sym '')'' # rest)" "pex (ts @ Sym '')'' # rest) = Some (Inr (e, Sym '')'' # rest))"
  shows "parse_predicate std sel pex (Sym ''('' # ts @ Sym '')'' # rest) = Some (Inr (e, rest))"
  using assms by (cases ts) (simp_all add: parse_predicate_def run_simps at_subquery_def peek_kw_at_def)

text \<open>\<open>first [NOT] tail\<close>: the operand is read, and no comparison follows.\<close>

lemma run_tail_operand:
  assumes "value_operand e" "t = Ident k" "k \<in> {''NOT'', ''IN'', ''LIKE'', ''BETWEEN''}"
  shows "parse_operand std sel (print_expr e @ t # ts) = Some (Inr (e, t # ts))"
  using run_operand [of sel e "t # ts" std] assms by (simp add: operand_reads_def)

definition more_items :: "token list list \<Rightarrow> token list" where
  "more_items xs = (if xs = [] then [] else Sym '','' # commas xs)"

lemma more_items_simps: "more_items [] = []" "more_items (x # xs) = Sym '','' # x @ more_items xs" "commas (x # xs) = x @ more_items xs"
  by (simp_all add: more_items_def commas_Cons)

lemma more_items_mark: "\<not> at_sym '':'' (more_items xs @ Sym '')'' # rest)"
  by (cases xs) (simp_all add: more_items_simps)

definition in_list_loop :: "std_text \<Rightarrow> select_stmt parser \<Rightarrow> datum list \<Rightarrow> datum list parser" where
  "in_list_loop std sel = loop (\<lambda>vs. eat_sym '','' (pbind (parse_literal_operand std sel) (\<lambda>x. continue_with (vs @ [x]))) (break_with vs))"

lemma run_in_list_loop:
  "list_all wf_lit vs \<Longrightarrow> runs (in_list_loop std sel acc) (more_items (map lit_tokens vs) @ Sym '')'' # rest) (acc @ vs) (Sym '')'' # rest)"
proof (induction vs arbitrary: acc)
  case Nil
  show ?case
    unfolding in_list_loop_def by (rule loop_break) (simp add: runs_def run_simps more_items_simps)
next
  case (Cons v vs)
  let ?r = "more_items (map lit_tokens vs) @ Sym '')'' # rest"
  have "parse_literal_operand std sel (lit_tokens v @ ?r) = Some (Inr (v, ?r))"
    using runs_literal [of v ?r std sel] Cons.prems by (simp add: runs_def more_items_mark)
  then have step: "runs (eat_sym '','' (pbind (parse_literal_operand std sel) (\<lambda>x. continue_with (acc @ [x]))) (break_with acc))
      (Sym '','' # lit_tokens v @ ?r) (Inl (acc @ [v])) ?r"
    by (simp add: runs_def run_simps)
  have ih: "runs (in_list_loop std sel (acc @ [v])) ?r ((acc @ [v]) @ vs) (Sym '')'' # rest)"
    by (rule Cons.IH) (use Cons.prems in simp)
  have "runs (in_list_loop std sel acc) (Sym '','' # lit_tokens v @ ?r) ((acc @ [v]) @ vs) (Sym '')'' # rest)"
    unfolding in_list_loop_def by (rule loop_continue, rule step, simp, rule ih [unfolded in_list_loop_def])
  then show ?case by (simp add: more_items_simps)
qed

lemma run_in_list:
  assumes "list_all wf_lit vs" "vs \<noteq> []"
  shows "parse_in_list std sel (Sym ''('' # commas (map lit_tokens vs) @ Sym '')'' # rest) = Some (Inr (vs, rest))"
proof -
  obtain v vs' where vs: "vs = v # vs'" using assms(2) by (cases vs) auto
  let ?r = "more_items (map lit_tokens vs') @ Sym '')'' # rest"
  have "parse_literal_operand std sel (lit_tokens v @ ?r) = Some (Inr (v, ?r))"
    using runs_literal [of v ?r std sel] assms(1) vs by (simp add: runs_def more_items_mark)
  moreover have "in_list_loop std sel [v] ?r = Some (Inr (vs, Sym '')'' # rest))"
    using run_in_list_loop [of vs' std sel "[v]" rest] assms(1) vs by (simp add: runs_def)
  ultimately show ?thesis
    unfolding parse_in_list_def in_list_loop_def [symmetric] by (simp add: run_simps vs more_items_simps)
qed

lemma run_between:
  assumes "wf_lit lo" "wf_lit hi" "follow rest"
  shows "parse_between_bounds std sel (lit_tokens lo @ Ident ''AND'' # lit_tokens hi @ rest) = Some (Inr ((lo, hi), rest))"
proof -
  have "parse_literal_operand std sel (lit_tokens lo @ Ident ''AND'' # lit_tokens hi @ rest) = Some (Inr (lo, Ident ''AND'' # lit_tokens hi @ rest))"
    using runs_literal [OF assms(1)] by (simp add: runs_def)
  moreover have "parse_literal_operand std sel (lit_tokens hi @ rest) = Some (Inr (hi, rest))"
    using runs_literal [OF assms(2)] followD [OF assms(3)] by (simp add: runs_def)
  ultimately show ?thesis by (simp add: parse_between_bounds_def run_simps)
qed

lemma not_at_subquery_list:
  "wf_lit v \<Longrightarrow> \<not> at_subquery (Sym ''('' # commas (map lit_tokens (v # vs)) @ rest)"
  by (cases v) (auto simp: at_subquery_def peek_kw_at_def more_items_simps)

lemma run_in:
  assumes "value_operand e" "list_all wf_lit vs" "vs \<noteq> []"
  shows "parse_predicate std sel pex (print_expr (EIn e vs neg) @ rest) = Some (Inr (EIn e vs neg, rest))"
proof -
  obtain v vs' where vs: "vs = v # vs'" "wf_lit v" using assms(2,3) by (cases vs) auto
  let ?list = "Sym ''('' # commas (map lit_tokens vs) @ Sym '')'' # rest"
  have "parse_in_tail std sel e n ?list = Some (Inr (EIn e vs n, rest))" for n
    using not_at_subquery_list [OF vs(2), of vs' "Sym '')'' # rest"] run_in_list [OF assms(2,3)] vs(1) by (simp add: parse_in_tail_def run_simps)
  moreover have "parse_operand std sel (print_expr e @ negation neg @ Ident ''IN'' # ?list) = Some (Inr (e, negation neg @ Ident ''IN'' # ?list))"
    by (cases neg) (simp_all add: negation_def run_tail_operand [OF assms(1)])
  ultimately show ?thesis
    using predicate_value [OF starts_operand [OF assms(1)]] by (cases neg) (simp_all add: parse_cmp_tail_def run_simps negation_def)
qed

lemma run_in_subquery:
  assumes "value_operand e" "reads_stmt sel q"
  shows "parse_predicate std sel pex (print_expr (EInSubquery e q neg) @ rest) = Some (Inr (EInSubquery e q neg, rest))"
proof -
  let ?list = "Sym ''('' # print_stmt q @ Sym '')'' # rest"
  have "parse_in_tail std sel e n ?list = Some (Inr (EInSubquery e q n, rest))" for n
    by (simp add: parse_in_tail_def run_simps at_subquery_print run_paren_query [OF assms(2)])
  moreover have "parse_operand std sel (print_expr e @ negation neg @ Ident ''IN'' # ?list) = Some (Inr (e, negation neg @ Ident ''IN'' # ?list))"
    by (cases neg) (simp_all add: negation_def run_tail_operand [OF assms(1)])
  ultimately show ?thesis
    using predicate_value [OF starts_operand [OF assms(1)]] by (cases neg) (simp_all add: parse_cmp_tail_def run_simps negation_def)
qed

lemma run_between_predicate:
  assumes "value_operand e" "wf_lit lo" "wf_lit hi" "follow rest"
  shows "parse_predicate std sel pex (print_expr (EBetween e lo hi neg) @ rest) = Some (Inr (EBetween e lo hi neg, rest))"
proof -
  let ?b = "lit_tokens lo @ Ident ''AND'' # lit_tokens hi @ rest"
  have "parse_operand std sel (print_expr e @ negation neg @ Ident ''BETWEEN'' # ?b) = Some (Inr (e, negation neg @ Ident ''BETWEEN'' # ?b))"
    by (cases neg) (simp_all add: negation_def run_tail_operand [OF assms(1)])
  then show ?thesis
    using predicate_value [OF starts_operand [OF assms(1)]] run_between [OF assms(2-4), of std sel]
    by (cases neg) (simp_all add: parse_cmp_tail_def run_simps negation_def)
qed

lemma run_like:
  assumes "value_operand e"
  shows "parse_predicate std sel pex (print_expr (ELike e p neg) @ rest) = Some (Inr (ELike e p neg, rest))"
proof -
  have "parse_operand std sel (print_expr e @ negation neg @ Ident ''LIKE'' # Str p # rest) = Some (Inr (e, negation neg @ Ident ''LIKE'' # Str p # rest))"
    by (cases neg) (simp_all add: negation_def run_tail_operand [OF assms(1)])
  then show ?thesis
    using predicate_value [OF starts_operand [OF assms(1)]]
    by (cases neg) (simp_all add: parse_cmp_tail_def run_simps negation_def parse_like_pattern_def)
qed

section \<open>Conjunctions, disjunctions and negations\<close>

lemma run_not_plain: "\<not> at_kw ''NOT'' ts \<Longrightarrow> parse_not std sel pex ts = parse_predicate std sel pex ts"
  by (cases ts) simp_all

lemma print_head:
  assumes "wf_expr e"
  shows "\<not> at_kw ''SELECT'' (print_expr e @ rest)"
proof (cases "value_operand e")
  case True
  then show ?thesis using not_at_starts(5) [OF starts_operand] by blast
next
  case False
  have operands: "\<not> at_kw ''SELECT'' (print_expr l @ ts)" if "value_operand l \<or> (\<exists>q. l = EScalarSubquery q)" for l ts
    using that not_at_starts(5) [OF starts_operand] by auto
  have "value_operand l \<or> (\<exists>q. l = EScalarSubquery q)" if "comparable l r" "wf_expr l" for l r
    using that by (cases "(l, r)" rule: comparable.cases) simp_all
  then show ?thesis
    using assms False operands by (cases e) (auto simp: negation_def)
qed

lemma print_head_not:
  assumes "wf_expr e" "\<And>x. e \<noteq> ENot x" "\<And>q. e \<noteq> EExists q True"
  shows "\<not> at_kw ''NOT'' (print_expr e @ rest)"
proof (cases "value_operand e")
  case True
  then show ?thesis using not_at_starts(3) [OF starts_operand] by blast
next
  case False
  have operands: "\<not> at_kw ''NOT'' (print_expr l @ ts)" if "value_operand l \<or> (\<exists>q. l = EScalarSubquery q)" for l ts
    using that not_at_starts(3) [OF starts_operand] by auto
  have "value_operand l \<or> (\<exists>q. l = EScalarSubquery q)" if "comparable l r" "wf_expr l" for l r
    using that by (cases "(l, r)" rule: comparable.cases) simp_all
  then show ?thesis
    using assms False operands by (cases e) (auto simp: negation_def)
qed

fun inner_tokens :: "expr \<Rightarrow> token list" where
  "inner_tokens (EAnd a b) = print_expr a @ Ident ''AND'' # print_expr b"
| "inner_tokens (EOr a b) = print_expr a @ Ident ''OR'' # print_expr b"
| "inner_tokens e = print_expr e"

definition reads_expr :: "expr parser \<Rightarrow> expr \<Rightarrow> bool" where
  "reads_expr pex e \<longleftrightarrow>
     (\<forall>rest. pex (print_expr e @ Sym '')'' # rest) = Some (Inr (e, Sym '')'' # rest)))"

definition reads_inner :: "expr parser \<Rightarrow> expr \<Rightarrow> bool" where
  "reads_inner pex e \<longleftrightarrow>
     (\<forall>rest. pex (inner_tokens e @ Sym '')'' # rest) = Some (Inr (e, Sym '')'' # rest)))"

lemma run_not:
  assumes "wf_expr e" "follow rest"
    and stmts: "\<And>q. wf_stmt q \<Longrightarrow> length (print_stmt q) < length (print_expr e) \<Longrightarrow> reads_stmt sel q"
    and exprs: "\<And>x. wf_expr x \<Longrightarrow> length (print_expr x) < length (print_expr e) \<Longrightarrow> reads_expr pex x"
    and inners: "\<And>x. wf_expr x \<Longrightarrow> length (inner_tokens x) < length (print_expr e) \<Longrightarrow> reads_inner pex x"
  shows "parse_not std sel pex (print_expr e @ rest) = Some (Inr (e, rest))"
proof (cases e)
  case (EAnd a b)
  then have "reads_inner pex e" using assms(1) by (intro inners) simp_all
  then show ?thesis
    using run_paren [of "inner_tokens e" rest pex e std sel] EAnd assms(1) print_head [of a] by (simp add: reads_inner_def)
next
  case (EOr a b)
  then have "reads_inner pex e" using assms(1) by (intro inners) simp_all
  then show ?thesis
    using run_paren [of "inner_tokens e" rest pex e std sel] EOr assms(1) print_head [of a] by (simp add: reads_inner_def)
next
  case (ENot x)
  then have "reads_expr pex x" using assms(1) by (intro exprs) simp_all
  then show ?thesis
    using run_paren [of "print_expr x" rest pex x std sel] ENot assms(1) print_head [of x] by (simp add: reads_expr_def)
next
  case (EExists q neg)
  then have "reads_stmt sel q" using assms(1) by (intro stmts) simp_all
  then show ?thesis
    using EExists run_exists [of sel q std pex rest] by (cases neg) (simp_all add: negation_def run_simps run_exists_body)
next
  case (ECmp l c r)
  have "operand_reads sel l" "operand_reads sel r"
    using ECmp assms(1) stmts by (cases "(l, r)" rule: comparable.cases; auto simp: operand_reads_def)+
  then show ?thesis
    using ECmp assms(1,2) run_compare print_head_not [OF assms(1)] by (simp add: run_not_plain del: print_expr.simps)
next
  case (EScalarSubquery q)
  then show ?thesis
    using assms(1,2) stmts [of q] run_scalar_predicate print_head_not [OF assms(1)] by (simp add: run_not_plain)
next
  case (EInSubquery x q neg)
  then show ?thesis
    using assms(1) stmts [of q] run_in_subquery print_head_not [OF assms(1)] by (simp add: run_not_plain)
next
  case (EIn x vs neg)
  then show ?thesis using assms(1) run_in print_head_not [OF assms(1)] by (simp add: run_not_plain del: print_expr.simps)
next
  case (EBetween x lo hi neg)
  then show ?thesis
    using assms(1,2) run_between_predicate print_head_not [OF assms(1)] by (simp add: run_not_plain del: print_expr.simps)
next
  case (ELike x pat neg)
  then show ?thesis using assms(1) run_like print_head_not [OF assms(1)] by (simp add: run_not_plain del: print_expr.simps)
next
  case (EColumn c)
  then show ?thesis using assms(1,2) run_value [of e] print_head_not [OF assms(1)] by (simp add: run_not_plain del: print_expr.simps)
next
  case (ELiteral d)
  then show ?thesis using assms(1,2) run_value [of e] print_head_not [OF assms(1)] by (simp add: run_not_plain del: print_expr.simps)
qed

text \<open>The loops over AND and OR, on one operand and on two.\<close>

lemma infix_one:
  assumes "p (ts @ rest) = Some (Inr (a, rest))" "\<not> at_kw k rest"
  shows "pbind p (loop (\<lambda>left. eat_kw k (pbind p (\<lambda>right. continue_with (f left right))) (break_with left))) (ts @ rest) = Some (Inr (a, rest))"
proof -
  have "runs (loop (\<lambda>left. eat_kw k (pbind p (\<lambda>right. continue_with (f left right))) (break_with left)) a) rest a rest"
    by (rule loop_break) (simp add: runs_def run_simps assms(2))
  then show ?thesis using assms(1) by (simp add: runs_def run_simps)
qed

lemma infix_two:
  assumes "p (ts @ t # us @ rest) = Some (Inr (a, t # us @ rest))" "p (us @ rest) = Some (Inr (b, rest))" "kw t = Some k" "\<not> at_kw k rest"
  shows "pbind p (loop (\<lambda>left. eat_kw k (pbind p (\<lambda>right. continue_with (f left right))) (break_with left))) (ts @ t # us @ rest) =
    Some (Inr (f a b, rest))"
proof -
  let ?body = "\<lambda>left. eat_kw k (pbind p (\<lambda>right. continue_with (f left right))) (break_with left)"
  have last: "runs (loop ?body (f a b)) rest (f a b) rest"
    by (rule loop_break) (simp add: runs_def run_simps assms(4))
  have step: "runs (?body a) (t # us @ rest) (Inl (f a b)) rest"
    using assms(2,3) by (simp add: runs_def run_simps)
  have "runs (loop ?body a) (t # us @ rest) (f a b) rest"
    by (rule loop_continue, rule step, simp, rule last)
  then show ?thesis using assms(1) by (simp add: runs_def run_simps)
qed

lemma run_or:
  assumes ok: "\<And>e rest. wf_expr e \<Longrightarrow> length (print_expr e) \<le> n \<Longrightarrow> follow rest \<Longrightarrow> parse_not std sel pex (print_expr e @ rest) = Some (Inr (e, rest))"
    and rest: "follow rest" "\<not> at_kw ''AND'' rest" "\<not> at_kw ''OR'' rest" and e: "wf_expr e"
  shows "length (print_expr e) \<le> n \<Longrightarrow> parse_or std sel pex (print_expr e @ rest) = Some (Inr (e, rest))"
    and "length (inner_tokens e) \<le> n \<Longrightarrow> parse_or std sel pex (inner_tokens e @ rest) = Some (Inr (e, rest))"
proof -
  have conj: "parse_and std sel pex (print_expr a @ r) = Some (Inr (a, r))"
    if "wf_expr a" "length (print_expr a) \<le> n" "follow r" "\<not> at_kw ''AND'' r" for a r
    unfolding parse_and_def by (rule infix_one) (use that ok in simp_all)
  have print: "parse_or std sel pex (print_expr a @ rest) = Some (Inr (a, rest))" if "wf_expr a" "length (print_expr a) \<le> n" for a
    unfolding parse_or_def by (rule infix_one) (use that conj rest in simp_all)
  then show "length (print_expr e) \<le> n \<Longrightarrow> parse_or std sel pex (print_expr e @ rest) = Some (Inr (e, rest))" using e by blast
  assume len: "length (inner_tokens e) \<le> n"
  show "parse_or std sel pex (inner_tokens e @ rest) = Some (Inr (e, rest))"
  proof (cases "(\<exists>a b. e = EAnd a b) \<or> (\<exists>a b. e = EOr a b)")
    case False
    then have "inner_tokens e = print_expr e" by (cases e) auto
    then show ?thesis using print e len by simp
  next
    case True
    then consider a b where "e = EAnd a b" | a b where "e = EOr a b" by blast
    then show ?thesis
    proof cases
      case (1 a b)
      have "parse_and std sel pex (print_expr a @ Ident ''AND'' # print_expr b @ rest) = Some (Inr (EAnd a b, rest))"
        unfolding parse_and_def by (rule infix_two) (use 1 e len rest ok in simp_all)
      then have "parse_and std sel pex (inner_tokens e @ rest) = Some (Inr (e, rest))" using 1 by simp
      then show ?thesis unfolding parse_or_def by (rule infix_one) (rule rest(3))
    next
      case (2 a b)
      have "parse_or std sel pex (print_expr a @ Ident ''OR'' # print_expr b @ rest) = Some (Inr (EOr a b, rest))"
        unfolding parse_or_def by (rule infix_two) (use 2 e len rest conj in simp_all)
      then show ?thesis using 2 by simp
    qed
  qed
qed

section \<open>The clauses of SELECT\<close>

definition clause_kws :: "nat \<Rightarrow> string list" where
  "clause_kws i = concat (drop i [[''FROM''], [''INNER'', ''LEFT'', ''JOIN''], [''WHERE''], [''GROUP''], [''ORDER''], [''LIMIT'']])"

definition clause :: "nat \<Rightarrow> token list \<Rightarrow> bool" where
  "clause i ts \<longleftrightarrow> closes ts \<or> (\<exists>k \<in> set (clause_kws i). at_kw k ts)"

lemma closes_not:
  assumes "closes ts"
  shows "\<not> at_kw k ts" "\<not> at_sym '','' ts" "follow ts"
  using assms by (auto simp: closes_def follow_def at_kw_def at_sym_def kw_def)

lemma clause_mono: "clause j ts \<Longrightarrow> i \<le> j \<Longrightarrow> clause i ts"
  unfolding clause_def clause_kws_def by (auto dest: set_drop_subset_set_drop [THEN subsetD])

lemma clause_not_kw: "clause i ts \<Longrightarrow> k \<notin> set (clause_kws i) \<Longrightarrow> \<not> at_kw k ts"
  by (auto simp: clause_def closes_not) (auto simp: at_kw_def)

lemma clause_follow: "clause i ts \<Longrightarrow> follow ts \<and> \<not> at_kw ''AND'' ts \<and> \<not> at_kw ''OR'' ts \<and> \<not> at_sym '','' ts"
proof -
  assume "clause i ts"
  then have "clause 0 ts" by (rule clause_mono) simp
  then have "closes ts \<or> (\<exists>k \<in> {''FROM'', ''INNER'', ''LEFT'', ''JOIN'', ''WHERE'', ''GROUP'', ''ORDER'', ''LIMIT''}. at_kw k ts)"
    by (simp add: clause_def clause_kws_def)
  then show ?thesis
  proof
    assume "closes ts"
    then show ?thesis using closes_not by blast
  next
    assume "\<exists>k \<in> {''FROM'', ''INNER'', ''LEFT'', ''JOIN'', ''WHERE'', ''GROUP'', ''ORDER'', ''LIMIT''}. at_kw k ts"
    then show ?thesis by (auto simp: follow_def at_kw_def at_sym_def kw_def split: token.splits)
  qed
qed

lemma clause_step:
  "clause 4 ts \<Longrightarrow> clause 3 (group_tokens gb @ ts)" "clause 5 ts \<Longrightarrow> clause 4 (order_tokens ob @ ts)" "clause 6 ts \<Longrightarrow> clause 5 (limit_tokens lim @ ts)"
  "clause 3 ts \<Longrightarrow> clause 2 ((case selection of None \<Rightarrow> [] | Some e \<Rightarrow> Ident ''WHERE'' # print_expr e) @ ts)"
  "clause 1 ts \<Longrightarrow> clause 0 (print_ref from @ ts)" "clause 2 ts \<Longrightarrow> clause 1 (concat (map print_join joins) @ ts)"
proof -
  have kw: "clause i (Ident k # r)" if "k \<in> set (clause_kws i)" "kw (Ident k) = Some k" for i k r
    using that by (auto simp: clause_def)
  show "clause 4 ts \<Longrightarrow> clause 3 (group_tokens gb @ ts)"
    using clause_mono [of 4 ts 3] by (auto simp: group_tokens_def clause_kws_def intro!: kw)
  show "clause 5 ts \<Longrightarrow> clause 4 (order_tokens ob @ ts)"
    using clause_mono [of 5 ts 4] by (auto simp: order_tokens_def clause_kws_def intro!: kw)
  show "clause 6 ts \<Longrightarrow> clause 5 (limit_tokens lim @ ts)"
    using clause_mono [of 6 ts 5] by (auto simp: limit_tokens_def clause_kws_def intro!: kw split: option.split)
  show "clause 3 ts \<Longrightarrow> clause 2 ((case selection of None \<Rightarrow> [] | Some e \<Rightarrow> Ident ''WHERE'' # print_expr e) @ ts)"
    using clause_mono [of 3 ts 2] by (auto simp: clause_kws_def intro!: kw split: option.split)
  show "clause 1 ts \<Longrightarrow> clause 0 (print_ref from @ ts)"
    using clause_mono [of 1 ts 0] by (cases "from") (auto simp: clause_kws_def intro!: kw)
  have "clause 1 (print_join j @ r)" for j r
    by (cases j) (auto simp: clause_kws_def intro!: kw split: join_kind.split)
  then show "clause 2 ts \<Longrightarrow> clause 1 (concat (map print_join joins) @ ts)"
    using clause_mono [of 2 ts 1] by (cases joins) auto
qed

lemma run_col_refs:
  assumes "list_all wf_name cs" "cs \<noteq> []" "clause i rest"
  shows "comma_list (parse_col_ref std) (commas (map name_tokens cs) @ rest) = Some (Inr (cs, rest))"
proof -
  have "runs (comma_list (parse_col_ref std)) (commas (map name_tokens cs) @ rest) cs rest"
    by (rule runs_comma_list [where F = follow])
      (use assms clause_follow [OF assms(3)] in \<open>auto simp: list_all_iff intro: runs_col_ref dest: followD(1)\<close>)
  then show ?thesis by (simp add: runs_def)
qed

lemma run_group_by:
  assumes "list_all wf_name gb" "clause 4 rest"
  shows "parse_group_by std (group_tokens gb @ rest) = Some (Inr (gb, rest))"
  using run_col_refs [OF assms(1) _ assms(2)] clause_not_kw [OF assms(2), of "''GROUP''"]
  by (auto simp: parse_group_by_def group_tokens_def run_simps clause_kws_def)

lemma run_order_by:
  assumes "list_all (\<lambda>k. wf_name (fst k)) ob" "clause 5 rest"
  shows "parse_order_by std (order_tokens ob @ rest) = Some (Inr (ob, rest))"
proof -
  let ?key = "pbind (parse_col_ref std) (\<lambda>c. eat_kw ''DESC'' (pret (c, True)) (pthen (has_kw ''ASC'') (pret (c, False))))"
  have key: "runs ?key (order_key k @ r) k r" if "wf_name (fst k)" "follow r" for k r
  proof (cases "snd k")
    case True
    have "parse_col_ref std (name_tokens (fst k) @ Ident ''DESC'' # r) = Some (Inr (fst k, Ident ''DESC'' # r))"
      using runs_col_ref [OF that(1)] by (simp add: runs_def)
    then show ?thesis using True by (cases k) (simp add: runs_def order_key_def run_simps)
  next
    case False
    have "parse_col_ref std (name_tokens (fst k) @ r) = Some (Inr (fst k, r))"
      using runs_col_ref [OF that(1) followD(1) [OF that(2)]] by (simp add: runs_def)
    then show ?thesis using False followD [OF that(2)] by (cases k) (simp add: runs_def order_key_def run_simps)
  qed
  have "comma_list ?key (commas (map order_key ob) @ rest) = Some (Inr (ob, rest))" if "ob \<noteq> []"
    using runs_comma_list [of ob follow ?key order_key rest] key assms(1) that clause_follow [OF assms(2)]
    by (auto simp: list_all_iff runs_def)
  then show ?thesis
    using clause_not_kw [OF assms(2), of "''ORDER''"]
    by (auto simp: parse_order_by_def order_tokens_def run_simps clause_kws_def)
qed

lemma run_limit:
  assumes "case lim of None \<Rightarrow> True | Some n \<Rightarrow> n < 2 ^ 64" "clause 6 rest"
  shows "parse_limit std (limit_tokens lim @ rest) = Some (Inr (lim, rest))"
proof (cases lim)
  case None
  then show ?thesis
    using clause_not_kw [OF assms(2), of "''LIMIT''"] by (simp add: parse_limit_def pif_some_def limit_tokens_def run_simps clause_kws_def)
next
  case (Some n)
  have "parse_digits (dec_string n) = Some n" "hd (dec_string n) \<noteq> CHR ''+''"
    using dec_string_digits [of n] digit_not [of "hd (dec_string n)"] by (auto simp: parse_digits_def list_all_iff)
  then have "parse_usize (dec_string n) = Some n"
    using assms(1) Some by (simp add: parse_usize_def)
  then show ?thesis using Some by (simp add: parse_limit_def pif_some_def limit_tokens_def run_simps)
qed

lemma run_where:
  assumes "clause 3 rest" "\<And>e. selection = Some e \<Longrightarrow> pex (print_expr e @ rest) = Some (Inr (e, rest))"
  shows "parse_where pex ((case selection of None \<Rightarrow> [] | Some e \<Rightarrow> Ident ''WHERE'' # print_expr e) @ rest) = Some (Inr (selection, rest))"
  using assms clause_not_kw [OF assms(1), of "''WHERE''"]
  by (cases selection) (simp_all add: parse_where_def pif_some_def run_simps clause_kws_def)

section \<open>FROM, JOIN and the projection\<close>

lemma run_table_ref:
  assumes "wf_ref r" "r \<noteq> REmpty" "\<not> at_sym ''.'' rest" "\<And>q al. r = Derived q al \<Longrightarrow> reads_stmt sel q"
  shows "parse_table_ref std sel (tl (print_ref r) @ rest) = Some (Inr (r, rest))"
proof (cases r)
  case (RTable n)
  then have "wf_name n" using assms(1) by simp
  then show ?thesis
    using RTable assms(3) by (cases rule: wf_name_cases) (simp_all add: parse_table_ref_def run_simps)
next
  case (Derived q al)
  have "kw (Ident al) \<noteq> Some ''AS''" using Derived assms(1) plain_kw [of al "''AS''"] by (simp add: reserved_def)
  moreover have "sel (print_stmt q @ Sym '')'' # Ident al # rest) = Some (Inr (q, Sym '')'' # Ident al # rest))"
    using assms(4) [OF Derived] by (simp add: reads_stmt_def runs_def)
  moreover obtain ts where "print_stmt q = Ident ''SELECT'' # ts" using print_stmt_head by blast
  ultimately show ?thesis
    using Derived by (simp add: parse_table_ref_def parse_derived_def run_simps)
qed (use assms(2) in simp)

lemma run_from:
  assumes "wf_ref from" "clause 1 rest" "\<And>q al. from = Derived q al \<Longrightarrow> reads_stmt sel q"
  shows "eat_kw ''FROM'' (parse_table_ref std sel) (pret REmpty) (print_ref from @ rest) = Some (Inr (from, rest))"
proof (cases "from = REmpty")
  case True
  then show ?thesis using clause_not_kw [OF assms(2), of "''FROM''"] by (simp add: run_simps clause_kws_def)
next
  case False
  have "\<not> at_sym ''.'' rest" using clause_follow [OF assms(2)] followD(1) by blast
  then have "parse_table_ref std sel (tl (print_ref from) @ rest) = Some (Inr (from, rest))"
    using run_table_ref [OF assms(1) False] assms(3) by blast
  moreover have "print_ref from = Ident ''FROM'' # tl (print_ref from)" using False by (cases "from") simp_all
  ultimately show ?thesis
    by (metis append_Cons at_kw_Cons kw_lits(2) list.sel(3) run_eat(2))
qed

lemma run_join_cmp:
  assumes "wf_join_cmp e" "follow rest"
  shows "parse_join_cmp std sel (print_expr e @ rest) = Some (Inr (e, rest))"
proof -
  have op: "parse_operand std sel (print_expr x @ r) = Some (Inr (x, r))" if "value_operand x" "\<not> at_sym ''.'' r" "\<not> at_sym '':'' r" for x r
    using run_operand [of sel x r std] that by (simp add: operand_reads_def)
  show ?thesis
    using assms(1) followD [OF assms(2)] op [of "EColumn _" rest] op [of "ELiteral _" rest] op [of "EColumn _" "Sym (op_sym _) # _"]
    by (cases e rule: wf_join_cmp.cases) (simp_all add: parse_join_cmp_def run_simps compare_join_def)
qed

definition and_loop :: "std_text \<Rightarrow> select_stmt parser \<Rightarrow> expr \<Rightarrow> expr parser" where
  "and_loop std sel = loop (\<lambda>left. eat_kw ''AND'' (pbind (parse_join_cmp std sel) (\<lambda>right. continue_with (EAnd left right))) (break_with left))"

lemma run_join_one:
  "wf_join_cmp e \<Longrightarrow> runs (and_loop std sel e) rest v r \<Longrightarrow> follow rest \<Longrightarrow>
   runs (pbind (parse_join_cmp std sel) (and_loop std sel)) (print_expr e @ rest) v r"
  by (simp add: runs_def run_simps run_join_cmp)

lemma run_join_cond_loop:
  assumes "wf_join_cond c" "runs (and_loop std sel c) rest v r" "follow rest"
  shows "runs (pbind (parse_join_cmp std sel) (and_loop std sel)) (print_cond c @ rest) v r"
  using assms
proof (induction c arbitrary: rest)
  case (EAnd l x)
  have "parse_join_cmp std sel (print_expr x @ rest) = Some (Inr (x, rest))"
    using run_join_cmp EAnd.prems(1,3) by simp
  then have step: "runs (eat_kw ''AND'' (pbind (parse_join_cmp std sel) (\<lambda>right. continue_with (EAnd l right))) (break_with l))
      (Ident ''AND'' # print_expr x @ rest) (Inl (EAnd l x)) rest"
    by (simp add: runs_def run_simps)
  have "runs (and_loop std sel l) (Ident ''AND'' # print_expr x @ rest) v r"
    unfolding and_loop_def by (rule loop_continue, rule step, simp, rule EAnd.prems(2) [unfolded and_loop_def])
  then show ?case using EAnd.IH(1) [of "Ident ''AND'' # print_expr x @ rest"] EAnd.prems(1) by simp
qed (use run_join_one in \<open>simp_all del: print_expr.simps\<close>)

lemma run_join_cond:
  assumes "wf_join_cond c" "follow rest" "\<not> at_kw ''AND'' rest"
  shows "parse_join_cond std sel (print_cond c @ rest) = Some (Inr (c, rest))"
proof -
  have "runs (and_loop std sel c) rest c rest"
    unfolding and_loop_def by (rule loop_break) (simp add: runs_def run_simps assms(3))
  from run_join_cond_loop [OF assms(1) this assms(2)] show ?thesis
    by (simp add: parse_join_cond_def runs_def and_loop_def)
qed

lemma run_join_kind:
  "parse_join_kind std ((case k of Inner \<Rightarrow> [Ident ''JOIN''] | Left \<Rightarrow> [Ident ''LEFT'', Ident ''JOIN'']) @ ts) = Some (Inr (Some k, ts))"
  by (cases k) (simp_all add: parse_join_kind_def run_simps)

lemma run_joins:
  assumes "list_all wf_join joins" "clause 2 rest"
    and "\<And>k q al c. JoinClause k (Derived q al) c \<in> set joins \<Longrightarrow> reads_stmt sel q"
  shows "parse_joins std sel (concat (map print_join joins) @ rest) = Some (Inr (joins, rest))"
proof -
  let ?body = "\<lambda>js. pbind (parse_join_kind std) (\<lambda>kind. case kind of None \<Rightarrow> break_with js
   | Some k \<Rightarrow> pbind (parse_table_ref std sel) (\<lambda>r. pthen (expect_kw std ''ON'') (pbind (parse_join_cond std sel) (\<lambda>cond.
         continue_with (js @ [JoinClause k r cond])))))"
  have none: "parse_join_kind std rest = Some (Inr (None, rest))"
    using clause_not_kw [OF assms(2)] by (simp add: parse_join_kind_def run_simps clause_kws_def)
  have "runs (loop ?body acc) (concat (map print_join joins) @ rest) (acc @ joins) rest" for acc
    using assms(1,3)
  proof (induction joins arbitrary: acc)
    case Nil
    show ?case by (simp, rule loop_break) (simp add: runs_def run_simps none)
  next
    case (Cons j js)
    obtain k t c where j: "j = JoinClause k t c" by (cases j)
    let ?r = "concat (map print_join js) @ rest"
    have f: "follow ?r" "\<not> at_kw ''AND'' ?r" using clause_follow [OF clause_step(6) [OF assms(2)]] by blast+
    have "parse_table_ref std sel (tl (print_ref t) @ Ident ''ON'' # print_cond c @ ?r) = Some (Inr (t, Ident ''ON'' # print_cond c @ ?r))"
      by (rule run_table_ref) (use Cons.prems j in auto)
    moreover have "parse_join_cond std sel (print_cond c @ ?r) = Some (Inr (c, ?r))"
      by (rule run_join_cond) (use Cons.prems j f in auto)
    ultimately have step: "runs (?body acc) (print_join j @ ?r) (Inl (acc @ [j])) ?r"
      using run_join_kind [of std k] by (simp add: runs_def run_simps j)
    have ih: "runs (loop ?body (acc @ [j])) ?r ((acc @ [j]) @ js) rest"
      by (rule Cons.IH) (use Cons.prems in auto)
    have "print_join j \<noteq> []" by (cases k) (simp_all add: j)
    then have "runs (loop ?body acc) (print_join j @ ?r) ((acc @ [j]) @ js) rest"
      by (intro loop_continue [where body = ?body and s = acc, OF step _ ih]) simp
    then show ?case by simp
  qed
  from this [of "[]"] show ?thesis by (simp add: parse_joins_def runs_def)
qed

lemma at_call_Ident: "at_call (Ident s # ts) \<longleftrightarrow> at_sym ''('' ts"
  by (cases ts) (auto simp: at_call_def at_sym_def peek_def)

lemma at_literal_heads [simp]: "at_literal (Ident s # ts) = False" "at_literal (Number n # ts)" "at_literal (Str n # ts)"
  by (simp_all add: at_literal_def)

lemma plain_item:
  assumes "plain_ident s"
  shows "kw (Ident s) \<noteq> Some ''COUNT''" "parse_agg_func (kw (Ident s)) = None"
  using plain_kw [OF assms] by (auto simp: reserved_def kw_def)

lemma not_subquery_Ident [simp]: "\<not> at_subquery (Ident s # ts)" "\<not> at_subquery (Number s # ts)" "\<not> at_subquery (Str s # ts)"
    "\<not> at_subquery (Sym ''*'' # ts)"
  by (simp_all add: at_subquery_def)

lemma run_alias:
  assumes "case al of None \<Rightarrow> True | Some a \<Rightarrow> plain_ident a" "follow rest"
  shows "pif_some ''AS'' (expect_ident std) (alias_tokens al @ rest) = Some (Inr (al, rest))"
  using assms followD(11) [OF assms(2)] by (cases al) (simp_all add: pif_some_def alias_tokens_def run_simps)

lemma run_no_casts: "\<not> at_sym '':'' rest \<Longrightarrow> ignored_casts std rest = Some (Inr ((), rest))"
proof -
  assume a: "\<not> at_sym '':'' rest"
  have "runs (ignored_casts std) rest () rest"
    unfolding ignored_casts_def by (rule loop_break) (simp add: runs_def run_simps a)
  then show ?thesis by (simp add: runs_def)
qed

lemma run_column_item:
  assumes "wf_name c" "follow rest"
  shows "parse_item std sel (name_tokens c @ rest) = Some (Inr (IColumn c, rest))"
proof -
  have ref: "parse_col_ref std (name_tokens c @ rest) = Some (Inr (c, rest))"
    using runs_col_ref [OF assms(1) followD(1) [OF assms(2)]] by (simp add: runs_def)
  obtain s ts where n: "name_tokens c = Ident s # ts" "plain_ident s" "ts = [] \<or> (\<exists>u. ts = Sym ''.'' # u)"
    using assms(1) by (cases rule: wf_name_cases) auto
  have "\<not> at_call (name_tokens c @ rest)"
    using n(1,3) followD(3) [OF assms(2)] by (auto simp: at_call_Ident)
  then show ?thesis
    using ref plain_item [OF n(2)] unfolding n(1) by (simp add: parse_item_def run_simps)
qed

lemma run_literal_item:
  assumes "wf_item (ILiteral d)" "follow rest"
  shows "parse_item std sel (lit_tokens d @ rest) = Some (Inr (ILiteral d, rest))"
proof -
  have d: "wf_lit d" using assms(1) by (cases d) simp_all
  have "parse_operand std sel (lit_tokens d @ rest) = Some (Inr (ELiteral d, rest))"
    using runs_operand [of "ELiteral d" rest std sel] d followD [OF assms(2)] by (simp add: runs_def)
  then have "literal_item std sel (lit_tokens d @ rest) = Some (Inr (ILiteral d, rest))"
    using followD [OF assms(2)] by (simp add: literal_item_def literal_of_def run_simps)
  then show ?thesis
    using assms(1) by (cases d) (simp_all add: parse_item_def run_simps at_call_def)
qed

lemma parse_agg_name: "parse_agg_func (Some (agg_name f)) = Some f" and agg_not_count: "agg_name f \<noteq> ''COUNT''"
  by (cases f; simp)+

lemma run_item:
  assumes "wf_item i" "follow rest" "\<And>q al. i = ISubquery q al \<Longrightarrow> reads_stmt sel q"
  shows "parse_item std sel (print_item i @ rest) = Some (Inr (i, rest))"
proof (cases i)
  case (Aggregate f c)
  have "parse_col_ref std (name_tokens c @ Sym '')'' # rest) = Some (Inr (c, Sym '')'' # rest))"
    using runs_col_ref [of c "Sym '')'' # rest" std] assms(1) Aggregate by (simp add: runs_def)
  then show ?thesis
    using Aggregate by (simp add: parse_item_def run_simps parse_agg_name agg_not_count del: parse_agg_func.simps)
next
  case (ISubquery q al)
  then show ?thesis
    using assms(1) run_alias [of al rest std] assms(2) run_paren_query [OF assms(3) [OF ISubquery], of std "alias_tokens al @ rest"]
    by (simp add: parse_item_def run_simps at_subquery_print)
next
  case (SysFunc f al)
  then show ?thesis
    using assms(1) plain_item [of f] run_alias [of al rest std] assms(2) run_no_casts [OF followD(2) [OF assms(2)], of std]
    by (simp add: parse_item_def run_simps at_call_Ident)
qed (use assms run_column_item run_literal_item in \<open>simp_all add: parse_item_def run_simps\<close>)

lemma run_items:
  assumes "list_all wf_item items" "items \<noteq> []" "clause 0 rest" "\<And>q al. ISubquery q al \<in> set items \<Longrightarrow> reads_stmt sel q"
  shows "comma_list (parse_item std sel) (commas (map print_item items) @ rest) = Some (Inr (items, rest))"
proof -
  have "runs (comma_list (parse_item std sel)) (commas (map print_item items) @ rest) items rest"
  proof (rule runs_comma_list [where F = follow])
    fix i r
    assume "i \<in> set items" "follow r"
    then show "runs (parse_item std sel) (print_item i @ r) i r"
      unfolding runs_def by (intro run_item) (use assms in \<open>auto simp: list_all_iff\<close>)
  qed (use assms clause_follow [OF assms(3)] in auto)
  then show ?thesis by (simp add: runs_def)
qed

section \<open>Statements\<close>

lemma length_commas: "x \<in> set xs \<Longrightarrow> length x \<le> length (commas xs)"
  by (induction xs) (auto simp: commas_Cons)

lemma length_concat: "x \<in> set xs \<Longrightarrow> length x \<le> length (concat xs)"
  by (induction xs) auto

lemma run_body:
  assumes "wf_stmt q" "closes rest"
    and stmts: "\<And>x. wf_stmt x \<Longrightarrow> length (print_stmt x) + 1 < length (print_stmt q) \<Longrightarrow> reads_stmt sel x"
    and exprs: "\<And>e r. wf_expr e \<Longrightarrow> length (print_expr e) + 1 < length (print_stmt q) \<Longrightarrow> follow r \<Longrightarrow> \<not> at_kw ''AND'' r \<Longrightarrow> \<not> at_kw ''OR'' r \<Longrightarrow>
      pex (print_expr e @ r) = Some (Inr (e, r))"
  shows "pthen (expect_kw std ''SELECT'') (parse_select_body std sel pex) (print_stmt q @ rest) = Some (Inr (q, rest))"
proof -
  obtain items f joins selection ob lim gb where q: "q = SelectStmt items f joins selection ob lim gb" by (cases q)
  have wf: "items \<noteq> []" "list_all wf_item items" "wf_ref f" "list_all wf_join joins" "\<And>e. selection = Some e \<Longrightarrow> wf_expr e"
    "list_all wf_name gb" "list_all (\<lambda>k. wf_name (fst k)) ob" "case lim of None \<Rightarrow> True | Some n \<Rightarrow> n < 2 ^ 64"
    using assms(1) by (auto simp: q)
  let ?r6 = rest
  let ?r5 = "limit_tokens lim @ ?r6"
  let ?r4 = "order_tokens ob @ ?r5"
  let ?r3 = "group_tokens gb @ ?r4"
  let ?r2 = "(case selection of None \<Rightarrow> [] | Some e \<Rightarrow> Ident ''WHERE'' # print_expr e) @ ?r3"
  let ?r1 = "concat (map print_join joins) @ ?r2"
  let ?r0 = "print_ref f @ ?r1"
  have c6: "clause 6 ?r6" using assms(2) by (simp add: clause_def)
  note c5 = clause_step(3) [OF c6, of lim]
  note c4 = clause_step(2) [OF c5, of ob]
  note c3 = clause_step(1) [OF c4, of gb]
  note c2 = clause_step(4) [OF c3, of selection]
  note c1 = clause_step(6) [OF c2, of joins]
  note c0 = clause_step(5) [OF c1, of f]
  have items: "comma_list (parse_item std sel) (commas (map print_item items) @ ?r0) = Some (Inr (items, ?r0))"
  proof (rule run_items [OF wf(2,1) c0])
    fix x al
    assume i: "ISubquery x al \<in> set items"
    then have "length (print_item (ISubquery x al)) \<le> length (commas (map print_item items))"
      by (intro length_commas) (simp only: set_map, rule imageI)
    then show "reads_stmt sel x" using i wf(2) by (intro stmts) (auto simp: q list_all_iff)
  qed
  have "from": "eat_kw ''FROM'' (parse_table_ref std sel) (pret REmpty) ?r0 = Some (Inr (f, ?r1))"
    by (rule run_from [OF wf(3) c1]) (use wf(3) in \<open>auto simp: q intro!: stmts\<close>)
  have joins: "parse_joins std sel ?r1 = Some (Inr (joins, ?r2))"
  proof (rule run_joins [OF wf(4) c2])
    fix k x al c
    assume j: "JoinClause k (Derived x al) c \<in> set joins"
    then have "length (print_join (JoinClause k (Derived x al) c)) \<le> length (concat (map print_join joins))"
      by (intro length_concat) (simp only: set_map, rule imageI)
    then show "reads_stmt sel x" using j wf(4) by (intro stmts) (auto simp: q list_all_iff)
  qed
  have "where": "parse_where pex ?r2 = Some (Inr (selection, ?r3))"
    by (rule run_where [OF c3]) (use wf(5) clause_follow [OF c3] in \<open>auto simp: q intro!: exprs\<close>)
  have tail: "parse_group_by std ?r3 = Some (Inr (gb, ?r4))" "parse_order_by std ?r4 = Some (Inr (ob, ?r5))" "parse_limit std ?r5 = Some (Inr (lim, ?r6))"
    by (rule run_group_by [OF wf(6) c4], rule run_order_by [OF wf(7) c5], rule run_limit [OF wf(8) c6])
  show ?thesis
    unfolding parse_select_body_def q using items "from" joins "where" tail by (simp add: run_simps)
qed

definition ends_expr :: "token list \<Rightarrow> bool" where
  "ends_expr ts \<longleftrightarrow> follow ts \<and> \<not> at_kw ''AND'' ts \<and> \<not> at_kw ''OR'' ts"

lemma ends_paren: "ends_expr (Sym '')'' # ts)" "closes (Sym '')'' # ts)"
  by (simp_all add: ends_expr_def closes_def peek_def)

lemma print_parse:
  "(\<forall>q rest. wf_stmt q \<longrightarrow> length (print_stmt q) \<le> k \<longrightarrow> closes rest \<longrightarrow> parse_select_stmt std k (print_stmt q @ rest) = Some (Inr (q, rest))) \<and>
   (\<forall>e rest. wf_expr e \<longrightarrow> length (print_expr e) < k \<longrightarrow> ends_expr rest \<longrightarrow> parse_expr std k (print_expr e @ rest) = Some (Inr (e, rest))) \<and>
   (\<forall>e rest. wf_expr e \<longrightarrow> length (inner_tokens e) < k \<longrightarrow> ends_expr rest \<longrightarrow> parse_expr std k (inner_tokens e @ rest) = Some (Inr (e, rest)))"
proof (induction k)
  case 0
  have "0 < length (print_stmt q)" for q using print_stmt_head [of q] by auto
  then show ?case by simp
next
  case (Suc n)
  let ?sel = "parse_select_stmt std n" and ?pex = "parse_expr std n"
  have stmts: "reads_stmt ?sel q" if "wf_stmt q" "length (print_stmt q) \<le> n" for q
    using Suc.IH that ends_paren(2) by (simp add: reads_stmt_def runs_def)
  have exprs: "reads_expr ?pex e" if "wf_expr e" "length (print_expr e) < n" for e
    using Suc.IH that ends_paren(1) by (simp add: reads_expr_def)
  have inners: "reads_inner ?pex e" if "wf_expr e" "length (inner_tokens e) < n" for e
    using Suc.IH that ends_paren(1) by (simp add: reads_inner_def)
  have nots: "parse_not std ?sel ?pex (print_expr e @ rest) = Some (Inr (e, rest))"
    if "wf_expr e" "length (print_expr e) \<le> n" "follow rest" for e rest
    by (rule run_not) (use that in \<open>auto intro: stmts exprs inners\<close>)
  have sel: "parse_select_stmt std (Suc n) (print_stmt q @ rest) = Some (Inr (q, rest))"
    if "wf_stmt q" "length (print_stmt q) \<le> Suc n" "closes rest" for q rest
    unfolding parse_select_stmt.simps
  proof (rule run_body [OF that(1,3)])
    fix e r
    assume "wf_expr e" "length (print_expr e) + 1 < length (print_stmt q)" "follow r" "\<not> at_kw ''AND'' r" "\<not> at_kw ''OR'' r"
    then show "?pex (print_expr e @ r) = Some (Inr (e, r))"
      using Suc.IH that(2) by (simp add: ends_expr_def)
  qed (use that(2) in \<open>auto intro: stmts\<close>)
  have ex: "parse_expr std (Suc n) (print_expr e @ rest) = Some (Inr (e, rest))" if "wf_expr e" "length (print_expr e) \<le> n" "ends_expr rest" for e rest
    unfolding parse_expr.simps by (rule run_or(1) [OF nots]) (use that in \<open>auto simp: ends_expr_def\<close>)
  have inn: "parse_expr std (Suc n) (inner_tokens e @ rest) = Some (Inr (e, rest))" if "wf_expr e" "length (inner_tokens e) \<le> n" "ends_expr rest" for e rest
    unfolding parse_expr.simps by (rule run_or(2) [OF nots]) (use that in \<open>auto simp: ends_expr_def\<close>)
  show ?case using sel ex inn by (simp only: less_Suc_eq_le) blast
qed

fun select_statement :: "select_stmt \<Rightarrow> statement" where
  "select_statement (SelectStmt items from joins selection ob lim gb) = SSelect items from joins selection ob lim gb"


definition example_query :: select_stmt where
  "example_query = SelectStmt [IColumn ''u.id'', CountStar] (RTable ''users'') []
     (Some (EAnd (ECmp (EColumn ''name'') Ne (ELiteral (DText (''x'' @ [CHR 0x27]))))
        (ENot (EInSubquery (EColumn ''id'') (SelectStmt [IColumn ''uid''] (RTable ''bans'') [] None [] None []) False))))
     [(''id'', True)] (Some 10) []"

lemma example_names:
  "plain_ident ''u''" "plain_ident ''id''" "plain_ident ''users''" "plain_ident ''name''" "plain_ident ''uid''" "plain_ident ''bans''"
  by (simp_all add: plain_ident_def reserved_def ascii_upper_def char_of_def)

lemma example_dotted: "wf_name ''u.id''"
  unfolding wf_name_def using example_names by (intro disjI2 exI [of _ "''u''"] exI [of _ "''id''"]) simp

lemma example_wf: "wf_stmt example_query"
  using example_names example_dotted by (simp add: example_query_def wf_name_def)

lemma example_idents:
  "wf_ident ''u''" "wf_ident ''id''" "wf_ident ''users''" "wf_ident ''name''" "wf_ident ''uid''" "wf_ident ''bans''" "wf_ident ''SELECT''"
  "wf_ident ''FROM''" "wf_ident ''WHERE''" "wf_ident ''AND''" "wf_ident ''NOT''" "wf_ident ''IN''" "wf_ident ''ORDER''" "wf_ident ''BY''"
  "wf_ident ''DESC''" "wf_ident ''LIMIT''" "wf_ident ''COUNT''"
  by (simp_all add: wf_ident_def ident_char_def is_ascii_alphabetic_def is_ascii_digit_def is_digit_def)

lemma example_others: "wf_number ''10''" "valid_str (''x'' @ [CHR 0x27])"
  by (simp_all add: wf_number_def wf_digits_def is_digit_def valid_ascii del: str_bytes_simps)

lemma example_limit: "dec_string 10 = ''10''"
  by code_simp

lemma example_tokens: "list_all wf_token (print_stmt example_query)"
  using example_idents example_others example_limit
  by (simp add: example_query_def name_tokens_def order_tokens_def order_key_def group_tokens_def limit_tokens_def negation_def single_syms_def
      del: dec_string.simps)

definition example_std :: std_text where
  "example_std = \<lparr>dbg_token = \<lambda>_. ''?'', dbg_datum = \<lambda>_. ''?'', dbg_expr = \<lambda>_. ''?'', f64_text = \<lambda>_. ''0'', f64_parse = \<lambda>_. None\<rparr>"


end
