(* ===== verification/Spec2Isabelle.thy ===== *)
theory Spec2Isabelle
  imports Mvcc_Isolation Recovery_Correct Access_Path_Correct Join_Plan Lock_Rank Latch Privilege Sql_Parser_Total Sql_Round_Trip
begin

text \<open>
  A verification development of henchDB, a relational database engine in Rust. File names are relative to
  \<open>crates/engine/src\<close>.

  \<^bold>\<open>The program.\<close> A statement arrives as text, is split into tokens and parsed (\<open>sql/lexer.rs\<close>, \<open>sql/parser.rs\<close>), passes
  the privilege gate (\<open>db/privilege.rs\<close>) and is planned: the WHERE clause gives an access path, a join gives an order
  and hash keys (\<open>db/plan.rs\<close>), and the predicate is evaluated on every row read (\<open>sql/eval.rs\<close>). Tables
  (\<open>table.rs\<close>) keep their rows in a B+ tree (\<open>btree.rs\<close>) under order-preserving keys (\<open>types.rs\<close>), wide rows in an overflow
  pool of slotted pages (\<open>page.rs\<close>), and secondary indexes in further trees. A commit (\<open>db/mod.rs\<close>) appends its records
  to the write-ahead log (\<open>wal.rs\<close>, \<open>wal/shard.rs\<close>), waits until they are durable and installs them, recording the
  superseded rows for the snapshots of other sessions (\<open>db/mvcc.rs\<close>). A checkpoint writes the snapshot file
  (\<open>catalog.rs\<close>); opening reads it and replays the log. Nodes are latched (\<open>latch.rs\<close>), reclaimed by epochs
  (\<open>epoch.rs\<close>), and the engine's locks are ranked (\<open>lock_rank.rs\<close>).

  \<^bold>\<open>Foundations.\<close>
  \<^item> \<open>Prelude\<close>: machine integers as words, results, byte codecs, UTF-8, generic lemmas. \<open>Engine_Error\<close>: \<open>error.rs\<close>.
  \<^item> \<open>Values\<close>, \<open>Key_Codec\<close>, \<open>Date_Time\<close>: \<open>types.rs\<close>. Doubles are their 64 bits. The order of encoded keys is the order of
    the values, index entries sort by value and then by key, DATETIME text reads back.
  \<^item> \<open>Codec\<close>, \<open>Crc\<close>: the readers that \<open>wal.rs\<close> and \<open>catalog.rs\<close> share; the table-driven CRC equals the bitwise one.

  \<^bold>\<open>Storage.\<close>
  \<^item> \<open>BTree_Model\<close> (the operations), \<open>BTree_Order\<close>, \<open>BTree_Write\<close>, \<open>BTree_Ops\<close>, \<open>BTree_Delete\<close>, \<open>BTree_Range\<close>, \<open>BTree\<close>:
    every history of operations keeps the invariant and refines a finite map; range scans are exact. The descent
    restarts as the source does; the fuel is the height of the tree, and the one restart that never ends is a theorem.
  \<^item> \<open>Page\<close>, \<open>Pool\<close>, \<open>Pool_Heap\<close>, \<open>Pool_Store\<close>, \<open>Pool_Grace\<close>: slotted pages refine a map, damage is detected; the buffer
    pool refines a heap of values through eviction and failing writes, and survives reopening.
  \<^item> \<open>Epoch\<close>: pinned readers and reclamation as a step relation; what a pinned thread can reach is not freed.
    \<open>Latch\<close>: optimistic readers and writers on one version word; a validated read saw one version.
    \<open>Lock_Rank\<close>: threads that respect the ranks do not deadlock.
  \<^item> \<open>Table_Types\<close>, \<open>Table\<close>, \<open>Table_Store\<close>, \<open>Table_Scan\<close>, \<open>Table_Correct\<close>, \<open>Stats\<close>: \<open>table.rs\<close> and \<open>stats.rs\<close>. A table over tree,
    pool and indexes refines a map of rows; index scans equal filtered scans; validation, defaults, auto-increment.

  \<^bold>\<open>Durability and transactions.\<close>
  \<^item> \<open>Wal_Codec\<close>, \<open>Wal_Log\<close>: records and their frames; a torn tail is cut, damage is reported. \<open>Wal_Writer\<close>,
    \<open>Wal_Durability\<close>: group commit with appenders, syncer, failing writes and crashes interleaved; an acknowledged
    commit survives every crash.
  \<^item> \<open>Mvcc\<close>, \<open>Mvcc_Isolation\<close>: version histories; commits and readers interleaved, a reader sees the table as of the
    commit its snapshot was pinned at.
  \<^item> \<open>Catalog\<close>, \<open>Recovery\<close>, \<open>Recovery_Redo\<close>, \<open>Recovery_Open\<close>, \<open>Recovery_Correct\<close>: the snapshot file reads back; opening gives
    exactly the transactions whose commit record survived, each as a whole, and the rows the live database had.

  \<^bold>\<open>SQL.\<close>
  \<^item> \<open>Sql_Ast\<close>: \<open>sql/ast.rs\<close>. \<open>Sql_Lexer\<close>: the lexer; rendered tokens read back, whatever text a literal holds.
    \<open>Sql_Parser\<close>: the parser, function by function over the tokens that are left. \<open>Sql_Parser_Total\<close>: it returns on every
    text. Its loops are bounded by the number of tokens and its recursion by one more; the theorem says that neither
    bound is reached, because every round and every nesting consumes a token. \<open>Sql_Round_Trip\<close>: a printer for SELECT, and
    that its text parses to the statement it prints.
  \<^item> \<open>Sql_Eval\<close>: predicate evaluation; the memoised LIKE is exact. \<open>Access_Path\<close>, \<open>Utf8\<close>, \<open>Access_Path_Correct\<close>: an access path
    misses no row of its predicate. \<open>Join_Plan\<close>: the join order is a permutation that respects LEFT joins, and hash keys
    agree with the evaluator.
  \<^item> \<open>Privilege\<close>: the gate passes a statement exactly when every table in it is granted; the effect of GRANT, REVOKE and
    of every history of user management.

  \<^bold>\<open>Interfaces.\<close> Locales state what one part asks of another, and each is interpreted on the model's own definitions:
  what a change of one leaf must do for the descent and its retry loop to change the tree so (\<open>leaf_op\<close>, \<open>grow_op\<close>,
  \<open>retry_loop\<close>, for insert, upsert, update and remove), what an encoder and its reader owe each other for lists and
  records of them to read back (\<open>cursor_codec\<close>, \<open>cursor_advance\<close>, \<open>stream_codec\<close>, for the log, the statistics and the snapshot),
  what the table layer relies on of a B+ tree
  (\<open>map_tree\<close>), of the overflow pool (\<open>blob_store\<close>, \<open>graceful_store\<close>) and of a change to its indexes (\<open>index_writer\<close>).

  \<^bold>\<open>Findings.\<close> Where the code does not do what it means to, the behaviour is a theorem or a lemma here: an insertion
  that never returns after a removal, commits lost by a checkpoint or swallowed behind a torn record, writes of a
  crashed transaction that come back, column types that the log does not keep, NULL comparisons under NOT, and others.

  \<^bold>\<open>Not modelled.\<close> The execution of joins, aggregates, subqueries and batches (\<open>db/join.rs\<close>, \<open>db/batch.rs\<close>, \<open>db/query.rs\<close>,
  \<open>db/subquery.rs\<close>, \<open>db/memo.rs\<close>, \<open>db/cost.rs\<close>), the statement executors (\<open>db/dml.rs\<close>, \<open>db/ddl.rs\<close>) and foreign-key cascades
  (\<open>db/fk.rs\<close>, but for the indexes it creates at open): they work on the layers modelled here and were left out for
  their size. Optimistic readers that run inside a concurrent change of the B+ tree: the latch and the epochs are
  modelled on their own, the tree one operation at a time. Files as such: what a file holds is a parameter, renames and
  directories are not described. Backup, archive and replication copy logs and snapshots whose formats are modelled.
  Wire protocols, authentication, the connection runtime, metrics and reports are input, output or cryptography.
\<close>

end
